(* ===== verification/Prelude.thy ===== *)
theory Prelude
  imports Main "HOL-Library.Char_ord" "HOL-Library.List_Lexorder" "HOL-Library.AList"
    "HOL-Library.Multiset"
begin

section \<open>Prelude: results, dictionaries and strings\<close>

text \<open>
  What every component of the development shares.

  \<^item> A fallible Python function is a HOL function into a sum: \<open>Inl e\<close> is the exception
    raised, \<open>Inr x\<close> the value returned; \<open>rbind\<close> runs the rest of a body after a call that
    may raise.
  \<^item> A Python \<open>dict\<close> whose insertion order can be observed is an association list with
    distinct keys: \<open>map_of\<close> reads it, \<open>AList.update\<close> is \<open>d[k] = v\<close> (an existing key
    keeps its place, a new one goes to the end).
  \<^item> A Python \<open>str\<close> is the byte string of its UTF-8 encoding (a HOL \<open>string\<close>, whose
    characters are bytes). UTF-8 keeps the order of code points, so comparing and sorting
    strings is the same on both; ASCII characters are themselves.
\<close>

subsection \<open>Theorem collections\<close>

named_theorems py_string \<open>string functions of the prelude, for evaluating closed terms\<close>
named_theorems result_simps \<open>elimination of successful and failing monadic steps\<close>
named_theorems dict_simps \<open>reading association lists after an update\<close>

subsection \<open>Results\<close>

definition rbind :: "'e + 'a \<Rightarrow> ('a \<Rightarrow> 'e + 'b) \<Rightarrow> 'e + 'b" where
  "rbind r f = (case r of Inl e \<Rightarrow> Inl e | Inr x \<Rightarrow> f x)"

definition is_ok :: "'e + 'a \<Rightarrow> bool" where
  "is_ok r = (case r of Inl _ \<Rightarrow> False | Inr _ \<Rightarrow> True)"

lemma rbind_simps [simp]:
  "rbind (Inl e) f = Inl e"
  "rbind (Inr x) f = f x"
  by (simp_all add: rbind_def)

lemma is_ok_simps [simp]:
  "\<not> is_ok (Inl e)"
  "is_ok (Inr x)"
  by (simp_all add: is_ok_def)

lemma rbind_Inr_iff [result_simps]:
  "rbind r f = Inr y \<longleftrightarrow> (\<exists>x. r = Inr x \<and> f x = Inr y)"
  by (cases r) auto

lemma rbind_Inl_iff [result_simps]:
  "rbind r f = Inl e \<longleftrightarrow> r = Inl e \<or> (\<exists>x. r = Inr x \<and> f x = Inl e)"
  by (cases r) auto

lemma is_ok_iff: "is_ok r \<longleftrightarrow> (\<exists>x. r = Inr x)"
  by (cases r) auto

text \<open>A loop that may raise: the first error ends it.\<close>

fun rfold :: "('s \<Rightarrow> 'a \<Rightarrow> 'e + 's) \<Rightarrow> 's \<Rightarrow> 'a list \<Rightarrow> 'e + 's" where
  "rfold f s [] = Inr s"
| "rfold f s (x # xs) = rbind (f s x) (\<lambda>s'. rfold f s' xs)"

lemma rfold_append: "rfold f s (xs @ ys) = rbind (rfold f s xs) (\<lambda>s'. rfold f s' ys)"
proof (induction xs arbitrary: s)
  case Nil
  show ?case by simp
next
  case (Cons x xs)
  then show ?case by (cases "f s x") simp_all
qed

lemma rfold_invariant:
  assumes "rfold f s xs = Inr t" and "P s"
    and "\<And>s x t. x \<in> set xs \<Longrightarrow> P s \<Longrightarrow> f s x = Inr t \<Longrightarrow> P t"
  shows "P t"
  using assms by (induction xs arbitrary: s) (auto simp: result_simps)

subsection \<open>Dictionaries\<close>

type_synonym ('k, 'v) dict = "('k \<times> 'v) list"

definition wf_dict :: "('k, 'v) dict \<Rightarrow> bool" where
  "wf_dict d \<longleftrightarrow> distinct (map fst d)"

definition keys :: "('k, 'v) dict \<Rightarrow> 'k list" where
  "keys d = map fst d"

definition vals :: "('k, 'v) dict \<Rightarrow> 'v list" where
  "vals d = map snd d"

lemma map_of_update [dict_simps]: "map_of (AList.update k v d) = (map_of d)(k \<mapsto> v)"
  by (simp add: update_conv')

lemma wf_dict_update [intro]: "wf_dict d \<Longrightarrow> wf_dict (AList.update k v d)"
  by (simp add: wf_dict_def distinct_update)

lemma wf_dict_Nil [simp]: "wf_dict []"
  by (simp add: wf_dict_def)

lemma wf_dict_Cons: "wf_dict ((k, v) # d) \<longleftrightarrow> k \<notin> fst ` set d \<and> wf_dict d"
  by (auto simp: wf_dict_def)

lemma map_of_wf_dict: "wf_dict d \<Longrightarrow> (k, v) \<in> set d \<longleftrightarrow> map_of d k = Some v"
  by (simp add: wf_dict_def)

lemma update_fresh: "map_of d k = None \<Longrightarrow> AList.update k v d = d @ [(k, v)]"
  by (induction d) (auto split: if_splits)

lemma set_update_subset: "set (AList.update k v d) \<subseteq> insert (k, v) (set d)"
  by (induction d) (auto split: if_splits)

lemma map_of_snoc: "map_of d k = None \<Longrightarrow> map_of (d @ [(k, v)]) k = Some v"
  by (simp add: map_add_def)

lemma keys_update_old: "map_of d k \<noteq> None \<Longrightarrow> keys (AList.update k v d) = keys d"
  by (induction d) (auto simp: keys_def split: if_splits)

lemma keys_update_fresh: "map_of d k = None \<Longrightarrow> keys (AList.update k v d) = keys d @ [k]"
  by (simp add: update_fresh keys_def)

lemma map_of_None_keys: "map_of d k = None \<longleftrightarrow> k \<notin> set (keys d)"
  by (simp add: map_of_eq_None_iff keys_def)

end
