(* ===== verification/Budget.thy ===== *)
theory Budget
  imports Prelude
begin

section \<open>Token budgets: declarations, narrowing and the accountant\<close>

text \<open>
  The model of \<open>src/ract/memory/budget.py\<close> and \<open>src/ract/memory/composition.py\<close>.

  A \<open>budget_declaration\<close> is the frozen budget of one model-reaching function; its constructor
  validates it (\<open>post_init\<close>). \<open>narrow\<close> applies recorded narrowings,
  \<open>apply_composition_override\<close> and \<open>apply_runtime_narrowing\<close> are its two callers. An
  \<open>accountant\<close> seats named sections of the assembled context and refuses the invocation
  past \<open>input_max\<close> or \<open>hard_ceiling\<close>.

  Python integers are \<open>int\<close>. The constructors' \<open>isinstance\<close> checks hold by typing,
  except in the playbook override, whose values come from YAML and keep their dynamic
  type (\<open>yaml_value\<close>).
\<close>

subsection \<open>Declarations\<close>

record budget_declaration =
  function_name :: string
  input_min :: int
  input_target :: int
  input_max :: int
  output_min :: int
  output_target :: int
  output_max :: int
  reasoning_headroom :: int
  hard_ceiling :: int

datatype source = Composition | Runtime | Cli

record narrowing =
  n_function :: string
  n_field :: string
  n_old :: int
  n_new :: int
  n_source :: source

record budget_section =
  sec_name :: string
  sec_tokens :: int
  sec_hash :: string

datatype budget_error =
    ValueError string
  | WideningRefused string int int
  | BudgetExceeded budget_declaration string int string
  | BudgetInputMaxExceeded string budget_declaration int string int
  | CompositionSchemaError string
  | RuntimeNarrowingFloorError int int

text \<open>\<open>_NARROWABLE_FIELDS\<close>, and \<open>getattr\<close> on a declaration by field name.\<close>

definition narrowable_fields :: "string list" where
  "narrowable_fields =
    [''input_min'', ''input_target'', ''input_max'', ''output_min'', ''output_target'',
     ''output_max'', ''reasoning_headroom'', ''hard_ceiling'']"

definition decl_fields :: "budget_declaration \<Rightarrow> (string, int) dict" where
  "decl_fields d =
    [(''input_min'', input_min d), (''input_target'', input_target d),
     (''input_max'', input_max d), (''output_min'', output_min d),
     (''output_target'', output_target d), (''output_max'', output_max d),
     (''reasoning_headroom'', reasoning_headroom d), (''hard_ceiling'', hard_ceiling d)]"

definition get_field :: "budget_declaration \<Rightarrow> string \<Rightarrow> int" where
  "get_field d f = (case map_of (decl_fields d) f of Some v \<Rightarrow> v | None \<Rightarrow> 0)"

text \<open>\<open>BudgetDeclaration.__post_init__\<close>: the checks in the order the code makes them.\<close>

definition post_init :: "budget_declaration \<Rightarrow> budget_error + budget_declaration" where
  "post_init d =
    (if function_name d = [] then Inl (ValueError ''function must be a non-empty string'')
     else case find (\<lambda>(f, v). v < 0) (decl_fields d) of
       Some (f, v) \<Rightarrow> Inl (ValueError (f @ '' must be non-negative''))
     | None \<Rightarrow>
         if input_min d > input_target d
         then Inl (ValueError ''input_min must be <= input_target'')
         else if input_target d > input_max d
         then Inl (ValueError ''input_target must be <= input_max'')
         else if output_min d > output_target d
         then Inl (ValueError ''output_min must be <= output_target'')
         else if output_target d > output_max d
         then Inl (ValueError ''output_target must be <= output_max'')
         else if hard_ceiling d < input_max d + output_max d + reasoning_headroom d
         then Inl (ValueError ''hard_ceiling must be >= input_max + output_max + reasoning_headroom'')
         else Inr d)"

text \<open>\<open>BudgetNarrowing.__post_init__\<close>; its \<open>source\<close> is one of three by typing.\<close>

definition narrowing_post_init :: "narrowing \<Rightarrow> budget_error + narrowing" where
  "narrowing_post_init n =
    (if n_function n = [] then Inl (ValueError ''function must be a non-empty string'')
     else if n_field n = [] then Inl (ValueError ''field_name must be a non-empty string'')
     else if n_old n < 0 then Inl (ValueError ''old must be non-negative'')
     else if n_new n < 0 then Inl (ValueError ''new must be non-negative'')
     else if n_new n > n_old n then Inl (WideningRefused (n_field n) (n_old n) (n_new n))
     else Inr n)"

text \<open>\<open>BudgetSection.__new__\<close>.\<close>

definition new_section :: "string \<Rightarrow> int \<Rightarrow> string \<Rightarrow> budget_error + budget_section" where
  "new_section nm tokens h =
    (if nm = [] then Inl (ValueError ''name must be a non-empty string'')
     else if tokens < 0 then Inl (ValueError ''token_count must be a non-negative int'')
     else if h = [] then Inl (ValueError ''content_hash must be a non-empty string'')
     else Inr \<lparr>sec_name = nm, sec_tokens = tokens, sec_hash = h\<rparr>)"

subsection \<open>Narrowing\<close>

text \<open>
  One turn of the loop of \<open>narrow\<close>: \<open>updated\<close> is the dict of values set so far, read
  with the declaration's own value as the default.
\<close>

definition current_value :: "budget_declaration \<Rightarrow> (string, int) dict \<Rightarrow> string \<Rightarrow> int" where
  "current_value d updated f =
    (case map_of updated f of Some v \<Rightarrow> v | None \<Rightarrow> get_field d f)"

definition narrow_step ::
    "budget_declaration \<Rightarrow> (string, int) dict \<Rightarrow> narrowing \<Rightarrow> budget_error + (string, int) dict" where
  "narrow_step d updated e =
    (if n_function e \<noteq> function_name d
     then Inl (ValueError ''function does not match declaration.function'')
     else if n_field e \<notin> set narrowable_fields
     then Inl (ValueError ''field_name is not narrowable'')
     else
       let current = current_value d updated (n_field e) in
       if n_old e \<noteq> current then Inl (ValueError ''old disagrees with the current value'')
       else if n_new e > current then Inl (WideningRefused (n_field e) current (n_new e))
       else Inr (AList.update (n_field e) (n_new e) updated))"

definition with_updates :: "budget_declaration \<Rightarrow> (string, int) dict \<Rightarrow> budget_declaration" where
  "with_updates d updated =
    \<lparr>function_name = function_name d,
     input_min = current_value d updated ''input_min'',
     input_target = current_value d updated ''input_target'',
     input_max = current_value d updated ''input_max'',
     output_min = current_value d updated ''output_min'',
     output_target = current_value d updated ''output_target'',
     output_max = current_value d updated ''output_max'',
     reasoning_headroom = current_value d updated ''reasoning_headroom'',
     hard_ceiling = current_value d updated ''hard_ceiling''\<rparr>"

definition narrow :: "budget_declaration \<Rightarrow> narrowing list \<Rightarrow> budget_error + budget_declaration" where
  "narrow d ns =
    rbind (rfold (narrow_step d) [] ns)
      (\<lambda>updated. if updated = [] then Inr d else post_init (with_updates d updated))"

subsection \<open>Composition overrides and runtime narrowing\<close>

datatype yaml_value = YInt int | YBool bool | YMap "(string \<times> yaml_value) list" | YOther string

definition sub_block_fields :: "(string, string list) dict" where
  "sub_block_fields = [(''input'', [''min'', ''target'', ''max'']), (''output'', [''min'', ''target'', ''max''])]"

definition require_int :: "yaml_value \<Rightarrow> string \<Rightarrow> budget_error + int" where
  "require_int v path =
    (case v of YInt i \<Rightarrow> Inr i | _ \<Rightarrow> Inl (CompositionSchemaError (path @ '' must be int'')))"

definition flatten_sub ::
    "string \<Rightarrow> string list \<Rightarrow> (string, int) dict \<Rightarrow> string \<times> yaml_value \<Rightarrow>
      budget_error + (string, int) dict" where
  "flatten_sub key allowed flat kv =
    (case kv of (sub_key, sub_value) \<Rightarrow>
      if sub_key \<notin> set allowed
      then Inl (CompositionSchemaError (''unknown composition override field '' @ key @ ''.'' @ sub_key))
      else
        let flat_key = key @ ''_'' @ sub_key in
        if map_of flat flat_key \<noteq> None
        then Inl (CompositionSchemaError (''composition override sets '' @ flat_key @ '' twice''))
        else rbind (require_int sub_value (key @ ''.'' @ sub_key))
          (\<lambda>i. Inr (AList.update flat_key i flat)))"

definition flatten_entry ::
    "(string, int) dict \<Rightarrow> string \<times> yaml_value \<Rightarrow> budget_error + (string, int) dict" where
  "flatten_entry flat kv =
    (case kv of (key, value) \<Rightarrow>
      if key \<notin> set narrowable_fields \<union> set (keys sub_block_fields)
      then Inl (CompositionSchemaError (''unknown composition override field '' @ key))
      else case map_of sub_block_fields key of
        Some allowed \<Rightarrow>
          (case value of
             YMap m \<Rightarrow> rfold (flatten_sub key allowed) flat m
           | _ \<Rightarrow> Inl (CompositionSchemaError (''composition override '' @ key @ '' must be a mapping'')))
      | None \<Rightarrow>
          if map_of flat key \<noteq> None
          then Inl (CompositionSchemaError (''composition override sets '' @ key @ '' twice''))
          else rbind (require_int value key) (\<lambda>i. Inr (AList.update key i flat)))"

definition flatten_override :: "(string, yaml_value) dict \<Rightarrow> budget_error + (string, int) dict" where
  "flatten_override ov = rfold flatten_entry [] ov"

definition override_step ::
    "budget_declaration \<Rightarrow> narrowing list \<Rightarrow> string \<times> int \<Rightarrow> budget_error + narrowing list" where
  "override_step base ns fv =
    (case fv of (field_name, new_value) \<Rightarrow>
      let old_value = get_field base field_name in
      if new_value > old_value then Inl (WideningRefused field_name old_value new_value)
      else rbind
        (narrowing_post_init
          \<lparr>n_function = function_name base, n_field = field_name, n_old = old_value,
           n_new = new_value, n_source = Composition\<rparr>)
        (\<lambda>n. Inr (ns @ [n])))"

definition apply_composition_override ::
    "budget_declaration \<Rightarrow> yaml_value \<Rightarrow> budget_error + budget_declaration" where
  "apply_composition_override base ov =
    (case ov of
       YMap m \<Rightarrow>
         rbind (flatten_override m)
           (\<lambda>flat. if flat = [] then Inr base
             else rbind (rfold (override_step base) [] flat) (narrow base))
     | _ \<Rightarrow> Inl (CompositionSchemaError ''playbook override must be a mapping''))"

definition runtime_check :: "budget_declaration \<Rightarrow> unit \<Rightarrow> narrowing \<Rightarrow> budget_error + unit" where
  "runtime_check base u e =
    (let floor = input_target base div 2 in
     if n_source e \<noteq> Runtime then Inl (ValueError ''entry source must be runtime'')
     else if n_field e = ''input_target'' \<and> n_new e < floor
     then Inl (RuntimeNarrowingFloorError (n_new e) floor)
     else Inr ())"

definition apply_runtime_narrowing ::
    "budget_declaration \<Rightarrow> narrowing list \<Rightarrow> budget_error + budget_declaration" where
  "apply_runtime_narrowing base ns =
    rbind (rfold (runtime_check base) () ns) (\<lambda>_. narrow base ns)"

subsection \<open>The accountant\<close>

record accountant =
  acc_declaration :: budget_declaration
  acc_sections :: "(string, budget_section) dict"
  acc_log :: "narrowing list"

definition new_accountant :: "budget_declaration \<Rightarrow> accountant" where
  "new_accountant d = \<lparr>acc_declaration = d, acc_sections = [], acc_log = []\<rparr>"

definition seat :: "accountant \<Rightarrow> budget_section \<Rightarrow> budget_error + accountant" where
  "seat a s =
    (if map_of (acc_sections a) (sec_name s) \<noteq> None
     then Inl (ValueError (''section '' @ sec_name s @ '' already seated''))
     else Inr (a\<lparr>acc_sections := AList.update (sec_name s) s (acc_sections a)\<rparr>))"

definition reseat :: "accountant \<Rightarrow> budget_section \<Rightarrow> budget_error + accountant" where
  "reseat a s =
    (if map_of (acc_sections a) (sec_name s) = None
     then Inl (ValueError (''section '' @ sec_name s @ '' not seated''))
     else Inr (a\<lparr>acc_sections := AList.update (sec_name s) s (acc_sections a)\<rparr>))"

definition record_narrowing :: "accountant \<Rightarrow> narrowing \<Rightarrow> accountant" where
  "record_narrowing a n = a\<lparr>acc_log := acc_log a @ [n]\<rparr>"

definition sections :: "accountant \<Rightarrow> budget_section list" where
  "sections a = vals (acc_sections a)"

definition used :: "accountant \<Rightarrow> string option \<Rightarrow> int" where
  "used a section_name =
    (case section_name of
       None \<Rightarrow> sum_list (map sec_tokens (sections a))
     | Some nm \<Rightarrow> (case map_of (acc_sections a) nm of None \<Rightarrow> 0 | Some s \<Rightarrow> sec_tokens s))"

definition remaining :: "accountant \<Rightarrow> string option \<Rightarrow> int" where
  "remaining a section_name = input_target (acc_declaration a) - used a section_name"

definition over_target :: "accountant \<Rightarrow> bool" where
  "over_target a \<longleftrightarrow> used a None > input_target (acc_declaration a)"

definition over_max :: "accountant \<Rightarrow> bool" where
  "over_max a \<longleftrightarrow> used a None > input_max (acc_declaration a)"

definition over_ceiling :: "accountant \<Rightarrow> bool" where
  "over_ceiling a \<longleftrightarrow> used a None > hard_ceiling (acc_declaration a)"

text \<open>\<open>_offending_section\<close>: the loop carries the running total.\<close>

fun offending_from :: "int \<Rightarrow> int \<Rightarrow> budget_section list \<Rightarrow> string \<times> int" where
  "offending_from boundary running [] = (''__none__'', 0)"
| "offending_from boundary running (s # ss) =
    (let running' = running + sec_tokens s in
     if running' > boundary then (sec_name s, running' - boundary)
     else offending_from boundary running' ss)"

definition offending_section :: "accountant \<Rightarrow> int \<Rightarrow> string \<times> int" where
  "offending_section a boundary = offending_from boundary 0 (sections a)"

definition refuse_if_over_max :: "accountant \<Rightarrow> budget_error + unit" where
  "refuse_if_over_max a =
    (if \<not> over_max a then Inr ()
     else case offending_section a (input_max (acc_declaration a)) of (nm, delta) \<Rightarrow>
       Inl (BudgetInputMaxExceeded (function_name (acc_declaration a)) (acc_declaration a)
              (used a None) nm delta))"

definition refuse_if_over_ceiling :: "accountant \<Rightarrow> budget_error + unit" where
  "refuse_if_over_ceiling a =
    (if \<not> over_ceiling a then Inr ()
     else case offending_section a (hard_ceiling (acc_declaration a)) of (nm, delta) \<Rightarrow>
       Inl (BudgetExceeded (acc_declaration a) nm delta ''hard_ceiling''))"

subsection \<open>Declarations that validate\<close>

definition wf_declaration :: "budget_declaration \<Rightarrow> bool" where
  "wf_declaration d \<longleftrightarrow>
    function_name d \<noteq> [] \<and>
    0 \<le> input_min d \<and> input_min d \<le> input_target d \<and> input_target d \<le> input_max d \<and>
    0 \<le> output_min d \<and> output_min d \<le> output_target d \<and> output_target d \<le> output_max d \<and>
    0 \<le> reasoning_headroom d \<and>
    input_max d + output_max d + reasoning_headroom d \<le> hard_ceiling d"

lemma no_negative_field:
  "find (\<lambda>(f, v). v < 0) (decl_fields d) = None \<longleftrightarrow>
    0 \<le> input_min d \<and> 0 \<le> input_target d \<and> 0 \<le> input_max d \<and> 0 \<le> output_min d \<and>
    0 \<le> output_target d \<and> 0 \<le> output_max d \<and> 0 \<le> reasoning_headroom d \<and> 0 \<le> hard_ceiling d"
  by (auto simp: find_None_iff decl_fields_def)

lemma post_init_ok_iff: "post_init d = Inr d' \<longleftrightarrow> d' = d \<and> wf_declaration d"
proof (cases "find (\<lambda>(f, v). v < 0) (decl_fields d)")
  case None
  then show ?thesis
    using no_negative_field [of d]
    by (auto simp: post_init_def wf_declaration_def)
next
  case (Some p)
  then have "\<not> wf_declaration d"
    using no_negative_field [of d] by (auto simp: wf_declaration_def)
  with Some show ?thesis by (cases p) (simp add: post_init_def)
qed

lemma post_init_wf: "wf_declaration d \<Longrightarrow> post_init d = Inr d"
  by (simp add: post_init_ok_iff)

subsection \<open>Field access\<close>

lemma get_field_simps [simp]:
  "get_field d ''input_min'' = input_min d"
  "get_field d ''input_target'' = input_target d"
  "get_field d ''input_max'' = input_max d"
  "get_field d ''output_min'' = output_min d"
  "get_field d ''output_target'' = output_target d"
  "get_field d ''output_max'' = output_max d"
  "get_field d ''reasoning_headroom'' = reasoning_headroom d"
  "get_field d ''hard_ceiling'' = hard_ceiling d"
  by (simp_all add: get_field_def decl_fields_def)

lemma get_field_with_updates:
  "f \<in> set narrowable_fields \<Longrightarrow> get_field (with_updates d u) f = current_value d u f"
  by (auto simp: narrowable_fields_def with_updates_def)

lemma function_with_updates [simp]: "function_name (with_updates d u) = function_name d"
  by (simp add: with_updates_def)

lemma with_updates_cong:
  assumes "function_name d = function_name d'"
    and "\<And>f. f \<in> set narrowable_fields \<Longrightarrow> current_value d u f = current_value d' u' f"
  shows "with_updates d u = with_updates d' u'"
  using assms by (simp add: with_updates_def narrowable_fields_def)

lemma with_updates_Nil [simp]: "with_updates d [] = d"
  by (simp add: with_updates_def current_value_def)

lemma current_value_Nil [simp]: "current_value d [] f = get_field d f"
  by (simp add: current_value_def)

lemma current_value_update:
  "current_value d (AList.update f v u) g = (if g = f then v else current_value d u g)"
  by (simp add: current_value_def dict_simps)

subsection \<open>Narrowing, seen on field values\<close>

text \<open>
  What narrowing promises, without dictionaries: a valuation of the fields, changed by one
  entry at a time; an entry is taken only when it names the declaration, a narrowable
  field and that field's present value, and does not raise it.
\<close>

fun narrow_spec ::
    "string \<Rightarrow> (string \<Rightarrow> int) \<Rightarrow> narrowing list \<Rightarrow> (string \<Rightarrow> int) option" where
  "narrow_spec fn v [] = Some v"
| "narrow_spec fn v (e # es) =
    (if n_function e = fn \<and> n_field e \<in> set narrowable_fields \<and>
        n_old e = v (n_field e) \<and> n_new e \<le> v (n_field e)
     then narrow_spec fn (v(n_field e := n_new e)) es else None)"

lemma narrow_step_ok_iff:
  "narrow_step d u e = Inr u' \<longleftrightarrow>
    n_function e = function_name d \<and> n_field e \<in> set narrowable_fields \<and>
    n_old e = current_value d u (n_field e) \<and> n_new e \<le> current_value d u (n_field e) \<and>
    u' = AList.update (n_field e) (n_new e) u"
  by (auto simp: narrow_step_def Let_def)

lemma narrow_loop_refines:
  "(\<exists>u'. rfold (narrow_step d) u ns = Inr u' \<and> current_value d u' = v) \<longleftrightarrow>
    narrow_spec (function_name d) (current_value d u) ns = Some v"
proof (induction ns arbitrary: u)
  case Nil
  show ?case by simp
next
  case (Cons e es)
  have upd: "current_value d (AList.update (n_field e) (n_new e) u)
      = (current_value d u)(n_field e := n_new e)"
    by (auto simp: current_value_update)
  have step: "rfold (narrow_step d) u (e # es) = Inr u' \<longleftrightarrow>
      n_function e = function_name d \<and> n_field e \<in> set narrowable_fields \<and>
      n_old e = current_value d u (n_field e) \<and> n_new e \<le> current_value d u (n_field e) \<and>
      rfold (narrow_step d) (AList.update (n_field e) (n_new e) u) es = Inr u'" for u'
    by (auto simp: result_simps narrow_step_ok_iff)
  show ?case
    using Cons.IH [of "AList.update (n_field e) (n_new e) u"]
    unfolding step narrow_spec.simps upd [symmetric] by auto
qed

lemma narrow_loop_updated_Nil:
  "rfold (narrow_step d) u ns = Inr [] \<Longrightarrow> u = [] \<and> ns = []"
proof (induction ns arbitrary: u)
  case Nil
  then show ?case by simp
next
  case (Cons e es)
  then obtain u' where "u' = AList.update (n_field e) (n_new e) u"
    and "rfold (narrow_step d) u' es = Inr []"
    by (auto simp: result_simps narrow_step_ok_iff)
  with Cons.IH [of u'] show ?case by (auto simp: update_nonempty)
qed

lemma narrow_ok_iff:
  "narrow d ns = Inr d' \<longleftrightarrow>
    (\<exists>u. rfold (narrow_step d) [] ns = Inr u \<and> d' = with_updates d u \<and>
         (ns = [] \<or> wf_declaration d'))"
proof (cases "rfold (narrow_step d) [] ns")
  case (Inl e)
  then show ?thesis by (simp add: narrow_def)
next
  case (Inr u)
  show ?thesis
  proof (cases "u = []")
    case True
    with Inr narrow_loop_updated_Nil [of d "[]" ns] show ?thesis by (auto simp: narrow_def)
  next
    case False
    with Inr have "ns \<noteq> []" by auto
    with Inr False show ?thesis by (auto simp: narrow_def post_init_ok_iff)
  qed
qed

lemma narrow_spec_le:
  "narrow_spec fn v ns = Some v' \<Longrightarrow> v' f \<le> v f"
proof (induction ns arbitrary: v)
  case Nil
  then show ?case by simp
next
  case (Cons e es)
  from Cons.prems have "narrow_spec fn (v(n_field e := n_new e)) es = Some v'"
    and le: "n_new e \<le> v (n_field e)"
    by (simp_all split: if_splits)
  from Cons.IH [OF this(1)] le show ?case by (auto split: if_splits)
qed

lemma declaration_eqI:
  assumes "function_name d = function_name d'"
    and "\<And>f. f \<in> set narrowable_fields \<Longrightarrow> get_field d f = get_field d' f"
  shows "d = d'"
  using with_updates_cong [of d d' "[]" "[]"] assms by simp

lemma narrow_ok_fields:
  assumes "narrow d ns = Inr d'"
  shows "\<exists>v. narrow_spec (function_name d) (get_field d) ns = Some v \<and>
    function_name d' = function_name d \<and> (\<forall>f \<in> set narrowable_fields. get_field d' f = v f)"
proof -
  from assms obtain u where u: "rfold (narrow_step d) [] ns = Inr u" and d': "d' = with_updates d u"
    by (auto simp: narrow_ok_iff)
  from u narrow_loop_refines [of d "[]" ns "current_value d u"]
  have "narrow_spec (function_name d) (current_value d []) ns = Some (current_value d u)"
    by blast
  moreover have "current_value d [] = get_field d" by (rule ext) simp
  ultimately show ?thesis using d' by (auto simp: get_field_with_updates)
qed

lemma narrow_ok_wf: "wf_declaration d \<Longrightarrow> narrow d ns = Inr d' \<Longrightarrow> wf_declaration d'"
  by (auto simp: narrow_ok_iff)

lemma narrow_ok_le:
  "narrow d ns = Inr d' \<Longrightarrow> f \<in> set narrowable_fields \<Longrightarrow> get_field d' f \<le> get_field d f"
  using narrow_ok_fields [of d ns d'] narrow_spec_le by metis

lemma narrow_cong_current:
  assumes "function_name d = function_name d1"
    and "\<And>f. f \<in> set narrowable_fields \<Longrightarrow> current_value d u f = current_value d1 u1 f"
    and "rfold (narrow_step d) u ms = r" and "rfold (narrow_step d1) u1 ms = r1"
  shows "(case (r, r1) of
     (Inl e, Inl e1) \<Rightarrow> e = e1
   | (Inr w, Inr w1) \<Rightarrow> with_updates d w = with_updates d1 w1
   | _ \<Rightarrow> False)"
  using assms
proof (induction ms arbitrary: u u1)
  case Nil
  have "with_updates d u = with_updates d1 u1"
    by (rule with_updates_cong) (use Nil.prems(1,2) in simp_all)
  with Nil.prems(3,4) show ?case by auto
next
  case (Cons e es)
  let ?u = "AList.update (n_field e) (n_new e) u" and ?u1 = "AList.update (n_field e) (n_new e) u1"
  have upd: "current_value d ?u f = current_value d1 ?u1 f" if "f \<in> set narrowable_fields" for f
    using Cons.prems(2) [OF that] by (simp add: current_value_update)
  show ?case
  proof (cases "n_function e = function_name d \<and> n_field e \<in> set narrowable_fields \<and>
      n_old e = current_value d u (n_field e) \<and> n_new e \<le> current_value d u (n_field e)")
    case True
    then have "narrow_step d u e = Inr ?u" and "narrow_step d1 u1 e = Inr ?u1"
      using Cons.prems(1,2) by (auto simp: narrow_step_ok_iff)
    with Cons.prems(3,4) have "rfold (narrow_step d) ?u es = r" and "rfold (narrow_step d1) ?u1 es = r1"
      by simp_all
    with Cons.IH [OF Cons.prems(1) upd] show ?thesis by blast
  next
    case False
    have "narrow_step d u e = narrow_step d1 u1 e \<or>
        narrow_step d u e = Inr ?u \<and> narrow_step d1 u1 e = Inr ?u1"
      using Cons.prems(1) Cons.prems(2) [of "n_field e"] by (simp add: narrow_step_def Let_def)
    moreover have "narrow_step d u e \<noteq> Inr w" for w
      using False by (auto simp: narrow_step_ok_iff)
    ultimately have "\<exists>er. narrow_step d u e = Inl er \<and> narrow_step d1 u1 e = Inl er"
      by (metis sum.exhaust)
    with Cons.prems(3,4) show ?thesis by auto
  qed
qed

lemma narrow_after_prefix:
  assumes "narrow d ns = Inr d1"
  shows "narrow d (ns @ ms) = narrow d1 ms"
proof (cases "ns = [] \<or> ms = []")
  case True
  with assms show ?thesis by (auto simp: narrow_def)
next
  case False
  from assms obtain u where u: "rfold (narrow_step d) [] ns = Inr u" and d1: "d1 = with_updates d u"
    by (auto simp: narrow_ok_iff)
  have cur: "current_value d u f = current_value d1 [] f" if "f \<in> set narrowable_fields" for f
    using that by (simp add: d1 get_field_with_updates)
  have rel: "(case (rfold (narrow_step d) u ms, rfold (narrow_step d1) [] ms) of
     (Inl e, Inl e1) \<Rightarrow> e = e1
   | (Inr w, Inr w1) \<Rightarrow> with_updates d w = with_updates d1 w1
   | _ \<Rightarrow> False)"
    by (rule narrow_cong_current) (use cur d1 in auto)
  have ne: "rfold (narrow_step d) u ms \<noteq> Inr []" "rfold (narrow_step d1) [] ms \<noteq> Inr []"
    using False narrow_loop_updated_Nil by blast+
  then show ?thesis
    using rel by (auto simp: narrow_def rfold_append u split: sum.splits)
qed

subsection \<open>Overrides and the runtime floor\<close>

lemma override_step_ok:
  assumes "override_step base ns (f, v) = Inr ns'"
  shows "\<exists>n. ns' = ns @ [n] \<and> n_field n = f \<and> n_new n = v"
  using assms
  by (auto simp: override_step_def Let_def narrowing_post_init_def result_simps split: if_splits)

lemma override_loop:
  assumes "rfold (override_step base) acc flat = Inr ns"
  shows "\<exists>ms. ns = acc @ ms \<and> map n_field ms = keys flat \<and> map n_new ms = vals flat"
  using assms
proof (induction flat arbitrary: acc)
  case Nil
  then show ?case by (simp add: keys_def vals_def)
next
  case (Cons fv flat)
  obtain f v where fv: "fv = (f, v)" by (cases fv)
  from Cons.prems obtain n where n: "n_field n = f" "n_new n = v"
    and rest: "rfold (override_step base) (acc @ [n]) flat = Inr ns"
    by (auto simp: fv result_simps dest!: override_step_ok)
  from Cons.IH [OF rest] obtain ms where "ns = (acc @ [n]) @ ms"
    and "map n_field ms = keys flat" and "map n_new ms = vals flat"
    by blast
  with n show ?case by (intro exI [of _ "n # ms"]) (simp add: fv keys_def vals_def)
qed

lemma narrow_spec_distinct:
  assumes "narrow_spec fn v ns = Some v'" and "distinct (map n_field ns)"
  shows "v' f = (case map_of (zip (map n_field ns) (map n_new ns)) f of Some x \<Rightarrow> x | None \<Rightarrow> v f)"
  using assms
proof (induction ns arbitrary: v)
  case Nil
  then show ?case by simp
next
  case (Cons e es)
  then have "v' f = (case map_of (zip (map n_field es) (map n_new es)) f of
      Some x \<Rightarrow> x | None \<Rightarrow> (v(n_field e := n_new e)) f)"
    by (auto split: if_splits)
  moreover have "map_of (zip (map n_field es) (map n_new es)) (n_field e) = None"
    using Cons.prems(2) by (force simp: map_of_eq_None_iff set_zip)
  ultimately show ?case
    by (cases "f = n_field e"; cases "map_of (zip (map n_field es) (map n_new es)) f") (simp_all del: map_of_zip_is_None)
qed

lemma flatten_step_wf:
  assumes "flatten_entry flat kv = Inr flat'" and "wf_dict flat"
  shows "wf_dict flat'"
proof -
  obtain key v where kv: "kv = (key, v)" by (cases kv)
  have sub: "rfold (flatten_sub key allowed) flat m = Inr flat' \<Longrightarrow> wf_dict flat'" for allowed m
    by (rule rfold_invariant [where P = wf_dict, OF _ assms(2)])
      (auto simp: flatten_sub_def Let_def result_simps split: if_splits prod.splits)
  show ?thesis
    using assms sub
    by (auto simp: kv flatten_entry_def result_simps split: if_splits option.splits yaml_value.splits)
qed

lemma flatten_override_wf: "flatten_override m = Inr flat \<Longrightarrow> wf_dict flat"
  unfolding flatten_override_def
  by (rule rfold_invariant [where P = wf_dict]) (auto intro: flatten_step_wf)

lemma override_fields:
  assumes "apply_composition_override base (YMap m) = Inr d'" and "flatten_override m = Inr flat"
    and "f \<in> set narrowable_fields"
  shows "get_field d' f = (case map_of flat f of Some v \<Rightarrow> v | None \<Rightarrow> get_field base f)"
proof (cases "flat = []")
  case True
  with assms show ?thesis by (simp add: apply_composition_override_def)
next
  case False
  with assms(1,2) obtain ns where ns: "rfold (override_step base) [] flat = Inr ns"
    and nar: "narrow base ns = Inr d'"
    by (auto simp: apply_composition_override_def result_simps)
  from override_loop [OF ns] have fl: "map n_field ns = keys flat" "map n_new ns = vals flat"
    by auto
  have "distinct (map n_field ns)"
    using flatten_override_wf [OF assms(2)] by (simp add: fl wf_dict_def keys_def)
  moreover have "zip (map n_field ns) (map n_new ns) = flat"
    unfolding fl by (simp add: keys_def vals_def zip_map_fst_snd)
  moreover from narrow_ok_fields [OF nar] obtain v
    where "narrow_spec (function_name base) (get_field base) ns = Some v"
      and "\<forall>f \<in> set narrowable_fields. get_field d' f = v f"
    by blast
  ultimately show ?thesis using narrow_spec_distinct assms(3) by metis
qed

lemma runtime_checks_each:
  "rfold (runtime_check base) u ns = Inr w \<Longrightarrow>
    \<forall>e \<in> set ns. n_source e = Runtime \<and>
      (n_field e = ''input_target'' \<longrightarrow> input_target base div 2 \<le> n_new e)"
proof (induction ns arbitrary: u)
  case Nil
  then show ?case by simp
next
  case (Cons e es)
  then show ?case by (force simp: result_simps runtime_check_def Let_def split: if_splits)
qed

lemma narrow_spec_last:
  assumes "narrow_spec fn v ns = Some v'"
    and "P (v f)" and "\<And>e. e \<in> set ns \<Longrightarrow> n_field e = f \<Longrightarrow> P (n_new e)"
  shows "P (v' f)"
  using assms
proof (induction ns arbitrary: v)
  case Nil
  then show ?case by simp
next
  case (Cons e es)
  from Cons.prems(1) have "narrow_spec fn (v(n_field e := n_new e)) es = Some v'"
    by (simp split: if_splits)
  moreover have "P ((v(n_field e := n_new e)) f)"
    using Cons.prems(2,3) by simp
  ultimately show ?case using Cons.IH Cons.prems(3) by simp
qed

subsection \<open>The accountant's gates\<close>

definition acc_inv :: "accountant \<Rightarrow> bool" where
  "acc_inv a \<longleftrightarrow> wf_dict (acc_sections a) \<and>
    (\<forall>(k, s) \<in> set (acc_sections a). k = sec_name s \<and> k \<noteq> [] \<and> 0 \<le> sec_tokens s)"

definition tokens_total :: "budget_section list \<Rightarrow> int" where
  "tokens_total ss = sum_list (map sec_tokens ss)"

lemma tokens_total_simps [simp]:
  "tokens_total [] = 0" "tokens_total (s # ss) = sec_tokens s + tokens_total ss" "tokens_total (ss @ ts) = tokens_total ss + tokens_total ts"
  by (simp_all add: tokens_total_def)

lemma used_None: "used a None = tokens_total (sections a)"
  by (simp add: used_def tokens_total_def)

lemma offending_from_spec:
  assumes "running \<le> boundary" and "boundary < running + tokens_total ss"
  shows "\<exists>pre s post. ss = pre @ s # post \<and> running + tokens_total pre \<le> boundary \<and>
    boundary < running + tokens_total (pre @ [s]) \<and>
    offending_from boundary running ss = (sec_name s, running + tokens_total (pre @ [s]) - boundary)"
  using assms
proof (induction ss arbitrary: running)
  case Nil
  then show ?case by simp
next
  case (Cons s ss)
  show ?case
  proof (cases "boundary < running + sec_tokens s")
    case True
    with Cons.prems show ?thesis by (intro exI [of _ "[]"]) auto
  next
    case False
    with Cons.prems obtain pre t post where "ss = pre @ t # post"
      and "running + sec_tokens s + tokens_total pre \<le> boundary"
      and "boundary < running + sec_tokens s + tokens_total (pre @ [t])"
      and "offending_from boundary (running + sec_tokens s) ss
        = (sec_name t, running + sec_tokens s + tokens_total (pre @ [t]) - boundary)"
      using Cons.IH [of "running + sec_tokens s"] by auto
    with False show ?thesis by (intro exI [of _ "s # pre"]) (auto simp: algebra_simps)
  qed
qed

text \<open>
  The contract of a pre-model gate: it lets an invocation through exactly when the seated
  total is within its boundary, and its error names the section that crossed it. Both
  gates of the accountant are instances.
\<close>

locale boundary_gate =
  fixes boundary :: "budget_declaration \<Rightarrow> int"
    and over :: "accountant \<Rightarrow> bool"
    and refuse :: "accountant \<Rightarrow> budget_error + unit"
    and raised :: "accountant \<Rightarrow> string \<Rightarrow> int \<Rightarrow> budget_error"
  assumes over_iff: "over a \<longleftrightarrow> boundary (acc_declaration a) < used a None"
    and refuse_within: "\<not> over a \<Longrightarrow> refuse a = Inr ()"
    and refuse_over: "over a \<Longrightarrow>
      refuse a = (case offending_section a (boundary (acc_declaration a)) of
        (nm, delta) \<Rightarrow> Inl (raised a nm delta))"
begin

lemma passes_iff: "refuse a = Inr () \<longleftrightarrow> used a None \<le> boundary (acc_declaration a)"
  by (cases "over a") (auto simp: refuse_within refuse_over over_iff split: prod.splits)

lemma names_crossing_section:
  assumes "0 \<le> boundary (acc_declaration a)" and "refuse a \<noteq> Inr ()"
  shows "\<exists>pre s post. sections a = pre @ s # post \<and>
    tokens_total pre \<le> boundary (acc_declaration a) \<and>
    boundary (acc_declaration a) < tokens_total (pre @ [s]) \<and>
    refuse a = Inl (raised a (sec_name s) (tokens_total (pre @ [s]) - boundary (acc_declaration a)))"
proof -
  from assms(2) have "over a" using refuse_within by blast
  then have "boundary (acc_declaration a) < 0 + tokens_total (sections a)"
    by (simp add: over_iff used_None)
  from offending_from_spec [OF assms(1) this] obtain pre s post
    where "sections a = pre @ s # post" and "tokens_total pre \<le> boundary (acc_declaration a)"
      and "boundary (acc_declaration a) < tokens_total (pre @ [s])"
      and "offending_section a (boundary (acc_declaration a))
        = (sec_name s, tokens_total (pre @ [s]) - boundary (acc_declaration a))"
    by (auto simp: offending_section_def)
  with refuse_over [OF \<open>over a\<close>] show ?thesis by auto
qed

end

interpretation max_gate: boundary_gate input_max over_max refuse_if_over_max
  "\<lambda>a. BudgetInputMaxExceeded (function_name (acc_declaration a)) (acc_declaration a) (used a None)"
  by unfold_locales (auto simp: over_max_def refuse_if_over_max_def)

interpretation ceiling_gate: boundary_gate hard_ceiling over_ceiling refuse_if_over_ceiling
  "\<lambda>a nm delta. BudgetExceeded (acc_declaration a) nm delta ''hard_ceiling''"
  by unfold_locales (auto simp: over_ceiling_def refuse_if_over_ceiling_def)

lemma seat_ok_iff:
  "seat a s = Inr a' \<longleftrightarrow> map_of (acc_sections a) (sec_name s) = None \<and>
    a' = a\<lparr>acc_sections := acc_sections a @ [(sec_name s, s)]\<rparr>"
  by (auto simp: seat_def update_fresh)

lemma total_update_old:
  assumes "wf_dict d" and "map_of d k = Some s"
  shows "tokens_total (vals (AList.update k t d)) = tokens_total (vals d) - sec_tokens s + sec_tokens t"
  using assms by (induction d) (auto simp: vals_def wf_dict_Cons split: if_splits)

subsection \<open>Properties\<close>


definition demo_declaration :: budget_declaration where
  "demo_declaration =
    \<lparr>function_name = ''plan'', input_min = 10, input_target = 80, input_max = 100,
     output_min = 5, output_target = 20, output_max = 40, reasoning_headroom = 10,
     hard_ceiling = 200\<rparr>"

definition demo_narrowing :: "string \<Rightarrow> int \<Rightarrow> int \<Rightarrow> narrowing" where
  "demo_narrowing f old new =
    \<lparr>n_function = ''plan'', n_field = f, n_old = old, n_new = new, n_source = Runtime\<rparr>"

lemmas demo_defs = demo_declaration_def demo_narrowing_def wf_declaration_def narrowable_fields_def


text \<open>Narrowing never widens: every field of the result is at most the field it came from,
  the function stays, and a valid declaration narrows only to a valid one.\<close>

theorem narrow_never_widens:
  assumes "wf_declaration d" and "narrow d ns = Inr d'"
  shows "function_name d' = function_name d \<and> wf_declaration d' \<and>
    (\<forall>f \<in> set narrowable_fields. get_field d' f \<le> get_field d f)"
  using narrow_ok_wf [OF assms] narrow_ok_le [OF assms(2)] narrow_ok_fields [OF assms(2)] by blast

theorem narrow_never_widens_witness:
  "input_max (demo_declaration\<lparr>input_max := 90\<rparr>) \<le> input_max demo_declaration"
proof -
  have "wf_declaration demo_declaration" by (simp add: demo_defs)
  moreover have "narrow demo_declaration [demo_narrowing ''input_max'' 100 90]
      = Inr (demo_declaration\<lparr>input_max := 90\<rparr>)"
    by code_simp
  ultimately show ?thesis
    using narrow_never_widens [of demo_declaration "[demo_narrowing ''input_max'' 100 90]"
        "demo_declaration\<lparr>input_max := 90\<rparr>"]
    by (auto simp: narrowable_fields_def)
qed

text \<open>Narrowing composes: after a first batch of narrowings has been applied, a further
  batch gives (result and error alike) what the two batches give in one call. So the
  \<open>old\<close> of an entry is compared with the value the entries before it left, not with the
  original declaration's.\<close>

theorem narrow_composes:
  assumes "narrow d ns = Inr d1"
  shows "narrow d (ns @ ms) = narrow d1 ms"
  using assms by (rule narrow_after_prefix)

theorem narrow_composes_witness:
  "narrow demo_declaration
     [demo_narrowing ''input_max'' 100 90, demo_narrowing ''input_max'' 90 85]
   = Inr (demo_declaration\<lparr>input_max := 85\<rparr>)"
proof -
  have "narrow demo_declaration [demo_narrowing ''input_max'' 100 90]
      = Inr (demo_declaration\<lparr>input_max := 90\<rparr>)"
    by code_simp
  from narrow_composes [OF this, of "[demo_narrowing ''input_max'' 90 85]"]
  have "narrow demo_declaration
     [demo_narrowing ''input_max'' 100 90, demo_narrowing ''input_max'' 90 85]
     = narrow (demo_declaration\<lparr>input_max := 90\<rparr>) [demo_narrowing ''input_max'' 90 85]"
    by simp
  also have "\<dots> = Inr (demo_declaration\<lparr>input_max := 85\<rparr>)" by code_simp
  finally show ?thesis .
qed

text \<open>A playbook override that is accepted sets exactly the fields it names (in flat or
  nested form) and leaves the others; the result validates and is nowhere above the base.\<close>

theorem composition_override_exact:
  assumes "wf_declaration base" and "apply_composition_override base (YMap m) = Inr d'"
  shows "\<exists>flat. flatten_override m = Inr flat \<and> wf_declaration d' \<and>
    function_name d' = function_name base \<and>
    (\<forall>f \<in> set narrowable_fields.
       get_field d' f = (case map_of flat f of Some v \<Rightarrow> v | None \<Rightarrow> get_field base f) \<and>
       get_field d' f \<le> get_field base f)"
proof -
  from assms(2) obtain flat where flat: "flatten_override m = Inr flat"
    by (auto simp: apply_composition_override_def result_simps)
  obtain ns where ns: "narrow base ns = Inr d'"
  proof (cases "flat = []")
    case True
    with assms(2) flat that [of "[]"] show ?thesis
      by (simp add: apply_composition_override_def narrow_def)
  next
    case False
    with assms(2) flat that show ?thesis
      by (auto simp: apply_composition_override_def result_simps)
  qed
  with flat override_fields [OF assms(2) flat] narrow_ok_wf [OF assms(1)] narrow_ok_le
    narrow_ok_fields
  show ?thesis by blast
qed

theorem composition_override_exact_witness:
  "\<exists>flat. flatten_override [(''input'', YMap [(''max'', YInt 90)]), (''output_min'', YInt 4)] = Inr flat \<and>
    map_of flat ''input_max'' = Some 90"
proof -
  let ?m = "[(''input'', YMap [(''max'', YInt 90)]), (''output_min'', YInt 4)]"
  have wf: "wf_declaration demo_declaration" by (simp add: demo_defs)
  have ok: "apply_composition_override demo_declaration (YMap ?m)
      = Inr (demo_declaration\<lparr>input_max := 90, output_min := 4\<rparr>)"
    by code_simp
  have "flatten_override ?m = Inr [(''input_max'', 90), (''output_min'', 4)]" by code_simp
  with composition_override_exact [OF wf ok] show ?thesis by auto
qed

text \<open>A runtime narrowing never takes \<open>input_target\<close> below half of the base's, whatever the
  number of entries of the call.\<close>

theorem runtime_narrowing_floor:
  assumes "wf_declaration base" and "apply_runtime_narrowing base ns = Inr d'"
  shows "input_target base div 2 \<le> input_target d' \<and> input_target d' \<le> input_target base"
proof -
  let ?P = "\<lambda>x. input_target base div 2 \<le> x"
  from assms(2) have chk: "\<forall>e \<in> set ns. n_field e = ''input_target'' \<longrightarrow> ?P (n_new e)"
    and nar: "narrow base ns = Inr d'"
    by (auto simp: apply_runtime_narrowing_def result_simps dest: runtime_checks_each)
  from narrow_ok_fields [OF nar] obtain v
    where v: "narrow_spec (function_name base) (get_field base) ns = Some v"
      and d': "\<forall>f \<in> set narrowable_fields. get_field d' f = v f"
    by blast
  from assms(1) have "0 \<le> input_target base" by (simp add: wf_declaration_def)
  then have "?P (get_field base ''input_target'')" by simp
  with v have "?P (v ''input_target'')"
    using chk by (auto intro: narrow_spec_last [where P = ?P])
  then show ?thesis
    using d' narrow_ok_le [OF nar, of "''input_target''"] by (simp add: narrowable_fields_def)
qed

theorem runtime_narrowing_floor_witness:
  "(80::int) div 2 \<le> input_target (demo_declaration\<lparr>input_target := 45\<rparr>)"
proof -
  have wf: "wf_declaration demo_declaration" by (simp add: demo_defs)
  have ok: "apply_runtime_narrowing demo_declaration
      [demo_narrowing ''input_target'' 80 60, demo_narrowing ''input_target'' 60 45]
      = Inr (demo_declaration\<lparr>input_target := 45\<rparr>)"
    by code_simp
  from runtime_narrowing_floor [OF wf ok] show ?thesis by (simp add: demo_declaration_def)
qed

text \<open>The pre-model gates decide on the seated total alone and in the right order: an
  invocation passes \<open>refuse_if_over_max\<close> exactly when the total is within \<open>input_max\<close>, and one
  that passes leaves room below \<open>hard_ceiling\<close> for the largest output and the headroom, so
  \<open>refuse_if_over_ceiling\<close> passes too.\<close>

theorem max_gate_leaves_headroom:
  assumes "wf_declaration (acc_declaration a)" and "refuse_if_over_max a = Inr ()"
  shows "used a None \<le> input_max (acc_declaration a) \<and>
    used a None + output_max (acc_declaration a) + reasoning_headroom (acc_declaration a)
      \<le> hard_ceiling (acc_declaration a) \<and>
    refuse_if_over_ceiling a = Inr ()"
  using assms
  by (auto simp: max_gate.passes_iff ceiling_gate.passes_iff wf_declaration_def)

definition demo_accountant :: accountant where
  "demo_accountant =
    (new_accountant demo_declaration)\<lparr>acc_sections :=
       [(''system'', \<lparr>sec_name = ''system'', sec_tokens = 60, sec_hash = ''aa''\<rparr>),
        (''bundle'', \<lparr>sec_name = ''bundle'', sec_tokens = 30, sec_hash = ''bb''\<rparr>)]\<rparr>"

theorem max_gate_leaves_headroom_witness:
  "used demo_accountant None = 90 \<and> refuse_if_over_ceiling demo_accountant = Inr ()"
proof -
  have wf: "wf_declaration (acc_declaration demo_accountant)"
    by (simp add: demo_accountant_def new_accountant_def demo_defs)
  have ok: "refuse_if_over_max demo_accountant = Inr ()" by code_simp
  have "used demo_accountant None = 90" by code_simp
  with max_gate_leaves_headroom [OF wf ok] show ?thesis by simp
qed

text \<open>A refusal at the hard ceiling names a section that really is seated: the sections before
  it fit, it is the one that crosses the ceiling, and the reported delta is the excess at
  that point (never the \<open>__none__\<close> fallback).\<close>

theorem ceiling_refusal_names_section:
  assumes "wf_declaration (acc_declaration a)" and "over_ceiling a"
  shows "\<exists>pre s post. sections a = pre @ s # post \<and>
    tokens_total pre \<le> hard_ceiling (acc_declaration a) \<and>
    hard_ceiling (acc_declaration a) < tokens_total (pre @ [s]) \<and>
    refuse_if_over_ceiling a =
      Inl (BudgetExceeded (acc_declaration a) (sec_name s)
        (tokens_total (pre @ [s]) - hard_ceiling (acc_declaration a)) ''hard_ceiling'')"
proof -
  have "0 \<le> hard_ceiling (acc_declaration a)" using assms(1) by (simp add: wf_declaration_def)
  moreover have "refuse_if_over_ceiling a \<noteq> Inr ()"
    using assms(2) by (simp add: ceiling_gate.passes_iff over_ceiling_def)
  ultimately show ?thesis by (rule ceiling_gate.names_crossing_section)
qed

theorem ceiling_refusal_names_section_witness:
  "\<exists>pre s post. sections (demo_accountant\<lparr>acc_sections := acc_sections demo_accountant @
      [(''diff'', \<lparr>sec_name = ''diff'', sec_tokens = 150, sec_hash = ''cc''\<rparr>)]\<rparr>) = pre @ s # post"
proof -
  let ?a = "demo_accountant\<lparr>acc_sections := acc_sections demo_accountant @
      [(''diff'', \<lparr>sec_name = ''diff'', sec_tokens = 150, sec_hash = ''cc''\<rparr>)]\<rparr>"
  have wf: "wf_declaration (acc_declaration ?a)"
    by (simp add: demo_accountant_def new_accountant_def demo_defs)
  have over: "over_ceiling ?a" by code_simp
  from ceiling_refusal_names_section [OF wf over] show ?thesis by blast
qed

text \<open>Seating is single-write and additive: a seated section adds exactly its tokens and goes
  last, the bookkeeping invariant (distinct names, each under its own name, no negative
  count) is kept, and a name that is taken is refused.\<close>

theorem seat_accounts:
  assumes "acc_inv a" and "sec_name s \<noteq> []" and "0 \<le> sec_tokens s"
  shows "(case seat a s of
      Inl e \<Rightarrow> used a (Some (sec_name s)) \<ge> 0 \<and> (\<exists>t. map_of (acc_sections a) (sec_name s) = Some t)
    | Inr a' \<Rightarrow> acc_inv a' \<and> sections a' = sections a @ [s] \<and>
        used a' None = used a None + sec_tokens s \<and> used a' (Some (sec_name s)) = sec_tokens s \<and>
        (\<exists>e. seat a' s = Inl e))"
proof (cases "map_of (acc_sections a) (sec_name s)")
  case None
  then have ok: "seat a s = Inr (a\<lparr>acc_sections := acc_sections a @ [(sec_name s, s)]\<rparr>)"
    by (simp add: seat_ok_iff)
  have "acc_inv (a\<lparr>acc_sections := acc_sections a @ [(sec_name s, s)]\<rparr>)"
    using assms None by (auto simp: acc_inv_def wf_dict_def map_of_eq_None_iff)
  with ok map_of_snoc [OF None, of s] show ?thesis
    by (simp add: sections_def vals_def used_None) (simp add: seat_def used_def)
next
  case (Some t)
  then have "(sec_name s, t) \<in> set (acc_sections a)" by (rule map_of_SomeD)
  with Some assms(1) show ?thesis by (auto simp: seat_def used_def acc_inv_def)
qed

theorem seat_accounts_witness:
  "acc_inv demo_accountant \<and> used demo_accountant (Some ''system'') \<ge> 0"
proof -
  let ?s = "\<lparr>sec_name = ''system'', sec_tokens = 1, sec_hash = ''x''\<rparr>"
  have inv: "acc_inv demo_accountant"
    by (simp add: acc_inv_def demo_accountant_def wf_dict_def)
  have "\<exists>e. seat demo_accountant ?s = Inl e"
    by (simp add: seat_def demo_accountant_def)
  with seat_accounts [OF inv, of ?s] inv show ?thesis by auto
qed

text \<open>Re-seating replaces in place: the order and the names stay, and the total changes by the
  difference of the two counts; a section that is not seated is refused.\<close>

theorem reseat_accounts:
  assumes "acc_inv a" and "reseat a s = Inr a'" and "0 \<le> sec_tokens s"
  shows "acc_inv a' \<and> keys (acc_sections a') = keys (acc_sections a) \<and>
    used a' None = used a None - used a (Some (sec_name s)) + sec_tokens s"
proof -
  from assms(2) obtain t where t: "map_of (acc_sections a) (sec_name s) = Some t"
    and a': "a' = a\<lparr>acc_sections := AList.update (sec_name s) s (acc_sections a)\<rparr>"
    by (auto simp: reseat_def split: if_splits)
  have wf: "wf_dict (acc_sections a)" using assms(1) by (simp add: acc_inv_def)
  note set_update_subset [of "sec_name s" s "acc_sections a"]
  moreover have "sec_name s \<noteq> []"
    using assms(1) map_of_SomeD [OF t] by (auto simp: acc_inv_def)
  ultimately have "acc_inv a'"
    using assms(1,3) wf by (fastforce simp: acc_inv_def a')
  then show ?thesis
    using total_update_old [OF wf t] keys_update_old [of "acc_sections a" "sec_name s" s] t
    by (simp add: a' used_def sections_def tokens_total_def)
qed

theorem reseat_accounts_witness:
  "used (demo_accountant\<lparr>acc_sections := AList.update ''system''
      \<lparr>sec_name = ''system'', sec_tokens = 10, sec_hash = ''x''\<rparr> (acc_sections demo_accountant)\<rparr>) None = 40"
proof -
  let ?s = "\<lparr>sec_name = ''system'', sec_tokens = 10, sec_hash = ''x''\<rparr>"
  have inv: "acc_inv demo_accountant"
    by (simp add: acc_inv_def demo_accountant_def wf_dict_def)
  have ok: "reseat demo_accountant ?s = Inr (demo_accountant\<lparr>acc_sections :=
      AList.update ''system'' ?s (acc_sections demo_accountant)\<rparr>)"
    by (simp add: reseat_def demo_accountant_def)
  have "used demo_accountant None = 90" and "used demo_accountant (Some ''system'') = 60"
    by code_simp+
  with reseat_accounts [OF inv ok] show ?thesis by simp
qed

end
