(* ===== verification/PyText.thy ===== *)
theory PyText
  imports Prelude
begin

section \<open>Text and bytes: the string operations of Python that the code uses\<close>

text \<open>
  The \<open>str\<close> and \<open>bytes\<close> operations the modelled code calls, on HOL strings: splitting and
  joining, decimal and hexadecimal numerals with their round trips, and strict UTF-8
  decoding. A \<open>str\<close> is represented by its UTF-8 bytes (see the prelude), so
  \<open>encode\<close> is the identity on well-formed text and \<open>decode\<close> is the test \<open>utf8_valid\<close>.
\<close>

subsection \<open>Characters\<close>

abbreviation code :: "char \<Rightarrow> nat" where
  "code c \<equiv> of_char c"

definition newline :: char where
  "newline = CHR 0x0A"

definition is_digit :: "char \<Rightarrow> bool" where
  "is_digit c \<longleftrightarrow> 48 \<le> code c \<and> code c \<le> 57"

definition is_space :: "char \<Rightarrow> bool" where
  "is_space c \<longleftrightarrow> code c = 32 \<or> code c = 9 \<or> code c = 10 \<or> code c = 13"

definition isascii :: "string \<Rightarrow> bool" where
  "isascii s \<longleftrightarrow> (\<forall>c \<in> set s. code c < 128)"

lemma code_less_256 [simp]: "code c < 256"
  by (rule nat_of_char_less_256)

lemma code_nibbles: "code c div 16 < 16" "code c mod 16 < 16"
  using less_mult_imp_div_less [of "code c" 16 16] by simp_all

lemma char_of_code [simp]: "char_of (code c) = c"
  by simp

lemma code_char_of: "n < 256 \<Longrightarrow> code (char_of n) = n"
  by simp

subsection \<open>Decimal numerals\<close>

fun dec_nat :: "nat \<Rightarrow> string" where
  "dec_nat n = (if n < 10 then [char_of (48 + n)] else dec_nat (n div 10) @ [char_of (48 + n mod 10)])"

declare dec_nat.simps [simp del]

definition dec_int :: "int \<Rightarrow> string" where
  "dec_int i = (if i < 0 then CHR ''-'' # dec_nat (nat (- i)) else dec_nat (nat i))"

definition digits_val :: "string \<Rightarrow> nat" where
  "digits_val s = foldl (\<lambda>n c. 10 * n + (code c - 48)) 0 s"

lemma digits_val_snoc: "digits_val (s @ [c]) = 10 * digits_val s + (code c - 48)"
  by (simp add: digits_val_def)

lemma dec_nat_digits: "c \<in> set (dec_nat n) \<Longrightarrow> is_digit c"
proof (induction n rule: dec_nat.induct)
  case (1 n)
  show ?case
  proof (cases "n < 10")
    case True
    with "1.prems" show ?thesis by (simp add: dec_nat.simps [of n] is_digit_def)
  next
    case False
    have "n mod 10 < 10" by simp
    with False 1 show ?thesis
      by (auto simp: dec_nat.simps [of n] is_digit_def)
  qed
qed

lemma dec_nat_nonempty [simp]: "dec_nat n \<noteq> []"
  by (subst dec_nat.simps) simp

lemma digits_val_dec_nat [simp]: "digits_val (dec_nat n) = n"
proof (induction n rule: dec_nat.induct)
  case (1 n)
  show ?case
  proof (cases "n < 10")
    case True
    then show ?thesis by (simp add: dec_nat.simps [of n] digits_val_def)
  next
    case False
    have "n mod 10 < 10" by simp
    then have "48 + n mod 10 < 256" by linarith
    with False 1 show ?thesis
      by (simp add: dec_nat.simps [of n] digits_val_snoc)
  qed
qed

lemma dec_nat_no_leading_zero: "0 < n \<Longrightarrow> hd (dec_nat n) \<noteq> CHR ''0''"
proof (induction n rule: dec_nat.induct)
  case (1 n)
  show ?case
  proof (cases "n < 10")
    case True
    then have "code (char_of (48 + n) :: char) = 48 + n" by simp
    moreover have "code CHR ''0'' = 48" by simp
    ultimately have "char_of (48 + n) \<noteq> CHR ''0''" using "1.prems" by (metis add_cancel_right_right less_irrefl)
    with True show ?thesis by (simp add: dec_nat.simps [of n])
  next
    case False
    then have "0 < n div 10" by simp
    with False 1 show ?thesis by (simp add: dec_nat.simps [of n])
  qed
qed

lemma dec_nat_0 [simp]: "dec_nat 0 = ''0''"
  by (simp add: dec_nat.simps char_of_eq_iff)

subsection \<open>Hexadecimal\<close>

definition hex_digit :: "nat \<Rightarrow> char" where
  "hex_digit n = (if n < 10 then char_of (48 + n) else char_of (87 + n))"

definition hex_val :: "char \<Rightarrow> nat option" where
  "hex_val c =
    (if is_digit c then Some (code c - 48)
     else if 97 \<le> code c \<and> code c \<le> 102 then Some (code c - 87)
     else if 65 \<le> code c \<and> code c \<le> 70 then Some (code c - 55)
     else None)"

text \<open>\<open>bytes.hex\<close> and \<open>bytes.fromhex\<close> (which skips ASCII white space between bytes).\<close>

fun hex :: "string \<Rightarrow> string" where
  "hex [] = []"
| "hex (c # cs) = hex_digit (code c div 16) # hex_digit (code c mod 16) # hex cs"

fun fromhex :: "string \<Rightarrow> string option" where
  "fromhex [] = Some []"
| "fromhex (a # s) =
    (if is_space a \<or> code a = 11 \<or> code a = 12 then fromhex s
     else case s of
       [] \<Rightarrow> None
     | b # t \<Rightarrow>
         (case (hex_val a, hex_val b) of
            (Some x, Some y) \<Rightarrow> map_option (\<lambda>r. char_of (16 * x + y) # r) (fromhex t)
          | _ \<Rightarrow> None))"

lemma hex_val_hex_digit [simp]: "n < 16 \<Longrightarrow> hex_val (hex_digit n) = Some n"
  by (auto simp: hex_val_def hex_digit_def is_digit_def)

lemma hex_digit_not_space:
  "n < 16 \<Longrightarrow> \<not> (is_space (hex_digit n) \<or> code (hex_digit n) = 11 \<or> code (hex_digit n) = 12)"
  by (auto simp: is_space_def hex_digit_def)

lemma hex_digit_range:
  "n < 16 \<Longrightarrow> (48 \<le> code (hex_digit n) \<and> code (hex_digit n) \<le> 57) \<or>
    (97 \<le> code (hex_digit n) \<and> code (hex_digit n) \<le> 102)"
  by (auto simp: hex_digit_def)

lemma fromhex_hex [simp]: "fromhex (hex s) = Some s"
proof (induction s)
  case Nil
  show ?case by simp
next
  case (Cons c cs)
  have b: "code c div 16 < 16" "code c mod 16 < 16"
    by (rule code_nibbles)+
  have "16 * (code c div 16) + code c mod 16 = code c" by simp
  with Cons b show ?case
    using hex_digit_not_space [OF b(1)] by simp
qed

lemma set_hex:
  "c \<in> set (hex s) \<Longrightarrow> (48 \<le> code c \<and> code c \<le> 57) \<or> (97 \<le> code c \<and> code c \<le> 102)"
proof (induction s)
  case Nil
  then show ?case by simp
next
  case (Cons a s)
  from Cons.prems consider "c = hex_digit (code a div 16)" | "c = hex_digit (code a mod 16)"
    | "c \<in> set (hex s)"
    by auto
  then show ?case
    using hex_digit_range [OF code_nibbles(1)] hex_digit_range [OF code_nibbles(2)] Cons.IH
    by cases simp_all
qed

lemma hex_eq_Nil [simp]: "hex s = [] \<longleftrightarrow> s = []"
  by (cases s) simp_all

lemma hex_inject [simp]: "hex s = hex t \<longleftrightarrow> s = t"
  using fromhex_hex by (metis option.inject)

subsection \<open>Strict UTF-8\<close>

definition cont :: "char \<Rightarrow> bool" where
  "cont c \<longleftrightarrow> 128 \<le> code c \<and> code c < 192"

fun utf8_valid :: "string \<Rightarrow> bool" where
  "utf8_valid [] = True"
| "utf8_valid (a # s) =
    (if code a < 128 then utf8_valid s
     else if 194 \<le> code a \<and> code a < 224 then
       (case s of b # t \<Rightarrow> cont b \<and> utf8_valid t | _ \<Rightarrow> False)
     else if 224 \<le> code a \<and> code a < 240 then
       (case s of
          b # c # t \<Rightarrow> cont b \<and> cont c \<and> (code a = 224 \<longrightarrow> 160 \<le> code b) \<and>
            (code a = 237 \<longrightarrow> code b < 160) \<and> utf8_valid t
        | _ \<Rightarrow> False)
     else if 240 \<le> code a \<and> code a < 245 then
       (case s of
          b # c # d # t \<Rightarrow> cont b \<and> cont c \<and> cont d \<and> (code a = 240 \<longrightarrow> 144 \<le> code b) \<and>
            (code a = 244 \<longrightarrow> code b < 144) \<and> utf8_valid t
        | _ \<Rightarrow> False)
     else False)"

lemma utf8_valid_append: "utf8_valid s \<Longrightarrow> utf8_valid (s @ t) \<longleftrightarrow> utf8_valid t"
proof (induction s rule: utf8_valid.induct)
  case 1
  show ?case by simp
next
  case (2 a s)
  consider (one) "code a < 128" | (two) "194 \<le> code a" "code a < 224"
    | (three) "224 \<le> code a" "code a < 240" | (four) "240 \<le> code a" "code a < 245"
    using "2.prems" by (simp split: if_splits)
  then show ?case
  proof cases
    case one
    with 2 show ?thesis by simp
  next
    case two
    with "2.prems" obtain b u where "s = b # u" "utf8_valid u" by (simp split: list.splits)
    with two 2 show ?thesis by simp
  next
    case three
    with "2.prems" obtain b c u where "s = b # c # u" "utf8_valid u" by (simp split: list.splits)
    with three 2 show ?thesis by simp
  next
    case four
    with "2.prems" obtain b c d u where "s = b # c # d # u" "utf8_valid u"
      by (simp split: list.splits)
    with four 2 show ?thesis by simp
  qed
qed

lemma utf8_valid_ascii: "isascii s \<Longrightarrow> utf8_valid s"
  by (induction s) (auto simp: isascii_def)

text \<open>The bytes of one code point (a lone surrogate keeps its three-byte form).\<close>

definition utf8_enc :: "nat \<Rightarrow> string" where
  "utf8_enc n =
    (if n < 128 then [char_of n]
     else if n < 2048 then [char_of (192 + n div 64), char_of (128 + n mod 64)]
     else if n < 65536 then
       [char_of (224 + n div 4096), char_of (128 + n div 64 mod 64), char_of (128 + n mod 64)]
     else
       [char_of (240 + n div 262144), char_of (128 + n div 4096 mod 64),
        char_of (128 + n div 64 mod 64), char_of (128 + n mod 64)])"

subsection \<open>Splitting and joining\<close>

text \<open>\<open>s.split(c)\<close> with a one-character separator: never empty, the parts hold no separator.\<close>

fun split_on :: "char \<Rightarrow> string \<Rightarrow> string list" where
  "split_on c [] = [[]]"
| "split_on c (a # s) =
    (if a = c then [] # split_on c s
     else case split_on c s of p # ps \<Rightarrow> (a # p) # ps | [] \<Rightarrow> [[a]])"

fun join :: "string \<Rightarrow> string list \<Rightarrow> string" where
  "join sep [] = []"
| "join sep [p] = p"
| "join sep (p # ps) = p @ sep @ join sep ps"

lemma split_on_nonempty [simp]: "split_on c s \<noteq> []"
  by (induction s) (auto split: list.splits)

lemma split_on_no_sep: "c \<notin> set s \<Longrightarrow> split_on c s = [s]"
  by (induction s) auto

lemma split_on_Cons_sep: "c \<notin> set p \<Longrightarrow> split_on c (p @ c # s) = p # split_on c s"
  by (induction p) auto

lemma split_on_lines:
  "\<forall>l \<in> set ls. c \<notin> set l \<Longrightarrow> split_on c (concat (map (\<lambda>l. l @ [c]) ls) @ s) = ls @ split_on c s"
  by (induction ls) (auto simp: split_on_Cons_sep)

lemma join_Cons: "ps \<noteq> [] \<Longrightarrow> join sep (p # ps) = p @ sep @ join sep ps"
  by (cases ps) simp_all

lemma split_on_part_free: "p \<in> set (split_on c s) \<Longrightarrow> c \<notin> set p"
proof (induction s arbitrary: p)
  case Nil
  then show ?case by simp
next
  case (Cons a s)
  then show ?case by (cases "split_on c s") (auto split: if_splits)
qed

lemma join_split_on: "join [c] (split_on c s) = s"
proof (induction s)
  case Nil
  show ?case by simp
next
  case (Cons a s)
  show ?case
  proof (cases "split_on c s")
    case Nil
    then show ?thesis by simp
  next
    case (Cons p ps)
    with Cons.IH show ?thesis by (cases ps) (auto simp: join_Cons)
  qed
qed

subsection \<open>Prefixes and suffixes\<close>

definition startswith :: "string \<Rightarrow> string \<Rightarrow> bool" where
  "startswith s p \<longleftrightarrow> take (length p) s = p"

definition endswith :: "string \<Rightarrow> string \<Rightarrow> bool" where
  "endswith s p \<longleftrightarrow> length p \<le> length s \<and> drop (length s - length p) s = p"

definition lower_char :: "char \<Rightarrow> char" where
  "lower_char c = (if 65 \<le> code c \<and> code c \<le> 90 then char_of (code c + 32) else c)"

lemma startswith_append [simp]: "startswith (p @ s) p"
  by (simp add: startswith_def)

lemma startswith_iff: "startswith s p \<longleftrightarrow> (\<exists>t. s = p @ t)"
  by (metis append_take_drop_id startswith_append startswith_def)

end
