(* ===== verification/Canonical.thy ===== *)
theory Canonical
  imports PyText
begin

section \<open>Canonical JSON: the JCS encoder and the JSON reader\<close>

text \<open>
  The model of \<open>src/ract/canonical.py\<close>: \<open>dumps_jcs\<close> (with \<open>_walk\<close>, \<open>_encode_dict\<close>,
  \<open>_encode_int\<close>, \<open>_encode_float\<close>, \<open>_js_number_repr\<close>, \<open>_encode_string\<close> and
  \<open>_check_bmp_only\<close>), \<open>loads_jcs\<close> and \<open>is_canonical\<close>.

  A Python value is a \<open>pyval\<close>, a finite tree, so the encoder's cycle guard has nothing to
  find. A float is what the encoder observes of it: whether it is finite, its value when
  it is integral, and its \<open>repr\<close>. Unicode NFC normalisation is the parameter \<open>nfc\<close>, and
  the conversion of a float literal that of \<open>loads\<close>' argument \<open>float_of\<close>.

  \<open>json.loads\<close> is a recursive-descent reader. Its mutual recursion carries fuel; a call on a
  text of length \<open>n\<close> starts with \<open>2 * n + 2\<close> units, which is enough: every second nested
  call consumes a character.
\<close>

subsection \<open>Values\<close>

datatype pyfloat = FNan | FInf bool | FFin "int option" string

datatype pykey = KStr string | KOther

datatype pyval =
    PNone
  | PBool bool
  | PInt int
  | PFloat pyfloat
  | PStr string
  | PList "pyval list"
  | PDict "(pykey \<times> pyval) list"
  | PSnap pyval
  | PObject string

datatype jcs_error =
    NotFinite
  | NonStringKey
  | DuplicateKey string
  | SupplementaryKey string
  | UnsupportedType string
  | UnicodeEncodeError

subsection \<open>The encoder\<close>

definition encode_int :: "int \<Rightarrow> string" where
  "encode_int i = dec_int i"

definition int_safe_max :: int where
  "int_safe_max = 2 ^ 53 - 1"

definition rstrip :: "char \<Rightarrow> string \<Rightarrow> string" where
  "rstrip c s = rev (dropWhile ((=) c) (rev s))"

definition parse_exp :: "string \<Rightarrow> int" where
  "parse_exp s =
    (case s of
       [] \<Rightarrow> 0
     | c # t \<Rightarrow>
         if c = CHR ''-'' then - int (digits_val t)
         else if c = CHR ''+'' then int (digits_val t)
         else int (digits_val s))"

text \<open>\<open>_js_number_repr\<close>, on the text that \<open>repr\<close> gives.\<close>

definition js_number_repr :: "string \<Rightarrow> string" where
  "js_number_repr t =
    (if CHR ''e'' \<notin> set t \<and> CHR ''E'' \<notin> set t then t
     else
       let sign_str = (if startswith t ''-'' then ''-'' else []);
           body = map lower_char (if startswith t ''-'' then tl t else t);
           mantissa = takeWhile (\<lambda>c. c \<noteq> CHR ''e'') body;
           exp = parse_exp (tl (dropWhile (\<lambda>c. c \<noteq> CHR ''e'') body));
           int_part = takeWhile (\<lambda>c. c \<noteq> CHR ''.'') mantissa;
           frac_part = tl (dropWhile (\<lambda>c. c \<noteq> CHR ''.'') mantissa);
           digits = int_part @ frac_part;
           k = exp + int (length int_part) - 1
       in if - 6 \<le> k \<and> k < 21 then
            let fixed =
                  (if 0 \<le> k then
                     if int (length digits) \<le> k + 1
                     then digits @ replicate (nat (k + 1) - length digits) (CHR ''0'')
                     else take (nat (k + 1)) digits @ ''.'' @ drop (nat (k + 1)) digits
                   else ''0.'' @ replicate (nat (- k - 1)) (CHR ''0'') @ digits);
                stripped =
                  (if CHR ''.'' \<in> set fixed
                   then rstrip (CHR ''.'') (rstrip (CHR ''0'') fixed) else fixed)
            in sign_str @ (if stripped = [] \<or> stripped = ''-'' then ''0'' else stripped)
          else sign_str @ mantissa @ ''e'' @ (if 0 \<le> exp then ''+'' else ''-'') @ dec_int \<bar>exp\<bar>)"

definition encode_float :: "pyfloat \<Rightarrow> jcs_error + string" where
  "encode_float f =
    (case f of
       FNan \<Rightarrow> Inl NotFinite
     | FInf _ \<Rightarrow> Inl NotFinite
     | FFin integral t \<Rightarrow>
         (case integral of
            Some i \<Rightarrow>
              if i = 0 then Inr ''0''
              else if - int_safe_max \<le> i \<and> i \<le> int_safe_max then Inr (dec_int i)
              else Inr (js_number_repr t)
          | None \<Rightarrow> Inr (js_number_repr t)))"

text \<open>\<open>_ESCAPE_MAP\<close> and one character of \<open>_encode_string\<close>.\<close>

definition escape_map :: "(nat, string) dict" where
  "escape_map =
    [(0x22, [CHR 0x5C, CHR 0x22]), (0x5C, [CHR 0x5C, CHR 0x5C]), (0x08, [CHR 0x5C, CHR ''b'']),
     (0x0C, [CHR 0x5C, CHR ''f'']), (0x0A, [CHR 0x5C, CHR ''n'']), (0x0D, [CHR 0x5C, CHR ''r'']),
     (0x09, [CHR 0x5C, CHR ''t''])]"

definition escape_char :: "char \<Rightarrow> string" where
  "escape_char c =
    (case map_of escape_map (code c) of
       Some e \<Rightarrow> e
     | None \<Rightarrow>
         if code c < 0x20
         then [CHR 0x5C, CHR ''u'', CHR ''0'', CHR ''0'', hex_digit (code c div 16), hex_digit (code c mod 16)]
         else [c])"

definition quote :: char where
  "quote = CHR 0x22"

definition encode_string :: "(string \<Rightarrow> string) \<Rightarrow> string \<Rightarrow> string" where
  "encode_string nfc s = quote # concat (map escape_char (nfc s)) @ [quote]"

text \<open>A code point above U+FFFF is four bytes, the first of them at least 0xF0.\<close>

definition check_bmp_only :: "string \<Rightarrow> bool" where
  "check_bmp_only key \<longleftrightarrow> (\<forall>c \<in> set key. code c < 0xF0)"

text \<open>
  \<open>_encode_dict\<close>. The items come with their values already encoded; an error among them is
  raised where the code would reach it, when the sorted items are written.
\<close>

fun normalise_keys ::
    "(string \<Rightarrow> string) \<Rightarrow> (pykey \<times> 'v) list \<Rightarrow> string list \<Rightarrow> jcs_error + (string \<times> 'v) list" where
  "normalise_keys nfc [] seen = Inr []"
| "normalise_keys nfc ((KOther, v) # kvs) seen = Inl NonStringKey"
| "normalise_keys nfc ((KStr k, v) # kvs) seen =
    (if nfc k \<in> set seen then Inl (DuplicateKey (nfc k))
     else rbind (normalise_keys nfc kvs (nfc k # seen)) (\<lambda>r. Inr ((nfc k, v) # r)))"

fun sequence :: "('e + 'a) list \<Rightarrow> 'e + 'a list" where
  "sequence [] = Inr []"
| "sequence (r # rs) = rbind r (\<lambda>x. rbind (sequence rs) (\<lambda>xs. Inr (x # xs)))"

definition encode_dict ::
    "(string \<Rightarrow> string) \<Rightarrow> (pykey \<times> (jcs_error + string)) list \<Rightarrow> jcs_error + string" where
  "encode_dict nfc kvs =
    rbind (normalise_keys nfc kvs []) (\<lambda>normalised.
      case find (\<lambda>(k, v). \<not> check_bmp_only k) normalised of
        Some (k, v) \<Rightarrow> Inl (SupplementaryKey k)
      | None \<Rightarrow>
          rbind (sequence (map (\<lambda>(k, r). rbind r (\<lambda>t. Inr (encode_string nfc k @ '':'' @ t)))
                   (sort_key fst normalised)))
            (\<lambda>items. Inr (''{'' @ join '','' items @ ''}'')))"

fun walk :: "(string \<Rightarrow> string) \<Rightarrow> pyval \<Rightarrow> jcs_error + string" where
  "walk nfc PNone = Inr ''null''"
| "walk nfc (PBool b) = Inr (if b then ''true'' else ''false'')"
| "walk nfc (PInt i) = Inr (encode_int i)"
| "walk nfc (PFloat f) = encode_float f"
| "walk nfc (PStr s) = Inr (encode_string nfc s)"
| "walk nfc (PSnap v) = walk nfc v"
| "walk nfc (PList vs) =
    rbind (sequence (map (walk nfc) vs)) (\<lambda>items. Inr (''['' @ join '','' items @ '']''))"
| "walk nfc (PDict kvs) = encode_dict nfc (map (\<lambda>(k, v). (k, walk nfc v)) kvs)"
| "walk nfc (PObject ty) = Inl (UnsupportedType ty)"

definition dumps_jcs :: "(string \<Rightarrow> string) \<Rightarrow> pyval \<Rightarrow> jcs_error + string" where
  "dumps_jcs nfc v =
    rbind (walk nfc v) (\<lambda>t. if utf8_valid t then Inr t else Inl UnicodeEncodeError)"

subsection \<open>The reader\<close>

fun skip_ws :: "string \<Rightarrow> string" where
  "skip_ws [] = []"
| "skip_ws (c # s) = (if is_space c then skip_ws s else c # s)"

fun hex4 :: "string \<Rightarrow> (nat \<times> string) option" where
  "hex4 (a # b # c # d # s) =
    (case (hex_val a, hex_val b, hex_val c, hex_val d) of
       (Some w, Some x, Some y, Some z) \<Rightarrow> Some (4096 * w + 256 * x + 16 * y + z, s)
     | _ \<Rightarrow> None)"
| "hex4 _ = None"

definition simple_escapes :: "(char, char) dict" where
  "simple_escapes =
    [(CHR 0x22, CHR 0x22), (CHR 0x5C, CHR 0x5C), (CHR ''/'', CHR ''/''), (CHR ''b'', CHR 0x08),
     (CHR ''f'', CHR 0x0C), (CHR ''n'', CHR 0x0A), (CHR ''r'', CHR 0x0D), (CHR ''t'', CHR 0x09)]"

text \<open>
  The escape after \<open>\u\<close>: one code unit, or two when a high surrogate is followed by a low
  one. The result is the code point's bytes and the rest.
\<close>

definition scan_unicode :: "string \<Rightarrow> (string \<times> string) option" where
  "scan_unicode s =
    (case hex4 s of
       None \<Rightarrow> None
     | Some (u, r) \<Rightarrow>
         if 0xD800 \<le> u \<and> u \<le> 0xDBFF \<and> startswith r [CHR 0x5C, CHR ''u''] then
           (case hex4 (drop 2 r) of
              None \<Rightarrow> None
            | Some (l, r') \<Rightarrow>
                if 0xDC00 \<le> l \<and> l \<le> 0xDFFF
                then Some (utf8_enc (0x10000 + 1024 * (u - 0xD800) + (l - 0xDC00)), r')
                else Some (utf8_enc u, r))
         else Some (utf8_enc u, r))"

lemma hex4_length: "hex4 s = Some (n, r) \<Longrightarrow> length r < length s"
  by (induction s rule: hex4.induct) (auto split: option.splits)

lemma scan_unicode_length: "scan_unicode s = Some (t, r) \<Longrightarrow> length r < length s"
proof -
  assume a: "scan_unicode s = Some (t, r)"
  then obtain u r1 where h: "hex4 s = Some (u, r1)"
    by (auto simp: scan_unicode_def split: option.splits)
  have "length r' < length r1" if "hex4 (drop 2 r1) = Some (l, r')" for l r'
    using hex4_length [OF that] by simp
  with a h hex4_length [OF h] show ?thesis
    by (fastforce simp: scan_unicode_def split: option.splits if_splits)
qed

text \<open>A string body up to its closing quote (strict: no raw control characters).\<close>

function scan_string :: "string \<Rightarrow> (string \<times> string) option" where
  "scan_string [] = None"
| "scan_string (c # s) =
    (if c = quote then Some ([], s)
     else if c = CHR 0x5C then
       (case s of
          [] \<Rightarrow> None
        | e # t \<Rightarrow>
            (case map_of simple_escapes e of
               Some x \<Rightarrow> map_option (\<lambda>(b, r). (x # b, r)) (scan_string t)
             | None \<Rightarrow>
                 if e = CHR ''u'' then
                   (case scan_unicode t of
                      None \<Rightarrow> None
                    | Some (x, r) \<Rightarrow> map_option (\<lambda>(b, r'). (x @ b, r')) (scan_string r))
                 else None))
     else if code c < 0x20 then None
     else map_option (\<lambda>(b, r). (c # b, r)) (scan_string s))"
  by pat_completeness auto
termination
  by (relation "measure length") (auto dest: scan_unicode_length)

definition strip_prefix :: "string \<Rightarrow> string \<Rightarrow> string option" where
  "strip_prefix p s = (if startswith s p then Some (drop (length p) s) else None)"

text \<open>
  The number pattern: an optional minus, \<open>0\<close> or a digit string without leading zero, and
  optional fraction and exponent; without those two it is an integer.
\<close>

definition scan_nat :: "string \<Rightarrow> (string \<times> string) option" where
  "scan_nat s =
    (case s of
       [] \<Rightarrow> None
     | c # t \<Rightarrow>
         if c = CHR ''0'' then Some ([c], t)
         else if is_digit c then Some (takeWhile is_digit s, dropWhile is_digit s)
         else None)"

definition scan_frac :: "string \<Rightarrow> string \<times> string" where
  "scan_frac s =
    (case s of
       c # d # t \<Rightarrow>
         if c = CHR ''.'' \<and> is_digit d
         then (c # takeWhile is_digit (d # t), dropWhile is_digit (d # t)) else ([], s)
     | _ \<Rightarrow> ([], s))"

definition scan_exp :: "string \<Rightarrow> string \<times> string" where
  "scan_exp s =
    (case s of
       c # t \<Rightarrow>
         if c = CHR ''e'' \<or> c = CHR ''E'' then
           (let sgn = (case t of d # _ \<Rightarrow> if d = CHR ''+'' \<or> d = CHR ''-'' then [d] else [] | [] \<Rightarrow> []);
                u = drop (length sgn) t
            in if u \<noteq> [] \<and> is_digit (hd u)
               then (c # sgn @ takeWhile is_digit u, dropWhile is_digit u) else ([], s))
         else ([], s)
     | [] \<Rightarrow> ([], s))"

definition scan_number :: "(string \<Rightarrow> pyfloat) \<Rightarrow> string \<Rightarrow> (pyval \<times> string) option" where
  "scan_number float_of s =
    (let neg = startswith s ''-''; body = (if neg then tl s else s) in
     case scan_nat body of
       None \<Rightarrow> None
     | Some (ds, r) \<Rightarrow>
         (case scan_frac r of (fr, r1) \<Rightarrow>
           case scan_exp r1 of (ex, r2) \<Rightarrow>
             if fr = [] \<and> ex = []
             then Some (PInt (if neg then - int (digits_val ds) else int (digits_val ds)), r)
             else Some (PFloat (float_of ((if neg then ''-'' else []) @ ds @ fr @ ex)), r2)))"

definition scan_constant :: "(string \<Rightarrow> pyfloat) \<Rightarrow> string \<Rightarrow> (pyval \<times> string) option" where
  "scan_constant float_of s =
    (case strip_prefix ''null'' s of Some r \<Rightarrow> Some (PNone, r) | None \<Rightarrow>
     case strip_prefix ''true'' s of Some r \<Rightarrow> Some (PBool True, r) | None \<Rightarrow>
     case strip_prefix ''false'' s of Some r \<Rightarrow> Some (PBool False, r) | None \<Rightarrow>
     case scan_number float_of s of Some p \<Rightarrow> Some p | None \<Rightarrow>
     case strip_prefix ''NaN'' s of Some r \<Rightarrow> Some (PFloat FNan, r) | None \<Rightarrow>
     case strip_prefix ''Infinity'' s of Some r \<Rightarrow> Some (PFloat (FInf True), r) | None \<Rightarrow>
     case strip_prefix ''-Infinity'' s of Some r \<Rightarrow> Some (PFloat (FInf False), r) | None \<Rightarrow> None)"

text \<open>\<open>dict(pairs)\<close>: a repeated key keeps its first place and its last value.\<close>

definition dict_of_pairs :: "(string \<times> pyval) list \<Rightarrow> (pykey \<times> pyval) list" where
  "dict_of_pairs ps = foldl (\<lambda>d (k, v). AList.update (KStr k) v d) [] ps"

fun parse_value :: "(string \<Rightarrow> pyfloat) \<Rightarrow> nat \<Rightarrow> string \<Rightarrow> (pyval \<times> string) option"
  and parse_elems :: "(string \<Rightarrow> pyfloat) \<Rightarrow> nat \<Rightarrow> string \<Rightarrow> (pyval list \<times> string) option"
  and parse_members :: "(string \<Rightarrow> pyfloat) \<Rightarrow> nat \<Rightarrow> string \<Rightarrow> ((string \<times> pyval) list \<times> string) option"
  where
  "parse_value float_of 0 s = None"
| "parse_value float_of (Suc f) s =
    (case s of
       [] \<Rightarrow> None
     | c # t \<Rightarrow>
         if c = quote then map_option (\<lambda>(b, r). (PStr b, r)) (scan_string t)
         else if c = CHR ''{'' then
           (case skip_ws t of
              [] \<Rightarrow> None
            | d # u \<Rightarrow>
                if d = CHR ''}'' then Some (PDict [], u)
                else map_option (\<lambda>(ps, r). (PDict (dict_of_pairs ps), r)) (parse_members float_of f (d # u)))
         else if c = CHR ''['' then
           (case skip_ws t of
              [] \<Rightarrow> None
            | d # u \<Rightarrow>
                if d = CHR '']'' then Some (PList [], u)
                else map_option (\<lambda>(vs, r). (PList vs, r)) (parse_elems float_of f (d # u)))
         else scan_constant float_of s)"
| "parse_elems float_of 0 s = None"
| "parse_elems float_of (Suc f) s =
    (case parse_value float_of f s of
       None \<Rightarrow> None
     | Some (v, r) \<Rightarrow>
         (case skip_ws r of
            [] \<Rightarrow> None
          | c # u \<Rightarrow>
              if c = CHR '']'' then Some ([v], u)
              else if c = CHR '','' then
                map_option (\<lambda>(vs, r'). (v # vs, r')) (parse_elems float_of f (skip_ws u))
              else None))"
| "parse_members float_of 0 s = None"
| "parse_members float_of (Suc f) s =
    (case s of
       [] \<Rightarrow> None
     | q # t \<Rightarrow>
         if q \<noteq> quote then None
         else case scan_string t of
           None \<Rightarrow> None
         | Some (k, r) \<Rightarrow>
             (case skip_ws r of
                [] \<Rightarrow> None
              | c # u \<Rightarrow>
                  if c \<noteq> CHR '':'' then None
                  else case parse_value float_of f (skip_ws u) of
                    None \<Rightarrow> None
                  | Some (v, r1) \<Rightarrow>
                      (case skip_ws r1 of
                         [] \<Rightarrow> None
                       | d # w \<Rightarrow>
                           if d = CHR ''}'' then Some ([(k, v)], w)
                           else if d = CHR '','' then
                             map_option (\<lambda>(ps, r'). ((k, v) # ps, r'))
                               (parse_members float_of f (skip_ws w))
                           else None)))"

definition json_loads :: "(string \<Rightarrow> pyfloat) \<Rightarrow> string \<Rightarrow> pyval option" where
  "json_loads float_of s =
    (case parse_value float_of (2 * length s + 2) (skip_ws s) of
       Some (v, r) \<Rightarrow> if skip_ws r = [] then Some v else None
     | None \<Rightarrow> None)"

definition loads_jcs :: "(string \<Rightarrow> pyfloat) \<Rightarrow> string \<Rightarrow> pyval option" where
  "loads_jcs float_of data = (if utf8_valid data then json_loads float_of data else None)"

definition is_canonical :: "(string \<Rightarrow> string) \<Rightarrow> (string \<Rightarrow> pyfloat) \<Rightarrow> string \<Rightarrow> bool" where
  "is_canonical nfc float_of data =
    (case loads_jcs float_of data of
       None \<Rightarrow> False
     | Some v \<Rightarrow> dumps_jcs nfc v = Inr data)"

subsection \<open>Strings read back\<close>

lemma scan_string_plain:
  "c \<noteq> quote \<Longrightarrow> c \<noteq> CHR 0x5C \<Longrightarrow> 32 \<le> code c \<Longrightarrow>
    scan_string (c # s) = map_option (\<lambda>(b, r). (c # b, r)) (scan_string s)"
  by simp

lemma scan_string_simple:
  "map_of simple_escapes e = Some x \<Longrightarrow>
    scan_string (CHR 0x5C # e # s) = map_option (\<lambda>(b, r). (x # b, r)) (scan_string s)"
  by (simp add: quote_def)

lemma scan_unicode_low:
  assumes "n < 32"
  shows "scan_unicode (CHR ''0'' # CHR ''0'' # hex_digit (n div 16) # hex_digit (n mod 16) # s)
    = Some ([char_of n], s)"
proof -
  have "hex_val (CHR ''0'') = Some 0" by (simp add: hex_val_def is_digit_def)
  moreover have "n div 16 < 16" "n mod 16 < 16" using assms by auto
  ultimately have "hex4 (CHR ''0'' # CHR ''0'' # hex_digit (n div 16) # hex_digit (n mod 16) # s)
      = Some (n, s)"
    by simp
  then show ?thesis using assms by (simp add: scan_unicode_def utf8_enc_def)
qed

lemma scan_string_unicode:
  assumes "n < 32"
  shows "scan_string (CHR 0x5C # CHR ''u'' # CHR ''0'' # CHR ''0'' # hex_digit (n div 16)
      # hex_digit (n mod 16) # s)
    = map_option (\<lambda>(b, r). (char_of n # b, r)) (scan_string s)"
  using scan_unicode_low [OF assms, of s] by (simp add: quote_def simple_escapes_def)

lemma escape_char_cases:
  obtains (simple) e where "escape_char c = [CHR 0x5C, e]" "map_of simple_escapes e = Some c"
      "32 \<le> code e"
  | (unicode) "escape_char c = [CHR 0x5C, CHR ''u'', CHR ''0'', CHR ''0'',
      hex_digit (code c div 16), hex_digit (code c mod 16)]" "code c < 32"
  | (plain) "escape_char c = [c]" "c \<noteq> quote" "c \<noteq> CHR 0x5C" "32 \<le> code c"
proof (cases "map_of escape_map (code c)")
  case None
  then have "c \<noteq> quote" "c \<noteq> CHR 0x5C"
    by (auto simp: escape_map_def quote_def)
  with None unicode plain show ?thesis
    by (cases "code c < 32") (auto simp: escape_char_def)
next
  case (Some w)
  then have "(code c, w) \<in> set escape_map" by (rule map_of_SomeD)
  then consider "code c = code (CHR 0x22)" | "code c = code (CHR 0x5C)" | "code c = code (CHR 0x08)"
    | "code c = code (CHR 0x0C)" | "code c = code (CHR 0x0A)" | "code c = code (CHR 0x0D)"
    | "code c = code (CHR 0x09)"
    by (auto simp: escape_map_def)
  then show ?thesis
    unfolding of_char_eq_iff
    by cases (rule simple, force simp: escape_char_def escape_map_def,
        force simp: simple_escapes_def, force)+
qed

lemma scan_string_escape:
  "scan_string (escape_char c @ s) = map_option (\<lambda>(b, r). (c # b, r)) (scan_string s)"
  by (cases c rule: escape_char_cases)
    (simp_all add: scan_string_simple scan_string_unicode scan_string_plain del: scan_string.simps)

lemma scan_string_encoded:
  "scan_string (concat (map escape_char s) @ quote # r) = Some (s, r)"
  by (induction s) (simp_all add: scan_string_escape)

lemma escape_char_printable: "d \<in> set (escape_char c) \<Longrightarrow> 32 \<le> code d"
proof (cases c rule: escape_char_cases)
  assume d: "d \<in> set (escape_char c)"
  case unicode
  have "48 \<le> code (hex_digit n)" if "n < 16" for n
    using hex_digit_range [OF that] by auto
  then have "48 \<le> code (hex_digit (code c div 16))" "48 \<le> code (hex_digit (code c mod 16))"
    using code_nibbles [of c] by blast+
  with d show ?thesis by (auto simp: unicode)
qed auto

lemma encode_string_printable: "d \<in> set (encode_string nfc s) \<Longrightarrow> 32 \<le> code d"
  by (auto simp: encode_string_def quote_def dest: escape_char_printable)

subsection \<open>Numbers read back\<close>

text \<open>What may follow a value inside a document: the end, a delimiter, or the end of its line.\<close>

definition delim :: "string \<Rightarrow> bool" where
  "delim r \<longleftrightarrow> r = [] \<or> hd r = CHR '','' \<or> hd r = CHR '']'' \<or> hd r = CHR ''}'' \<or> hd r = newline"

lemma delim_simps [simp]:
  "delim []" "delim (CHR '','' # r)" "delim (CHR '']'' # r)" "delim (CHR ''}'' # r)" "delim (newline # r)"
  by (simp_all add: delim_def)

lemma delim_not_digit: "delim r \<Longrightarrow> r = [] \<or> \<not> is_digit (hd r)"
  by (auto simp: delim_def is_digit_def newline_def)

lemma takeWhile_digits:
  assumes "\<forall>c \<in> set ds. is_digit c" and "delim r"
  shows "takeWhile is_digit (ds @ r) = ds" and "dropWhile is_digit (ds @ r) = r"
proof -
  have "takeWhile is_digit r = []" "dropWhile is_digit r = r"
    using delim_not_digit [OF assms(2)] by (cases r; simp)+
  with assms(1) show "takeWhile is_digit (ds @ r) = ds" and "dropWhile is_digit (ds @ r) = r"
    by (induction ds) auto
qed

lemma scan_nat_dec:
  assumes "delim r"
  shows "scan_nat (dec_nat n @ r) = Some (dec_nat n, r)"
proof (cases "n = 0")
  case True
  then show ?thesis by (simp add: scan_nat_def)
next
  case False
  obtain c ds where cs: "dec_nat n = c # ds" by (cases "dec_nat n") auto
  with False dec_nat_no_leading_zero [of n] have "c \<noteq> CHR ''0''" by simp
  moreover have "is_digit c" using dec_nat_digits [of c n] cs by simp
  moreover have "\<forall>c \<in> set (dec_nat n). is_digit c" using dec_nat_digits by blast
  from takeWhile_digits [OF this assms]
  have "takeWhile is_digit (c # ds @ r) = c # ds" "dropWhile is_digit (c # ds @ r) = r"
    by (simp_all add: cs)
  ultimately show ?thesis by (simp add: scan_nat_def cs)
qed

lemma scan_frac_delim: "delim r \<Longrightarrow> scan_frac r = ([], r)"
  by (auto simp: scan_frac_def delim_def newline_def split: list.splits)

lemma scan_exp_delim: "delim r \<Longrightarrow> scan_exp r = ([], r)"
  by (auto simp: scan_exp_def delim_def newline_def split: list.splits)

lemma dec_int_first:
  obtains (neg) ds where "dec_int i = CHR ''-'' # ds" "i < 0" "ds = dec_nat (nat (- i))"
  | (pos) c ds where "dec_int i = c # ds" "is_digit c" "0 \<le> i" "dec_nat (nat i) = c # ds"
proof (cases "i < 0")
  case True
  then show ?thesis by (intro neg) (auto simp: dec_int_def)
next
  case False
  moreover obtain c ds where cs: "dec_nat (nat i) = c # ds" by (cases "dec_nat (nat i)") auto
  ultimately show ?thesis
    using dec_nat_digits [of c "nat i"] by (intro pos) (auto simp: dec_int_def)
qed

lemma scan_number_dec:
  assumes "delim r"
  shows "scan_number fl (dec_int i @ r) = Some (PInt i, r)"
proof (cases i rule: dec_int_first)
  case (neg ds)
  with scan_nat_dec [OF assms, of "nat (- i)"] show ?thesis
    by (simp add: scan_number_def startswith_def scan_frac_delim [OF assms] scan_exp_delim [OF assms])
next
  case (pos c ds)
  then have "c \<noteq> CHR ''-''" by (auto simp: is_digit_def)
  with pos scan_nat_dec [OF assms, of "nat i"] show ?thesis
    using digits_val_dec_nat [of "nat i"]
    by (simp add: scan_number_def startswith_def scan_frac_delim [OF assms] scan_exp_delim [OF assms])
qed

lemma scan_constant_dec:
  assumes "delim r"
  shows "scan_constant fl (dec_int i @ r) = Some (PInt i, r)"
proof -
  have "hd (dec_int i @ r) \<notin> {CHR ''n'', CHR ''t'', CHR ''f''}"
    by (cases i rule: dec_int_first) (auto simp: is_digit_def)
  moreover have "dec_int i @ r \<noteq> []" by (cases i rule: dec_int_first) simp_all
  ultimately have "strip_prefix ''null'' (dec_int i @ r) = None"
    "strip_prefix ''true'' (dec_int i @ r) = None" "strip_prefix ''false'' (dec_int i @ r) = None"
    by (cases "dec_int i @ r"; simp add: strip_prefix_def startswith_def)+
  then show ?thesis by (simp add: scan_constant_def scan_number_dec [OF assms])
qed

subsection \<open>Documents read back\<close>

text \<open>\<open>reads fl t v\<close>: the text \<open>t\<close>, followed by a delimiter, is read as \<open>v\<close>.\<close>

definition reads :: "(string \<Rightarrow> pyfloat) \<Rightarrow> string \<Rightarrow> pyval \<Rightarrow> bool" where
  "reads fl t v \<longleftrightarrow> t \<noteq> [] \<and> \<not> is_space (hd t) \<and> hd t \<noteq> CHR '']'' \<and>
    (\<forall>f r. 2 * length t + 1 \<le> f \<longrightarrow> delim r \<longrightarrow> parse_value fl f (t @ r) = Some (v, r))"

lemma readsD:
  "reads fl t v \<Longrightarrow> 2 * length t + 1 \<le> f \<Longrightarrow> delim r \<Longrightarrow> parse_value fl f (t @ r) = Some (v, r)"
  by (simp add: reads_def)

lemma readsI:
  assumes "t \<noteq> []" and "\<not> is_space (hd t)" and "hd t \<noteq> CHR '']''"
    and "\<And>f r. 2 * length t \<le> f \<Longrightarrow> delim r \<Longrightarrow> parse_value fl (Suc f) (t @ r) = Some (v, r)"
  shows "reads fl t v"
  unfolding reads_def
proof (intro conjI allI impI)
  fix f r assume "2 * length t + 1 \<le> f" "delim r"
  then show "parse_value fl f (t @ r) = Some (v, r)"
    using assms(4) [of "f - 1" r] by (cases f) simp_all
qed (use assms in auto)

lemma skip_ws_nonspace: "s \<noteq> [] \<Longrightarrow> \<not> is_space (hd s) \<Longrightarrow> skip_ws s = s"
  by (cases s) auto

lemma not_space_simps [simp]:
  "\<not> is_space (CHR '','')" "\<not> is_space (CHR '']'')" "\<not> is_space (CHR ''}'')"
  "\<not> is_space (CHR '':'')" "\<not> is_space quote" "\<not> is_space (CHR ''{'')" "\<not> is_space (CHR ''['')"
  by (simp_all add: is_space_def quote_def)

lemma quote_neq [simp]:
  "quote \<noteq> CHR ''{''" "quote \<noteq> CHR ''}''" "quote \<noteq> CHR ''[''" "quote \<noteq> CHR '']''"
  "CHR ''{'' \<noteq> quote" "CHR ''}'' \<noteq> quote" "CHR ''['' \<noteq> quote" "CHR '']'' \<noteq> quote"
  by (simp_all add: quote_def)

lemma reads_literals:
  "reads fl ''null'' PNone" "reads fl ''true'' (PBool True)" "reads fl ''false'' (PBool False)"
  by (rule readsI; simp add: is_space_def quote_def scan_constant_def strip_prefix_def startswith_def)+

lemma reads_int: "reads fl (dec_int i) (PInt i)"
proof (rule readsI)
  show "dec_int i \<noteq> []" by (cases i rule: dec_int_first) simp_all
  show "\<not> is_space (hd (dec_int i))"
    by (cases i rule: dec_int_first) (auto simp: is_space_def is_digit_def)
  show "hd (dec_int i) \<noteq> CHR '']''"
    by (cases i rule: dec_int_first) (auto simp: is_digit_def)
  fix f r assume r: "delim r"
  have "hd (dec_int i) \<noteq> quote" "hd (dec_int i) \<noteq> CHR ''{''" "hd (dec_int i) \<noteq> CHR ''[''"
    by (cases i rule: dec_int_first; auto simp: is_digit_def quote_def)+
  then show "parse_value fl (Suc f) (dec_int i @ r) = Some (PInt i, r)"
    using scan_constant_dec [OF r, of fl i] by (cases "dec_int i" rule: list.exhaust)
      (use \<open>dec_int i \<noteq> []\<close> in simp_all)
qed

lemma reads_string: "reads fl (encode_string nfc s) (PStr (nfc s))"
  by (rule readsI) (simp_all add: encode_string_def is_space_def quote_def
      scan_string_encoded [unfolded quote_def])

lemma reads_elems:
  assumes "ps \<noteq> []" and "\<forall>(t, v) \<in> set ps. reads fl t v"
    and "2 * length (join '','' (map fst ps)) + 2 \<le> f"
  shows "parse_elems fl f (join '','' (map fst ps) @ CHR '']'' # r) = Some (map snd ps, r)"
  using assms
proof (induction ps arbitrary: f)
  case Nil
  then show ?case by simp
next
  case (Cons p ps)
  obtain t v where p: "p = (t, v)" by (cases p)
  from Cons.prems have rd: "reads fl t v" by (simp add: p)
  obtain f' where f: "f = Suc f'" using Cons.prems(3) by (cases f) auto
  show ?case
  proof (cases "ps = []")
    case True
    with Cons.prems(3) readsD [OF rd, of f' "CHR '']'' # r"] show ?thesis
      by (simp add: p f)
  next
    case False
    let ?rest = "join '','' (map fst ps) @ CHR '']'' # r"
    have j: "join '','' (map fst (p # ps)) = t @ '','' @ join '','' (map fst ps)"
      using False by (simp add: join_Cons p)
    obtain t' v' ps' where "ps = (t', v') # ps'" using False by (cases ps) auto
    with Cons.prems(2) have "t' \<noteq> []" "\<not> is_space (hd t')" by (auto simp: reads_def)
    then have ws: "skip_ws ?rest = ?rest"
      using \<open>ps = (t', v') # ps'\<close> by (cases "map fst ps'") (auto intro!: skip_ws_nonspace simp: join_Cons)
    have "parse_value fl f' (t @ CHR '','' # ?rest) = Some (v, CHR '','' # ?rest)"
      by (rule readsD [OF rd]) (use Cons.prems(3) [unfolded j f] in simp_all)
    moreover have "parse_elems fl f' ?rest = Some (map snd ps, r)"
      by (rule Cons.IH) (use False Cons.prems(2) Cons.prems(3) [unfolded j f] in simp_all)
    ultimately show ?thesis unfolding j f by (simp add: p ws)
  qed
qed

definition member_text :: "(string \<Rightarrow> string) \<Rightarrow> string \<Rightarrow> string \<Rightarrow> string" where
  "member_text nfc k t = encode_string nfc k @ '':'' @ t"

lemma member_text_shape:
  "member_text nfc k t @ s = quote # concat (map escape_char (nfc k)) @ quote # CHR '':'' # t @ s"
  by (simp add: member_text_def encode_string_def)

lemma reads_members:
  assumes "ps \<noteq> []" and "\<forall>(k, t, v) \<in> set ps. reads fl t v \<and> nfc k = k"
    and "2 * length (join '','' (map (\<lambda>(k, t, v). member_text nfc k t) ps)) + 2 \<le> f"
  shows "parse_members fl f (join '','' (map (\<lambda>(k, t, v). member_text nfc k t) ps) @ CHR ''}'' # r)
    = Some (map (\<lambda>(k, t, v). (k, v)) ps, r)"
  using assms
proof (induction ps arbitrary: f)
  case Nil
  then show ?case by simp
next
  case (Cons p ps)
  obtain k t v where p: "p = (k, t, v)" by (cases p)
  from Cons.prems have rd: "reads fl t v" and k: "nfc k = k" by (simp_all add: p)
  from rd have ws: "skip_ws (t @ s) = t @ s" for s
    by (intro skip_ws_nonspace) (auto simp: reads_def)
  obtain f' where f: "f = Suc f'" using Cons.prems(3) by (cases f) auto
  show ?case
  proof (cases "ps = []")
    case True
    with Cons.prems(3) have "2 * length t + 1 \<le> f'" by (simp add: p f member_text_def)
    from readsD [OF rd this, of "CHR ''}'' # r"] True show ?thesis
      by (simp add: p f member_text_shape scan_string_encoded k ws)
  next
    case False
    let ?rest = "join '','' (map (\<lambda>(k, t, v). member_text nfc k t) ps) @ CHR ''}'' # r"
    have j: "join '','' (map (\<lambda>(k, t, v). member_text nfc k t) (p # ps))
        = member_text nfc k t @ '','' @ join '','' (map (\<lambda>(k, t, v). member_text nfc k t) ps)"
      using False by (simp add: join_Cons p)
    obtain k' t' v' ps' where ps: "ps = (k', t', v') # ps'" using False by (cases ps) auto
    have "\<exists>s. ?rest = quote # s"
      by (cases ps') (auto simp: ps join_Cons member_text_def encode_string_def)
    then have ws': "skip_ws ?rest = ?rest" by auto
    have "parse_value fl f' (t @ CHR '','' # ?rest) = Some (v, CHR '','' # ?rest)"
      by (rule readsD [OF rd]) (use Cons.prems(3) [unfolded j f] in \<open>simp_all add: member_text_def [of nfc k t]\<close>)
    moreover have "parse_members fl f' ?rest = Some (map (\<lambda>(k, t, v). (k, v)) ps, r)"
      by (rule Cons.IH) (use False Cons.prems(2) Cons.prems(3) [unfolded j f] in simp_all)
    ultimately show ?thesis
      unfolding j f by (simp add: p member_text_shape scan_string_encoded k ws ws')
  qed
qed

subsection \<open>The canonical form of a value\<close>

text \<open>
  What the encoding keeps of a value: strings and keys in NFC, members sorted by key,
  snapshots replaced by what they return.
\<close>

fun key_str :: "pykey \<Rightarrow> string" where
  "key_str (KStr s) = s"
| "key_str KOther = []"

definition sorted_members :: "(string \<Rightarrow> string) \<Rightarrow> (pykey \<times> 'v) list \<Rightarrow> (string \<times> 'v) list" where
  "sorted_members nfc kvs = sort_key fst (map (\<lambda>(k, v). (nfc (key_str k), v)) kvs)"

fun canon :: "(string \<Rightarrow> string) \<Rightarrow> pyval \<Rightarrow> pyval" where
  "canon nfc (PStr s) = PStr (nfc s)"
| "canon nfc (PSnap v) = canon nfc v"
| "canon nfc (PList vs) = PList (map (canon nfc) vs)"
| "canon nfc (PDict kvs) =
    PDict (map (\<lambda>(k, v). (KStr k, v)) (sorted_members nfc (map (\<lambda>(k, v). (k, canon nfc v)) kvs)))"
| "canon nfc v = v"

fun float_free :: "pyval \<Rightarrow> bool" where
  "float_free (PFloat f) = False"
| "float_free (PSnap v) = float_free v"
| "float_free (PList vs) = (\<forall>v \<in> set vs. float_free v)"
| "float_free (PDict kvs) = (\<forall>kv \<in> set kvs. float_free (snd kv))"
| "float_free v = True"

text \<open>What the code relies on of \<open>unicodedata.normalize("NFC", s)\<close>.\<close>

definition normalises :: "(string \<Rightarrow> string) \<Rightarrow> bool" where
  "normalises nfc \<longleftrightarrow> (\<forall>s. nfc (nfc s) = nfc s) \<and> (\<forall>s. isascii s \<longrightarrow> nfc s = s)"

lemma sequence_Inr_iff: "sequence rs = Inr xs \<longleftrightarrow> rs = map Inr xs"
  by (induction rs arbitrary: xs) (auto simp: result_simps)

lemma normalise_keys_ok:
  assumes "normalise_keys nfc kvs seen = Inr ns"
  shows "ns = map (\<lambda>(k, v). (nfc (key_str k), v)) kvs" and "\<forall>kv \<in> set kvs. \<exists>k. fst kv = KStr k"
    and "distinct (map fst ns)" and "set (map fst ns) \<inter> set seen = {}"
  using assms
  by (induction nfc kvs seen arbitrary: ns rule: normalise_keys.induct)
    (force simp: result_simps split: if_splits)+

lemma normalise_keys_strings:
  assumes "distinct (map nfc ks)" and "nfc ` set ks \<inter> set seen = {}" and "length ks = length vs"
  shows "normalise_keys nfc (zip (map KStr ks) vs) seen = Inr (zip (map nfc ks) vs)"
  using assms
proof (induction ks arbitrary: vs seen)
  case Nil
  then show ?case by simp
next
  case (Cons k ks)
  then obtain v vs' where "vs = v # vs'" by (cases vs) auto
  with Cons show ?case by auto
qed

lemma insort_key_map_snd:
  "insort_key fst (k, g v) (map (\<lambda>(k, v). (k, g v)) xs) = map (\<lambda>(k, v). (k, g v)) (insort_key fst (k, v) xs)"
  by (induction xs) auto

lemma sort_key_map_snd:
  "sort_key fst (map (\<lambda>(k, v). (k, g v)) xs) = map (\<lambda>(k, v). (k, g v)) (sort_key fst xs)"
proof (induction xs)
  case Nil
  show ?case by simp
next
  case (Cons x xs)
  then show ?case by (cases x) (simp add: insort_key_map_snd)
qed

lemma sorted_members_map:
  "sorted_members nfc (map (\<lambda>(k, v). (k, g v)) kvs) = map (\<lambda>(k, v). (k, g v)) (sorted_members nfc kvs)"
proof -
  have "map (\<lambda>(k, v). (nfc (key_str k), v)) (map (\<lambda>(k, v). (k, g v)) kvs)
      = map (\<lambda>(k, v). (k, g v)) (map (\<lambda>(k, v). (nfc (key_str k), v)) kvs)"
    by (simp add: case_prod_beta)
  then show ?thesis unfolding sorted_members_def by (simp only: sort_key_map_snd)
qed

lemma set_sorted_members: "set (sorted_members nfc kvs) = (\<lambda>(k, v). (nfc (key_str k), v)) ` set kvs"
  by (simp add: sorted_members_def)

lemma distinct_sorted_members:
  "distinct (map fst (map (\<lambda>(k, v). (nfc (key_str k), v)) kvs)) \<Longrightarrow>
    distinct (map fst (sorted_members nfc kvs))"
proof -
  let ?xs = "map (\<lambda>(k, v). (nfc (key_str k), v)) kvs"
  assume "distinct (map fst ?xs)"
  moreover have "mset (map fst (sort_key fst ?xs)) = mset (map fst ?xs)"
    unfolding mset_map by simp
  ultimately show ?thesis
    unfolding sorted_members_def using mset_eq_imp_distinct_iff by blast
qed

lemma encode_dict_ok:
  assumes "encode_dict nfc (map (\<lambda>(k, v). (k, walk nfc v)) kvs) = Inr t"
  defines "base \<equiv> sorted_members nfc kvs"
  shows "t = ''{'' @ join '','' (map (\<lambda>(k, v). member_text nfc k (projr (walk nfc v))) base) @ ''}''"
    and "\<forall>(k, v) \<in> set base. walk nfc v = Inr (projr (walk nfc v))"
    and "distinct (map fst base)" and "\<forall>(k, v) \<in> set base. check_bmp_only k"
    and "\<forall>kv \<in> set kvs. \<exists>k. fst kv = KStr k"
proof -
  let ?kvs = "map (\<lambda>(k, v). (k, walk nfc v)) kvs"
  let ?item = "\<lambda>(k, r). rbind r (\<lambda>t. Inr (encode_string nfc k @ '':'' @ t))"
  from assms(1) obtain ns where ns: "normalise_keys nfc ?kvs [] = Inr ns"
    by (auto simp: encode_dict_def result_simps)
  note n = normalise_keys_ok [OF ns]
  have sorted: "sort_key fst ns = map (\<lambda>(k, v). (k, walk nfc v)) base"
    using sorted_members_map [of nfc "walk nfc" kvs] n(1)
    by (simp add: base_def sorted_members_def)
  from assms(1) ns obtain items where fnd: "find (\<lambda>(k, v). \<not> check_bmp_only k) ns = None"
    and seq: "sequence (map ?item (sort_key fst ns)) = Inr items"
    and t: "t = ''{'' @ join '','' items @ ''}''"
    by (auto simp: encode_dict_def result_simps split: option.splits)
  have it: "map (\<lambda>(k, v). ?item (k, walk nfc v)) base = map Inr items"
    using seq [unfolded sequence_Inr_iff sorted] by (simp add: case_prod_unfold comp_def)
  then have len: "length items = length base" by (metis length_map)
  have each: "?item (k, walk nfc v) = Inr (items ! i)" if "i < length base" "base ! i = (k, v)" for i k v
    using arg_cong [OF it, of "\<lambda>xs. xs ! i"] that len by simp
  have walk_ok: "walk nfc v = Inr (projr (walk nfc v)) \<and>
      items ! i = member_text nfc k (projr (walk nfc v))"
    if "i < length base" "base ! i = (k, v)" for i k v
    using each [OF that] by (cases "walk nfc v") (auto simp: member_text_def)
  show "\<forall>(k, v) \<in> set base. walk nfc v = Inr (projr (walk nfc v))"
    using walk_ok by (auto simp: in_set_conv_nth)
  have "items = map (\<lambda>(k, v). member_text nfc k (projr (walk nfc v))) base"
    using walk_ok len by (intro nth_equalityI) (auto split: prod.splits)
  with t show "t = ''{'' @ join '','' (map (\<lambda>(k, v). member_text nfc k (projr (walk nfc v))) base) @ ''}''"
    by simp
  show "distinct (map fst base)"
    unfolding base_def
    by (rule distinct_sorted_members) (use n(1,3) in \<open>simp add: case_prod_beta comp_def\<close>)
  show "\<forall>(k, v) \<in> set base. check_bmp_only k"
    using fnd n(1) by (force simp: base_def set_sorted_members find_None_iff)
  show "\<forall>kv \<in> set kvs. \<exists>k. fst kv = KStr k"
    using n(2) by force
qed

lemma dict_of_pairs_distinct:
  "distinct (map fst ps) \<Longrightarrow> dict_of_pairs ps = map (\<lambda>(k, v). (KStr k, v)) ps"
proof (induction ps rule: rev_induct)
  case Nil
  show ?case by (simp add: dict_of_pairs_def)
next
  case (snoc p ps)
  obtain k v where p: "p = (k, v)" by (cases p)
  have "map_of (map (\<lambda>(k, v). (KStr k, v)) ps) (KStr k) = None"
    using snoc.prems by (force simp: p map_of_eq_None_iff)
  with snoc show ?case by (simp add: dict_of_pairs_def p update_fresh)
qed

subsection \<open>The encoding is read back as the canonical form\<close>

lemma walk_list_ok:
  assumes "walk nfc (PList vs) = Inr t"
  shows "t = ''['' @ join '','' (map (\<lambda>v. projr (walk nfc v)) vs) @ '']''"
    and "\<forall>v \<in> set vs. walk nfc v = Inr (projr (walk nfc v))"
proof -
  from assms obtain items where seq: "map (walk nfc) vs = map Inr items"
    and t: "t = ''['' @ join '','' items @ '']''"
    by (auto simp: result_simps sequence_Inr_iff)
  have "map (\<lambda>v. projr (walk nfc v)) vs = map projr (map (walk nfc) vs)" by simp
  then have "items = map (\<lambda>v. projr (walk nfc v)) vs" unfolding seq by (simp add: comp_def)
  with t show "t = ''['' @ join '','' (map (\<lambda>v. projr (walk nfc v)) vs) @ '']''" by simp
  have "\<exists>x. walk nfc v = Inr x" if "v \<in> set vs" for v
  proof -
    from that have "walk nfc v \<in> set (map (walk nfc) vs)" by simp
    then show ?thesis unfolding seq by auto
  qed
  then show "\<forall>v \<in> set vs. walk nfc v = Inr (projr (walk nfc v))" by force
qed

lemma reads_list:
  assumes "\<forall>v \<in> set vs. reads fl (txt v) (val v)"
  shows "reads fl (''['' @ join '','' (map txt vs) @ '']'') (PList (map val vs))"
proof (rule readsI)
  let ?j = "join '','' (map txt vs)"
  fix f r assume f: "2 * length (''['' @ ?j @ '']'') \<le> f"
  show "parse_value fl (Suc f) ((''['' @ ?j @ '']'') @ r) = Some (PList (map val vs), r)"
  proof (cases vs)
    case Nil
    then show ?thesis by (simp add: quote_def)
  next
    case (Cons v vs')
    have ps: "map txt vs = map fst (map (\<lambda>v. (txt v, val v)) vs)" by simp
    have "parse_elems fl f (?j @ CHR '']'' # r) = Some (map snd (map (\<lambda>v. (txt v, val v)) vs), r)"
      unfolding ps by (rule reads_elems) (use assms f Cons in \<open>auto simp: comp_def\<close>)
    moreover from assms Cons have "txt v \<noteq> []" "\<not> is_space (hd (txt v))" "hd (txt v) \<noteq> CHR '']''"
      by (auto simp: reads_def)
    then have "\<exists>c u. ?j = c # u \<and> \<not> is_space c \<and> c \<noteq> CHR '']''"
      unfolding Cons by (cases "txt v"; cases vs') simp_all
    ultimately show ?thesis by (auto simp: quote_def comp_def)
  qed
qed simp_all

lemma reads_dict:
  assumes "\<forall>(k, v) \<in> set base. reads fl (txt v) (val v) \<and> nfc k = k" and "distinct (map fst base)"
  shows "reads fl (''{'' @ join '','' (map (\<lambda>(k, v). member_text nfc k (txt v)) base) @ ''}'')
    (PDict (map (\<lambda>(k, v). (KStr k, val v)) base))"
proof (rule readsI)
  let ?j = "join '','' (map (\<lambda>(k, v). member_text nfc k (txt v)) base)"
  let ?ps = "map (\<lambda>(k, v). (k, txt v, val v)) base"
  fix f r assume f: "2 * length (''{'' @ ?j @ ''}'') \<le> f"
  show "parse_value fl (Suc f) ((''{'' @ ?j @ ''}'') @ r)
    = Some (PDict (map (\<lambda>(k, v). (KStr k, val v)) base), r)"
  proof (cases base)
    case Nil
    then show ?thesis by (simp add: quote_def)
  next
    case (Cons kv base')
    have ps: "map (\<lambda>(k, v). member_text nfc k (txt v)) base
        = map (\<lambda>(k, t, v). member_text nfc k t) ?ps"
      by (simp add: case_prod_unfold comp_def)
    have "parse_members fl f (?j @ CHR ''}'' # r) = Some (map (\<lambda>(k, t, v). (k, v)) ?ps, r)"
      unfolding ps
    proof (rule reads_members)
      show "?ps \<noteq> []" using Cons by simp
      show "\<forall>(k, t, v) \<in> set ?ps. reads fl t v \<and> nfc k = k" using assms(1) by auto
      show "2 * length (join '','' (map (\<lambda>(k, t, v). member_text nfc k t) ?ps)) + 2 \<le> f"
        using f unfolding ps by simp
    qed
    also have "map (\<lambda>(k, t, v). (k, v)) ?ps = map (\<lambda>(k, v). (k, val v)) base"
      by (simp add: case_prod_unfold comp_def)
    finally have "parse_members fl f (?j @ CHR ''}'' # r) = Some (map (\<lambda>(k, v). (k, val v)) base, r)" .
    moreover have "dict_of_pairs (map (\<lambda>(k, v). (k, val v)) base)
        = map (\<lambda>(k, v). (KStr k, val v)) base"
      using dict_of_pairs_distinct [of "map (\<lambda>(k, v). (k, val v)) base"] assms(2)
      by (simp add: case_prod_unfold comp_def)
    moreover have "\<exists>u. ?j = quote # u"
      unfolding Cons by (cases base'; cases kv) (simp_all add: member_text_def encode_string_def)
    ultimately show ?thesis by auto
  qed
qed simp_all

lemma nfc_sorted_members:
  assumes "normalises nfc" and "(k, v) \<in> set (sorted_members nfc kvs)"
  shows "nfc k = k"
  using assms by (auto simp: set_sorted_members normalises_def)

lemma canon_dict:
  "canon nfc (PDict kvs) = PDict (map (\<lambda>(k, v). (KStr k, canon nfc v)) (sorted_members nfc kvs))"
  unfolding canon.simps sorted_members_map by (simp add: case_prod_unfold comp_def)

lemma walk_reads:
  "walk nfc v = Inr t \<Longrightarrow> float_free v \<Longrightarrow> normalises nfc \<Longrightarrow> reads fl t (canon nfc v)"
proof (induction nfc v arbitrary: t rule: walk.induct)
  case (7 nfc vs)
  note ok = walk_list_ok [OF "7.prems"(1)]
  have "\<forall>v \<in> set vs. reads fl (projr (walk nfc v)) (canon nfc v)"
    using 7 ok(2) by auto
  from reads_list [OF this] show ?case unfolding ok(1) by simp
next
  case (8 nfc kvs)
  from "8.prems"(1) have "encode_dict nfc (map (\<lambda>(k, v). (k, walk nfc v)) kvs) = Inr t" by simp
  note ok = encode_dict_ok [OF this]
  have "\<forall>(k, v) \<in> set (sorted_members nfc kvs).
      reads fl (projr (walk nfc v)) (canon nfc v) \<and> nfc k = k"
  proof (clarify, intro conjI)
    fix k v assume kv: "(k, v) \<in> set (sorted_members nfc kvs)"
    then obtain k0 where k0: "(k0, v) \<in> set kvs" by (auto simp: set_sorted_members)
    with "8.prems"(2) have "float_free v" by force
    moreover have "walk nfc v = Inr (projr (walk nfc v))" using ok(2) kv by blast
    ultimately show "reads fl (projr (walk nfc v)) (canon nfc v)"
      using "8.IH" [OF k0 refl] "8.prems"(3) by blast
    show "nfc k = k" using nfc_sorted_members [OF "8.prems"(3) kv] .
  qed
  from reads_dict [OF this ok(3)] show ?case unfolding ok(1) canon_dict .
qed (auto simp: reads_literals reads_int reads_string encode_int_def)

lemma json_loads_reads:
  assumes "reads fl t v"
  shows "json_loads fl t = Some v"
proof -
  have "skip_ws t = t" using assms by (intro skip_ws_nonspace) (auto simp: reads_def)
  moreover have "parse_value fl (2 * length t + 2) (t @ []) = Some (v, [])"
    by (rule readsD [OF assms]) simp_all
  ultimately show ?thesis by (simp add: json_loads_def)
qed

lemma dumps_jcs_ok: "dumps_jcs nfc v = Inr t \<longleftrightarrow> walk nfc v = Inr t \<and> utf8_valid t"
  by (auto simp: dumps_jcs_def result_simps split: if_splits)

lemma dumps_reads:
  "dumps_jcs nfc v = Inr t \<Longrightarrow> float_free v \<Longrightarrow> normalises nfc \<Longrightarrow> json_loads fl t = Some (canon nfc v)"
  using walk_reads json_loads_reads by (auto simp: dumps_jcs_ok)

subsection \<open>The canonical form is encoded as itself\<close>

lemma sorted_sorted_members: "sorted (map fst (sorted_members nfc kvs))"
  by (simp add: sorted_members_def)

lemma sort_key_sorted_members:
  "sort_key fst (map (\<lambda>(k, v). (k, g v)) (sorted_members nfc kvs))
    = map (\<lambda>(k, v). (k, g v)) (sorted_members nfc kvs)"
  by (rule sort_key_id_if_sorted)
    (use sorted_sorted_members [of nfc kvs] in \<open>simp add: case_prod_unfold comp_def\<close>)

lemma encode_dict_sorted:
  assumes keys: "\<forall>(k, v) \<in> set base. nfc k = k \<and> check_bmp_only k \<and> r v = Inr (txt v)"
    and "distinct (map fst base)" and "sort_key fst (map (\<lambda>(k, v). (k, r v)) base) = map (\<lambda>(k, v). (k, r v)) base"
  shows "encode_dict nfc (map (\<lambda>(k, v). (KStr k, r v)) base)
    = Inr (''{'' @ join '','' (map (\<lambda>(k, v). member_text nfc k (txt v)) base) @ ''}'')"
proof -
  let ?ns = "map (\<lambda>(k, v). (k, r v)) base"
  have nfc: "map nfc (map fst base) = map fst base"
    using keys by (auto intro!: map_idI)
  have "map (\<lambda>(k, v). (KStr k, r v)) base = zip (map KStr (map fst base)) (map (\<lambda>(k, v). r v) base)"
    by (simp add: zip_map_map zip_same_conv_map case_prod_unfold comp_def)
  moreover have "?ns = zip (map fst base) (map (\<lambda>(k, v). r v) base)"
    by (simp add: zip_map_map zip_same_conv_map case_prod_unfold comp_def)
  ultimately have norm: "normalise_keys nfc (map (\<lambda>(k, v). (KStr k, r v)) base) [] = Inr ?ns"
    using normalise_keys_strings [of nfc "map fst base" "[]" "map (\<lambda>(k, v). r v) base"] assms(2)
    unfolding nfc by simp
  have fnd: "find (\<lambda>(k, v). \<not> check_bmp_only k) ?ns = None"
    using keys by (force simp: find_None_iff)
  have "map (\<lambda>(k, r). rbind r (\<lambda>t. Inr (encode_string nfc k @ '':'' @ t))) ?ns
      = map Inr (map (\<lambda>(k, v). member_text nfc k (txt v)) base)"
    using keys by (auto simp: member_text_def)
  then have "sequence (map (\<lambda>(k, r). rbind r (\<lambda>t. Inr (encode_string nfc k @ '':'' @ t))) ?ns)
      = Inr (map (\<lambda>(k, v). member_text nfc k (txt v)) base)"
    unfolding sequence_Inr_iff .
  then show ?thesis
    unfolding encode_dict_def norm rbind_simps fnd assms(3) by simp
qed

lemma walk_canon:
  "walk nfc v = Inr t \<Longrightarrow> normalises nfc \<Longrightarrow> walk nfc (canon nfc v) = Inr t"
proof (induction nfc v arbitrary: t rule: walk.induct)
  case (5 nfc s)
  then show ?case by (simp add: encode_string_def normalises_def)
next
  case (7 nfc vs)
  note ok = walk_list_ok [OF "7.prems"(1)]
  have "\<forall>v \<in> set vs. walk nfc (canon nfc v) = Inr (projr (walk nfc v))"
    using 7 ok(2) by auto
  then have "map (walk nfc) (map (canon nfc) vs) = map Inr (map (\<lambda>v. projr (walk nfc v)) vs)"
    by simp
  then have "sequence (map (walk nfc) (map (canon nfc) vs)) = Inr (map (\<lambda>v. projr (walk nfc v)) vs)"
    unfolding sequence_Inr_iff .
  then show ?case unfolding ok(1) by (simp only: canon.simps walk.simps rbind_simps)
next
  case (8 nfc kvs)
  let ?base = "sorted_members nfc kvs"
  from "8.prems"(1) have "encode_dict nfc (map (\<lambda>(k, v). (k, walk nfc v)) kvs) = Inr t" by simp
  note ok = encode_dict_ok [OF this]
  have "\<forall>(k, v) \<in> set ?base. nfc k = k \<and> check_bmp_only k \<and>
      walk nfc (canon nfc v) = Inr (projr (walk nfc v))"
  proof (clarify, intro conjI)
    fix k v assume kv: "(k, v) \<in> set ?base"
    then obtain k0 where k0: "(k0, v) \<in> set kvs" by (auto simp: set_sorted_members)
    moreover have "walk nfc v = Inr (projr (walk nfc v))" using ok(2) kv by blast
    ultimately show "walk nfc (canon nfc v) = Inr (projr (walk nfc v))"
      using "8.IH" [OF k0 refl] "8.prems"(2) by blast
    show "nfc k = k" using nfc_sorted_members [OF "8.prems"(2) kv] .
    show "check_bmp_only k" using ok(4) kv by blast
  qed
  from encode_dict_sorted [OF this ok(3) sort_key_sorted_members] show ?case
    unfolding canon_dict by (simp add: ok(1) case_prod_unfold comp_def)
qed auto

lemma float_free_canon: "float_free v \<Longrightarrow> float_free (canon nfc v)"
  by (induction nfc v rule: canon.induct) (force simp: set_sorted_members)+

subsection \<open>Printable text\<close>

lemma dec_int_printable: "c \<in> set (dec_int i) \<Longrightarrow> 32 \<le> code c"
  using dec_nat_digits [of c] by (auto simp: dec_int_def is_digit_def split: if_splits) force+

lemma join_printable:
  "\<forall>p \<in> set ps. \<forall>c \<in> set p. P c \<Longrightarrow> \<forall>c \<in> set sep. P c \<Longrightarrow> \<forall>c \<in> set (join sep ps). P c"
  by (induction sep ps rule: join.induct) auto

lemma walk_printable:
  "walk nfc v = Inr t \<Longrightarrow> float_free v \<Longrightarrow> \<forall>c \<in> set t. 32 \<le> code c"
proof (induction nfc v arbitrary: t rule: walk.induct)
  case (7 nfc vs)
  note ok = walk_list_ok [OF "7.prems"(1)]
  have "\<forall>p \<in> set (map (\<lambda>v. projr (walk nfc v)) vs). \<forall>c \<in> set p. 32 \<le> code c"
    using 7 ok(2) by auto
  from join_printable [OF this, of "'',''"] show ?case unfolding ok(1) by auto
next
  case (8 nfc kvs)
  from "8.prems"(1) have "encode_dict nfc (map (\<lambda>(k, v). (k, walk nfc v)) kvs) = Inr t" by simp
  note ok = encode_dict_ok [OF this]
  have "\<forall>p \<in> set (map (\<lambda>(k, v). member_text nfc k (projr (walk nfc v))) (sorted_members nfc kvs)).
      \<forall>c \<in> set p. 32 \<le> code c"
  proof (clarsimp)
    fix k v c assume kv: "(k, v) \<in> set (sorted_members nfc kvs)"
      and c: "c \<in> set (member_text nfc k (projr (walk nfc v)))"
    from kv obtain k0 where k0: "(k0, v) \<in> set kvs" by (auto simp: set_sorted_members)
    with "8.prems"(2) have "float_free v" by force
    moreover have "walk nfc v = Inr (projr (walk nfc v))" using ok(2) kv by blast
    ultimately have "\<forall>c \<in> set (projr (walk nfc v)). 32 \<le> code c"
      using "8.IH" [OF k0 refl] by blast
    with c show "32 \<le> code c"
      by (auto simp: member_text_def dest: encode_string_printable)
  qed
  from join_printable [OF this, of "'',''"] show ?case unfolding ok(1) by auto
qed (auto simp: encode_int_def dest: dec_int_printable encode_string_printable)

lemma dumps_no_newline:
  "dumps_jcs nfc v = Inr t \<Longrightarrow> float_free v \<Longrightarrow> newline \<notin> set t"
  using walk_printable by (force simp: dumps_jcs_ok newline_def)

subsection \<open>Fuel\<close>

lemma skip_ws_length: "length (skip_ws s) \<le> length s"
  by (induction s) auto

lemma scan_string_length: "scan_string s = Some (b, r) \<Longrightarrow> length r < length s"
proof (induction s arbitrary: b r rule: scan_string.induct)
  case 1
  then show ?case by simp
next
  case (2 c s)
  then show ?case
    by (fastforce split: if_splits option.splits list.splits dest: scan_unicode_length)
qed

lemma strip_prefix_length: "strip_prefix p s = Some r \<Longrightarrow> p \<noteq> [] \<Longrightarrow> length r < length s"
  by (cases s) (auto simp: strip_prefix_def startswith_def split: if_splits)

lemma dropWhile_length: "length (dropWhile P s) \<le> length s"
  by (rule length_dropWhile_le)

lemma scan_nat_length: "scan_nat s = Some (ds, r) \<Longrightarrow> length r < length s"
  using dropWhile_length [of is_digit "tl s"]
  by (auto simp: scan_nat_def split: list.splits if_splits)

lemma scan_exp_length: "length (snd (scan_exp s)) \<le> length s"
proof -
  have "length (dropWhile is_digit (drop n t)) \<le> length t" for n and t :: string
    using dropWhile_length [of is_digit "drop n t"] by simp
  then show ?thesis
    by (auto simp: scan_exp_def Let_def le_SucI split: list.splits)
qed

lemma scan_frac_length: "length (snd (scan_frac s)) \<le> length s"
proof -
  have "length (dropWhile is_digit t) \<le> Suc (Suc (length t))" for t :: string
    using dropWhile_length [of is_digit t] by simp
  then show ?thesis
    by (auto simp: scan_frac_def split: list.splits)
qed

lemma scan_numberE:
  assumes "scan_number fl s = Some (v, r)"
  obtains ds r0 fr r1 ex r2 where
    "scan_nat (if startswith s ''-'' then tl s else s) = Some (ds, r0)"
    "scan_frac r0 = (fr, r1)" "scan_exp r1 = (ex, r2)"
    "fr = [] \<and> ex = [] \<and> r = r0 \<or> r = r2"
  using assms
  by (auto simp: scan_number_def Let_def split: option.splits prod.splits if_splits)

lemma scan_number_length:
  assumes "scan_number fl s = Some (v, r)"
  shows "length r < length s"
proof -
  from assms obtain ds r0 fr r1 ex r2 where
    n: "scan_nat (if startswith s ''-'' then tl s else s) = Some (ds, r0)"
    and "scan_frac r0 = (fr, r1)" "scan_exp r1 = (ex, r2)" and r: "fr = [] \<and> ex = [] \<and> r = r0 \<or> r = r2"
    by (rule scan_numberE)
  then have "length r2 \<le> length r0"
    using scan_frac_length [of r0] scan_exp_length [of r1] by simp
  moreover from scan_nat_length [OF n] have "length r0 < length s"
    by (simp split: if_splits)
  ultimately show ?thesis using r by auto
qed

lemma scan_constant_length: "scan_constant fl s = Some (v, r) \<Longrightarrow> length r < length s"
  by (auto simp: scan_constant_def dest: strip_prefix_length scan_number_length split: option.splits)

lemma parse_length:
  "(\<forall>s v r. parse_value fl f s = Some (v, r) \<longrightarrow> length r < length s) \<and>
   (\<forall>s vs r. parse_elems fl f s = Some (vs, r) \<longrightarrow> length r < length s) \<and>
   (\<forall>s ps r. parse_members fl f s = Some (ps, r) \<longrightarrow> length r < length s)"
proof (induction f)
  case 0
  show ?case by simp
next
  case (Suc f)
  have ws: "skip_ws s = c # u \<Longrightarrow> length u < length s" for s c u
    using skip_ws_length [of s] by simp
  have v: "length r < length s" if "parse_value fl (Suc f) s = Some (v, r)" for s v r
  proof (cases s)
    case (Cons c t)
    have "length u < length s" if "skip_ws t = d # u" for d u
      using ws [OF that] Cons by simp
    moreover have "length r' < length s"
      if "skip_ws t = d # u" "parse_members fl f (d # u) = Some (x, r')" for d u x r'
      using ws [OF that(1)] that(2) Suc Cons by fastforce
    moreover have "length r' < length s"
      if "skip_ws t = d # u" "parse_elems fl f (d # u) = Some (x, r')" for d u x r'
      using ws [OF that(1)] that(2) Suc Cons by fastforce
    ultimately show ?thesis
      using that Cons
      by (auto split: if_splits list.splits dest: scan_string_length scan_constant_length)
  qed (use that in simp)
  have e: "length r < length s" if "parse_elems fl (Suc f) s = Some (vs, r)" for s vs r
  proof -
    from that obtain x r1 where "parse_value fl f s = Some (x, r1)"
      by (auto split: option.splits)
    moreover from this Suc have "length r1 < length s" by blast
    moreover have "length r' < length r1"
      if "skip_ws r1 = c # u" "parse_elems fl f (skip_ws u) = Some (y, r')" for c u y r'
      using ws [OF that(1)] skip_ws_length [of u] that(2) Suc
      by (metis less_le_trans less_trans)
    ultimately show ?thesis
      using that ws by (fastforce split: list.splits if_splits)
  qed
  have m: "length r < length s" if a: "parse_members fl (Suc f) s = Some (ps, r)" for s ps r
  proof -
    from a obtain t k r0 u x r1 where s: "s = quote # t" and k: "scan_string t = Some (k, r0)"
      and u: "skip_ws r0 = CHR '':'' # u" and x: "parse_value fl f (skip_ws u) = Some (x, r1)"
      by (auto split: list.splits option.splits if_splits)
    have "length r1 < length s"
    proof -
      have "length r1 < length (skip_ws u)" using x Suc by blast
      also have "\<dots> \<le> length u" by (rule skip_ws_length)
      also have "\<dots> < length r0" by (rule ws [OF u])
      also have "\<dots> < length s" using scan_string_length [OF k] s by simp
      finally show ?thesis .
    qed
    moreover have "length r' < length r1"
      if "skip_ws r1 = c # w" "parse_members fl f (skip_ws w) = Some (y, r')" for c w y r'
      using ws [OF that(1)] skip_ws_length [of w] that(2) Suc
      by (metis less_le_trans less_trans)
    ultimately show ?thesis
      using a s k u x ws by (fastforce split: list.splits if_splits)
  qed
  from v e m show ?case by blast
qed

declare parse_value.simps [simp del] parse_elems.simps [simp del] parse_members.simps [simp del]

lemmas parse_unfold = parse_value.simps(2) parse_elems.simps(2) parse_members.simps(2)

lemma parse_elems_Some:
  "parse_elems fl (Suc f) s = Some (vs, r) \<longleftrightarrow>
    (\<exists>v r1 c u. parse_value fl f s = Some (v, r1) \<and> skip_ws r1 = c # u \<and>
      (c = CHR '']'' \<and> vs = [v] \<and> r = u \<or>
       c = CHR '','' \<and> (\<exists>vs'. parse_elems fl f (skip_ws u) = Some (vs', r) \<and> vs = v # vs')))"
  unfolding parse_elems.simps(2) by (auto split: option.splits list.splits)

lemma parse_members_Some:
  "parse_members fl (Suc f) s = Some (ps, r) \<longleftrightarrow>
    (\<exists>t k r0 u v r1 d w. s = quote # t \<and> scan_string t = Some (k, r0) \<and>
      skip_ws r0 = CHR '':'' # u \<and> parse_value fl f (skip_ws u) = Some (v, r1) \<and>
      skip_ws r1 = d # w \<and>
      (d = CHR ''}'' \<and> ps = [(k, v)] \<and> r = w \<or>
       d = CHR '','' \<and> (\<exists>ps'. parse_members fl f (skip_ws w) = Some (ps', r) \<and> ps = (k, v) # ps')))"
  unfolding parse_members.simps(2) by (auto split: option.splits list.splits)

lemma parse_mono:
  "(\<forall>s x. parse_value fl f s = Some x \<longrightarrow> parse_value fl (Suc f) s = Some x) \<and>
   (\<forall>s x. parse_elems fl f s = Some x \<longrightarrow> parse_elems fl (Suc f) s = Some x) \<and>
   (\<forall>s x. parse_members fl f s = Some x \<longrightarrow> parse_members fl (Suc f) s = Some x)"
proof (induction f)
  case 0
  show ?case by (simp add: parse_value.simps(1) parse_elems.simps(1) parse_members.simps(1))
next
  case (Suc f)
  then have IH: "\<And>s x. parse_value fl f s = Some x \<Longrightarrow> parse_value fl (Suc f) s = Some x"
    "\<And>s x. parse_elems fl f s = Some x \<Longrightarrow> parse_elems fl (Suc f) s = Some x"
    "\<And>s x. parse_members fl f s = Some x \<Longrightarrow> parse_members fl (Suc f) s = Some x"
    by blast+
  have "parse_value fl (Suc (Suc f)) s = Some x" if "parse_value fl (Suc f) s = Some x" for s x
    using that IH(2,3) unfolding parse_value.simps(2) [of fl f] parse_value.simps(2) [of fl "Suc f"]
    by (auto split: list.splits if_splits)
  moreover have "parse_elems fl (Suc (Suc f)) s = Some x" if "parse_elems fl (Suc f) s = Some x" for s x
  proof -
    obtain vs r where x: "x = (vs, r)" by (cases x)
    from that obtain v r1 c u where "parse_value fl f s = Some (v, r1)" "skip_ws r1 = c # u"
      "c = CHR '']'' \<and> vs = [v] \<and> r = u \<or>
       c = CHR '','' \<and> (\<exists>vs'. parse_elems fl f (skip_ws u) = Some (vs', r) \<and> vs = v # vs')"
      unfolding x parse_elems_Some [of fl f] by blast
    with IH(1) [of s "(v, r1)"] IH(2) [of "skip_ws u"]
    show ?thesis unfolding x parse_elems_Some [of fl "Suc f"] by auto
  qed
  moreover have "parse_members fl (Suc (Suc f)) s = Some x" if "parse_members fl (Suc f) s = Some x" for s x
  proof -
    obtain vs r where x: "x = (vs, r)" by (cases x)
    from that obtain t k r0 u v r1 d w where "s = quote # t" "scan_string t = Some (k, r0)"
      "skip_ws r0 = CHR '':'' # u" "parse_value fl f (skip_ws u) = Some (v, r1)" "skip_ws r1 = d # w"
      "d = CHR ''}'' \<and> vs = [(k, v)] \<and> r = w \<or>
       d = CHR '','' \<and> (\<exists>ps'. parse_members fl f (skip_ws w) = Some (ps', r) \<and> vs = (k, v) # ps')"
      unfolding x parse_members_Some [of fl f] by blast
    with IH(1) [of "skip_ws u" "(v, r1)"] IH(3) [of "skip_ws w"]
    show ?thesis unfolding x parse_members_Some [of fl "Suc f"] by auto
  qed
  ultimately show ?case by blast
qed

lemma parse_value_mono: "parse_value fl f s = Some x \<Longrightarrow> f \<le> f' \<Longrightarrow> parse_value fl f' s = Some x"
  by (rotate_tac 1, induction f' rule: dec_induct) (use parse_mono in blast)+

lemma parse_enough:
  "(\<forall>s. 2 * length s + 1 \<le> f \<longrightarrow> parse_value fl f s = parse_value fl (Suc f) s) \<and>
   (\<forall>s. 2 * length s + 2 \<le> f \<longrightarrow> parse_elems fl f s = parse_elems fl (Suc f) s) \<and>
   (\<forall>s. 2 * length s + 2 \<le> f \<longrightarrow> parse_members fl f s = parse_members fl (Suc f) s)"
proof (induction f)
  case 0
  show ?case by simp
next
  case (Suc f)
  then have IH: "\<And>s. 2 * length s + 1 \<le> f \<Longrightarrow> parse_value fl f s = parse_value fl (Suc f) s"
    "\<And>s. 2 * length s + 2 \<le> f \<Longrightarrow> parse_elems fl f s = parse_elems fl (Suc f) s"
    "\<And>s. 2 * length s + 2 \<le> f \<Longrightarrow> parse_members fl f s = parse_members fl (Suc f) s"
    by blast+
  have ws: "skip_ws s = c # u \<Longrightarrow> length u < length s" for s c u
    using skip_ws_length [of s] by simp
  have "parse_value fl (Suc f) s = parse_value fl (Suc (Suc f)) s" if l: "2 * length s + 1 \<le> Suc f" for s
  proof (cases s)
    case (Cons c t)
    have "parse_elems fl f (d # u) = parse_elems fl (Suc f) (d # u)"
      "parse_members fl f (d # u) = parse_members fl (Suc f) (d # u)" if "skip_ws t = d # u" for d u
      using ws [OF that] Cons l by (auto intro!: IH(2,3))
    then show ?thesis
      unfolding parse_value.simps(2) [of fl f] parse_value.simps(2) [of fl "Suc f"] Cons
      by (auto split: list.splits)
  qed (simp add: parse_unfold)
  moreover have "parse_elems fl (Suc f) s = parse_elems fl (Suc (Suc f)) s" if l: "2 * length s + 2 \<le> Suc f" for s
  proof (cases "parse_value fl f s")
    case None
    with IH(1) [of s] l show ?thesis
      unfolding parse_elems.simps(2) [of fl f] parse_elems.simps(2) [of fl "Suc f"] by simp
  next
    case (Some vr)
    obtain v r where vr: "vr = (v, r)" by (cases vr)
    then have "length r < length s" using Some parse_length by blast
    then have "parse_elems fl f (skip_ws u) = parse_elems fl (Suc f) (skip_ws u)"
      if "skip_ws r = c # u" for c u
      using ws [OF that] l skip_ws_length [of u] by (intro IH(2)) simp
    with Some IH(1) [of s] l show ?thesis
      unfolding parse_elems.simps(2) [of fl f] parse_elems.simps(2) [of fl "Suc f"]
      by (auto simp: vr split: list.splits)
  qed
  moreover have "parse_members fl (Suc f) s = parse_members fl (Suc (Suc f)) s"
    if l: "2 * length s + 2 \<le> Suc f" for s
  proof -
    have "parse_value fl f (skip_ws u) = parse_value fl (Suc f) (skip_ws u) \<and>
        (\<forall>v r1 d w. parse_value fl f (skip_ws u) = Some (v, r1) \<longrightarrow> skip_ws r1 = d # w \<longrightarrow>
          parse_members fl f (skip_ws w) = parse_members fl (Suc f) (skip_ws w))"
      if s: "s = q # t" and k: "scan_string t = Some (k, r)" and u: "skip_ws r = c # u" for q t k r c u
    proof -
      have lu: "length (skip_ws u) < length s"
        using skip_ws_length [of u] ws [OF u] scan_string_length [OF k] s by simp
      have "parse_members fl f (skip_ws w) = parse_members fl (Suc f) (skip_ws w)"
        if "parse_value fl f (skip_ws u) = Some (v, r1)" and "skip_ws r1 = d # w" for v r1 d w
      proof (rule IH(3))
        have "length r1 < length (skip_ws u)" using that(1) parse_length by blast
        with lu ws [OF that(2)] skip_ws_length [of w] l show "2 * length (skip_ws w) + 2 \<le> f" by simp
      qed
      with lu l show ?thesis by (auto intro!: IH(1))
    qed
    then show ?thesis
      unfolding parse_members.simps(2) [of fl f] parse_members.simps(2) [of fl "Suc f"]
      by (auto split: list.splits option.splits)
  qed
  ultimately show ?case by blast
qed

lemma parse_value_fuel:
  assumes "2 * length s + 1 \<le> f" and "f \<le> f'"
  shows "parse_value fl f' s = parse_value fl f s"
  using assms(2)
proof (induction f' rule: dec_induct)
  case base
  show ?case ..
next
  case (step n)
  then have "2 * length s + 1 \<le> n" using assms(1) by linarith
  then have "parse_value fl n s = parse_value fl (Suc n) s" using parse_enough by blast
  with step.IH show ?case by simp
qed

subsection \<open>Text appended to a document\<close>

text \<open>
  What the scanners have read is not changed by text appended behind it, provided the unread
  rest already shows that a number has ended.
\<close>

definition closed_rest :: "string \<Rightarrow> bool" where
  "closed_rest r \<longleftrightarrow> r \<noteq> [] \<and> \<not> is_digit (hd r) \<and> hd r \<notin> {CHR ''.'', CHR ''e'', CHR ''E''}"

lemma skip_ws_append: "skip_ws r \<noteq> [] \<Longrightarrow> skip_ws (r @ q) = skip_ws r @ q"
  by (induction r) auto

lemma while_append:
  assumes "dropWhile P s \<noteq> []"
  shows "takeWhile P (s @ q) = takeWhile P s" and "dropWhile P (s @ q) = dropWhile P s @ q"
  using assms by (induction s) auto

lemma startswith_length: "startswith s p \<Longrightarrow> length p \<le> length s"
  unfolding startswith_def by (metis length_take min.cobounded1)

lemma startswith_extend: "length p \<le> length s \<Longrightarrow> startswith (s @ q) p = startswith s p"
  by (simp add: startswith_def)

lemma hex4_append: "hex4 s = Some (n, r) \<Longrightarrow> hex4 (s @ q) = Some (n, r @ q)"
  by (induction s rule: hex4.induct) (auto split: option.splits)

lemma scan_unicode_append:
  assumes a: "scan_unicode s = Some (t, r)" and r: "r \<noteq> []" "hd r = CHR 0x5C \<longrightarrow> 2 \<le> length r"
  shows "scan_unicode (s @ q) = Some (t, r @ q)"
proof -
  from a obtain u r1 where h: "hex4 s = Some (u, r1)"
    by (auto simp: scan_unicode_def split: option.splits)
  show ?thesis
  proof (cases "0xD800 \<le> u \<and> u \<le> 0xDBFF \<and> startswith r1 [CHR 0x5C, CHR ''u'']")
    case True
    then have "2 \<le> length r1" by (auto dest: startswith_length)
    then have l: "drop 2 (r1 @ q) = drop 2 r1 @ q" "startswith (r1 @ q) [CHR 0x5C, CHR ''u'']"
      using True by (simp_all add: startswith_extend)
    from a h True obtain w r2 where "hex4 (drop 2 r1) = Some (w, r2)"
      by (auto simp: scan_unicode_def split: option.splits)
    with a h True l hex4_append [OF h, of q] hex4_append [of "drop 2 r1" w r2 q] show ?thesis
      by (auto simp: scan_unicode_def split: if_splits)
  next
    case False
    with a h have "r = r1" by (auto simp: scan_unicode_def)
    then have "startswith (r1 @ q) [CHR 0x5C, CHR ''u''] = startswith r1 [CHR 0x5C, CHR ''u'']"
      using r by (cases "2 \<le> length r1") (simp add: startswith_extend, cases r1, auto simp: startswith_def)
    with a h False hex4_append [OF h, of q] show ?thesis
      by (auto simp: scan_unicode_def)
  qed
qed

lemma scan_string_nonempty:
  assumes "scan_string r = Some x"
  shows "r \<noteq> []" and "hd r = CHR 0x5C \<longrightarrow> 2 \<le> length r"
proof -
  show "r \<noteq> []" using assms by auto
  then obtain c t where r: "r = c # t" by (cases r) auto
  show "hd r = CHR 0x5C \<longrightarrow> 2 \<le> length r"
    using assms by (cases t) (auto simp: r quote_def)
qed

lemma scan_string_escaped:
  assumes "scan_string (CHR 0x5C # s) = Some (b, r)"
  obtains (simple) e t x b1 where "s = e # t" "map_of simple_escapes e = Some x"
      "scan_string t = Some (b1, r)" "b = x # b1"
  | (unicode) t x r1 b1 where "s = CHR ''u'' # t" "map_of simple_escapes (CHR ''u'') = None"
      "scan_unicode t = Some (x, r1)" "scan_string r1 = Some (b1, r)" "b = x @ b1"
  using assms by (auto simp: quote_def split: list.splits option.splits if_splits)

lemma scan_string_append: "scan_string s = Some (b, r) \<Longrightarrow> scan_string (s @ q) = Some (b, r @ q)"
proof (induction "length s" arbitrary: s b r rule: less_induct)
  case less
  obtain c t where s: "s = c # t" using less.prems by (cases s) auto
  consider "c = quote" | (plain) "c \<noteq> quote" "c \<noteq> CHR 0x5C" | (esc) "c \<noteq> quote" "c = CHR 0x5C"
    by blast
  then show ?case
  proof cases
    case esc
    from less.prems have "scan_string (CHR 0x5C # t) = Some (b, r)" by (simp only: s esc)
    then show ?thesis
    proof (cases rule: scan_string_escaped)
      case (simple e u x b1)
      with less.hyps [of u b1 r] show ?thesis by (simp add: s esc quote_def)
    next
      case (unicode u x r1 b1)
      have "scan_string (r1 @ q) = Some (b1, r @ q)"
        using less.hyps [of r1 b1 r] unicode scan_unicode_length [of u x r1] by (simp add: s)
      with unicode scan_unicode_append [OF unicode(3) scan_string_nonempty [OF unicode(4)], of q]
      show ?thesis by (simp add: s esc quote_def)
    qed
  next
    case plain
    with less.prems obtain b1 where "scan_string t = Some (b1, r)" "b = c # b1" "\<not> code c < 0x20"
      by (auto simp: s split: if_splits)
    with less.hyps [of t b1 r] plain show ?thesis by (simp add: s)
  qed (use less.prems in \<open>simp add: s\<close>)
qed

lemma scan_nat_append: "scan_nat s = Some (ds, r) \<Longrightarrow> r \<noteq> [] \<Longrightarrow> scan_nat (s @ q) = Some (ds, r @ q)"
  by (auto simp: scan_nat_def while_append split: list.splits if_splits)

lemma digit_neq [simp]: "\<not> is_digit (CHR ''e'')" "\<not> is_digit (CHR ''E'')" "\<not> is_digit (CHR ''.'')"
  "\<not> is_digit (CHR ''-'')" "\<not> is_digit (CHR ''+'')"
  by (simp_all add: is_digit_def)

lemma scan_exp_append:
  assumes "scan_exp s = (ex, r)" and "closed_rest r"
  shows "scan_exp (s @ q) = (ex, r @ q) \<and> s \<noteq> [] \<and> \<not> is_digit (hd s) \<and> hd s \<noteq> CHR ''.''"
proof (cases s)
  case (Cons c t)
  show ?thesis
  proof (cases "c = CHR ''e'' \<or> c = CHR ''E''")
    case True
    define sgn where "sgn = (case t of d # _ \<Rightarrow> if d = CHR ''+'' \<or> d = CHR ''-'' then [d] else [] | [] \<Rightarrow> [])"
    define u where "u = drop (length sgn) t"
    have u: "u \<noteq> []" "is_digit (hd u)" "ex = c # sgn @ takeWhile is_digit u" "r = dropWhile is_digit u"
      using assms True
      by (auto simp: scan_exp_def Cons Let_def closed_rest_def simp flip: sgn_def u_def split: if_splits)
    have "t \<noteq> []" using u(1) by (auto simp: u_def)
    then have sgn': "(case t @ q of d # _ \<Rightarrow> if d = CHR ''+'' \<or> d = CHR ''-'' then [d] else [] | [] \<Rightarrow> []) = sgn"
      by (cases t) (simp_all add: sgn_def)
    have "drop (length sgn) (t @ q) = u @ q" using u(1) by (auto simp: u_def)
    moreover have "dropWhile is_digit u \<noteq> []" using assms(2) u(4) by (simp add: closed_rest_def)
    ultimately show ?thesis
      using u True by (auto simp: scan_exp_def Cons Let_def sgn' while_append)
  next
    case False
    with assms show ?thesis by (auto simp: scan_exp_def Cons closed_rest_def)
  qed
qed (use assms in \<open>auto simp: scan_exp_def closed_rest_def\<close>)

lemma scan_frac_append:
  assumes "scan_frac s = (fr, r)" and "r \<noteq> []" and "hd r \<noteq> CHR ''.''"
  shows "scan_frac (s @ q) = (fr, r @ q) \<and> s \<noteq> []"
proof (cases "fr = []")
  case True
  with assms have "r = s" by (auto simp: scan_frac_def split: list.splits if_splits)
  with assms True show ?thesis
    by (cases s) (auto simp: scan_frac_def split: list.splits)
next
  case False
  with assms obtain d t where "s = CHR ''.'' # d # t" "is_digit d" "fr = CHR ''.'' # takeWhile is_digit (d # t)"
    "r = dropWhile is_digit (d # t)"
    by (auto simp: scan_frac_def split: list.splits if_splits)
  with while_append [of is_digit "d # t" q] assms show ?thesis by (simp add: scan_frac_def)
qed

lemma scan_number_append:
  assumes n: "scan_number fl s = Some (v, r)" and r: "closed_rest r"
  shows "scan_number fl (s @ q) = Some (v, r @ q)"
proof -
  let ?body = "\<lambda>s. if startswith s ''-'' then tl s else s"
  from n obtain ds r0 fr r1 ex r2 where
    nat: "scan_nat (?body s) = Some (ds, r0)"
    and fr: "scan_frac r0 = (fr, r1)" and ex: "scan_exp r1 = (ex, r2)"
    and rr: "fr = [] \<and> ex = [] \<and> r = r0 \<or> r = r2"
    by (rule scan_numberE)
  have "fr = [] \<Longrightarrow> r1 = r0" "ex = [] \<Longrightarrow> r2 = r1"
    using fr ex by (auto simp: scan_frac_def scan_exp_def Let_def split: list.splits if_splits)
  with rr have r2: "r = r2" by auto
  with ex r have e: "scan_exp (r1 @ q) = (ex, r @ q)" "r1 \<noteq> []" "hd r1 \<noteq> CHR ''.''"
    using scan_exp_append [of r1 ex r q] by auto
  from scan_frac_append [OF fr this(2,3), of q] have f: "scan_frac (r0 @ q) = (fr, r1 @ q)" "r0 \<noteq> []"
    by auto
  have "s \<noteq> []" using nat by (auto simp: scan_nat_def startswith_def)
  then have sw: "startswith (s @ q) ''-'' = startswith s ''-''" "?body (s @ q) = ?body s @ q"
    by (cases s; simp add: startswith_def)+
  from nat fr ex e f n scan_nat_append [OF nat f(2), of q] show ?thesis
    unfolding scan_number_def Let_def sw by (auto simp: \<open>s \<noteq> []\<close> split: if_splits)
qed

lemma strip_prefix_append: "strip_prefix p s = Some r \<Longrightarrow> strip_prefix p (s @ q) = Some (r @ q)"
  using startswith_length [of s p] by (auto simp: strip_prefix_def startswith_extend split: if_splits)

lemma strip_prefix_hd: "s \<noteq> [] \<Longrightarrow> p \<noteq> [] \<Longrightarrow> hd s \<noteq> hd p \<Longrightarrow> strip_prefix p s = None"
  by (cases s; cases p) (auto simp: strip_prefix_def startswith_def)

lemma strip_prefix_hdD: "strip_prefix p s = Some r \<Longrightarrow> p \<noteq> [] \<Longrightarrow> s \<noteq> [] \<and> hd s = hd p"
  by (cases s; cases p) (auto simp: strip_prefix_def startswith_def split: if_splits)

lemma scan_number_hd:
  "scan_number fl s = Some x \<Longrightarrow> s \<noteq> [] \<and> (hd s = CHR ''-'' \<or> is_digit (hd s))"
  by (cases s)
    (auto simp: scan_number_def Let_def scan_nat_def startswith_def is_digit_def split: list.splits if_splits)

lemma scan_number_minus_Infinity: "scan_number fl (CHR ''-'' # CHR ''I'' # s) = None"
  by (simp add: scan_number_def startswith_def scan_nat_def is_digit_def)

lemma scan_constant_append:
  assumes c: "scan_constant fl s = Some (v, r)" and r: "closed_rest r"
  shows "scan_constant fl (s @ q) = Some (v, r @ q)"
proof -
  let ?strip = "\<lambda>p. strip_prefix p s"
  have s: "s \<noteq> []" using c
    by (cases s) (auto simp: scan_constant_def strip_prefix_def startswith_def scan_number_def scan_nat_def)
  have none: "strip_prefix p (s @ q) = None" if "p \<noteq> []" "hd s \<noteq> hd p" for p
    using strip_prefix_hd [of "s @ q" p] that s by simp
  have nonum: "scan_number fl (s @ q) = None" if "hd s \<noteq> CHR ''-''" "\<not> is_digit (hd s)"
    using scan_number_hd [of fl "s @ q"] that s by (cases "scan_number fl (s @ q)") auto
  consider (null) "?strip ''null'' = Some r" "v = PNone"
    | (true) "?strip ''true'' = Some r" "v = PBool True"
    | (false) "?strip ''false'' = Some r" "v = PBool False"
    | (num) "scan_number fl s = Some (v, r)"
    | (nan) "?strip ''NaN'' = Some r" "v = PFloat FNan"
    | (inf) "?strip ''Infinity'' = Some r" "v = PFloat (FInf True)"
    | (minf) "?strip ''-Infinity'' = Some r" "v = PFloat (FInf False)"
    using c by (auto simp: scan_constant_def split: option.splits)
  then show ?thesis
  proof cases
    case num
    from scan_number_hd [OF num] have "hd s \<noteq> CHR ''n''" "hd s \<noteq> CHR ''t''" "hd s \<noteq> CHR ''f''"
      by (auto simp: is_digit_def)
    with scan_number_append [OF num r, of q] show ?thesis by (simp add: scan_constant_def none)
  next
    case minf
    then have "scan_number fl (s @ q) = None"
      using scan_number_minus_Infinity
      by (auto simp: strip_prefix_def startswith_def Cons_eq_append_conv split: if_splits)
        (metis append_Cons append_take_drop_id)
    moreover have "hd s = CHR ''-''" using strip_prefix_hdD [OF minf(1)] by simp
    ultimately show ?thesis
      using strip_prefix_append [OF minf(1), of q] minf(2) by (simp add: scan_constant_def none)
  next
    case null
    from strip_prefix_append [OF null(1), of q] null(2) show ?thesis by (simp add: scan_constant_def)
  next
    case true
    with strip_prefix_append [OF true(1), of q] strip_prefix_hdD [OF true(1)] show ?thesis
      by (simp add: scan_constant_def none)
  next
    case false
    with strip_prefix_append [OF false(1), of q] strip_prefix_hdD [OF false(1)] show ?thesis
      by (simp add: scan_constant_def none)
  next
    case nan
    with strip_prefix_append [OF nan(1), of q] strip_prefix_hdD [OF nan(1)] nonum show ?thesis
      by (simp add: scan_constant_def none is_digit_def)
  next
    case inf
    with strip_prefix_append [OF inf(1), of q] strip_prefix_hdD [OF inf(1)] nonum show ?thesis
      by (simp add: scan_constant_def none is_digit_def)
  qed
qed

lemma closed_rest_skip:
  assumes "skip_ws r = c # u" and "c \<in> {CHR '','', CHR '']'', CHR ''}''}"
  shows "closed_rest r"
proof (cases r)
  case (Cons d t)
  with assms show ?thesis
    by (cases "is_space d") (auto simp: closed_rest_def is_space_def is_digit_def)
qed (use assms in simp)

lemma parse_append:
  "(\<forall>s v r. parse_value fl f s = Some (v, r) \<longrightarrow>
      closed_rest r \<or> (s \<noteq> [] \<and> hd s \<in> {quote, CHR ''{'', CHR ''[''}) \<longrightarrow>
      parse_value fl f (s @ q) = Some (v, r @ q)) \<and>
   (\<forall>s vs r. parse_elems fl f s = Some (vs, r) \<longrightarrow> parse_elems fl f (s @ q) = Some (vs, r @ q)) \<and>
   (\<forall>s ps r. parse_members fl f s = Some (ps, r) \<longrightarrow> parse_members fl f (s @ q) = Some (ps, r @ q))"
proof (induction f)
  case 0
  show ?case by (simp add: parse_value.simps(1) parse_elems.simps(1) parse_members.simps(1))
next
  case (Suc f)
  then have IH: "\<And>s v r. parse_value fl f s = Some (v, r) \<Longrightarrow>
      closed_rest r \<or> (s \<noteq> [] \<and> hd s \<in> {quote, CHR ''{'', CHR ''[''}) \<Longrightarrow>
      parse_value fl f (s @ q) = Some (v, r @ q)"
    "\<And>s vs r. parse_elems fl f s = Some (vs, r) \<Longrightarrow> parse_elems fl f (s @ q) = Some (vs, r @ q)"
    "\<And>s ps r. parse_members fl f s = Some (ps, r) \<Longrightarrow> parse_members fl f (s @ q) = Some (ps, r @ q)"
    by blast+
  have ws: "skip_ws (t @ q) = d # u @ q" if "skip_ws t = d # u" for t d u
    using skip_ws_append [of t q] that by simp
  have "parse_value fl (Suc f) (s @ q) = Some (v, r @ q)"
    if p: "parse_value fl (Suc f) s = Some (v, r)"
      and r: "closed_rest r \<or> (s \<noteq> [] \<and> hd s \<in> {quote, CHR ''{'', CHR ''[''})" for s v r
  proof (cases s)
    case (Cons c t)
    consider "c = quote" | "c = CHR ''{''" | "c = CHR ''[''"
      | (const) "c \<noteq> quote" "c \<noteq> CHR ''{''" "c \<noteq> CHR ''[''" by blast
    then show ?thesis
    proof cases
      case const
      then have "closed_rest r" "scan_constant fl (c # t) = Some (v, r)"
        using r p by (auto simp: Cons parse_value.simps(2))
      from scan_constant_append [OF this(2,1), of q] const show ?thesis
        by (simp add: Cons parse_value.simps(2))
    next
      case 1
      with p show ?thesis by (auto simp: Cons parse_value.simps(2) dest: scan_string_append [of _ _ _ q])
    next
      case 2
      with p obtain d u where "skip_ws t = d # u" by (auto simp: Cons parse_value.simps(2) split: list.splits)
      with p 2 IH(3) [of "d # u"] ws [of t d u] show ?thesis
        by (auto simp: Cons parse_value.simps(2) split: if_splits)
    next
      case 3
      with p obtain d u where "skip_ws t = d # u" by (auto simp: Cons parse_value.simps(2) split: list.splits)
      with p 3 IH(2) [of "d # u"] ws [of t d u] show ?thesis
        by (auto simp: Cons parse_value.simps(2) split: if_splits)
    qed
  qed (use p in \<open>simp add: parse_value.simps(2)\<close>)
  moreover have "parse_elems fl (Suc f) (s @ q) = Some (vs, r @ q)"
    if p: "parse_elems fl (Suc f) s = Some (vs, r)" for s vs r
  proof -
    from p obtain v r1 c u where v: "parse_value fl f s = Some (v, r1)" and c: "skip_ws r1 = c # u"
      and rest: "c = CHR '']'' \<and> vs = [v] \<and> r = u \<or>
       c = CHR '','' \<and> (\<exists>vs'. parse_elems fl f (skip_ws u) = Some (vs', r) \<and> vs = v # vs')"
      unfolding parse_elems_Some by blast
    from c rest have "closed_rest r1" by (auto intro: closed_rest_skip)
    with IH(1) [OF v] have "parse_value fl f (s @ q) = Some (v, r1 @ q)" by blast
    moreover have "skip_ws (u @ q) = skip_ws u @ q" if "parse_elems fl f (skip_ws u) = Some (vs', r)" for vs'
      using that parse_length [of fl f] by (intro skip_ws_append) fastforce
    ultimately show ?thesis
      using ws [OF c] rest IH(2) [of "skip_ws u"] unfolding parse_elems_Some by auto
  qed
  moreover have "parse_members fl (Suc f) (s @ q) = Some (ps, r @ q)"
    if p: "parse_members fl (Suc f) s = Some (ps, r)" for s ps r
  proof -
    from p obtain t k r0 u v r1 d w where s: "s = quote # t" and k: "scan_string t = Some (k, r0)"
      and u: "skip_ws r0 = CHR '':'' # u" and v: "parse_value fl f (skip_ws u) = Some (v, r1)"
      and d: "skip_ws r1 = d # w"
      and rest: "d = CHR ''}'' \<and> ps = [(k, v)] \<and> r = w \<or>
       d = CHR '','' \<and> (\<exists>ps'. parse_members fl f (skip_ws w) = Some (ps', r) \<and> ps = (k, v) # ps')"
      unfolding parse_members_Some by blast
    from d rest have "closed_rest r1" by (auto intro: closed_rest_skip)
    with IH(1) [OF v] have "parse_value fl f (skip_ws u @ q) = Some (v, r1 @ q)" by blast
    moreover have "skip_ws (u @ q) = skip_ws u @ q"
      using v parse_length [of fl f] by (intro skip_ws_append) fastforce
    moreover have "skip_ws (w @ q) = skip_ws w @ q" if "parse_members fl f (skip_ws w) = Some (ps', r)" for ps'
      using that parse_length [of fl f] by (intro skip_ws_append) fastforce
    ultimately show ?thesis
      using s ws [OF u] ws [OF d] rest scan_string_append [OF k, of q] IH(3) [of "skip_ws w"]
      unfolding parse_members_Some by auto
  qed
  ultimately show ?case by blast
qed

lemma skip_ws_Nil_iff: "skip_ws s = [] \<longleftrightarrow> (\<forall>c \<in> set s. is_space c)"
  by (induction s) auto

lemma proper_prefix_rejected:
  assumes v: "json_loads fl (p @ q) = Some v" and hd: "hd (p @ q) = CHR ''{''"
    and q: "q \<noteq> []" "\<not> is_space (last q)"
  shows "json_loads fl p = None"
proof (rule ccontr)
  assume "json_loads fl p \<noteq> None"
  then obtain w r where w: "parse_value fl (2 * length p + 2) (skip_ws p) = Some (w, r)"
    by (auto simp: json_loads_def split: option.splits)
  have p: "p \<noteq> []" using w by (auto simp: parse_value.simps)
  with hd have hdp: "hd p = CHR ''{''" by simp
  then have ws: "skip_ws p = p" "skip_ws (p @ q) = p @ q"
    using p by (auto intro!: skip_ws_nonspace)
  let ?f = "2 * length (p @ q) + 2"
  from w ws hdp p parse_append [of fl "2 * length p + 2" q]
  have "parse_value fl (2 * length p + 2) (p @ q) = Some (w, r @ q)" by auto
  then have "parse_value fl ?f (p @ q) = Some (w, r @ q)" by (rule parse_value_mono) simp
  with v ws have "skip_ws (r @ q) = []"
    by (simp add: json_loads_def split: if_splits)
  with q show False by (auto simp: skip_ws_Nil_iff)
qed

subsection \<open>What can be encoded\<close>

text \<open>The values \<open>dumps_jcs\<close> accepts, stated without the encoder.\<close>

fun encodable :: "(string \<Rightarrow> string) \<Rightarrow> pyval \<Rightarrow> bool" where
  "encodable nfc (PFloat f) = (case f of FFin _ _ \<Rightarrow> True | _ \<Rightarrow> False)"
| "encodable nfc (PSnap v) = encodable nfc v"
| "encodable nfc (PList vs) = (\<forall>v \<in> set vs. encodable nfc v)"
| "encodable nfc (PDict kvs) =
    ((\<forall>(k, v) \<in> set kvs. k \<noteq> KOther \<and> check_bmp_only (nfc (key_str k)) \<and> encodable nfc v) \<and>
     distinct (map (\<lambda>(k, v). nfc (key_str k)) kvs))"
| "encodable nfc (PObject t) = False"
| "encodable nfc v = True"

lemma normalise_keys_iff:
  "is_ok (normalise_keys nfc kvs seen) \<longleftrightarrow>
    (\<forall>(k, v) \<in> set kvs. k \<noteq> KOther \<and> nfc (key_str k) \<notin> set seen) \<and>
    distinct (map (\<lambda>(k, v). nfc (key_str k)) kvs)"
proof (induction nfc kvs seen rule: normalise_keys.induct)
  case (3 nfc k v kvs seen)
  show ?case
  proof (cases "nfc k \<in> set seen")
    case False
    have "is_ok (normalise_keys nfc ((KStr k, v) # kvs) seen) = is_ok (normalise_keys nfc kvs (nfc k # seen))"
      using False by (cases "normalise_keys nfc kvs (nfc k # seen)") simp_all
    with 3 False show ?thesis by force
  qed simp
qed simp_all

lemma sequence_is_ok: "is_ok (sequence rs) \<longleftrightarrow> (\<forall>r \<in> set rs. is_ok r)"
proof (induction rs)
  case (Cons r rs)
  then show ?case by (cases r; cases "sequence rs") auto
qed simp

lemma rbind_is_ok: "is_ok (rbind r (\<lambda>x. Inr (g x))) = is_ok r"
  by (cases r) simp_all

lemma encode_dict_is_ok:
  "is_ok (encode_dict nfc kvs) \<longleftrightarrow>
    (\<forall>(k, r) \<in> set kvs. k \<noteq> KOther \<and> check_bmp_only (nfc (key_str k)) \<and> is_ok r) \<and>
    distinct (map (\<lambda>(k, r). nfc (key_str k)) kvs)"
proof (cases "normalise_keys nfc kvs []")
  case (Inl e)
  then show ?thesis
    using normalise_keys_iff [of nfc kvs "[]"] by (auto simp: encode_dict_def)
next
  case (Inr ns)
  then have ok: "\<forall>(k, v) \<in> set kvs. k \<noteq> KOther" "distinct (map (\<lambda>(k, v). nfc (key_str k)) kvs)"
    using normalise_keys_iff [of nfc kvs "[]"] by auto
  have ns: "ns = map (\<lambda>(k, v). (nfc (key_str k), v)) kvs" by (rule normalise_keys_ok(1) [OF Inr])
  let ?item = "\<lambda>(k, r). rbind r (\<lambda>t. Inr (encode_string nfc k @ '':'' @ t))"
  have "is_ok (sequence (map ?item (sort_key fst ns))) \<longleftrightarrow> (\<forall>(k, r) \<in> set kvs. is_ok r)"
    unfolding sequence_is_ok by (force simp: ns rbind_is_ok)
  moreover have "find (\<lambda>(k, v). \<not> check_bmp_only k) ns = None
      \<longleftrightarrow> (\<forall>(k, r) \<in> set kvs. check_bmp_only (nfc (key_str k)))"
    by (force simp: find_None_iff ns)
  ultimately show ?thesis
    using ok by (cases "find (\<lambda>(k, v). \<not> check_bmp_only k) ns") (auto simp: encode_dict_def Inr rbind_is_ok)
qed

lemma walk_is_ok: "is_ok (walk nfc v) \<longleftrightarrow> encodable nfc v"
proof (induction nfc v rule: walk.induct)
  case (7 nfc vs)
  then show ?case by (auto simp: rbind_is_ok sequence_is_ok)
next
  case (8 nfc kvs)
  then have "is_ok (walk nfc v) = encodable nfc v" if "(k, v) \<in> set kvs" for k v
    using that by blast
  then show ?case by (fastforce simp: encode_dict_is_ok case_prod_unfold comp_def)
qed (auto simp: encode_float_def split: pyfloat.splits option.splits)

subsection \<open>Properties\<close>

lemma dumps_loads_canon:
  assumes "dumps_jcs nfc v = Inr t" and "float_free v" and "normalises nfc"
  shows "loads_jcs fl t = Some (canon nfc v)" and "dumps_jcs nfc (canon nfc v) = Inr t"
  using assms dumps_reads [OF assms, of fl] walk_canon [of nfc v t]
  by (simp_all add: loads_jcs_def dumps_jcs_ok)

lemma dumps_canon_eq:
  assumes "canon nfc v = canon nfc w" and "normalises nfc"
    and "dumps_jcs nfc v = Inr t" and "dumps_jcs nfc w = Inr u"
  shows "t = u"
  using assms walk_canon [of nfc v t] walk_canon [of nfc w u] by (simp add: dumps_jcs_ok)

text \<open>
  C39. A document written by \<open>dumps_jcs\<close> is read back by \<open>loads_jcs\<close> as the canonical form of
  the value (NFC text, members sorted by key), and \<open>is_canonical\<close> accepts it. Values with a
  float are excluded: their decimal text is Python's.
\<close>

theorem dumps_loads_roundtrip:
  assumes "dumps_jcs nfc v = Inr t" and "float_free v" and "normalises nfc"
  shows "loads_jcs fl t = Some (canon nfc v) \<and> is_canonical nfc fl t"
  using dumps_loads_canon(1) [OF assms, of fl] dumps_loads_canon(2) [OF assms] by (simp add: is_canonical_def)

lemma normalises_id: "normalises (\<lambda>s. s)"
  by (simp add: normalises_def)

theorem dumps_loads_roundtrip_witness:
  "loads_jcs (\<lambda>_. FNan) (''{'' @ [quote] @ ''a'' @ [quote] @ '':[1,'' @ [quote] @ ''x'' @ [quote] @ '']}'')
      = Some (PDict [(KStr ''a'', PList [PInt 1, PStr ''x''])])"
proof -
  let ?v = "PDict [(KStr ''a'', PList [PInt 1, PStr ''x''])]"
  let ?t = "''{'' @ [quote] @ ''a'' @ [quote] @ '':[1,'' @ [quote] @ ''x'' @ [quote] @ '']}''"
  have "dumps_jcs (\<lambda>s. s) ?v = Inr ?t" by code_simp
  moreover have "float_free ?v" by simp
  moreover have "canon (\<lambda>s. s) ?v = ?v" by code_simp
  ultimately show ?thesis
    using dumps_loads_roundtrip [of "\<lambda>s. s" ?v ?t "\<lambda>_. FNan"] normalises_id by simp
qed

text \<open>
  The encoding is canonical: two values are written as the same bytes exactly when they
  have the same canonical form, so a digest of the bytes identifies the value.
\<close>

theorem dumps_injective:
  assumes "dumps_jcs nfc v = Inr t" and "dumps_jcs nfc w = Inr u"
    and "float_free v" and "float_free w" and "normalises nfc"
  shows "t = u \<longleftrightarrow> canon nfc v = canon nfc w"
  using dumps_reads [OF assms(1,3,5)] dumps_reads [OF assms(2,4,5)] dumps_canon_eq [OF _ assms(5,1,2)]
  by (metis option.inject)

theorem dumps_injective_witness:
  "canon (\<lambda>s. s) (PDict [(KStr ''b'', PInt 2), (KStr ''a'', PInt 1)])
      = canon (\<lambda>s. s) (PDict [(KStr ''a'', PInt 1), (KStr ''b'', PInt 2)])"
proof -
  let ?v = "PDict [(KStr ''b'', PInt 2), (KStr ''a'', PInt 1)]"
  let ?w = "PDict [(KStr ''a'', PInt 1), (KStr ''b'', PInt 2)]"
  let ?t = "''{'' @ [quote] @ ''a'' @ [quote] @ '':1,'' @ [quote] @ ''b'' @ [quote] @ '':2}''"
  have "dumps_jcs (\<lambda>s. s) ?v = Inr ?t" "dumps_jcs (\<lambda>s. s) ?w = Inr ?t" by code_simp+
  then show ?thesis
    using dumps_injective [of "\<lambda>s. s" ?v ?t ?w ?t] normalises_id by simp
qed

text \<open>The order in which the members of a dict were inserted does not reach the bytes.\<close>

theorem dumps_member_order:
  assumes "dumps_jcs nfc (PDict kvs) = Inr t" and "mset kvs' = mset kvs"
  shows "dumps_jcs nfc (PDict kvs') = Inr t"
proof -
  from assms(1) have w: "encode_dict nfc (map (\<lambda>(k, v). (k, walk nfc v)) kvs) = Inr t" and u: "utf8_valid t"
    by (simp_all add: dumps_jcs_ok)
  note ok = encode_dict_ok [OF w]
  have st: "set kvs' = set kvs" using assms(2) by (metis set_mset_mset)
  have "encodable nfc (PDict kvs)" using w walk_is_ok [of nfc "PDict kvs"] by simp
  moreover have "distinct (map (\<lambda>(k, v). nfc (key_str k)) kvs') = distinct (map (\<lambda>(k, v). nfc (key_str k)) kvs)"
    using assms(2) by (intro mset_eq_imp_distinct_iff) (metis mset_map)
  ultimately have "encodable nfc (PDict kvs')" using st by simp
  then obtain t' where w': "encode_dict nfc (map (\<lambda>(k, v). (k, walk nfc v)) kvs') = Inr t'"
    using walk_is_ok [of nfc "PDict kvs'"] by (auto simp: is_ok_def split: sum.splits)
  note ok' = encode_dict_ok [OF w']
  have "sorted_members nfc kvs' = sorted_members nfc kvs"
  proof (rule map_sorted_distinct_set_unique)
    show "inj_on fst (set (sorted_members nfc kvs') \<union> set (sorted_members nfc kvs))"
      using ok(3) by (simp add: set_sorted_members st distinct_map)
  qed (use ok(3) ok'(3) in \<open>auto simp: sorted_sorted_members set_sorted_members st\<close>)
  with ok(1) ok'(1) w' u show ?thesis by (simp add: dumps_jcs_ok)
qed

theorem dumps_member_order_witness:
  "dumps_jcs (\<lambda>s. s) (PDict [(KStr ''b'', PInt 2), (KStr ''a'', PInt 1)])
      = Inr (''{'' @ [quote] @ ''a'' @ [quote] @ '':1,'' @ [quote] @ ''b'' @ [quote] @ '':2}'')"
  by (rule dumps_member_order [of _ "[(KStr ''a'', PInt 1), (KStr ''b'', PInt 2)]"]) (code_simp, simp)

text \<open>
  \<open>dumps_jcs\<close> succeeds exactly on the values without a NaN or an infinity, without a
  foreign object, and whose dict keys are strings, pairwise different after NFC and within the
  basic multilingual plane, and whose text has no lone surrogate; every other value is refused.
\<close>

theorem dumps_accepts_iff:
  "is_ok (dumps_jcs nfc v) \<longleftrightarrow> encodable nfc v \<and> utf8_valid (projr (walk nfc v))"
  using walk_is_ok [of nfc v] by (cases "walk nfc v") (auto simp: dumps_jcs_def)

lemma dumps_dict_prefix:
  assumes "dumps_jcs nfc (PDict kvs) = Inr (p @ q)" and "q \<noteq> []"
    and "float_free (PDict kvs)" and "normalises nfc"
  shows "json_loads fl p = None"
proof (rule proper_prefix_rejected)
  from assms(1) have w: "encode_dict nfc (map (\<lambda>(k, v). (k, walk nfc v)) kvs) = Inr (p @ q)"
    by (simp add: dumps_jcs_ok)
  note shape = encode_dict_ok(1) [OF w]
  show "json_loads fl (p @ q) = Some (canon nfc (PDict kvs))"
    by (rule dumps_reads [OF assms(1,3,4)])
  show "hd (p @ q) = CHR ''{''" unfolding shape by simp
  have "last (p @ q) = CHR ''}''" unfolding shape by simp
  with assms(2) show "\<not> is_space (last q)" by simp
qed (fact assms(2))

text \<open>
  A document cut short is not a document: no proper prefix of an encoded dict is
  accepted by the reader, so a torn write of one line cannot be taken for a shorter record.
\<close>

theorem dumps_prefix_rejected:
  assumes "dumps_jcs nfc (PDict kvs) = Inr (p @ q)" and "q \<noteq> []"
    and "float_free (PDict kvs)" and "normalises nfc"
  shows "json_loads fl p = None"
  using assms by (rule dumps_dict_prefix)

theorem dumps_prefix_rejected_witness:
  "json_loads (\<lambda>_. FNan) (''{'' @ [quote] @ ''a'' @ [quote] @ '':1'') = None"
proof -
  let ?p = "''{'' @ [quote] @ ''a'' @ [quote] @ '':1''"
  have "dumps_jcs (\<lambda>s. s) (PDict [(KStr ''a'', PInt 12)]) = Inr (?p @ ''2}'')" by code_simp
  then show ?thesis
    using dumps_prefix_rejected [of "\<lambda>s. s" _ ?p "''2}''"] normalises_id by simp
qed

end
