(* ===== verification/Coerce.thy ===== *)
theory Coerce
  imports Canonical
begin

section \<open>What Python code does with a value of unknown type\<close>

text \<open>
  The readers of the program take JSON apart with \<open>payload[k]\<close>, \<open>payload.get(k)\<close>, \<open>str(v)\<close>,
  \<open>int(v)\<close>, \<open>float(v)\<close>, \<open>bool(v)\<close>, \<open>bytes.fromhex\<close> and \<open>for\<close> loops. These are their models
  on a \<open>pyval\<close>. The texts that \<open>str\<close> gives for floats, lists, dicts and foreign objects, and
  the numbers that \<open>int\<close> and \<open>float\<close> read from other types, come from the record \<open>host\<close>:
  the writers of the program never produce a value for which they are asked. \<open>repr\<close> only
  occurs inside messages.
\<close>

type_synonym payload = "(pykey \<times> pyval) list"

record host =
  host_str :: "pyval \<Rightarrow> string"
  host_int :: "pyval \<Rightarrow> int option"
  host_float :: "pyval \<Rightarrow> pyfloat option"
  host_repr :: "pyval \<Rightarrow> string"

fun py_str :: "host \<Rightarrow> pyval \<Rightarrow> string" where
  "py_str h PNone = ''None''"
| "py_str h (PBool b) = (if b then ''True'' else ''False'')"
| "py_str h (PInt i) = dec_int i"
| "py_str h (PStr s) = s"
| "py_str h v = host_str h v"

fun py_int :: "host \<Rightarrow> pyval \<Rightarrow> int option" where
  "py_int h (PInt i) = Some i"
| "py_int h (PBool b) = Some (if b then 1 else 0)"
| "py_int h (PFloat f) = host_int h (PFloat f)"
| "py_int h (PStr s) = host_int h (PStr s)"
| "py_int h v = None"

fun py_float :: "host \<Rightarrow> pyval \<Rightarrow> pyfloat option" where
  "py_float h (PFloat f) = Some f"
| "py_float h (PInt i) = host_float h (PInt i)"
| "py_float h (PBool b) = host_float h (PBool b)"
| "py_float h (PStr s) = host_float h (PStr s)"
| "py_float h v = None"

fun truthy :: "pyval \<Rightarrow> bool" where
  "truthy PNone = False"
| "truthy (PBool b) = b"
| "truthy (PInt i) = (i \<noteq> 0)"
| "truthy (PFloat f) = (case f of FFin (Some i) _ \<Rightarrow> i \<noteq> 0 | _ \<Rightarrow> True)"
| "truthy (PStr s) = (s \<noteq> [])"
| "truthy (PList vs) = (vs \<noteq> [])"
| "truthy (PDict kvs) = (kvs \<noteq> [])"
| "truthy _ = True"

text \<open>What a \<open>for\<close> loop over a JSON value sees; \<open>None\<close> is a \<open>TypeError\<close>.\<close>

fun iter_value :: "pyval \<Rightarrow> pyval list option" where
  "iter_value (PList vs) = Some vs"
| "iter_value (PStr s) = Some (map (\<lambda>c. PStr [c]) s)"
| "iter_value (PDict kvs) = Some (map (\<lambda>(k, _). case k of KStr s \<Rightarrow> PStr s | KOther \<Rightarrow> PNone) kvs)"
| "iter_value _ = None"

text \<open>\<open>payload.get(k)\<close>, with the default \<open>None\<close> or another one.\<close>

definition get_default :: "payload \<Rightarrow> string \<Rightarrow> pyval \<Rightarrow> pyval" where
  "get_default p k v = (case map_of p (KStr k) of None \<Rightarrow> v | Some w \<Rightarrow> w)"

definition get_value :: "payload \<Rightarrow> string \<Rightarrow> pyval" where
  "get_value p k = get_default p k PNone"

text \<open>A host for evaluating examples.\<close>

definition demo_host :: host where
  "demo_host = \<lparr>host_str = (\<lambda>_. []), host_int = (\<lambda>_. None), host_float = (\<lambda>_. None),
     host_repr = (\<lambda>_. [])\<rparr>"

end
