(* ===== verification/Journal.thy ===== *)
theory Journal
  imports Coerce
begin

section \<open>State files, the file lock and line journals\<close>

text \<open>
  What the append-only files of the program share: the state of a file on disk, the bounded
  exclusive lock of \<open>src/ract/file_lock.py\<close>, the whole-file write of
  \<open>src/ract/atomic_write.py\<close>, and the reading of a file of JSON lines whose last line may
  be torn. The locale \<open>jsonl_lines\<close> states what a journal's line format promises and proves once
  what a reader sees after an append; \<open>jsonl\<close> adds the tolerance of a torn last line.
\<close>

subsection \<open>Files\<close>

text \<open>A path: nothing there, a directory, a file the process cannot read, or a file.\<close>

datatype disk_file = Absent | Directory | Unreadable string | Content string

datatype os_error = IsADirectory | PermissionDenied | FileNotFound

text \<open>Opening with \<open>O_WRONLY | O_CREAT | O_APPEND\<close>: creates the file, refuses a directory.\<close>

fun open_append :: "disk_file \<Rightarrow> os_error + disk_file" where
  "open_append Absent = Inr (Content [])"
| "open_append Directory = Inl IsADirectory"
| "open_append (Unreadable c) = Inr (Unreadable c)"
| "open_append (Content c) = Inr (Content c)"

text \<open>\<open>os.write\<close> on such a descriptor.\<close>

fun write_end :: "string \<Rightarrow> disk_file \<Rightarrow> disk_file" where
  "write_end b (Content c) = Content (c @ b)"
| "write_end b (Unreadable c) = Unreadable (c @ b)"
| "write_end b f = f"

fun truncate_file :: "disk_file \<Rightarrow> disk_file" where
  "truncate_file (Content c) = Content []"
| "truncate_file (Unreadable c) = Unreadable []"
| "truncate_file f = f"

text \<open>\<open>write_atomic\<close>: the rename replaces what is there, but not a directory.\<close>

fun write_atomic :: "disk_file \<Rightarrow> string \<Rightarrow> os_error + disk_file" where
  "write_atomic Directory data = Inl IsADirectory"
| "write_atomic f data = Inr (Content data)"

subsection \<open>The exclusive lock\<close>

text \<open>
  \<open>lock_exclusive\<close>. \<open>try_lock i\<close> says whether attempt \<open>i\<close> would succeed; \<open>False\<close> is the
  caller's \<open>contended\<close> error after the last attempt. With no attempt allowed the loop ends
  without an error, and without the lock.
\<close>

function lock_from :: "(nat \<Rightarrow> bool) \<Rightarrow> nat \<Rightarrow> nat \<Rightarrow> bool" where
  "lock_from try_lock retries attempt =
    (if retries \<le> attempt then True
     else if try_lock attempt then True
     else if attempt = retries - 1 then False
     else lock_from try_lock retries (attempt + 1))"
  by pat_completeness auto
termination
  by (relation "measure (\<lambda>(_, retries, attempt). retries - attempt)") auto

declare lock_from.simps [simp del]

definition lock_exclusive :: "(nat \<Rightarrow> bool) \<Rightarrow> nat \<Rightarrow> bool" where
  "lock_exclusive try_lock retries = lock_from try_lock retries 0"

lemma lock_from_iff:
  "attempt < retries \<Longrightarrow> lock_from try_lock retries attempt \<longleftrightarrow> (\<exists>i. attempt \<le> i \<and> i < retries \<and> try_lock i)"
proof (induction try_lock retries attempt rule: lock_from.induct)
  case (1 try_lock retries attempt)
  have "(\<exists>i. attempt \<le> i \<and> i < retries \<and> try_lock i) \<longleftrightarrow>
      try_lock attempt \<or> (\<exists>i. attempt + 1 \<le> i \<and> i < retries \<and> try_lock i)"
    using "1.prems" by (metis Suc_eq_plus1 Suc_leD Suc_leI le_eq_less_or_eq order_refl)
  with 1 show ?case
    by (subst lock_from.simps) (auto simp: not_le)
qed

lemma lock_exclusive_iff: "0 < retries \<Longrightarrow> lock_exclusive try_lock retries \<longleftrightarrow> (\<exists>i < retries. try_lock i)"
  by (simp add: lock_exclusive_def lock_from_iff)

subsection \<open>Lines\<close>

lemma isascii_hex: "isascii (hex b)"
  using set_hex [of _ b] by (force simp: isascii_def)

text \<open>\<open>text.split("\n")\<close> without the empty last piece of a well-formed file.\<close>

definition split_lines :: "string \<Rightarrow> string list" where
  "split_lines raw =
    (let ls = split_on newline raw in if last ls = [] then butlast ls else ls)"

text \<open>A file that ends where a line ends.\<close>

definition framed :: "string \<Rightarrow> bool" where
  "framed c \<longleftrightarrow> c = [] \<or> last c = newline"

lemma split_on_append_sep: "split_on c (s @ c # t) = split_on c s @ split_on c t"
proof (induction s)
  case (Cons a s)
  then show ?case by (cases "split_on c s") auto
qed simp

lemma split_lines_framed:
  assumes "framed c"
  shows "split_on newline c = split_lines c @ [[]]"
proof (cases "c = []")
  case False
  with assms obtain b where c: "c = b @ newline # []"
    by (metis append_butlast_last_id framed_def)
  have "split_on newline c = split_on newline b @ [[]]"
    unfolding c split_on_append_sep by simp
  then show ?thesis by (simp add: split_lines_def)
qed (simp add: split_lines_def)

lemma split_lines_snoc:
  assumes "framed c" and "newline \<notin> set t"
  shows "split_lines (c @ t @ [newline]) = split_lines c @ [t]"
    and "t \<noteq> [] \<Longrightarrow> split_lines (c @ t) = split_lines c @ [t]"
proof -
  have app: "split_on newline (c @ u) = split_lines c @ split_on newline u" for u
  proof (cases "c = []")
    case False
    with assms(1) obtain b where c: "c = b @ newline # []"
      by (metis append_butlast_last_id framed_def)
    have "split_lines c = split_on newline b"
      using split_lines_framed [OF assms(1)] by (simp add: c split_on_append_sep)
    then show ?thesis by (simp add: c split_on_append_sep)
  qed (simp add: split_lines_def)
  have "split_on newline (t @ [newline]) = [t, []]"
    using assms(2) split_on_append_sep [of newline t "[]"] by (simp add: split_on_no_sep)
  then show "split_lines (c @ t @ [newline]) = split_lines c @ [t]"
    unfolding split_lines_def [of "c @ t @ [newline]"] app by (simp add: butlast_append)
  show "split_lines (c @ t) = split_lines c @ [t]" if "t \<noteq> []"
    unfolding split_lines_def [of "c @ t"] app using that assms(2) by (simp add: split_on_no_sep)
qed

lemma framed_snoc: "framed (c @ t @ [newline])"
  by (simp add: framed_def)

lemma framed_Nil [simp]: "framed []"
  by (simp add: framed_def)

lemma split_lines_Nil [simp]: "split_lines [] = []"
  by (simp add: split_lines_def)

text \<open>The lines as the two chain files read them, without the last newline.\<close>

definition chain_lines :: "string \<Rightarrow> string list" where
  "chain_lines raw = split_on newline (if last raw = newline then butlast raw else raw)"

lemma chain_lines_eq: "raw \<noteq> [] \<Longrightarrow> chain_lines raw = split_lines raw"
proof (cases "last raw = newline")
  case True
  assume "raw \<noteq> []"
  then have raw: "raw = butlast raw @ newline # []"
    using True by (metis append_butlast_last_id)
  have "split_on newline raw = split_on newline (butlast raw) @ [[]]"
    by (subst raw) (simp only: split_on_append_sep split_on.simps(1))
  then show ?thesis using True by (simp add: chain_lines_def split_lines_def)
next
  case False
  assume "raw \<noteq> []"
  have "last (split_on newline raw) \<noteq> []"
  proof
    assume l: "last (split_on newline raw) = []"
    have "raw = join [newline] (split_on newline raw)" by (simp add: join_split_on)
    also have "split_on newline raw = butlast (split_on newline raw) @ [[]]"
      by (metis append_butlast_last_id l split_on_nonempty)
    finally obtain ps where j: "raw = join [newline] (ps @ [[]])" by blast
    have "join [newline] (ps @ [[]]) = [] \<or> last (join [newline] (ps @ [[]])) = newline" for ps
    proof (induction ps)
      case (Cons p ps)
      have c: "join [newline] ((p # ps) @ [[]]) = p @ [newline] @ join [newline] (ps @ [[]])"
        using join_Cons [of "ps @ [[]]" "[newline]" p] by simp
      show ?case
        using Cons unfolding c by (cases "join [newline] (ps @ [[]]) = []") (simp_all del: join.simps)
    qed simp
    with j \<open>raw \<noteq> []\<close> False show False by metis
  qed
  with False show ?thesis by (simp add: chain_lines_def split_lines_def Let_def)
qed

subsection \<open>A record read back\<close>

text \<open>The payload a line is read back as: NFC text, members in key order.\<close>

definition canon_payload :: "(string \<Rightarrow> string) \<Rightarrow> payload \<Rightarrow> payload" where
  "canon_payload nfc p = map (\<lambda>(k, v). (KStr k, canon nfc v)) (sorted_members nfc p)"

lemma canon_PDict: "canon nfc (PDict p) = PDict (canon_payload nfc p)"
  by (simp only: canon_dict canon_payload_def)

lemma map_of_canon_payload:
  assumes "dumps_jcs nfc (PDict p) = Inr t" and "normalises nfc" and "map_of p (KStr k) = Some v" and "isascii k"
  shows "map_of (canon_payload nfc p) (KStr k) = Some (canon nfc v)"
proof -
  from assms(1) have w: "encode_dict nfc (map (\<lambda>(k, v). (k, walk nfc v)) p) = Inr t"
    by (simp add: dumps_jcs_ok)
  note ok = encode_dict_ok [OF w]
  have nk: "nfc k = k" using assms(2,4) by (simp add: normalises_def)
  have "(k, v) \<in> set (sorted_members nfc p)"
    using map_of_SomeD [OF assms(3)] nk by (force simp: set_sorted_members)
  then have "(KStr k, canon nfc v) \<in> set (canon_payload nfc p)"
    by (force simp: canon_payload_def)
  moreover have "distinct (map fst (canon_payload nfc p))"
  proof -
    have "map fst (canon_payload nfc p) = map KStr (map fst (sorted_members nfc p))"
      by (simp add: canon_payload_def case_prod_unfold comp_def)
    then show ?thesis using ok(3) by (simp add: distinct_map inj_on_def)
  qed
  ultimately show ?thesis by simp
qed

lemma dumps_dict_shape:
  assumes "dumps_jcs nfc (PDict p) = Inr t"
  shows "t \<noteq> []"
  using assms encode_dict_ok(1) [of nfc p t] by (simp add: dumps_jcs_ok)

lemma utf8_valid_newline: "utf8_valid [newline]"
  by (rule utf8_valid_ascii) (simp add: isascii_def newline_def)

subsection \<open>Reading a journal\<close>

text \<open>
  The loop of a journal's reader. \<open>read_line l line\<close>, with \<open>l\<close> telling whether the line is
  the last, raises (\<open>Inl\<close>), ends the reading (\<open>None\<close>, a torn tail) or gives an entry.
\<close>

fun read_all :: "(bool \<Rightarrow> string \<Rightarrow> 'x + 'r option) \<Rightarrow> string list \<Rightarrow> 'x + 'r list" where
  "read_all read_line [] = Inr []"
| "read_all read_line (line # ls) =
    rbind (read_line (ls = []) line) (\<lambda>e.
      case e of
        None \<Rightarrow> Inr []
      | Some r \<Rightarrow> rbind (read_all read_line ls) (\<lambda>rs. Inr (r # rs)))"

text \<open>Every line gives an entry, wherever it stands.\<close>

definition reads_as :: "(bool \<Rightarrow> string \<Rightarrow> 'x + 'r option) \<Rightarrow> string list \<Rightarrow> 'r list \<Rightarrow> bool" where
  "reads_as rl ls rs \<longleftrightarrow> list_all2 (\<lambda>l r. \<forall>b. rl b l = Inr (Some r)) ls rs"

lemma read_all_reads_as: "reads_as rl ls rs \<Longrightarrow> read_all rl ls = Inr rs"
  unfolding reads_as_def
  by (induction ls rs rule: list_all2_induct) (auto split: if_splits)

lemma read_all_snoc:
  "reads_as rl ls rs \<Longrightarrow>
    read_all rl (ls @ [t]) = rbind (rl True t) (\<lambda>e. Inr (rs @ (case e of None \<Rightarrow> [] | Some r \<Rightarrow> [r])))"
  unfolding reads_as_def
proof (induction ls rs rule: list_all2_induct)
  case Nil
  then show ?case by (cases "rl True t") (auto split: option.splits)
next
  case (Cons l ls r rs)
  then show ?case by (cases "rl True t") (auto split: option.splits)
qed

lemma reads_as_snoc: "reads_as rl (ls @ [t]) (rs @ [r]) \<longleftrightarrow>
    reads_as rl ls rs \<and> (\<forall>b. rl b t = Inr (Some r))"
proof -
  have "list_all2 P (ls @ [t]) (rs @ [r]) \<longleftrightarrow> list_all2 P ls rs \<and> P t r" for P :: "string \<Rightarrow> 'b \<Rightarrow> bool"
  proof (cases "length ls = length rs")
    case False
    then show ?thesis by (auto dest: list_all2_lengthD)
  qed (simp add: list_all2_append)
  then show ?thesis by (simp add: reads_as_def)
qed

text \<open>A journal that holds the entries \<open>rs\<close>, each on a line of its own.\<close>

definition holds :: "(bool \<Rightarrow> string \<Rightarrow> 'x + 'r option) \<Rightarrow> string \<Rightarrow> 'r list \<Rightarrow> bool" where
  "holds rl c rs \<longleftrightarrow> framed c \<and> reads_as rl (split_lines c) rs"

lemma holds_Nil: "holds rl [] []"
  by (simp add: holds_def reads_as_def)

lemma holds_read: "holds rl c rs \<Longrightarrow> read_all rl (split_lines c) = Inr rs"
  by (simp add: holds_def read_all_reads_as)

text \<open>
  A line format: \<open>text e\<close> is the line of the entry \<open>e\<close> (for the entries that are \<open>valid\<close>),
  \<open>norm e\<close> what it is read back as.
\<close>

locale jsonl_lines =
  fixes read_line :: "bool \<Rightarrow> string \<Rightarrow> 'x + 'r option"
    and valid :: "'e \<Rightarrow> string \<Rightarrow> bool"
    and norm :: "'e \<Rightarrow> 'r"
  assumes one_line: "valid e t \<Longrightarrow> t \<noteq> [] \<and> newline \<notin> set t"
    and read_back: "valid e t \<Longrightarrow> read_line l t = Inr (Some (norm e))"
begin

lemma holds_append: "holds read_line c rs \<Longrightarrow> valid e t \<Longrightarrow> holds read_line (c @ t @ [newline]) (rs @ [norm e])"
  using one_line [of e t]
  by (simp add: holds_def framed_snoc split_lines_snoc reads_as_snoc read_back)

lemma holds_unterminated:
  assumes "holds read_line c rs" and "valid e t"
  shows "read_all read_line (split_lines (c @ t)) = Inr (rs @ [norm e])"
  using assms one_line [of e t] read_back [of e t True]
  by (simp add: holds_def split_lines_snoc(2) read_all_snoc [where rs = rs])

lemma holds_concat:
  "list_all2 valid es ts \<Longrightarrow> holds read_line (concat (map (\<lambda>t. t @ [newline]) ts)) (map norm es)"
proof (induction es arbitrary: ts rule: rev_induct)
  case Nil
  then show ?case by (simp add: holds_Nil)
next
  case (snoc e es)
  from snoc.prems obtain us t where "ts = us @ [t]" "list_all2 valid es us" "valid e t"
    by (auto simp: list_all2_append1 list_all2_Cons1)
  with snoc.IH [of us] holds_append [of _ _ e t] show ?case by simp
qed

end

text \<open>A line format whose reader drops a torn last line.\<close>

locale jsonl = jsonl_lines +
  assumes torn: "valid e (p @ q) \<Longrightarrow> q \<noteq> [] \<Longrightarrow> read_line True p = Inr None"
begin

lemma holds_torn:
  assumes "holds read_line c rs" and "valid e (p @ q)" and "q \<noteq> []"
  shows "read_all read_line (split_lines (c @ p)) = Inr rs"
proof (cases "p = []")
  case False
  with assms one_line [of e "p @ q"] torn [of e p q] show ?thesis
    by (simp add: holds_def split_lines_snoc(2) read_all_snoc [where rs = rs])
qed (use assms holds_read in simp)

end

end
