(* ===== verification/Wal.thy ===== *)
theory Wal
  imports Journal
begin

section \<open>The assumption store: snapshot and write-ahead log\<close>

text \<open>
  The model of \<open>src/ract/core/assumptions_wal.py\<close>: \<open>AssumptionWal\<close> with its two files,
  \<open>load_all\<close> (with \<open>_read_lines\<close>), \<open>append\<close> and \<open>rotate_snapshot\<close>. Each method takes the
  store and returns the outcome with the store it leaves; the outcomes of the attempts to
  lock are the argument \<open>try_lock\<close>. A process killed inside \<open>append\<close> or \<open>rotate_snapshot\<close>
  leaves one of the stores of \<open>append_killed\<close> and \<open>rotate_states\<close>. The thread lock, which
  orders the calls of one process, has no counterpart: the model's calls are in order.
\<close>

subsection \<open>The vocabulary\<close>

definition TRANSITIONS :: "string list" where
  "TRANSITIONS = [''proposed'', ''accepted'', ''discharged'', ''violated'']"

record wal_entry =
  kind :: string
  payload :: payload

datatype wal_error =
    WalLockContended nat
  | WalCorruptError string
  | UnknownKind string
  | Unencodable jcs_error
  | OsError os_error

record wal_store =
  snapshot_file :: disk_file
  wal_file :: disk_file

definition lock_retries :: nat where
  "lock_retries = 3"

text \<open>\<open>_canonical_line\<close>.\<close>

definition canonical_line :: "(string \<Rightarrow> string) \<Rightarrow> payload \<Rightarrow> jcs_error + string" where
  "canonical_line nfc p = rbind (dumps_jcs nfc (PDict p)) (\<lambda>t. Inr (t @ [newline]))"

text \<open>\<open>{**payload, "kind": kind}\<close>.\<close>

definition with_kind :: "string \<Rightarrow> payload \<Rightarrow> payload" where
  "with_kind k p = AList.update (KStr ''kind'') (PStr k) p"

subsection \<open>Loading\<close>

text \<open>One turn of the loop of \<open>_read_lines\<close>.\<close>

definition read_line ::
    "(string \<Rightarrow> pyfloat) \<Rightarrow> bool \<Rightarrow> bool \<Rightarrow> string \<Rightarrow> wal_error + wal_entry option" where
  "read_line fl tolerate_tail is_last line =
    (case json_loads fl line of
       None \<Rightarrow> if tolerate_tail \<and> is_last then Inr None else Inl (WalCorruptError ''malformed WAL line'')
     | Some obj \<Rightarrow>
         (case obj of
            PDict d \<Rightarrow>
              (case map_of d (KStr ''kind'') of
                 Some (PStr k) \<Rightarrow>
                   if k \<in> set TRANSITIONS then Inr (Some \<lparr>kind = k, payload = d\<rparr>)
                   else Inl (WalCorruptError ''unknown transition kind'')
               | _ \<Rightarrow> Inl (WalCorruptError ''unknown transition kind''))
          | _ \<Rightarrow> Inl (WalCorruptError ''not an object'')))"

definition read_lines ::
    "(string \<Rightarrow> pyfloat) \<Rightarrow> bool \<Rightarrow> disk_file \<Rightarrow> wal_error + wal_entry list" where
  "read_lines fl tolerate_tail f =
    (case f of
       Absent \<Rightarrow> Inr []
     | Directory \<Rightarrow> Inl (WalCorruptError ''not a file'')
     | Unreadable _ \<Rightarrow> Inl (WalCorruptError ''cannot read'')
     | Content raw \<Rightarrow>
         if raw = [] then Inr []
         else if \<not> utf8_valid raw then Inl (WalCorruptError ''not UTF-8'')
         else read_all (read_line fl tolerate_tail) (split_lines raw))"

definition load_all ::
    "(string \<Rightarrow> pyfloat) \<Rightarrow> wal_store \<Rightarrow> wal_error + (wal_entry list \<times> wal_entry list)" where
  "load_all fl st =
    rbind (read_lines fl False (snapshot_file st)) (\<lambda>ss.
    rbind (read_lines fl True (wal_file st)) (\<lambda>ws. Inr (ss, ws)))"

subsection \<open>Appending\<close>

definition append ::
    "(string \<Rightarrow> string) \<Rightarrow> (nat \<Rightarrow> bool) \<Rightarrow> string \<Rightarrow> payload \<Rightarrow> wal_store
      \<Rightarrow> (wal_error + unit) \<times> wal_store" where
  "append nfc try_lock k p st =
    (if k \<notin> set TRANSITIONS then (Inl (UnknownKind k), st)
     else case canonical_line nfc (with_kind k p) of
       Inl e \<Rightarrow> (Inl (Unencodable e), st)
     | Inr line \<Rightarrow>
         (case open_append (wal_file st) of
            Inl e \<Rightarrow> (Inl (OsError e), st)
          | Inr f \<Rightarrow>
              if \<not> lock_exclusive try_lock lock_retries
              then (Inl (WalLockContended lock_retries), st\<lparr>wal_file := f\<rparr>)
              else (Inr (), st\<lparr>wal_file := write_end line f\<rparr>)))"

text \<open>The store left by a process that is killed after \<open>n\<close> bytes of the line were written.\<close>

definition append_killed ::
    "(string \<Rightarrow> string) \<Rightarrow> nat \<Rightarrow> string \<Rightarrow> payload \<Rightarrow> wal_store \<Rightarrow> wal_store" where
  "append_killed nfc n k p st =
    (case (canonical_line nfc (with_kind k p), open_append (wal_file st)) of
       (Inr line, Inr f) \<Rightarrow> st\<lparr>wal_file := write_end (take n line) f\<rparr>
     | _ \<Rightarrow> st)"

subsection \<open>Rotation\<close>

text \<open>\<open>{**entry, "kind": entry.get("kind", "proposed")}\<close>.\<close>

definition snapshot_payload :: "payload \<Rightarrow> payload" where
  "snapshot_payload p =
    AList.update (KStr ''kind'')
      (case map_of p (KStr ''kind'') of Some v \<Rightarrow> v | None \<Rightarrow> PStr ''proposed'') p"

definition snapshot_body :: "(string \<Rightarrow> string) \<Rightarrow> payload list \<Rightarrow> jcs_error + string" where
  "snapshot_body nfc entries =
    rbind (sequence (map (\<lambda>e. canonical_line nfc (snapshot_payload e)) entries)) (\<lambda>ls. Inr (concat ls))"

text \<open>
  \<open>rotate_snapshot\<close>: the stores it passes through, in order, and its outcome. The last
  store is the one it leaves; a process killed on the way leaves one of the others.
\<close>

definition rotate_states ::
    "(string \<Rightarrow> string) \<Rightarrow> (nat \<Rightarrow> bool) \<Rightarrow> payload list \<Rightarrow> wal_store
      \<Rightarrow> (wal_error + unit) \<times> wal_store list" where
  "rotate_states nfc try_lock entries st =
    (case snapshot_body nfc entries of
       Inl e \<Rightarrow> (Inl (Unencodable e), [st])
     | Inr body \<Rightarrow>
         (case open_append (wal_file st) of
            Inl e \<Rightarrow> (Inl (OsError e), [st])
          | Inr f \<Rightarrow>
              let opened = st\<lparr>wal_file := f\<rparr> in
              if \<not> lock_exclusive try_lock lock_retries
              then (Inl (WalLockContended lock_retries), [st, opened])
              else case write_atomic (snapshot_file st) body of
                Inl e \<Rightarrow> (Inl (OsError e), [st, opened])
              | Inr s \<Rightarrow>
                  (Inr (),
                   [st, opened, opened\<lparr>snapshot_file := s\<rparr>,
                    \<lparr>snapshot_file = s, wal_file = truncate_file f\<rparr>])))"

definition rotate_snapshot ::
    "(string \<Rightarrow> string) \<Rightarrow> (nat \<Rightarrow> bool) \<Rightarrow> payload list \<Rightarrow> wal_store
      \<Rightarrow> (wal_error + unit) \<times> wal_store" where
  "rotate_snapshot nfc try_lock entries st =
    (case rotate_states nfc try_lock entries st of (r, sts) \<Rightarrow> (r, last sts))"

subsection \<open>Lines are read back\<close>

definition entry_of :: "(string \<Rightarrow> string) \<Rightarrow> payload \<Rightarrow> wal_entry" where
  "entry_of nfc p =
    \<lparr>kind = (case map_of p (KStr ''kind'') of Some (PStr k) \<Rightarrow> k | _ \<Rightarrow> []), payload = canon_payload nfc p\<rparr>"

definition loggable :: "payload \<Rightarrow> bool" where
  "loggable p \<longleftrightarrow> wf_dict p \<and> float_free (PDict p) \<and>
    (\<exists>k \<in> set TRANSITIONS. map_of p (KStr ''kind'') = Some (PStr k))"

lemma isascii_TRANSITIONS: "k \<in> set TRANSITIONS \<Longrightarrow> isascii k"
  by (auto simp: TRANSITIONS_def isascii_def)

lemma isascii_kind [simp]: "isascii ''kind''"
  by (simp add: isascii_def)

definition wal_valid :: "(string \<Rightarrow> string) \<Rightarrow> payload \<Rightarrow> string \<Rightarrow> bool" where
  "wal_valid nfc p t \<longleftrightarrow> normalises nfc \<and> loggable p \<and> dumps_jcs nfc (PDict p) = Inr t"

lemma read_line_valid:
  assumes "wal_valid nfc p t"
  shows "read_line fl tol l t = Inr (Some (entry_of nfc p))"
proof -
  from assms have t: "dumps_jcs nfc (PDict p) = Inr t" and n: "normalises nfc" and p: "loggable p"
    by (simp_all add: wal_valid_def)
  from p obtain k where k: "k \<in> set TRANSITIONS" "map_of p (KStr ''kind'') = Some (PStr k)"
    by (auto simp: loggable_def)
  have "json_loads fl t = Some (PDict (canon_payload nfc p))"
    using dumps_reads [OF t _ n, of fl] p by (simp add: loggable_def canon_PDict del: canon.simps)
  moreover have "map_of (canon_payload nfc p) (KStr ''kind'') = Some (PStr k)"
    using map_of_canon_payload [OF t n k(2)] n isascii_TRANSITIONS [OF k(1)]
    by (simp add: normalises_def)
  ultimately show ?thesis using k by (simp add: read_line_def entry_of_def)
qed

interpretation wal_lines: jsonl_lines "read_line fl tol" "wal_valid nfc" "entry_of nfc"
proof
  fix p t assume v: "wal_valid nfc p t"
  then show "t \<noteq> [] \<and> newline \<notin> set t"
    using dumps_no_newline [of nfc "PDict p" t] dumps_dict_shape [of nfc p t]
    by (simp add: wal_valid_def loggable_def)
  show "read_line fl tol l t = Inr (Some (entry_of nfc p))" for l
    by (rule read_line_valid [OF v])
qed

interpretation wal_log: jsonl "read_line fl True" "wal_valid nfc" "entry_of nfc"
proof
  fix e p q assume "wal_valid nfc e (p @ q)" and "q \<noteq> []"
  then show "read_line fl True True p = Inr None"
    using dumps_dict_prefix [of nfc e p q fl] by (simp add: wal_valid_def loggable_def read_line_def)
qed

subsection \<open>Stores\<close>

text \<open>What a file holds, every line of it a whole entry.\<close>

definition file_holds :: "(bool \<Rightarrow> string \<Rightarrow> wal_error + wal_entry option) \<Rightarrow> disk_file \<Rightarrow> wal_entry list \<Rightarrow> bool" where
  "file_holds rl f rs =
    (case f of
       Absent \<Rightarrow> rs = []
     | Content c \<Rightarrow> utf8_valid c \<and> holds rl c rs
     | _ \<Rightarrow> False)"

definition store_holds ::
    "(string \<Rightarrow> pyfloat) \<Rightarrow> wal_store \<Rightarrow> wal_entry list \<Rightarrow> wal_entry list \<Rightarrow> bool" where
  "store_holds fl st ss ws \<longleftrightarrow>
    file_holds (read_line fl False) (snapshot_file st) ss \<and>
    file_holds (read_line fl True) (wal_file st) ws"

lemma read_lines_holds: "file_holds (read_line fl tol) f rs \<Longrightarrow> read_lines fl tol f = Inr rs"
  by (auto simp: file_holds_def read_lines_def holds_def reads_as_def dest: holds_read split: disk_file.splits)
    (simp add: reads_as_def read_all_reads_as)

lemma load_all_holds: "store_holds fl st ss ws \<Longrightarrow> load_all fl st = Inr (ss, ws)"
  using read_lines_holds [of fl False "snapshot_file st" ss] read_lines_holds [of fl True "wal_file st" ws]
  by (simp add: store_holds_def load_all_def)

lemma file_holds_Nil [simp]: "file_holds rl (Content []) rs \<longleftrightarrow> rs = []"
  by (auto simp: file_holds_def holds_def reads_as_def)

lemma open_append_holds:
  "file_holds rl f rs \<Longrightarrow> open_append f = Inr g \<Longrightarrow> \<exists>c. g = Content c \<and> utf8_valid c \<and> holds rl c rs"
  by (cases f) (auto simp: file_holds_def holds_Nil)

lemma open_append_file_holds: "file_holds rl f rs \<Longrightarrow> open_append f = Inr g \<Longrightarrow> file_holds rl g rs"
  by (cases f) (auto simp: file_holds_def holds_Nil)

lemma file_holds_write:
  assumes "file_holds (read_line fl tol) f rs" and "open_append f = Inr g" and v: "wal_valid nfc p t"
  shows "file_holds (read_line fl tol) (write_end (t @ [newline]) g) (rs @ [entry_of nfc p])"
proof -
  from open_append_holds [OF assms(1,2)] obtain c where c: "g = Content c" "utf8_valid c"
    "holds (read_line fl tol) c rs" by blast
  have "utf8_valid t" using v by (simp add: wal_valid_def dumps_jcs_ok)
  then have "utf8_valid (c @ t @ [newline])"
    using c(2) utf8_valid_newline by (simp add: utf8_valid_append)
  with c wal_lines.holds_append [OF c(3) v] show ?thesis by (simp add: file_holds_def)
qed

definition log_payload :: "payload \<Rightarrow> bool" where
  "log_payload p \<longleftrightarrow> wf_dict p \<and> float_free (PDict p)"

lemma loggable_with_kind: "log_payload p \<Longrightarrow> k \<in> set TRANSITIONS \<Longrightarrow> loggable (with_kind k p)"
  using set_update_subset [of "KStr ''kind''" "PStr k" p]
  by (auto simp: log_payload_def loggable_def with_kind_def dict_simps)

lemma append_ok:
  assumes "append nfc try_lock k p st = (Inr (), st')"
  obtains t f where "k \<in> set TRANSITIONS" "dumps_jcs nfc (PDict (with_kind k p)) = Inr t"
    "open_append (wal_file st) = Inr f" "lock_exclusive try_lock lock_retries"
    "st' = st\<lparr>wal_file := write_end (t @ [newline]) f\<rparr>"
  using assms
  by (auto simp: append_def canonical_line_def result_simps split: if_splits sum.splits)

lemma append_holds:
  assumes "append nfc try_lock k p st = (Inr (), st')" and "store_holds fl st ss ws"
    and "log_payload p" and "normalises nfc"
  shows "store_holds fl st' ss (ws @ [entry_of nfc (with_kind k p)])"
proof -
  from assms(1) obtain t f where k: "k \<in> set TRANSITIONS" and t: "dumps_jcs nfc (PDict (with_kind k p)) = Inr t"
    and f: "open_append (wal_file st) = Inr f" and st': "st' = st\<lparr>wal_file := write_end (t @ [newline]) f\<rparr>"
    by (rule append_ok)
  have "wal_valid nfc (with_kind k p) t"
    using assms(3,4) k t by (simp add: wal_valid_def loggable_with_kind)
  with assms(2) f show ?thesis
    unfolding st' store_holds_def by (auto intro: file_holds_write)
qed

subsection \<open>Rotation keeps a loadable store\<close>

lemma sequence_lines:
  "sequence (map (\<lambda>e. canonical_line nfc (snapshot_payload e)) es) = Inr ls \<Longrightarrow>
    \<exists>ts. ls = map (\<lambda>t. t @ [newline]) ts \<and>
      list_all2 (\<lambda>e t. dumps_jcs nfc (PDict (snapshot_payload e)) = Inr t) es ts"
proof (induction es arbitrary: ls)
  case (Cons e es)
  then obtain t ls' where "dumps_jcs nfc (PDict (snapshot_payload e)) = Inr t"
    "sequence (map (\<lambda>e. canonical_line nfc (snapshot_payload e)) es) = Inr ls'" "ls = (t @ [newline]) # ls'"
    by (auto simp: canonical_line_def result_simps)
  moreover from Cons.IH [OF this(2)] obtain ts where "ls' = map (\<lambda>t. t @ [newline]) ts"
    "list_all2 (\<lambda>e t. dumps_jcs nfc (PDict (snapshot_payload e)) = Inr t) es ts" by blast
  ultimately show ?case by (intro exI [of _ "t # ts"]) simp
qed simp

lemma utf8_valid_lines:
  "\<forall>t \<in> set ts. utf8_valid t \<Longrightarrow> utf8_valid (concat (map (\<lambda>t. t @ [newline]) ts))"
proof (induction ts)
  case (Cons t ts)
  then show ?case
    using utf8_valid_append [OF utf8_valid_newline, of "concat (map (\<lambda>t. t @ [newline]) ts)"]
    by (simp add: utf8_valid_append del: utf8_valid.simps)
qed simp

lemma snapshot_body_holds:
  assumes "snapshot_body nfc es = Inr body" and "\<forall>e \<in> set es. loggable (snapshot_payload e)" and "normalises nfc"
  shows "file_holds (read_line fl tol) (Content body) (map (\<lambda>e. entry_of nfc (snapshot_payload e)) es)"
proof -
  from assms(1) obtain ls where "sequence (map (\<lambda>e. canonical_line nfc (snapshot_payload e)) es) = Inr ls"
    and b: "body = concat ls" by (auto simp: snapshot_body_def result_simps)
  from sequence_lines [OF this(1)] obtain ts where ls: "ls = map (\<lambda>t. t @ [newline]) ts"
    and ts: "list_all2 (\<lambda>e t. dumps_jcs nfc (PDict (snapshot_payload e)) = Inr t) es ts" by blast
  have "list_all2 (wal_valid nfc) (map snapshot_payload es) ts"
    using ts assms(2,3) by (auto simp: list_all2_conv_all_nth wal_valid_def)
  from wal_lines.holds_concat [OF this]
  have "holds (read_line fl tol) body (map (\<lambda>e. entry_of nfc (snapshot_payload e)) es)"
    by (simp add: b ls comp_def)
  moreover have "\<forall>t \<in> set ts. utf8_valid t"
    using ts by (auto simp: list_all2_conv_all_nth in_set_conv_nth dumps_jcs_ok)
  then have "utf8_valid body" unfolding b ls by (rule utf8_valid_lines)
  ultimately show ?thesis by (simp add: file_holds_def)
qed

lemma rotate_ok:
  assumes "rotate_states nfc try_lock es st = (Inr (), sts)"
  obtains body f s where "snapshot_body nfc es = Inr body" "open_append (wal_file st) = Inr f"
    "s = Content body"
    "sts = [st, st\<lparr>wal_file := f\<rparr>, st\<lparr>wal_file := f, snapshot_file := s\<rparr>,
      \<lparr>snapshot_file = s, wal_file = truncate_file f\<rparr>]"
proof -
  from assms obtain body f s where "snapshot_body nfc es = Inr body" "open_append (wal_file st) = Inr f"
    and s: "write_atomic (snapshot_file st) body = Inr s"
    and "sts = [st, st\<lparr>wal_file := f\<rparr>, st\<lparr>wal_file := f, snapshot_file := s\<rparr>,
      \<lparr>snapshot_file = s, wal_file = truncate_file f\<rparr>]"
    by (auto simp: rotate_states_def Let_def split: sum.splits if_splits)
  moreover have "s = Content body" using s by (cases "snapshot_file st") auto
  ultimately show ?thesis using that by blast
qed

lemma rotate_holds:
  assumes "rotate_states nfc try_lock es st = (Inr (), sts)" and "store_holds fl st ss ws"
    and "\<forall>e \<in> set es. loggable (snapshot_payload e)" and "normalises nfc"
  defines "new \<equiv> map (\<lambda>e. entry_of nfc (snapshot_payload e)) es"
  shows "store_holds fl (last sts) new []"
    and "st' \<in> set sts \<Longrightarrow> store_holds fl st' ss ws \<or> store_holds fl st' new ws \<or> store_holds fl st' new []"
proof -
  from assms(1) obtain body f where b: "snapshot_body nfc es = Inr body"
    and f: "open_append (wal_file st) = Inr f"
    and sts: "sts = [st, st\<lparr>wal_file := f\<rparr>, st\<lparr>wal_file := f, snapshot_file := Content body\<rparr>,
      \<lparr>snapshot_file = Content body, wal_file = truncate_file f\<rparr>]"
    by (rule rotate_ok) auto
  have new: "file_holds (read_line fl False) (Content body) new"
    unfolding new_def by (rule snapshot_body_holds [OF b assms(3,4)])
  have ws: "file_holds (read_line fl True) f ws"
    using assms(2) f by (auto simp: store_holds_def intro: open_append_file_holds)
  have "file_holds (read_line fl True) (truncate_file f) []"
    using ws by (cases f) (auto simp: file_holds_def holds_Nil)
  with new show "store_holds fl (last sts) new []" by (simp add: sts store_holds_def)
  with new ws assms(2) show "store_holds fl st' ss ws \<or> store_holds fl st' new ws \<or> store_holds fl st' new []"
    if "st' \<in> set sts" using that by (auto simp: sts store_holds_def)
qed

subsection \<open>Properties\<close>

definition empty_store :: wal_store where
  "empty_store = \<lparr>snapshot_file = Absent, wal_file = Absent\<rparr>"

lemma empty_store_holds: "store_holds fl empty_store [] []"
  by (simp add: store_holds_def file_holds_def empty_store_def)

text \<open>A small payload for the witnesses.\<close>

definition demo_payload :: payload where
  "demo_payload = [(KStr ''t'', PStr ''x'')]"

definition demo_text :: string where
  "demo_text = ''{'' @ [quote] @ ''kind'' @ [quote] @ '':'' @ [quote] @ ''accepted'' @ [quote] @ '',''
     @ [quote] @ ''t'' @ [quote] @ '':'' @ [quote] @ ''x'' @ [quote] @ ''}''"

lemma demo_log_payload: "log_payload demo_payload"
  by (simp add: demo_payload_def log_payload_def wf_dict_def)

lemma demo_append:
  "append (\<lambda>s. s) (\<lambda>_. True) ''accepted'' demo_payload empty_store
    = (Inr (), empty_store\<lparr>wal_file := Content (demo_text @ [newline])\<rparr>)"
  by code_simp

lemma demo_entry: "entry_of (\<lambda>s. s) (with_kind ''accepted'' demo_payload)
    = \<lparr>kind = ''accepted'', payload = [(KStr ''kind'', PStr ''accepted''), (KStr ''t'', PStr ''x'')]\<rparr>"
  by code_simp

text \<open>
  A transition that \<open>append\<close> reports as written is durable: on a store whose files hold
  whole lines, loading afterwards returns what it returned before and then this entry, and
  the store again holds whole lines.
\<close>

theorem append_durable:
  assumes "append nfc try_lock k p st = (Inr (), st')" and "store_holds fl st ss ws"
    and "log_payload p" and "normalises nfc"
  shows "load_all fl st = Inr (ss, ws) \<and>
    load_all fl st' = Inr (ss, ws @ [entry_of nfc (with_kind k p)]) \<and>
    store_holds fl st' ss (ws @ [entry_of nfc (with_kind k p)])"
  using append_holds [OF assms] assms(2) load_all_holds by blast

theorem append_durable_witness:
  "load_all (\<lambda>_. FNan) (empty_store\<lparr>wal_file := Content (demo_text @ [newline])\<rparr>)
    = Inr ([], [\<lparr>kind = ''accepted'', payload = [(KStr ''kind'', PStr ''accepted''), (KStr ''t'', PStr ''x'')]\<rparr>])"
  using append_durable [OF demo_append empty_store_holds [of "\<lambda>_. FNan"] demo_log_payload normalises_id]
  by (simp add: demo_entry)

text \<open>
  A refused \<open>append\<close> (an unknown kind, a payload that cannot be encoded, a directory in
  the file's place, a lock that none of the three attempts got) changes nothing a load sees;
  and \<open>append\<close> reports contention exactly when everything before the lock succeeds and none
  of the attempts does.
\<close>

theorem append_refused_invisible:
  assumes "append nfc try_lock k p st = (Inl e, st')"
  shows "load_all fl st' = load_all fl st \<and> snapshot_file st' = snapshot_file st \<and>
    (e = WalLockContended 3 \<longrightarrow> (\<forall>i < 3. \<not> try_lock i))"
proof -
  have "st' = st \<and> e \<noteq> WalLockContended 3 \<or>
    (\<exists>f. open_append (wal_file st) = Inr f \<and> st' = st\<lparr>wal_file := f\<rparr> \<and>
      \<not> lock_exclusive try_lock lock_retries)"
  proof (cases "canonical_line nfc (with_kind k p)")
    case (Inr line)
    with assms show ?thesis
      by (cases "open_append (wal_file st)") (auto simp: append_def split: if_splits)
  qed (use assms in \<open>auto simp: append_def split: if_splits\<close>)
  then consider "st' = st" "e \<noteq> WalLockContended 3"
    | f where "open_append (wal_file st) = Inr f" "st' = st\<lparr>wal_file := f\<rparr>"
        "\<not> lock_exclusive try_lock lock_retries"
    by blast
  then show ?thesis
  proof cases
    case (2 f)
    then have "read_lines fl True f = read_lines fl True (wal_file st)"
      by (cases "wal_file st") (auto simp: read_lines_def)
    moreover have "\<forall>i < 3. \<not> try_lock i"
      using 2(3) lock_exclusive_iff [of lock_retries try_lock] by (simp add: lock_retries_def)
    ultimately show ?thesis using 2 by (simp add: load_all_def)
  qed simp
qed

theorem append_refused_invisible_witness:
  "load_all (\<lambda>_. FNan) (empty_store\<lparr>wal_file := Content []\<rparr>) = load_all (\<lambda>_. FNan) empty_store"
proof -
  have "append (\<lambda>s. s) (\<lambda>_. False) ''accepted'' demo_payload empty_store
      = (Inl (WalLockContended 3), empty_store\<lparr>wal_file := Content []\<rparr>)" by code_simp
  from append_refused_invisible [OF this] show ?thesis by blast
qed

text \<open>
  A process killed while writing a line loses at most that line: whatever number \<open>n\<close> of
  bytes reached the file, a load gives the entries before it, and the line's entry too once
  all its text is there. The condition is that the written bytes end between characters:
  the reader decodes the whole file before it looks at the lines.
\<close>

theorem append_killed_loads:
  assumes "store_holds fl st ss ws" and "k \<in> set TRANSITIONS" and "log_payload p" and "normalises nfc"
    and "dumps_jcs nfc (PDict (with_kind k p)) = Inr t" and "utf8_valid (take n t)"
  shows "load_all fl (append_killed nfc n k p st) =
    Inr (ss, if n < length t then ws else ws @ [entry_of nfc (with_kind k p)])"
proof -
  let ?e = "entry_of nfc (with_kind k p)"
  have v: "wal_valid nfc (with_kind k p) t"
    using assms by (simp add: wal_valid_def loggable_with_kind)
  from assms(1) obtain g where g: "open_append (wal_file st) = Inr g"
    by (cases "wal_file st") (auto simp: store_holds_def file_holds_def)
  with assms(1) obtain c where c: "g = Content c" "utf8_valid c" "holds (read_line fl True) c ws"
    using open_append_holds [of "read_line fl True" "wal_file st" ws g] by (auto simp: store_holds_def)
  have st': "append_killed nfc n k p st = st\<lparr>wal_file := Content (c @ take n (t @ [newline]))\<rparr>"
    by (simp add: append_killed_def canonical_line_def assms(5) g c(1))
  have ss: "read_lines fl False (snapshot_file st) = Inr ss"
    using assms(1) by (simp add: store_holds_def read_lines_holds)
  have "read_lines fl True (Content (c @ take n (t @ [newline])))
      = Inr (if n < length t then ws else ws @ [?e])"
  proof (cases "n < length t")
    case True
    then have w: "wal_valid nfc (with_kind k p) (take n t @ drop n t)" "drop n t \<noteq> []" using v by auto
    have "utf8_valid (c @ take n t)" using c(2) assms(6) by (simp add: utf8_valid_append)
    moreover have "ws = []" if "c @ take n t = []"
      using c(3) that by (auto simp: holds_def reads_as_def)
    ultimately show ?thesis
      using wal_log.holds_torn [OF c(3) w] True by (auto simp: read_lines_def)
  next
    case False
    then consider "n = length t" | "length t < n" by linarith
    then show ?thesis
    proof cases
      case 1
      have "utf8_valid (c @ t)" using c(2) assms(6) 1 by (simp add: utf8_valid_append)
      with 1 wal_lines.holds_unterminated [OF c(3) v] wal_lines.one_line [OF v] show ?thesis
        by (simp add: read_lines_def)
    next
      case 2
      have "file_holds (read_line fl True) (Content (c @ t @ [newline])) (ws @ [?e])"
        using file_holds_write [of fl True g ws g nfc "with_kind k p" t] v c by (simp add: file_holds_def)
      from read_lines_holds [OF this] 2 show ?thesis by simp
    qed
  qed
  with ss show ?thesis unfolding st' load_all_def by simp
qed

theorem append_killed_loads_witness:
  "load_all (\<lambda>_. FNan) (append_killed (\<lambda>s. s) 5 ''accepted'' demo_payload empty_store) = Inr ([], [])"
proof -
  have "dumps_jcs (\<lambda>s. s) (PDict (with_kind ''accepted'' demo_payload)) = Inr demo_text" by code_simp
  moreover have "utf8_valid (take 5 demo_text)" by code_simp
  moreover have "(5::nat) < length demo_text" by code_simp
  moreover have "''accepted'' \<in> set TRANSITIONS" by (simp add: TRANSITIONS_def)
  ultimately show ?thesis
    using append_killed_loads [OF empty_store_holds [of "\<lambda>_. FNan"] _ demo_log_payload normalises_id] by fastforce
qed

text \<open>
  A line torn inside a two-byte character makes the whole log unreadable: the load of a
  log that already held a whole entry raises instead of dropping the torn tail.
\<close>

theorem torn_character_not_tolerated:
  "let st = \<lparr>snapshot_file = Absent, wal_file = Content (demo_text @ [newline])\<rparr>;
       p = [(KStr ''t'', PStr [CHR 0xC3, CHR 0xA9])];
       torn = append_killed (\<lambda>s. s) 25 ''accepted'' p st
   in load_all (\<lambda>_. FNan) st = Inr ([], [entry_of (\<lambda>s. s) (with_kind ''accepted'' demo_payload)]) \<and>
      load_all (\<lambda>_. FNan) torn = Inl (WalCorruptError ''not UTF-8'')"
  by code_simp

text \<open>
  A torn tail is skipped by the load but stays in the file, and the next \<open>append\<close>
  continues its line: that append succeeds, yet its transition is not in the next load, and
  after one more successful append the load raises.
\<close>

theorem torn_tail_swallows_append:
  "let torn = append_killed (\<lambda>s. s) 5 ''accepted'' demo_payload empty_store;
       st1 = append (\<lambda>s. s) (\<lambda>_. True) ''accepted'' demo_payload torn;
       st2 = append (\<lambda>s. s) (\<lambda>_. True) ''accepted'' demo_payload (snd st1)
   in load_all (\<lambda>_. FNan) torn = Inr ([], []) \<and>
      fst st1 = Inr () \<and> load_all (\<lambda>_. FNan) (snd st1) = Inr ([], []) \<and>
      fst st2 = Inr () \<and> load_all (\<lambda>_. FNan) (snd st2) = Inl (WalCorruptError ''malformed WAL line'')"
  by code_simp

text \<open>
  C36. Rotation never leaves an unreadable store: of the stores a rotation passes through,
  each loads as the old pair, as the new snapshot with the old log, or as the new snapshot
  with an empty log, and the last one as the latter.
\<close>

theorem rotate_always_loadable:
  assumes "rotate_states nfc try_lock es st = (Inr (), sts)" and "store_holds fl st ss ws"
    and "\<forall>e \<in> set es. loggable (snapshot_payload e)" and "normalises nfc"
  shows "let new = map (\<lambda>e. entry_of nfc (snapshot_payload e)) es in
    rotate_snapshot nfc try_lock es st = (Inr (), last sts) \<and>
    load_all fl (last sts) = Inr (new, []) \<and>
    (\<forall>st' \<in> set sts. load_all fl st' \<in> {Inr (ss, ws), Inr (new, ws), Inr (new, [])})"
  using rotate_holds [OF assms] load_all_holds [of fl]
  by (auto simp: Let_def rotate_snapshot_def assms(1))

theorem rotate_always_loadable_witness:
  "load_all (\<lambda>_. FNan) \<lparr>snapshot_file = Content (demo_text @ [newline]), wal_file = Content []\<rparr>
    = Inr ([\<lparr>kind = ''accepted'', payload = [(KStr ''kind'', PStr ''accepted''), (KStr ''t'', PStr ''x'')]\<rparr>], [])"
proof -
  let ?es = "[(KStr ''kind'', PStr ''accepted'') # demo_payload]"
  let ?e = "\<lparr>kind = ''accepted'', payload = [(KStr ''kind'', PStr ''accepted''), (KStr ''t'', PStr ''x'')]\<rparr>"
  obtain sts where r: "rotate_states (\<lambda>s. s) (\<lambda>_. True) ?es empty_store = (Inr (), sts)"
    and l: "last sts = \<lparr>snapshot_file = Content (demo_text @ [newline]), wal_file = Content []\<rparr>"
  proof
    show "rotate_states (\<lambda>s. s) (\<lambda>_. True) ?es empty_store =
      (Inr (), [empty_store, empty_store\<lparr>wal_file := Content []\<rparr>,
        \<lparr>snapshot_file = Content (demo_text @ [newline]), wal_file = Content []\<rparr>,
        \<lparr>snapshot_file = Content (demo_text @ [newline]), wal_file = Content []\<rparr>])" by code_simp
  qed simp
  have "loggable (snapshot_payload ((KStr ''kind'', PStr ''accepted'') # demo_payload))"
    by (simp add: loggable_def snapshot_payload_def demo_payload_def wf_dict_def TRANSITIONS_def)
  moreover have "entry_of (\<lambda>s. s) (snapshot_payload ((KStr ''kind'', PStr ''accepted'') # demo_payload)) = ?e"
    by code_simp
  ultimately show ?thesis
    using rotate_always_loadable [OF r empty_store_holds [of "\<lambda>_. FNan"] _ normalises_id] l by (simp add: Let_def)
qed

end
