(* ===== verification/Assumptions.thy ===== *)
theory Assumptions
  imports Wal
begin

section \<open>The assumption registry\<close>

text \<open>
  The model of \<open>src/ract/core/assumption.py\<close> and \<open>src/ract/core/assumption_registry.py\<close>:
  the life of an assumption (proposed, active, discharged, violated), its dependency graph,
  the operations of \<open>AssumptionRegistry\<close>, and the propagation of a violation. Every
  operation returns its outcome with the registry it leaves; the write-ahead log is the
  \<open>wal_store\<close> of theory \<open>Wal\<close>.

  What the operations take from outside is the record \<open>env\<close>: Unicode normalisation, SHA-256,
  the ambient run id, the attempts to lock, and the order in which \<open>set.pop\<close> yields the
  elements of the frontier (any order). A fresh identifier (\<open>make_assumption_id\<close>) is an
  argument. Trace events, which an operation emits after its work is done and whose failure
  it ignores, are not modelled, nor are log messages.
\<close>

subsection \<open>Data\<close>

datatype assumption_state = PROPOSED | ACTIVE | DISCHARGED | VIOLATED

fun state_value :: "assumption_state \<Rightarrow> string" where
  "state_value PROPOSED = ''proposed''"
| "state_value ACTIVE = ''active''"
| "state_value DISCHARGED = ''discharged''"
| "state_value VIOLATED = ''violated''"

text \<open>\<open>AssumptionState(value)\<close>.\<close>

definition state_of_value :: "pyval \<Rightarrow> assumption_state option" where
  "state_of_value v = find (\<lambda>s. v = PStr (state_value s)) [PROPOSED, ACTIVE, DISCHARGED, VIOLATED]"

text \<open>
  The text of an assumption, an evidence or a violation is a \<open>str\<close> when a caller makes it;
  the reload path takes whatever value the payload has, so it is a \<open>pyval\<close> here.
\<close>

record evidence =
  ev_text :: pyval
  ev_artifact :: "string option"

record violation =
  vi_text :: pyval
  vi_artifact :: "string option"

record assumption =
  aid :: string
  atext :: pyval
  adigest :: string
  astate :: assumption_state
  depends_on :: "string list"
  discharged_by :: "evidence option"
  violated_by :: "violation option"

type_synonym graph = "(string, assumption) dict"

record registry =
  assumptions :: graph
  wal :: "wal_store option"

record env =
  env_nfc :: "string \<Rightarrow> string"
  env_sha256 :: "string \<Rightarrow> string"
  env_run_id :: "string option"
  env_try_lock :: "nat \<Rightarrow> bool"
  env_pop :: "string list \<Rightarrow> nat"

datatype reg_error =
    NotFound string
  | NotProposed string
  | NotDischargeable string
  | WalFailure wal_error
  | TextUnencodable
  | MissingKey string
  | BadValue string
  | Diverges

subsection \<open>Payloads\<close>

definition hex_value :: "string \<Rightarrow> pyval" where
  "hex_value b = PStr (hex b)"

definition evidence_payload :: "evidence \<Rightarrow> pyval" where
  "evidence_payload e =
    PDict ((KStr ''text'', ev_text e) #
      (case ev_artifact e of None \<Rightarrow> [] | Some d \<Rightarrow> [(KStr ''artifact_digest'', hex_value d)]))"

definition violation_payload :: "violation \<Rightarrow> pyval" where
  "violation_payload v =
    PDict ((KStr ''text'', vi_text v) #
      (case vi_artifact v of None \<Rightarrow> [] | Some d \<Rightarrow> [(KStr ''artifact_digest'', hex_value d)]))"

text \<open>\<open>payload[k]\<close> and \<open>bytes.fromhex\<close> of a value.\<close>

definition item :: "payload \<Rightarrow> string \<Rightarrow> reg_error + pyval" where
  "item p k = (case map_of p (KStr k) of None \<Rightarrow> Inl (MissingKey k) | Some v \<Rightarrow> Inr v)"

definition unhex :: "pyval \<Rightarrow> reg_error + string" where
  "unhex v =
    (case v of
       PStr s \<Rightarrow> (case fromhex s of None \<Rightarrow> Inl (BadValue ''fromhex'') | Some b \<Rightarrow> Inr b)
     | _ \<Rightarrow> Inl (BadValue ''fromhex''))"

text \<open>The shared body of \<open>_evidence_from_payload\<close> and \<open>_violation_from_payload\<close>.\<close>

definition text_and_digest :: "pyval \<Rightarrow> reg_error + (pyval \<times> string option) option" where
  "text_and_digest v =
    (case v of
       PNone \<Rightarrow> Inr None
     | PDict p \<Rightarrow>
         rbind (item p ''text'') (\<lambda>t.
           if truthy (get_value p ''artifact_digest'')
           then rbind (unhex (get_value p ''artifact_digest'')) (\<lambda>d. Inr (Some (t, Some d)))
           else Inr (Some (t, None)))
     | _ \<Rightarrow> Inl (BadValue ''payload''))"

definition evidence_from_payload :: "pyval \<Rightarrow> reg_error + evidence option" where
  "evidence_from_payload v =
    rbind (text_and_digest v) (\<lambda>r. Inr (map_option (\<lambda>(t, d). \<lparr>ev_text = t, ev_artifact = d\<rparr>) r))"

definition violation_from_payload :: "pyval \<Rightarrow> reg_error + violation option" where
  "violation_from_payload v =
    rbind (text_and_digest v) (\<lambda>r. Inr (map_option (\<lambda>(t, d). \<lparr>vi_text = t, vi_artifact = d\<rparr>) r))"

definition depends_from_payload :: "payload \<Rightarrow> reg_error + string list" where
  "depends_from_payload p =
    (case map_of p (KStr ''depends_on'') of
       None \<Rightarrow> Inr []
     | Some v \<Rightarrow>
         (case iter_value v of
            None \<Rightarrow> Inl (BadValue ''not iterable'')
          | Some vs \<Rightarrow> sequence (map unhex vs)))"

subsection \<open>Propagation of a violation\<close>

definition violated_copy :: "violation option \<Rightarrow> assumption \<Rightarrow> assumption" where
  "violated_copy vio c = c\<lparr>astate := VIOLATED, violated_by := vio\<rparr>"

text \<open>\<open>frontier.add\<close>: the frontier is a set, kept as a list without repetition.\<close>

definition frontier_add :: "string \<Rightarrow> string list \<Rightarrow> string list" where
  "frontier_add x fr = (if x \<in> set fr then fr else fr @ [x])"

text \<open>
  The inner \<open>for\<close> loop, over the values at its start (a step changes only the entry it
  visits): the frontier, the graph and the list of identifiers marked so far.
\<close>

fun visit ::
    "violation option \<Rightarrow> string \<Rightarrow> assumption list \<Rightarrow> string list \<times> graph \<times> string list
      \<Rightarrow> string list \<times> graph \<times> string list" where
  "visit vio current [] s = s"
| "visit vio current (candidate # cs) (fr, d, out) =
    (if astate candidate = VIOLATED then visit vio current cs (fr, d, out)
     else if current \<in> set (depends_on candidate)
     then visit vio current cs
       (frontier_add (aid candidate) fr,
        AList.update (aid candidate) (violated_copy vio candidate) d,
        out @ [aid candidate])
     else visit vio current cs (fr, d, out))"

text \<open>The \<open>while frontier\<close> loop; \<open>pop\<close> chooses the element \<open>frontier.pop()\<close> takes.\<close>

partial_function (option) propagate ::
    "(string list \<Rightarrow> nat) \<Rightarrow> violation option \<Rightarrow> string list \<times> graph \<times> string list
      \<Rightarrow> (graph \<times> string list) option" where
  "propagate pop vio s =
    (case s of (fr, d, out) \<Rightarrow>
      if fr = [] then Some (d, out)
      else
        let i = pop fr mod length fr; current = fr ! i; fr' = take i fr @ drop (Suc i) fr
        in propagate pop vio (visit vio current (vals d) (fr', d, out)))"

declare propagate.simps [code]

definition violate_graph ::
    "(string list \<Rightarrow> nat) \<Rightarrow> string \<Rightarrow> violation option \<Rightarrow> assumption \<Rightarrow> graph \<Rightarrow> (graph \<times> string list) option" where
  "violate_graph pop i vio a d = propagate pop vio ([i], AList.update i (violated_copy vio a) d, [i])"

subsection \<open>Operations\<close>

definition get :: "registry \<Rightarrow> string \<Rightarrow> assumption option" where
  "get reg i = map_of (assumptions reg) i"

text \<open>\<open>_get\<close>.\<close>

definition get_or_raise :: "registry \<Rightarrow> string \<Rightarrow> reg_error + assumption" where
  "get_or_raise reg i = (case get reg i of None \<Rightarrow> Inl (NotFound i) | Some a \<Rightarrow> Inr a)"

definition violated :: "registry \<Rightarrow> assumption list" where
  "violated reg = filter (\<lambda>a. astate a = VIOLATED) (vals (assumptions reg))"

text \<open>An \<open>Assumed[T]\<close> is a value with the identifier of its assumption.\<close>

type_synonym 'a assumed = "'a \<times> string"

definition is_valid :: "registry \<Rightarrow> 'a assumed \<Rightarrow> bool" where
  "is_valid reg x =
    (case get reg (snd x) of
       None \<Rightarrow> False
     | Some a \<Rightarrow> astate a = ACTIVE \<or> astate a = DISCHARGED)"

definition invalid_assumed :: "registry \<Rightarrow> 'a assumed list \<Rightarrow> 'a assumed list" where
  "invalid_assumed reg items = filter (\<lambda>x. \<not> is_valid reg x) items"

text \<open>\<open>_persist\<close>.\<close>

definition stamp_run_id :: "string option \<Rightarrow> payload \<Rightarrow> payload" where
  "stamp_run_id ambient p =
    (case map_of p (KStr ''run_id'') of
       Some _ \<Rightarrow> p
     | None \<Rightarrow> (case ambient of None \<Rightarrow> p | Some r \<Rightarrow> AList.update (KStr ''run_id'') (PStr r) p))"

definition persist :: "env \<Rightarrow> string \<Rightarrow> payload \<Rightarrow> registry \<Rightarrow> (reg_error + unit) \<times> registry" where
  "persist env k p reg =
    (case wal reg of
       None \<Rightarrow> (Inr (), reg)
     | Some st \<Rightarrow>
         if k \<notin> set TRANSITIONS then (Inl (WalFailure (UnknownKind k)), reg)
         else case append (env_nfc env) (env_try_lock env) k (stamp_run_id (env_run_id env) p) st of
           (Inl e, st') \<Rightarrow> (Inl (WalFailure e), reg\<lparr>wal := Some st'\<rparr>)
         | (Inr _, st') \<Rightarrow> (Inr (), reg\<lparr>wal := Some st'\<rparr>))"

definition set_assumption :: "string \<Rightarrow> assumption \<Rightarrow> registry \<Rightarrow> registry" where
  "set_assumption i a reg = reg\<lparr>assumptions := AList.update i a (assumptions reg)\<rparr>"

text \<open>\<open>Assumption.propose\<close>, with the fresh identifier given.\<close>

definition canonical_text :: "string \<Rightarrow> string \<Rightarrow> string list \<Rightarrow> string" where
  "canonical_text i t deps = hex i @ '':'' @ t @ '':'' @ join '','' (map hex deps)"

definition new_assumption ::
    "(string \<Rightarrow> string) \<Rightarrow> string \<Rightarrow> string \<Rightarrow> string list \<Rightarrow> reg_error + assumption" where
  "new_assumption sha256 i t deps =
    (if utf8_valid (canonical_text i t deps)
     then Inr \<lparr>aid = i, atext = PStr t, adigest = sha256 (canonical_text i t deps), astate = PROPOSED,
                depends_on = deps, discharged_by = None, violated_by = None\<rparr>
     else Inl TextUnencodable)"

definition propose ::
    "env \<Rightarrow> string \<Rightarrow> string \<Rightarrow> string list \<Rightarrow> registry \<Rightarrow> (reg_error + assumption) \<times> registry" where
  "propose env i t deps reg =
    (case new_assumption (env_sha256 env) i t deps of
       Inl e \<Rightarrow> (Inl e, reg)
     | Inr a \<Rightarrow>
         (case persist env ''proposed''
              [(KStr ''assumption_id'', hex_value i), (KStr ''digest'', hex_value (adigest a)),
               (KStr ''text'', PStr t), (KStr ''depends_on'', PList (map hex_value deps))] reg of
            (Inl e, reg') \<Rightarrow> (Inl e, reg')
          | (Inr _, reg') \<Rightarrow> (Inr a, set_assumption i a reg')))"

definition accept :: "env \<Rightarrow> string \<Rightarrow> registry \<Rightarrow> (reg_error + assumption) \<times> registry" where
  "accept env i reg =
    (case get_or_raise reg i of
       Inl e \<Rightarrow> (Inl e, reg)
     | Inr a \<Rightarrow>
         if astate a \<noteq> PROPOSED then (Inl (NotProposed i), reg)
         else case persist env ''accepted''
              [(KStr ''assumption_id'', hex_value i), (KStr ''digest'', hex_value (adigest a))] reg of
            (Inl e, reg') \<Rightarrow> (Inl e, reg')
          | (Inr _, reg') \<Rightarrow>
              let updated = a\<lparr>astate := ACTIVE, discharged_by := None, violated_by := None\<rparr>
              in (Inr updated, set_assumption i updated reg'))"

definition discharge ::
    "env \<Rightarrow> string \<Rightarrow> evidence \<Rightarrow> registry \<Rightarrow> (reg_error + assumption) \<times> registry" where
  "discharge env i evi reg =
    (case get_or_raise reg i of
       Inl e \<Rightarrow> (Inl e, reg)
     | Inr a \<Rightarrow>
         if astate a \<noteq> ACTIVE \<and> astate a \<noteq> PROPOSED then (Inl (NotDischargeable i), reg)
         else case persist env ''discharged''
              [(KStr ''assumption_id'', hex_value i), (KStr ''digest'', hex_value (adigest a)),
               (KStr ''evidence'', evidence_payload evi)] reg of
            (Inl e, reg') \<Rightarrow> (Inl e, reg')
          | (Inr _, reg') \<Rightarrow>
              let updated = a\<lparr>astate := DISCHARGED, discharged_by := Some evi, violated_by := None\<rparr>
              in (Inr updated, set_assumption i updated reg'))"

definition violate ::
    "env \<Rightarrow> string \<Rightarrow> violation \<Rightarrow> registry \<Rightarrow> (reg_error + string list) \<times> registry" where
  "violate env i vio reg =
    (case get_or_raise reg i of
       Inl e \<Rightarrow> (Inl e, reg)
     | Inr a \<Rightarrow>
         if astate a = VIOLATED then (Inr [], reg)
         else case persist env ''violated''
              [(KStr ''assumption_id'', hex_value i), (KStr ''digest'', hex_value (adigest a)),
               (KStr ''violation'', violation_payload vio)] reg of
            (Inl e, reg') \<Rightarrow> (Inl e, reg')
          | (Inr _, reg') \<Rightarrow>
              (case violate_graph (env_pop env) i (Some vio) a (assumptions reg') of
                 None \<Rightarrow> (Inl Diverges, reg')
               | Some (d, out) \<Rightarrow> (Inr out, reg'\<lparr>assumptions := d\<rparr>)))"

text \<open>\<open>bind_assumption\<close> and \<open>Assumed.discharge\<close>.\<close>

definition bind_assumption ::
    "env \<Rightarrow> 'a \<Rightarrow> string \<Rightarrow> string \<Rightarrow> registry \<Rightarrow> (reg_error + 'a assumed) \<times> registry" where
  "bind_assumption env v i t reg =
    (case propose env i t [] reg of
       (Inl e, reg') \<Rightarrow> (Inl e, reg')
     | (Inr a, reg') \<Rightarrow>
         (case accept env (aid a) reg' of
            (Inl e, reg'') \<Rightarrow> (Inl e, reg'')
          | (Inr _, reg'') \<Rightarrow> (Inr (v, aid a), reg'')))"

definition assumed_discharge ::
    "env \<Rightarrow> 'a assumed \<Rightarrow> evidence \<Rightarrow> registry \<Rightarrow> (reg_error + 'a) \<times> registry" where
  "assumed_discharge env x evi reg =
    (case discharge env (snd x) evi reg of
       (Inl e, reg') \<Rightarrow> (Inl e, reg')
     | (Inr _, reg') \<Rightarrow> (Inr (fst x), reg'))"

text \<open>\<open>_snapshot_entry\<close> and the registry's \<open>rotate_snapshot\<close>.\<close>

definition snapshot_entry :: "assumption \<Rightarrow> payload" where
  "snapshot_entry a =
    [(KStr ''assumption_id'', hex_value (aid a)), (KStr ''digest'', hex_value (adigest a)),
     (KStr ''text'', atext a), (KStr ''state'', PStr (state_value (astate a))),
     (KStr ''depends_on'', PList (map hex_value (depends_on a)))]
    @ (case discharged_by a of None \<Rightarrow> [] | Some e \<Rightarrow> [(KStr ''discharged_by'', evidence_payload e)])
    @ (case violated_by a of None \<Rightarrow> [] | Some v \<Rightarrow> [(KStr ''violated_by'', violation_payload v)])
    @ [(KStr ''kind'', PStr ''proposed'')]"

definition rotate :: "env \<Rightarrow> registry \<Rightarrow> (reg_error + unit) \<times> registry" where
  "rotate env reg =
    (case wal reg of
       None \<Rightarrow> (Inr (), reg)
     | Some st \<Rightarrow>
         (case rotate_snapshot (env_nfc env) (env_try_lock env)
              (map snapshot_entry (vals (assumptions reg))) st of
            (Inl e, st') \<Rightarrow> (Inl (WalFailure e), reg\<lparr>wal := Some st'\<rparr>)
          | (Inr _, st') \<Rightarrow> (Inr (), reg\<lparr>wal := Some st'\<rparr>)))"

subsection \<open>Reload\<close>

definition hydrate_snapshot_entry :: "graph \<Rightarrow> wal_entry \<Rightarrow> reg_error + graph" where
  "hydrate_snapshot_entry d entry =
    (let p = payload entry in
     rbind (item p ''assumption_id'') (\<lambda>hid. rbind (unhex hid) (\<lambda>i.
     rbind (depends_from_payload p) (\<lambda>deps.
     rbind (item p ''state'') (\<lambda>sv.
     rbind (case state_of_value sv of None \<Rightarrow> Inl (BadValue ''state'') | Some s \<Rightarrow> Inr s) (\<lambda>s.
     rbind (item p ''digest'') (\<lambda>hd. rbind (unhex hd) (\<lambda>dg.
     rbind (evidence_from_payload (get_value p ''discharged_by'')) (\<lambda>ev.
     rbind (violation_from_payload (get_value p ''violated_by'')) (\<lambda>vi.
     rbind (item p ''text'') (\<lambda>t.
       Inr (AList.update i \<lparr>aid = i, atext = t, adigest = dg, astate = s, depends_on = deps,
              discharged_by = ev, violated_by = vi\<rparr> d))))))))))))"

definition apply_wal_entry :: "(string list \<Rightarrow> nat) \<Rightarrow> graph \<Rightarrow> wal_entry \<Rightarrow> reg_error + graph" where
  "apply_wal_entry pop d entry =
    (let p = payload entry; k = kind entry in
     rbind (item p ''assumption_id'') (\<lambda>hid. rbind (unhex hid) (\<lambda>i.
       if k = ''proposed'' then
         (if (case map_of d i of Some a \<Rightarrow> astate a \<in> {ACTIVE, DISCHARGED, VIOLATED} | None \<Rightarrow> False)
          then Inr d
          else rbind (item p ''digest'') (\<lambda>hd. rbind (unhex hd) (\<lambda>dg.
               rbind (depends_from_payload p) (\<lambda>deps. rbind (item p ''text'') (\<lambda>t.
                 Inr (AList.update i \<lparr>aid = i, atext = t, adigest = dg, astate = PROPOSED,
                        depends_on = deps, discharged_by = None, violated_by = None\<rparr> d))))))
       else if k = ''accepted'' then
         (case map_of d i of
            None \<Rightarrow> Inr d
          | Some a \<Rightarrow> Inr (AList.update i (a\<lparr>astate := ACTIVE\<rparr>) d))
       else if k = ''discharged'' then
         (case map_of d i of
            None \<Rightarrow> Inr d
          | Some a \<Rightarrow>
              rbind (evidence_from_payload (get_value p ''evidence'')) (\<lambda>ev.
                Inr (AList.update i (a\<lparr>astate := DISCHARGED, discharged_by := ev\<rparr>) d)))
       else if k = ''violated'' then
         (case map_of d i of
            None \<Rightarrow> Inr d
          | Some a \<Rightarrow>
              rbind (violation_from_payload (get_value p ''violation'')) (\<lambda>vi.
                case violate_graph pop i vi a d of
                  None \<Rightarrow> Inl Diverges
                | Some (d', _) \<Rightarrow> Inr d'))
       else Inl (BadValue ''kind''))))"

definition replay ::
    "(string list \<Rightarrow> nat) \<Rightarrow> wal_entry list \<Rightarrow> wal_entry list \<Rightarrow> reg_error + graph" where
  "replay pop ss ws =
    rbind (rfold hydrate_snapshot_entry [] ss) (\<lambda>d. rfold (apply_wal_entry pop) d ws)"

text \<open>\<open>_reload_from_disk\<close>, and the constructor on a \<open>wal_dir\<close>.\<close>

definition reload_from_disk ::
    "(string \<Rightarrow> pyfloat) \<Rightarrow> (string list \<Rightarrow> nat) \<Rightarrow> wal_store \<Rightarrow> reg_error + graph" where
  "reload_from_disk fl pop st =
    (case load_all fl st of
       Inl e \<Rightarrow> Inl (WalFailure e)
     | Inr (ss, ws) \<Rightarrow> replay pop ss ws)"

definition open_registry ::
    "(string \<Rightarrow> pyfloat) \<Rightarrow> (string list \<Rightarrow> nat) \<Rightarrow> wal_store option \<Rightarrow> reg_error + registry" where
  "open_registry fl pop w =
    (case w of
       None \<Rightarrow> Inr \<lparr>assumptions = [], wal = None\<rparr>
     | Some st \<Rightarrow> rbind (reload_from_disk fl pop st) (\<lambda>d. Inr \<lparr>assumptions = d, wal = Some st\<rparr>))"

subsection \<open>Propagation reaches exactly the dependents\<close>

text \<open>
  The specification: the assumptions a violation of \<open>root\<close> reaches, through assumptions that
  are not violated yet.
\<close>

inductive_set affected :: "graph \<Rightarrow> string \<Rightarrow> string set" for d root where
  root: "root \<in> affected d root"
| step: "x \<in> affected d root \<Longrightarrow> map_of d k = Some c \<Longrightarrow> astate c \<noteq> VIOLATED \<Longrightarrow>
    x \<in> set (depends_on c) \<Longrightarrow> k \<in> affected d root"

definition mark :: "violation option \<Rightarrow> string set \<Rightarrow> graph \<Rightarrow> graph" where
  "mark vio M d = map (\<lambda>(k, c). (k, if k \<in> M then violated_copy vio c else c)) d"

text \<open>Every assumption is stored under its own identifier.\<close>

definition wf_graph :: "graph \<Rightarrow> bool" where
  "wf_graph d \<longleftrightarrow> wf_dict d \<and> (\<forall>(k, c) \<in> set d. aid c = k)"

lemma mark_empty [simp]: "mark vio {} d = d"
  by (simp add: mark_def case_prod_unfold)

lemma map_of_mark: "map_of (mark vio M d) k = map_option (\<lambda>c. if k \<in> M then violated_copy vio c else c) (map_of d k)"
  by (induction d) (auto simp: mark_def)

lemma keys_mark [simp]: "map fst (mark vio M d) = map fst d"
  by (simp add: mark_def case_prod_unfold comp_def)

lemma update_mark:
  assumes "wf_dict d" and "map_of d k = Some c"
  shows "AList.update k (violated_copy vio c) (mark vio M d) = mark vio (insert k M) d"
  using assms
proof (induction d)
  case (Cons kc d)
  show ?case
  proof (cases "fst kc = k")
    case True
    with Cons.prems have "k \<notin> fst ` set d" "snd kc = c" by (cases kc; auto simp: wf_dict_Cons)+
    then have "mark vio (insert k M) d = mark vio M d" by (force simp: mark_def)
    with True \<open>snd kc = c\<close> show ?thesis by (cases kc) (simp add: mark_def)
  next
    case False
    with Cons show ?thesis by (cases kc) (auto simp: mark_def wf_dict_Cons)
  qed
qed simp

text \<open>The identifiers one turn of the outer loop adds.\<close>

definition hits :: "string \<Rightarrow> assumption list \<Rightarrow> string list" where
  "hits current cs = map aid (filter (\<lambda>c. astate c \<noteq> VIOLATED \<and> current \<in> set (depends_on c)) cs)"

lemma visit_mark:
  assumes "wf_dict d" and "\<forall>c \<in> set cs. map_of d (aid c) = Some c \<or> astate c = VIOLATED"
    and "distinct (map aid cs)" and "set fr \<subseteq> M"
    and "\<forall>c \<in> set cs. aid c \<in> M \<longrightarrow> astate c = VIOLATED"
  shows "visit vio current cs (fr, mark vio M d, out)
    = (fr @ hits current cs, mark vio (M \<union> set (hits current cs)) d, out @ hits current cs)"
  using assms(2-)
proof (induction cs arbitrary: fr M out)
  case Nil
  then show ?case by (simp add: hits_def)
next
  case (Cons c cs)
  show ?case
  proof (cases "astate c \<noteq> VIOLATED \<and> current \<in> set (depends_on c)")
    case True
    then have c: "map_of d (aid c) = Some c" "aid c \<notin> M" using Cons.prems by auto
    have "aid c \<notin> aid ` set cs" using Cons.prems(2) by simp
    then have "visit vio current cs (fr @ [aid c], mark vio (insert (aid c) M) d, out @ [aid c])
      = ((fr @ [aid c]) @ hits current cs, mark vio (insert (aid c) M \<union> set (hits current cs)) d,
         (out @ [aid c]) @ hits current cs)"
    proof (intro Cons.IH)
      show "\<forall>x \<in> set cs. map_of d (aid x) = Some x \<or> astate x = VIOLATED" "distinct (map aid cs)"
        using Cons.prems(1,2) by simp_all
      show "set (fr @ [aid c]) \<subseteq> insert (aid c) M" using Cons.prems(3) by auto
      show "\<forall>x \<in> set cs. aid x \<in> insert (aid c) M \<longrightarrow> astate x = VIOLATED"
        using Cons.prems(4) \<open>aid c \<notin> aid ` set cs\<close> by (metis image_eqI insert_iff list.set_intros(2))
    qed
    moreover have "frontier_add (aid c) fr = fr @ [aid c]"
      using c(2) Cons.prems by (auto simp: frontier_add_def)
    ultimately show ?thesis
      using True c by (simp add: update_mark [OF assms(1) c(1)] hits_def)
  next
    case False
    with Cons.IH [of fr M out] Cons.prems show ?thesis by (auto simp: hits_def)
  qed
qed

lemma wf_graph_aid: "wf_graph d \<Longrightarrow> map_of d k = Some c \<Longrightarrow> aid c = k"
  by (auto simp: wf_graph_def dest: map_of_SomeD)

lemma wf_graph_vals: "wf_graph d \<Longrightarrow> c \<in> set (vals d) \<Longrightarrow> map_of d (aid c) = Some c"
  by (force simp: wf_graph_def vals_def wf_dict_def)

lemma wf_graph_ids: "wf_graph d \<Longrightarrow> map aid (vals d) = keys d"
  by (induction d) (auto simp: wf_graph_def vals_def keys_def wf_dict_Cons)

lemma aid_violated_copy [simp]: "aid (violated_copy vio c) = aid c" "astate (violated_copy vio c) = VIOLATED"
  by (simp_all add: violated_copy_def)

lemma wf_graph_mark: "wf_graph d \<Longrightarrow> wf_graph (mark vio M d)"
  by (force simp: wf_graph_def wf_dict_def mark_def case_prod_unfold comp_def)

lemma in_vals_mark:
  assumes "wf_graph d" and "c \<in> set (vals (mark vio M d))"
  shows "map_of d (aid c) = Some c \<and> aid c \<notin> M \<or> astate c = VIOLATED \<and> (aid c \<in> M \<or> map_of d (aid c) = Some c)"
proof -
  from wf_graph_vals [OF wf_graph_mark [OF assms(1)] assms(2)]
  have "map_of (mark vio M d) (aid c) = Some c" .
  then obtain c0 where "map_of d (aid c) = Some c0" "c = (if aid c \<in> M then violated_copy vio c0 else c0)"
    by (auto simp: map_of_mark)
  then show ?thesis by (cases "aid c \<in> M") (metis aid_violated_copy(2), simp)
qed

lemma set_hits_mark:
  assumes "wf_graph d"
  shows "set (hits current (vals (mark vio M d)))
    = {k. k \<notin> M \<and> (\<exists>c. map_of d k = Some c \<and> astate c \<noteq> VIOLATED \<and> current \<in> set (depends_on c))}"
proof (intro set_eqI iffI)
  fix k assume "k \<in> set (hits current (vals (mark vio M d)))"
  then obtain c where "c \<in> set (vals (mark vio M d))" "k = aid c" "astate c \<noteq> VIOLATED"
    "current \<in> set (depends_on c)" by (auto simp: hits_def)
  with in_vals_mark [OF assms this(1)]
  show "k \<in> {k. k \<notin> M \<and> (\<exists>c. map_of d k = Some c \<and> astate c \<noteq> VIOLATED \<and> current \<in> set (depends_on c))}"
    by auto
next
  fix k assume "k \<in> {k. k \<notin> M \<and> (\<exists>c. map_of d k = Some c \<and> astate c \<noteq> VIOLATED \<and> current \<in> set (depends_on c))}"
  then obtain c where c: "k \<notin> M" "map_of d k = Some c" "astate c \<noteq> VIOLATED" "current \<in> set (depends_on c)"
    by blast
  then have "map_of (mark vio M d) k = Some c" by (simp add: map_of_mark)
  then have "c \<in> set (vals (mark vio M d))" by (force simp: vals_def dest: map_of_SomeD)
  moreover have "aid c = k" by (rule wf_graph_aid [OF assms c(2)])
  ultimately show "k \<in> set (hits current (vals (mark vio M d)))" using c by (force simp: hits_def)
qed

lemma distinct_hits: "distinct (map aid cs) \<Longrightarrow> distinct (hits current cs)"
  by (induction cs) (auto simp: hits_def)

lemma visit_step:
  fixes vio current
  assumes "wf_graph d" and "set fr \<subseteq> M"
  defines "new \<equiv> hits current (vals (mark vio M d))"
  shows "visit vio current (vals (mark vio M d)) (fr, mark vio M d, out)
    = (fr @ new, mark vio (M \<union> set new) d, out @ new)"
    and "distinct new" and "set new \<inter> M = {}"
proof -
  have ids: "distinct (map aid (vals (mark vio M d)))"
    using wf_graph_mark [OF assms(1), of vio M]
    by (simp add: wf_graph_ids) (simp add: keys_def wf_graph_def wf_dict_def)
  show "visit vio current (vals (mark vio M d)) (fr, mark vio M d, out)
    = (fr @ new, mark vio (M \<union> set new) d, out @ new)"
    unfolding new_def
  proof (rule visit_mark)
    show "wf_dict d" using assms(1) by (simp add: wf_graph_def)
  qed (use in_vals_mark [OF assms(1), of _ vio M] ids assms(2) in blast)+
  show "distinct new" unfolding new_def by (rule distinct_hits [OF ids])
  show "set new \<inter> M = {}" unfolding new_def set_hits_mark [OF assms(1)] by blast
qed

lemma affected_closed:
  assumes "root \<in> M" and "M \<subseteq> affected d root"
    and "\<And>x k c. x \<in> M \<Longrightarrow> map_of d k = Some c \<Longrightarrow> astate c \<noteq> VIOLATED \<Longrightarrow> x \<in> set (depends_on c) \<Longrightarrow> k \<in> M"
  shows "M = affected d root"
proof
  show "affected d root \<subseteq> M"
  proof
    fix k assume "k \<in> affected d root"
    then show "k \<in> M" by induction (use assms in blast)+
  qed
qed (fact assms(2))

text \<open>The assumptions that can still be marked: they bound the number of turns.\<close>

definition open_ids :: "graph \<Rightarrow> string set \<Rightarrow> string set" where
  "open_ids d M = {k. k \<notin> M \<and> (\<exists>c. map_of d k = Some c \<and> astate c \<noteq> VIOLATED)}"

lemma finite_open_ids [simp]: "finite (open_ids d M)"
  by (rule finite_subset [OF _ finite_dom_map_of [of d]]) (auto simp: open_ids_def)

lemma card_open_ids:
  assumes "distinct new" and "set new \<subseteq> open_ids d M"
  shows "card (open_ids d (M \<union> set new)) + length new = card (open_ids d M)"
proof -
  have "open_ids d (M \<union> set new) = open_ids d M - set new" by (auto simp: open_ids_def)
  then show ?thesis
    using assms card_mono [OF finite_open_ids assms(2)] by (simp add: card_Diff_subset distinct_card)
qed

lemma take_drop_nth:
  assumes "i < length xs"
  shows "set xs = insert (xs ! i) (set (take i xs @ drop (Suc i) xs))"
    and "length (take i xs @ drop (Suc i) xs) = length xs - 1"
proof -
  have "xs = take i xs @ xs ! i # drop (Suc i) xs" by (rule id_take_nth_drop [OF assms])
  then show "set xs = insert (xs ! i) (set (take i xs @ drop (Suc i) xs))"
    by (metis Un_insert_right list.simps(15) set_append)
qed (use assms in simp)

lemma propagate_marks:
  assumes "wf_graph d" and "set fr \<subseteq> M" and "M \<subseteq> affected d root" and "root \<in> M"
    and "\<And>x k c. x \<in> M \<Longrightarrow> x \<notin> set fr \<Longrightarrow> map_of d k = Some c \<Longrightarrow> astate c \<noteq> VIOLATED \<Longrightarrow>
      x \<in> set (depends_on c) \<Longrightarrow> k \<in> M"
  shows "\<exists>new. propagate pop vio (fr, mark vio M d, out) = Some (mark vio (affected d root) d, out @ new) \<and>
    set new = affected d root - M \<and> distinct new"
  using assms(2-)
proof (induction "card (open_ids d M) + length fr" arbitrary: fr M out rule: less_induct)
  case less
  show ?case
  proof (cases "fr = []")
    case True
    then have "M = affected d root"
      using less.prems by (intro affected_closed) auto
    with True show ?thesis
      by (intro exI [of _ "[]"]) (simp add: propagate.simps [of pop vio "([], _)"])
  next
    case False
    define i where "i = pop fr mod length fr"
    have i: "i < length fr" using False by (simp add: i_def)
    define fr' where "fr' = take i fr @ drop (Suc i) fr"
    have fr: "set fr = insert (fr ! i) (set fr')" "length fr' = length fr - 1"
      unfolding fr'_def by (rule take_drop_nth [OF i])+
    define new where "new = hits (fr ! i) (vals (mark vio M d))"
    have sub: "set fr' \<subseteq> M" using fr less.prems(1) by auto
    note vs = visit_step [OF assms(1) sub, where current = "fr ! i" and vio = vio, folded new_def]
    have new: "set new = {k. k \<notin> M \<and> (\<exists>c. map_of d k = Some c \<and> astate c \<noteq> VIOLATED \<and> fr ! i \<in> set (depends_on c))}"
      unfolding new_def by (rule set_hits_mark [OF assms(1)])
    have cur: "fr ! i \<in> affected d root" using less.prems(1,2) fr(1) by blast
    have aff: "set new \<subseteq> affected d root" using new affected.step [OF cur] by blast
    have "set new \<subseteq> open_ids d M" using new by (auto simp: open_ids_def)
    from card_open_ids [OF vs(2) this]
    have m: "card (open_ids d (M \<union> set new)) + length (fr' @ new) < card (open_ids d M) + length fr"
      using fr(2) False by (cases fr) simp_all
    have "\<exists>new'. propagate pop vio (fr' @ new, mark vio (M \<union> set new) d, out @ new)
          = Some (mark vio (affected d root) d, (out @ new) @ new') \<and>
        set new' = affected d root - (M \<union> set new) \<and> distinct new'"
    proof (rule less.hyps [OF m])
      show "k \<in> M \<union> set new" if "x \<in> M \<union> set new" "x \<notin> set (fr' @ new)" "map_of d k = Some c"
        "astate c \<noteq> VIOLATED" "x \<in> set (depends_on c)" for x k c
        using that less.prems(4) [of x k c] fr(1) new by auto
    qed (use sub less.prems(2,3) aff in auto)
    then obtain new' where p: "propagate pop vio (fr' @ new, mark vio (M \<union> set new) d, out @ new)
          = Some (mark vio (affected d root) d, (out @ new) @ new')"
      and n: "set new' = affected d root - (M \<union> set new)" "distinct new'" by blast
    have "propagate pop vio (fr, mark vio M d, out)
        = propagate pop vio (fr' @ new, mark vio (M \<union> set new) d, out @ new)"
      by (subst propagate.simps) (simp add: False Let_def vs(1) flip: i_def fr'_def)
    with p n vs(2,3) aff show ?thesis by (intro exI [of _ "new @ new'"]) auto
  qed
qed

lemma violate_graph_marks:
  assumes "wf_graph d" and "map_of d i = Some a"
  shows "\<exists>out. violate_graph pop i vio a d = Some (mark vio (affected d i) d, out) \<and>
    hd out = i \<and> set out = affected d i \<and> distinct out"
proof -
  have "wf_dict d" using assms(1) by (simp add: wf_graph_def)
  from update_mark [OF this assms(2), of vio "{}"]
  have m: "AList.update i (violated_copy vio a) d = mark vio {i} d" by simp
  have "\<exists>new. propagate pop vio ([i], mark vio {i} d, [i]) = Some (mark vio (affected d i) d, [i] @ new) \<and>
      set new = affected d i - {i} \<and> distinct new"
    by (rule propagate_marks [OF assms(1)]) (auto intro: affected.root)
  then show ?thesis
    unfolding violate_graph_def m by (auto intro: affected.root)
qed

end
