(* ===== verification/Recovery.thy ===== *)
theory Recovery
  imports Assumptions
begin

section \<open>Recovery: the disk determines the registry\<close>

text \<open>
  The operations of \<open>AssumptionRegistry\<close> write a transition before they change memory. This
  theory proves what that is for: after any history of operations, failed ones included, a
  fresh registry on the same store has the same assumptions. It also states the invariant
  of the registry and what the operations can do to an assumption.
\<close>

subsection \<open>Histories\<close>

datatype reg_op =
    Propose string string "string list"
  | Accept string
  | Discharge string evidence
  | Violate string violation
  | Rotate

fun exec :: "env \<Rightarrow> reg_op \<Rightarrow> registry \<Rightarrow> registry" where
  "exec env (Propose i t deps) reg = snd (propose env i t deps reg)"
| "exec env (Accept i) reg = snd (accept env i reg)"
| "exec env (Discharge i e) reg = snd (discharge env i e reg)"
| "exec env (Violate i v) reg = snd (violate env i v reg)"
| "exec env Rotate reg = snd (rotate env reg)"

text \<open>
  Text that the encoder writes as it is: strings in NFC. Digests of artifacts are not empty.
\<close>

definition stable :: "(string \<Rightarrow> string) \<Rightarrow> pyval \<Rightarrow> bool" where
  "stable nfc v \<longleftrightarrow> canon nfc v = v \<and> float_free v"

definition stable_evidence :: "(string \<Rightarrow> string) \<Rightarrow> evidence \<Rightarrow> bool" where
  "stable_evidence nfc e \<longleftrightarrow> stable nfc (ev_text e) \<and> ev_artifact e \<noteq> Some []"

definition stable_violation :: "(string \<Rightarrow> string) \<Rightarrow> violation \<Rightarrow> bool" where
  "stable_violation nfc v \<longleftrightarrow> stable nfc (vi_text v) \<and> vi_artifact v \<noteq> Some []"

text \<open>The calls the program makes: a fresh identifier for a proposal, text in NFC.\<close>

fun admissible :: "(string \<Rightarrow> string) \<Rightarrow> registry \<Rightarrow> reg_op \<Rightarrow> bool" where
  "admissible nfc reg (Propose i t deps) = (map_of (assumptions reg) i = None \<and> nfc t = t)"
| "admissible nfc reg (Discharge i e) = stable_evidence nfc e"
| "admissible nfc reg (Violate i v) = stable_violation nfc v"
| "admissible nfc reg _ = True"

text \<open>
  The registries a program can reach from an empty store (or without one). Each call has its
  own environment: the lock, the ambient run and the order of \<open>set.pop\<close> vary from call to
  call.
\<close>

inductive reachable :: "(string \<Rightarrow> string) \<Rightarrow> registry \<Rightarrow> bool" for nfc where
  in_memory: "reachable nfc \<lparr>assumptions = [], wal = None\<rparr>"
| on_disk: "reachable nfc \<lparr>assumptions = [], wal = Some empty_store\<rparr>"
| call: "reachable nfc reg \<Longrightarrow> admissible nfc reg op \<Longrightarrow> env_nfc env = nfc \<Longrightarrow>
    reachable nfc (exec env op reg)"

inductive_cases reachableE: "reachable nfc reg"

subsection \<open>The invariant\<close>

text \<open>What an assumption carries in each state.\<close>

fun state_consistent :: "assumption \<Rightarrow> bool" where
  "state_consistent a =
    (case astate a of
       PROPOSED \<Rightarrow> discharged_by a = None \<and> violated_by a = None
     | ACTIVE \<Rightarrow> discharged_by a = None \<and> violated_by a = None
     | DISCHARGED \<Rightarrow> discharged_by a \<noteq> None \<and> violated_by a = None
     | VIOLATED \<Rightarrow> violated_by a \<noteq> None)"

definition stable_assumption :: "(string \<Rightarrow> string) \<Rightarrow> assumption \<Rightarrow> bool" where
  "stable_assumption nfc a \<longleftrightarrow> stable nfc (atext a) \<and>
    (\<forall>e. discharged_by a = Some e \<longrightarrow> stable_evidence nfc e) \<and>
    (\<forall>v. violated_by a = Some v \<longrightarrow> stable_violation nfc v)"

definition good_graph :: "(string \<Rightarrow> string) \<Rightarrow> graph \<Rightarrow> bool" where
  "good_graph nfc d \<longleftrightarrow> wf_graph d \<and> (\<forall>c \<in> set (vals d). state_consistent c \<and> stable_assumption nfc c)"

text \<open>The steps of an assumption's life: what it says never changes, a violation is final.\<close>

fun may_become :: "assumption_state \<Rightarrow> assumption_state \<Rightarrow> bool" where
  "may_become PROPOSED s = True"
| "may_become ACTIVE s = (s \<noteq> PROPOSED)"
| "may_become DISCHARGED s = (s = DISCHARGED \<or> s = VIOLATED)"
| "may_become VIOLATED s = (s = VIOLATED)"

definition evolves :: "assumption \<Rightarrow> assumption \<Rightarrow> bool" where
  "evolves a b \<longleftrightarrow> aid b = aid a \<and> atext b = atext a \<and> adigest b = adigest a \<and>
    depends_on b = depends_on a \<and> may_become (astate a) (astate b)"

lemma may_become_refl [simp]: "may_become s s"
  by (cases s) simp_all

lemma evolves_refl [simp]: "evolves a a"
  by (simp add: evolves_def)

lemma vals_update_subset: "set (vals (AList.update k v d)) \<subseteq> insert v (set (vals d))"
  using set_update_subset [of k v d] by (force simp: vals_def)

lemma wf_graph_update: "wf_graph d \<Longrightarrow> aid a = k \<Longrightarrow> wf_graph (AList.update k a d)"
  using set_update_subset [of k a d] by (auto simp: wf_graph_def)

lemma good_graph_update:
  "good_graph nfc d \<Longrightarrow> aid a = k \<Longrightarrow> state_consistent a \<Longrightarrow> stable_assumption nfc a \<Longrightarrow>
    good_graph nfc (AList.update k a d)"
  using vals_update_subset [of k a d] by (auto simp: good_graph_def wf_graph_update simp del: state_consistent.simps)

lemma good_graph_Nil [simp]: "good_graph nfc []"
  by (simp add: good_graph_def wf_graph_def vals_def)

lemma good_graph_lookup:
  assumes "good_graph nfc d" and "map_of d i = Some a"
  shows "aid a = i" and "state_consistent a" and "stable_assumption nfc a"
proof -
  show "aid a = i" using assms wf_graph_aid by (auto simp: good_graph_def)
  have "a \<in> set (vals d)" using map_of_SomeD [OF assms(2)] by (force simp: vals_def)
  with assms(1) show "state_consistent a" and "stable_assumption nfc a"
    by (simp_all add: good_graph_def del: state_consistent.simps)
qed

lemma good_graph_mark:
  assumes "good_graph nfc d" and "stable_violation nfc v"
  shows "good_graph nfc (mark (Some v) M d)"
proof -
  have "state_consistent c \<and> stable_assumption nfc c" if c: "c \<in> set (vals (mark (Some v) M d))" for c
  proof -
    from c obtain k c0 where "(k, c0) \<in> set d" "c = (if k \<in> M then violated_copy (Some v) c0 else c0)"
      by (auto simp: vals_def mark_def)
    moreover from this assms(1) have "state_consistent c0 \<and> stable_assumption nfc c0"
      by (force simp: good_graph_def vals_def simp del: state_consistent.simps)
    ultimately show ?thesis using assms(2) by (auto simp: violated_copy_def stable_assumption_def)
  qed
  with assms(1) show ?thesis by (simp add: good_graph_def wf_graph_mark)
qed

lemma evolves_mark:
  "map_of d k = Some c \<Longrightarrow> \<exists>c'. map_of (mark vio M d) k = Some c' \<and> evolves c c'"
  by (cases "astate c") (auto simp: map_of_mark evolves_def violated_copy_def)

subsection \<open>Payloads are read back\<close>

definition ascii_keys :: "payload \<Rightarrow> bool" where
  "ascii_keys p \<longleftrightarrow> (\<forall>kv \<in> set p. \<exists>s. fst kv = KStr s \<and> isascii s)"

lemma map_of_canon:
  assumes "wf_dict p" and "ascii_keys p" and "normalises nfc"
  shows "map_of (canon_payload nfc p) (KStr k) = map_option (canon nfc) (map_of p (KStr k))"
proof -
  have nk: "nfc (key_str kk) = key_str kk \<and> kk = KStr (key_str kk)" if "(kk, v) \<in> set p" for kk v
    using assms(2,3) that by (force simp: ascii_keys_def normalises_def)
  have s: "set (canon_payload nfc p) = (\<lambda>(kk, v). (kk, canon nfc v)) ` set p"
    using nk by (force simp: canon_payload_def set_sorted_members image_iff)
  have e1: "map (\<lambda>(kk, v). nfc (key_str kk)) p = map (\<lambda>(kk, v). key_str kk) p"
    and e2: "map fst p = map KStr (map (\<lambda>(kk, v). key_str kk) p)"
    using nk by auto
  from assms(1) have "distinct (map KStr (map (\<lambda>(kk, v). key_str kk) p))"
    unfolding wf_dict_def e2 .
  then have "distinct (map (\<lambda>(kk, v). nfc (key_str kk)) p)"
    unfolding e1 by (simp only: distinct_map)
  then have "distinct (map fst (map (\<lambda>(k, v). (nfc (key_str k), v)) p))"
    by (simp add: case_prod_unfold comp_def)
  from distinct_sorted_members [OF this] have "distinct (map fst (canon_payload nfc p))"
    by (auto simp: canon_payload_def case_prod_unfold comp_def distinct_map inj_on_def)
  then have m: "map_of (canon_payload nfc p) kk = Some w \<longleftrightarrow> (kk, w) \<in> set (canon_payload nfc p)" for kk w
    by simp
  have m0: "map_of p kk = Some w \<longleftrightarrow> (kk, w) \<in> set p" for kk w
    using assms(1) by (simp add: map_of_wf_dict)
  show ?thesis
  proof (cases "map_of p (KStr k)")
    case None
    then have "\<not> (\<exists>w. map_of (canon_payload nfc p) (KStr k) = Some w)"
      unfolding m s by (auto simp flip: m0)
    with None show ?thesis by simp
  next
    case (Some v)
    then have "(KStr k, canon nfc v) \<in> set (canon_payload nfc p)"
      unfolding s m0 by force
    with Some show ?thesis using m by simp
  qed
qed

lemma canon_hex [simp]: "normalises nfc \<Longrightarrow> canon nfc (hex_value b) = hex_value b"
  by (simp add: hex_value_def normalises_def isascii_hex)

lemma unhex_hex [simp]: "unhex (hex_value b) = Inr b"
  by (simp add: unhex_def hex_value_def)

lemma truthy_hex [simp]: "truthy (hex_value b) \<longleftrightarrow> b \<noteq> []"
  by (simp add: hex_value_def)

lemma float_free_hex [simp]: "float_free (hex_value b)"
  by (simp add: hex_value_def)

lemma sequence_unhex [simp]: "sequence (map unhex (map hex_value bs)) = Inr bs"
  by (simp add: sequence_Inr_iff comp_def)

definition text_digest_payload :: "pyval \<Rightarrow> string option \<Rightarrow> payload" where
  "text_digest_payload t d =
    (KStr ''text'', t) # (case d of None \<Rightarrow> [] | Some b \<Rightarrow> [(KStr ''artifact_digest'', hex_value b)])"

lemma text_and_digest_canon:
  assumes "normalises nfc" and "stable nfc t" and "d \<noteq> Some []"
  shows "text_and_digest (canon nfc (PDict (text_digest_payload t d))) = Inr (Some (t, d))"
proof -
  let ?p = "text_digest_payload t d"
  have "wf_dict ?p" "ascii_keys ?p"
    by (auto simp: text_digest_payload_def wf_dict_def ascii_keys_def isascii_def split: option.splits)
  note look = map_of_canon [OF this assms(1)]
  have "item (canon_payload nfc ?p) ''text'' = Inr t"
    using assms(2) by (simp add: item_def look) (simp add: text_digest_payload_def stable_def)
  moreover have "get_value (canon_payload nfc ?p) ''artifact_digest'' = (case d of None \<Rightarrow> PNone | Some b \<Rightarrow> hex_value b)"
    using assms(1) by (simp add: get_value_def get_default_def look) (auto simp: text_digest_payload_def split: option.splits)
  ultimately show ?thesis
    using assms(3) unfolding canon_PDict by (auto simp: text_and_digest_def split: option.splits)
qed

lemma evidence_read_back:
  assumes "normalises nfc" and "stable_evidence nfc e"
  shows "evidence_from_payload (canon nfc (evidence_payload e)) = Inr (Some e)"
proof -
  have "evidence_payload e = PDict (text_digest_payload (ev_text e) (ev_artifact e))"
    by (simp add: evidence_payload_def text_digest_payload_def)
  with text_and_digest_canon [OF assms(1), of "ev_text e" "ev_artifact e"] assms(2) show ?thesis
    by (simp add: evidence_from_payload_def stable_evidence_def del: canon.simps)
qed

lemma violation_read_back:
  assumes "normalises nfc" and "stable_violation nfc v"
  shows "violation_from_payload (canon nfc (violation_payload v)) = Inr (Some v)"
proof -
  have "violation_payload v = PDict (text_digest_payload (vi_text v) (vi_artifact v))"
    by (simp add: violation_payload_def text_digest_payload_def)
  with text_and_digest_canon [OF assms(1), of "vi_text v" "vi_artifact v"] assms(2) show ?thesis
    by (simp add: violation_from_payload_def stable_violation_def del: canon.simps)
qed

lemma state_of_value_value [simp]: "state_of_value (PStr (state_value s)) = Some s"
  by (cases s) (simp_all add: state_of_value_def)

lemma isascii_state_value: "isascii (state_value s)"
  by (cases s) (simp_all add: isascii_def)

subsection \<open>Entries are applied as the operations act\<close>

text \<open>The entry the log gets from \<open>_persist\<close>.\<close>

definition logged :: "env \<Rightarrow> string \<Rightarrow> payload \<Rightarrow> wal_entry" where
  "logged env k p = entry_of (env_nfc env) (with_kind k (stamp_run_id (env_run_id env) p))"

lemma wf_stamp: "wf_dict p \<Longrightarrow> wf_dict (stamp_run_id r p)"
  by (auto simp: stamp_run_id_def split: option.splits)

lemma log_payload_update: "log_payload p \<Longrightarrow> log_payload (AList.update k (PStr v) p)"
  using set_update_subset [of k "PStr v" p] by (auto simp: log_payload_def)

lemma log_payload_stamp: "log_payload p \<Longrightarrow> log_payload (stamp_run_id r p)"
  by (auto simp: stamp_run_id_def log_payload_update split: option.splits)

lemma ascii_keys_update: "ascii_keys p \<Longrightarrow> isascii s \<Longrightarrow> ascii_keys (AList.update (KStr s) v p)"
  using set_update_subset [of "KStr s" v p] by (auto simp: ascii_keys_def)

lemma ascii_keys_logged: "ascii_keys p \<Longrightarrow> ascii_keys (with_kind k (stamp_run_id r p))"
  unfolding with_kind_def stamp_run_id_def
  by (auto intro!: ascii_keys_update simp: isascii_def split: option.splits)

lemma map_of_stamp: "x \<noteq> ''run_id'' \<Longrightarrow> map_of (stamp_run_id r p) (KStr x) = map_of p (KStr x)"
  by (auto simp: stamp_run_id_def dict_simps split: option.splits)

lemma logged_lookup:
  assumes "wf_dict p" and "ascii_keys p" and "normalises (env_nfc env)" and "x \<noteq> ''run_id''" "x \<noteq> ''kind''"
  shows "map_of (payload (logged env k p)) (KStr x) = map_option (canon (env_nfc env)) (map_of p (KStr x))"
proof -
  let ?q = "with_kind k (stamp_run_id (env_run_id env) p)"
  have "wf_dict ?q" using assms(1) by (auto simp: with_kind_def intro: wf_stamp)
  from map_of_canon [OF this ascii_keys_logged [OF assms(2)] assms(3), of x] assms(4,5)
  show ?thesis by (simp add: logged_def entry_of_def with_kind_def dict_simps map_of_stamp)
qed

lemma kind_logged [simp]: "kind (logged env k p) = k"
  by (simp add: logged_def entry_of_def with_kind_def dict_simps)

text \<open>The payload of a transition: the identifier, the digest and one body member.\<close>

definition transition_payload :: "string \<Rightarrow> string \<Rightarrow> (pykey \<times> pyval) list \<Rightarrow> payload" where
  "transition_payload i dg body =
    (KStr ''assumption_id'', hex_value i) # (KStr ''digest'', hex_value dg) # body"

definition plain_payload :: "payload \<Rightarrow> bool" where
  "plain_payload p \<longleftrightarrow> wf_dict p \<and> ascii_keys p"

lemma plain_payload_code:
  "plain_payload p \<longleftrightarrow> distinct (map fst p) \<and> (\<forall>kv \<in> set p. \<exists>s. fst kv = KStr s \<and> isascii s)"
  by (simp add: plain_payload_def wf_dict_def ascii_keys_def)

lemma item_logged:
  assumes "plain_payload p" and "normalises (env_nfc env)" and "map_of p (KStr x) = Some v"
    and "x \<noteq> ''run_id''" "x \<noteq> ''kind''"
  shows "item (payload (logged env k p)) x = Inr (canon (env_nfc env) v)"
    and "get_value (payload (logged env k p)) x = canon (env_nfc env) v"
  using assms by (simp_all add: item_def get_value_def get_default_def logged_lookup plain_payload_def)

lemma item_transition:
  assumes "plain_payload (transition_payload i dg body)" and "normalises (env_nfc env)"
  shows "item (payload (logged env k (transition_payload i dg body))) ''assumption_id'' = Inr (hex_value i)"
    and "item (payload (logged env k (transition_payload i dg body))) ''digest'' = Inr (hex_value dg)"
  using item_logged(1) [OF assms, of "''assumption_id''" "hex_value i" k]
    item_logged(1) [OF assms, of "''digest''" "hex_value dg" k] assms(2)
  by (simp_all add: transition_payload_def)

lemma apply_accepted:
  assumes "normalises (env_nfc env)" and "map_of d i = Some a"
  shows "apply_wal_entry pop d (logged env ''accepted'' (transition_payload i dg []))
    = Inr (AList.update i (a\<lparr>astate := ACTIVE\<rparr>) d)"
proof -
  have "plain_payload (transition_payload i dg [])"
    by (simp add: transition_payload_def plain_payload_code isascii_def)
  from item_transition [OF this assms(1)] assms(2) show ?thesis
    by (simp add: apply_wal_entry_def Let_def)
qed

lemma apply_discharged:
  assumes "normalises (env_nfc env)" and "map_of d i = Some a" and "stable_evidence (env_nfc env) e"
  shows "apply_wal_entry pop d (logged env ''discharged'' (transition_payload i dg [(KStr ''evidence'', evidence_payload e)]))
    = Inr (AList.update i (a\<lparr>astate := DISCHARGED, discharged_by := Some e\<rparr>) d)"
proof -
  let ?p = "transition_payload i dg [(KStr ''evidence'', evidence_payload e)]"
  have p: "plain_payload ?p" by (simp add: transition_payload_def plain_payload_code isascii_def)
  have "get_value (payload (logged env ''discharged'' ?p)) ''evidence'' = canon (env_nfc env) (evidence_payload e)"
    by (rule item_logged(2) [OF p assms(1)]) (simp_all add: transition_payload_def)
  with item_transition [OF p assms(1)] assms(2) evidence_read_back [OF assms(1,3)] show ?thesis
    by (simp add: apply_wal_entry_def Let_def)
qed

lemma apply_violated:
  assumes "normalises (env_nfc env)" and "map_of d i = Some a" and "stable_violation (env_nfc env) v"
    and "wf_graph d"
  shows "apply_wal_entry pop d (logged env ''violated'' (transition_payload i dg [(KStr ''violation'', violation_payload v)]))
    = Inr (mark (Some v) (affected d i) d)"
proof -
  let ?p = "transition_payload i dg [(KStr ''violation'', violation_payload v)]"
  have p: "plain_payload ?p" by (simp add: transition_payload_def plain_payload_code isascii_def)
  have "get_value (payload (logged env ''violated'' ?p)) ''violation'' = canon (env_nfc env) (violation_payload v)"
    by (rule item_logged(2) [OF p assms(1)]) (simp_all add: transition_payload_def)
  moreover obtain out where "violate_graph pop i (Some v) a d = Some (mark (Some v) (affected d i) d, out)"
    using violate_graph_marks [OF assms(4,2)] by blast
  ultimately show ?thesis
    using item_transition [OF p assms(1)] assms(2) violation_read_back [OF assms(1,3)]
    by (simp add: apply_wal_entry_def Let_def)
qed

definition proposal :: "string \<Rightarrow> string \<Rightarrow> string \<Rightarrow> string list \<Rightarrow> assumption" where
  "proposal i t dg deps = \<lparr>aid = i, atext = PStr t, adigest = dg, astate = PROPOSED,
     depends_on = deps, discharged_by = None, violated_by = None\<rparr>"

lemma canon_hex_list: "normalises nfc \<Longrightarrow> canon nfc (PList (map hex_value bs)) = PList (map hex_value bs)"
  by simp

lemma apply_proposed:
  assumes "normalises (env_nfc env)" and "map_of d i = None" and "env_nfc env t = t"
  shows "apply_wal_entry pop d (logged env ''proposed'' (transition_payload i dg
      [(KStr ''text'', PStr t), (KStr ''depends_on'', PList (map hex_value deps))]))
    = Inr (AList.update i (proposal i t dg deps) d)"
proof -
  let ?p = "transition_payload i dg [(KStr ''text'', PStr t), (KStr ''depends_on'', PList (map hex_value deps))]"
  have p: "plain_payload ?p" by (simp add: transition_payload_def plain_payload_code isascii_def)
  have "map_of (payload (logged env ''proposed'' ?p)) (KStr ''depends_on'')
      = map_option (canon (env_nfc env)) (map_of ?p (KStr ''depends_on''))"
    using p assms(1) by (intro logged_lookup) (simp_all add: plain_payload_def)
  also have "\<dots> = Some (PList (map hex_value deps))"
    using canon_hex_list [OF assms(1), of deps] by (simp add: transition_payload_def del: canon.simps)
  finally have "depends_from_payload (payload (logged env ''proposed'' ?p)) = Inr deps"
    by (simp add: depends_from_payload_def del: map_map)
  moreover have "item (payload (logged env ''proposed'' ?p)) ''text'' = Inr (canon (env_nfc env) (PStr t))"
    by (rule item_logged(1) [OF p assms(1)]) (simp_all add: transition_payload_def)
  ultimately show ?thesis
    using item_transition [OF p assms(1)] assms(2,3)
    by (simp add: apply_wal_entry_def Let_def proposal_def)
qed

subsection \<open>Snapshots are hydrated as they were\<close>

lemma snapshot_entry_lookup:
  "map_of (snapshot_entry a) (KStr ''assumption_id'') = Some (hex_value (aid a))"
  "map_of (snapshot_entry a) (KStr ''digest'') = Some (hex_value (adigest a))"
  "map_of (snapshot_entry a) (KStr ''text'') = Some (atext a)"
  "map_of (snapshot_entry a) (KStr ''state'') = Some (PStr (state_value (astate a)))"
  "map_of (snapshot_entry a) (KStr ''depends_on'') = Some (PList (map hex_value (depends_on a)))"
  "map_of (snapshot_entry a) (KStr ''discharged_by'') = map_option evidence_payload (discharged_by a)"
  "map_of (snapshot_entry a) (KStr ''violated_by'') = map_option violation_payload (violated_by a)"
  "map_of (snapshot_entry a) (KStr ''kind'') = Some (PStr ''proposed'')"
  by (simp_all add: snapshot_entry_def map_add_def split: option.splits)

lemma plain_snapshot_entry: "plain_payload (snapshot_entry a)"
  by (auto simp: snapshot_entry_def plain_payload_code isascii_def split: option.splits)

lemma float_free_payloads:
  "stable_evidence nfc e \<Longrightarrow> float_free (evidence_payload e)"
  "stable_violation nfc v \<Longrightarrow> float_free (violation_payload v)"
  by (auto simp: evidence_payload_def violation_payload_def stable_evidence_def stable_violation_def stable_def
      split: option.splits)

lemma log_snapshot_entry: "stable_assumption nfc a \<Longrightarrow> log_payload (snapshot_entry a)"
  using plain_snapshot_entry [of a]
  by (auto simp: log_payload_def plain_payload_def snapshot_entry_def stable_assumption_def stable_def
      float_free_payloads split: option.splits)

lemma snapshot_payload_entry: "snapshot_payload (snapshot_entry a) = with_kind ''proposed'' (snapshot_entry a)"
  by (simp add: snapshot_payload_def with_kind_def snapshot_entry_lookup)

lemma loggable_snapshot_entry: "stable_assumption nfc a \<Longrightarrow> loggable (snapshot_payload (snapshot_entry a))"
  by (simp add: snapshot_payload_entry loggable_with_kind log_snapshot_entry TRANSITIONS_def)

lemma hydrated_lookup:
  assumes "normalises nfc"
  shows "map_of (payload (entry_of nfc (snapshot_payload (snapshot_entry a)))) (KStr x)
    = map_option (canon nfc) (map_of (snapshot_entry a) (KStr x))"
proof -
  have p: "wf_dict (snapshot_entry a)" "ascii_keys (snapshot_entry a)"
    using plain_snapshot_entry [of a] by (simp_all add: plain_payload_def)
  have "wf_dict (snapshot_payload (snapshot_entry a))" "ascii_keys (snapshot_payload (snapshot_entry a))"
    unfolding snapshot_payload_entry with_kind_def
    using wf_dict_update [OF p(1)] ascii_keys_update [OF p(2)] by simp_all
  from map_of_canon [OF this assms, of x] show ?thesis
    by (simp add: entry_of_def) (simp add: snapshot_payload_entry with_kind_def dict_simps snapshot_entry_lookup)
qed

lemma hydrate_snapshot:
  assumes n: "normalises nfc" and a: "stable_assumption nfc a"
  shows "hydrate_snapshot_entry d (entry_of nfc (snapshot_payload (snapshot_entry a)))
    = Inr (AList.update (aid a) a d)"
proof -
  let ?p = "payload (entry_of nfc (snapshot_payload (snapshot_entry a)))"
  note look = hydrated_lookup [OF n, of a] snapshot_entry_lookup
  have items: "item ?p ''assumption_id'' = Inr (hex_value (aid a))" "item ?p ''digest'' = Inr (hex_value (adigest a))"
    "item ?p ''text'' = Inr (atext a)" "item ?p ''state'' = Inr (PStr (state_value (astate a)))"
    using n a isascii_state_value [of "astate a"]
    by (simp_all add: item_def look stable_assumption_def stable_def normalises_def)
  have deps: "depends_from_payload ?p = Inr (depends_on a)"
    using canon_hex_list [OF n, of "depends_on a"]
    by (simp add: depends_from_payload_def look del: canon.simps map_map)
  have ev: "evidence_from_payload (get_value ?p ''discharged_by'') = Inr (discharged_by a)"
    using a evidence_read_back [OF n]
    by (cases "discharged_by a")
      (simp_all add: get_value_def get_default_def look stable_assumption_def evidence_from_payload_def [of PNone] text_and_digest_def)
  have vi: "violation_from_payload (get_value ?p ''violated_by'') = Inr (violated_by a)"
    using a violation_read_back [OF n]
    by (cases "violated_by a")
      (simp_all add: get_value_def get_default_def look stable_assumption_def violation_from_payload_def [of PNone] text_and_digest_def)
  have a': "\<lparr>aid = aid a, atext = atext a, adigest = adigest a, astate = astate a, depends_on = depends_on a,
      discharged_by = discharged_by a, violated_by = violated_by a\<rparr> = a"
    by (rule assumption.equality) simp_all
  show ?thesis
    by (simp add: hydrate_snapshot_entry_def Let_def items deps ev vi) (simp only: a')
qed

lemma hydrate_all:
  assumes "normalises nfc" and "wf_graph d" and "\<forall>c \<in> set (vals d). stable_assumption nfc c"
  shows "rfold hydrate_snapshot_entry [] (map (\<lambda>a. entry_of nfc (snapshot_payload (snapshot_entry a))) (vals d)) = Inr d"
  using assms(2,3)
proof (induction d rule: rev_induct)
  case (snoc kc d)
  obtain k c where kc: "kc = (k, c)" by (cases kc)
  from snoc.prems have k: "aid c = k" "k \<notin> fst ` set d" "wf_graph d"
    by (auto simp: kc wf_graph_def wf_dict_def)
  then have "AList.update k c d = d @ [(k, c)]"
    by (intro update_fresh) (simp add: map_of_eq_None_iff)
  moreover have "stable_assumption nfc c" using snoc.prems(2) by (simp add: vals_def kc)
  ultimately show ?case
    using snoc.IH [OF k(3)] snoc.prems(2) hydrate_snapshot [OF assms(1)] k(1)
    by (simp add: vals_def kc rfold_append)
qed (simp add: vals_def)

subsection \<open>Memory and disk agree\<close>

definition synced :: "(string \<Rightarrow> pyfloat) \<Rightarrow> registry \<Rightarrow> bool" where
  "synced fl reg \<longleftrightarrow>
    (\<forall>st. wal reg = Some st \<longrightarrow>
      (\<exists>ss ws. store_holds fl st ss ws \<and> (\<forall>pop. replay pop ss ws = Inr (assumptions reg))))"

lemma synced_reload: "synced fl reg \<Longrightarrow> wal reg = Some st \<Longrightarrow> reload_from_disk fl pop st = Inr (assumptions reg)"
  by (auto simp: synced_def reload_from_disk_def dest: load_all_holds)

lemma append_error_holds:
  assumes "append nfc try_lock k p st = (Inl e, st')" and "store_holds fl st ss ws"
  shows "store_holds fl st' ss ws"
proof -
  have "st' = st \<or> (\<exists>f. open_append (wal_file st) = Inr f \<and> st' = st\<lparr>wal_file := f\<rparr>)"
  proof (cases "canonical_line nfc (with_kind k p)")
    case (Inr line)
    with assms(1) show ?thesis
      by (cases "open_append (wal_file st)") (auto simp: append_def split: if_splits)
  qed (use assms(1) in \<open>auto simp: append_def split: if_splits\<close>)
  with assms(2) show ?thesis by (auto simp: store_holds_def intro: open_append_file_holds)
qed

lemma persist_error:
  assumes "persist env k p reg = (Inl e, reg')"
  shows "assumptions reg' = assumptions reg" and "synced fl reg \<Longrightarrow> synced fl reg'"
proof -
  obtain st where st: "wal reg = Some st" using assms by (cases "wal reg") (auto simp: persist_def)
  show "assumptions reg' = assumptions reg"
    using assms st by (auto simp: persist_def split: if_splits sum.splits prod.splits)
  show "synced fl reg'" if "synced fl reg"
  proof (cases "k \<in> set TRANSITIONS")
    case True
    obtain r st' where a: "append (env_nfc env) (env_try_lock env) k (stamp_run_id (env_run_id env) p) st = (r, st')"
      by (cases "append (env_nfc env) (env_try_lock env) k (stamp_run_id (env_run_id env) p) st")
    with assms st True obtain e' where r: "r = Inl e'" "reg' = reg\<lparr>wal := Some st'\<rparr>"
      by (auto simp: persist_def split: sum.splits)
    from that st obtain ss ws where h: "store_holds fl st ss ws"
      and q: "\<forall>pop. replay pop ss ws = Inr (assumptions reg)" by (auto simp: synced_def)
    have "store_holds fl st' ss ws" by (rule append_error_holds [OF a [unfolded r(1)] h])
    with q show ?thesis unfolding synced_def r(2) by auto
  qed (use assms st that in \<open>auto simp: persist_def\<close>)
qed

lemma persist_ok:
  assumes "persist env k p reg = (Inr u, reg')"
  shows "assumptions reg' = assumptions reg"
    and "synced fl reg \<Longrightarrow> log_payload p \<Longrightarrow> normalises (env_nfc env) \<Longrightarrow>
      (\<And>pop. apply_wal_entry pop (assumptions reg) (logged env k p) = Inr d') \<Longrightarrow>
      synced fl (reg'\<lparr>assumptions := d'\<rparr>)"
proof -
  show "assumptions reg' = assumptions reg"
    using assms by (auto simp: persist_def split: if_splits sum.splits prod.splits option.splits)
  assume sy: "synced fl reg" and lp: "log_payload p" and n: "normalises (env_nfc env)"
    and ap: "\<And>pop. apply_wal_entry pop (assumptions reg) (logged env k p) = Inr d'"
  show "synced fl (reg'\<lparr>assumptions := d'\<rparr>)"
  proof (cases "wal reg")
    case None
    with assms show ?thesis by (auto simp: persist_def synced_def)
  next
    case (Some st)
    with assms obtain st' where a: "append (env_nfc env) (env_try_lock env) k (stamp_run_id (env_run_id env) p) st = (Inr (), st')"
      and w: "wal reg' = Some st'"
      by (auto simp: persist_def split: if_splits sum.splits prod.splits)
    from sy Some obtain ss ws where h: "store_holds fl st ss ws"
      and r: "\<And>pop. replay pop ss ws = Inr (assumptions reg)" by (auto simp: synced_def)
    have h': "store_holds fl st' ss (ws @ [logged env k p])"
      unfolding logged_def by (rule append_holds [OF a h log_payload_stamp [OF lp] n])
    have "replay pop ss (ws @ [logged env k p]) = Inr d'" for pop
    proof -
      from r [of pop] obtain d where "rfold hydrate_snapshot_entry [] ss = Inr d"
        "rfold (apply_wal_entry pop) d ws = Inr (assumptions reg)"
        by (auto simp: replay_def result_simps)
      then show ?thesis by (simp add: replay_def rfold_append ap)
    qed
    with h' w show ?thesis by (auto simp: synced_def)
  qed
qed

text \<open>The invariant an operation keeps.\<close>

definition consistent :: "(string \<Rightarrow> pyfloat) \<Rightarrow> (string \<Rightarrow> string) \<Rightarrow> registry \<Rightarrow> bool" where
  "consistent fl nfc reg \<longleftrightarrow> good_graph nfc (assumptions reg) \<and> synced fl reg"

text \<open>Existing assumptions only move forward in their life.\<close>

definition extends_graph :: "graph \<Rightarrow> graph \<Rightarrow> bool" where
  "extends_graph d d' \<longleftrightarrow> (\<forall>k a. map_of d k = Some a \<longrightarrow> (\<exists>b. map_of d' k = Some b \<and> evolves a b))"

lemma extends_refl [simp]: "extends_graph d d"
  by (simp add: extends_graph_def)

lemma extends_update_fresh: "map_of d k = None \<Longrightarrow> extends_graph d (AList.update k a d)"
  by (auto simp: extends_graph_def dict_simps)

lemma extends_update: "map_of d k = Some a \<Longrightarrow> evolves a b \<Longrightarrow> extends_graph d (AList.update k b d)"
  by (auto simp: extends_graph_def dict_simps)

lemma extends_mark: "extends_graph d (mark vio M d)"
  by (auto simp: extends_graph_def intro: evolves_mark)

text \<open>One persisted transition: what \<open>persist\<close> and the change of memory give together.\<close>

lemma transition_keeps:
  assumes p: "persist env k p reg = (r, reg')" and c: "consistent fl (env_nfc env) reg"
    and n: "normalises (env_nfc env)" and lp: "log_payload p"
    and ap: "\<And>pop. apply_wal_entry pop (assumptions reg) (logged env k p) = Inr d'"
    and g: "good_graph (env_nfc env) d'" and e: "extends_graph (assumptions reg) d'"
  shows "is_ok r \<Longrightarrow> consistent fl (env_nfc env) (reg'\<lparr>assumptions := d'\<rparr>)"
    and "is_ok r \<Longrightarrow> extends_graph (assumptions reg) (assumptions (reg'\<lparr>assumptions := d'\<rparr>))"
    and "\<not> is_ok r \<Longrightarrow> consistent fl (env_nfc env) reg' \<and> assumptions reg' = assumptions reg"
proof -
  show "consistent fl (env_nfc env) (reg'\<lparr>assumptions := d'\<rparr>)" if "is_ok r"
    using persist_ok(2) [of env k p reg _ reg' fl d'] p c n lp ap g that
    by (cases r) (auto simp: consistent_def)
  show "extends_graph (assumptions reg) (assumptions (reg'\<lparr>assumptions := d'\<rparr>))" if "is_ok r"
    using e by simp
  show "consistent fl (env_nfc env) reg' \<and> assumptions reg' = assumptions reg" if "\<not> is_ok r"
    using persist_error [of env k p reg _ reg'] p c that by (cases r) (auto simp: consistent_def)
qed

lemma log_transition:
  "plain_payload (transition_payload i dg body) \<Longrightarrow> \<forall>kv \<in> set body. float_free (snd kv) \<Longrightarrow>
    log_payload (transition_payload i dg body)"
  by (auto simp: log_payload_def plain_payload_def transition_payload_def)

definition keeps :: "(string \<Rightarrow> pyfloat) \<Rightarrow> env \<Rightarrow> registry \<Rightarrow> registry \<Rightarrow> bool" where
  "keeps fl env reg reg' \<longleftrightarrow> consistent fl (env_nfc env) reg' \<and> extends_graph (assumptions reg) (assumptions reg')"

lemma propose_keeps:
  assumes c: "consistent fl (env_nfc env) reg" and n: "normalises (env_nfc env)"
    and i: "map_of (assumptions reg) i = None" and t: "env_nfc env t = t"
  shows "keeps fl env reg (snd (propose env i t deps reg))"
proof (cases "new_assumption (env_sha256 env) i t deps")
  case (Inl e)
  with c show ?thesis by (simp add: propose_def keeps_def)
next
  case (Inr a)
  then have a: "a = proposal i t (adigest a) deps"
    by (auto simp: new_assumption_def proposal_def split: if_splits)
  let ?body = "[(KStr ''text'', PStr t), (KStr ''depends_on'', PList (map hex_value deps))]"
  let ?p = "transition_payload i (adigest a) ?body"
  obtain r reg' where p: "persist env ''proposed'' ?p reg = (r, reg')"
    by (cases "persist env ''proposed'' ?p reg")
  have pp: "plain_payload ?p" by (simp add: transition_payload_def plain_payload_code isascii_def)
  have lp: "log_payload ?p" by (rule log_transition [OF pp]) simp
  have ap: "apply_wal_entry pop (assumptions reg) (logged env ''proposed'' ?p) = Inr (AList.update i a (assumptions reg))" for pop
    using apply_proposed [OF n i t, of pop "adigest a" deps] a by simp
  have "state_consistent a" "stable_assumption (env_nfc env) a" "aid a = i"
    by (subst a, simp add: proposal_def stable_assumption_def stable_def t)+
  then have g: "good_graph (env_nfc env) (AList.update i a (assumptions reg))"
    using c by (intro good_graph_update) (simp_all add: consistent_def)
  have st: "set_assumption i a reg' = reg'\<lparr>assumptions := AList.update i a (assumptions reg)\<rparr>" if "is_ok r"
    using persist_ok(1) [of env "''proposed''" ?p reg _ reg'] p that
    by (cases r) (simp_all add: set_assumption_def)
  have "snd (propose env i t deps reg) = (if is_ok r then set_assumption i a reg' else reg')"
    using p by (cases r) (simp_all add: propose_def Inr transition_payload_def)
  with transition_keeps [OF p c n lp ap g extends_update_fresh [OF i]] st show ?thesis
    by (auto simp: keeps_def)
qed

lemma get_or_raise_Inr: "get_or_raise reg i = Inr a \<longleftrightarrow> map_of (assumptions reg) i = Some a"
  by (simp add: get_or_raise_def get_def split: option.splits)

text \<open>The common part of \<open>accept\<close> and \<open>discharge\<close>: one assumption is replaced.\<close>

lemma update_keeps:
  assumes c: "consistent fl (env_nfc env) reg" and n: "normalises (env_nfc env)"
    and a: "map_of (assumptions reg) i = Some a" and b: "evolves a b" "state_consistent b" "stable_assumption (env_nfc env) b"
    and p: "persist env k (transition_payload i (adigest a) body) reg = (r, reg')"
    and pp: "plain_payload (transition_payload i (adigest a) body)" "\<forall>kv \<in> set body. float_free (snd kv)"
    and ap: "\<And>pop. apply_wal_entry pop (assumptions reg) (logged env k (transition_payload i (adigest a) body))
      = Inr (AList.update i b (assumptions reg))"
  shows "keeps fl env reg (if is_ok r then set_assumption i b reg' else reg')"
proof -
  let ?p = "transition_payload i (adigest a) body"
  have gg: "good_graph (env_nfc env) (assumptions reg)" using c by (simp add: consistent_def)
  have "aid b = i" using good_graph_lookup(1) [OF gg a] b(1) by (simp add: evolves_def)
  then have g: "good_graph (env_nfc env) (AList.update i b (assumptions reg))"
    using gg b(2,3) by (intro good_graph_update)
  have st: "set_assumption i b reg' = reg'\<lparr>assumptions := AList.update i b (assumptions reg)\<rparr>" if "is_ok r"
    using persist_ok(1) [of env k ?p reg _ reg'] p that by (cases r) (simp_all add: set_assumption_def)
  from transition_keeps [OF p c n log_transition [OF pp] ap g extends_update [OF a b(1)]] st show ?thesis
    by (auto simp: keeps_def)
qed

lemma accept_keeps:
  assumes c: "consistent fl (env_nfc env) reg" and n: "normalises (env_nfc env)"
  shows "keeps fl env reg (snd (accept env i reg))"
proof (cases "\<exists>a. map_of (assumptions reg) i = Some a \<and> astate a = PROPOSED")
  case True
  then obtain a where a: "map_of (assumptions reg) i = Some a" "astate a = PROPOSED" by blast
  let ?p = "transition_payload i (adigest a) []"
  let ?b = "a\<lparr>astate := ACTIVE, discharged_by := None, violated_by := None\<rparr>"
  obtain r reg' where p: "persist env ''accepted'' ?p reg = (r, reg')" by (cases "persist env ''accepted'' ?p reg")
  have gg: "good_graph (env_nfc env) (assumptions reg)" using c by (simp add: consistent_def)
  note sc = good_graph_lookup [OF gg a(1)]
  then have ab: "a\<lparr>astate := ACTIVE\<rparr> = ?b" using a(2) by (intro assumption.equality) simp_all
  have "keeps fl env reg (if is_ok r then set_assumption i ?b reg' else reg')"
  proof (rule update_keeps [OF c n a(1) _ _ _ p])
    show "evolves a ?b" using a(2) by (simp add: evolves_def)
    show "stable_assumption (env_nfc env) ?b" using sc(3) by (simp add: stable_assumption_def)
    show "plain_payload ?p" by (simp add: transition_payload_def plain_payload_code isascii_def)
    show "apply_wal_entry pop (assumptions reg) (logged env ''accepted'' ?p) = Inr (AList.update i ?b (assumptions reg))" for pop
      using apply_accepted [OF n a(1)] ab by simp
  qed simp_all
  moreover have "snd (accept env i reg) = (if is_ok r then set_assumption i ?b reg' else reg')"
    using p a get_or_raise_Inr [of reg i a]
    by (cases r) (simp_all add: accept_def transition_payload_def Let_def)
  ultimately show ?thesis by simp
next
  case False
  with c show ?thesis
    by (cases "get_or_raise reg i") (auto simp: accept_def keeps_def dest: get_or_raise_Inr [THEN iffD1])
qed

lemma discharge_keeps:
  assumes c: "consistent fl (env_nfc env) reg" and n: "normalises (env_nfc env)"
    and e: "stable_evidence (env_nfc env) e"
  shows "keeps fl env reg (snd (discharge env i e reg))"
proof (cases "\<exists>a. map_of (assumptions reg) i = Some a \<and> (astate a = ACTIVE \<or> astate a = PROPOSED)")
  case True
  then obtain a where a: "map_of (assumptions reg) i = Some a" "astate a = ACTIVE \<or> astate a = PROPOSED" by blast
  let ?body = "[(KStr ''evidence'', evidence_payload e)]"
  let ?p = "transition_payload i (adigest a) ?body"
  let ?b = "a\<lparr>astate := DISCHARGED, discharged_by := Some e, violated_by := None\<rparr>"
  obtain r reg' where p: "persist env ''discharged'' ?p reg = (r, reg')" by (cases "persist env ''discharged'' ?p reg")
  have gg: "good_graph (env_nfc env) (assumptions reg)" using c by (simp add: consistent_def)
  note sc = good_graph_lookup [OF gg a(1)]
  then have ab: "a\<lparr>astate := DISCHARGED, discharged_by := Some e\<rparr> = ?b"
    using a(2) by (intro assumption.equality) auto
  have "keeps fl env reg (if is_ok r then set_assumption i ?b reg' else reg')"
  proof (rule update_keeps [OF c n a(1) _ _ _ p])
    show "evolves a ?b" using a(2) by (auto simp: evolves_def)
    show "stable_assumption (env_nfc env) ?b" using sc(3) e by (simp add: stable_assumption_def)
    show "plain_payload ?p" by (simp add: transition_payload_def plain_payload_code isascii_def)
    show "\<forall>kv \<in> set ?body. float_free (snd kv)" using float_free_payloads(1) [OF e] by simp
    show "apply_wal_entry pop (assumptions reg) (logged env ''discharged'' ?p) = Inr (AList.update i ?b (assumptions reg))" for pop
      using apply_discharged [OF n a(1) e] ab by simp
  qed simp_all
  moreover have "snd (discharge env i e reg) = (if is_ok r then set_assumption i ?b reg' else reg')"
    using p a get_or_raise_Inr [of reg i a]
    by (cases r) (auto simp: discharge_def transition_payload_def Let_def)
  ultimately show ?thesis by simp
next
  case False
  with c show ?thesis
    by (cases "get_or_raise reg i") (auto simp: discharge_def keeps_def dest: get_or_raise_Inr [THEN iffD1])
qed

text \<open>What \<open>violate\<close> does, whatever order the frontier is popped in.\<close>

lemma violate_result:
  assumes "wf_graph (assumptions reg)" and "map_of (assumptions reg) i = Some a" and "astate a \<noteq> VIOLATED"
    and "persist env ''violated'' (transition_payload i (adigest a) [(KStr ''violation'', violation_payload v)]) reg = (Inr u, reg')"
  shows "\<exists>out. violate env i v reg =
      (Inr out, reg'\<lparr>assumptions := mark (Some v) (affected (assumptions reg) i) (assumptions reg)\<rparr>) \<and>
    hd out = i \<and> set out = affected (assumptions reg) i \<and> distinct out"
proof -
  have reg': "assumptions reg' = assumptions reg" by (rule persist_ok(1) [OF assms(4)])
  obtain out where "violate_graph (env_pop env) i (Some v) a (assumptions reg)
      = Some (mark (Some v) (affected (assumptions reg) i) (assumptions reg), out)"
    "hd out = i" "set out = affected (assumptions reg) i" "distinct out"
    using violate_graph_marks [OF assms(1,2)] by blast
  with assms(3,4) get_or_raise_Inr [of reg i a] assms(2) reg' show ?thesis
    by (intro exI [of _ out]) (simp add: violate_def transition_payload_def)
qed

lemma violate_keeps:
  assumes c: "consistent fl (env_nfc env) reg" and n: "normalises (env_nfc env)"
    and v: "stable_violation (env_nfc env) v"
  shows "keeps fl env reg (snd (violate env i v reg))"
proof (cases "\<exists>a. map_of (assumptions reg) i = Some a \<and> astate a \<noteq> VIOLATED")
  case True
  then obtain a where a: "map_of (assumptions reg) i = Some a" "astate a \<noteq> VIOLATED" by blast
  let ?body = "[(KStr ''violation'', violation_payload v)]"
  let ?p = "transition_payload i (adigest a) ?body"
  let ?d = "mark (Some v) (affected (assumptions reg) i) (assumptions reg)"
  obtain r reg' where p: "persist env ''violated'' ?p reg = (r, reg')" by (cases "persist env ''violated'' ?p reg")
  have gg: "good_graph (env_nfc env) (assumptions reg)" using c by (simp add: consistent_def)
  then have wf: "wf_graph (assumptions reg)" by (simp add: good_graph_def)
  have "plain_payload ?p" by (simp add: transition_payload_def plain_payload_code isascii_def)
  then have lp: "log_payload ?p" using float_free_payloads(2) [OF v] by (intro log_transition) simp_all
  note keep = transition_keeps [OF p c n lp apply_violated [OF n a(1) v wf] good_graph_mark [OF gg v] extends_mark]
  show ?thesis
  proof (cases r)
    case (Inl e)
    then have "snd (violate env i v reg) = reg'"
      using p a get_or_raise_Inr [of reg i a] by (simp add: violate_def transition_payload_def)
    with keep(3) Inl show ?thesis by (simp add: keeps_def)
  next
    case (Inr u)
    with violate_result [OF wf a, of env v u reg'] p keep(1,2) show ?thesis by (auto simp: keeps_def)
  qed
next
  case False
  with c show ?thesis
    by (cases "get_or_raise reg i") (auto simp: violate_def keeps_def dest: get_or_raise_Inr [THEN iffD1])
qed

lemma rotate_keeps:
  assumes c: "consistent fl (env_nfc env) reg" and n: "normalises (env_nfc env)"
  shows "keeps fl env reg (snd (rotate env reg))"
proof (cases "wal reg")
  case None
  with c show ?thesis by (simp add: rotate_def keeps_def)
next
  case (Some st)
  let ?d = "assumptions reg" and ?nfc = "env_nfc env"
  let ?es = "map snapshot_entry (vals ?d)"
  obtain r sts where rs: "rotate_states ?nfc (env_try_lock env) ?es st = (r, sts)"
    by (cases "rotate_states ?nfc (env_try_lock env) ?es st")
  have reg': "snd (rotate env reg) = reg\<lparr>wal := Some (last sts)\<rparr>"
    using rs Some by (cases r) (simp_all add: rotate_def rotate_snapshot_def)
  from c have good: "good_graph ?nfc ?d" and sy: "synced fl reg" by (simp_all add: consistent_def)
  from sy Some obtain ss ws where h: "store_holds fl st ss ws" and rp: "\<forall>pop. replay pop ss ws = Inr ?d"
    by (auto simp: synced_def)
  have "synced fl (reg\<lparr>wal := Some (last sts)\<rparr>)"
  proof (cases r)
    case (Inr u)
    have "\<forall>e \<in> set ?es. loggable (snapshot_payload e)"
      using good by (auto simp: good_graph_def loggable_snapshot_entry)
    moreover have "rotate_states ?nfc (env_try_lock env) ?es st = (Inr (), sts)" using rs Inr by simp
    ultimately have "store_holds fl (last sts) (map (\<lambda>e. entry_of ?nfc (snapshot_payload e)) ?es) []"
      using h n by (intro rotate_holds(1))
    moreover have "replay pop (map (\<lambda>e. entry_of ?nfc (snapshot_payload e)) ?es) [] = Inr ?d" for pop
      using hydrate_all [OF n, of ?d] good by (simp add: replay_def good_graph_def comp_def)
    ultimately show ?thesis by (auto simp: synced_def)
  next
    case (Inl e)
    have "last sts = st \<or> (\<exists>f. open_append (wal_file st) = Inr f \<and> last sts = st\<lparr>wal_file := f\<rparr>)"
      using rs Inl
      by (cases "snapshot_body ?nfc ?es"; cases "open_append (wal_file st)")
        (auto simp: rotate_states_def Let_def split: if_splits sum.splits)
    then have "store_holds fl (last sts) ss ws"
      using h by (auto simp: store_holds_def intro: open_append_file_holds)
    with rp show ?thesis by (auto simp: synced_def)
  qed
  with good show ?thesis by (simp add: reg' keeps_def consistent_def)
qed

lemma exec_keeps:
  assumes "consistent fl (env_nfc env) reg" and "normalises (env_nfc env)"
    and "admissible (env_nfc env) reg op"
  shows "keeps fl env reg (exec env op reg)"
  using assms
  by (cases op)
    (auto intro: propose_keeps accept_keeps discharge_keeps violate_keeps rotate_keeps)

lemma reachable_consistent:
  assumes "reachable nfc reg" and "normalises nfc"
  shows "consistent fl nfc reg"
  using assms(1)
proof induction
  case in_memory
  show ?case by (simp add: consistent_def synced_def)
next
  case on_disk
  show ?case
    using empty_store_holds [of fl] by (force simp: consistent_def synced_def replay_def)
next
  case (call reg op env)
  then show ?case using exec_keeps [of fl env reg op] assms(2) by (auto simp: keeps_def)
qed

subsection \<open>Properties\<close>

definition demo_env :: env where
  "demo_env = \<lparr>env_nfc = (\<lambda>s. s), env_sha256 = (\<lambda>s. take 2 s), env_run_id = Some ''r'',
     env_try_lock = (\<lambda>_. True), env_pop = (\<lambda>_. 0)\<rparr>"

definition demo_start :: registry where
  "demo_start = \<lparr>assumptions = [], wal = Some empty_store\<rparr>"

definition demo_violation :: violation where
  "demo_violation = \<lparr>vi_text = PStr ''v'', vi_artifact = None\<rparr>"

text \<open>An assumption, a second one that depends on it, and a violation of the first.\<close>

definition demo_one :: registry where
  "demo_one = exec demo_env (Propose ''a'' ''t'' []) demo_start"

definition demo_two :: registry where
  "demo_two = exec demo_env (Propose ''b'' ''u'' [''a'']) demo_one"

definition demo_three :: registry where
  "demo_three = exec demo_env (Violate ''a'' demo_violation) demo_two"

lemma demo_nfc [simp]: "env_nfc demo_env = (\<lambda>s. s)"
  by (simp add: demo_env_def)

lemma demo_stable: "stable_violation (\<lambda>s. s) demo_violation"
  by (simp add: stable_violation_def stable_def demo_violation_def)

lemma demo_reachable:
  "reachable (\<lambda>s. s) demo_one" "reachable (\<lambda>s. s) demo_two" "reachable (\<lambda>s. s) demo_three"
proof -
  have "admissible (\<lambda>s. s) demo_start (Propose ''a'' ''t'' [])" by (simp add: demo_start_def)
  then show one: "reachable (\<lambda>s. s) demo_one"
    unfolding demo_one_def using reachable.on_disk by (intro reachable.call) (simp_all add: demo_start_def)
  have "map_of (assumptions demo_one) ''b'' = None" by code_simp
  then show two: "reachable (\<lambda>s. s) demo_two"
    unfolding demo_two_def using one by (intro reachable.call) simp_all
  show "reachable (\<lambda>s. s) demo_three"
    unfolding demo_three_def using two demo_stable by (intro reachable.call) simp_all
qed

text \<open>
  C18. Recovery is exact: after any history of calls (each with its own lock outcomes, ambient
  run and pop order; refused calls and rotations included), constructing a registry on the
  store gives back the registry, every assumption with all its fields and in the same order.
  The texts are in NFC and the proposed identifiers fresh.
\<close>

theorem reload_recovers:
  assumes "reachable nfc reg" and "normalises nfc" and "wal reg = Some st"
  shows "open_registry fl pop (Some st) = Inr reg"
proof -
  have "synced fl reg" using reachable_consistent [OF assms(1,2), of fl] by (simp add: consistent_def)
  from synced_reload [OF this assms(3), of pop] assms(3) show ?thesis
    by (simp add: open_registry_def)
qed

theorem reload_recovers_witness:
  "open_registry (\<lambda>_. FNan) (\<lambda>_. 7) (wal demo_three) = Inr demo_three \<and>
    map astate (vals (assumptions demo_three)) = [VIOLATED, VIOLATED]"
proof -
  obtain st where "wal demo_three = Some st" by (cases "wal demo_three") (code_simp, blast)
  with reload_recovers [OF demo_reachable(3) normalises_id, of st "\<lambda>_. FNan" "\<lambda>_. 7"]
  have "open_registry (\<lambda>_. FNan) (\<lambda>_. 7) (wal demo_three) = Inr demo_three" by simp
  moreover have "map astate (vals (assumptions demo_three)) = [VIOLATED, VIOLATED]" by code_simp
  ultimately show ?thesis by blast
qed



text \<open>
  An assumption only moves forward: no call removes it or changes its text, digest or
  dependencies, a violation is final, a discharged assumption can only be violated, and an
  active one never goes back to proposed.
\<close>

theorem lifecycle_forward:
  assumes "reachable nfc reg" and "normalises nfc" and "admissible nfc reg op" and "env_nfc env = nfc"
    and "map_of (assumptions reg) k = Some a"
  shows "\<exists>b. map_of (assumptions (exec env op reg)) k = Some b \<and> evolves a b"
proof -
  have "keeps (\<lambda>_. FNan) env reg (exec env op reg)"
    using reachable_consistent [OF assms(1,2)] assms(2-4) by (intro exec_keeps) auto
  with assms(5) show ?thesis by (auto simp: keeps_def extends_graph_def)
qed

theorem lifecycle_forward_witness:
  "\<exists>b. map_of (assumptions demo_three) ''b'' = Some b \<and> depends_on b = [''a'']"
proof -
  obtain a where a: "map_of (assumptions demo_two) ''b'' = Some a" "depends_on a = [''a'']"
  proof
    show "map_of (assumptions demo_two) ''b'' = Some \<lparr>aid = ''b'', atext = PStr ''u'', adigest = ''62'',
      astate = PROPOSED, depends_on = [''a''], discharged_by = None, violated_by = None\<rparr>" by code_simp
  qed simp
  have "admissible (\<lambda>s. s) demo_two (Violate ''a'' demo_violation)" using demo_stable by simp
  from lifecycle_forward [OF demo_reachable(2) normalises_id this demo_nfc a(1)] a(2) show ?thesis
    by (auto simp: demo_three_def evolves_def)
qed

lemma persist_error_wal:
  "persist env k p reg = (Inl e, reg') \<Longrightarrow> wal reg \<noteq> None \<and> (\<exists>w. e = WalFailure w)"
  by (auto simp: persist_def split: option.splits if_splits sum.splits prod.splits)

text \<open>
  C19. Violation propagates exactly: unless the log refuses the transition, in which case
  nothing changes, the call returns, whatever order \<open>set.pop\<close> yields the frontier in; it
  marks the violated assumption and the ones that depend on it through assumptions not yet
  violated, no others, and returns each of them once, the root first.
\<close>

theorem violate_propagates:
  assumes "reachable nfc reg" and "normalises nfc" and "map_of (assumptions reg) i = Some a"
    and "astate a \<noteq> VIOLATED"
  shows "case violate env i v reg of
      (Inl e, reg') \<Rightarrow> wal reg \<noteq> None \<and> (\<exists>w. e = WalFailure w) \<and> assumptions reg' = assumptions reg
    | (Inr out, reg') \<Rightarrow>
        assumptions reg' = mark (Some v) (affected (assumptions reg) i) (assumptions reg) \<and>
        hd out = i \<and> set out = affected (assumptions reg) i \<and> distinct out"
proof -
  let ?p = "transition_payload i (adigest a) [(KStr ''violation'', violation_payload v)]"
  obtain r reg' where p: "persist env ''violated'' ?p reg = (r, reg')" by (cases "persist env ''violated'' ?p reg")
  have wf: "wf_graph (assumptions reg)"
    using reachable_consistent [OF assms(1,2), of undefined] by (simp add: consistent_def good_graph_def)
  show ?thesis
  proof (cases r)
    case (Inl e)
    then have "violate env i v reg = (Inl e, reg')"
      using p assms(3,4) get_or_raise_Inr [of reg i a] by (simp add: violate_def transition_payload_def)
    with persist_error(1) [of env _ ?p reg e reg'] persist_error_wal [of env _ ?p reg e reg'] p Inl
    show ?thesis by auto
  next
    case (Inr u)
    with violate_result [OF wf assms(3,4), of env v u reg'] p show ?thesis by auto
  qed
qed

definition demo_memory :: registry where
  "demo_memory = exec demo_env (Propose ''a'' ''t'' []) \<lparr>assumptions = [], wal = None\<rparr>"

theorem violate_propagates_witness:
  "\<exists>out. fst (violate demo_env ''a'' demo_violation demo_memory) = Inr out \<and> hd out = ''a''"
proof -
  have "reachable (\<lambda>s. s) demo_memory"
    unfolding demo_memory_def by (intro reachable.call reachable.in_memory) simp_all
  moreover have "map_of (assumptions demo_memory) ''a'' = Some \<lparr>aid = ''a'', atext = PStr ''t'', adigest = ''61'',
      astate = PROPOSED, depends_on = [], discharged_by = None, violated_by = None\<rparr>" by code_simp
  moreover have "wal demo_memory = None" by code_simp
  ultimately show ?thesis
    using violate_propagates [OF _ normalises_id, of demo_memory "''a''" _ demo_violation demo_env]
    by (auto split: prod.splits sum.splits)
qed

text \<open>
  A call that raises leaves the assumptions as they were, whatever made it fail: an
  unknown identifier, a wrong state, or the log.
\<close>

theorem failed_call_no_effect:
  assumes "reachable nfc reg" and "normalises nfc"
  shows "(\<not> is_ok (fst (propose env i t deps reg)) \<longrightarrow>
      assumptions (snd (propose env i t deps reg)) = assumptions reg) \<and>
    (\<not> is_ok (fst (accept env i reg)) \<longrightarrow> assumptions (snd (accept env i reg)) = assumptions reg) \<and>
    (\<not> is_ok (fst (discharge env i e reg)) \<longrightarrow> assumptions (snd (discharge env i e reg)) = assumptions reg) \<and>
    (\<not> is_ok (fst (violate env i v reg)) \<longrightarrow> assumptions (snd (violate env i v reg)) = assumptions reg)"
proof -
  have "assumptions (snd (persist env k p reg)) = assumptions reg" for k p
    using persist_error(1) persist_ok(1) by (cases "fst (persist env k p reg)") (metis prod.collapse)+
  then have p: "persist env k p reg = (r, reg') \<Longrightarrow> assumptions reg' = assumptions reg" for k p r reg'
    by (metis snd_conv)
  have wf: "wf_graph (assumptions reg)"
    using reachable_consistent [OF assms, of undefined] by (simp add: consistent_def good_graph_def)
  have vio: "assumptions (snd (violate env i v reg)) = assumptions reg"
    if bad: "\<not> is_ok (fst (violate env i v reg))"
  proof (cases "get_or_raise reg i")
    case (Inr a)
    then have a: "map_of (assumptions reg) i = Some a" by (simp add: get_or_raise_Inr)
    let ?p = "transition_payload i (adigest a) [(KStr ''violation'', violation_payload v)]"
    show ?thesis
    proof (cases "astate a = VIOLATED")
      case False
      obtain r reg' where q: "persist env ''violated'' ?p reg = (r, reg')" by (cases "persist env ''violated'' ?p reg")
      with bad violate_result [OF wf a False, of env v _ reg'] obtain e where "r = Inl e"
        by (cases r) auto
      with q p Inr False show ?thesis by (simp add: violate_def transition_payload_def)
    qed (use Inr in \<open>simp add: violate_def\<close>)
  qed (simp add: violate_def)
  show ?thesis
    using vio p
    by (auto simp: propose_def accept_def discharge_def Let_def set_assumption_def
        split: sum.splits if_splits prod.splits)
qed

theorem failed_call_no_effect_witness:
  "assumptions (snd (accept demo_env ''z'' demo_three)) = assumptions demo_three"
proof -
  have "\<not> is_ok (fst (accept demo_env ''z'' demo_three))" by code_simp
  with failed_call_no_effect [OF demo_reachable(3) normalises_id, of demo_env "''z''"] show ?thesis by blast
qed

text \<open>
  Replaying the log over the new snapshot, which is what a kill between the two steps of a
  rotation leaves, is not idempotent: an assumption proposed on top of an already violated
  one is proposed in memory and violated after the reload.
\<close>

theorem torn_rotation_not_idempotent:
  "let reg1 = exec demo_env (Violate ''a'' demo_violation) demo_one;
       reg2 = exec demo_env (Propose ''b'' ''u'' [''a'']) reg1;
       torn = snd (rotate_states (\<lambda>s. s) (\<lambda>_. True) (map snapshot_entry (vals (assumptions reg2))) (the (wal reg2))) ! 2
   in map_option astate (map_of (assumptions reg2) ''b'') = Some PROPOSED \<and>
      (case reload_from_disk (\<lambda>_. FNan) (\<lambda>_. 0) torn of
         Inl _ \<Rightarrow> None | Inr d \<Rightarrow> map_option astate (map_of d ''b'')) = Some VIOLATED"
  by code_simp

text \<open>
  Text that is not in NFC does not survive a reload: the encoder normalises it (here the
  letter e with a combining accent), so the reloaded text differs from the one in memory,
  and from the one the digest was taken of.
\<close>

theorem reload_normalises_text:
  "let decomposed = [CHR 0x65, CHR 0xCC, CHR 0x81]; composed = [CHR 0xC3, CHR 0xA9];
       env = demo_env\<lparr>env_nfc := (\<lambda>s. if s = decomposed then composed else s)\<rparr>;
       reg = exec env (Propose ''a'' decomposed []) demo_start
   in map_option atext (map_of (assumptions reg) ''a'') = Some (PStr decomposed) \<and>
      (case reload_from_disk (\<lambda>_. FNan) (\<lambda>_. 0) (the (wal reg)) of
         Inl _ \<Rightarrow> None | Inr d \<Rightarrow> map_option atext (map_of d ''a'')) = Some (PStr composed)"
  by code_simp

end
