(* ===== verification/Glob.thy ===== *)
theory Glob
  imports Coerce
begin

section \<open>Characters, white space and shell patterns\<close>

text \<open>
  A Python string is the bytes of its UTF-8 encoding; \<open>chars_of\<close> cuts it into characters. On
  characters this theory models \<open>str.strip\<close>, \<open>str.replace\<close> and \<open>fnmatch.fnmatchcase\<close>, and the
  helpers of \<open>src/ract/core/gates.py\<close> that match paths against a glob with \<open>{a,b}\<close> groups and
  \<open>**/\<close>: \<open>_expand_braces\<close>, \<open>_globstar_variants\<close> and \<open>_fnmatch_hits\<close>.
\<close>

subsection \<open>Characters\<close>

function chars_of :: "string \<Rightarrow> string list" where
  "chars_of [] = []"
| "chars_of (c # s) = (c # takeWhile cont s) # chars_of (dropWhile cont s)"
  by pat_completeness auto
termination
  by (relation "measure length") (auto simp: le_imp_less_Suc dropWhile_length)

lemma concat_chars_of [simp]: "concat (chars_of s) = s"
  by (induction s rule: chars_of.induct) simp_all

definition unicode_spaces :: "string list" where
  "unicode_spaces = map utf8_enc
    ([9, 10, 11, 12, 13, 28, 29, 30, 31, 32, 133, 160, 5760] @ [8192..<8203] @ [8232, 8233, 8239, 8287, 12288])"

definition strip_chars :: "string list \<Rightarrow> string list" where
  "strip_chars cs =
    rev (dropWhile (\<lambda>c. c \<in> set unicode_spaces) (rev (dropWhile (\<lambda>c. c \<in> set unicode_spaces) cs)))"

definition py_strip :: "string \<Rightarrow> string" where
  "py_strip s = concat (strip_chars (chars_of s))"

text \<open>\<open>s.replace(old, new)\<close> for a non-empty \<open>old\<close>.\<close>

function replace_all :: "string \<Rightarrow> string \<Rightarrow> string \<Rightarrow> string" where
  "replace_all old new s =
    (case s of
       [] \<Rightarrow> []
     | c # t \<Rightarrow>
         if old \<noteq> [] \<and> startswith s old then new @ replace_all old new (drop (length old) s)
         else c # replace_all old new t)"
  by pat_completeness auto
termination
  by (relation "measure (\<lambda>(_, _, s). length s)") auto

declare replace_all.simps [simp del]

subsection \<open>Shell patterns\<close>

text \<open>The members of a \<open>[...]\<close> group: characters and ranges.\<close>

fun set_items :: "string list \<Rightarrow> string \<Rightarrow> bool" where
  "set_items (x # d # y # r) c =
    (if d = ''-'' then (x \<le> c \<and> c \<le> y) \<or> set_items r c else c = x \<or> set_items (d # y # r) c)"
| "set_items (x # r) c = (c = x \<or> set_items r c)"
| "set_items [] c = False"

definition set_group :: "string list \<Rightarrow> string \<Rightarrow> bool" where
  "set_group stuff c =
    (if stuff \<noteq> [] \<and> hd stuff = ''!'' then \<not> set_items (tl stuff) c else set_items stuff c)"

text \<open>The group that starts behind a \<open>[\<close>, and what follows its \<open>]\<close>.\<close>

definition set_span :: "string list \<Rightarrow> (string list \<times> string list) option" where
  "set_span p =
    (let j0 = (if p \<noteq> [] \<and> hd p = ''!'' then 1 else 0);
         j1 = (if j0 < length p \<and> p ! j0 = '']'' then j0 + 1 else j0);
         body = takeWhile (\<lambda>c. c \<noteq> '']'') (drop j1 p);
         j = j1 + length body
     in if j < length p then Some (take j p, drop (Suc j) p) else None)"

lemma set_span_length: "set_span p = Some (g, r) \<Longrightarrow> length r < length p"
  by (auto simp: set_span_def Let_def split: if_splits)

function glob_match :: "string list \<Rightarrow> string list \<Rightarrow> bool" where
  "glob_match [] t = (t = [])"
| "glob_match (p # ps) t =
    (if p = ''*'' then glob_match ps t \<or> (case t of [] \<Rightarrow> False | _ # t' \<Rightarrow> glob_match (p # ps) t')
     else case t of
       [] \<Rightarrow> False
     | c # t' \<Rightarrow>
         if p = ''?'' then glob_match ps t'
         else if p = ''['' then
           (case set_span ps of
              None \<Rightarrow> c = p \<and> glob_match ps t'
            | Some (g, ps') \<Rightarrow> set_group g c \<and> glob_match ps' t')
         else c = p \<and> glob_match ps t')"
  by pat_completeness auto
termination
  by (relation "measure (\<lambda>(p, t). length p + length t)") (auto dest: set_span_length)

declare glob_match.simps(2) [simp del]

definition fnmatchcase :: "string \<Rightarrow> string \<Rightarrow> bool" where
  "fnmatchcase s pattern = glob_match (chars_of pattern) (chars_of s)"

subsection \<open>Path globs\<close>

definition globstar_variants :: "string \<Rightarrow> string list" where
  "globstar_variants pattern =
    (if replace_all ''**/'' [] pattern = pattern then [pattern]
     else [replace_all ''**/'' [] pattern, replace_all ''**/'' ''*/'' pattern])"

definition count_char :: "char \<Rightarrow> string \<Rightarrow> nat" where
  "count_char c s = length (filter ((=) c) s)"

lemma count_char_simps [simp]:
  "count_char c [] = 0" "count_char c (d # s) = (if c = d then 1 else 0) + count_char c s"
  "count_char c (s @ t) = count_char c s + count_char c t"
  by (simp_all add: count_char_def)

text \<open>The first \<open>{\<close> with a \<open>}\<close> behind it: what is before, between and after.\<close>

definition brace_group :: "string \<Rightarrow> (string \<times> string \<times> string) option" where
  "brace_group pattern =
    (let prefix = takeWhile (\<lambda>c. c \<noteq> CHR ''{'') pattern;
         rest = drop (Suc (length prefix)) pattern;
         body = takeWhile (\<lambda>c. c \<noteq> CHR ''}'') rest
     in if length prefix < length pattern \<and> length body < length rest
        then Some (prefix, body, drop (Suc (length body)) rest) else None)"

lemma count_char_le: "set s \<subseteq> set t \<Longrightarrow> count_char c t = 0 \<Longrightarrow> count_char c s = 0"
  by (auto simp: count_char_def filter_empty_conv)

lemma brace_group_count:
  assumes "brace_group pattern = Some (a, b, c)"
  shows "count_char (CHR ''}'') b = 0"
    and "count_char (CHR ''}'') a + count_char (CHR ''}'') c < count_char (CHR ''}'') pattern"
proof -
  let ?prefix = "takeWhile (\<lambda>c. c \<noteq> CHR ''{'') pattern"
  let ?rest = "drop (Suc (length ?prefix)) pattern"
  let ?body = "takeWhile (\<lambda>c. c \<noteq> CHR ''}'') ?rest"
  from assms have l: "length ?prefix < length pattern" "length ?body < length ?rest"
    and abc: "a = ?prefix" "b = ?body" "c = drop (Suc (length ?body)) ?rest"
    by (auto simp: brace_group_def Let_def split: if_splits)
  show "count_char (CHR ''}'') b = 0"
    unfolding abc count_char_def by (auto simp: filter_empty_conv dest: set_takeWhileD)
  have r: "?rest = ?body @ CHR ''}'' # drop (Suc (length ?body)) ?rest"
  proof -
    have "?rest ! length ?body = CHR ''}''" using nth_length_takeWhile [OF l(2)] by simp
    then show ?thesis
      using id_take_nth_drop [OF l(2)] takeWhile_eq_take [of "\<lambda>c. c \<noteq> CHR ''}''" ?rest] by metis
  qed
  have p: "pattern = ?prefix @ pattern ! length ?prefix # ?rest"
    using id_take_nth_drop [OF l(1)] takeWhile_eq_take [of "\<lambda>c. c \<noteq> CHR ''{''" pattern] by metis
  have "count_char (CHR ''}'') pattern \<ge> count_char (CHR ''}'') ?prefix + count_char (CHR ''}'') ?rest"
    using arg_cong [OF p, of "count_char (CHR ''}'')"] unfolding count_char_simps by linarith
  moreover have "count_char (CHR ''}'') ?rest = count_char (CHR ''}'') ?body + 1 + count_char (CHR ''}'') c"
    by (subst r) (simp add: abc(3))
  ultimately show "count_char (CHR ''}'') a + count_char (CHR ''}'') c < count_char (CHR ''}'') pattern"
    unfolding abc by linarith
qed

lemma split_on_subset: "b \<in> set (split_on c s) \<Longrightarrow> set b \<subseteq> set s"
proof (induction s arbitrary: b)
  case (Cons a s)
  show ?case
  proof (cases "split_on c s")
    case (Cons p ps)
    with Cons.IH have "set x \<subseteq> set s" if "x \<in> set (p # ps)" for x using that by simp
    with Cons.prems Cons show ?thesis by (fastforce split: if_splits)
  qed (use Cons.prems in simp)
qed simp

lemma chars_subset: "c \<in> set (chars_of s) \<Longrightarrow> set c \<subseteq> set s"
  using concat_chars_of [of s] by (metis UN_upper set_concat)

lemma py_strip_subset: "set (py_strip s) \<subseteq> set s"
  unfolding py_strip_def strip_chars_def using chars_subset [of _ s]
  by (fastforce dest!: set_dropWhileD)

text \<open>Every branch has one closing brace less, so the expansion ends.\<close>

function expand_braces :: "string \<Rightarrow> string list" where
  "expand_braces pattern =
    (case brace_group pattern of
       None \<Rightarrow> [pattern]
     | Some (a, b, c) \<Rightarrow>
         concat (map (\<lambda>branch. expand_braces (a @ py_strip branch @ c)) (split_on (CHR '','') b)))"
  by pat_completeness auto
termination
proof (relation "measure (count_char (CHR ''}''))")
  fix pattern x a y b c z branch
  assume g: "brace_group pattern = Some x" "(a, y) = x" "(b, c) = y"
    and br: "branch \<in> set (split_on (CHR '','') b)"
  then have g': "brace_group pattern = Some (a, b, c)" by simp
  have "count_char (CHR ''}'') (py_strip branch) = 0"
    using count_char_le [of "py_strip branch" b] py_strip_subset [of branch] split_on_subset [OF br]
      brace_group_count(1) [OF g'] by (meson order_trans)
  with brace_group_count(2) [OF g']
  show "(a @ py_strip branch @ c, pattern) \<in> measure (count_char (CHR ''}''))" by simp
qed simp

declare expand_braces.simps [simp del]

definition fnmatch_hits :: "string list \<Rightarrow> string \<Rightarrow> string list" where
  "fnmatch_hits paths glob =
    sort (remdups (filter (\<lambda>path. \<exists>pattern \<in> set (expand_braces glob).
      \<exists>cand \<in> set (globstar_variants pattern). fnmatchcase path cand) paths))"

lemma set_fnmatch_hits:
  "set (fnmatch_hits paths glob) = {path \<in> set paths. \<exists>pattern \<in> set (expand_braces glob).
      \<exists>cand \<in> set (globstar_variants pattern). fnmatchcase path cand}"
  by (auto simp: fnmatch_hits_def)

end
