(* ===== verification/Predicates.thy ===== *)
theory Predicates
  imports Glob
begin

section \<open>Acceptance predicates, their evaluation and the suite\<close>

text \<open>
  The model of \<open>src/ract/core/predicate.py\<close> and \<open>src/ract/core/gates.py\<close>: the six kinds of
  invocation with their canonical form, predicates and suites with their construction
  checks, the reader \<open>suite_from_canonical\<close>, and the evaluators that decide a predicate from
  a workspace snapshot. The call of the operator's own invariant (\<open>importlib.import_module\<close>
  and the callable) is the argument \<open>import_attr\<close>; whether the verifiers are installed is
  the argument \<open>installed\<close>. The time an evaluation took and its trace event are left out.
\<close>

subsection \<open>Invocations\<close>

datatype invocation =
    PytestInvocation string int
  | MypyInvocation string bool
  | HypothesisInvocation string int
  | AssertionInvocation string
  | ArtifactInvocation string bool
  | RelatedFileCoverageInvocation string string string

fun invocation_kind :: "invocation \<Rightarrow> string" where
  "invocation_kind (PytestInvocation _ _) = ''test''"
| "invocation_kind (MypyInvocation _ _) = ''type''"
| "invocation_kind (HypothesisInvocation _ _) = ''property''"
| "invocation_kind (AssertionInvocation _) = ''invariant''"
| "invocation_kind (ArtifactInvocation _ _) = ''artifact''"
| "invocation_kind (RelatedFileCoverageInvocation _ _ _) = ''related_file_coverage''"

fun invocation_to_canonical :: "invocation \<Rightarrow> payload" where
  "invocation_to_canonical (PytestInvocation sel tmo) =
    [(KStr ''type'', PStr ''pytest''), (KStr ''selector'', PStr sel), (KStr ''timeout_seconds'', PInt tmo)]"
| "invocation_to_canonical (MypyInvocation target strict) =
    [(KStr ''type'', PStr ''mypy''), (KStr ''target'', PStr target), (KStr ''strict'', PBool strict)]"
| "invocation_to_canonical (HypothesisInvocation target n) =
    [(KStr ''type'', PStr ''hypothesis''), (KStr ''target'', PStr target), (KStr ''max_examples'', PInt n)]"
| "invocation_to_canonical (AssertionInvocation ref) =
    [(KStr ''type'', PStr ''assertion''), (KStr ''callable_ref'', PStr ref)]"
| "invocation_to_canonical (ArtifactInvocation path rk) =
    [(KStr ''type'', PStr ''artifact''), (KStr ''path'', PStr path), (KStr ''must_have_rootknot'', PBool rk)]"
| "invocation_to_canonical (RelatedFileCoverageInvocation src tgt why) =
    [(KStr ''type'', PStr ''related_file_coverage''), (KStr ''source_glob'', PStr src),
     (KStr ''must_also_touch_glob'', PStr tgt), (KStr ''rationale'', PStr why)]"

subsection \<open>Predicates and suites\<close>

record predicate =
  pred_id :: string
  pred_kind :: string
  invocation :: invocation
  required_flag :: bool
  pred_depends_on :: "string list"

record suite =
  intent_id :: string
  predicates :: "predicate list"
  coverage_gate :: pyfloat
  compiled_from :: string
  compiler_version :: string
  prompt_digest :: "string option"

datatype pred_error =
    PredValueError string
  | PredKeyError string
  | PredTypeError string

definition predicate_post_init :: "predicate \<Rightarrow> pred_error + predicate" where
  "predicate_post_init p =
    (if length (pred_id p) \<noteq> 16 then Inl (PredValueError ''predicate id'')
     else if \<exists>d \<in> set (pred_depends_on p). length d \<noteq> 16 then Inl (PredValueError ''dependency id'')
     else if pred_kind p \<noteq> invocation_kind (invocation p) then Inl (PredValueError ''kind'')
     else Inr p)"

definition known_compiler_versions :: "string list" where
  "known_compiler_versions = [''0.4.0'']"

text \<open>
  \<open>0.0 <= f <= 1.0\<close>, read off what is known of a float: its value when integral, else its
  \<open>repr\<close>. A non-integral float lies in the interval exactly when it is positive and its
  \<open>repr\<close> starts with \<open>0.\<close> or has a negative exponent.
\<close>

fun has_neg_exp :: "string \<Rightarrow> bool" where
  "has_neg_exp (c # d # s) = (c = CHR ''e'' \<and> d = CHR ''-'' \<or> has_neg_exp (d # s))"
| "has_neg_exp _ = False"

fun in_unit_interval :: "pyfloat \<Rightarrow> bool" where
  "in_unit_interval FNan = False"
| "in_unit_interval (FInf _) = False"
| "in_unit_interval (FFin (Some i) _) = (0 \<le> i \<and> i \<le> 1)"
| "in_unit_interval (FFin None t) = (\<not> startswith t ''-'' \<and> (startswith t ''0.'' \<or> has_neg_exp t))"

fun first_duplicate :: "string list \<Rightarrow> string list \<Rightarrow> string option" where
  "first_duplicate seen [] = None"
| "first_duplicate seen (x # xs) = (if x \<in> set seen then Some x else first_duplicate (x # seen) xs)"

definition suite_post_init :: "suite \<Rightarrow> pred_error + suite" where
  "suite_post_init s =
    (if length (intent_id s) \<noteq> 16 then Inl (PredValueError ''intent_id'')
     else if \<not> in_unit_interval (coverage_gate s) then Inl (PredValueError ''coverage_gate'')
     else if compiler_version s \<notin> set known_compiler_versions then Inl (PredValueError ''compiler_version'')
     else if (case prompt_digest s of None \<Rightarrow> False | Some d \<Rightarrow> length d \<noteq> 32)
     then Inl (PredValueError ''prompt_digest'')
     else case first_duplicate [] (map pred_id (predicates s)) of
       Some i \<Rightarrow> Inl (PredValueError ''duplicate predicate id'')
     | None \<Rightarrow> Inr s)"

definition required :: "suite \<Rightarrow> predicate list" where
  "required s = filter required_flag (predicates s)"

definition predicate_to_canonical :: "predicate \<Rightarrow> pyval" where
  "predicate_to_canonical p =
    PDict [(KStr ''id'', PStr (hex (pred_id p))), (KStr ''kind'', PStr (pred_kind p)),
      (KStr ''required'', PBool (required_flag p)),
      (KStr ''depends_on'', PList (map (\<lambda>d. PStr (hex d)) (pred_depends_on p))),
      (KStr ''invocation'', PDict (invocation_to_canonical (invocation p)))]"

definition suite_to_canonical :: "suite \<Rightarrow> payload" where
  "suite_to_canonical s =
    [(KStr ''compiler_version'', PStr (compiler_version s)), (KStr ''compiled_from'', PStr (compiled_from s)),
     (KStr ''coverage_gate'', PFloat (coverage_gate s)), (KStr ''intent_id'', PStr (hex (intent_id s))),
     (KStr ''predicates'', PList (map predicate_to_canonical (predicates s)))]
    @ (case prompt_digest s of None \<Rightarrow> [] | Some d \<Rightarrow> [(KStr ''prompt_digest'', PStr (hex d))])"

definition suite_digest ::
    "(string \<Rightarrow> string) \<Rightarrow> (string \<Rightarrow> string) \<Rightarrow> suite \<Rightarrow> jcs_error + string" where
  "suite_digest nfc sha256 s =
    rbind (dumps_jcs nfc (PDict (suite_to_canonical s))) (\<lambda>t. Inr (hex (sha256 t)))"

subsection \<open>The reader\<close>

definition as_dict :: "pyval \<Rightarrow> pred_error + payload" where
  "as_dict v = (case v of PDict p \<Rightarrow> Inr p | _ \<Rightarrow> Inl (PredTypeError ''not a dict''))"

definition need :: "payload \<Rightarrow> string \<Rightarrow> pred_error + pyval" where
  "need p k = (case map_of p (KStr k) of None \<Rightarrow> Inl (PredKeyError k) | Some v \<Rightarrow> Inr v)"

definition as_int :: "host \<Rightarrow> pyval \<Rightarrow> pred_error + int" where
  "as_int h v = (case py_int h v of None \<Rightarrow> Inl (PredTypeError ''int'') | Some i \<Rightarrow> Inr i)"

definition as_bytes :: "host \<Rightarrow> pyval \<Rightarrow> pred_error + string" where
  "as_bytes h v = (case fromhex (py_str h v) of None \<Rightarrow> Inl (PredValueError ''fromhex'') | Some b \<Rightarrow> Inr b)"

definition as_list :: "pyval \<Rightarrow> pred_error + pyval list" where
  "as_list v = (case iter_value v of None \<Rightarrow> Inl (PredTypeError ''not iterable'') | Some vs \<Rightarrow> Inr vs)"

text \<open>A kind that is not a string differs from every invocation's kind.\<close>

definition as_kind :: "pyval \<Rightarrow> pred_error + string" where
  "as_kind v = (case v of PStr k \<Rightarrow> Inr k | _ \<Rightarrow> Inl (PredValueError ''kind''))"

definition optional_bytes :: "host \<Rightarrow> pyval \<Rightarrow> pred_error + string option" where
  "optional_bytes h v = (if v = PNone then Inr None else rbind (as_bytes h v) (\<lambda>b. Inr (Some b)))"

definition as_float :: "host \<Rightarrow> pyval \<Rightarrow> pred_error + pyfloat" where
  "as_float h v = (case py_float h v of None \<Rightarrow> Inl (PredTypeError ''float'') | Some f \<Rightarrow> Inr f)"

definition invocation_from_canonical :: "host \<Rightarrow> payload \<Rightarrow> pred_error + invocation" where
  "invocation_from_canonical h p =
    (let kind = get_value p ''type'' in
     if kind = PStr ''pytest'' then
       rbind (need p ''selector'') (\<lambda>sel.
       rbind (as_int h (get_default p ''timeout_seconds'' (PInt 60))) (\<lambda>t.
         Inr (PytestInvocation (py_str h sel) t)))
     else if kind = PStr ''mypy'' then
       rbind (need p ''target'') (\<lambda>t.
         Inr (MypyInvocation (py_str h t) (truthy (get_default p ''strict'' (PBool True)))))
     else if kind = PStr ''hypothesis'' then
       rbind (need p ''target'') (\<lambda>t.
       rbind (as_int h (get_default p ''max_examples'' (PInt 100))) (\<lambda>n.
         Inr (HypothesisInvocation (py_str h t) n)))
     else if kind = PStr ''assertion'' then
       rbind (need p ''callable_ref'') (\<lambda>r. Inr (AssertionInvocation (py_str h r)))
     else if kind = PStr ''artifact'' then
       rbind (need p ''path'') (\<lambda>r.
         Inr (ArtifactInvocation (py_str h r) (truthy (get_default p ''must_have_rootknot'' (PBool False)))))
     else if kind = PStr ''related_file_coverage'' then
       rbind (need p ''source_glob'') (\<lambda>s. rbind (need p ''must_also_touch_glob'') (\<lambda>t.
         Inr (RelatedFileCoverageInvocation (py_str h s) (py_str h t)
           (py_str h (get_default p ''rationale'' (PStr []))))))
     else Inl (PredValueError ''unknown invocation type''))"

definition predicate_from_canonical :: "host \<Rightarrow> pyval \<Rightarrow> pred_error + predicate" where
  "predicate_from_canonical h v =
    rbind (as_dict v) (\<lambda>p.
    rbind (need p ''id'') (\<lambda>hid. rbind (as_bytes h hid) (\<lambda>i.
    rbind (need p ''kind'') (\<lambda>kd.
    rbind (need p ''invocation'') (\<lambda>iv. rbind (as_dict iv) (\<lambda>ip. rbind (invocation_from_canonical h ip) (\<lambda>ivc.
    rbind (as_list (get_default p ''depends_on'' (PList []))) (\<lambda>ds. rbind (sequence (map (as_bytes h) ds)) (\<lambda>deps.
    rbind (as_kind kd) (\<lambda>k.
      predicate_post_init \<lparr>pred_id = i, pred_kind = k, invocation = ivc,
        required_flag = truthy (get_default p ''required'' (PBool True)), pred_depends_on = deps\<rparr>))))))))))"

definition suite_from_canonical :: "host \<Rightarrow> pyval \<Rightarrow> pred_error + suite" where
  "suite_from_canonical h v =
    rbind (as_dict v) (\<lambda>p.
    let version = get_value p ''compiler_version'' in
    if version \<notin> PStr ` set known_compiler_versions then Inl (PredValueError ''unknown compiler_version'')
    else
      rbind (optional_bytes h (get_value p ''prompt_digest'')) (\<lambda>pd.
      rbind (need p ''intent_id'') (\<lambda>hi. rbind (as_bytes h hi) (\<lambda>i.
      rbind (as_list (get_default p ''predicates'' (PList []))) (\<lambda>pvs.
      rbind (sequence (map (predicate_from_canonical h) pvs)) (\<lambda>ps.
      rbind (as_float h (get_default p ''coverage_gate'' (PFloat (FFin None ''0.85'')))) (\<lambda>g.
        suite_post_init \<lparr>intent_id = i, predicates = ps, coverage_gate = g,
          compiled_from = py_str h (get_default p ''compiled_from'' (PStr [])),
          compiler_version = py_str h version, prompt_digest = pd\<rparr>)))))))"

subsection \<open>Snapshots and results\<close>

record snapshot =
  files :: "(string, string) dict"
  metadata :: payload

record predicate_result =
  ok :: bool
  reason :: string
  ev_details :: payload

datatype eval_error = EvalAttributeError | EvalTypeError | CallableError string

text \<open>What importing \<open>module\<close> and taking \<open>attr\<close> gives; a callable may raise or return a value.\<close>

datatype call_outcome = Raised string | Returned pyval

datatype resolution =
    ImportFault string
  | OtherFault string
  | Callable "snapshot \<Rightarrow> call_outcome"

subsection \<open>Evaluators\<close>

definition quoted :: "string \<Rightarrow> string" where
  "quoted s = CHR 0x27 # s @ [CHR 0x27]"

text \<open>\<open>_meta\<close>.\<close>

definition meta :: "snapshot \<Rightarrow> string \<Rightarrow> payload" where
  "meta ws channel = (case get_default (metadata ws) channel (PDict []) of PDict p \<Rightarrow> p | _ \<Rightarrow> [])"

text \<open>The common shape of \<open>evaluate_pytest\<close>, \<open>evaluate_mypy\<close> and \<open>evaluate_hypothesis\<close>.\<close>

definition evaluate_recorded ::
    "host \<Rightarrow> string \<Rightarrow> string \<Rightarrow> string \<Rightarrow> string \<Rightarrow> payload \<Rightarrow> snapshot \<Rightarrow> eval_error + predicate_result" where
  "evaluate_recorded h channel what key subject missing_details ws =
    (case get_value (meta ws channel) subject of
       PNone \<Rightarrow> Inr \<lparr>ok = False,
         reason = ''no '' @ channel @ '' record for '' @ what @ '' '' @ host_repr h (PStr subject),
         ev_details = missing_details\<rparr>
     | PDict entry \<Rightarrow>
         (case get_default entry ''evidence'' (PDict []) of
            PDict extra \<Rightarrow> Inr \<lparr>ok = truthy (get_default entry ''ok'' (PBool False)),
              reason = py_str h (get_default entry ''reason'' (PStr [])),
              ev_details = foldl (\<lambda>d (k, v). AList.update k v d) [(KStr key, PStr subject)] extra\<rparr>
          | _ \<Rightarrow> Inl EvalTypeError)
     | _ \<Rightarrow> Inl EvalAttributeError)"

definition evaluate_pytest :: "host \<Rightarrow> string \<Rightarrow> snapshot \<Rightarrow> eval_error + predicate_result" where
  "evaluate_pytest h sel ws =
    evaluate_recorded h ''pytest'' ''selector'' ''selector'' sel [(KStr ''selector'', PStr sel)] ws"

definition evaluate_mypy :: "host \<Rightarrow> string \<Rightarrow> bool \<Rightarrow> snapshot \<Rightarrow> eval_error + predicate_result" where
  "evaluate_mypy h target strict ws =
    evaluate_recorded h ''mypy'' ''target'' ''target'' target
      [(KStr ''target'', PStr target), (KStr ''strict'', PBool strict)] ws"

definition evaluate_hypothesis :: "host \<Rightarrow> string \<Rightarrow> int \<Rightarrow> snapshot \<Rightarrow> eval_error + predicate_result" where
  "evaluate_hypothesis h target n ws =
    evaluate_recorded h ''hypothesis'' ''target'' ''target'' target
      [(KStr ''target'', PStr target), (KStr ''max_examples'', PInt n)] ws"

text \<open>\<open>_resolve_callable\<close>.\<close>

definition resolve_callable :: "(string \<Rightarrow> string \<Rightarrow> resolution) \<Rightarrow> string \<Rightarrow> resolution" where
  "resolve_callable import_attr ref =
    (if CHR '':'' \<in> set ref then
       import_attr (takeWhile (\<lambda>c. c \<noteq> CHR '':'') ref) (tl (dropWhile (\<lambda>c. c \<noteq> CHR '':'') ref))
     else if CHR ''.'' \<notin> set ref then ImportFault ''ValueError''
     else
       let parts = split_on (CHR ''.'') ref in import_attr (join ''.'' (butlast parts)) (last parts))"

definition evaluate_assertion ::
    "host \<Rightarrow> (string \<Rightarrow> string \<Rightarrow> resolution) \<Rightarrow> string \<Rightarrow> snapshot \<Rightarrow> eval_error + predicate_result" where
  "evaluate_assertion h import_attr ref ws =
    (let details = [(KStr ''callable_ref'', PStr ref)] in
     case resolve_callable import_attr ref of
       ImportFault exc \<Rightarrow> Inr \<lparr>ok = False,
         reason = ''could not resolve callable '' @ host_repr h (PStr ref) @ '': '' @ exc, ev_details = details\<rparr>
     | OtherFault exc \<Rightarrow> Inl (CallableError exc)
     | Callable f \<Rightarrow>
         (case f ws of
            Raised exc \<Rightarrow> Inr \<lparr>ok = False, reason = ''invariant callable raised: '' @ exc, ev_details = details\<rparr>
          | Returned v \<Rightarrow> Inr \<lparr>ok = truthy v,
              reason = (if truthy v then ''invariant callable returned True''
                        else ''invariant callable returned False''), ev_details = details\<rparr>))"

text \<open>\<open>_sidecar_path\<close>.\<close>

definition sidecar_path :: "string \<Rightarrow> string" where
  "sidecar_path path =
    (let parts = split_on (CHR ''/'') path in
     if CHR ''/'' \<in> set path
     then join ''/'' (butlast parts) @ ''/.'' @ last parts @ ''.rootknot.json''
     else ''.'' @ path @ ''.rootknot.json'')"

definition evaluate_artifact :: "host \<Rightarrow> string \<Rightarrow> bool \<Rightarrow> snapshot \<Rightarrow> eval_error + predicate_result" where
  "evaluate_artifact h path rk ws =
    (if map_of (files ws) path = None
     then Inr \<lparr>ok = False, reason = ''artifact '' @ host_repr h (PStr path) @ '' not present in snapshot'',
       ev_details = [(KStr ''path'', PStr path)]\<rparr>
     else if rk \<and> map_of (files ws) (sidecar_path path) = None
     then Inr \<lparr>ok = False,
       reason = ''rootknot sidecar '' @ host_repr h (PStr (sidecar_path path)) @ '' missing for artifact ''
         @ host_repr h (PStr path),
       ev_details = [(KStr ''path'', PStr path), (KStr ''sidecar'', PStr (sidecar_path path))]\<rparr>
     else Inr \<lparr>ok = True, reason = ''artifact '' @ host_repr h (PStr path) @ '' present'',
       ev_details = [(KStr ''path'', PStr path), (KStr ''must_have_rootknot'', PBool rk)]\<rparr>)"

definition changed_files :: "host \<Rightarrow> snapshot \<Rightarrow> (string list option) option" where
  "changed_files h ws =
    (case map_of (metadata ws) (KStr ''changed_files'') of
       None \<Rightarrow> Some None
     | Some v \<Rightarrow>
         (case iter_value (if truthy v then v else PList []) of
            None \<Rightarrow> None
          | Some ps \<Rightarrow> Some (Some (map (\<lambda>p. map (\<lambda>c. if c = CHR 0x5C then CHR ''/'' else c) (py_str h p)) ps))))"

definition evaluate_related_file_coverage ::
    "host \<Rightarrow> string \<Rightarrow> string \<Rightarrow> string \<Rightarrow> snapshot \<Rightarrow> eval_error + predicate_result" where
  "evaluate_related_file_coverage h src tgt why ws =
    (let globs = [(KStr ''source_glob'', PStr src), (KStr ''must_also_touch_glob'', PStr tgt)];
         hits = (\<lambda>xs. PList (map PStr xs)) in
     case changed_files h ws of
       None \<Rightarrow> Inl EvalTypeError
     | Some None \<Rightarrow> Inr \<lparr>ok = False, reason = ''no ws.metadata['' @ quoted ''changed_files''
         @ ''] channel; cannot evaluate related_file_coverage'', ev_details = globs\<rparr>
     | Some (Some changed) \<Rightarrow>
         let source_hits = fnmatch_hits changed src; target_hits = fnmatch_hits changed tgt in
         if source_hits = []
         then Inr \<lparr>ok = True, reason = ''no changes matching source_glob '' @ host_repr h (PStr src)
             @ ''; coupling vacuously satisfied'',
           ev_details = globs @ [(KStr ''source_hits'', PList []), (KStr ''target_hits'', PList [])]\<rparr>
         else if target_hits = []
         then Inr \<lparr>ok = False, reason = ''modified '' @ host_repr h (hits source_hits) @ '' but not ''
             @ host_repr h (PStr tgt),
           ev_details = globs @ [(KStr ''source_hits'', hits source_hits), (KStr ''target_hits'', PList []),
             (KStr ''rationale'', PStr why)]\<rparr>
         else Inr \<lparr>ok = True, reason = ''coupling satisfied: touched '' @ host_repr h (hits source_hits)
             @ '' and '' @ host_repr h (hits target_hits),
           ev_details = globs @ [(KStr ''source_hits'', hits source_hits), (KStr ''target_hits'', hits target_hits),
             (KStr ''rationale'', PStr why)]\<rparr>)"

fun evaluate_invocation ::
    "host \<Rightarrow> (string \<Rightarrow> string \<Rightarrow> resolution) \<Rightarrow> invocation \<Rightarrow> snapshot \<Rightarrow> eval_error + predicate_result" where
  "evaluate_invocation h imp (PytestInvocation sel _) ws = evaluate_pytest h sel ws"
| "evaluate_invocation h imp (MypyInvocation target strict) ws = evaluate_mypy h target strict ws"
| "evaluate_invocation h imp (HypothesisInvocation target n) ws = evaluate_hypothesis h target n ws"
| "evaluate_invocation h imp (AssertionInvocation ref) ws = evaluate_assertion h imp ref ws"
| "evaluate_invocation h imp (ArtifactInvocation path rk) ws = evaluate_artifact h path rk ws"
| "evaluate_invocation h imp (RelatedFileCoverageInvocation src tgt why) ws =
    evaluate_related_file_coverage h src tgt why ws"

definition evaluate ::
    "host \<Rightarrow> (string \<Rightarrow> string \<Rightarrow> resolution) \<Rightarrow> predicate \<Rightarrow> snapshot \<Rightarrow> eval_error + predicate_result" where
  "evaluate h imp p ws = evaluate_invocation h imp (invocation p) ws"

subsection \<open>Availability\<close>

text \<open>
  \<open>check_invocation_available\<close>. \<open>installed\<close> says which of \<open>pytest\<close>, \<open>mypy\<close> and \<open>hypothesis\<close>
  can be found; looking for \<open>hypothesis\<close> may itself fail, with the error's text.
\<close>

record verifiers =
  on_path :: "string \<Rightarrow> bool"
  hypothesis_spec :: "string + bool"

definition check_invocation_available ::
    "host \<Rightarrow> verifiers \<Rightarrow> (string \<Rightarrow> string \<Rightarrow> resolution) \<Rightarrow> invocation \<Rightarrow> string + bool \<times> string" where
  "check_invocation_available h vs imp ivc =
    (case ivc of
       PytestInvocation _ _ \<Rightarrow>
         Inr (if on_path vs ''pytest'' then (True, [])
              else (False, ''binary '' @ quoted ''pytest'' @ '' not on PATH''))
     | MypyInvocation _ _ \<Rightarrow>
         Inr (if on_path vs ''mypy'' then (True, [])
              else (False, ''binary '' @ quoted ''mypy'' @ '' not on PATH''))
     | HypothesisInvocation _ _ \<Rightarrow>
         Inr (case hypothesis_spec vs of
            Inl exc \<Rightarrow> (False, ''hypothesis package not importable: '' @ exc)
          | Inr found \<Rightarrow> if found then (True, []) else (False, ''hypothesis package not installed''))
     | AssertionInvocation ref \<Rightarrow>
         (case resolve_callable imp ref of
            ImportFault exc \<Rightarrow> Inr (False, ''callable_ref '' @ host_repr h (PStr ref) @ '' did not resolve: '' @ exc)
          | OtherFault exc \<Rightarrow> Inl exc
          | Callable _ \<Rightarrow> Inr (True, []))
     | ArtifactInvocation _ _ \<Rightarrow> Inr (True, [])
     | RelatedFileCoverageInvocation _ _ _ \<Rightarrow> Inr (True, []))"

definition available ::
    "host \<Rightarrow> verifiers \<Rightarrow> (string \<Rightarrow> string \<Rightarrow> resolution) \<Rightarrow> predicate \<Rightarrow> string + bool \<times> string" where
  "available h vs imp p = check_invocation_available h vs imp (invocation p)"

subsection \<open>Well-formed suites and the reader\<close>

definition wf_predicate :: "predicate \<Rightarrow> bool" where
  "wf_predicate p \<longleftrightarrow> length (pred_id p) = 16 \<and> (\<forall>d \<in> set (pred_depends_on p). length d = 16) \<and>
    pred_kind p = invocation_kind (invocation p)"

definition wf_suite :: "suite \<Rightarrow> bool" where
  "wf_suite s \<longleftrightarrow> length (intent_id s) = 16 \<and> in_unit_interval (coverage_gate s) \<and>
    compiler_version s \<in> set known_compiler_versions \<and>
    (\<forall>d. prompt_digest s = Some d \<longrightarrow> length d = 32) \<and>
    distinct (map pred_id (predicates s)) \<and> (\<forall>p \<in> set (predicates s). wf_predicate p)"

lemma predicate_post_init_iff: "predicate_post_init p = Inr q \<longleftrightarrow> q = p \<and> wf_predicate p"
  by (auto simp: predicate_post_init_def wf_predicate_def)

lemma first_duplicate_None: "first_duplicate seen xs = None \<longleftrightarrow> distinct xs \<and> set xs \<inter> set seen = {}"
  by (induction seen xs rule: first_duplicate.induct) auto

lemma suite_post_init_iff:
  "suite_post_init s = Inr q \<longleftrightarrow> q = s \<and> length (intent_id s) = 16 \<and> in_unit_interval (coverage_gate s) \<and>
    compiler_version s \<in> set known_compiler_versions \<and>
    (\<forall>d. prompt_digest s = Some d \<longrightarrow> length d = 32) \<and> distinct (map pred_id (predicates s))"
  using first_duplicate_None [of "[]" "map pred_id (predicates s)"]
  by (auto simp: suite_post_init_def split: option.splits if_splits)

lemma read_hex [simp]: "as_bytes h (PStr (hex b)) = Inr b"
  by (simp add: as_bytes_def)

lemma invocation_round_trip: "invocation_from_canonical h (invocation_to_canonical ivc) = Inr ivc"
  by (cases ivc) (simp_all add: invocation_from_canonical_def get_value_def get_default_def need_def as_int_def)

lemma predicate_round_trip:
  assumes "wf_predicate p"
  shows "predicate_from_canonical h (predicate_to_canonical p) = Inr p"
proof -
  have "sequence (map (as_bytes h) (map (\<lambda>d. PStr (hex d)) (pred_depends_on p))) = Inr (pred_depends_on p)"
    by (simp add: sequence_Inr_iff)
  moreover have "\<lparr>pred_id = pred_id p, pred_kind = pred_kind p, invocation = invocation p,
      required_flag = required_flag p, pred_depends_on = pred_depends_on p\<rparr> = p"
    by (rule predicate.equality) simp_all
  ultimately show ?thesis
    using assms
    by (simp add: predicate_from_canonical_def predicate_to_canonical_def need_def as_dict_def get_default_def
        as_list_def as_kind_def invocation_round_trip predicate_post_init_iff del: map_map)
      (simp add: wf_predicate_def)
qed

lemma suite_canonical_lookup:
  "map_of (suite_to_canonical s) (KStr ''compiler_version'') = Some (PStr (compiler_version s))"
  "map_of (suite_to_canonical s) (KStr ''compiled_from'') = Some (PStr (compiled_from s))"
  "map_of (suite_to_canonical s) (KStr ''coverage_gate'') = Some (PFloat (coverage_gate s))"
  "map_of (suite_to_canonical s) (KStr ''intent_id'') = Some (PStr (hex (intent_id s)))"
  "map_of (suite_to_canonical s) (KStr ''predicates'') = Some (PList (map predicate_to_canonical (predicates s)))"
  "map_of (suite_to_canonical s) (KStr ''prompt_digest'') = map_option (\<lambda>d. PStr (hex d)) (prompt_digest s)"
  by (simp_all add: suite_to_canonical_def split: option.splits)

lemma suite_round_trip:
  assumes "wf_suite s"
  shows "suite_from_canonical h (PDict (suite_to_canonical s)) = Inr s"
proof -
  have ps: "sequence (map (predicate_from_canonical h) (map predicate_to_canonical (predicates s))) = Inr (predicates s)"
    unfolding sequence_Inr_iff using assms by (simp add: wf_suite_def predicate_round_trip)
  have s: "\<lparr>intent_id = intent_id s, predicates = predicates s, coverage_gate = coverage_gate s,
      compiled_from = compiled_from s, compiler_version = compiler_version s, prompt_digest = prompt_digest s\<rparr> = s"
    by (rule suite.equality) simp_all
  have pd: "optional_bytes h (get_value (suite_to_canonical s) ''prompt_digest'') = Inr (prompt_digest s)"
    by (cases "prompt_digest s") (simp_all add: get_value_def get_default_def suite_canonical_lookup optional_bytes_def)
  have v: "get_value (suite_to_canonical s) ''compiler_version'' = PStr (compiler_version s)"
    by (simp add: get_value_def get_default_def suite_canonical_lookup)
  have "suite_post_init s = Inr s" using assms by (auto simp: wf_suite_def suite_post_init_iff)
  with assms show ?thesis
    unfolding suite_from_canonical_def
    by (simp add: as_dict_def Let_def pd v need_def get_default_def suite_canonical_lookup as_list_def as_float_def
        ps s wf_suite_def del: map_map)
qed

lemma predicate_from_canonical_wf: "predicate_from_canonical h v = Inr p \<Longrightarrow> wf_predicate p"
  by (auto simp: predicate_from_canonical_def result_simps predicate_post_init_iff)

lemma suite_from_canonical_wf:
  assumes "suite_from_canonical h v = Inr s"
  shows "wf_suite s"
proof -
  from assms obtain pvs where ps: "sequence (map (predicate_from_canonical h) pvs) = Inr (predicates s)"
    and post: "suite_post_init s = Inr s"
    by (auto simp: suite_from_canonical_def result_simps Let_def suite_post_init_iff split: if_splits)
  from ps have m: "map (predicate_from_canonical h) pvs = map Inr (predicates s)" by (simp only: sequence_Inr_iff)
  have "wf_predicate p" if "p \<in> set (predicates s)" for p
  proof -
    from that have "Inr p \<in> set (map (predicate_from_canonical h) pvs)" unfolding m by simp
    then obtain v where "predicate_from_canonical h v = Inr p" by auto
    then show ?thesis by (rule predicate_from_canonical_wf)
  qed
  with post show ?thesis by (auto simp: suite_post_init_iff wf_suite_def)
qed

subsection \<open>When a predicate is established\<close>

text \<open>
  What has to be there for a predicate to count as met, said without the evaluators: a record
  of its verifier run whose \<open>ok\<close> is truthy, a callable that returns a truthy value, a file
  with its sidecar, a change that touches the coupled file, too.
\<close>

definition recorded_ok :: "snapshot \<Rightarrow> string \<Rightarrow> string \<Rightarrow> bool" where
  "recorded_ok ws channel subject \<longleftrightarrow>
    (\<exists>ch entry v. map_of (metadata ws) (KStr channel) = Some (PDict ch) \<and>
      map_of ch (KStr subject) = Some (PDict entry) \<and> map_of entry (KStr ''ok'') = Some v \<and> truthy v \<and>
      (\<forall>e. map_of entry (KStr ''evidence'') = Some e \<longrightarrow> (\<exists>d. e = PDict d)))"

fun established :: "host \<Rightarrow> (string \<Rightarrow> string \<Rightarrow> resolution) \<Rightarrow> snapshot \<Rightarrow> invocation \<Rightarrow> bool" where
  "established h imp ws (PytestInvocation sel tmo) = recorded_ok ws ''pytest'' sel"
| "established h imp ws (MypyInvocation target strict) = recorded_ok ws ''mypy'' target"
| "established h imp ws (HypothesisInvocation target n) = recorded_ok ws ''hypothesis'' target"
| "established h imp ws (AssertionInvocation ref) =
    (\<exists>f v. resolve_callable imp ref = Callable f \<and> f ws = Returned v \<and> truthy v)"
| "established h imp ws (ArtifactInvocation path rk) =
    (path \<in> fst ` set (files ws) \<and> (rk \<longrightarrow> sidecar_path path \<in> fst ` set (files ws)))"
| "established h imp ws (RelatedFileCoverageInvocation src tgt why) =
    (\<exists>ch. changed_files h ws = Some (Some ch) \<and>
      ((\<exists>p. p \<in> set (fnmatch_hits ch src)) \<longrightarrow> (\<exists>p. p \<in> set (fnmatch_hits ch tgt))))"

lemma evaluate_recorded_ok:
  "(\<exists>r. evaluate_recorded h channel what key subject details ws = Inr r \<and> ok r) \<longleftrightarrow> recorded_ok ws channel subject"
proof (cases "map_of (metadata ws) (KStr channel)")
  case None
  then show ?thesis
    by (simp add: evaluate_recorded_def recorded_ok_def meta_def get_value_def get_default_def)
next
  case m: (Some c)
  show ?thesis
  proof (cases "\<exists>ch. c = PDict ch")
    case False
    with m have "meta ws channel = []" by (cases c) (simp_all add: meta_def get_default_def)
    with m False show ?thesis
      by (auto simp: evaluate_recorded_def recorded_ok_def get_value_def get_default_def)
  next
    case True
    then obtain ch where c: "c = PDict ch" by blast
    with m have meta: "meta ws channel = ch" by (simp add: meta_def get_default_def)
    show ?thesis
    proof (cases "\<exists>entry. map_of ch (KStr subject) = Some (PDict entry)")
      case False
      then show ?thesis
        by (cases "map_of ch (KStr subject)")
          (auto simp: evaluate_recorded_def recorded_ok_def m c meta get_value_def get_default_def split: pyval.splits)
    next
      case True
      then obtain entry where entry: "map_of ch (KStr subject) = Some (PDict entry)" by blast
      then have v: "get_value (meta ws channel) subject = PDict entry"
        by (simp add: meta get_value_def get_default_def)
      have t: "truthy (get_default entry ''ok'' (PBool False)) \<longleftrightarrow>
          (\<exists>v. map_of entry (KStr ''ok'') = Some v \<and> truthy v)"
        by (cases "map_of entry (KStr ''ok'')") (simp_all add: get_default_def)
      show ?thesis
        by (cases "map_of entry (KStr ''evidence'')")
          (auto simp: evaluate_recorded_def recorded_ok_def v m c entry t get_default_def [of entry "''evidence''"]
            split: pyval.splits)
    qed
  qed
qed

lemma evaluate_assertion_ok:
  "(\<exists>r. evaluate_assertion h imp ref ws = Inr r \<and> ok r) \<longleftrightarrow>
    (\<exists>f v. resolve_callable imp ref = Callable f \<and> f ws = Returned v \<and> truthy v)"
  by (cases "resolve_callable imp ref")
    (auto simp: evaluate_assertion_def Let_def split: call_outcome.splits)

lemma evaluate_artifact_ok:
  "(\<exists>r. evaluate_artifact h path rk ws = Inr r \<and> ok r) \<longleftrightarrow>
    path \<in> fst ` set (files ws) \<and> (rk \<longrightarrow> sidecar_path path \<in> fst ` set (files ws))"
  by (auto simp: evaluate_artifact_def map_of_eq_None_iff)

lemma evaluate_coverage_ok:
  "(\<exists>r. evaluate_related_file_coverage h src tgt why ws = Inr r \<and> ok r) \<longleftrightarrow>
    (\<exists>ch. changed_files h ws = Some (Some ch) \<and> (fnmatch_hits ch src \<noteq> [] \<longrightarrow> fnmatch_hits ch tgt \<noteq> []))"
proof (cases "changed_files h ws")
  case None
  then show ?thesis by (simp add: evaluate_related_file_coverage_def)
next
  case (Some o')
  then show ?thesis
    by (cases o') (simp_all add: evaluate_related_file_coverage_def Let_def)
qed

lemma evaluate_ok_iff: "(\<exists>r. evaluate h imp p ws = Inr r \<and> ok r) \<longleftrightarrow> established h imp ws (invocation p)"
proof -
  have ne: "(\<exists>p. p \<in> set xs) \<longleftrightarrow> xs \<noteq> []" for xs :: "string list" by (cases xs) auto
  show ?thesis
    by (cases "invocation p")
      (simp_all add: evaluate_def evaluate_pytest_def evaluate_mypy_def evaluate_hypothesis_def
        evaluate_recorded_ok evaluate_assertion_ok evaluate_artifact_ok evaluate_coverage_ok ne
        del: ex_in_conv)
qed

subsection \<open>Properties\<close>

text \<open>
  A suite survives its canonical form: what the reader makes of \<open>to_canonical\<close> of a
  well-formed suite is that suite, with its predicates, dependencies, digests and order.
\<close>

theorem suite_roundtrip:
  assumes "wf_suite s"
  shows "suite_from_canonical h (PDict (suite_to_canonical s)) = Inr s"
  using assms by (rule suite_round_trip)

definition demo_predicate :: predicate where
  "demo_predicate = \<lparr>pred_id = replicate 16 (CHR ''p''), pred_kind = ''artifact'',
    invocation = ArtifactInvocation ''a/b.py'' True, required_flag = True,
    pred_depends_on = [replicate 16 (CHR ''q'')]\<rparr>"

definition demo_suite :: suite where
  "demo_suite = \<lparr>intent_id = replicate 16 (CHR ''i''), predicates = [demo_predicate],
    coverage_gate = FFin None ''0.85'', compiled_from = ''text'', compiler_version = ''0.4.0'',
    prompt_digest = Some (replicate 32 (CHR ''d''))\<rparr>"

lemma demo_suite_wf: "wf_suite demo_suite"
  by (simp add: demo_suite_def demo_predicate_def wf_suite_def wf_predicate_def known_compiler_versions_def
      startswith_def)

theorem suite_roundtrip_witness:
  "suite_from_canonical demo_host (PDict (suite_to_canonical demo_suite)) = Inr demo_suite"
  using demo_suite_wf by (rule suite_roundtrip)

text \<open>
  C38. Whatever value the reader is given, the suite it returns is well-formed (16-byte
  identifiers, none of them twice, each kind the invocation's, a gate in the unit interval, a
  known compiler version, a 32-byte digest), and reading its canonical form again changes
  nothing; everything else is an error.
\<close>

theorem suite_reader_wf:
  assumes "suite_from_canonical h v = Inr s"
  shows "wf_suite s \<and> suite_from_canonical h (PDict (suite_to_canonical s)) = Inr s"
  using suite_from_canonical_wf [OF assms] suite_round_trip by blast

theorem suite_reader_wf_witness: "wf_suite demo_suite \<and> predicates demo_suite \<noteq> []"
  using suite_reader_wf [OF suite_round_trip [OF demo_suite_wf]] by (simp add: demo_suite_def)

text \<open>
  C35. A predicate is met exactly when the snapshot holds the evidence for it: a record of the
  verifier's run with a truthy \<open>ok\<close> under the predicate's own selector or target, an
  importable callable that returns a truthy value without raising, the file (with its sidecar
  where asked for), a change on both sides of the coupling or none on the source's side. A
  missing or malformed record never counts as met.
\<close>

theorem evaluate_by_evidence:
  "(\<exists>r. evaluate h imp p ws = Inr r \<and> ok r) \<longleftrightarrow> established h imp ws (invocation p)"
  by (rule evaluate_ok_iff)

end
