(* ===== verification/Holdout.thy ===== *)
theory Holdout
  imports Predicates
begin

section \<open>Held-out acceptance suites\<close>

text \<open>
  The model of \<open>src/ract/antilazy/holdout.py\<close>, except for the sealing of the held-out half:
  the dual suite with its construction checks, the limit on trivial compositions, the
  composition with its test that the proposal tells the workspace from a shuffled one, and
  the evaluation of both halves.

  The companion's \<open>compose\<close> is the argument \<open>compose\<close>. What the code takes from Python's
  random numbers and codecs is an argument, too: \<open>shuffle\<close> is \<open>Random.shuffle\<close> on the bytes
  of a text followed by decoding with replacement, threading the generator's state, and
  \<open>ratio\<close> the float division. Trace events and the redaction flag are left out.
\<close>

subsection \<open>Dual suites\<close>

record dual_suite =
  visible :: suite
  held_out :: suite
  held_out_digest :: string
  held_out_seal :: string
  holdout_kind :: string

definition dual_post_init :: "dual_suite \<Rightarrow> pred_error + dual_suite" where
  "dual_post_init d =
    (if intent_id (visible d) \<noteq> intent_id (held_out d) then Inl (PredValueError ''intent_id'')
     else if holdout_kind d \<notin> {''real'', ''trivial''} then Inl (PredValueError ''unknown holdout_kind'')
     else if holdout_kind d = ''trivial'' \<and> predicates (held_out d) \<noteq> []
     then Inl (PredValueError ''trivial held_out'')
     else Inr d)"

definition dual_required :: "dual_suite \<Rightarrow> predicate list" where
  "dual_required d = required (visible d) @ required (held_out d)"

subsection \<open>The limit on trivial compositions\<close>

record compilation_record =
  composer_name :: string
  composed_kind :: string

datatype holdout_error =
    TrivialRateCeilingExceeded
  | HoldoutEval eval_error
  | HoldoutSuite pred_error

definition default_trivial_rate_window :: int where
  "default_trivial_rate_window = 20"

definition enforce_trivial_rate_ceiling ::
    "(nat \<Rightarrow> nat \<Rightarrow> 'f :: ord) \<Rightarrow> compilation_record list \<Rightarrow> 'f \<Rightarrow> int \<Rightarrow> holdout_error + unit" where
  "enforce_trivial_rate_ceiling ratio history ceiling window =
    (if history = [] then Inr ()
     else
       let recent = (if 0 < window then drop (length history - nat window) history else history);
           trivial_count = length (filter (\<lambda>r. composed_kind r = ''trivial'') recent)
       in if recent = [] then Inr ()
          else if ratio trivial_count (length recent) \<le> ceiling then Inr ()
          else Inl TrivialRateCeilingExceeded)"

subsection \<open>Composition\<close>

text \<open>\<open>_perturb_snapshot\<close>: the touched files with a text, in the order of the dictionary.\<close>

fun perturb_files ::
    "('r \<Rightarrow> string \<Rightarrow> string \<times> 'r) \<Rightarrow> string list \<Rightarrow> 'r \<Rightarrow> (string, string) dict \<Rightarrow> (string, string) dict" where
  "perturb_files shuffle touched rng [] = []"
| "perturb_files shuffle touched rng ((path, text) # fs) =
    (if path \<notin> set touched \<or> text = [] then (path, text) # perturb_files shuffle touched rng fs
     else let (text', rng') = shuffle rng text in (path, text') # perturb_files shuffle touched rng' fs)"

definition perturb_snapshot ::
    "('r \<Rightarrow> string \<Rightarrow> string \<times> 'r) \<Rightarrow> 'r \<Rightarrow> snapshot \<Rightarrow> string list \<Rightarrow> snapshot" where
  "perturb_snapshot shuffle seed ws touched = ws\<lparr>files := perturb_files shuffle touched seed (files ws)\<rparr>"

fun some_differs ::
    "host \<Rightarrow> (string \<Rightarrow> string \<Rightarrow> resolution) \<Rightarrow> snapshot \<Rightarrow> snapshot \<Rightarrow> predicate list \<Rightarrow> holdout_error + bool" where
  "some_differs h imp ws ws' [] = Inr False"
| "some_differs h imp ws ws' (p # ps) =
    (case evaluate h imp p ws of
       Inl e \<Rightarrow> Inl (HoldoutEval e)
     | Inr original \<Rightarrow>
         (case evaluate h imp p ws' of
            Inl e \<Rightarrow> Inl (HoldoutEval e)
          | Inr shuffled \<Rightarrow> if ok original \<noteq> ok shuffled then Inr True else some_differs h imp ws ws' ps))"

definition is_non_trivial ::
    "host \<Rightarrow> (string \<Rightarrow> string \<Rightarrow> resolution) \<Rightarrow> ('r \<Rightarrow> string \<Rightarrow> string \<times> 'r) \<Rightarrow> 'r
      \<Rightarrow> suite \<Rightarrow> snapshot \<Rightarrow> string list \<Rightarrow> holdout_error + bool" where
  "is_non_trivial h imp shuffle seed s ws touched =
    (if predicates s = [] then Inr False
     else some_differs h imp ws (perturb_snapshot shuffle seed ws touched) (predicates s))"

text \<open>The held-out suite \<open>compose_held_out\<close> builds itself, with the constructor's checks.\<close>

definition build_suite :: "suite \<Rightarrow> holdout_error + suite" where
  "build_suite s = (case suite_post_init s of Inl e \<Rightarrow> Inl (HoldoutSuite e) | Inr s' \<Rightarrow> Inr s')"

definition empty_like :: "suite \<Rightarrow> suite" where
  "empty_like v = \<lparr>intent_id = intent_id v, predicates = [], coverage_gate = coverage_gate v,
    compiled_from = compiled_from v, compiler_version = compiler_version v, prompt_digest = None\<rparr>"

definition compose_held_out ::
    "host \<Rightarrow> (string \<Rightarrow> string \<Rightarrow> resolution) \<Rightarrow> ('r \<Rightarrow> string \<Rightarrow> string \<times> 'r) \<Rightarrow> 'r
      \<Rightarrow> (nat \<Rightarrow> nat \<Rightarrow> 'f :: ord) \<Rightarrow> (suite \<Rightarrow> snapshot \<Rightarrow> suite)
      \<Rightarrow> suite \<Rightarrow> snapshot \<Rightarrow> string list \<Rightarrow> compilation_record list \<Rightarrow> 'f \<Rightarrow> int
      \<Rightarrow> holdout_error + suite \<times> string" where
  "compose_held_out h imp shuffle seed ratio compose v ws touched history ceiling window =
    rbind (enforce_trivial_rate_ceiling ratio history ceiling window) (\<lambda>_.
    let offered = compose v ws in
    rbind (if intent_id offered \<noteq> intent_id v
           then build_suite \<lparr>intent_id = intent_id v, predicates = predicates offered,
             coverage_gate = coverage_gate offered, compiled_from = compiled_from offered,
             compiler_version = compiler_version offered, prompt_digest = None\<rparr>
           else Inr offered) (\<lambda>proposed.
    if predicates proposed = []
    then rbind (build_suite (empty_like v)) (\<lambda>e. Inr (e, ''trivial''))
    else rbind (is_non_trivial h imp shuffle seed proposed ws touched) (\<lambda>b.
      if \<not> b then rbind (build_suite (empty_like v)) (\<lambda>e. Inr (e, ''trivial''))
      else Inr (proposed, ''real''))))"

subsection \<open>Evaluation of both halves\<close>

record visible_holdout_outcome =
  visible_ok :: bool
  held_out_ok :: bool
  gap :: bool
  failing_visible :: "string list"
  failing_held_out :: "string list"

text \<open>The evaluation of every predicate of a list: the identifiers of those that fail.\<close>

fun failing ::
    "host \<Rightarrow> (string \<Rightarrow> string \<Rightarrow> resolution) \<Rightarrow> snapshot \<Rightarrow> predicate list \<Rightarrow> eval_error + string list" where
  "failing h imp ws [] = Inr []"
| "failing h imp ws (p # ps) =
    rbind (evaluate h imp p ws) (\<lambda>r.
    rbind (failing h imp ws ps) (\<lambda>ids. Inr (if ok r then ids else hex (pred_id p) # ids)))"

definition check_visible_and_held_out ::
    "host \<Rightarrow> (string \<Rightarrow> string \<Rightarrow> resolution) \<Rightarrow> dual_suite \<Rightarrow> snapshot \<Rightarrow> eval_error + visible_holdout_outcome" where
  "check_visible_and_held_out h imp d ws =
    rbind (failing h imp ws (required (visible d))) (\<lambda>fv.
    rbind (if holdout_kind d = ''real'' then failing h imp ws (required (held_out d)) else Inr []) (\<lambda>fh.
      Inr \<lparr>visible_ok = (fv = []), held_out_ok = (fh = []), gap = (fv = [] \<and> fh \<noteq> []),
        failing_visible = fv, failing_held_out = fh\<rparr>))"

subsection \<open>What the evaluations decide\<close>

lemma evaluate_ok: "evaluate h imp p ws = Inr r \<Longrightarrow> ok r \<longleftrightarrow> established h imp ws (invocation p)"
  using evaluate_ok_iff [of h imp p ws] by simp

lemma failing_ids:
  "failing h imp ws ps = Inr ids \<Longrightarrow>
    ids = map (\<lambda>p. hex (pred_id p)) (filter (\<lambda>p. \<not> established h imp ws (invocation p)) ps)"
  by (induction ps arbitrary: ids) (auto simp: result_simps dest: evaluate_ok)

lemma some_differs_iff:
  "some_differs h imp ws ws' ps = Inr b \<Longrightarrow>
    b \<longleftrightarrow> (\<exists>p \<in> set ps. established h imp ws (invocation p) \<noteq> established h imp ws' (invocation p))"
proof (induction ps)
  case (Cons p ps)
  from Cons.prems obtain r r' where r: "evaluate h imp p ws = Inr r" "evaluate h imp p ws' = Inr r'"
    by (auto split: sum.splits)
  from Cons evaluate_ok [OF r(1)] evaluate_ok [OF r(2)] show ?case by (auto simp: r split: if_splits)
qed simp

lemma dual_post_init_iff:
  "dual_post_init d = Inr d' \<longleftrightarrow> d' = d \<and> intent_id (visible d) = intent_id (held_out d) \<and>
    (holdout_kind d = ''real'' \<or> holdout_kind d = ''trivial'' \<and> predicates (held_out d) = [])"
  by (auto simp: dual_post_init_def)

lemma build_suite_Inr: "build_suite s = Inr s' \<Longrightarrow> s' = s"
  by (auto simp: build_suite_def suite_post_init_iff split: sum.splits)

subsection \<open>Properties\<close>

text \<open>
  A composed held-out suite always belongs to the visible one (the dual suite of the two
  is accepted, whatever its digest and seal), it is the companion's proposal exactly when one
  of the proposed predicates is met by only one of the workspace and its shuffled copy, and it
  is empty and marked trivial otherwise.
\<close>

theorem compose_held_out_outcome:
  assumes "compose_held_out h imp shuffle seed ratio compose v ws touched history ceiling window = Inr (s, k)"
  shows "is_ok (dual_post_init \<lparr>visible = v, held_out = s, held_out_digest = dg, held_out_seal = sl, holdout_kind = k\<rparr>) \<and>
    (k = ''real'' \<longleftrightarrow> (\<exists>p \<in> set (predicates (compose v ws)). established h imp ws (invocation p) \<noteq>
      established h imp (perturb_snapshot shuffle seed ws touched) (invocation p))) \<and>
    predicates s = (if k = ''real'' then predicates (compose v ws) else [])"
proof -
  let ?ws' = "perturb_snapshot shuffle seed ws touched"
  let ?D = "\<lambda>s. \<exists>p \<in> set (predicates s). established h imp ws (invocation p) \<noteq> established h imp ?ws' (invocation p)"
  let ?rebuilt = "\<lparr>intent_id = intent_id v, predicates = predicates (compose v ws),
    coverage_gate = coverage_gate (compose v ws), compiled_from = compiled_from (compose v ws),
    compiler_version = compiler_version (compose v ws), prompt_digest = None\<rparr>"
  from assms obtain q where q0: "(if intent_id (compose v ws) \<noteq> intent_id v then build_suite ?rebuilt
      else Inr (compose v ws)) = Inr q"
    and rest: "(if predicates q = [] then rbind (build_suite (empty_like v)) (\<lambda>e. Inr (e, ''trivial''))
      else rbind (is_non_trivial h imp shuffle seed q ws touched) (\<lambda>b.
        if \<not> b then rbind (build_suite (empty_like v)) (\<lambda>e. Inr (e, ''trivial'')) else Inr (q, ''real''))) = Inr (s, k)"
    unfolding compose_held_out_def rbind_Inr_iff Let_def by blast
  have q: "predicates q = predicates (compose v ws)" "intent_id q = intent_id v"
  proof -
    have "q = ?rebuilt \<or> intent_id (compose v ws) = intent_id v \<and> q = compose v ws"
      using q0 by (auto split: if_splits dest: build_suite_Inr)
    then show "predicates q = predicates (compose v ws)" "intent_id q = intent_id v" by auto
  qed
  show ?thesis
  proof (cases "k = ''real''")
    case True
    with rest have s: "s = q" and "predicates q \<noteq> []" and "is_non_trivial h imp shuffle seed q ws touched = Inr True"
      by (auto simp: result_simps split: if_splits)
    then have "?D q" using some_differs_iff by (auto simp: is_non_trivial_def)
    with True s q show ?thesis by (simp add: is_ok_iff dual_post_init_iff)
  next
    case False
    with rest have k: "k = ''trivial''" and s: "s = empty_like v"
      and n: "predicates q = [] \<or> is_non_trivial h imp shuffle seed q ws touched = Inr False"
      by (auto simp: result_simps dest: build_suite_Inr split: if_splits)
    have "\<not> ?D q"
    proof (cases "predicates q = []")
      case False
      with n have "some_differs h imp ws ?ws' (predicates q) = Inr False" by (simp add: is_non_trivial_def)
      from some_differs_iff [OF this] show ?thesis by simp
    qed simp
    with k s q show ?thesis by (simp add: is_ok_iff dual_post_init_iff empty_like_def)
  qed
qed

definition demo_file :: snapshot where
  "demo_file = \<lparr>files = [(''a/b.py'', ''xy''), (''a/.b.py.rootknot.json'', ''k'')], metadata = []\<rparr>"

definition content_check :: "string \<Rightarrow> string \<Rightarrow> resolution" where
  "content_check m a = Callable (\<lambda>ws. Returned (PBool (map_of (files ws) ''a/b.py'' = Some ''xy'')))"

definition content_predicate :: predicate where
  "content_predicate = \<lparr>pred_id = replicate 16 (CHR ''c''), pred_kind = ''invariant'',
    invocation = AssertionInvocation ''m:f'', required_flag = True, pred_depends_on = []\<rparr>"

theorem compose_held_out_outcome_witness:
  "established demo_host content_check demo_file (AssertionInvocation ''m:f'') \<noteq>
    established demo_host content_check (perturb_snapshot (\<lambda>r t. (rev t, r)) () demo_file [''a/b.py''])
      (AssertionInvocation ''m:f'')"
proof -
  have "compose_held_out demo_host content_check (\<lambda>r t. (rev t, r)) () (\<lambda>m n. m * 100 div n)
      (\<lambda>v ws. demo_suite\<lparr>predicates := [content_predicate]\<rparr>) demo_suite demo_file [''a/b.py''] [] 30 20
      = Inr (demo_suite\<lparr>predicates := [content_predicate]\<rparr>, ''real'')" by code_simp
  from compose_held_out_outcome [OF this] show ?thesis by (simp add: content_predicate_def)
qed

text \<open>
  The evaluation of an accepted dual suite names, in order, exactly the required
  predicates of each half that the snapshot does not establish, and reports the gap exactly
  when all of the visible half is established and something of the held-out half is not.
\<close>

theorem holdout_gap_exact:
  assumes "dual_post_init d = Inr d" and "check_visible_and_held_out h imp d ws = Inr out"
  shows "failing_visible out = map (\<lambda>p. hex (pred_id p))
        (filter (\<lambda>p. \<not> established h imp ws (invocation p)) (required (visible d))) \<and>
    failing_held_out out = map (\<lambda>p. hex (pred_id p))
        (filter (\<lambda>p. \<not> established h imp ws (invocation p)) (required (held_out d))) \<and>
    (gap out \<longleftrightarrow> (\<forall>p \<in> set (required (visible d)). established h imp ws (invocation p)) \<and>
      (\<exists>p \<in> set (required (held_out d)). \<not> established h imp ws (invocation p)))"
proof -
  from assms(2) obtain fv fh where fv: "failing h imp ws (required (visible d)) = Inr fv"
    and fh: "(if holdout_kind d = ''real'' then failing h imp ws (required (held_out d)) else Inr []) = Inr fh"
    and out: "failing_visible out = fv" "failing_held_out out = fh" "gap out \<longleftrightarrow> fv = [] \<and> fh \<noteq> []"
    unfolding check_visible_and_held_out_def rbind_Inr_iff by auto
  have "fh = map (\<lambda>p. hex (pred_id p)) (filter (\<lambda>p. \<not> established h imp ws (invocation p)) (required (held_out d)))"
  proof (cases "holdout_kind d = ''real''")
    case True
    with fh show ?thesis by (simp add: failing_ids)
  next
    case False
    with assms(1) have "required (held_out d) = []" by (simp add: dual_post_init_iff required_def)
    with False fh show ?thesis by simp
  qed
  with failing_ids [OF fv] out show ?thesis by (auto simp: filter_empty_conv)
qed

theorem holdout_gap_exact_witness:
  "\<not> established demo_host content_check (demo_file\<lparr>files := []\<rparr>) (AssertionInvocation ''m:f'')"
proof -
  let ?d = "\<lparr>visible = demo_suite\<lparr>predicates := []\<rparr>, held_out = demo_suite\<lparr>predicates := [content_predicate]\<rparr>,
    held_out_digest = [], held_out_seal = [], holdout_kind = ''real''\<rparr>"
  let ?out = "\<lparr>visible_ok = True, held_out_ok = False, gap = True, failing_visible = [],
    failing_held_out = [hex (replicate 16 (CHR ''c''))]\<rparr>"
  have "dual_post_init ?d = Inr ?d" by (simp add: dual_post_init_def)
  moreover have "check_visible_and_held_out demo_host content_check ?d (demo_file\<lparr>files := []\<rparr>) = Inr ?out"
    by code_simp
  ultimately have "gap ?out \<longleftrightarrow>
      (\<forall>p \<in> set (required (visible ?d)). established demo_host content_check (demo_file\<lparr>files := []\<rparr>) (invocation p)) \<and>
      (\<exists>p \<in> set (required (held_out ?d)). \<not> established demo_host content_check (demo_file\<lparr>files := []\<rparr>) (invocation p))"
    using holdout_gap_exact by blast
  then show ?thesis by (simp add: required_def content_predicate_def)
qed

end
