(* ===== verification/SuiteChain.thy ===== *)
theory SuiteChain
  imports Journal
begin

section \<open>The suite chain\<close>

text \<open>
  The model of \<open>src/ract/core/suite_chain.py\<close>: the append-only file
  \<open>suite_chain.jsonl\<close> with \<open>append\<close>, \<open>entries\<close>, \<open>latest\<close> and \<open>latest_prompt_digest\<close>. The
  clock (\<open>time.time_ns\<close>, used when the caller gives no timestamp) is an argument. The line
  format is an instance of \<open>jsonl\<close>; unlike the assumption log, the reader decodes each line
  by itself, so a line torn inside a character is dropped like any other torn tail.
\<close>

subsection \<open>Entries\<close>

record chain_entry =
  timestamp_ns :: int
  prompt_digest :: string
  suite_digest :: string
  rootknot_signature :: "string option"
  run_id :: string
  origin :: string

datatype chain_error =
    BadDigestLength nat
  | BadOrigin string
  | LineTooLong nat
  | ChainUnencodable jcs_error
  | SuiteChainLockContended nat
  | SuiteChainCorruptError string
  | NotAnInteger
  | ChainOsError os_error

definition chain_lock_retries :: nat where
  "chain_lock_retries = 3"

subsection \<open>Appending\<close>

definition chain_payload :: "chain_entry \<Rightarrow> payload" where
  "chain_payload e =
    [(KStr ''origin'', PStr (origin e)),
     (KStr ''prompt_digest'', PStr (hex (prompt_digest e))),
     (KStr ''rootknot_signature'', (case rootknot_signature e of None \<Rightarrow> PNone | Some s \<Rightarrow> PStr s)),
     (KStr ''run_id'', PStr (run_id e)),
     (KStr ''suite_digest'', PStr (suite_digest e)),
     (KStr ''timestamp_ns'', PInt (timestamp_ns e))]"

definition new_chain_entry ::
    "string \<Rightarrow> string \<Rightarrow> string \<Rightarrow> string \<Rightarrow> string option \<Rightarrow> int option \<Rightarrow> int \<Rightarrow> chain_entry" where
  "new_chain_entry pd sd rid org sig ts clock =
    \<lparr>timestamp_ns = (case ts of None \<Rightarrow> clock | Some t \<Rightarrow> t), prompt_digest = pd, suite_digest = sd,
     rootknot_signature = (case sig of None \<Rightarrow> None | Some b \<Rightarrow> if b = [] then None else Some (hex b)),
     run_id = rid, origin = org\<rparr>"

definition chain_append ::
    "(string \<Rightarrow> string) \<Rightarrow> (nat \<Rightarrow> bool) \<Rightarrow> string \<Rightarrow> string \<Rightarrow> string \<Rightarrow> string \<Rightarrow> string option
      \<Rightarrow> int option \<Rightarrow> int \<Rightarrow> disk_file \<Rightarrow> (chain_error + chain_entry) \<times> disk_file" where
  "chain_append nfc try_lock pd sd rid org sig ts clock f =
    (if length pd \<noteq> 32 then (Inl (BadDigestLength (length pd)), f)
     else if org \<noteq> ''initial'' \<and> org \<noteq> ''operator_recompile'' then (Inl (BadOrigin org), f)
     else
       let e = new_chain_entry pd sd rid org sig ts clock in
       case dumps_jcs nfc (PDict (chain_payload e)) of
         Inl err \<Rightarrow> (Inl (ChainUnencodable err), f)
       | Inr t \<Rightarrow>
           let line = t @ [newline] in
           if 1024 < length line then (Inl (LineTooLong (length line)), f)
           else case open_append f of
             Inl err \<Rightarrow> (Inl (ChainOsError err), f)
           | Inr g \<Rightarrow>
               if \<not> lock_exclusive try_lock chain_lock_retries
               then (Inl (SuiteChainLockContended chain_lock_retries), g)
               else (Inr e, write_end line g))"

subsection \<open>Reading\<close>

text \<open>One turn of the loop of \<open>entries\<close>.\<close>

definition chain_read_line ::
    "host \<Rightarrow> (string \<Rightarrow> pyfloat) \<Rightarrow> bool \<Rightarrow> string \<Rightarrow> chain_error + chain_entry option" where
  "chain_read_line h fl is_last line =
    (case (if utf8_valid line then json_loads fl line else None) of
       None \<Rightarrow>
         if is_last then Inr None else Inl (SuiteChainCorruptError ''malformed middle line'')
     | Some v \<Rightarrow>
         (case (case v of PDict p \<Rightarrow> if map_of p (KStr ''prompt_digest'') = None then None else Some p | _ \<Rightarrow> None) of
            None \<Rightarrow>
              if is_last then Inr None else Inl (SuiteChainCorruptError ''malformed middle payload'')
          | Some p \<Rightarrow>
              (case fromhex (py_str h (get_value p ''prompt_digest'')) of
                 None \<Rightarrow> Inl (SuiteChainCorruptError ''prompt_digest is not hex'')
               | Some pd \<Rightarrow>
                   (case py_int h (get_default p ''timestamp_ns'' (PInt 0)) of
                      None \<Rightarrow> Inl NotAnInteger
                    | Some ts \<Rightarrow>
                        Inr (Some \<lparr>timestamp_ns = ts, prompt_digest = pd,
                          suite_digest = py_str h (get_default p ''suite_digest'' (PStr [])),
                          rootknot_signature =
                            (case get_value p ''rootknot_signature'' of PNone \<Rightarrow> None | v \<Rightarrow> Some (py_str h v)),
                          run_id = py_str h (get_default p ''run_id'' (PStr [])),
                          origin = py_str h (get_default p ''origin'' (PStr ''initial''))\<rparr>)))))"

definition entries :: "host \<Rightarrow> (string \<Rightarrow> pyfloat) \<Rightarrow> disk_file \<Rightarrow> chain_error + chain_entry list" where
  "entries h fl f =
    (case f of
       Absent \<Rightarrow> Inr []
     | Directory \<Rightarrow> Inl (ChainOsError IsADirectory)
     | Unreadable _ \<Rightarrow> Inl (ChainOsError PermissionDenied)
     | Content raw \<Rightarrow>
         if raw = [] then Inr [] else read_all (chain_read_line h fl) (chain_lines raw))"

definition latest :: "host \<Rightarrow> (string \<Rightarrow> pyfloat) \<Rightarrow> disk_file \<Rightarrow> chain_error + chain_entry option" where
  "latest h fl f = rbind (entries h fl f) (\<lambda>rows. Inr (if rows \<noteq> [] then Some (last rows) else None))"

definition latest_prompt_digest ::
    "host \<Rightarrow> (string \<Rightarrow> pyfloat) \<Rightarrow> disk_file \<Rightarrow> chain_error + string option" where
  "latest_prompt_digest h fl f = rbind (latest h fl f) (\<lambda>l. Inr (map_option prompt_digest l))"

subsection \<open>The chain is a journal\<close>

text \<open>The entries the reader gives back as they are: their text is in NFC.\<close>

definition chain_stable :: "(string \<Rightarrow> string) \<Rightarrow> chain_entry \<Rightarrow> bool" where
  "chain_stable nfc e \<longleftrightarrow> nfc (suite_digest e) = suite_digest e \<and> nfc (run_id e) = run_id e \<and>
    nfc (origin e) = origin e \<and> (\<forall>s. rootknot_signature e = Some s \<longrightarrow> nfc s = s)"

definition chain_valid :: "(string \<Rightarrow> string) \<Rightarrow> chain_entry \<Rightarrow> string \<Rightarrow> bool" where
  "chain_valid nfc e t \<longleftrightarrow> normalises nfc \<and> chain_stable nfc e \<and> dumps_jcs nfc (PDict (chain_payload e)) = Inr t"

lemma chain_keys_sorted:
  "sorted [''origin'', ''prompt_digest'', ''rootknot_signature'', ''run_id'', ''suite_digest'', ''timestamp_ns'']"
  by code_simp

lemma chain_payload_canon:
  assumes "normalises nfc" and "chain_stable nfc e"
  shows "canon nfc (PDict (chain_payload e)) = PDict (chain_payload e)"
proof -
  have asc: "isascii k \<Longrightarrow> nfc k = k" for k using assms(1) by (simp add: normalises_def)
  have base: "map (\<lambda>(k, v). (nfc (key_str k), v)) (chain_payload e) =
      map (\<lambda>(k, v). (key_str k, v)) (chain_payload e)"
    by (simp add: chain_payload_def) (simp add: asc isascii_def)
  have "sorted_members nfc (chain_payload e) = map (\<lambda>(k, v). (key_str k, v)) (chain_payload e)"
    unfolding sorted_members_def base
    using chain_keys_sorted by (intro sort_key_id_if_sorted) (simp add: chain_payload_def)
  then show ?thesis
    using assms(2) asc [OF isascii_hex]
    unfolding canon_dict by (auto simp: chain_payload_def chain_stable_def split: option.splits)
qed

lemma chain_read_back:
  assumes "chain_valid nfc e t"
  shows "chain_read_line h fl l t = Inr (Some e)"
proof -
  from assms have t: "dumps_jcs nfc (PDict (chain_payload e)) = Inr t" and n: "normalises nfc"
    and s: "chain_stable nfc e" by (simp_all add: chain_valid_def)
  have ff: "float_free (PDict (chain_payload e))"
    by (auto simp: chain_payload_def split: option.splits)
  have "json_loads fl t = Some (PDict (chain_payload e))"
    using dumps_reads [OF t ff n, of fl] chain_payload_canon [OF n s] by simp
  moreover have "utf8_valid t" using t by (simp add: dumps_jcs_ok)
  ultimately show ?thesis
    by (cases e; cases "rootknot_signature e")
      (simp_all add: chain_read_line_def chain_payload_def get_value_def get_default_def)
qed

interpretation chain_log: jsonl "chain_read_line h fl" "chain_valid nfc" "\<lambda>e. e"
proof
  fix e t assume v: "chain_valid nfc e t"
  then have t: "dumps_jcs nfc (PDict (chain_payload e)) = Inr t" by (simp add: chain_valid_def)
  have "float_free (PDict (chain_payload e))"
    by (auto simp: chain_payload_def split: option.splits)
  with t show "t \<noteq> [] \<and> newline \<notin> set t"
    using dumps_no_newline [OF t] encode_dict_ok(1) [of nfc "chain_payload e" t] by (auto simp: dumps_jcs_ok)
  show "chain_read_line h fl l t = Inr (Some e)" for l by (rule chain_read_back [OF v])
next
  fix e p q assume v: "chain_valid nfc e (p @ q)" and q: "q \<noteq> []"
  have "float_free (PDict (chain_payload e))"
    by (auto simp: chain_payload_def split: option.splits)
  then have "json_loads fl p = None"
    using v q by (intro dumps_dict_prefix [of nfc "chain_payload e" p q]) (simp_all add: chain_valid_def)
  then show "chain_read_line h fl True p = Inr None" by (simp add: chain_read_line_def)
qed

text \<open>A chain file in which every line is a whole entry.\<close>

definition chain_holds :: "host \<Rightarrow> (string \<Rightarrow> pyfloat) \<Rightarrow> disk_file \<Rightarrow> chain_entry list \<Rightarrow> bool" where
  "chain_holds h fl f es =
    (case f of
       Absent \<Rightarrow> es = []
     | Content c \<Rightarrow> holds (chain_read_line h fl) c es
     | _ \<Rightarrow> False)"

lemma entries_content: "raw \<noteq> [] \<Longrightarrow> entries h fl (Content raw) = read_all (chain_read_line h fl) (split_lines raw)"
  by (simp add: entries_def chain_lines_eq)

lemma chain_holds_entries: "chain_holds h fl f es \<Longrightarrow> entries h fl f = Inr es"
proof (cases f)
  case (Content c)
  assume "chain_holds h fl f es"
  with Content have c: "holds (chain_read_line h fl) c es" by (simp add: chain_holds_def)
  show ?thesis
  proof (cases "c = []")
    case True
    with c show ?thesis by (simp add: Content entries_def holds_def reads_as_def)
  next
    case False
    with holds_read [OF c] show ?thesis by (simp add: Content entries_content)
  qed
qed (auto simp: chain_holds_def entries_def)

lemma chain_append_ok:
  assumes "chain_append nfc try_lock pd sd rid org sig ts clock f = (Inr e, f')"
  obtains t g where "e = new_chain_entry pd sd rid org sig ts clock" "length pd = 32"
    "org = ''initial'' \<or> org = ''operator_recompile''"
    "dumps_jcs nfc (PDict (chain_payload e)) = Inr t" "length (t @ [newline]) \<le> 1024"
    "open_append f = Inr g" "lock_exclusive try_lock chain_lock_retries" "f' = write_end (t @ [newline]) g"
proof -
  let ?e = "new_chain_entry pd sd rid org sig ts clock"
  obtain t where t: "dumps_jcs nfc (PDict (chain_payload ?e)) = Inr t"
    using assms by (cases "dumps_jcs nfc (PDict (chain_payload ?e))") (auto simp: chain_append_def Let_def split: if_splits)
  obtain g where g: "open_append f = Inr g"
    using assms t by (cases "open_append f") (auto simp: chain_append_def Let_def split: if_splits)
  from assms t g show ?thesis
    by (intro that [of t g]) (auto simp: chain_append_def Let_def split: if_splits)
qed

lemma open_append_chain:
  "chain_holds h fl f es \<Longrightarrow> open_append f = Inr g \<Longrightarrow> \<exists>c. g = Content c \<and> holds (chain_read_line h fl) c es"
  by (cases f) (auto simp: chain_holds_def holds_Nil)

subsection \<open>Properties\<close>

text \<open>
  A suite version that \<open>append\<close> reports as recorded is the latest one from then on: the
  entries are the earlier ones followed by it, and the digest compared with the current
  prompt is its digest. The entry was checked: a 32-byte digest, one of the two origins, and
  a line of at most 1024 bytes.
\<close>

theorem chain_append_visible:
  assumes "chain_append nfc try_lock pd sd rid org sig ts clock f = (Inr e, f')"
    and "chain_holds h fl f es" and "normalises nfc" and "chain_stable nfc e"
  shows "entries h fl f' = Inr (es @ [e]) \<and> latest h fl f' = Inr (Some e) \<and>
    latest_prompt_digest h fl f' = Inr (Some pd) \<and> chain_holds h fl f' (es @ [e]) \<and>
    length pd = 32 \<and> (org = ''initial'' \<or> org = ''operator_recompile'') \<and>
    (\<exists>c line. open_append f = Inr (Content c) \<and> f' = Content (c @ line) \<and> length line \<le> 1024)"
proof -
  from assms(1) obtain t g where e: "e = new_chain_entry pd sd rid org sig ts clock" and g1: "length pd = 32"
    "org = ''initial'' \<or> org = ''operator_recompile''"
    and t: "dumps_jcs nfc (PDict (chain_payload e)) = Inr t" and len: "length (t @ [newline]) \<le> 1024"
    and g: "open_append f = Inr g" and f': "f' = write_end (t @ [newline]) g"
    by (rule chain_append_ok)
  from open_append_chain [OF assms(2) g] obtain c where c: "g = Content c" "holds (chain_read_line h fl) c es"
    by blast
  have "chain_valid nfc e t" using assms(3,4) t by (simp add: chain_valid_def)
  from chain_log.holds_append [OF c(2) this] have h: "chain_holds h fl f' (es @ [e])"
    by (simp add: chain_holds_def f' c(1))
  have "prompt_digest e = pd" by (simp add: e new_chain_entry_def)
  with chain_holds_entries [OF h] h g1 len g c(1) f' show ?thesis
    by (auto simp: latest_def latest_prompt_digest_def)
qed

definition demo_digest :: string where
  "demo_digest = replicate 32 (CHR ''d'')"

definition demo_entry :: chain_entry where
  "demo_entry = new_chain_entry demo_digest ''s'' ''r'' ''initial'' None (Some 5) 0"

definition demo_line :: string where
  "demo_line = projr (dumps_jcs (\<lambda>s. s) (PDict (chain_payload demo_entry))) @ [newline]"

theorem chain_append_visible_witness:
  "latest demo_host (\<lambda>_. FNan) (Content demo_line) = Inr (Some demo_entry)"
proof -
  have "chain_append (\<lambda>s. s) (\<lambda>_. True) demo_digest ''s'' ''r'' ''initial'' None (Some 5) 0 Absent
      = (Inr demo_entry, Content demo_line)" by code_simp
  moreover have "chain_stable (\<lambda>s. s) demo_entry" by (simp add: chain_stable_def)
  moreover have "chain_holds demo_host (\<lambda>_. FNan) Absent []" by (simp add: chain_holds_def)
  ultimately show ?thesis using chain_append_visible normalises_id by blast
qed

text \<open>
  A writer killed after any number of bytes of its line, even inside a character, leaves a
  chain that reads as before, or with the new entry once all its text is there.
\<close>

theorem chain_torn_tail_dropped:
  assumes "chain_holds h fl (Content c) es" and "normalises nfc" and "chain_stable nfc e"
    and "dumps_jcs nfc (PDict (chain_payload e)) = Inr t"
  shows "entries h fl (Content (c @ take n (t @ [newline]))) = Inr (if n < length t then es else es @ [e])"
proof -
  have c: "holds (chain_read_line h fl) c es" using assms(1) by (simp add: chain_holds_def)
  have v: "chain_valid nfc e t" using assms(2-4) by (simp add: chain_valid_def)
  consider "n < length t" | "n = length t" | "length t < n" by linarith
  then show ?thesis
  proof cases
    case 1
    then have w: "chain_valid nfc e (take n t @ drop n t)" "drop n t \<noteq> []" using v by auto
    show ?thesis
    proof (cases "c @ take n t = []")
      case True
      with c 1 show ?thesis by (auto simp: entries_def holds_def reads_as_def)
    next
      case False
      with chain_log.holds_torn [OF c w] 1 show ?thesis by (simp add: entries_content)
    qed
  next
    case 2
    with chain_log.holds_unterminated [OF c v] chain_log.one_line [OF v] show ?thesis
      by (simp add: entries_content)
  next
    case 3
    have "chain_holds h fl (Content (c @ t @ [newline])) (es @ [e])"
      using chain_log.holds_append [OF c v] by (simp add: chain_holds_def)
    from chain_holds_entries [OF this] 3 show ?thesis by simp
  qed
qed

theorem chain_torn_tail_dropped_witness:
  "entries demo_host (\<lambda>_. FNan) (Content (take 20 demo_line)) = Inr []"
proof -
  obtain t where t: "dumps_jcs (\<lambda>s. s) (PDict (chain_payload demo_entry)) = Inr t" "20 < length t" "demo_line = t @ [newline]"
  proof -
    have "is_ok (dumps_jcs (\<lambda>s. s) (PDict (chain_payload demo_entry))) \<and>
      20 < length (projr (dumps_jcs (\<lambda>s. s) (PDict (chain_payload demo_entry))))" by code_simp
    then show ?thesis
      using that by (auto simp: is_ok_iff demo_line_def)
  qed
  have "chain_stable (\<lambda>s. s) demo_entry" by (simp add: chain_stable_def)
  from chain_torn_tail_dropped [of demo_host "\<lambda>_. FNan" "[]" "[]", OF _ normalises_id this t(1), of 20]
  show ?thesis using t(2,3) by (simp add: chain_holds_def holds_Nil)
qed

end
