(* ===== verification/Loop.thy ===== *)
theory Loop
  imports Holdout SuiteChain Assumptions
begin

section \<open>The recursion loop's termination causes and its entry\<close>

text \<open>
  The model of \<open>src/ract/core/loop.py\<close>: the causes T1 to T9 with their outcomes, the checks
  \<open>check_t1\<close> to \<open>check_t8\<close>, \<open>evaluate_termination\<close>, the construction checks of \<open>Budget\<close>,
  \<open>MilestoneReport\<close>, \<open>QualityScore\<close> and \<open>LoopState\<close>, and \<open>build_loop_state\<close>.

  A float is a value of any type with the comparisons and the subtraction the code applies,
  so nothing rests on exact arithmetic. SHA-256, the ambient run id and the pretty-printed
  text of the suite are arguments. The plan, the milestones and the other fields that none of
  these functions reads are left out, as are trace events and log messages.
\<close>

subsection \<open>Causes and outcomes\<close>

datatype termination_cause =
    COMPLETE
  | REGRESSED
  | PROVENANCE_FAILURE
  | ASSUMPTION_BURST
  | BUDGET_EXHAUSTED
  | HANDSHAKE_BLOCKED
  | PROVIDER_TIMEOUT
  | PROMPT_DRIFT
  | PROMPT_DIGEST_MISSING

fun cause_value :: "termination_cause \<Rightarrow> int" where
  "cause_value COMPLETE = 1"
| "cause_value REGRESSED = 2"
| "cause_value PROVENANCE_FAILURE = 3"
| "cause_value ASSUMPTION_BURST = 4"
| "cause_value BUDGET_EXHAUSTED = 5"
| "cause_value HANDSHAKE_BLOCKED = 6"
| "cause_value PROVIDER_TIMEOUT = 7"
| "cause_value PROMPT_DRIFT = 8"
| "cause_value PROMPT_DIGEST_MISSING = 9"

fun outcome_for :: "termination_cause \<Rightarrow> string \<times> int" where
  "outcome_for COMPLETE = (''done'', 0)"
| "outcome_for REGRESSED = (''failed'', 1)"
| "outcome_for PROVENANCE_FAILURE = (''refused'', 3)"
| "outcome_for ASSUMPTION_BURST = (''failed'', 1)"
| "outcome_for BUDGET_EXHAUSTED = (''budget'', 4)"
| "outcome_for HANDSHAKE_BLOCKED = (''refused'', 3)"
| "outcome_for PROVIDER_TIMEOUT = (''failed'', 6)"
| "outcome_for PROMPT_DRIFT = (''refused'', 3)"
| "outcome_for PROMPT_DIGEST_MISSING = (''refused'', 3)"

subsection \<open>State\<close>

datatype loop_error =
    LoopValueError string
  | LoopAttributeError string
  | EvalFault eval_error
  | SuiteFault pred_error
  | VerifierUnavailable string string string
  | ChainFault chain_error
  | LoopOsError os_error

record 'f loop_budget =
  max_iterations :: int
  wall_time_seconds :: 'f
  step_timeout_seconds :: 'f

definition loop_budget_post_init :: "('f :: {zero, ord}) loop_budget \<Rightarrow> loop_error + 'f loop_budget" where
  "loop_budget_post_init b =
    (if max_iterations b < 1 then Inl (LoopValueError ''max_iterations must be >= 1'')
     else if wall_time_seconds b \<le> 0 then Inl (LoopValueError ''wall_time_seconds must be > 0'')
     else if step_timeout_seconds b \<le> 0 then Inl (LoopValueError ''step_timeout_seconds must be > 0'')
     else Inr b)"

record 'f milestone_report =
  milestone_id :: string
  milestone_status :: string
  confidence :: 'f

definition milestone_report_post_init ::
    "('f :: {zero, one, ord}) milestone_report \<Rightarrow> loop_error + 'f milestone_report" where
  "milestone_report_post_init m =
    (if milestone_status m \<notin> {''verified'', ''pending'', ''blocked''}
     then Inl (LoopValueError ''Invalid milestone status'')
     else if \<not> (0 \<le> confidence m \<and> confidence m \<le> 1) then Inl (LoopValueError ''Confidence out of range'')
     else Inr m)"

record 'f quality_score =
  quality_value :: 'f
  quality_iteration :: int

definition quality_score_post_init ::
    "('f :: {zero, one, ord}) quality_score \<Rightarrow> loop_error + 'f quality_score" where
  "quality_score_post_init q =
    (if \<not> (0 \<le> quality_value q \<and> quality_value q \<le> 1) then Inl (LoopValueError ''QualityScore value out of range'')
     else Inr q)"

datatype any_suite = Plain suite | Dual dual_suite

fun required_of :: "any_suite \<Rightarrow> predicate list" where
  "required_of (Plain s) = required s"
| "required_of (Dual d) = dual_required d"

record handshake_item =
  handshake_id :: string
  handshake_status :: string

record 'f loop_state =
  workspace :: snapshot
  loop_suite :: any_suite
  loop_registry :: registry
  quality_history :: "'f quality_score list"
  iteration :: int
  loop_budget :: "'f loop_budget"
  handshakes :: "handshake_item list option"
  provenance_ok :: bool
  consecutive_timeouts :: int
  start_time :: 'f
  delta_regress :: 'f
  assumption_burst_threshold :: int
  blocking_handshakes :: "string list option"
  strict_prompt_digest :: bool
  current_intent_text :: "string option"
  last_chain_load_error :: "chain_error option"

text \<open>\<open>LoopState.__post_init__\<close>; \<open>default_handshakes\<close> is what a registry of \<open>"."\<close> holds.\<close>

definition loop_state_post_init :: "handshake_item list \<Rightarrow> 'f loop_state \<Rightarrow> loop_error + 'f loop_state" where
  "loop_state_post_init default_handshakes st =
    (let st' = (case handshakes st of None \<Rightarrow> st\<lparr>handshakes := Some default_handshakes\<rparr> | Some _ \<Rightarrow> st) in
     if required_of (loop_suite st') = [] then Inl (LoopValueError ''zero required predicates'')
     else Inr st')"

subsection \<open>The checks\<close>

text \<open>The evaluation of a list of predicates up to the first that is not ok.\<close>

fun all_ok ::
    "host \<Rightarrow> (string \<Rightarrow> string \<Rightarrow> resolution) \<Rightarrow> snapshot \<Rightarrow> predicate list \<Rightarrow> loop_error + bool" where
  "all_ok h imp ws [] = Inr True"
| "all_ok h imp ws (p # ps) =
    (case evaluate h imp p ws of
       Inl e \<Rightarrow> Inl (EvalFault e)
     | Inr r \<Rightarrow> if ok r then all_ok h imp ws ps else Inr False)"

definition check_t1 ::
    "host \<Rightarrow> (string \<Rightarrow> string \<Rightarrow> resolution) \<Rightarrow> any_suite \<Rightarrow> snapshot \<Rightarrow> loop_error + termination_cause option" where
  "check_t1 h imp s ws =
    (case s of
       Dual d \<Rightarrow>
         (case check_visible_and_held_out h imp d ws of
            Inl e \<Rightarrow> Inl (EvalFault e)
          | Inr out \<Rightarrow> Inr (if visible_ok out \<and> held_out_ok out then Some COMPLETE else None))
     | Plain s \<Rightarrow>
         if required s = [] then Inr None
         else rbind (all_ok h imp ws (required s)) (\<lambda>b. Inr (if b then Some COMPLETE else None)))"

definition check_t2 :: "('f :: {minus, ord}) quality_score list \<Rightarrow> 'f \<Rightarrow> termination_cause option" where
  "check_t2 hist delta =
    (case rev hist of
       qlast # qprev # rest \<Rightarrow>
         if delta < quality_value qprev - quality_value qlast then
           (case rest of
              qbefore # _ \<Rightarrow> if delta < quality_value qbefore - quality_value qprev then Some REGRESSED else None
            | [] \<Rightarrow> None)
         else None
     | _ \<Rightarrow> None)"

definition check_t3 :: "bool \<Rightarrow> termination_cause option" where
  "check_t3 prov = (if \<not> prov then Some PROVENANCE_FAILURE else None)"

definition check_t4 :: "registry \<Rightarrow> int \<Rightarrow> termination_cause option" where
  "check_t4 reg threshold =
    (if threshold < int (length (violated reg)) then Some ASSUMPTION_BURST else None)"

definition check_t5 ::
    "int \<Rightarrow> ('f :: {minus, ord}) loop_budget \<Rightarrow> 'f \<Rightarrow> 'f \<Rightarrow> termination_cause option" where
  "check_t5 it b start now =
    (if max_iterations b \<le> it then Some BUDGET_EXHAUSTED
     else if wall_time_seconds b \<le> now - start then Some BUDGET_EXHAUSTED
     else None)"

definition check_t6 :: "handshake_item list \<Rightarrow> string list option \<Rightarrow> termination_cause option" where
  "check_t6 items blocking =
    (let open_ids = map handshake_id (filter (\<lambda>i. handshake_status i = ''pending'') items) in
     if open_ids = [] then None
     else case blocking of
       None \<Rightarrow> Some HANDSHAKE_BLOCKED
     | Some ids \<Rightarrow> if \<exists>i \<in> set open_ids. i \<in> set ids then Some HANDSHAKE_BLOCKED else None)"

definition check_t7 :: "int \<Rightarrow> termination_cause option" where
  "check_t7 consecutive = (if 2 \<le> consecutive then Some PROVIDER_TIMEOUT else None)"

text \<open>
  \<open>compute_prompt_digest\<close> encodes the text, which fails on a lone surrogate. A dual suite
  has no attribute \<open>prompt_digest\<close>.
\<close>

definition check_t8 ::
    "(string \<Rightarrow> string) \<Rightarrow> any_suite \<Rightarrow> string \<Rightarrow> bool \<Rightarrow> loop_error + termination_cause option" where
  "check_t8 sha256 s intent strict =
    (case s of
       Dual _ \<Rightarrow> Inl (LoopAttributeError ''prompt_digest'')
     | Plain s \<Rightarrow>
         (case suite.prompt_digest s of
            None \<Rightarrow> Inr (if strict then Some PROMPT_DIGEST_MISSING else None)
          | Some d \<Rightarrow>
              if \<not> utf8_valid intent then Inl (LoopValueError ''UnicodeEncodeError'')
              else Inr (if sha256 intent \<noteq> d then Some PROMPT_DRIFT else None)))"

definition evaluate_termination ::
    "host \<Rightarrow> (string \<Rightarrow> string \<Rightarrow> resolution) \<Rightarrow> (string \<Rightarrow> string) \<Rightarrow> ('f :: {minus, ord}) loop_state \<Rightarrow> 'f
      \<Rightarrow> loop_error + termination_cause option" where
  "evaluate_termination h imp sha256 st now =
    rbind (check_t1 h imp (loop_suite st) (workspace st)) (\<lambda>t1.
      if t1 \<noteq> None then Inr t1 else
      let t2 = check_t2 (quality_history st) (delta_regress st) in if t2 \<noteq> None then Inr t2 else
      let t3 = check_t3 (provenance_ok st) in if t3 \<noteq> None then Inr t3 else
      let t4 = check_t4 (loop_registry st) (assumption_burst_threshold st) in if t4 \<noteq> None then Inr t4 else
      let t5 = check_t5 (iteration st) (loop_budget st) (start_time st) now in if t5 \<noteq> None then Inr t5 else
      let t6 = (case handshakes st of None \<Rightarrow> None | Some items \<Rightarrow> check_t6 items (blocking_handshakes st))
      in if t6 \<noteq> None then Inr t6 else
      let t7 = check_t7 (consecutive_timeouts st) in if t7 \<noteq> None then Inr t7 else
      case current_intent_text st of
        None \<Rightarrow> Inr None
      | Some intent \<Rightarrow> check_t8 sha256 (loop_suite st) intent (strict_prompt_digest st))"

subsection \<open>Loop entry\<close>

record run_dir =
  suite_json :: disk_file
  chain_file :: disk_file
  run_id_txt :: disk_file
  dir_name :: string

text \<open>The availability check of the required predicates.\<close>

fun check_verifiers ::
    "host \<Rightarrow> verifiers \<Rightarrow> (string \<Rightarrow> string \<Rightarrow> resolution) \<Rightarrow> predicate list \<Rightarrow> loop_error + unit" where
  "check_verifiers h vs imp [] = Inr ()"
| "check_verifiers h vs imp (p # ps) =
    (case available h vs imp p of
       Inl exc \<Rightarrow> Inl (VerifierUnavailable (hex (pred_id p)) (pred_kind p) (''availability check crashed: '' @ exc))
     | Inr (found, why) \<Rightarrow>
         if \<not> found then Inl (VerifierUnavailable (hex (pred_id p)) (pred_kind p) why)
         else check_verifiers h vs imp ps)"

text \<open>\<open>write_text\<close> on the suite's path.\<close>

fun write_text :: "disk_file \<Rightarrow> string \<Rightarrow> os_error + disk_file" where
  "write_text Directory t = Inl IsADirectory"
| "write_text (Unreadable _) t = Inr (Unreadable t)"
| "write_text _ t = Inr (Content t)"

text \<open>\<open>read_text().strip()\<close> of the marker file; an \<open>OSError\<close> falls back to the folder's name.\<close>

definition universal_newlines :: "string \<Rightarrow> string" where
  "universal_newlines t =
    replace_all [CHR 0x0D] [newline] (replace_all [CHR 0x0D, newline] [newline] t)"

definition entry_run_id :: "string option \<Rightarrow> run_dir \<Rightarrow> loop_error + string" where
  "entry_run_id ambient rd =
    (let first = (case ambient of None \<Rightarrow> [] | Some r \<Rightarrow> r) in
     if first \<noteq> [] then Inr first
     else case run_id_txt rd of
       Content t \<Rightarrow>
         if utf8_valid t
         then Inr (let m = py_strip (universal_newlines t) in if m = [] then dir_name rd else m)
         else Inl (LoopValueError ''UnicodeDecodeError'')
     | _ \<Rightarrow> Inr (dir_name rd))"

text \<open>
  The chain's entry 0: \<open>None\<close> when it is there or was recorded, the tolerated error
  otherwise; a corrupt chain and other errors are raised. The chain file may change even then.
\<close>

definition record_entry_zero ::
    "host \<Rightarrow> (string \<Rightarrow> pyfloat) \<Rightarrow> (string \<Rightarrow> string) \<Rightarrow> (string \<Rightarrow> string) \<Rightarrow> (nat \<Rightarrow> bool) \<Rightarrow> string option \<Rightarrow> int
      \<Rightarrow> suite \<Rightarrow> string \<Rightarrow> run_dir \<Rightarrow> (loop_error + chain_error option) \<times> run_dir" where
  "record_entry_zero h fl nfc sha256 try_lock ambient clock s pd rd =
    (let tolerate = (\<lambda>e. case e of
           SuiteChainLockContended _ \<Rightarrow> Inr (Some e)
         | ChainOsError _ \<Rightarrow> Inr (Some e)
         | _ \<Rightarrow> Inl (ChainFault e))
     in case entries h fl (chain_file rd) of
          Inl e \<Rightarrow> (tolerate e, rd)
        | Inr (row # rows) \<Rightarrow> (Inr None, rd)
        | Inr [] \<Rightarrow>
            (case entry_run_id ambient rd of
               Inl e \<Rightarrow> (Inl e, rd)
             | Inr rid \<Rightarrow>
                 (case Predicates.suite_digest nfc sha256 s of
                    Inl e \<Rightarrow> (Inl (ChainFault (ChainUnencodable e)), rd)
                  | Inr sd \<Rightarrow>
                      (case chain_append nfc try_lock pd sd rid ''initial'' None None clock (chain_file rd) of
                         (Inl e, f) \<Rightarrow> (tolerate e, rd\<lparr>chain_file := f\<rparr>)
                       | (Inr _, f) \<Rightarrow> (Inr None, rd\<lparr>chain_file := f\<rparr>)))))"

text \<open>
  \<open>build_loop_state\<close>; \<open>st\<close> carries the suite, the workspace and the other keyword arguments,
  \<open>rd\<close> is the run directory when one is given, \<open>pretty\<close> the text of \<open>suite.to_json()\<close>, which
  a dual suite does not have.
\<close>

definition build_loop_state ::
    "host \<Rightarrow> verifiers \<Rightarrow> (string \<Rightarrow> string \<Rightarrow> resolution) \<Rightarrow> (string \<Rightarrow> pyfloat) \<Rightarrow> (string \<Rightarrow> string)
      \<Rightarrow> (string \<Rightarrow> string) \<Rightarrow> (suite \<Rightarrow> string) \<Rightarrow> (nat \<Rightarrow> bool) \<Rightarrow> string option \<Rightarrow> int \<Rightarrow> handshake_item list
      \<Rightarrow> bool \<Rightarrow> 'f loop_state \<Rightarrow> run_dir option \<Rightarrow> (loop_error + 'f loop_state) \<times> run_dir option" where
  "build_loop_state h vs imp fl nfc sha256 pretty try_lock ambient clock default_handshakes skip st rd_opt =
    (case (if skip then Inr () else check_verifiers h vs imp (required_of (loop_suite st))) of
       Inl e \<Rightarrow> (Inl e, rd_opt)
     | Inr _ \<Rightarrow>
         (case rd_opt of
            None \<Rightarrow> (loop_state_post_init default_handshakes st, None)
          | Some rd \<Rightarrow>
              (case loop_suite st of
                 Dual _ \<Rightarrow> (Inl (LoopAttributeError ''to_json''), Some rd)
               | Plain s \<Rightarrow>
                   (case write_text (suite_json rd) (pretty s) of
                      Inl e \<Rightarrow> (Inl (LoopOsError e), Some rd)
                    | Inr f \<Rightarrow>
                        (let rd1 = rd\<lparr>suite_json := f\<rparr> in
                         case suite.prompt_digest s of
                           None \<Rightarrow> (loop_state_post_init default_handshakes st, Some rd1)
                         | Some pd \<Rightarrow>
                             (case record_entry_zero h fl nfc sha256 try_lock ambient clock s pd rd1 of
                                (Inl e, rd2) \<Rightarrow> (Inl e, Some rd2)
                              | (Inr err, rd2) \<Rightarrow>
                                  (loop_state_post_init default_handshakes
                                     (case err of None \<Rightarrow> st | Some e \<Rightarrow> st\<lparr>last_chain_load_error := Some e\<rparr>),
                                   Some rd2)))))))"

definition load_suite_from_run_dir :: "host \<Rightarrow> (string \<Rightarrow> pyfloat) \<Rightarrow> run_dir \<Rightarrow> loop_error + suite" where
  "load_suite_from_run_dir h fl rd =
    (case suite_json rd of
       Absent \<Rightarrow> Inl (LoopOsError FileNotFound)
     | Directory \<Rightarrow> Inl (LoopOsError IsADirectory)
     | Unreadable _ \<Rightarrow> Inl (LoopOsError PermissionDenied)
     | Content t \<Rightarrow>
         (if \<not> utf8_valid t then Inl (LoopValueError ''UnicodeDecodeError'')
          else case json_loads fl (universal_newlines t) of
            None \<Rightarrow> Inl (LoopValueError ''JSONDecodeError'')
          | Some v \<Rightarrow>
              (case suite_from_canonical h v of Inl e \<Rightarrow> Inl (SuiteFault e) | Inr s \<Rightarrow> Inr s)))"

subsection \<open>What makes each cause fire\<close>

text \<open>
  The conditions of the causes, said on the state and without the checks: every required
  predicate established, two losses of more than \<open>delta_regress\<close> in a row at the end of the
  history, an unmet provenance, a burst, a spent budget, an open handshake that blocks, two
  timeouts, and a text with another digest than the recorded one.
\<close>

definition all_established :: "host \<Rightarrow> (string \<Rightarrow> string \<Rightarrow> resolution) \<Rightarrow> 'f loop_state \<Rightarrow> bool" where
  "all_established h imp st \<longleftrightarrow>
    (\<forall>p \<in> set (required_of (loop_suite st)). established h imp (workspace st) (invocation p))"

definition regressed_twice :: "'f :: {minus, ord} \<Rightarrow> 'f quality_score list \<Rightarrow> bool" where
  "regressed_twice delta hist \<longleftrightarrow>
    (\<exists>qs a b c. hist = qs @ [a, b, c] \<and> delta < quality_value a - quality_value b \<and>
      delta < quality_value b - quality_value c)"

definition handshake_blocks :: "handshake_item list \<Rightarrow> string list option \<Rightarrow> bool" where
  "handshake_blocks items blocking \<longleftrightarrow>
    (\<exists>i \<in> set items. handshake_status i = ''pending'' \<and> (\<forall>ids. blocking = Some ids \<longrightarrow> handshake_id i \<in> set ids))"

fun recorded_digest :: "any_suite \<Rightarrow> string option" where
  "recorded_digest (Plain s) = suite.prompt_digest s"
| "recorded_digest (Dual d) = None"

fun fires ::
    "host \<Rightarrow> (string \<Rightarrow> string \<Rightarrow> resolution) \<Rightarrow> (string \<Rightarrow> string) \<Rightarrow> ('f :: {minus, ord}) loop_state \<Rightarrow> 'f
      \<Rightarrow> termination_cause \<Rightarrow> bool" where
  "fires h imp sha256 st now COMPLETE = all_established h imp st"
| "fires h imp sha256 st now REGRESSED = regressed_twice (delta_regress st) (quality_history st)"
| "fires h imp sha256 st now PROVENANCE_FAILURE = (\<not> provenance_ok st)"
| "fires h imp sha256 st now ASSUMPTION_BURST =
    (assumption_burst_threshold st < int (length (violated (loop_registry st))))"
| "fires h imp sha256 st now BUDGET_EXHAUSTED =
    (max_iterations (loop_budget st) \<le> iteration st \<or>
      wall_time_seconds (loop_budget st) \<le> now - start_time st)"
| "fires h imp sha256 st now HANDSHAKE_BLOCKED =
    (\<exists>items. handshakes st = Some items \<and> handshake_blocks items (blocking_handshakes st))"
| "fires h imp sha256 st now PROVIDER_TIMEOUT = (2 \<le> consecutive_timeouts st)"
| "fires h imp sha256 st now PROMPT_DRIFT =
    (\<exists>text d. current_intent_text st = Some text \<and> recorded_digest (loop_suite st) = Some d \<and> sha256 text \<noteq> d)"
| "fires h imp sha256 st now PROMPT_DIGEST_MISSING =
    (current_intent_text st \<noteq> None \<and> recorded_digest (loop_suite st) = None \<and> strict_prompt_digest st)"

text \<open>The states the loop works with: they passed the construction checks.\<close>

definition admitted :: "'f loop_state \<Rightarrow> bool" where
  "admitted st \<longleftrightarrow> is_ok (loop_state_post_init [] st) \<and>
    (\<forall>d. loop_suite st = Dual d \<longrightarrow> is_ok (dual_post_init d))"

lemma admitted_iff:
  "admitted st \<longleftrightarrow> required_of (loop_suite st) \<noteq> [] \<and> (\<forall>d. loop_suite st = Dual d \<longrightarrow> dual_post_init d = Inr d)"
proof -
  have "is_ok (dual_post_init d) \<longleftrightarrow> dual_post_init d = Inr d" for d
    by (auto simp: is_ok_iff dual_post_init_iff)
  then show ?thesis
    by (cases "handshakes st") (auto simp: admitted_def loop_state_post_init_def Let_def)
qed

lemma all_ok_iff: "all_ok h imp ws ps = Inr True \<longleftrightarrow> (\<forall>p \<in> set ps. established h imp ws (invocation p))"
proof (induction ps)
  case (Cons p ps)
  then show ?case
    using evaluate_ok_iff [of h imp p ws] by (cases "evaluate h imp p ws") auto
qed simp

lemma failing_Nil_iff: "failing h imp ws ps = Inr [] \<longleftrightarrow> (\<forall>p \<in> set ps. established h imp ws (invocation p))"
proof (induction ps)
  case (Cons p ps)
  show ?case
  proof (cases "evaluate h imp p ws")
    case (Inl e)
    then show ?thesis using evaluate_ok_iff [of h imp p ws] by auto
  next
    case (Inr r)
    then show ?thesis
      using Cons evaluate_ok [OF Inr] by (cases "failing h imp ws ps") (auto simp: result_simps)
  qed
qed simp

lemma check_t1_complete:
  assumes "admitted st"
  shows "check_t1 h imp (loop_suite st) (workspace st) = Inr (Some COMPLETE) \<longleftrightarrow> all_established h imp st"
proof (cases "loop_suite st")
  case (Plain s)
  with assms have "required s \<noteq> []" by (auto simp: admitted_iff)
  then show ?thesis
    by (auto simp: check_t1_def Plain all_established_def result_simps all_ok_iff [symmetric] split: if_splits)
next
  case (Dual d)
  with assms have d: "dual_post_init d = Inr d" by (simp add: admitted_iff)
  then have triv: "holdout_kind d \<noteq> ''real'' \<Longrightarrow> required (held_out d) = []"
    by (auto simp: dual_post_init_iff required_def)
  have "check_t1 h imp (Dual d) (workspace st) = Inr (Some COMPLETE) \<longleftrightarrow>
      failing h imp (workspace st) (required (visible d)) = Inr [] \<and>
      failing h imp (workspace st) (if holdout_kind d = ''real'' then required (held_out d) else []) = Inr []"
    by (cases "failing h imp (workspace st) (required (visible d))";
        cases "failing h imp (workspace st) (required (held_out d))")
      (auto simp: check_t1_def check_visible_and_held_out_def)
  with triv show ?thesis
    by (cases "holdout_kind d = ''real''")
      (auto simp: Dual all_established_def dual_required_def failing_Nil_iff)
qed

lemma check_t1_result: "check_t1 h imp s ws = Inr (Some c) \<Longrightarrow> c = COMPLETE"
  by (auto simp: check_t1_def result_simps split: any_suite.splits sum.splits if_splits)

lemma check_t2_iff: "check_t2 hist delta = (if regressed_twice delta hist then Some REGRESSED else None)"
proof -
  have r: "hist = qs @ [a, b, c] \<longleftrightarrow> rev hist = c # b # a # rev qs" for qs a b c
    by (metis append_Cons append_Nil rev.simps(2) rev_append rev_rev_ident append_assoc)
  have "regressed_twice delta hist \<longleftrightarrow>
      (\<exists>q b a c. rev hist = c # b # a # q \<and> delta < quality_value a - quality_value b \<and>
        delta < quality_value b - quality_value c)"
    unfolding regressed_twice_def r by (metis rev_rev_ident)
  then show ?thesis by (auto simp: check_t2_def split: list.splits)
qed

lemma check_t6_iff:
  "check_t6 items blocking = (if handshake_blocks items blocking then Some HANDSHAKE_BLOCKED else None)"
  by (cases blocking) (auto simp: check_t6_def handshake_blocks_def Let_def filter_empty_conv)

text \<open>The checks behind T1, as conditions on the state.\<close>

lemma evaluate_termination_code:
  "evaluate_termination h imp sha256 st now =
    rbind (check_t1 h imp (loop_suite st) (workspace st)) (\<lambda>t1.
      if t1 \<noteq> None then Inr t1
      else if fires h imp sha256 st now REGRESSED then Inr (Some REGRESSED)
      else if fires h imp sha256 st now PROVENANCE_FAILURE then Inr (Some PROVENANCE_FAILURE)
      else if fires h imp sha256 st now ASSUMPTION_BURST then Inr (Some ASSUMPTION_BURST)
      else if fires h imp sha256 st now BUDGET_EXHAUSTED then Inr (Some BUDGET_EXHAUSTED)
      else if fires h imp sha256 st now HANDSHAKE_BLOCKED then Inr (Some HANDSHAKE_BLOCKED)
      else if fires h imp sha256 st now PROVIDER_TIMEOUT then Inr (Some PROVIDER_TIMEOUT)
      else case current_intent_text st of
        None \<Rightarrow> Inr None
      | Some intent \<Rightarrow> check_t8 sha256 (loop_suite st) intent (strict_prompt_digest st))"
proof -
  have t6: "(case handshakes st of None \<Rightarrow> None | Some items \<Rightarrow> check_t6 items (blocking_handshakes st)) =
      (if fires h imp sha256 st now HANDSHAKE_BLOCKED then Some HANDSHAKE_BLOCKED else None)"
    by (cases "handshakes st") (simp_all add: check_t6_iff)
  have t5: "check_t5 (iteration st) (loop_budget st) (start_time st) now =
      (if fires h imp sha256 st now BUDGET_EXHAUSTED then Some BUDGET_EXHAUSTED else None)"
    by (simp add: check_t5_def)
  show ?thesis
    unfolding evaluate_termination_def t6 t5 check_t2_iff check_t3_def check_t4_def check_t7_def Let_def
    by (simp only: fires.simps if_distrib [of "\<lambda>x. x \<noteq> None"] option.distinct not_Some_eq if_True if_False
        not_not simp_thms cong: if_cong) (auto intro!: arg_cong [where f = "rbind _"])
qed

lemma check_t8_fires:
  assumes "check_t8 sha256 s text strict = Inr r" and "current_intent_text st = Some text"
    and "loop_suite st = s" and "strict_prompt_digest st = strict"
  shows "case r of
      None \<Rightarrow> \<not> fires h imp sha256 st now PROMPT_DRIFT \<and> \<not> fires h imp sha256 st now PROMPT_DIGEST_MISSING
    | Some c \<Rightarrow> fires h imp sha256 st now c \<and> (c = PROMPT_DRIFT \<or>
        c = PROMPT_DIGEST_MISSING \<and> \<not> fires h imp sha256 st now PROMPT_DRIFT)"
  using assms by (cases s) (auto simp: check_t8_def split: option.splits if_splits)

lemma all_causes:
  "(\<forall>c. P c) \<longleftrightarrow> P COMPLETE \<and> P REGRESSED \<and> P PROVENANCE_FAILURE \<and> P ASSUMPTION_BURST \<and>
    P BUDGET_EXHAUSTED \<and> P HANDSHAKE_BLOCKED \<and> P PROVIDER_TIMEOUT \<and> P PROMPT_DRIFT \<and> P PROMPT_DIGEST_MISSING"
  by (metis termination_cause.exhaust)

lemma first_cause:
  assumes "admitted st" and "evaluate_termination h imp sha256 st now = Inr r"
  shows "case r of
      None \<Rightarrow> \<forall>c. \<not> fires h imp sha256 st now c
    | Some c \<Rightarrow> fires h imp sha256 st now c \<and>
        (\<forall>c'. cause_value c' < cause_value c \<longrightarrow> \<not> fires h imp sha256 st now c')"
proof -
  let ?F = "fires h imp sha256 st now"
  from assms(2) obtain t1 where t1: "check_t1 h imp (loop_suite st) (workspace st) = Inr t1"
    unfolding evaluate_termination_code rbind_Inr_iff by blast
  note code = assms(2) [unfolded evaluate_termination_code t1 rbind_simps]
  show ?thesis
  proof (cases t1)
    case (Some c)
    with t1 have c: "c = COMPLETE" by (simp add: check_t1_result)
    with Some t1 have "?F COMPLETE" using check_t1_complete [OF assms(1), of h imp] by simp
    with Some c code have "r = Some COMPLETE" by simp
    with \<open>?F COMPLETE\<close> show ?thesis by (simp add: all_causes del: fires.simps)
  next
    case None
    with t1 have F1: "\<not> ?F COMPLETE" using check_t1_complete [OF assms(1), of h imp] by auto
    show ?thesis
    proof (cases "?F REGRESSED \<or> ?F PROVENANCE_FAILURE \<or> ?F ASSUMPTION_BURST \<or> ?F BUDGET_EXHAUSTED \<or>
        ?F HANDSHAKE_BLOCKED \<or> ?F PROVIDER_TIMEOUT")
      case True
      have "\<exists>c. r = Some c \<and> ?F c \<and> (\<forall>c'. cause_value c' < cause_value c \<longrightarrow> \<not> ?F c')"
        using code None F1 True unfolding all_causes
        by (auto simp del: fires.simps split: if_splits)
      then show ?thesis by auto
    next
      case False
      with code None have e: "(case current_intent_text st of None \<Rightarrow> Inr None
          | Some intent \<Rightarrow> check_t8 sha256 (loop_suite st) intent (strict_prompt_digest st)) = Inr r"
        by (simp del: fires.simps)
      show ?thesis
      proof (cases "current_intent_text st")
        case t: None
        with e have "r = None" by simp
        with False F1 t show ?thesis by (simp only: all_causes) (simp del: fires.simps(1,2,3,4,5,6,7))
      next
        case (Some intent)
        with e have "check_t8 sha256 (loop_suite st) intent (strict_prompt_digest st) = Inr r" by simp
        from check_t8_fires [OF this Some refl refl, of h imp now] False F1 show ?thesis
          by (cases r) (auto simp: all_causes simp del: fires.simps)
      qed
    qed
  qed
qed

lemma complete_iff:
  assumes "admitted st"
  shows "evaluate_termination h imp sha256 st now = Inr (Some COMPLETE) \<longleftrightarrow> all_established h imp st"
proof
  assume "evaluate_termination h imp sha256 st now = Inr (Some COMPLETE)"
  from first_cause [OF assms this] show "all_established h imp st" by simp
next
  assume "all_established h imp st"
  with check_t1_complete [OF assms, of h imp]
  have "check_t1 h imp (loop_suite st) (workspace st) = Inr (Some COMPLETE)" by simp
  then show "evaluate_termination h imp sha256 st now = Inr (Some COMPLETE)"
    by (simp add: evaluate_termination_code del: fires.simps)
qed

lemma exit_zero_iff: "snd (outcome_for c) = 0 \<longleftrightarrow> c = COMPLETE"
  by (cases c) simp_all

subsection \<open>Loop entry\<close>

lemma check_verifiers_refuses:
  assumes "\<exists>p \<in> set ps. \<forall>w. available h vs imp p \<noteq> Inr (True, w)"
  shows "\<exists>before p after why. ps = before @ p # after \<and>
    (\<forall>q \<in> set before. \<exists>w. available h vs imp q = Inr (True, w)) \<and>
    (\<forall>w. available h vs imp p \<noteq> Inr (True, w)) \<and>
    check_verifiers h vs imp ps = Inl (VerifierUnavailable (hex (pred_id p)) (pred_kind p) why)"
  using assms
proof (induction ps)
  case (Cons p ps)
  show ?case
  proof (cases "\<exists>w. available h vs imp p = Inr (True, w)")
    case True
    then obtain w where w: "available h vs imp p = Inr (True, w)" by blast
    with Cons.prems have "\<exists>p \<in> set ps. \<forall>w. available h vs imp p \<noteq> Inr (True, w)" by auto
    from Cons.IH [OF this] obtain before q after why where ih: "ps = before @ q # after"
      "\<forall>q \<in> set before. \<exists>w. available h vs imp q = Inr (True, w)"
      "\<forall>w. available h vs imp q \<noteq> Inr (True, w)"
      "check_verifiers h vs imp ps = Inl (VerifierUnavailable (hex (pred_id q)) (pred_kind q) why)" by blast
    with w have "p # ps = (p # before) @ q # after"
      "\<forall>q \<in> set (p # before). \<exists>w. available h vs imp q = Inr (True, w)"
      "check_verifiers h vs imp (p # ps) = Inl (VerifierUnavailable (hex (pred_id q)) (pred_kind q) why)" by auto
    with ih(3) show ?thesis by blast
  next
    case False
    then obtain why where "check_verifiers h vs imp (p # ps)
        = Inl (VerifierUnavailable (hex (pred_id p)) (pred_kind p) why)"
      by (cases "available h vs imp p") auto
    with False show ?thesis by (intro exI [of _ "[]"] exI [of _ p] exI [of _ ps] exI [of _ why]) auto
  qed
qed simp

lemma write_text_Inr: "write_text f t = Inr g \<Longrightarrow> g = Content t \<or> g = Unreadable t"
  by (cases f) auto

lemma suite_digest_hex: "Predicates.suite_digest nfc sha256 s = Inr sd \<Longrightarrow> \<exists>b. sd = hex b"
  by (auto simp: Predicates.suite_digest_def result_simps)

text \<open>What recording the entry leaves, when the chain held whole entries before.\<close>

lemma record_entry_zero_chain:
  assumes "record_entry_zero h fl nfc sha256 try_lock ambient clock s pd rd = (Inr err, rd')"
    and "chain_holds h fl (chain_file rd) es" and "normalises nfc"
    and "\<And>rid. entry_run_id ambient rd = Inr rid \<Longrightarrow> nfc rid = rid"
  shows "suite_json rd' = suite_json rd \<and>
    (err = None \<longrightarrow> (\<exists>e. entries h fl (chain_file rd') = Inr (if es = [] then [e] else es) \<and>
      (es = [] \<longrightarrow> chain_entry.prompt_digest e = pd \<and> origin e = ''initial'' \<and>
        Predicates.suite_digest nfc sha256 s = Inr (chain_entry.suite_digest e)))) \<and>
    (err \<noteq> None \<longrightarrow> es = [] \<and> entries h fl (chain_file rd') = Inr [])"
proof (cases es)
  case (Cons e es')
  from chain_holds_entries [OF assms(2)] assms(1) have "rd' = rd" "err = None"
    by (auto simp: record_entry_zero_def Cons Let_def)
  with chain_holds_entries [OF assms(2)] show ?thesis by (simp add: Cons)
next
  case Nil
  note en = chain_holds_entries [OF assms(2)]
  let ?put = "\<lambda>sd rid. chain_append nfc try_lock pd sd rid ''initial'' None None clock (chain_file rd)"
  from assms(1) en obtain rid sd r f where rid: "entry_run_id ambient rd = Inr rid"
    and sd: "Predicates.suite_digest nfc sha256 s = Inr sd" and put: "?put sd rid = (r, f)"
    and rd': "rd' = rd\<lparr>chain_file := f\<rparr>"
    and err: "(case r of Inl e \<Rightarrow> err = Some e \<and> (\<exists>x. e = SuiteChainLockContended x \<or> (\<exists>x. e = ChainOsError x)) | Inr _ \<Rightarrow> err = None)"
    by (auto simp: record_entry_zero_def Nil Let_def split: sum.splits prod.splits chain_error.splits)
  from suite_digest_hex [OF sd] obtain b where b: "sd = hex b" by blast
  have nsd: "nfc sd = sd" using assms(3) isascii_hex [of b] by (simp add: b normalises_def)
  show ?thesis
  proof (cases r)
    case (Inr e)
    with put have ap: "?put sd rid = (Inr e, f)" by simp
    then have e: "e = new_chain_entry pd sd rid ''initial'' None None clock" by (rule chain_append_ok)
    have "nfc ''initial'' = ''initial''" using assms(3) by (simp add: normalises_def isascii_def)
    with nsd assms(4) [OF rid] have st: "chain_stable nfc e" by (simp add: chain_stable_def e new_chain_entry_def)
    from ap obtain t g where t: "dumps_jcs nfc (PDict (chain_payload e)) = Inr t"
      and g: "open_append (chain_file rd) = Inr g" and f: "f = write_end (t @ [newline]) g"
      by (rule chain_append_ok)
    from open_append_chain [OF assms(2) g] obtain c where c: "g = Content c" "holds (chain_read_line h fl) c es"
      by blast
    have "chain_valid nfc e t" using st t assms(3) by (simp add: chain_valid_def)
    from chain_log.holds_append [OF c(2) this] have "chain_holds h fl f [e]"
      by (simp add: chain_holds_def f c(1) Nil)
    from chain_holds_entries [OF this] Inr err rd' sd show ?thesis
      by (simp add: Nil e new_chain_entry_def)
  next
    case (Inl x)
    have "chain_holds h fl f []"
    proof -
      have "f = chain_file rd \<or> open_append (chain_file rd) = Inr f"
        using put Inl by (auto simp: chain_append_def Let_def split: if_splits sum.splits)
      then show ?thesis
        using assms(2) open_append_chain [of h fl "chain_file rd" "[]" f] by (auto simp: Nil chain_holds_def)
    qed
    from chain_holds_entries [OF this] Inl err rd' show ?thesis by (simp add: Nil)
  qed
qed

lemma loop_state_post_init_error:
  "loop_state_post_init hs st = Inr st' \<Longrightarrow> last_chain_load_error st' = last_chain_load_error st"
  by (auto simp: loop_state_post_init_def Let_def split: option.splits if_splits)

subsection \<open>Properties\<close>


definition demo_loop :: "int loop_state" where
  "demo_loop = \<lparr>workspace = demo_file, loop_suite = Plain demo_suite,
    loop_registry = \<lparr>assumptions = [], wal = None\<rparr>,
    quality_history = [\<lparr>quality_value = 9, quality_iteration = 1\<rparr>, \<lparr>quality_value = 5, quality_iteration = 2\<rparr>,
      \<lparr>quality_value = 1, quality_iteration = 3\<rparr>],
    iteration = 3, loop_budget = \<lparr>max_iterations = 3, wall_time_seconds = 300, step_timeout_seconds = 60\<rparr>,
    handshakes = Some [], provenance_ok = True, consecutive_timeouts = 0, start_time = 0, delta_regress = 2,
    assumption_burst_threshold = 3, blocking_handshakes = None, strict_prompt_digest = False,
    current_intent_text = Some ''i'', last_chain_load_error = None\<rparr>"

lemma demo_loop_admitted: "admitted demo_loop" "admitted (demo_loop\<lparr>workspace := demo_file\<lparr>files := []\<rparr>\<rparr>)"
  by (simp_all add: admitted_iff demo_loop_def demo_suite_def demo_predicate_def required_def)


text \<open>
  The reported cause is the first that holds: its condition on the state is met and none
  of a smaller number is, so a completed, failed or exhausted run is never reported as prompt
  drift; and the loop goes on only when no condition is met.
\<close>

theorem first_cause_reported:
  assumes "admitted st" and "evaluate_termination h imp sha256 st now = Inr r"
  shows "case r of
      None \<Rightarrow> \<forall>c. \<not> fires h imp sha256 st now c
    | Some c \<Rightarrow> fires h imp sha256 st now c \<and>
        (\<forall>c'. cause_value c' < cause_value c \<longrightarrow> \<not> fires h imp sha256 st now c')"
  using assms by (rule first_cause)

theorem first_cause_reported_witness:
  "regressed_twice (delta_regress demo_loop) (quality_history demo_loop)"
proof -
  have "evaluate_termination demo_host content_check (\<lambda>t. t) (demo_loop\<lparr>workspace := demo_file\<lparr>files := []\<rparr>\<rparr>) 5
      = Inr (Some REGRESSED)" by code_simp
  from first_cause_reported [OF demo_loop_admitted(2) this] show ?thesis by (simp add: demo_loop_def)
qed

text \<open>
  A suite with a required predicate whose verifier is not available never enters the
  loop: the error names the first such predicate, its kind and the reason, and nothing of the
  run directory has been written.
\<close>

theorem loop_entry_refused:
  assumes "\<exists>p \<in> set (required_of (loop_suite st)). \<forall>w. available h vs imp p \<noteq> Inr (True, w)"
  shows "\<exists>before p after why. required_of (loop_suite st) = before @ p # after \<and>
    (\<forall>q \<in> set before. \<exists>w. available h vs imp q = Inr (True, w)) \<and>
    (\<forall>w. available h vs imp p \<noteq> Inr (True, w)) \<and>
    build_loop_state h vs imp fl nfc sha256 pretty try_lock ambient clock hs False st rd =
      (Inl (VerifierUnavailable (hex (pred_id p)) (pred_kind p) why), rd)"
proof -
  from check_verifiers_refuses [OF assms] obtain before p after why where
    v: "check_verifiers h vs imp (required_of (loop_suite st)) = Inl (VerifierUnavailable (hex (pred_id p)) (pred_kind p) why)"
    and rest: "required_of (loop_suite st) = before @ p # after"
    "\<forall>q \<in> set before. \<exists>w. available h vs imp q = Inr (True, w)" "\<forall>w. available h vs imp p \<noteq> Inr (True, w)"
    by blast
  have "build_loop_state h vs imp fl nfc sha256 pretty try_lock ambient clock hs False st rd =
      (Inl (VerifierUnavailable (hex (pred_id p)) (pred_kind p) why), rd)"
    by (simp add: build_loop_state_def v)
  with rest show ?thesis by blast
qed

definition demo_tools :: verifiers where
  "demo_tools = \<lparr>on_path = (\<lambda>b. False), hypothesis_spec = Inr False\<rparr>"

definition pytest_predicate :: predicate where
  "pytest_predicate = \<lparr>pred_id = replicate 16 (CHR ''t''), pred_kind = ''test'',
    invocation = PytestInvocation ''tests'' 60, required_flag = True, pred_depends_on = []\<rparr>"

theorem loop_entry_refused_witness:
  "\<not> is_ok (fst (build_loop_state demo_host demo_tools content_check (\<lambda>_. FNan) (\<lambda>s. s) (\<lambda>s. s) (\<lambda>_. [])
    (\<lambda>_. True) None 0 [] False (demo_loop\<lparr>loop_suite := Plain (demo_suite\<lparr>predicates := [pytest_predicate]\<rparr>)\<rparr>) None))"
proof -
  let ?st = "demo_loop\<lparr>loop_suite := Plain (demo_suite\<lparr>predicates := [pytest_predicate]\<rparr>)\<rparr>"
  have "\<exists>p \<in> set (required_of (loop_suite ?st)). \<forall>w. available demo_host demo_tools content_check p \<noteq> Inr (True, w)"
    by (simp add: required_def pytest_predicate_def available_def check_invocation_available_def demo_tools_def)
  from loop_entry_refused [OF this, of "\<lambda>_. FNan" "\<lambda>s. s" "\<lambda>s. s" "\<lambda>_. []" "\<lambda>_. True" None 0 "[]" None]
  show ?thesis by auto
qed

text \<open>
  A loop state built over a run directory comes with its record: the suite is on disk as
  it is, and, when it binds a prompt digest and the state carries no chain error, the chain
  has at least one entry: the earlier ones untouched, or entry 0 with this digest, the suite's
  own digest and the origin \<open>initial\<close>. An error the code tolerates (a held lock) is on the
  state, and the chain has no entry yet.
\<close>

theorem loop_entry_recorded:
  assumes "build_loop_state h vs imp fl nfc sha256 pretty try_lock ambient clock hs skip st (Some rd) = (Inr st', Some rd')"
    and "loop_suite st = Plain s" and "suite.prompt_digest s = Some d" and "last_chain_load_error st = None"
    and "chain_holds h fl (chain_file rd) es" and "normalises nfc"
    and "\<And>rid. entry_run_id ambient rd = Inr rid \<Longrightarrow> nfc rid = rid"
  shows "(suite_json rd' = Content (pretty s) \<or> suite_json rd' = Unreadable (pretty s)) \<and>
    (last_chain_load_error st' = None \<longrightarrow>
      (\<exists>e. entries h fl (chain_file rd') = Inr (if es = [] then [e] else es) \<and>
        (es = [] \<longrightarrow> chain_entry.prompt_digest e = d \<and> origin e = ''initial'' \<and>
          Predicates.suite_digest nfc sha256 s = Inr (chain_entry.suite_digest e)))) \<and>
    (last_chain_load_error st' \<noteq> None \<longrightarrow> es = [] \<and> entries h fl (chain_file rd') = Inr [])"
proof -
  from assms(1-3) obtain f err rd2 where f: "write_text (suite_json rd) (pretty s) = Inr f"
    and rec: "record_entry_zero h fl nfc sha256 try_lock ambient clock s d (rd\<lparr>suite_json := f\<rparr>) = (Inr err, rd2)"
    and st': "loop_state_post_init hs (case err of None \<Rightarrow> st | Some e \<Rightarrow> st\<lparr>last_chain_load_error := Some e\<rparr>) = Inr st'"
    and rd': "rd' = rd2"
    by (auto simp: build_loop_state_def Let_def split: sum.splits prod.splits)
  have "last_chain_load_error st' = err"
    using loop_state_post_init_error [OF st'] assms(4) by (cases err) simp_all
  moreover have "entry_run_id ambient (rd\<lparr>suite_json := f\<rparr>) = entry_run_id ambient rd"
    by (cases "run_id_txt rd") (simp_all add: entry_run_id_def Let_def)
  ultimately show ?thesis
    using record_entry_zero_chain [OF rec, of es] assms(5-7) write_text_Inr [OF f] by (simp add: rd')
qed

definition demo_run_dir :: run_dir where
  "demo_run_dir = \<lparr>suite_json = Absent, chain_file = Absent, run_id_txt = Absent, dir_name = ''r''\<rparr>"

theorem loop_entry_recorded_witness:
  "\<exists>st rd e. build_loop_state demo_host demo_tools content_check (\<lambda>_. FNan) (\<lambda>s. s) (\<lambda>s. ''d'') (\<lambda>_. ''{}'')
      (\<lambda>_. True) None 0 [] False demo_loop (Some demo_run_dir) = (Inr st, Some rd) \<and>
    entries demo_host (\<lambda>_. FNan) (chain_file rd) = Inr [e] \<and> origin e = ''initial''"
proof -
  let ?b = "build_loop_state demo_host demo_tools content_check (\<lambda>_. FNan) (\<lambda>s. s) (\<lambda>s. ''d'') (\<lambda>_. ''{}'')
      (\<lambda>_. True) None 0 [] False demo_loop (Some demo_run_dir)"
  have b0: "(case ?b of (Inr st', Some _) \<Rightarrow> last_chain_load_error st' = None | _ \<Rightarrow> False)"
    by code_simp
  then obtain st' rd' where b: "?b = (Inr st', Some rd')" and e: "last_chain_load_error st' = None"
    by (cases ?b; cases "fst ?b"; cases "snd ?b") auto
  have "loop_suite demo_loop = Plain demo_suite" "suite.prompt_digest demo_suite = Some (replicate 32 (CHR ''d''))"
    "last_chain_load_error demo_loop = None" "chain_holds demo_host (\<lambda>_. FNan) (chain_file demo_run_dir) []"
    by (simp_all add: demo_loop_def demo_suite_def chain_holds_def demo_run_dir_def)
  from loop_entry_recorded [OF b this normalises_id] e b show ?thesis by auto
qed

text \<open>
  A dual suite, which the compiler makes whenever it has a companion, cannot enter a loop
  that records its run: \<open>build_loop_state\<close> with a run directory never succeeds on one, and an
  evaluation that reaches the prompt check fails on one.
\<close>

theorem dual_suite_never_recorded:
  assumes "loop_suite st = Dual d"
  shows "\<not> is_ok (fst (build_loop_state h vs imp fl nfc sha256 pretty try_lock ambient clock hs skip st (Some rd))) \<and>
    snd (build_loop_state h vs imp fl nfc sha256 pretty try_lock ambient clock hs skip st (Some rd)) = Some rd \<and>
    (current_intent_text st \<noteq> None \<longrightarrow> evaluate_termination h imp sha256 st now \<noteq> Inr None)"
  using assms
  by (auto simp: build_loop_state_def evaluate_termination_code check_t8_def result_simps
    simp del: fires.simps split: sum.splits if_splits)

theorem dual_suite_never_recorded_witness:
  "\<not> is_ok (fst (build_loop_state demo_host demo_tools content_check (\<lambda>_. FNan) (\<lambda>s. s) (\<lambda>s. s) (\<lambda>_. [])
    (\<lambda>_. True) None 0 [] True (demo_loop\<lparr>loop_suite := Dual \<lparr>visible = demo_suite,
      held_out = demo_suite\<lparr>predicates := []\<rparr>, held_out_digest = [], held_out_seal = [],
      holdout_kind = ''trivial''\<rparr>\<rparr>) (Some demo_run_dir)))"
  by (rule conjunct1 [OF dual_suite_never_recorded]) simp

end
