(* ===== verification/Ancestry.thy ===== *)
theory Ancestry
  imports Journal
begin

section \<open>The ancestry chain of workspace snapshots\<close>

text \<open>
  The model of the class \<open>WorkspaceDigestChain\<close> of \<open>src/ract/core/workspace_digest.py\<close>: the
  append-only file \<open>workspace_chain.jsonl\<close> of edges from a snapshot's digest to its parent's,
  with \<open>append\<close>, \<open>edges\<close>, \<open>parent_of\<close> and \<open>is_ancestor\<close>. The ambient run id is an
  argument. The line format is an instance of \<open>jsonl\<close>. A value read back as a parent may be
  any JSON value; one that cannot be hashed makes the walk fail.
\<close>

subsection \<open>Edges\<close>

record chain_edge =
  child :: string
  parent :: pyval
  edge_run_id :: "string option"

datatype edge_error =
    EdgeUnencodable jcs_error
  | EdgeTooLong nat
  | WorkspaceChainLockContended nat
  | WorkspaceChainCorruptError string
  | EdgeOsError os_error
  | Unhashable

text \<open>A digest is given as bytes or as text.\<close>

datatype digest_arg = DigestBytes string | DigestText string

fun digest_text :: "digest_arg \<Rightarrow> string" where
  "digest_text (DigestBytes b) = hex b"
| "digest_text (DigestText s) = s"

definition edge_lock_retries :: nat where
  "edge_lock_retries = 3"

definition max_edge_line_bytes :: nat where
  "max_edge_line_bytes = 512"

subsection \<open>Appending\<close>

definition new_edge :: "digest_arg \<Rightarrow> digest_arg option \<Rightarrow> string option \<Rightarrow> string option \<Rightarrow> chain_edge" where
  "new_edge c p run ambient =
    \<lparr>child = digest_text c, parent = (case p of None \<Rightarrow> PNone | Some d \<Rightarrow> PStr (digest_text d)),
     edge_run_id = (case run of None \<Rightarrow> ambient | Some r \<Rightarrow> Some r)\<rparr>"

definition edge_payload :: "chain_edge \<Rightarrow> payload" where
  "edge_payload e = [(KStr ''child'', PStr (child e)), (KStr ''parent'', parent e)]
    @ (case edge_run_id e of None \<Rightarrow> [] | Some r \<Rightarrow> [(KStr ''run_id'', PStr r)])"

definition canonical_edge_line :: "(string \<Rightarrow> string) \<Rightarrow> payload \<Rightarrow> edge_error + string" where
  "canonical_edge_line nfc p =
    (case dumps_jcs nfc (PDict p) of
       Inl err \<Rightarrow> Inl (EdgeUnencodable err)
     | Inr t \<Rightarrow>
         let line = t @ [newline] in
         if max_edge_line_bytes < length line then Inl (EdgeTooLong (length line)) else Inr line)"

definition edge_append ::
    "(string \<Rightarrow> string) \<Rightarrow> (nat \<Rightarrow> bool) \<Rightarrow> string option \<Rightarrow> digest_arg \<Rightarrow> digest_arg option \<Rightarrow> string option
      \<Rightarrow> disk_file \<Rightarrow> (edge_error + unit) \<times> disk_file" where
  "edge_append nfc try_lock ambient c p run f =
    (case canonical_edge_line nfc (edge_payload (new_edge c p run ambient)) of
       Inl e \<Rightarrow> (Inl e, f)
     | Inr line \<Rightarrow>
         (case open_append f of
            Inl err \<Rightarrow> (Inl (EdgeOsError err), f)
          | Inr g \<Rightarrow>
              if \<not> lock_exclusive try_lock edge_lock_retries
              then (Inl (WorkspaceChainLockContended edge_lock_retries), g)
              else (Inr (), write_end line g)))"

subsection \<open>Reading\<close>

text \<open>One turn of the loop of \<open>edges\<close>.\<close>

definition edge_read_line ::
    "host \<Rightarrow> (string \<Rightarrow> pyfloat) \<Rightarrow> bool \<Rightarrow> string \<Rightarrow> edge_error + chain_edge option" where
  "edge_read_line h fl is_last line =
    (case (if utf8_valid line then json_loads fl line else None) of
       None \<Rightarrow>
         if is_last then Inr None else Inl (WorkspaceChainCorruptError ''malformed middle line'')
     | Some v \<Rightarrow>
         (case (case v of PDict p \<Rightarrow> if map_of p (KStr ''child'') = None then None else Some p | _ \<Rightarrow> None) of
            None \<Rightarrow>
              if is_last then Inr None else Inl (WorkspaceChainCorruptError ''malformed middle payload'')
          | Some p \<Rightarrow>
              Inr (Some \<lparr>child = py_str h (get_value p ''child''), parent = get_value p ''parent'',
                edge_run_id = (case get_value p ''run_id'' of PNone \<Rightarrow> None | v \<Rightarrow> Some (py_str h v))\<rparr>)))"

definition edges :: "host \<Rightarrow> (string \<Rightarrow> pyfloat) \<Rightarrow> disk_file \<Rightarrow> edge_error + chain_edge list" where
  "edges h fl f =
    (case f of
       Absent \<Rightarrow> Inr []
     | Directory \<Rightarrow> Inl (EdgeOsError IsADirectory)
     | Unreadable _ \<Rightarrow> Inl (EdgeOsError PermissionDenied)
     | Content raw \<Rightarrow>
         if raw = [] then Inr []
         else read_all (edge_read_line h fl) (chain_lines raw))"

subsection \<open>Queries\<close>

definition parent_of :: "host \<Rightarrow> (string \<Rightarrow> pyfloat) \<Rightarrow> disk_file \<Rightarrow> digest_arg \<Rightarrow> edge_error + pyval" where
  "parent_of h fl f c =
    rbind (edges h fl f) (\<lambda>es.
      Inr (case find (\<lambda>e. child e = digest_text c) es of None \<Rightarrow> PNone | Some e \<Rightarrow> parent e))"

text \<open>\<open>setdefault\<close> for every edge in turn.\<close>

definition parent_map :: "chain_edge list \<Rightarrow> (string, pyval) dict" where
  "parent_map es =
    foldl (\<lambda>m e. if map_of m (child e) = None then m @ [(child e, parent e)] else m) [] es"

text \<open>The walk up; a parent that is neither text nor \<open>None\<close> has no parent of its own.\<close>

function walk_up :: "(string, pyval) dict \<Rightarrow> string \<Rightarrow> string list \<Rightarrow> string \<Rightarrow> edge_error + bool" where
  "walk_up m anc visited cursor =
    (if cursor \<in> set visited then Inr False
     else case map_of m cursor of
       None \<Rightarrow> Inr False
     | Some (PStr p) \<Rightarrow> if p = anc then Inr True else walk_up m anc (cursor # visited) p
     | Some (PList _) \<Rightarrow> Inl Unhashable
     | Some (PDict _) \<Rightarrow> Inl Unhashable
     | Some _ \<Rightarrow> Inr False)"
  by pat_completeness auto
termination
proof (relation "measure (\<lambda>(m, anc, visited, cursor). card (dom (map_of m) - set visited))")
  fix m :: "(string, pyval) dict" and anc cursor p :: string and visited :: "string list" and v
  assume "cursor \<notin> set visited" and "map_of m cursor = Some v"
  then have c: "cursor \<in> dom (map_of m) - set visited" by auto
  have "card (dom (map_of m) - set visited - {cursor}) < card (dom (map_of m) - set visited)"
    using c by (intro card_Diff1_less) (simp_all add: finite_dom_map_of)
  moreover have "dom (map_of m) - set (cursor # visited) = dom (map_of m) - set visited - {cursor}" by auto
  ultimately show "((m, anc, cursor # visited, p), (m, anc, visited, cursor))
      \<in> measure (\<lambda>(m, anc, visited, cursor). card (dom (map_of m) - set visited))"
    by (simp only: in_measure split)
qed simp

declare walk_up.simps [simp del]

definition is_ancestor ::
    "host \<Rightarrow> (string \<Rightarrow> pyfloat) \<Rightarrow> disk_file \<Rightarrow> digest_arg \<Rightarrow> digest_arg \<Rightarrow> edge_error + bool" where
  "is_ancestor h fl f anc desc =
    (if digest_text anc = digest_text desc then Inr False
     else rbind (edges h fl f) (\<lambda>es. walk_up (parent_map es) (digest_text anc) [] (digest_text desc)))"

subsection \<open>The chain is a journal\<close>

text \<open>The edges the reader gives back as they are: text in NFC, a parent that is text or none.\<close>

definition text_parent :: "chain_edge \<Rightarrow> bool" where
  "text_parent e \<longleftrightarrow> parent e = PNone \<or> (\<exists>p. parent e = PStr p)"

definition edge_stable :: "(string \<Rightarrow> string) \<Rightarrow> chain_edge \<Rightarrow> bool" where
  "edge_stable nfc e \<longleftrightarrow> nfc (child e) = child e \<and> text_parent e \<and> (\<forall>p. parent e = PStr p \<longrightarrow> nfc p = p) \<and>
    (\<forall>r. edge_run_id e = Some r \<longrightarrow> nfc r = r)"

definition edge_valid :: "(string \<Rightarrow> string) \<Rightarrow> chain_edge \<Rightarrow> string \<Rightarrow> bool" where
  "edge_valid nfc e t \<longleftrightarrow> normalises nfc \<and> edge_stable nfc e \<and> dumps_jcs nfc (PDict (edge_payload e)) = Inr t"

lemma edge_keys_sorted: "sorted [''child'', ''parent'']" "sorted [''child'', ''parent'', ''run_id'']"
  by code_simp+

lemma float_free_edge: "text_parent e \<Longrightarrow> float_free (PDict (edge_payload e))"
  by (auto simp: edge_payload_def text_parent_def split: option.splits)

lemma edge_payload_canon:
  assumes "normalises nfc" and "edge_stable nfc e"
  shows "canon nfc (PDict (edge_payload e)) = PDict (edge_payload e)"
proof -
  have asc: "isascii k \<Longrightarrow> nfc k = k" for k using assms(1) by (simp add: normalises_def)
  have base: "map (\<lambda>(k, v). (nfc (key_str k), v)) (edge_payload e) =
      map (\<lambda>(k, v). (key_str k, v)) (edge_payload e)"
    by (cases "edge_run_id e") (simp_all add: edge_payload_def asc isascii_def)
  have "sorted_members nfc (edge_payload e) = map (\<lambda>(k, v). (key_str k, v)) (edge_payload e)"
    unfolding sorted_members_def base using edge_keys_sorted
    by (intro sort_key_id_if_sorted) (cases "edge_run_id e"; simp add: edge_payload_def)
  then show ?thesis
    using assms(2) unfolding canon_dict
    by (cases "edge_run_id e") (auto simp: edge_payload_def edge_stable_def text_parent_def)
qed

lemma edge_read_back:
  assumes "edge_valid nfc e t"
  shows "edge_read_line h fl l t = Inr (Some e)"
proof -
  from assms have t: "dumps_jcs nfc (PDict (edge_payload e)) = Inr t" and n: "normalises nfc"
    and s: "edge_stable nfc e" by (simp_all add: edge_valid_def)
  from s have "float_free (PDict (edge_payload e))" by (intro float_free_edge) (simp add: edge_stable_def)
  from dumps_reads [OF t this n, of fl] have "json_loads fl t = Some (PDict (edge_payload e))"
    using edge_payload_canon [OF n s] by simp
  moreover have "utf8_valid t" using t by (simp add: dumps_jcs_ok)
  ultimately show ?thesis
    by (cases e; cases "edge_run_id e")
      (simp_all add: edge_read_line_def edge_payload_def get_value_def get_default_def)
qed

interpretation edge_log: jsonl "edge_read_line h fl" "edge_valid nfc" "\<lambda>e. e"
proof
  fix e t assume v: "edge_valid nfc e t"
  then have t: "dumps_jcs nfc (PDict (edge_payload e)) = Inr t" and "text_parent e"
    by (simp_all add: edge_valid_def edge_stable_def)
  then show "t \<noteq> [] \<and> newline \<notin> set t"
    using dumps_no_newline [OF t] encode_dict_ok(1) [of nfc "edge_payload e" t] float_free_edge
    by (auto simp: dumps_jcs_ok)
  show "edge_read_line h fl l t = Inr (Some e)" for l by (rule edge_read_back [OF v])
next
  fix e p q assume v: "edge_valid nfc e (p @ q)" and q: "q \<noteq> []"
  then have "float_free (PDict (edge_payload e))"
    by (intro float_free_edge) (simp add: edge_valid_def edge_stable_def)
  then have "json_loads fl p = None"
    using v q by (intro dumps_dict_prefix [of nfc "edge_payload e" p q]) (simp_all add: edge_valid_def)
  then show "edge_read_line h fl True p = Inr None" by (simp add: edge_read_line_def)
qed

text \<open>A chain file in which every line is a whole edge whose parent is text or none.\<close>

definition edges_hold :: "host \<Rightarrow> (string \<Rightarrow> pyfloat) \<Rightarrow> disk_file \<Rightarrow> chain_edge list \<Rightarrow> bool" where
  "edges_hold h fl f es \<longleftrightarrow> (\<forall>e \<in> set es. text_parent e) \<and>
    (case f of Absent \<Rightarrow> es = [] | Content c \<Rightarrow> holds (edge_read_line h fl) c es | _ \<Rightarrow> False)"

lemma edges_hold_read: "edges_hold h fl f es \<Longrightarrow> edges h fl f = Inr es"
proof (cases f)
  case (Content c)
  assume "edges_hold h fl f es"
  with Content have c: "holds (edge_read_line h fl) c es" by (simp add: edges_hold_def)
  show ?thesis
  proof (cases "c = []")
    case True
    with c show ?thesis by (simp add: Content edges_def holds_def reads_as_def)
  next
    case False
    with holds_read [OF c] show ?thesis by (simp add: Content edges_def chain_lines_eq)
  qed
qed (auto simp: edges_hold_def edges_def)

lemma edge_append_holds:
  assumes "edge_append nfc try_lock ambient c p run f = (Inr u, f')" and "edges_hold h fl f es"
    and "normalises nfc" and "edge_stable nfc (new_edge c p run ambient)"
  shows "edges_hold h fl f' (es @ [new_edge c p run ambient])"
proof -
  let ?e = "new_edge c p run ambient"
  from assms(1) obtain t g where t: "dumps_jcs nfc (PDict (edge_payload ?e)) = Inr t"
    and g: "open_append f = Inr g" and f': "f' = write_end (t @ [newline]) g"
    by (auto simp: edge_append_def canonical_edge_line_def Let_def split: sum.splits if_splits)
  obtain b where b: "g = Content b" "holds (edge_read_line h fl) b es"
    using g assms(2) by (cases f) (auto simp: edges_hold_def holds_Nil)
  have v: "edge_valid nfc ?e t" using assms(3,4) t by (simp add: edge_valid_def)
  have "text_parent ?e" using assms(4) by (simp add: edge_stable_def)
  with edge_log.holds_append [OF b(2) v] assms(2) show ?thesis by (simp add: f' b(1) edges_hold_def)
qed

subsection \<open>Ancestors\<close>

text \<open>A digest's parent is the one of the first edge that names it as a child.\<close>

definition parent_rel :: "chain_edge list \<Rightarrow> (string \<times> string) set" where
  "parent_rel es = {(c, p). \<exists>e. find (\<lambda>e. child e = c) es = Some e \<and> parent e = PStr p}"

lemma map_of_parent_map: "map_of (parent_map es) c = map_option parent (find (\<lambda>e. child e = c) es)"
proof -
  have "map_of (foldl (\<lambda>m e. if map_of m (child e) = None then m @ [(child e, parent e)] else m) m es) c =
      (case map_of m c of None \<Rightarrow> map_option parent (find (\<lambda>e. child e = c) es) | Some p \<Rightarrow> Some p)" for m
    by (induction es arbitrary: m) (auto simp: map_add_def split: option.splits)
  then show ?thesis by (simp add: parent_map_def)
qed

lemma parent_map_rel:
  "map_of (parent_map es) c = Some (PStr p) \<longleftrightarrow> (c, p) \<in> parent_rel es"
  by (auto simp: map_of_parent_map parent_rel_def)

lemma single_valued_parent: "single_valued (parent_rel es)"
  by (auto simp: parent_rel_def single_valued_def)

lemma walk_up_sound:
  "walk_up m anc visited c = Inr True \<Longrightarrow> (c, anc) \<in> {(c, p). map_of m c = Some (PStr p)}\<^sup>+"
proof (induction m anc visited c rule: walk_up.induct)
  case (1 m anc visited c)
  from "1.prems" obtain p where c: "c \<notin> set visited" and p: "map_of m c = Some (PStr p)"
    and r: "p = anc \<or> p \<noteq> anc \<and> walk_up m anc (c # visited) p = Inr True"
    by (subst (asm) walk_up.simps) (auto split: if_splits option.splits pyval.splits)
  from r show ?case
  proof
    assume "p = anc"
    with p show ?thesis by (intro r_into_trancl) simp
  next
    assume w: "p \<noteq> anc \<and> walk_up m anc (c # visited) p = Inr True"
    with "1.IH" [OF c p refl] have "(p, anc) \<in> {(c, p). map_of m c = Some (PStr p)}\<^sup>+" by simp
    with p show ?thesis by (intro trancl_into_trancl2 [of c p]) simp_all
  qed
qed

lemma walk_up_total:
  assumes "\<And>c v. map_of m c = Some v \<Longrightarrow> v = PNone \<or> (\<exists>p. v = PStr p)"
  shows "is_ok (walk_up m anc visited c)"
  using assms
proof (induction m anc visited c rule: walk_up.induct)
  case (1 m anc visited c)
  consider "c \<in> set visited" | "map_of m c = None" | "map_of m c = Some PNone"
    | p where "c \<notin> set visited" "map_of m c = Some (PStr p)"
    using "1.prems" by (cases "map_of m c") blast+
  then show ?case
  proof cases
    case 4
    show ?thesis
    proof (cases "p = anc")
      case True
      with 4 show ?thesis by (subst walk_up.simps) simp
    next
      case False
      have "is_ok (walk_up m anc (c # visited) p)" by (rule "1.IH" [OF 4 refl False "1.prems"])
      with 4 False show ?thesis by (subst walk_up.simps) simp
    qed
  qed (subst walk_up.simps; simp)+
qed

text \<open>Following \<open>n\<close> parents, deterministically; a shortest way to the ancestor meets no digest twice.\<close>

lemma relpow_unique:
  fixes R :: "('a \<times> 'a) set"
  assumes "single_valued R"
  shows "(x, y) \<in> R ^^ n \<Longrightarrow> (x, z) \<in> R ^^ n \<Longrightarrow> y = z"
proof (induction n arbitrary: y z)
  case (Suc n)
  from Suc.prems obtain y' z' where "(x, y') \<in> R ^^ n" "(y', y) \<in> R" "(x, z') \<in> R ^^ n" "(z', z) \<in> R"
    by (meson relpow_Suc_E)
  with Suc.IH assms show ?case by (blast dest: single_valuedD)
qed simp

lemma walk_up_complete:
  defines "R \<equiv> \<lambda>m. {(c, p). map_of m c = Some (PStr p)}"
  assumes "(c, anc) \<in> R m ^^ n" and "0 < n" and "\<And>k. 0 < k \<Longrightarrow> k < n \<Longrightarrow> (c, anc) \<notin> R m ^^ k"
    and "\<And>k x. k < n \<Longrightarrow> (c, x) \<in> R m ^^ k \<Longrightarrow> x \<notin> set visited"
  shows "walk_up m anc visited c = Inr True"
  using assms(2-)
proof (induction n arbitrary: c visited)
  case (Suc n)
  have sv: "single_valued (R m)" by (auto simp: R_def single_valued_def)
  from Suc.prems(1) obtain p where p: "(c, p) \<in> R m" and n: "(p, anc) \<in> R m ^^ n" by (rule relpow_Suc_E2)
  then have mp: "map_of m c = Some (PStr p)" by (simp add: R_def)
  have c: "c \<notin> set visited" using Suc.prems(4) [of 0 c] by simp
  show ?case
  proof (cases "p = anc")
    case True
    with mp c show ?thesis by (subst walk_up.simps) simp
  next
    case False
    with n have "0 < n" by (cases n) auto
    have shorter: "(p, anc) \<notin> R m ^^ k" if "0 < k" "k < n" for k
    proof
      assume "(p, anc) \<in> R m ^^ k"
      with p have "(c, anc) \<in> R m ^^ Suc k" by (rule relpow_Suc_I2)
      with Suc.prems(3) [of "Suc k"] that show False by simp
    qed
    have "x \<notin> set (c # visited)" if k: "k < n" and x: "(p, x) \<in> R m ^^ k" for k x
    proof -
      have cx: "(c, x) \<in> R m ^^ Suc k" using p x by (rule relpow_Suc_I2)
      with Suc.prems(4) [of "Suc k" x] k have "x \<notin> set visited" by simp
      moreover have "x \<noteq> c"
      proof
        assume "x = c"
        with cx have loop: "(c, c) \<in> R m ^^ Suc k" by simp
        have "R m ^^ Suc n = R m ^^ Suc k O R m ^^ (n - k)" using k relpow_add [of "Suc k" "n - k" "R m"] by simp
        with Suc.prems(1) obtain y where "(c, y) \<in> R m ^^ Suc k" "(y, anc) \<in> R m ^^ (n - k)" by auto
        with relpow_unique [OF sv _ loop] have "(c, anc) \<in> R m ^^ (n - k)" by blast
        moreover have "0 < n - k" "n - k < Suc n" using k by linarith+
        ultimately show False using Suc.prems(3) [of "n - k"] by blast
      qed
      ultimately show ?thesis by simp
    qed
    with Suc.IH [OF n \<open>0 < n\<close> shorter, of "c # visited"] have "walk_up m anc (c # visited) p = Inr True" by blast
    with mp c False show ?thesis by (subst walk_up.simps) simp
  qed
qed simp

lemma shortest_way:
  assumes "(c, a) \<in> R\<^sup>+"
  shows "\<exists>n. 0 < n \<and> (c, a) \<in> R ^^ n \<and> (\<forall>k. 0 < k \<longrightarrow> k < n \<longrightarrow> (c, a) \<notin> R ^^ k)"
proof -
  let ?P = "\<lambda>n. 0 < n \<and> (c, a) \<in> R ^^ n"
  from assms have "\<exists>n. ?P n" by (auto simp: trancl_power)
  then have P: "?P (Least ?P)" by (rule LeastI_ex)
  have "(c, a) \<notin> R ^^ k" if "0 < k" "k < Least ?P" for k
    using not_less_Least [OF that(2)] that(1) by simp
  with P show ?thesis by blast
qed

lemma walk_up_iff:
  "walk_up m anc [] c = Inr True \<longleftrightarrow> (c, anc) \<in> {(c, p). map_of m c = Some (PStr p)}\<^sup>+"
proof
  assume "(c, anc) \<in> {(c, p). map_of m c = Some (PStr p)}\<^sup>+"
  from shortest_way [OF this] obtain n where n: "0 < n" "(c, anc) \<in> {(c, p). map_of m c = Some (PStr p)} ^^ n"
    and short: "\<And>k. 0 < k \<Longrightarrow> k < n \<Longrightarrow> (c, anc) \<notin> {(c, p). map_of m c = Some (PStr p)} ^^ k" by blast
  show "walk_up m anc [] c = Inr True" by (rule walk_up_complete [OF n(2,1) short]) simp_all
qed (rule walk_up_sound)

lemma is_ancestor_exact:
  assumes "edges_hold h fl f es"
  shows "is_ancestor h fl f a d =
    Inr (digest_text a \<noteq> digest_text d \<and> (digest_text d, digest_text a) \<in> (parent_rel es)\<^sup>+)"
proof (cases "digest_text a = digest_text d")
  case False
  have "v = PNone \<or> (\<exists>p. v = PStr p)" if "map_of (parent_map es) c = Some v" for c v
  proof -
    from that obtain e where "e \<in> set es" "v = parent e"
      by (auto simp: map_of_parent_map find_Some_iff set_conv_nth)
    with assms show ?thesis by (auto simp: edges_hold_def text_parent_def)
  qed
  then obtain b where b: "walk_up (parent_map es) (digest_text a) [] (digest_text d) = Inr b"
    using walk_up_total unfolding is_ok_iff by blast
  have "b \<longleftrightarrow> (digest_text d, digest_text a) \<in> (parent_rel es)\<^sup>+"
    using walk_up_iff [of "parent_map es" "digest_text a" "digest_text d"] b by (simp add: parent_map_rel)
  with False b show ?thesis by (simp add: is_ancestor_def edges_hold_read [OF assms])
qed (simp add: is_ancestor_def)

lemma find_snoc:
  "find P (xs @ [x]) = (case find P xs of None \<Rightarrow> if P x then Some x else None | Some y \<Rightarrow> Some y)"
  by (induction xs) auto

lemma parent_rel_append:
  "parent_rel (es @ [e]) = parent_rel es \<union>
    (if \<exists>x \<in> set es. child x = child e then {} else {(child e, p) |p. parent e = PStr p})"
proof -
  have n: "find (\<lambda>x. child x = c) es = None \<longleftrightarrow> \<not> (\<exists>x \<in> set es. child x = c)" for c
    by (auto simp: find_None_iff)
  have "(c, p) \<in> parent_rel (es @ [e]) \<longleftrightarrow> (c, p) \<in> parent_rel es \<or>
      \<not> (\<exists>x \<in> set es. child x = c) \<and> child e = c \<and> parent e = PStr p" for c p
    unfolding n [symmetric] by (cases "find (\<lambda>x. child x = c) es") (auto simp: parent_rel_def find_snoc)
  then show ?thesis by (auto simp: set_eq_iff)
qed

lemma parent_of_holds:
  "edges_hold h fl f es \<Longrightarrow>
    parent_of h fl f c = Inr (case find (\<lambda>e. child e = digest_text c) es of None \<Rightarrow> PNone | Some e \<Rightarrow> parent e)"
  by (simp add: parent_of_def edges_hold_read)

subsection \<open>Properties\<close>


definition demo_edges :: disk_file where
  "demo_edges =
    (let put = (\<lambda>c p f. snd (edge_append (\<lambda>s. s) (\<lambda>_. True) (Some ''r'') (DigestText c) (Some (DigestText p)) None f))
     in put ''c'' ''a'' (put ''b'' ''c'' (put ''a'' ''b'' Absent)))"

definition demo_edge :: "string \<Rightarrow> string \<Rightarrow> chain_edge" where
  "demo_edge c p = \<lparr>child = c, parent = PStr p, edge_run_id = Some ''r''\<rparr>"

lemma demo_edges_hold:
  "edges_hold demo_host (\<lambda>_. FNan) demo_edges [demo_edge ''a'' ''b'', demo_edge ''b'' ''c'', demo_edge ''c'' ''a'']"
proof -
  let ?put = "\<lambda>c p f. edge_append (\<lambda>s. s) (\<lambda>_. True) (Some ''r'') (DigestText c) (Some (DigestText p)) None f"
  have new: "new_edge (DigestText c) (Some (DigestText p)) None (Some ''r'') = demo_edge c p" for c p
    by (simp add: new_edge_def demo_edge_def)
  have st: "edge_stable (\<lambda>s. s) (demo_edge c p)" for c p
    by (simp add: edge_stable_def demo_edge_def text_parent_def)
  have step: "edges_hold demo_host (\<lambda>_. FNan) (snd (?put c p f)) (es @ [demo_edge c p])"
    if "edges_hold demo_host (\<lambda>_. FNan) f es" and "is_ok (fst (?put c p f))" for c p f es
  proof -
    from that(2) obtain u where "?put c p f = (Inr u, snd (?put c p f))"
      by (cases "?put c p f") (auto simp: is_ok_iff)
    from edge_append_holds [OF this that(1) normalises_id] show ?thesis by (simp add: new st)
  qed
  have one: "edges_hold demo_host (\<lambda>_. FNan) (snd (?put ''a'' ''b'' Absent)) ([] @ [demo_edge ''a'' ''b''])"
    by (rule step) (simp add: edges_hold_def, code_simp)
  have two: "edges_hold demo_host (\<lambda>_. FNan) (snd (?put ''b'' ''c'' (snd (?put ''a'' ''b'' Absent))))
      (([] @ [demo_edge ''a'' ''b'']) @ [demo_edge ''b'' ''c''])"
    by (rule step [OF one]) code_simp
  have "edges_hold demo_host (\<lambda>_. FNan) demo_edges ((([] @ [demo_edge ''a'' ''b'']) @ [demo_edge ''b'' ''c'']) @ [demo_edge ''c'' ''a''])"
    unfolding demo_edges_def Let_def by (rule step [OF two]) code_simp
  then show ?thesis by simp
qed


text \<open>
  History cannot be rewritten by appending: an edge recorded for a digest that already has
  one is stored and changes no answer of \<open>is_ancestor\<close> or of \<open>parent_of\<close>, and no append at
  all takes an ancestor away.
\<close>

theorem reparenting_ignored:
  assumes "edge_append nfc try_lock ambient c p run f = (Inr u, f')" and "edges_hold h fl f es"
    and "normalises nfc" and "edge_stable nfc (new_edge c p run ambient)"
  shows "edges h fl f' = Inr (es @ [new_edge c p run ambient]) \<and>
    ((\<exists>e \<in> set es. child e = digest_text c) \<longrightarrow>
      is_ancestor h fl f' = is_ancestor h fl f \<and> parent_of h fl f' = parent_of h fl f) \<and>
    (is_ancestor h fl f a d = Inr True \<longrightarrow> is_ancestor h fl f' a d = Inr True)"
proof -
  let ?e = "new_edge c p run ambient"
  have h': "edges_hold h fl f' (es @ [?e])" by (rule edge_append_holds [OF assms])
  have ch: "child ?e = digest_text c" by (simp add: new_edge_def)
  have sub: "parent_rel es \<subseteq> parent_rel (es @ [?e])" by (simp add: parent_rel_append)
  have mono: "is_ancestor h fl f' a d = Inr True" if "is_ancestor h fl f a d = Inr True"
    using that trancl_mono [OF _ sub] by (simp add: is_ancestor_exact [OF h'] is_ancestor_exact [OF assms(2)])
  have same: "is_ancestor h fl f' = is_ancestor h fl f \<and> parent_of h fl f' = parent_of h fl f"
    if known: "\<exists>e \<in> set es. child e = digest_text c"
  proof -
    have "parent_rel (es @ [?e]) = parent_rel es" using known by (simp add: parent_rel_append ch)
    moreover have "find (\<lambda>e. child e = x) (es @ [?e]) = find (\<lambda>e. child e = x) es" for x
    proof (cases "find (\<lambda>e. child e = x) es")
      case None
      then have "\<forall>e \<in> set es. child e \<noteq> x" by (simp add: find_None_iff)
      with known ch None show ?thesis by (auto simp: find_snoc)
    qed (simp add: find_snoc)
    ultimately show ?thesis
      by (auto simp: fun_eq_iff is_ancestor_exact [OF h'] is_ancestor_exact [OF assms(2)]
        parent_of_holds [OF h'] parent_of_holds [OF assms(2)])
  qed
  from edges_hold_read [OF h'] same mono show ?thesis by blast
qed

theorem reparenting_ignored_witness:
  "is_ancestor demo_host (\<lambda>_. FNan)
      (snd (edge_append (\<lambda>s. s) (\<lambda>_. True) None (DigestText ''a'') (Some (DigestText ''z'')) None demo_edges))
    = is_ancestor demo_host (\<lambda>_. FNan) demo_edges"
proof -
  let ?put = "edge_append (\<lambda>s. s) (\<lambda>_. True) None (DigestText ''a'') (Some (DigestText ''z'')) None demo_edges"
  have "is_ok (fst ?put)" by code_simp
  then obtain u where put: "?put = (Inr u, snd ?put)" by (cases ?put) (auto simp: is_ok_iff)
  have st: "edge_stable (\<lambda>s. s) (new_edge (DigestText ''a'') (Some (DigestText ''z'')) None None)"
    by (simp add: edge_stable_def new_edge_def text_parent_def)
  have "\<exists>e \<in> set [demo_edge ''a'' ''b'', demo_edge ''b'' ''c'', demo_edge ''c'' ''a'']. child e = digest_text (DigestText ''a'')"
    by (simp add: demo_edge_def)
  with reparenting_ignored [OF put demo_edges_hold normalises_id st] show ?thesis by blast
qed

end
