(* ===== verification/PathText.thy ===== *)
theory PathText
  imports Coerce
begin

section \<open>POSIX paths and text operations\<close>

text \<open>
  What the policy code uses of \<open>pathlib\<close> and \<open>os.path\<close> on POSIX, as functions on strings:
  \<open>Path(s).name\<close>, \<open>.suffix\<close>, \<open>str(Path(s))\<close>, \<open>Path(a) / b\<close>, \<open>relative_to\<close> and
  \<open>os.path.normpath\<close>. What needs the file system (\<open>realpath\<close>, \<open>is_file\<close>, the execute
  permission, a file's bytes) is the record \<open>fsys\<close>. The Unicode tables behind
  \<open>str.lower\<close>, \<open>str.casefold\<close> and \<open>str.isdigit\<close> are the record \<open>textops\<close>.
\<close>

record textops =
  op_lower :: "string \<Rightarrow> string"
  op_casefold :: "string \<Rightarrow> string"
  op_isdigit :: "string \<Rightarrow> bool"

record fsys =
  realpath :: "string \<Rightarrow> string"
  is_file :: "string \<Rightarrow> bool"
  executable_by_us :: "string \<Rightarrow> bool"
  file_sha :: "string \<Rightarrow> string option"

definition sep :: char where
  "sep = CHR ''/''"

definition path_parts :: "string \<Rightarrow> string list" where
  "path_parts s = filter (\<lambda>c. c \<noteq> [] \<and> c \<noteq> ''.'') (split_on sep s)"

text \<open>One leading slash, or exactly two.\<close>

definition path_root :: "string \<Rightarrow> string" where
  "path_root s =
    (if startswith s ''//'' \<and> \<not> startswith s ''///'' then ''//''
     else if startswith s ''/'' then ''/'' else [])"

definition path_name :: "string \<Rightarrow> string" where
  "path_name s = (if path_parts s = [] then [] else last (path_parts s))"

definition path_suffix :: "string \<Rightarrow> string" where
  "path_suffix s =
    (let n = path_name s; tail_len = length (takeWhile (\<lambda>c. c \<noteq> CHR ''.'') (rev n)) in
     if CHR ''.'' \<in> set n \<and> 0 < tail_len \<and> tail_len + 1 < length n
     then drop (length n - (tail_len + 1)) n else [])"

definition path_str :: "string \<Rightarrow> string" where
  "path_str s =
    (let t = path_root s @ join [sep] (path_parts s) in if t = [] then ''.'' else t)"

definition path_join :: "string \<Rightarrow> string \<Rightarrow> string" where
  "path_join a b = (if startswith b ''/'' then path_str b else path_str (a @ [sep] @ b))"

text \<open>\<open>Path(p).relative_to(Path(root))\<close> does not raise.\<close>

definition under_path :: "string \<Rightarrow> string \<Rightarrow> bool" where
  "under_path p root \<longleftrightarrow>
    path_root p = path_root root \<and> take (length (path_parts root)) (path_parts p) = path_parts root"

fun norm_components :: "bool \<Rightarrow> string list \<Rightarrow> string list \<Rightarrow> string list" where
  "norm_components rooted acc [] = acc"
| "norm_components rooted acc (c # cs) =
    (if c = [] \<or> c = ''.'' then norm_components rooted acc cs
     else if c \<noteq> ''..'' \<or> (\<not> rooted \<and> acc = []) \<or> (acc \<noteq> [] \<and> last acc = ''..'')
     then norm_components rooted (acc @ [c]) cs
     else norm_components rooted (butlast acc) cs)"

definition normpath :: "string \<Rightarrow> string" where
  "normpath s =
    (if s = [] then ''.''
     else
       let r = path_root s;
           t = r @ join [sep] (norm_components (r \<noteq> []) [] (split_on sep s))
       in if t = [] then ''.'' else t)"

text \<open>ASCII operations and a file system, for evaluating examples.\<close>

definition ascii_ops :: textops where
  "ascii_ops = \<lparr>op_lower = map lower_char, op_casefold = map lower_char,
     op_isdigit = (\<lambda>s. s \<noteq> [] \<and> list_all is_digit s)\<rparr>"

definition demo_fsys :: fsys where
  "demo_fsys = \<lparr>realpath = (\<lambda>p. p), is_file = (\<lambda>p. startswith p ''/usr/bin/''),
     executable_by_us = (\<lambda>_. True), file_sha = (\<lambda>_. Some ''00'')\<rparr>"

lemma path_examples:
  "path_name ''/usr/bin/env'' = ''env''" "path_name ''a/./'' = ''a''" "path_suffix ''x.tar.gz'' = ''.gz''"
  "path_suffix ''.bashrc'' = []" "path_join ''/usr//bin/'' ''./ls'' = ''/usr/bin/ls''"
  "normpath ''a//b/../c/.'' = ''a/c''" "normpath ''/../x'' = ''/x''" "normpath ''../../x'' = ''../../x''"
  by code_simp+

end
