(* ===== verification/Matcher.thy ===== *)
theory Matcher
  imports PathText
begin

section \<open>Command matching\<close>

text \<open>
  The model of \<open>src/ract/policy/matcher.py\<close> on POSIX (the branches of \<open>os.name == "nt"\<close> are
  left out) with the policy's data from \<open>src/ract/policy/grant.py\<close>: a command is stripped of
  its wrappers, checked against the hard floor, resolved through a \<open>PATH\<close> without the
  project, and then compared with the deny and the allow rules. The regular expressions are
  written as the predicates they decide, \<open>$\<close> included, which also matches before a final
  newline.
\<close>

subsection \<open>The policy's rules\<close>

record allow_rule =
  rule_id :: string
  rule_argv :: "string list"
  rule_network :: bool
  rule_cwd :: string
  rule_timeout_s :: int
  rule_max_output_bytes :: int
  rule_home :: string
  rule_env_extra :: "string list"
  rule_git_hooks :: bool
  rule_backend :: string
  rule_image :: "string option"

text \<open>Times are microseconds since the start of year 1 in UTC; \<open>issued_offset\<close> is the zone's.\<close>

record policy =
  binding_root :: string
  binding_commit :: "string option"
  issued_at :: int
  issued_offset :: int
  expires_at :: int
  policy_key_id :: string
  max_mode :: string
  sandbox_mode :: string
  allow_rules :: "allow_rule list"
  deny_rules :: "string list list"
  shell_enabled :: bool
  web_domains :: "string list option"
  max_procs :: int
  memory_mb :: int
  cpu_seconds :: int

subsection \<open>Names\<close>

definition wrappers :: "string list" where
  "wrappers = [''env'', ''nice'', ''nohup'', ''timeout'', ''time'', ''stdbuf'', ''ionice'']"

definition never :: "(string \<times> string) list" where
  "never = [(''xargs'', ''runs a command chosen at run time''), (''parallel'', ''runs a command chosen at run time''),
    (''watch'', ''runs a command chosen at run time''), (''script'', ''runs a command chosen at run time''),
    (''sudo'', ''changes privilege''), (''doas'', ''changes privilege''), (''su'', ''changes privilege''),
    (''runas'', ''changes privilege''), (''pkexec'', ''changes privilege'')]"

definition shells :: "string list" where
  "shells = [''sh'', ''bash'', ''zsh'', ''fish'', ''dash'', ''ksh'', ''cmd'', ''powershell'', ''pwsh'']"

text \<open>
  \<open>_EVAL\<close>: the letters that introduce code in a cluster of an interpreter's options, and its
  long options for it (as prefixes).
\<close>

definition eval_table :: "(string \<times> string \<times> string list) list" where
  "eval_table = [(''python'', ''c'', [''--command'']), (''pypy'', ''c'', [''--command'']), (''py'', ''c'', [''--command'']),
    (''node'', ''eEp'', [''--eval'', ''--print'']), (''bun'', ''ep'', [''--eval'', ''--print'']), (''perl'', ''eE'', []),
    (''ruby'', ''e'', []), (''php'', ''r'', []), (''lua'', ''e'', []), (''rscript'', ''e'', []), (''osascript'', ''e'', [])]"

definition value_options :: "(string \<times> string list) list" where
  "value_options = [(''python'', [''-X'', ''-W'', ''-Q'']), (''pypy'', [''-X'', ''-W'', ''-Q'']),
    (''py'', [''-X'', ''-W'', ''-Q'']), (''node'', [''-r'', ''--require'', ''--import'', ''--loader'']),
    (''bun'', [''-r'', ''--preload''])]"

definition always_code :: "string list" where
  "always_code = [''awk'', ''gawk'', ''mawk'', ''nawk'', ''sed'']"

definition governance :: "string list" where
  "governance = [''policy'', ''handshakes'', ''intent'', ''operator-queue'', ''config'', ''provider'']"

definition publish :: "(string \<times> string) list" where
  "publish = [(''twine'', ''upload''), (''npm'', ''publish''), (''cargo'', ''publish''), (''poetry'', ''publish''),
    (''uv'', ''publish''), (''gh'', ''release'')]"

definition subcommand_tools :: "string list" where
  "subcommand_tools = [''git'', ''npm'', ''pnpm'', ''yarn'', ''pip'', ''uv'', ''cargo'', ''go'', ''dotnet'',
    ''docker'', ''kubectl'']"

definition remote_git :: "string list" where
  "remote_git = [''push'', ''pull'', ''fetch'', ''clone'', ''ls-remote'', ''remote'', ''submodule'', ''send-pack'',
    ''fetch-pack'', ''http-push'', ''http-fetch'', ''upload-pack'', ''receive-pack'']"

definition dangerous_flags :: "string list" where
  "dangerous_flags = [''--output'', ''--upload-pack'', ''--receive-pack'', ''--ext-diff'', ''--exec'']"

definition find_exec :: "string list" where
  "find_exec = [''-exec'', ''-execdir'', ''-ok'', ''-okdir'', ''-delete'']"

definition is_letter :: "char \<Rightarrow> bool" where
  "is_letter c \<longleftrightarrow> 65 \<le> code c \<and> code c \<le> 90 \<or> 97 \<le> code c \<and> code c \<le> 122"

definition plain_char :: "char \<Rightarrow> bool" where
  "plain_char c \<longleftrightarrow> is_letter c \<or> is_digit c \<or> c \<in> set ''_./:=@+-''"

text \<open>\<open>_PLAIN_ARG.match\<close>.\<close>

definition plain_arg :: "string \<Rightarrow> bool" where
  "plain_arg a =
    (let b = (if a \<noteq> [] \<and> last a = newline then butlast a else a) in b \<noteq> [] \<and> list_all plain_char b)"

definition slashed :: "string \<Rightarrow> string" where
  "slashed s = map (\<lambda>c. if c = CHR 0x5C then CHR ''/'' else c) s"

definition dashed :: "string \<Rightarrow> bool" where
  "dashed s \<longleftrightarrow> startswith s ''-''"

fun strip_suffix :: "string list \<Rightarrow> string \<Rightarrow> string" where
  "strip_suffix [] b = b"
| "strip_suffix (x # xs) b = (if endswith b x then take (length b - length x) b else strip_suffix xs b)"

text \<open>\<open>^(python|pypy)[0-9.]*w?$\<close>, behind the family's name.\<close>

definition versioned :: "string \<Rightarrow> bool" where
  "versioned r = (let t = dropWhile (\<lambda>c. is_digit c \<or> c = CHR ''.'') r in t = [] \<or> t = ''w'')"

fun family :: "string list \<Rightarrow> string \<Rightarrow> string" where
  "family [] b = b"
| "family (p # ps) b =
    (if startswith b p then
       (let r = drop (length p) b in
        if versioned r then p
        else if r \<noteq> [] \<and> last r = newline \<and> versioned (butlast r) then p @ [newline] else b)
     else family ps b)"

definition command_name :: "textops \<Rightarrow> string \<Rightarrow> string" where
  "command_name ops arg =
    family [''python'', ''pypy'']
      (strip_suffix [''.exe'', ''.cmd'', ''.bat'', ''.com''] (op_lower ops (path_name (slashed arg))))"

subsection \<open>Code on the command line\<close>

definition eval_flag :: "string \<Rightarrow> string list \<Rightarrow> string \<Rightarrow> bool" where
  "eval_flag letters longs token =
    ((\<exists>l \<in> set longs. startswith token l) \<or>
     (dashed token \<and> (\<exists>c \<in> set letters. c \<in> set (takeWhile is_letter (tl token)))))"

fun inline_from :: "string \<Rightarrow> string list \<Rightarrow> string list \<Rightarrow> string list \<Rightarrow> bool" where
  "inline_from letters longs values [] = False"
| "inline_from letters longs values (token # ts) =
    (if token = ''-m'' \<or> token = ''--'' \<or> \<not> dashed token then False
     else if eval_flag letters longs token then True
     else if token \<in> set values then inline_from letters longs values (tl ts)
     else inline_from letters longs values ts)"

definition inline_code :: "string \<Rightarrow> string list \<Rightarrow> bool" where
  "inline_code name args =
    (if name \<in> set always_code then True
     else if name = ''deno'' then
       (case find (\<lambda>a. \<not> dashed a) args of None \<Rightarrow> False | Some a \<Rightarrow> a = ''eval'')
     else case map_of eval_table name of
       None \<Rightarrow> False
     | Some (letters, longs) \<Rightarrow>
         inline_from letters longs (case map_of value_options name of None \<Rightarrow> [] | Some vs \<Rightarrow> vs) args)"

fun wrapped_code :: "textops \<Rightarrow> string list \<Rightarrow> string option" where
  "wrapped_code ops [] = None"
| "wrapped_code ops (token # ts) =
    (if dashed token then wrapped_code ops ts
     else
       let name = command_name ops token in
       if name \<in> set shells then Some name
       else if (map_of eval_table name \<noteq> None \<or> name = ''deno'' \<or> name \<in> set always_code) \<and> inline_code name ts
       then Some name
       else wrapped_code ops ts)"

subsection \<open>Wrappers\<close>

definition is_assignment :: "string \<Rightarrow> bool" where
  "is_assignment t \<longleftrightarrow> CHR ''='' \<in> set t \<and> \<not> dashed t"

fun skip_options :: "textops \<Rightarrow> bool \<Rightarrow> string list \<Rightarrow> string list" where
  "skip_options ops numeric [] = []"
| "skip_options ops numeric (t # ts) =
    (if dashed t
     then
       if numeric \<and> ts \<noteq> [] \<and> op_isdigit ops (dropWhile (\<lambda>c. c = CHR ''-'') (hd ts))
       then skip_options ops numeric (tl ts)
       else skip_options ops numeric ts
     else t # ts)"

lemma skip_options_length: "length (skip_options ops numeric ts) \<le> length ts"
  by (induction ops numeric ts rule: skip_options.induct) (auto simp: le_Suc_eq)

text \<open>The inner command, the names of the variables set, and a reason to refuse.\<close>

function strip_wrappers :: "textops \<Rightarrow> string list \<Rightarrow> string list \<times> string list \<times> string option" where
  "strip_wrappers ops [] = ([], [], None)"
| "strip_wrappers ops (a # rest) =
    (let w = command_name ops a in
     if w \<notin> set wrappers then (a # rest, [], None)
     else if w = ''env'' then
       (let names = map (takeWhile (\<lambda>c. c \<noteq> CHR ''='')) (takeWhile is_assignment rest);
            rest' = dropWhile is_assignment rest
        in if rest' \<noteq> [] \<and> dashed (hd rest')
           then ([], names, Some ''env options change the environment (env -i, -u, -S)'')
           else case strip_wrappers ops rest' of (inner, names', why) \<Rightarrow> (inner, names @ names', why))
     else if w = ''timeout'' then strip_wrappers ops (drop 1 (dropWhile dashed rest))
     else strip_wrappers ops (skip_options ops (w = ''nice'' \<or> w = ''ionice'') rest))"
  by pat_completeness auto
termination
  by (relation "measure (\<lambda>(ops, argv). length argv)")
    (auto simp: less_Suc_eq_le length_dropWhile_le skip_options_length intro: le_trans [OF diff_le_self])

declare strip_wrappers.simps(2) [simp del]

subsection \<open>The executable\<close>

definition inside_any :: "fsys \<Rightarrow> string \<Rightarrow> string list \<Rightarrow> bool" where
  "inside_any fs p roots \<longleftrightarrow> (\<exists>r \<in> set roots. under_path (realpath fs p) (realpath fs r))"

definition scrubbed_path :: "fsys \<Rightarrow> string \<Rightarrow> string \<Rightarrow> string" where
  "scrubbed_path fs project path_env =
    (let root = realpath fs project in
     join '':'' (filter (\<lambda>e. e \<noteq> [] \<and> realpath fs e \<noteq> root \<and> \<not> startswith (realpath fs e) (root @ [sep]))
       (split_on (CHR '':'') path_env)))"

definition usable :: "fsys \<Rightarrow> string list \<Rightarrow> string \<Rightarrow> bool" where
  "usable fs outside full \<longleftrightarrow> is_file fs full \<and> executable_by_us fs full \<and> \<not> inside_any fs full outside"

definition resolve_executable :: "fsys \<Rightarrow> string \<Rightarrow> string \<Rightarrow> string list \<Rightarrow> string option" where
  "resolve_executable fs name path_env outside =
    find (usable fs outside)
      (map (\<lambda>entry. path_join entry name)
        (filter (\<lambda>e. e \<noteq> [] \<and> startswith e ''/'') (split_on (CHR '':'') path_env)))"

subsection \<open>Rules\<close>

definition is_path :: "string \<Rightarrow> bool" where
  "is_path a \<longleftrightarrow> CHR ''/'' \<in> set a \<or> CHR 0x5C \<in> set a"

definition rule_prefix :: "textops \<Rightarrow> string list \<Rightarrow> string list \<Rightarrow> bool" where
  "rule_prefix ops rule argv =
    (if length rule > length argv then False
     else if is_path (hd rule) \<noteq> is_path (hd argv) then False
     else if (if is_path (hd argv)
              then op_lower ops (normpath (hd rule)) \<noteq> op_lower ops (normpath (hd argv))
              else command_name ops (hd rule) \<noteq> command_name ops (hd argv))
     then False
     else list_all2 (=) (tl rule) (take (length rule - 1) (tl argv)))"

subsection \<open>Classification\<close>

datatype outcome = Refused | Asks | Matches

record match_result =
  m_outcome :: outcome
  m_reason :: string
  m_argv :: "string list"
  m_executable :: "string option"
  m_rule_id :: "string option"
  m_repository_code :: bool
  m_notes :: "string list"
  m_sha :: "string option"

definition refused :: "string list \<Rightarrow> string \<Rightarrow> string option \<Rightarrow> match_result" where
  "refused argv why exe = \<lparr>m_outcome = Refused, m_reason = why, m_argv = argv, m_executable = exe,
    m_rule_id = None, m_repository_code = False, m_notes = [], m_sha = None\<rparr>"

text \<open>The hard floor: the reason to refuse the inner command under every policy.\<close>

definition is_ract :: "string \<Rightarrow> string list \<Rightarrow> bool" where
  "is_ract name args \<longleftrightarrow> name = ''ract'' \<or>
    name \<in> {''python'', ''py''} \<and> (take 2 args = [''-m'', ''ract''] \<or> take 2 args = [''-m'', ''ract.cli''])"

definition hard_floor :: "textops \<Rightarrow> string list \<Rightarrow> string option" where
  "hard_floor ops inner =
    (let name = command_name ops (hd inner); args = tl inner;
         ract_args = (if name \<noteq> ''ract'' then drop 2 args else args) in
     case map_of never name of
       Some why \<Rightarrow> Some (name @ '' never matches: it '' @ why)
     | None \<Rightarrow>
         if name \<in> set shells then Some (name @ '' is a shell: shells run only in shell mode'')
         else if inline_code name args then Some (name @ '' with inline code runs only in shell mode'')
         else case wrapped_code ops args of
           Some w \<Rightarrow> Some (''a wrapped '' @ w @ '' with inline code or a shell runs only in shell mode'')
         | None \<Rightarrow>
             if name = ''find'' \<and> (\<exists>a \<in> set args. a \<in> set find_exec)
             then Some ''find with -exec, -ok or -delete never matches''
             else if is_ract name args \<and> ract_args \<noteq> [] \<and> hd ract_args \<in> set governance
             then Some (''RACT'' @ [CHR 0x27] @ ''s own governance is not run from inside a run'')
             else case find (\<lambda>(tool, sub). name = tool \<and> sub \<in> set (take 2 args)) publish of
               Some (tool, sub) \<Rightarrow> Some (tool @ '' '' @ sub @ '' publishes a package'')
             | None \<Rightarrow> None)"

text \<open>
  Where the command runs: the file in the project it names, or the first one on the \<open>PATH\<close>
  outside the project, or the reason to refuse it.
\<close>

definition locate ::
    "host \<Rightarrow> fsys \<Rightarrow> string \<Rightarrow> string \<Rightarrow> string list \<Rightarrow> string \<Rightarrow> string + string" where
  "locate h fs project path_env outside_outside cmd =
    (if is_path cmd then
       (let candidate = realpath fs (path_join project cmd) in
        if \<not> under_path candidate (realpath fs project) then Inl (cmd @ '' is outside the project'')
        else if \<not> is_file fs candidate then Inl (cmd @ '' does not exist in the project'')
        else Inr candidate)
     else case resolve_executable fs cmd (scrubbed_path fs project path_env) (project # outside_outside) of
       None \<Rightarrow> Inl (cmd @ '' is not found on PATH outside the project'')
     | Some exe \<Rightarrow> Inr exe)"

text \<open>What no allow rule can let through without a question.\<close>

definition git_asks :: "string \<Rightarrow> string list \<Rightarrow> string option" where
  "git_asks name args =
    (if name = ''git'' \<and> args \<noteq> [] then
       (let sub = (case find (\<lambda>a. \<not> dashed a) args of None \<Rightarrow> [] | Some a \<Rightarrow> a) in
        if dashed (hd args) then Some ''git global options change what the subcommand does''
        else if sub \<in> set remote_git \<or>
          sub = ''archive'' \<and> (\<exists>a \<in> set args. a = ''--remote'' \<or> startswith a ''--remote='')
        then Some ''remote git always asks''
        else None)
     else if name \<in> set subcommand_tools \<and> args \<noteq> [] \<and> dashed (hd args)
     then Some (name @ '' global options change what the subcommand does'')
     else None)"

definition flag_asks :: "string list \<Rightarrow> string option" where
  "flag_asks args =
    (if \<exists>a \<in> set args. takeWhile (\<lambda>c. c \<noteq> CHR ''='') a \<in> set dangerous_flags
     then Some ''an output or execution flag changes what the command does'' else None)"

fun after_p :: "string list \<Rightarrow> string option" where
  "after_p (a # b # xs) = (if a = ''-p'' then Some b else after_p (b # xs))"
| "after_p _ = None"

definition plugin_asks :: "fsys \<Rightarrow> string \<Rightarrow> string \<Rightarrow> string list \<Rightarrow> string option" where
  "plugin_asks fs project name args =
    (if name \<in> {''pytest'', ''py.test''} \<or>
        name \<in> {''python'', ''python3'', ''py''} \<and> take 2 args = [''-m'', ''pytest'']
     then
       (case after_p args of
          Some plugin \<Rightarrow>
            if plugin \<noteq> [] \<and>
              is_file fs (path_join project (map (\<lambda>c. if c = CHR ''.'' then CHR ''/'' else c) plugin @ ''.py''))
            then Some ''pytest -p loads a plugin from the project'' else None
        | None \<Rightarrow> None)
     else None)"

definition written_args :: "textops \<Rightarrow> string list \<Rightarrow> string list \<Rightarrow> string list" where
  "written_args ops model_written args =
    filter (\<lambda>a. op_casefold ops (slashed a) \<in> (\<lambda>w. op_casefold ops (slashed w)) ` set model_written) args"

definition written_asks :: "textops \<Rightarrow> string list \<Rightarrow> string list \<Rightarrow> string option" where
  "written_asks ops model_written args =
    (case written_args ops model_written args of
       [] \<Rightarrow> None
     | a # _ \<Rightarrow> Some (''it names a file written in this session ('' @ a @ '')''))"

definition first_of :: "'a option \<Rightarrow> 'a option \<Rightarrow> 'a option" where
  "first_of a b = (case a of None \<Rightarrow> b | Some x \<Rightarrow> Some x)"

definition asks_because ::
    "textops \<Rightarrow> fsys \<Rightarrow> string \<Rightarrow> string list \<Rightarrow> string \<Rightarrow> string list \<Rightarrow> string option" where
  "asks_because ops fs project model_written name args =
    first_of (first_of (first_of (git_asks name args) (flag_asks args))
      (plugin_asks fs project name args)) (written_asks ops model_written args)"

definition rule_list :: "host \<Rightarrow> string list \<Rightarrow> string" where
  "rule_list h argv = host_repr h (PList (map PStr argv))"

definition decide ::
    "textops \<Rightarrow> fsys \<Rightarrow> string list \<Rightarrow> allow_rule list \<Rightarrow> string \<Rightarrow> string list \<Rightarrow> string list \<Rightarrow> string list \<Rightarrow> string
      \<Rightarrow> match_result" where
  "decide ops fs argv rules project model_written inner env_names exe =
    (let in_repo = is_path (hd inner);
         notes = (if in_repo then [''it runs repository code''] else []);
         because = asks_because ops fs project model_written (command_name ops (hd inner)) (tl inner);
         hit = (if because = None then find (\<lambda>r. rule_prefix ops (rule_argv r) inner) rules else None);
         asks = (\<lambda>w. \<lparr>m_outcome = Asks, m_reason = w, m_argv = argv, m_executable = Some exe,
           m_rule_id = None, m_repository_code = in_repo, m_notes = notes, m_sha = file_sha fs exe\<rparr>)
     in case hit of
       None \<Rightarrow> asks (case because of None \<Rightarrow> ''no rule matches it'' | Some w \<Rightarrow> w)
     | Some r \<Rightarrow>
         if \<exists>n \<in> set env_names. n \<notin> set (rule_env_extra r)
         then asks ''it sets an environment variable the rule does not name''
         else \<lparr>m_outcome = Matches, m_reason = ''the rule '' @ rule_id r, m_argv = argv,
           m_executable = Some exe, m_rule_id = Some (rule_id r),
           m_repository_code = in_repo, m_notes = notes, m_sha = file_sha fs exe\<rparr>)"

definition classify ::
    "host \<Rightarrow> textops \<Rightarrow> fsys \<Rightarrow> string list \<Rightarrow> policy option \<Rightarrow> string \<Rightarrow> string list \<Rightarrow> string \<Rightarrow> string list
      \<Rightarrow> match_result" where
  "classify h ops fs argv pol project model_written path_env outside_outside =
    (if argv = [] \<or> hd argv = [] then refused argv ''the command is empty'' None
     else if \<exists>a \<in> set argv. CHR 0x00 \<in> set a then refused argv ''an argument holds a NUL character'' None
     else case strip_wrappers ops argv of
       (inner, env_names, Some w) \<Rightarrow> refused argv w None
     | (inner, env_names, None) \<Rightarrow>
         if inner = [] then refused argv ''the wrapper names no command'' None
         else if \<not> isascii (hd inner)
         then refused argv (host_repr h (PStr (hd inner)) @
           '' is not a plain ASCII name (a look-alike is not the command)'') None
         else case hard_floor ops inner of
           Some w \<Rightarrow> refused argv w None
         | None \<Rightarrow>
             (case locate h fs project path_env outside_outside (hd inner) of
                Inl w \<Rightarrow> refused argv w None
              | Inr exe \<Rightarrow>
                  if op_lower ops (path_suffix exe) \<in> {''.bat'', ''.cmd''} \<and> \<not> list_all plain_arg (tl inner)
                  then refused argv (path_name exe @ '' runs through cmd.exe, which reparses arguments; an argument here is not plain. hint: use shell mode'') (Some exe)
                  else case find (\<lambda>r. rule_prefix ops r inner) (case pol of None \<Rightarrow> [] | Some p \<Rightarrow> deny_rules p) of
                    Some r \<Rightarrow> refused argv (''denied by the rule '' @ rule_list h r) (Some exe)
                  | None \<Rightarrow>
                      decide ops fs argv (case pol of None \<Rightarrow> [] | Some p \<Rightarrow> allow_rules p)
                        project model_written inner env_names exe))"

subsection \<open>What the stages decide\<close>

lemma inline_code_known:
  "inline_code name args \<Longrightarrow> map_of eval_table name \<noteq> None \<or> name = ''deno'' \<or> name \<in> set always_code"
  by (auto simp: inline_code_def split: if_splits option.splits)

lemma wrapped_code_None:
  assumes "wrapped_code ops args = None" and "args = before @ t # after" and "\<not> dashed t"
  shows "command_name ops t \<notin> set shells \<and> \<not> inline_code (command_name ops t) after"
  using assms
proof (induction before arbitrary: args)
  case Nil
  then show ?case by (auto simp: Let_def split: if_splits dest: inline_code_known)
next
  case (Cons b before)
  then have "wrapped_code ops (before @ t # after) = None"
    by (auto simp: Let_def split: if_splits)
  from Cons.IH [OF this refl Cons.prems(3)] show ?case .
qed

lemma skip_options_suffix: "\<exists>pre. ts = pre @ skip_options ops n ts"
proof (induction ops n ts rule: skip_options.induct)
  case (2 ops n t ts)
  let ?skip = "n \<and> ts \<noteq> [] \<and> op_isdigit ops (dropWhile (\<lambda>c. c = CHR ''-'') (hd ts))"
  consider "\<not> dashed t" | "dashed t" ?skip | "dashed t" "\<not> ?skip" by blast
  then show ?case
  proof cases
    case 2
    with "2.IH"(1) obtain pre where "tl ts = pre @ skip_options ops n (tl ts)" by blast
    with 2 have "t # ts = (t # hd ts # pre) @ skip_options ops n (t # ts)" by (cases ts) auto
    then show ?thesis by blast
  next
    case 3
    with "2.IH"(2) obtain pre where "ts = pre @ skip_options ops n ts" by blast
    with 3 have "t # ts = (t # pre) @ skip_options ops n (t # ts)" by auto
    then show ?thesis by blast
  qed simp
qed simp

lemma dropWhile_suffix: "\<exists>pre. xs = pre @ dropWhile P xs"
  by (metis takeWhile_dropWhile_id)

lemma strip_wrappers_suffix:
  "strip_wrappers ops argv = (inner, names, None) \<Longrightarrow>
    (\<exists>pre. argv = pre @ inner) \<and> (inner = [] \<or> command_name ops (hd inner) \<notin> set wrappers)"
proof (induction ops argv arbitrary: inner names rule: strip_wrappers.induct)
  case (2 ops a rest)
  let ?w = "command_name ops a"
  have ext: "(\<exists>pre. a # rest = pre @ inner) \<and> P"
    if "\<exists>pre. rest = pre @ r" and "(\<exists>pre. r = pre @ inner) \<and> P" for r P
    using that by (metis append_Cons append_assoc)
  consider "?w \<notin> set wrappers" | "?w \<in> set wrappers" "?w = ''env''" | "?w \<in> set wrappers" "?w = ''timeout''"
    | "?w \<in> set wrappers" "?w \<noteq> ''env''" "?w \<noteq> ''timeout''" by blast
  then show ?case
  proof cases
    case 1
    with 2 show ?thesis by (subst (asm) strip_wrappers.simps(2)) auto
  next
    case c: 2
    let ?r = "dropWhile is_assignment rest"
    from "2.prems" c obtain names' where s: "strip_wrappers ops ?r = (inner, names', None)"
      and nd: "\<not> (?r \<noteq> [] \<and> dashed (hd ?r))"
      by (subst (asm) strip_wrappers.simps(2)) (auto simp: Let_def split: if_splits prod.splits)
    show ?thesis using "2.IH"(1) [OF refl _ _ refl refl nd s] c by (intro ext [OF dropWhile_suffix]) auto
  next
    case c: 3
    let ?r = "drop 1 (dropWhile dashed rest)"
    from "2.prems" c have s: "strip_wrappers ops ?r = (inner, names, None)"
      by (subst (asm) strip_wrappers.simps(2)) (simp add: Let_def)
    have "\<exists>pre. rest = pre @ ?r" by (metis append_assoc append_take_drop_id dropWhile_suffix)
    then show ?thesis using "2.IH"(2) [OF refl _ _ _ s] c by (intro ext) auto
  next
    case c: 4
    let ?r = "skip_options ops (?w = ''nice'' \<or> ?w = ''ionice'') rest"
    from "2.prems" c have s: "strip_wrappers ops ?r = (inner, names, None)"
      by (subst (asm) strip_wrappers.simps(2)) (simp add: Let_def)
    show ?thesis using "2.IH"(3) [OF refl _ _ _ s] c by (intro ext [OF skip_options_suffix]) auto
  qed
qed simp

text \<open>A command that gets as far as the rules: what has been checked before.\<close>

definition admitted_command ::
    "host \<Rightarrow> textops \<Rightarrow> fsys \<Rightarrow> string \<Rightarrow> string \<Rightarrow> string list \<Rightarrow> string list \<Rightarrow> string list \<Rightarrow> string list \<Rightarrow> string \<Rightarrow> bool" where
  "admitted_command h ops fs project path_env outside_outside argv inner env_names exe \<longleftrightarrow>
    argv \<noteq> [] \<and> hd argv \<noteq> [] \<and> (\<forall>a \<in> set argv. CHR 0x00 \<notin> set a) \<and>
    strip_wrappers ops argv = (inner, env_names, None) \<and> inner \<noteq> [] \<and> isascii (hd inner) \<and>
    hard_floor ops inner = None \<and> locate h fs project path_env outside_outside (hd inner) = Inr exe \<and>
    (op_lower ops (path_suffix exe) \<in> {''.bat'', ''.cmd''} \<longrightarrow> list_all plain_arg (tl inner))"

lemma m_outcome_refused [simp]: "m_outcome (refused argv w e) = Refused"
  by (simp add: refused_def)

lemma classify_admitted:
  assumes "admitted_command h ops fs project path_env outside argv inner names exe"
  shows "classify h ops fs argv pol project mw path_env outside =
    (case find (\<lambda>r. rule_prefix ops r inner) (case pol of None \<Rightarrow> [] | Some p \<Rightarrow> deny_rules p) of
       Some r \<Rightarrow> refused argv (''denied by the rule '' @ rule_list h r) (Some exe)
     | None \<Rightarrow> decide ops fs argv (case pol of None \<Rightarrow> [] | Some p \<Rightarrow> allow_rules p) project mw inner names exe)"
  using assms unfolding admitted_command_def classify_def by (simp only: prod.case option.case sum.case if_False) auto

lemma classify_not_admitted:
  assumes "\<nexists>inner names exe. admitted_command h ops fs project path_env outside argv inner names exe"
  shows "m_outcome (classify h ops fs argv pol project mw path_env outside) = Refused \<and>
    classify h ops fs argv pol' project mw path_env outside = classify h ops fs argv pol project mw path_env outside"
proof -
  obtain inner names why where st: "strip_wrappers ops argv = (inner, names, why)" by (cases "strip_wrappers ops argv")
  consider "argv = [] \<or> hd argv = []" | "\<exists>a \<in> set argv. CHR 0x00 \<in> set a" | w where "why = Some w"
    | "inner = []" | "\<not> isascii (hd inner)" | w where "hard_floor ops inner = Some w"
    | w where "locate h fs project path_env outside (hd inner) = Inl w"
    | exe where "why = None" "locate h fs project path_env outside (hd inner) = Inr exe"
      "op_lower ops (path_suffix exe) \<in> {''.bat'', ''.cmd''}" "\<not> list_all plain_arg (tl inner)"
    using assms st unfolding admitted_command_def
    by (cases why; cases "hard_floor ops inner"; cases "locate h fs project path_env outside (hd inner)") auto
  then show ?thesis
    by cases (auto simp: classify_def st split: option.splits sum.splits)
qed

lemma decide_not_refused [simp]: "m_outcome (decide ops fs argv rules project mw inner names exe) \<noteq> Refused"
  by (auto simp: decide_def Let_def split: option.splits)

lemma decide_matches:
  assumes "m_outcome (decide ops fs argv rules project mw inner names exe) = Matches"
  shows "\<exists>r \<in> set rules. rule_prefix ops (rule_argv r) inner \<and> set names \<subseteq> set (rule_env_extra r) \<and>
    m_rule_id (decide ops fs argv rules project mw inner names exe) = Some (rule_id r) \<and>
    m_executable (decide ops fs argv rules project mw inner names exe) = Some exe \<and>
    asks_because ops fs project mw (command_name ops (hd inner)) (tl inner) = None"
proof (cases "asks_because ops fs project mw (command_name ops (hd inner)) (tl inner)")
  case None
  show ?thesis
  proof (cases "find (\<lambda>r. rule_prefix ops (rule_argv r) inner) rules")
    case (Some r)
    then have "r \<in> set rules" "rule_prefix ops (rule_argv r) inner" by (auto simp: find_Some_iff)
    with assms None Some show ?thesis by (intro bexI [of _ r]) (auto simp: decide_def Let_def split: if_splits)
  qed (use assms None in \<open>simp add: decide_def Let_def\<close>)
qed (use assms in \<open>simp add: decide_def Let_def\<close>)

lemma first_of_None [simp]: "first_of a b = None \<longleftrightarrow> a = None \<and> b = None"
  by (cases a) (simp_all add: first_of_def)

lemma locate_outside:
  assumes "locate h fs project path_env outside cmd = Inr exe" and "\<not> is_path cmd"
  shows "is_file fs exe \<and> executable_by_us fs exe \<and> \<not> inside_any fs exe (project # outside)"
  using assms by (auto simp: locate_def resolve_executable_def find_Some_iff usable_def split: option.splits)

lemma floor_None:
  assumes "hard_floor ops inner = None"
  shows "map_of never (command_name ops (hd inner)) = None" "command_name ops (hd inner) \<notin> set shells"
    "\<not> inline_code (command_name ops (hd inner)) (tl inner)" "wrapped_code ops (tl inner) = None"
  using assms by (auto simp: hard_floor_def Let_def split: option.splits if_splits)

lemma floor_everywhere:
  assumes "hard_floor ops inner = None" and "inner = before @ t # after" and "before = [] \<or> \<not> dashed t"
  shows "command_name ops t \<notin> set shells \<and> \<not> inline_code (command_name ops t) after"
proof (cases before)
  case Nil
  with floor_None [OF assms(1)] assms(2) show ?thesis by simp
next
  case (Cons b bs)
  with floor_None(4) [OF assms(1)] assms(2,3) show ?thesis
    by (intro wrapped_code_None [of ops "tl inner" bs]) simp_all
qed

subsection \<open>Properties\<close>


definition demo_rule :: "string \<Rightarrow> string list \<Rightarrow> string list \<Rightarrow> allow_rule" where
  "demo_rule i argv extra = \<lparr>rule_id = i, rule_argv = argv, rule_network = False, rule_cwd = ''step_worktree'',
     rule_timeout_s = 900, rule_max_output_bytes = 1048576, rule_home = ''isolated'', rule_env_extra = extra,
     rule_git_hooks = False, rule_backend = ''host'', rule_image = None\<rparr>"

definition demo_policy :: policy where
  "demo_policy = \<lparr>binding_root = ''/p'', binding_commit = None, issued_at = 0, issued_offset = 0, expires_at = 100,
    policy_key_id = ''k'', max_mode = ''allowlist'', sandbox_mode = ''best_effort'',
    allow_rules = [demo_rule ''tests'' [''pytest''] [''CI''], demo_rule ''perl'' [''perl'', ''-0ne''] []],
    deny_rules = [[''git'', ''reset'']], shell_enabled = False, web_domains = None, max_procs = 64,
    memory_mb = 4096, cpu_seconds = 900\<rparr>"

definition demo_run :: "string list \<Rightarrow> match_result" where
  "demo_run argv = classify demo_host ascii_ops demo_fsys argv (Some demo_policy) ''/p'' [] ''/usr/bin:/p/bin'' []"

lemma demo_runs:
  "m_outcome (demo_run [''env'', ''CI=1'', ''nice'', ''-n'', ''5'', ''pytest'', ''-q'']) = Matches"
  "m_outcome (demo_run [''git'', ''push'']) = Asks"
  "m_outcome (demo_run [''env'', ''X=1'', ''bash'', ''-lc'', ''ls'']) = Refused"
  by code_simp+


text \<open>
  A command matches only under a rule of the policy: an allow rule fits the command behind
  its wrappers and names every variable these set, no deny rule fits it, its \<open>git\<close>
  subcommand is no remote one and no global option precedes it, no argument is an output or
  execution flag or names a file written in the session, and a command given by its bare name
  runs a file that lies, links followed, outside the project and the step's worktree.
\<close>

theorem match_needs_rule:
  assumes "m_outcome (classify h ops fs argv pol project mw path_env outside) = Matches"
  shows "\<exists>p r inner names exe. pol = Some p \<and> r \<in> set (allow_rules p) \<and>
    strip_wrappers ops argv = (inner, names, None) \<and> rule_prefix ops (rule_argv r) inner \<and>
    set names \<subseteq> set (rule_env_extra r) \<and>
    m_rule_id (classify h ops fs argv pol project mw path_env outside) = Some (rule_id r) \<and>
    m_executable (classify h ops fs argv pol project mw path_env outside) = Some exe \<and>
    (\<forall>d \<in> set (deny_rules p). \<not> rule_prefix ops d inner) \<and>
    (\<forall>sub. command_name ops (hd inner) = ''git'' \<and> find (\<lambda>a. \<not> dashed a) (tl inner) = Some sub \<longrightarrow>
      sub = hd (tl inner) \<and> sub \<notin> set remote_git) \<and>
    (\<forall>a \<in> set (tl inner). takeWhile (\<lambda>c. c \<noteq> CHR ''='') a \<notin> set dangerous_flags \<and>
      op_casefold ops (slashed a) \<notin> (\<lambda>w. op_casefold ops (slashed w)) ` set mw) \<and>
    (\<not> is_path (hd inner) \<longrightarrow> is_file fs exe \<and> \<not> inside_any fs exe (project # outside))"
proof -
  from assms classify_not_admitted [of h ops fs project path_env outside argv pol mw] obtain inner names exe
    where a: "admitted_command h ops fs project path_env outside argv inner names exe" by fastforce
  let ?rules = "case pol of None \<Rightarrow> [] | Some p \<Rightarrow> allow_rules p"
  let ?deny = "case pol of None \<Rightarrow> [] | Some p \<Rightarrow> deny_rules p"
  have nd: "find (\<lambda>r. rule_prefix ops r inner) ?deny = None"
    using assms by (simp add: classify_admitted [OF a] split: option.splits)
  then have c: "classify h ops fs argv pol project mw path_env outside = decide ops fs argv ?rules project mw inner names exe"
    by (simp add: classify_admitted [OF a])
  from decide_matches [OF assms [unfolded c]] obtain r where r: "r \<in> set ?rules" "rule_prefix ops (rule_argv r) inner"
    "set names \<subseteq> set (rule_env_extra r)"
    "m_rule_id (decide ops fs argv ?rules project mw inner names exe) = Some (rule_id r)"
    "m_executable (decide ops fs argv ?rules project mw inner names exe) = Some exe"
    "asks_because ops fs project mw (command_name ops (hd inner)) (tl inner) = None" by blast
  from r(1) obtain p where p: "pol = Some p" "r \<in> set (allow_rules p)" by (cases pol) auto
  from r(6) have q: "git_asks (command_name ops (hd inner)) (tl inner) = None" "flag_asks (tl inner) = None"
    "written_asks ops mw (tl inner) = None" by (simp_all add: asks_because_def)
  have git: "sub = hd (tl inner) \<and> sub \<notin> set remote_git"
    if "command_name ops (hd inner) = ''git'' \<and> find (\<lambda>a. \<not> dashed a) (tl inner) = Some sub" for sub
    using that q(1) by (cases "tl inner") (auto simp: git_asks_def split: if_splits)
  have "written_args ops mw (tl inner) = []" using q(3) by (auto simp: written_asks_def split: list.splits)
  then have wr: "op_casefold ops (slashed a) \<notin> (\<lambda>w. op_casefold ops (slashed w)) ` set mw" if "a \<in> set (tl inner)" for a
    using that by (simp add: written_args_def filter_empty_conv)
  have fl: "takeWhile (\<lambda>c. c \<noteq> CHR ''='') a \<notin> set dangerous_flags" if "a \<in> set (tl inner)" for a
    using that q(2) by (auto simp: flag_asks_def split: if_splits)
  have lo: "\<not> is_path (hd inner) \<longrightarrow> is_file fs exe \<and> \<not> inside_any fs exe (project # outside)"
    using a locate_outside by (auto simp: admitted_command_def)
  have st: "strip_wrappers ops argv = (inner, names, None)" using a by (simp add: admitted_command_def)
  have dn: "\<forall>d \<in> set (deny_rules p). \<not> rule_prefix ops d inner" using nd p(1) by (simp add: find_None_iff)
  show ?thesis
    using p st r(2,3) r(4,5) [folded c] dn git fl wr lo by blast
qed

theorem match_needs_rule_witness:
  "rule_prefix ascii_ops [''pytest''] [''pytest'', ''-q''] \<and>
    m_rule_id (demo_run [''env'', ''CI=1'', ''nice'', ''-n'', ''5'', ''pytest'', ''-q'']) = Some ''tests''"
proof -
  let ?argv = "[''env'', ''CI=1'', ''nice'', ''-n'', ''5'', ''pytest'', ''-q'']"
  have s: "strip_wrappers ascii_ops ?argv = ([''pytest'', ''-q''], [''CI''], None)" by code_simp
  have n: "\<not> rule_prefix ascii_ops [''perl'', ''-0ne''] [''pytest'', ''-q'']" by code_simp
  from match_needs_rule [OF demo_runs(1) [unfolded demo_run_def]] s n show ?thesis
    by (auto simp: demo_run_def demo_policy_def demo_rule_def)
qed

text \<open>
  A policy can only narrow: what is refused without a policy is refused with the same
  reason under each, and adding deny rules to a policy leaves a verdict as it is or refuses.
\<close>

theorem deny_rules_only_refuse:
  assumes "allow_rules q = allow_rules p" and "set (deny_rules p) \<subseteq> set (deny_rules q)"
  shows "(m_outcome (classify h ops fs argv None project mw path_env outside) = Refused \<longrightarrow>
      classify h ops fs argv (Some q) project mw path_env outside = classify h ops fs argv None project mw path_env outside) \<and>
    (m_outcome (classify h ops fs argv (Some q) project mw path_env outside) = Refused \<or>
      classify h ops fs argv (Some q) project mw path_env outside =
        classify h ops fs argv (Some p) project mw path_env outside)"
proof (cases "\<exists>inner names exe. admitted_command h ops fs project path_env outside argv inner names exe")
  case True
  then obtain inner names exe where a: "admitted_command h ops fs project path_env outside argv inner names exe" by blast
  note c = classify_admitted [OF a]
  show ?thesis
  proof (cases "find (\<lambda>r. rule_prefix ops r inner) (deny_rules q)")
    case None
    with assms(2) have "find (\<lambda>r. rule_prefix ops r inner) (deny_rules p) = None" by (auto simp: find_None_iff)
    with None assms(1) show ?thesis by (simp add: c)
  qed (simp add: c)
next
  case False
  from classify_not_admitted [OF this] show ?thesis by blast
qed

theorem deny_rules_only_refuse_witness:
  "m_outcome (classify demo_host ascii_ops demo_fsys [''git'', ''push'']
    (Some (demo_policy\<lparr>deny_rules := [[''git'']]\<rparr>)) ''/p'' [] ''/usr/bin'' []) = Refused"
proof -
  have "m_outcome (classify demo_host ascii_ops demo_fsys [''git'', ''push''] (Some (demo_policy\<lparr>deny_rules := [[''git'']]\<rparr>))
      ''/p'' [] ''/usr/bin'' []) \<noteq> Asks" by code_simp
  with deny_rules_only_refuse [of "demo_policy\<lparr>deny_rules := [[''git'']]\<rparr>" "demo_policy\<lparr>deny_rules := []\<rparr>"
      demo_host ascii_ops demo_fsys "[''git'', ''push'']" "''/p''" "[]" "''/usr/bin''" "[]"]
  have "m_outcome (classify demo_host ascii_ops demo_fsys [''git'', ''push''] (Some (demo_policy\<lparr>deny_rules := [[''git'']]\<rparr>))
      ''/p'' [] ''/usr/bin'' []) = Refused \<or>
    m_outcome (classify demo_host ascii_ops demo_fsys [''git'', ''push''] (Some (demo_policy\<lparr>deny_rules := []\<rparr>))
      ''/p'' [] ''/usr/bin'' []) \<noteq> Asks" by force
  moreover have "m_outcome (classify demo_host ascii_ops demo_fsys [''git'', ''push''] (Some (demo_policy\<lparr>deny_rules := []\<rparr>))
      ''/p'' [] ''/usr/bin'' []) = Asks" by code_simp
  ultimately show ?thesis by blast
qed

text \<open>
  The floor misses code behind a digit: \<open>perl -0ne CODE\<close> and \<open>ruby -0777e CODE\<close> are not
  taken for inline code, since a cluster is read as letters only, and a rule that names the
  options lets any code after them run; without the digit both are refused.
\<close>

theorem digit_cluster_escapes_floor:
  "m_outcome (demo_run [''perl'', ''-0ne'', ''system q(id)'']) = Matches \<and>
   m_outcome (demo_run [''ruby'', ''-0777e'', ''exit'']) = Asks \<and>
   m_outcome (demo_run [''perl'', ''-ne'', ''system q(id)'']) = Refused \<and>
   m_outcome (demo_run [''ruby'', ''-e'', ''exit'']) = Refused"
proof (intro conjI)
  show "m_outcome (demo_run [''perl'', ''-0ne'', ''system q(id)'']) = Matches" by code_simp
  show "m_outcome (demo_run [''ruby'', ''-0777e'', ''exit'']) = Asks" by code_simp
  show "m_outcome (demo_run [''perl'', ''-ne'', ''system q(id)'']) = Refused" by code_simp
  show "m_outcome (demo_run [''ruby'', ''-e'', ''exit'']) = Refused" by code_simp
qed

end
