(* ===== verification/TraceEvents.thy ===== *)
theory TraceEvents
  imports Journal
begin

section \<open>Trace events and their hash chain\<close>

text \<open>
  The model of \<open>src/ract/trace/events.py\<close>: the closed vocabulary of event kinds, the hash of an
  event, the \<open>Event\<close> value with its checks and its canonical form, and \<open>EventChain\<close>. SHA-256
  is the parameter \<open>sha256\<close> and NFC the parameter \<open>nfc\<close>; the identifier \<open>uuid4\<close> draws and the
  clock's reading are arguments of \<open>build_next\<close>.
\<close>

subsection \<open>Kinds\<close>

definition legal_event_kinds :: "string list" where
  "legal_event_kinds = [
    ''run.started'', ''run.completed'', ''run.aborted'', ''step.started'', ''step.committed'',
    ''step.rolled_back'', ''prompt.sent'', ''response.received'', ''response.validated'',
    ''response.rejected'', ''tool.called'', ''tool.result'', ''tool.refused'',
    ''sandbox.granted'', ''sandbox.denied'', ''sandbox.unenforced'', ''sandbox.env_scrubbed'',
    ''predicate.evaluated'', ''handshake.requested'', ''handshake.resolved'',
    ''rootknot.created'', ''rootknot.verified'', ''assumption.proposed'',
    ''assumption.accepted'', ''assumption.discharged'', ''assumption.violated'',
    ''auction.proposal'', ''laziness.violated'', ''reversal.suspicious'',
    ''investigator.report'', ''plan.rewritten'', ''plan.risk_assessed'', ''budget.declared'',
    ''budget.exceeded'', ''retrieval.requested'', ''retrieval.satisfied'',
    ''retrieval.cascaded'', ''retrieval.refused'', ''probe.evaluated'',
    ''manifest.ledger.appended'', ''manifest.ledger.refused'', ''whisperer.contract_violation'',
    ''process.reaped'', ''state.budget_capped'', ''retrieval.grouping.applied'',
    ''subagent.disposed'', ''substrate.subagent.tree_kill_invoked'',
    ''substrate.subagent.pid_reuse_detected'', ''substrate.subagent.orphan_reaped'',
    ''runtime.run_id.env_injected'', ''runtime.run_id.env_rejected'',
    ''runtime.run_id.env_stripped_from_parent'', ''runtime.run_id.orphan_generated'',
    ''sidecar.header.written'', ''sidecar.header.missing_refused'',
    ''sidecar.header.mismatch_refused'', ''sidecar.header.legacy_fallback'',
    ''trace.torn_tail_detected'', ''trace.incremental_verify_resumed'',
    ''trace.verify_completed'', ''budget.clamp_refused'', ''budget.adjusted_by_probes'',
    ''tool.invocation.bypassed'', ''laziness.skipped'', ''whisperer.classifier_error'',
    ''laziness.gate_error'', ''memory.probe_scheduler_error'',
    ''memory.composition_runner_error'', ''memory.cascade_error'', ''memory.freshness_gap'',
    ''tool.invocation.pre'', ''tool.invocation.post'', ''tool.invocation.refused'',
    ''compensator.installed'', ''compensator.discarded'', ''compensator.applied'',
    ''compensator.refused'']"

definition nul_free :: "string \<Rightarrow> bool" where
  "nul_free s \<longleftrightarrow> CHR 0x00 \<notin> set s"

lemma legal_kinds_plain:
  "list_all (list_all (\<lambda>c. \<not> digit7 c \<and> (digit5 c \<or> digit6 c))) legal_event_kinds"
  unfolding legal_event_kinds_def by (simp only: list.pred_inject char.sel simp_thms)

lemma digit7_code: "\<not> digit7 c \<Longrightarrow> code c < 128"
  by (cases c) (simp add: of_char_def of_bool_def)

lemma isascii_legal: "k \<in> set legal_event_kinds \<Longrightarrow> isascii k"
  using legal_kinds_plain digit7_code by (auto simp: isascii_def list_all_iff)

lemma nul_free_legal: "k \<in> set legal_event_kinds \<Longrightarrow> nul_free k"
  using legal_kinds_plain by (fastforce simp: nul_free_def list_all_iff)
subsection \<open>Errors\<close>

text \<open>
  \<open>InvalidEvent\<close> stands for the \<open>ValueError\<close>, \<open>KeyError\<close> and \<open>TypeError\<close> that the readers
  take for a malformed event, \<open>NumberOverflow\<close> for an \<open>OverflowError\<close>, and \<open>Unencodable\<close> for
  what \<open>dumps_jcs\<close> raises.
\<close>

datatype trace_error =
    InvalidEvent
  | NumberOverflow
  | Unencodable jcs_error
  | ChainBroken
  | TraceOs os_error
  | SinkRaised
  | WriteFirstViolation
  | NoRunId

subsection \<open>The hash of an event\<close>

fun be_bytes :: "nat \<Rightarrow> int \<Rightarrow> string" where
  "be_bytes 0 n = []"
| "be_bytes (Suc k) n = be_bytes k (n div 256) @ [char_of (nat (n mod 256))]"

definition zero_bytes :: "nat \<Rightarrow> string" where
  "zero_bytes n = replicate n (CHR 0x00)"

definition genesis_hash :: string where
  "genesis_hash = zero_bytes 32"

text \<open>\<open>b or b"\x00" * 16\<close>.\<close>

definition or_zeros :: "string option \<Rightarrow> string" where
  "or_zeros b = (case b of None \<Rightarrow> zero_bytes 16 | Some s \<Rightarrow> if s = [] then zero_bytes 16 else s)"

text \<open>What \<open>hash_event\<close> feeds to the digest.\<close>

definition hash_preimage ::
    "(string \<Rightarrow> string) \<Rightarrow> string \<Rightarrow> payload \<Rightarrow> string \<Rightarrow> string \<Rightarrow> string \<Rightarrow> string option \<Rightarrow> string option \<Rightarrow> int
      \<Rightarrow> trace_error + string" where
  "hash_preimage nfc kd p prev i run step par ts =
    (if \<not> utf8_valid kd then Inl (Unencodable UnicodeEncodeError)
     else if ts < 0 \<or> 2 ^ 64 \<le> ts then Inl NumberOverflow
     else case dumps_jcs nfc (PDict p) of
       Inl e \<Rightarrow> Inl (Unencodable e)
     | Inr t \<Rightarrow> Inr (kd @ [CHR 0x00] @ i @ run @ or_zeros step @ or_zeros par @ be_bytes 8 ts @ t @ prev))"

definition hash_event ::
    "(string \<Rightarrow> string) \<Rightarrow> (string \<Rightarrow> string) \<Rightarrow> string \<Rightarrow> payload \<Rightarrow> string \<Rightarrow> string \<Rightarrow> string \<Rightarrow> string option
      \<Rightarrow> string option \<Rightarrow> int \<Rightarrow> trace_error + string" where
  "hash_event nfc sha256 kd p prev i run step par ts =
    rbind (hash_preimage nfc kd p prev i run step par ts) (\<lambda>b. Inr (sha256 b))"

subsection \<open>Events\<close>

record event =
  ev_id :: string
  ev_run_id :: string
  ev_step_id :: "string option"
  ev_parent_id :: "string option"
  timestamp_ns :: int
  ev_kind :: string
  ev_payload :: payload
  ev_hash :: string
  prev_hash :: string

definition len_or_none :: "nat \<Rightarrow> string option \<Rightarrow> bool" where
  "len_or_none n b = (case b of None \<Rightarrow> True | Some s \<Rightarrow> length s = n)"

definition event_ok :: "event \<Rightarrow> bool" where
  "event_ok e \<longleftrightarrow>
    length (ev_id e) = 16 \<and> length (ev_run_id e) = 16 \<and>
    len_or_none 16 (ev_step_id e) \<and> len_or_none 16 (ev_parent_id e) \<and>
    0 \<le> timestamp_ns e \<and> timestamp_ns e < 2 ^ 64 \<and>
    ev_kind e \<in> set legal_event_kinds \<and>
    length (ev_hash e) = 32 \<and> length (prev_hash e) = 32"

definition event_post_init :: "event \<Rightarrow> trace_error + event" where
  "event_post_init e = (if event_ok e then Inr e else Inl InvalidEvent)"

definition preimage :: "(string \<Rightarrow> string) \<Rightarrow> event \<Rightarrow> trace_error + string" where
  "preimage nfc e = hash_preimage nfc (ev_kind e) (ev_payload e) (prev_hash e) (ev_id e) (ev_run_id e)
     (ev_step_id e) (ev_parent_id e) (timestamp_ns e)"

text \<open>The hash of an event's own fields; \<open>rebuild_hash\<close> of the writer's module.\<close>

definition rebuild_hash :: "(string \<Rightarrow> string) \<Rightarrow> (string \<Rightarrow> string) \<Rightarrow> event \<Rightarrow> trace_error + string" where
  "rebuild_hash nfc sha256 e = hash_event nfc sha256 (ev_kind e) (ev_payload e) (prev_hash e) (ev_id e)
     (ev_run_id e) (ev_step_id e) (ev_parent_id e) (timestamp_ns e)"

lemma rebuild_hash_preimage: "rebuild_hash nfc sha256 e = rbind (preimage nfc e) (\<lambda>b. Inr (sha256 b))"
  by (simp add: rebuild_hash_def hash_event_def preimage_def)

definition hex_or_none :: "string option \<Rightarrow> pyval" where
  "hex_or_none b = (case b of None \<Rightarrow> PNone | Some s \<Rightarrow> PStr (hex s))"

definition to_canonical_dict :: "event \<Rightarrow> payload" where
  "to_canonical_dict e =
    [(KStr ''id'', PStr (hex (ev_id e))), (KStr ''run_id'', PStr (hex (ev_run_id e))),
     (KStr ''step_id'', hex_or_none (ev_step_id e)), (KStr ''parent_id'', hex_or_none (ev_parent_id e)),
     (KStr ''timestamp_ns'', PInt (timestamp_ns e)), (KStr ''kind'', PStr (ev_kind e)),
     (KStr ''payload'', PDict (ev_payload e)), (KStr ''hash'', PStr (hex (ev_hash e))),
     (KStr ''prev_hash'', PStr (hex (prev_hash e)))]"

subsection \<open>Reading an event\<close>

text \<open>\<open>raw[k]\<close>; every JSON value that is not a dict raises a \<open>TypeError\<close> for a text key.\<close>

definition field_of :: "pyval \<Rightarrow> string \<Rightarrow> trace_error + pyval" where
  "field_of raw k =
    (case raw of
       PDict d \<Rightarrow> (case map_of d (KStr k) of None \<Rightarrow> Inl InvalidEvent | Some v \<Rightarrow> Inr v)
     | _ \<Rightarrow> Inl InvalidEvent)"

definition bytes_of :: "pyval \<Rightarrow> trace_error + string" where
  "bytes_of v =
    (case v of
       PStr s \<Rightarrow> (case fromhex s of None \<Rightarrow> Inl InvalidEvent | Some b \<Rightarrow> Inr b)
     | _ \<Rightarrow> Inl InvalidEvent)"

text \<open>\<open>bytes.fromhex(raw[k]) if raw.get(k) else None\<close>.\<close>

definition optional_bytes_of :: "pyval \<Rightarrow> string \<Rightarrow> trace_error + string option" where
  "optional_bytes_of raw k =
    (case raw of
       PDict d \<Rightarrow>
         if truthy (get_value d k) then rbind (bytes_of (get_value d k)) (\<lambda>b. Inr (Some b)) else Inr None
     | _ \<Rightarrow> Inl InvalidEvent)"

text \<open>\<open>int(v)\<close>: of an infinite float it is an \<open>OverflowError\<close>.\<close>

definition int_of :: "host \<Rightarrow> pyval \<Rightarrow> trace_error + int" where
  "int_of h v =
    (case v of
       PFloat (FInf _) \<Rightarrow> Inl NumberOverflow
     | _ \<Rightarrow> (case py_int h v of None \<Rightarrow> Inl InvalidEvent | Some i \<Rightarrow> Inr i))"

text \<open>
  \<open>dict(v)\<close>: a dict is copied, other containers must hold pairs whose first element is
  hashable. The characters of a text are its code points.
\<close>

lemma dropWhile_shorter [termination_simp]: "length (dropWhile P xs) < Suc (length xs)"
  by (simp add: less_Suc_eq_le length_dropWhile_le)

fun chars :: "string \<Rightarrow> string list" where
  "chars [] = []"
| "chars (a # s) = (a # takeWhile cont s) # chars (dropWhile cont s)"

definition key_value :: "pykey \<Rightarrow> pyval" where
  "key_value k = (case k of KStr s \<Rightarrow> PStr s | KOther \<Rightarrow> PNone)"

definition elements :: "pyval \<Rightarrow> pyval list option" where
  "elements v =
    (case v of
       PList vs \<Rightarrow> Some vs
     | PStr s \<Rightarrow> Some (map PStr (chars s))
     | PDict kvs \<Rightarrow> Some (map (\<lambda>(k, _). key_value k) kvs)
     | _ \<Rightarrow> None)"

definition hash_key :: "pyval \<Rightarrow> pykey option" where
  "hash_key v = (case v of PStr s \<Rightarrow> Some (KStr s) | PList _ \<Rightarrow> None | PDict _ \<Rightarrow> None | _ \<Rightarrow> Some KOther)"

definition pair_of :: "pyval \<Rightarrow> (pykey \<times> pyval) option" where
  "pair_of v =
    (case elements v of
       Some [k, w] \<Rightarrow> map_option (\<lambda>key. (key, w)) (hash_key k)
     | _ \<Rightarrow> None)"

fun dict_of_items :: "payload \<Rightarrow> pyval list \<Rightarrow> payload option" where
  "dict_of_items d [] = Some d"
| "dict_of_items d (v # vs) =
    (case pair_of v of None \<Rightarrow> None | Some (k, w) \<Rightarrow> dict_of_items (AList.update k w d) vs)"

definition py_dict :: "pyval \<Rightarrow> payload option" where
  "py_dict v =
    (case v of
       PDict d \<Rightarrow> Some d
     | _ \<Rightarrow> (case elements v of None \<Rightarrow> None | Some vs \<Rightarrow> dict_of_items [] vs))"

definition dict_of :: "pyval \<Rightarrow> trace_error + payload" where
  "dict_of v = (case py_dict v of None \<Rightarrow> Inl InvalidEvent | Some d \<Rightarrow> Inr d)"

definition kind_of :: "pyval \<Rightarrow> string option" where
  "kind_of v = (case v of PStr k \<Rightarrow> Some k | _ \<Rightarrow> None)"

text \<open>A kind that is no text is not in the vocabulary, or cannot be looked up in it.\<close>

definition from_canonical_dict :: "host \<Rightarrow> pyval \<Rightarrow> trace_error + event" where
  "from_canonical_dict h raw =
    rbind (field_of raw ''id'') (\<lambda>vi. rbind (bytes_of vi) (\<lambda>i.
    rbind (field_of raw ''run_id'') (\<lambda>vr. rbind (bytes_of vr) (\<lambda>run.
    rbind (optional_bytes_of raw ''step_id'') (\<lambda>step.
    rbind (optional_bytes_of raw ''parent_id'') (\<lambda>par.
    rbind (field_of raw ''timestamp_ns'') (\<lambda>vt. rbind (int_of h vt) (\<lambda>ts.
    rbind (field_of raw ''kind'') (\<lambda>vk.
    rbind (field_of raw ''payload'') (\<lambda>vp. rbind (dict_of vp) (\<lambda>p.
    rbind (field_of raw ''hash'') (\<lambda>vh. rbind (bytes_of vh) (\<lambda>hs.
    rbind (field_of raw ''prev_hash'') (\<lambda>vq. rbind (bytes_of vq) (\<lambda>prev.
      case kind_of vk of
        None \<Rightarrow> Inl InvalidEvent
      | Some k \<Rightarrow>
          event_post_init
            \<lparr>ev_id = i, ev_run_id = run, ev_step_id = step, ev_parent_id = par, timestamp_ns = ts,
             ev_kind = k, ev_payload = p, ev_hash = hs, prev_hash = prev\<rparr>)))))))))))))))"

subsection \<open>The chain\<close>

record event_chain =
  chain_run_id :: string
  chain_events :: "event list"
  tip_hash :: string

definition new_chain :: "string \<Rightarrow> event_chain" where
  "new_chain run = \<lparr>chain_run_id = run, chain_events = [], tip_hash = genesis_hash\<rparr>"

definition chain_append_event ::
    "(string \<Rightarrow> string) \<Rightarrow> (string \<Rightarrow> string) \<Rightarrow> event_chain \<Rightarrow> event \<Rightarrow> trace_error + event_chain" where
  "chain_append_event nfc sha256 c e =
    (if prev_hash e \<noteq> tip_hash c then Inl ChainBroken
     else rbind (rebuild_hash nfc sha256 e) (\<lambda>expected.
       if expected \<noteq> ev_hash e then Inl ChainBroken
       else Inr (c\<lparr>chain_events := chain_events c @ [e], tip_hash := ev_hash e\<rparr>)))"

text \<open>\<open>build_next\<close>; \<open>i\<close> is the fresh identifier and \<open>ts\<close> the caller's time or the clock's.\<close>

definition build_next ::
    "(string \<Rightarrow> string) \<Rightarrow> (string \<Rightarrow> string) \<Rightarrow> event_chain \<Rightarrow> string \<Rightarrow> payload \<Rightarrow> string option \<Rightarrow> string option
      \<Rightarrow> int \<Rightarrow> string \<Rightarrow> trace_error + event" where
  "build_next nfc sha256 c kd p step par ts i =
    rbind (hash_event nfc sha256 kd p (tip_hash c) i (chain_run_id c) step par ts) (\<lambda>hs.
      event_post_init
        \<lparr>ev_id = i, ev_run_id = chain_run_id c, ev_step_id = step, ev_parent_id = par, timestamp_ns = ts,
         ev_kind = kd, ev_payload = p, ev_hash = hs, prev_hash = tip_hash c\<rparr>)"

definition append_all ::
    "(string \<Rightarrow> string) \<Rightarrow> (string \<Rightarrow> string) \<Rightarrow> event_chain \<Rightarrow> event list \<Rightarrow> trace_error + event_chain" where
  "append_all nfc sha256 c es = rfold (chain_append_event nfc sha256) c es"

subsection \<open>An event read back\<close>

text \<open>What an event is read back as: the payload in its canonical form.\<close>

definition canon_event :: "(string \<Rightarrow> string) \<Rightarrow> event \<Rightarrow> event" where
  "canon_event nfc e = e\<lparr>ev_payload := canon_payload nfc (ev_payload e)\<rparr>"

lemma canon_event_simps [simp]:
  "ev_id (canon_event nfc e) = ev_id e" "ev_run_id (canon_event nfc e) = ev_run_id e"
  "ev_step_id (canon_event nfc e) = ev_step_id e" "ev_parent_id (canon_event nfc e) = ev_parent_id e"
  "timestamp_ns (canon_event nfc e) = timestamp_ns e" "ev_kind (canon_event nfc e) = ev_kind e"
  "ev_payload (canon_event nfc e) = canon_payload nfc (ev_payload e)"
  "ev_hash (canon_event nfc e) = ev_hash e" "prev_hash (canon_event nfc e) = prev_hash e"
  by (simp_all add: canon_event_def)

lemma canon_event_record:
  "\<lparr>ev_id = ev_id e, ev_run_id = ev_run_id e, ev_step_id = ev_step_id e, ev_parent_id = ev_parent_id e,
    timestamp_ns = timestamp_ns e, ev_kind = ev_kind e, ev_payload = canon_payload nfc (ev_payload e),
    ev_hash = ev_hash e, prev_hash = prev_hash e\<rparr> = canon_event nfc e"
  by (simp add: canon_event_def)

lemma event_ok_canon [simp]: "event_ok (canon_event nfc e) = event_ok e"
  by (simp add: event_ok_def)

lemma canon_payload_dumps:
  "dumps_jcs nfc (PDict p) = Inr t \<Longrightarrow> normalises nfc \<Longrightarrow> dumps_jcs nfc (PDict (canon_payload nfc p)) = Inr t"
  using walk_canon [of nfc "PDict p" t] by (simp add: dumps_jcs_ok canon_PDict del: walk.simps canon.simps)

lemma hash_preimage_canon:
  "hash_preimage nfc kd p prev i run step par ts = Inr b \<Longrightarrow> normalises nfc \<Longrightarrow>
    hash_preimage nfc kd (canon_payload nfc p) prev i run step par ts = Inr b"
  using canon_payload_dumps by (auto simp: hash_preimage_def split: if_splits sum.splits)

lemma rebuild_hash_canon:
  "rebuild_hash nfc sha256 e = Inr x \<Longrightarrow> normalises nfc \<Longrightarrow> rebuild_hash nfc sha256 (canon_event nfc e) = Inr x"
  by (auto simp: rebuild_hash_def hash_event_def result_simps dest: hash_preimage_canon)

text \<open>The line of an event, and the events that have one.\<close>

definition event_line :: "(string \<Rightarrow> string) \<Rightarrow> event \<Rightarrow> string \<Rightarrow> bool" where
  "event_line nfc e t \<longleftrightarrow> normalises nfc \<and> event_ok e \<and> float_free (PDict (ev_payload e)) \<and>
    dumps_jcs nfc (PDict (to_canonical_dict e)) = Inr t"

lemma float_free_to_canonical:
  "float_free (PDict (ev_payload e)) \<Longrightarrow> float_free (PDict (to_canonical_dict e))"
  by (simp add: to_canonical_dict_def hex_or_none_def split: option.split)

lemma event_line_loads:
  assumes "event_line nfc e t"
  shows "json_loads fl t = Some (PDict (canon_payload nfc (to_canonical_dict e)))"
  using assms dumps_reads [of nfc "PDict (to_canonical_dict e)" t fl]
  by (simp add: event_line_def float_free_to_canonical canon_PDict del: canon.simps float_free.simps)

lemma canonical_field:
  assumes "event_line nfc e t" and "map_of (to_canonical_dict e) (KStr k) = Some v" and "isascii k"
  shows "map_of (canon_payload nfc (to_canonical_dict e)) (KStr k) = Some (canon nfc v)"
  using assms by (auto simp: event_line_def intro: map_of_canon_payload)

lemma hex_truthy: "length s = 16 \<Longrightarrow> hex s \<noteq> []"
  by auto

lemma read_optional:
  assumes "map_of d (KStr k) = Some (canon nfc (hex_or_none b))" and "normalises nfc" and "len_or_none 16 b"
  shows "optional_bytes_of (PDict d) k = Inr b"
  using assms isascii_hex
  by (cases b) (auto simp: optional_bytes_of_def get_value_def get_default_def hex_or_none_def len_or_none_def
      bytes_of_def normalises_def)

lemma event_line_reads:
  assumes "event_line nfc e t"
  shows "from_canonical_dict h (PDict (canon_payload nfc (to_canonical_dict e))) = Inr (canon_event nfc e)"
proof -
  let ?d = "canon_payload nfc (to_canonical_dict e)"
  from assms have n: "normalises nfc" and ok: "event_ok e" by (simp_all add: event_line_def)
  note f = canonical_field [OF assms]
  have hx: "nfc (hex s) = hex s" for s using n isascii_hex by (simp add: normalises_def)
  have kd: "nfc (ev_kind e) = ev_kind e"
    using n ok isascii_legal by (auto simp: normalises_def event_ok_def)
  have m: "map_of ?d (KStr ''id'') = Some (PStr (hex (ev_id e)))"
    "map_of ?d (KStr ''run_id'') = Some (PStr (hex (ev_run_id e)))"
    "map_of ?d (KStr ''step_id'') = Some (canon nfc (hex_or_none (ev_step_id e)))"
    "map_of ?d (KStr ''parent_id'') = Some (canon nfc (hex_or_none (ev_parent_id e)))"
    "map_of ?d (KStr ''timestamp_ns'') = Some (PInt (timestamp_ns e))"
    "map_of ?d (KStr ''kind'') = Some (PStr (ev_kind e))"
    "map_of ?d (KStr ''payload'') = Some (PDict (canon_payload nfc (ev_payload e)))"
    "map_of ?d (KStr ''hash'') = Some (PStr (hex (ev_hash e)))"
    "map_of ?d (KStr ''prev_hash'') = Some (PStr (hex (prev_hash e)))"
    using f [of "''id''" "PStr (hex (ev_id e))"]
      f [of "''run_id''" "PStr (hex (ev_run_id e))"]
      f [of "''step_id''" "hex_or_none (ev_step_id e)"]
      f [of "''parent_id''" "hex_or_none (ev_parent_id e)"]
      f [of "''timestamp_ns''" "PInt (timestamp_ns e)"]
      f [of "''kind''" "PStr (ev_kind e)"]
      f [of "''payload''" "PDict (ev_payload e)"]
      f [of "''hash''" "PStr (hex (ev_hash e))"]
      f [of "''prev_hash''" "PStr (hex (prev_hash e))"]
    by (simp_all add: to_canonical_dict_def isascii_def hx kd canon_PDict del: canon.simps(4))
  note opt = read_optional [OF _ n, of ?d]
  have o: "optional_bytes_of (PDict ?d) ''step_id'' = Inr (ev_step_id e)"
    "optional_bytes_of (PDict ?d) ''parent_id'' = Inr (ev_parent_id e)"
    using opt [OF m(3)] opt [OF m(4)] ok by (simp_all add: event_ok_def)
  have "event_ok (canon_event nfc e)" using ok by simp
  then show ?thesis
    by (simp add: from_canonical_dict_def field_of_def bytes_of_def int_of_def dict_of_def py_dict_def
        kind_of_def m o event_post_init_def canon_event_record)
qed

subsection \<open>What a hash fixes\<close>

lemma length_be_bytes [simp]: "length (be_bytes k n) = k"
  by (induction k n rule: be_bytes.induct) simp_all

lemma be_bytes_inject:
  "be_bytes k m = be_bytes k n \<Longrightarrow> 0 \<le> m \<Longrightarrow> m < 256 ^ k \<Longrightarrow> 0 \<le> n \<Longrightarrow> n < 256 ^ k \<Longrightarrow> m = n"
proof (induction k m arbitrary: n rule: be_bytes.induct)
  case (2 k m)
  have r: "nat (m mod 256) < 256" "nat (n mod 256) < 256" by (simp_all add: nat_less_iff)
  from "2.prems"(1) have h: "be_bytes k (m div 256) = be_bytes k (n div 256)"
    and "char_of (nat (m mod 256)) = (char_of (nat (n mod 256)) :: char)" by simp_all
  then have "code (char_of (nat (m mod 256))) = code (char_of (nat (n mod 256)))" by simp
  then have "nat (m mod 256) = nat (n mod 256)" by (simp only: code_char_of [OF r(1)] code_char_of [OF r(2)])
  then have l: "m mod 256 = n mod 256" by simp
  have "m div 256 < 256 ^ k" "n div 256 < 256 ^ k"
    using "2.prems" by (simp_all add: div_less_iff_less_mult)
  then have "m div 256 = n div 256"
    using "2.IH" [OF h] "2.prems" by (simp add: pos_imp_zdiv_nonneg_iff)
  with l show ?case by (metis div_mult_mod_eq)
qed simp

lemma length_or_zeros [simp]: "len_or_none 16 b \<Longrightarrow> length (or_zeros b) = 16"
  by (cases b) (auto simp: or_zeros_def len_or_none_def zero_bytes_def)

text \<open>
  Two events with the same content: everything the hash covers is the same. An absent step
  and sixteen zero bytes are hashed alike, and a payload counts through its canonical text.
\<close>

definition same_content :: "(string \<Rightarrow> string) \<Rightarrow> event \<Rightarrow> event \<Rightarrow> bool" where
  "same_content nfc e e' \<longleftrightarrow>
    ev_kind e = ev_kind e' \<and> ev_id e = ev_id e' \<and> ev_run_id e = ev_run_id e' \<and>
    or_zeros (ev_step_id e) = or_zeros (ev_step_id e') \<and>
    or_zeros (ev_parent_id e) = or_zeros (ev_parent_id e') \<and>
    timestamp_ns e = timestamp_ns e' \<and>
    dumps_jcs nfc (PDict (ev_payload e)) = dumps_jcs nfc (PDict (ev_payload e')) \<and>
    prev_hash e = prev_hash e' \<and> ev_hash e = ev_hash e'"

lemma nul_prefix:
  assumes "k @ CHR 0x00 # s = k' @ CHR 0x00 # s'" and "nul_free k" and "nul_free k'"
  shows "k = k' \<and> s = s'"
  using assms
proof (induction k arbitrary: k')
  case Nil
  then show ?case by (cases k') (auto simp: nul_free_def)
next
  case (Cons a k)
  then show ?case by (cases k') (auto simp: nul_free_def)
qed

lemma preimage_content:
  assumes "preimage nfc e = Inr b" and "preimage nfc e' = Inr b" and "event_ok e" and "event_ok e'"
    and "ev_hash e = ev_hash e'"
  shows "same_content nfc e e'"
proof -
  from assms(1,2) obtain t t' where
    t: "dumps_jcs nfc (PDict (ev_payload e)) = Inr t" "dumps_jcs nfc (PDict (ev_payload e')) = Inr t'" and
    eq: "ev_kind e @ CHR 0x00 # ev_id e @ ev_run_id e @ or_zeros (ev_step_id e) @ or_zeros (ev_parent_id e) @
        be_bytes 8 (timestamp_ns e) @ t @ prev_hash e =
      ev_kind e' @ CHR 0x00 # ev_id e' @ ev_run_id e' @ or_zeros (ev_step_id e') @ or_zeros (ev_parent_id e') @
        be_bytes 8 (timestamp_ns e') @ t' @ prev_hash e'"
    by (auto simp: preimage_def hash_preimage_def split: if_splits sum.splits)
  from nul_prefix [OF eq] assms(3,4) nul_free_legal have k: "ev_kind e = ev_kind e'"
    and rest: "ev_id e @ ev_run_id e @ or_zeros (ev_step_id e) @ or_zeros (ev_parent_id e) @
        be_bytes 8 (timestamp_ns e) @ t @ prev_hash e =
      ev_id e' @ ev_run_id e' @ or_zeros (ev_step_id e') @ or_zeros (ev_parent_id e') @
        be_bytes 8 (timestamp_ns e') @ t' @ prev_hash e'"
    by (auto simp: event_ok_def)
  have len: "length (ev_id e) = length (ev_id e')" "length (ev_run_id e) = length (ev_run_id e')"
    "length (or_zeros (ev_step_id e)) = length (or_zeros (ev_step_id e'))"
    "length (or_zeros (ev_parent_id e)) = length (or_zeros (ev_parent_id e'))"
    "length (prev_hash e) = length (prev_hash e')"
    using assms(3,4) by (simp_all add: event_ok_def)
  from rest len have "t @ prev_hash e = t' @ prev_hash e'" "ev_id e = ev_id e'" "ev_run_id e = ev_run_id e'"
    "or_zeros (ev_step_id e) = or_zeros (ev_step_id e')" "or_zeros (ev_parent_id e) = or_zeros (ev_parent_id e')"
    "be_bytes 8 (timestamp_ns e) = be_bytes 8 (timestamp_ns e')"
    by (simp_all add: append_eq_append_conv)
  moreover have p: "(256::int) ^ 8 = 2 ^ 64" by simp
  have "timestamp_ns e = timestamp_ns e'"
    using be_bytes_inject [OF calculation(6)] assms(3,4) unfolding event_ok_def p by blast
  ultimately show ?thesis
    using k len(5) t assms(5) by (simp add: same_content_def append_eq_append_conv)
qed

definition preimages :: "(string \<Rightarrow> string) \<Rightarrow> event list \<Rightarrow> string set" where
  "preimages nfc es = {b. \<exists>e \<in> set es. preimage nfc e = Inr b}"

lemma chain_append_iff:
  "chain_append_event nfc sha256 c e = Inr c' \<longleftrightarrow>
    prev_hash e = tip_hash c \<and> (\<exists>b. preimage nfc e = Inr b \<and> ev_hash e = sha256 b) \<and>
    c' = c\<lparr>chain_events := chain_events c @ [e], tip_hash := ev_hash e\<rparr>"
  by (auto simp: chain_append_event_def rebuild_hash_preimage result_simps)

lemma append_all_snoc:
  "append_all nfc sha256 c (es @ [e]) = rbind (append_all nfc sha256 c es) (\<lambda>c'. chain_append_event nfc sha256 c' e)"
  by (cases "append_all nfc sha256 c es"; cases "chain_append_event nfc sha256 (projr (append_all nfc sha256 c es)) e")
    (simp_all add: append_all_def rfold_append)

lemma append_all_grows:
  "append_all nfc sha256 c es = Inr d \<Longrightarrow>
    chain_run_id d = chain_run_id c \<and> chain_events d = chain_events c @ es \<and>
    tip_hash d = (if es = [] then tip_hash c else ev_hash (last es))"
proof (induction es arbitrary: d rule: rev_induct)
  case Nil
  then show ?case by (simp add: append_all_def)
next
  case (snoc e es)
  then show ?case by (fastforce simp: append_all_snoc result_simps chain_append_iff)
qed

lemma same_tip_content:
  assumes "append_all nfc sha256 (new_chain r) es = Inr c" and "append_all nfc sha256 (new_chain r') es' = Inr c'"
    and "\<forall>e \<in> set es \<union> set es'. event_ok e"
    and "inj_on sha256 (preimages nfc (es @ es'))" and "genesis_hash \<notin> sha256 ` preimages nfc (es @ es')"
    and "tip_hash c = tip_hash c'"
  shows "list_all2 (same_content nfc) es es'"
  using assms
proof (induction es arbitrary: es' c c' rule: rev_induct)
  case Nil
  show ?case
  proof (cases es' rule: rev_cases)
    case (snoc fs f)
    with Nil.prems(2) obtain b where "preimage nfc f = Inr b" "tip_hash c' = sha256 b"
      by (auto simp: append_all_snoc result_simps chain_append_iff)
    then have "tip_hash c' \<in> sha256 ` preimages nfc ([] @ es')" using snoc by (auto simp: preimages_def)
    with Nil show ?thesis by (auto simp: append_all_def new_chain_def)
  qed simp
next
  case (snoc e es)
  from snoc.prems(1) obtain d b where d: "append_all nfc sha256 (new_chain r) es = Inr d"
    and b: "preimage nfc e = Inr b" "ev_hash e = sha256 b" and e: "prev_hash e = tip_hash d" "tip_hash c = ev_hash e"
    by (auto simp: append_all_snoc result_simps chain_append_iff)
  have tip: "tip_hash c \<in> sha256 ` preimages nfc (es @ [e])" using b e by (auto simp: preimages_def)
  show ?case
  proof (cases es' rule: rev_cases)
    case Nil
    with snoc.prems(2,6) tip have "genesis_hash \<in> sha256 ` preimages nfc ((es @ [e]) @ es')"
      by (auto simp: append_all_def new_chain_def)
    with snoc.prems(5) show ?thesis by blast
  next
    case s': (snoc fs f)
    from snoc.prems(2) s' obtain d' b' where d': "append_all nfc sha256 (new_chain r') fs = Inr d'"
      and b': "preimage nfc f = Inr b'" "ev_hash f = sha256 b'" and f: "prev_hash f = tip_hash d'" "tip_hash c' = ev_hash f"
      by (auto simp: append_all_snoc result_simps chain_append_iff)
    have "b \<in> preimages nfc ((es @ [e]) @ es')" "b' \<in> preimages nfc ((es @ [e]) @ es')"
      using b b' s' by (auto simp: preimages_def)
    moreover have hh: "ev_hash e = ev_hash f" using e f snoc.prems(6) by simp
    ultimately have "b = b'" using b b' snoc.prems(4) by (auto simp: inj_on_def)
    with b b' hh snoc.prems(3) s' have ef: "same_content nfc e f" by (intro preimage_content [of nfc e b]) auto
    have sub: "preimages nfc (es @ fs) \<subseteq> preimages nfc ((es @ [e]) @ es')" using s' by (auto simp: preimages_def)
    have "list_all2 (same_content nfc) es fs"
    proof (rule snoc.IH [OF d d'])
      show "inj_on sha256 (preimages nfc (es @ fs))" using snoc.prems(4) sub by (rule inj_on_subset)
      show "genesis_hash \<notin> sha256 ` preimages nfc (es @ fs)" using snoc.prems(5) sub by blast
      show "tip_hash d = tip_hash d'" using ef e f by (simp add: same_content_def)
    qed (use snoc.prems(3) s' in auto)
    with ef s' show ?thesis by (simp add: list_all2_appendI)
  qed
qed

subsection \<open>Letters the hash does not see\<close>

definition upper_char :: "char \<Rightarrow> char" where
  "upper_char c = (if 97 \<le> code c \<and> code c \<le> 122 then char_of (code c - 32) else c)"

lemma code_upper: "code (upper_char c) = (if 97 \<le> code c \<and> code c \<le> 122 then code c - 32 else code c)"
  using code_less_256 [of c] by (auto simp: upper_char_def simp del: code_less_256)

lemma hex_val_upper [simp]: "hex_val (upper_char c) = hex_val c"
  by (auto simp: hex_val_def is_digit_def code_upper)

lemma fromhex_upper [simp]: "fromhex (map upper_char s) = fromhex s"
proof (induction s rule: fromhex.induct)
  case (2 a s)
  show ?case
  proof (cases "is_space a \<or> code a = 11 \<or> code a = 12")
    case True
    with 2(1) show ?thesis by (auto simp: is_space_def code_upper)
  next
    case False
    then have "\<not> (is_space (upper_char a) \<or> code (upper_char a) = 11 \<or> code (upper_char a) = 12)"
      by (auto simp: is_space_def code_upper)
    with False 2(2) show ?thesis
      by (cases s) (auto split: option.splits)
  qed
qed simp

lemma bytes_of_upper: "bytes_of (PStr (map upper_char s)) = bytes_of (PStr s)"
  by (simp add: bytes_of_def)

subsection \<open>Properties\<close>

definition demo_event :: "payload \<Rightarrow> event" where
  "demo_event p = \<lparr>ev_id = replicate 16 (CHR ''i''), ev_run_id = replicate 16 (CHR ''r''), ev_step_id = None,
     ev_parent_id = None, timestamp_ns = 7, ev_kind = ''run.started'', ev_payload = p,
     ev_hash = replicate 32 (CHR ''h''), prev_hash = genesis_hash\<rparr>"

definition demo_sha :: "string \<Rightarrow> string" where
  "demo_sha s = replicate 32 (CHR ''h'')"

text \<open>
  The hash covers what an event says, not the bytes of its line: writing the hexadecimal
  letters of an identifier or a hash in capitals gives the same event, so such a change in the
  middle of a log passes every check.
\<close>

theorem hex_case_not_covered:
  assumes "map_of d (KStr k) = Some (PStr s)" and "k \<in> {''id'', ''run_id'', ''hash'', ''prev_hash''}"
  shows "from_canonical_dict h (PDict (AList.update (KStr k) (PStr (map upper_char s)) d))
    = from_canonical_dict h (PDict d)"
proof -
  let ?d = "AList.update (KStr k) (PStr (map upper_char s)) d"
  have g: "get_value ?d j = get_value d j" "field_of (PDict ?d) j = field_of (PDict d) j" if "j \<noteq> k" for j
    using that by (simp_all add: get_value_def get_default_def field_of_def dict_simps)
  have u: "field_of (PDict ?d) k = Inr (PStr (map upper_char s))" "field_of (PDict d) k = Inr (PStr s)"
    using assms(1) by (simp_all add: field_of_def dict_simps)
  have o: "optional_bytes_of (PDict ?d) j = optional_bytes_of (PDict d) j" if "j \<noteq> k" for j
    using g(1) [OF that] by (simp add: optional_bytes_of_def)
  from assms(2) consider "k = ''id''" | "k = ''run_id''" | "k = ''hash''" | "k = ''prev_hash''" by blast
  then show ?thesis
    by cases (use g(2) u o in \<open>simp_all add: from_canonical_dict_def bytes_of_upper\<close>)
qed

theorem hex_case_not_covered_witness:
  "from_canonical_dict demo_host (PDict (AList.update (KStr ''id'') (PStr (map upper_char (concat (replicate 16 ''6f''))))
      (to_canonical_dict ((demo_event [])\<lparr>ev_id := replicate 16 (CHR ''o'')\<rparr>))))
    = from_canonical_dict demo_host (PDict (to_canonical_dict ((demo_event [])\<lparr>ev_id := replicate 16 (CHR ''o'')\<rparr>)))"
proof (rule hex_case_not_covered)
  show "map_of (to_canonical_dict ((demo_event [])\<lparr>ev_id := replicate 16 (CHR ''o'')\<rparr>)) (KStr ''id'')
      = Some (PStr (concat (replicate 16 ''6f'')))" by code_simp
qed simp

end
