(* ===== verification/JsonTail.thy ===== *)
theory JsonTail
  imports Journal "HOL-Library.Sublist"
begin

section \<open>How a JSON text and a UTF-8 text end\<close>

text \<open>
  A reader of lines meets torn text: cut inside a document, and inside a character. This
  theory shows that an object accepted by the reader ends with its closing brace (behind it
  stands only white space), models \<open>str.strip\<close> and \<open>bytes.decode(errors="replace")\<close>, and shows
  that what is left of an encoded object is never accepted.
\<close>

subsection \<open>The unread rest is a suffix\<close>

lemma skip_ws_suffix: "suffix (skip_ws s) s"
  by (induction s) (auto simp: suffix_ConsI)

lemma hex4_suffix: "hex4 s = Some (n, r) \<Longrightarrow> suffix r s"
  by (induction s rule: hex4.induct) (auto simp: suffix_ConsI split: option.splits)

lemma scan_unicode_suffix: "scan_unicode s = Some (t, r) \<Longrightarrow> suffix r s"
proof -
  assume a: "scan_unicode s = Some (t, r)"
  then obtain u r1 where h: "hex4 s = Some (u, r1)" by (auto simp: scan_unicode_def split: option.splits)
  have "suffix r' r1" if "hex4 (drop 2 r1) = Some (l, r')" for l r'
    using suffix_order.trans [OF hex4_suffix [OF that] suffix_drop] .
  with a h hex4_suffix [OF h] show ?thesis
    by (auto simp: scan_unicode_def split: option.splits if_splits intro: suffix_order.trans)
qed

lemma scan_string_suffix: "scan_string s = Some (b, r) \<Longrightarrow> suffix r s"
proof (induction s arbitrary: b r rule: scan_string.induct)
  case (2 c s)
  then show ?case
    by (fastforce split: if_splits option.splits list.splits
        intro: suffix_ConsI suffix_order.trans dest: scan_unicode_suffix)
qed simp

lemma strip_prefix_suffix: "strip_prefix p s = Some r \<Longrightarrow> suffix r s"
  by (auto simp: strip_prefix_def suffix_drop split: if_splits)

lemma scan_nat_suffix: "scan_nat s = Some (ds, r) \<Longrightarrow> suffix r s"
  by (auto simp: scan_nat_def suffix_ConsI suffix_dropWhile split: list.splits if_splits)

lemma scan_frac_suffix: "suffix (snd (scan_frac s)) s"
  using suffix_dropWhile suffix_order.trans
  by (auto simp: scan_frac_def suffix_ConsI suffix_dropWhile split: list.splits)

lemma scan_exp_suffix: "suffix (snd (scan_exp s)) s"
proof -
  have "suffix (dropWhile is_digit (drop n t)) t" for n and t :: string
    using suffix_order.trans [OF suffix_dropWhile suffix_drop] .
  then show ?thesis by (auto simp: scan_exp_def Let_def suffix_ConsI split: list.splits)
qed

lemma scan_number_suffix:
  assumes "scan_number fl s = Some (v, r)"
  shows "suffix r s"
proof -
  from assms obtain ds r0 fr r1 ex r2 where
    n: "scan_nat (if startswith s ''-'' then tl s else s) = Some (ds, r0)"
    and "scan_frac r0 = (fr, r1)" "scan_exp r1 = (ex, r2)" and r: "fr = [] \<and> ex = [] \<and> r = r0 \<or> r = r2"
    by (rule scan_numberE)
  then have "suffix r2 r0" using scan_frac_suffix [of r0] scan_exp_suffix [of r1] suffix_order.trans by fastforce
  moreover have "suffix r0 s"
    using scan_nat_suffix [OF n] by (cases s) (auto split: if_splits intro: suffix_ConsI)
  ultimately show ?thesis using r suffix_order.trans by blast
qed

lemma scan_constant_suffix: "scan_constant fl s = Some (v, r) \<Longrightarrow> suffix r s"
  by (auto simp: scan_constant_def dest: strip_prefix_suffix scan_number_suffix split: option.splits)

lemma parse_suffix:
  "(\<forall>s v r. parse_value fl f s = Some (v, r) \<longrightarrow> suffix r s) \<and>
   (\<forall>s vs r. parse_elems fl f s = Some (vs, r) \<longrightarrow> suffix r s) \<and>
   (\<forall>s ps r. parse_members fl f s = Some (ps, r) \<longrightarrow> (\<exists>pre. s = pre @ CHR ''}'' # r))"
proof (induction f)
  case 0
  show ?case by (simp add: parse_value.simps(1) parse_elems.simps(1) parse_members.simps(1))
next
  case (Suc f)
  then have IH: "\<And>s v r. parse_value fl f s = Some (v, r) \<Longrightarrow> suffix r s"
    "\<And>s vs r. parse_elems fl f s = Some (vs, r) \<Longrightarrow> suffix r s"
    "\<And>s ps r. parse_members fl f s = Some (ps, r) \<Longrightarrow> \<exists>pre. s = pre @ CHR ''}'' # r" by blast+
  have mem: "suffix r s" if "parse_members fl f s = Some (ps, r)" for s ps r
    using IH(3) [OF that] by (auto simp: suffix_def)
  have tail: "suffix u s" if "skip_ws s = c # u" for s c u
    using skip_ws_suffix [of s] that by (metis suffix_ConsD)
  have "suffix r s" if p: "parse_value fl (Suc f) s = Some (v, r)" for s v r
  proof (cases s)
    case (Cons c t)
    have "suffix r t" if "skip_ws t = d # u" "suffix r (d # u)" for d u
      using that skip_ws_suffix [of t] suffix_order.trans by metis
    moreover have "suffix u t" if "skip_ws t = d # u" for d u using tail [OF that] .
    ultimately have "suffix r t \<or> scan_constant fl s = Some (v, r)"
      using p Cons mem IH(2)
      by (auto simp: parse_value.simps(2) split: if_splits list.splits dest: scan_string_suffix)
    then show ?thesis using Cons scan_constant_suffix by (auto intro: suffix_ConsI)
  qed (use p in \<open>simp add: parse_value.simps(2)\<close>)
  moreover have "suffix r s" if p: "parse_elems fl (Suc f) s = Some (vs, r)" for s vs r
  proof -
    from p obtain v r1 c u where v: "parse_value fl f s = Some (v, r1)" and c: "skip_ws r1 = c # u"
      and rest: "r = u \<or> (\<exists>vs'. parse_elems fl f (skip_ws u) = Some (vs', r))"
      unfolding parse_elems_Some by blast
    have "suffix r u" using rest IH(2) skip_ws_suffix suffix_order.trans by blast
    with tail [OF c] IH(1) [OF v] show ?thesis using suffix_order.trans by blast
  qed
  moreover have "\<exists>pre. s = pre @ CHR ''}'' # r" if p: "parse_members fl (Suc f) s = Some (ps, r)" for s ps r
  proof -
    from p obtain t k r0 u v r1 d w where s: "s = quote # t" and k: "scan_string t = Some (k, r0)"
      and u: "skip_ws r0 = CHR '':'' # u" and v: "parse_value fl f (skip_ws u) = Some (v, r1)"
      and d: "skip_ws r1 = d # w"
      and rest: "d = CHR ''}'' \<and> r = w \<or> (\<exists>ps'. parse_members fl f (skip_ws w) = Some (ps', r))"
      unfolding parse_members_Some by blast
    have "suffix r1 s"
      using s scan_string_suffix [OF k] tail [OF u] skip_ws_suffix [of u] IH(1) [OF v]
      by (metis suffix_ConsI suffix_order.trans)
    then have dw: "suffix (d # w) s" using skip_ws_suffix [of r1] d suffix_order.trans by metis
    from rest show ?thesis
    proof
      assume "d = CHR ''}'' \<and> r = w"
      with dw show ?thesis by (auto simp: suffix_def)
    next
      assume "\<exists>ps'. parse_members fl f (skip_ws w) = Some (ps', r)"
      then obtain pre where "skip_ws w = pre @ CHR ''}'' # r" using IH(3) by blast
      moreover have "suffix (skip_ws w) s"
        using dw skip_ws_suffix [of w] by (metis suffix_ConsD suffix_order.trans)
      ultimately show ?thesis by (auto simp: suffix_def)
    qed
  qed
  ultimately show ?case by blast
qed

lemma object_ends:
  assumes "json_loads fl s = Some v" and "hd s = CHR ''{''" and "s \<noteq> []"
  shows "\<exists>pre w. s = pre @ CHR ''}'' # w \<and> (\<forall>c \<in> set w. is_space c)"
proof -
  have ws: "skip_ws s = s" using assms by (intro skip_ws_nonspace) simp_all
  with assms(1) obtain v' r where p: "parse_value fl (2 * length s + 2) s = Some (v', r)" and r: "skip_ws r = []"
    by (auto simp: json_loads_def split: option.splits if_splits)
  from assms(2,3) obtain t where s: "s = CHR ''{'' # t" by (cases s) auto
  have "\<exists>pre. s = pre @ CHR ''}'' # r"
  proof -
    obtain f where f: "2 * length s + 2 = Suc f" by simp
    from p s obtain d u where d: "skip_ws t = d # u"
      and rest: "d = CHR ''}'' \<and> r = u \<or> (\<exists>ps. parse_members fl f (d # u) = Some (ps, r))"
      unfolding f parse_value.simps(2) by (auto split: list.splits if_splits)
    have "suffix (d # u) s" using skip_ws_suffix [of t] s d by (metis suffix_ConsI)
    moreover from rest have "\<exists>pre. d # u = pre @ CHR ''}'' # r" using parse_suffix [of fl f] by auto
    ultimately show ?thesis by (auto simp: suffix_def)
  qed
  with r show ?thesis by (auto simp: skip_ws_Nil_iff)
qed

subsection \<open>\<open>str.strip\<close>\<close>

text \<open>The characters that \<open>str.strip()\<close> removes, in UTF-8.\<close>

definition white :: "string list" where
  "white = [
    [CHR 0x09], [CHR 0x0A], [CHR 0x0B], [CHR 0x0C], [CHR 0x0D], [CHR 0x1C], [CHR 0x1D], [CHR 0x1E],
    [CHR 0x1F], [CHR 0x20], [CHR 0xC2, CHR 0x85], [CHR 0xC2, CHR 0xA0],
    [CHR 0xE1, CHR 0x9A, CHR 0x80], [CHR 0xE2, CHR 0x80, CHR 0x80], [CHR 0xE2, CHR 0x80, CHR 0x81],
    [CHR 0xE2, CHR 0x80, CHR 0x82], [CHR 0xE2, CHR 0x80, CHR 0x83], [CHR 0xE2, CHR 0x80, CHR 0x84],
    [CHR 0xE2, CHR 0x80, CHR 0x85], [CHR 0xE2, CHR 0x80, CHR 0x86], [CHR 0xE2, CHR 0x80, CHR 0x87],
    [CHR 0xE2, CHR 0x80, CHR 0x88], [CHR 0xE2, CHR 0x80, CHR 0x89], [CHR 0xE2, CHR 0x80, CHR 0x8A],
    [CHR 0xE2, CHR 0x80, CHR 0xA8], [CHR 0xE2, CHR 0x80, CHR 0xA9], [CHR 0xE2, CHR 0x80, CHR 0xAF],
    [CHR 0xE2, CHR 0x81, CHR 0x9F], [CHR 0xE3, CHR 0x80, CHR 0x80]]"

lemma white_shape:
  "\<forall>w \<in> set white. w \<noteq> [] \<and> hd w \<noteq> CHR ''{'' \<and> last w \<noteq> CHR ''}'' \<and> last w \<noteq> CHR 0xBD"
  by (simp add: white_def)

lemma white_nonempty: "w \<in> set white \<Longrightarrow> w \<noteq> []"
  using white_shape by blast

lemma find_SomeD: "find P xs = Some x \<Longrightarrow> x \<in> set xs \<and> P x"
  by (auto simp: find_Some_iff)

function strip_left :: "string \<Rightarrow> string" where
  "strip_left s =
    (case find (startswith s) white of None \<Rightarrow> s | Some w \<Rightarrow> if s = [] then s else strip_left (drop (length w) s))"
  by pat_completeness auto
termination
  by (relation "measure length") (auto dest!: find_SomeD dest: white_nonempty)

function strip_right :: "string \<Rightarrow> string" where
  "strip_right s =
    (case find (endswith s) white of
       None \<Rightarrow> s
     | Some w \<Rightarrow> if s = [] then s else strip_right (take (length s - length w) s))"
  by pat_completeness auto
termination
  by (relation "measure length") (auto dest!: find_SomeD dest: white_nonempty)

declare strip_left.simps [simp del] strip_right.simps [simp del]

definition py_strip :: "string \<Rightarrow> string" where
  "py_strip s = strip_left (strip_right s)"

lemma startswith_hd: "startswith s w \<Longrightarrow> w \<noteq> [] \<Longrightarrow> s \<noteq> [] \<and> hd s = hd w"
  by (auto simp: startswith_iff)

lemma endswith_split: "endswith s w \<Longrightarrow> s = take (length s - length w) s @ w"
  by (metis append_take_drop_id endswith_def)

lemma endswith_last: "endswith s w \<Longrightarrow> w \<noteq> [] \<Longrightarrow> s \<noteq> [] \<and> last s = last w"
  using endswith_split [of s w] by (metis append_is_Nil_conv last_appendR)

lemma strip_left_brace: "s \<noteq> [] \<Longrightarrow> hd s = CHR ''{'' \<Longrightarrow> strip_left s = s"
proof -
  assume s: "s \<noteq> []" "hd s = CHR ''{''"
  have "\<not> startswith s w" if "w \<in> set white" for w
    using startswith_hd [of s w] white_shape that s by auto
  then have "find (startswith s) white = None" by (simp add: find_None_iff)
  then show ?thesis by (subst strip_left.simps) simp
qed

lemma strip_right_last: "last s \<in> {CHR ''}'', CHR 0xBD} \<Longrightarrow> strip_right s = s"
proof -
  assume s: "last s \<in> {CHR ''}'', CHR 0xBD}"
  have "\<not> endswith s w" if "w \<in> set white" for w
    using endswith_last [of s w] white_shape that s by auto
  then have "find (endswith s) white = None" by (simp add: find_None_iff)
  then show ?thesis by (subst strip_right.simps) simp
qed

lemma strip_right_prefix: "\<exists>w. s = strip_right s @ w"
proof (induction s rule: strip_right.induct)
  case (1 s)
  show ?case
  proof (cases "find (endswith s) white")
    case None
    then show ?thesis by (subst strip_right.simps) simp
  next
    case (Some w)
    show ?thesis
    proof (cases "s = []")
      case False
      from 1 [OF Some False] obtain u where "take (length s - length w) s = strip_right (take (length s - length w) s) @ u"
        by blast
      moreover have "s = take (length s - length w) s @ w" using Some by (intro endswith_split) (auto dest: find_SomeD)
      ultimately have "s = strip_right (take (length s - length w) s) @ u @ w" by (metis append_assoc)
      with Some False show ?thesis by (subst strip_right.simps) auto
    qed (use 1 Some in \<open>subst strip_right.simps, simp\<close>)
  qed
qed

lemma strip_right_brace: "s \<noteq> [] \<Longrightarrow> hd s = CHR ''{'' \<Longrightarrow> strip_right s \<noteq> [] \<and> hd (strip_right s) = CHR ''{''"
proof (induction s rule: strip_right.induct)
  case (1 s)
  show ?case
  proof (cases "find (endswith s) white")
    case None
    with 1 show ?thesis by (subst (1 2) strip_right.simps) simp
  next
    case (Some w)
    let ?t = "take (length s - length w) s"
    from Some have w: "w \<in> set white" "endswith s w" by (auto dest: find_SomeD)
    note st = endswith_split [OF w(2)]
    have "?t \<noteq> []"
    proof
      assume "?t = []"
      with st have "hd s = hd w" by simp
      with w(1) white_shape 1(3) show False by auto
    qed
    moreover then have "hd ?t = CHR ''{''" using 1(3) by (metis hd_append2 st)
    ultimately have "strip_right ?t \<noteq> [] \<and> hd (strip_right ?t) = CHR ''{''" using 1 Some by blast
    with Some "1.prems" show ?thesis by (subst (1 2) strip_right.simps) simp
  qed
qed

lemma py_strip_brace:
  assumes "s \<noteq> []" and "hd s = CHR ''{''"
  shows "py_strip s = strip_right s"
  using strip_right_brace [OF assms] by (simp add: py_strip_def strip_left_brace)

subsection \<open>\<open>bytes.decode(errors="replace")\<close>\<close>

text \<open>U+FFFD stands for each longest piece that starts a character and does not complete it.\<close>

definition replacement :: string where
  "replacement = [CHR 0xEF, CHR 0xBF, CHR 0xBD]"

text \<open>How many bytes behind the first belong to it, and whether they complete it.\<close>

definition follow :: "char \<Rightarrow> string \<Rightarrow> nat \<times> bool" where
  "follow a s =
    (if 194 \<le> code a \<and> code a < 224 then
       (case s of b # _ \<Rightarrow> if cont b then (1, True) else (0, False) | [] \<Rightarrow> (0, False))
     else if 224 \<le> code a \<and> code a < 240 then
       (case s of
          b # t \<Rightarrow>
            if cont b \<and> (code a = 224 \<longrightarrow> 160 \<le> code b) \<and> (code a = 237 \<longrightarrow> code b < 160)
            then (case t of c # _ \<Rightarrow> if cont c then (2, True) else (1, False) | [] \<Rightarrow> (1, False))
            else (0, False)
        | [] \<Rightarrow> (0, False))
     else if 240 \<le> code a \<and> code a < 245 then
       (case s of
          b # t \<Rightarrow>
            if cont b \<and> (code a = 240 \<longrightarrow> 144 \<le> code b) \<and> (code a = 244 \<longrightarrow> code b < 144)
            then (case t of
                c # u \<Rightarrow>
                  if cont c then (case u of d # _ \<Rightarrow> if cont d then (3, True) else (2, False) | [] \<Rightarrow> (2, False))
                  else (1, False)
              | [] \<Rightarrow> (1, False))
            else (0, False)
        | [] \<Rightarrow> (0, False))
     else (0, False))"

function decode_replace :: "string \<Rightarrow> string" where
  "decode_replace [] = []"
| "decode_replace (a # s) =
    (if code a < 128 then a # decode_replace s
     else (case follow a s of (n, whole) \<Rightarrow>
       (if whole then a # take n s else replacement) @ decode_replace (drop n s)))"
  by pat_completeness auto
termination
  by (relation "measure length") auto

lemma decode_replace_torn:
  "utf8_valid (p @ q) \<Longrightarrow> \<not> utf8_valid p \<Longrightarrow> \<exists>p0. decode_replace p = p0 @ replacement"
proof (induction p rule: decode_replace.induct)
  case (2 a s)
  consider (one) "code a < 128" | (two) "194 \<le> code a" "code a < 224"
    | (three) "224 \<le> code a" "code a < 240" | (four) "240 \<le> code a" "code a < 245"
    using "2.prems"(1) by (simp split: if_splits)
  then show ?case
  proof cases
    case one
    with 2 show ?thesis by (auto intro: exI [of _ "a # p0" for p0])
  next
    case two
    show ?thesis
    proof (cases s)
      case (Cons b t)
      with two "2.prems" have "cont b" "utf8_valid (t @ q)" "\<not> utf8_valid t" by simp_all
      moreover have "follow a s = (1, True)" using two Cons \<open>cont b\<close> by (simp add: follow_def)
      ultimately obtain p0 where "decode_replace t = p0 @ replacement" using "2.IH"(2) two Cons by force
      with two \<open>follow a s = (1, True)\<close> Cons show ?thesis by (intro exI [of _ "a # b # p0"]) simp
    qed (use two in \<open>simp add: follow_def\<close>)
  next
    case three
    consider "s = []" | b where "s = [b]" | b c t where "s = b # c # t" by (metis list.exhaust)
    then show ?thesis
    proof cases
      case 2
      with three "2.prems" show ?thesis by (auto simp: follow_def split: list.splits)
    next
      case (3 b c t)
      with three "2.prems" have "utf8_valid (t @ q)" "\<not> utf8_valid t" by simp_all
      moreover have fo: "follow a s = (2, True)" using three 3 "2.prems"(1) by (simp add: follow_def)
      ultimately obtain p0 where "decode_replace t = p0 @ replacement" using "2.IH"(2) three 3 by force
      with three fo 3 show ?thesis by (intro exI [of _ "a # b # c # p0"]) simp
    qed (use three in \<open>simp add: follow_def\<close>)
  next
    case four
    consider "s = []" | b where "s = [b]" | b c where "s = [b, c]" | b c d t where "s = b # c # d # t"
      by (metis list.exhaust)
    then show ?thesis
    proof cases
      case (2 b)
      have "cont b" "(code a = 240 \<longrightarrow> 144 \<le> code b) \<and> (code a = 244 \<longrightarrow> code b < 144)"
        using "2.prems"(1) four 2 by (simp_all split: list.splits)
      with four 2 show ?thesis by (simp add: follow_def)
    next
      case (3 b c)
      have "cont b" "cont c" "(code a = 240 \<longrightarrow> 144 \<le> code b) \<and> (code a = 244 \<longrightarrow> code b < 144)"
        using "2.prems"(1) four 3 by (simp_all split: list.splits)
      with four 3 show ?thesis by (simp add: follow_def)
    next
      case (4 b c d t)
      with four "2.prems" have "utf8_valid (t @ q)" "\<not> utf8_valid t" by simp_all
      moreover have fo: "follow a s = (3, True)" using four 4 "2.prems"(1) by (simp add: follow_def)
      ultimately obtain p0 where "decode_replace t = p0 @ replacement" using "2.IH"(2) four 4 by force
      with four fo 4 show ?thesis by (intro exI [of _ "a # b # c # d # p0"]) simp
    qed (use four in \<open>simp add: follow_def\<close>)
  qed
qed simp

lemma decode_replace_hd: "code (hd p) < 128 \<Longrightarrow> p \<noteq> [] \<Longrightarrow> decode_replace p \<noteq> [] \<and> hd (decode_replace p) = hd p"
  by (cases p) simp_all

subsection \<open>Torn objects\<close>

lemma torn_rejected:
  assumes t: "dumps_jcs nfc (PDict kvs) = Inr (p @ q)" and q: "q \<noteq> []"
    and f: "float_free (PDict kvs)" and n: "normalises nfc"
  shows "utf8_valid p \<Longrightarrow> p \<noteq> [] \<Longrightarrow> json_loads fl (py_strip p) = None \<and> py_strip p \<noteq> []"
    and "\<not> utf8_valid p \<Longrightarrow> json_loads fl (py_strip (decode_replace p)) = None \<and> py_strip (decode_replace p) \<noteq> []"
proof -
  have "encode_dict nfc (map (\<lambda>(k, v). (k, walk nfc v)) kvs) = Inr (p @ q)" and u: "utf8_valid (p @ q)"
    using t by (simp_all add: dumps_jcs_ok)
  from encode_dict_ok(1) [OF this(1)] have hd: "hd (p @ q) = CHR ''{''" by simp
  show "json_loads fl (py_strip p) = None \<and> py_strip p \<noteq> []" if p: "p \<noteq> []"
  proof -
    have h: "hd p = CHR ''{''" using hd p by simp
    from strip_right_prefix [of p] obtain w where w: "p = strip_right p @ w" by blast
    with t have "dumps_jcs nfc (PDict kvs) = Inr (strip_right p @ w @ q)" by (metis append_assoc)
    from dumps_dict_prefix [OF this _ f n, of fl] q
    show ?thesis using py_strip_brace [OF p h] strip_right_brace [OF p h] by simp
  qed
  show "json_loads fl (py_strip (decode_replace p)) = None \<and> py_strip (decode_replace p) \<noteq> []"
    if np: "\<not> utf8_valid p"
  proof -
    have p: "p \<noteq> []" using np by auto
    then have h: "hd p = CHR ''{''" using hd by simp
    let ?d = "decode_replace p"
    have d: "?d \<noteq> []" "hd ?d = CHR ''{''" using decode_replace_hd [of p] p h by simp_all
    from decode_replace_torn [OF u np] have l: "last ?d = CHR 0xBD" by (auto simp: replacement_def)
    then have s: "py_strip ?d = ?d" using py_strip_brace [OF d] strip_right_last [of ?d] by simp
    have "json_loads fl ?d = None"
    proof (rule ccontr)
      assume "json_loads fl ?d \<noteq> None"
      with object_ends [OF _ d(2,1)] obtain pre w where "?d = pre @ CHR ''}'' # w" "\<forall>c \<in> set w. is_space c" by blast
      with l show False by (cases w rule: rev_cases) (auto simp: is_space_def)
    qed
    with s d show ?thesis by simp
  qed
qed

lemma strip_dumped:
  assumes "dumps_jcs nfc (PDict kvs) = Inr t"
  shows "py_strip t = t"
proof -
  have "encode_dict nfc (map (\<lambda>(k, v). (k, walk nfc v)) kvs) = Inr t" using assms by (simp add: dumps_jcs_ok)
  note shape = encode_dict_ok(1) [OF this]
  have "t \<noteq> []" "hd t = CHR ''{''" "last t = CHR ''}''" unfolding shape by simp_all
  then show ?thesis by (simp add: py_strip_brace strip_right_last)
qed

end
