(* ===== verification/TraceLog.thy ===== *)
theory TraceLog
  imports TraceEvents JsonTail
begin

section \<open>The event log on disk\<close>

text \<open>
  The model of \<open>src/ract/trace/writer.py\<close>: \<open>EventReader\<close>, \<open>RedactionProfile\<close> and
  \<open>JsonlEventWriter\<close> with its commit sequence, its observers and the reading of the tip when a
  writer is opened on an existing log. One process writes a log, so no file grows while it is
  read. An observer is a function that tells whether it returns or raises; what observers have
  been given is the list \<open>w_seen\<close>. The regular expressions of a redaction profile are the
  parameter \<open>resub\<close>: \<open>resub p r s\<close> is \<open>re.sub(p, r, s)\<close>.
\<close>

subsection \<open>Lines of bytes\<close>

text \<open>The pieces \<open>readline\<close> gives of a binary file, each with its newline.\<close>

definition chunks :: "string \<Rightarrow> string list" where
  "chunks c =
    (let ls = split_on newline c
     in map (\<lambda>l. l @ [newline]) (butlast ls) @ (if last ls = [] then [] else [last ls]))"

definition carriage :: char where
  "carriage = CHR 0x0D"

definition trim_newline :: "string \<Rightarrow> string" where
  "trim_newline ch =
    (if endswith ch [carriage, newline] then take (length ch - 2) ch
     else if endswith ch [newline] then take (length ch - 1) ch
     else ch)"

definition trim_eol :: "string \<Rightarrow> string" where
  "trim_eol ch = (let r = trim_newline ch in if endswith r [carriage] then take (length r - 1) r else r)"

subsection \<open>The reader\<close>

datatype line_result = SkipLine | StopReading | LineEvent event

definition decode_line :: "bool \<Rightarrow> string \<Rightarrow> string option" where
  "decode_line tail raw =
    (if utf8_valid raw then Some raw else if tail then Some (decode_replace raw) else None)"

text \<open>One line of \<open>iter_events\<close>; \<open>tail\<close> tells whether the file ends with it.\<close>

definition read_line_event ::
    "host \<Rightarrow> (string \<Rightarrow> pyfloat) \<Rightarrow> bool \<Rightarrow> string \<Rightarrow> trace_error + line_result" where
  "read_line_event h fl tail ch =
    (case decode_line tail (trim_eol ch) of
       None \<Rightarrow> Inl ChainBroken
     | Some txt \<Rightarrow>
         let line = py_strip txt in
         if line = [] then Inr SkipLine
         else case json_loads fl line of
           None \<Rightarrow> if tail then Inr StopReading else Inl ChainBroken
         | Some raw \<Rightarrow>
             (case from_canonical_dict h raw of
                Inl InvalidEvent \<Rightarrow> if tail then Inr StopReading else Inl ChainBroken
              | Inl e \<Rightarrow> Inl e
              | Inr e \<Rightarrow> Inr (LineEvent e)))"

fun iter_chunks :: "host \<Rightarrow> (string \<Rightarrow> pyfloat) \<Rightarrow> string list \<Rightarrow> trace_error + event list" where
  "iter_chunks h fl [] = Inr []"
| "iter_chunks h fl (ch # rest) =
    rbind (read_line_event h fl (rest = []) ch) (\<lambda>r.
      case r of
        SkipLine \<Rightarrow> iter_chunks h fl rest
      | StopReading \<Rightarrow> Inr []
      | LineEvent e \<Rightarrow> rbind (iter_chunks h fl rest) (\<lambda>es. Inr (e # es)))"

text \<open>\<open>read_all_events\<close>, the list of what \<open>iter_events\<close> yields.\<close>

definition read_all_events :: "host \<Rightarrow> (string \<Rightarrow> pyfloat) \<Rightarrow> disk_file \<Rightarrow> trace_error + event list" where
  "read_all_events h fl f =
    (case f of
       Absent \<Rightarrow> Inr []
     | Directory \<Rightarrow> Inr []
     | Unreadable _ \<Rightarrow> Inl (TraceOs PermissionDenied)
     | Content c \<Rightarrow> iter_chunks h fl (chunks c))"

definition load_chain ::
    "host \<Rightarrow> (string \<Rightarrow> pyfloat) \<Rightarrow> (string \<Rightarrow> string) \<Rightarrow> (string \<Rightarrow> string) \<Rightarrow> disk_file
      \<Rightarrow> trace_error + event_chain" where
  "load_chain h fl nfc sha256 f =
    rbind (read_all_events h fl f) (\<lambda>es.
      if es = [] then Inl ChainBroken
      else append_all nfc sha256 (new_chain (ev_run_id (hd es))) es)"

text \<open>\<open>EventReader.verify\<close>: whether the log loads; other errors than a broken chain escape.\<close>

definition reader_verify ::
    "host \<Rightarrow> (string \<Rightarrow> pyfloat) \<Rightarrow> (string \<Rightarrow> string) \<Rightarrow> (string \<Rightarrow> string) \<Rightarrow> disk_file \<Rightarrow> trace_error + bool" where
  "reader_verify h fl nfc sha256 f =
    (case load_chain h fl nfc sha256 f of
       Inl ChainBroken \<Rightarrow> Inr False
     | Inl e \<Rightarrow> Inl e
     | Inr _ \<Rightarrow> Inr True)"

subsection \<open>Redaction\<close>

record redaction_profile =
  patterns :: "string list"
  redacted_fields :: "string list"
  replacement_text :: string

definition scrub_text :: "(string \<Rightarrow> string \<Rightarrow> string \<Rightarrow> string) \<Rightarrow> redaction_profile \<Rightarrow> string \<Rightarrow> string" where
  "scrub_text resub prof s = foldl (\<lambda>out p. resub p (replacement_text prof) out) s (patterns prof)"

definition field_hit :: "redaction_profile \<Rightarrow> pykey \<Rightarrow> bool" where
  "field_hit prof k = (case k of KStr s \<Rightarrow> s \<in> set (redacted_fields prof) | KOther \<Rightarrow> False)"

fun scrub :: "(string \<Rightarrow> string \<Rightarrow> string \<Rightarrow> string) \<Rightarrow> redaction_profile \<Rightarrow> pyval \<Rightarrow> pyval" where
  "scrub resub prof (PStr s) = PStr (scrub_text resub prof s)"
| "scrub resub prof (PDict d) =
    PDict (map (\<lambda>(k, v). (k, if field_hit prof k then PStr (replacement_text prof) else scrub resub prof v)) d)"
| "scrub resub prof (PList vs) = PList (map (scrub resub prof) vs)"
| "scrub resub prof v = v"

definition apply_redaction ::
    "(string \<Rightarrow> string \<Rightarrow> string \<Rightarrow> string) \<Rightarrow> redaction_profile \<Rightarrow> payload \<Rightarrow> payload" where
  "apply_redaction resub prof p =
    map (\<lambda>(k, v). (k, if field_hit prof k then PStr (replacement_text prof) else scrub resub prof v)) p"

subsection \<open>The writer\<close>

record writer =
  w_file :: disk_file
  w_chain :: event_chain
  w_redaction :: "redaction_profile option"
  w_mirrors :: "(event \<Rightarrow> bool) list"
  w_post_commit :: "(event \<Rightarrow> bool) list"
  w_durability :: "(event \<Rightarrow> bool) list"
  w_watermark :: nat
  w_committing :: bool
  w_seen :: "event list"

text \<open>The run id a writer is given, or the one bound in the process, in hexadecimal.\<close>

definition resolve_run_id :: "string option \<Rightarrow> string option \<Rightarrow> trace_error + string" where
  "resolve_run_id rid ambient =
    (case rid of
       Some r \<Rightarrow> Inr r
     | None \<Rightarrow>
         (case ambient of
            None \<Rightarrow> Inl NoRunId
          | Some a \<Rightarrow>
              if a = [] then Inl NoRunId
              else case fromhex a of
                None \<Rightarrow> Inl NoRunId
              | Some r \<Rightarrow> if length r = 16 then Inr r else Inl NoRunId))"

definition parse_event_line :: "host \<Rightarrow> (string \<Rightarrow> pyfloat) \<Rightarrow> string \<Rightarrow> trace_error + event" where
  "parse_event_line h fl line =
    (case json_loads fl line of None \<Rightarrow> Inl InvalidEvent | Some raw \<Rightarrow> from_canonical_dict h raw)"

text \<open>The last line that is an event, and how many stand behind it; lines in reverse.\<close>

fun seed_from :: "host \<Rightarrow> (string \<Rightarrow> pyfloat) \<Rightarrow> string list \<Rightarrow> trace_error + (string \<times> nat) option" where
  "seed_from h fl [] = Inr None"
| "seed_from h fl (l # ls) =
    (case parse_event_line h fl l of
       Inr e \<Rightarrow> Inr (Some (ev_hash e, 0))
     | Inl InvalidEvent \<Rightarrow>
         rbind (seed_from h fl ls) (\<lambda>r. Inr (map_option (\<lambda>(hs, n). (hs, n + 1)) r))
     | Inl err \<Rightarrow> Inl err)"

fun kept_prefix :: "host \<Rightarrow> (string \<Rightarrow> pyfloat) \<Rightarrow> string \<Rightarrow> string list \<Rightarrow> trace_error + nat" where
  "kept_prefix h fl seed [] = Inr 0"
| "kept_prefix h fl seed (l # ls) =
    (case parse_event_line h fl l of
       Inr e \<Rightarrow>
         if ev_hash e = seed then Inr (length l + 1)
         else rbind (kept_prefix h fl seed ls) (\<lambda>n. Inr (length l + 1 + n))
     | Inl InvalidEvent \<Rightarrow> Inr 0
     | Inl err \<Rightarrow> Inl err)"

text \<open>\<open>file.truncate(n)\<close>: a longer size fills up with zero bytes.\<close>

definition truncate_to :: "nat \<Rightarrow> string \<Rightarrow> string" where
  "truncate_to n c = take n c @ replicate (n - length c) (CHR 0x00)"

text \<open>\<open>_reseed_tip_from_disk\<close>: the tip found, if any, and the file left.\<close>

definition reseed_tip :: "host \<Rightarrow> (string \<Rightarrow> pyfloat) \<Rightarrow> disk_file \<Rightarrow> trace_error + string option \<times> disk_file" where
  "reseed_tip h fl f =
    (case f of
       Content c \<Rightarrow>
         if c = [] then Inr (None, f)
         else if \<not> utf8_valid c then Inl ChainBroken
         else
           let ls = filter (\<lambda>l. py_strip l \<noteq> []) (split_on newline c) in
           rbind (seed_from h fl (rev ls)) (\<lambda>s.
             case s of
               None \<Rightarrow> Inr (None, f)
             | Some (hs, dropped) \<Rightarrow>
                 if dropped = 0 then Inr (Some hs, f)
                 else rbind (kept_prefix h fl hs ls) (\<lambda>n. Inr (Some hs, Content (truncate_to n c))))
     | _ \<Rightarrow> Inr (None, f))"

definition open_writer ::
    "host \<Rightarrow> (string \<Rightarrow> pyfloat) \<Rightarrow> string option \<Rightarrow> string option \<Rightarrow> redaction_profile option \<Rightarrow> disk_file
      \<Rightarrow> trace_error + writer" where
  "open_writer h fl rid ambient red f =
    rbind (resolve_run_id rid ambient) (\<lambda>r. rbind (reseed_tip h fl f) (\<lambda>(tip, f').
      Inr \<lparr>w_file = f',
           w_chain = (new_chain r)\<lparr>tip_hash := (case tip of None \<Rightarrow> genesis_hash | Some hs \<Rightarrow> hs)\<rparr>,
           w_redaction = red, w_mirrors = [], w_post_commit = [], w_durability = [],
           w_watermark = 0, w_committing = False, w_seen = []\<rparr>))"

definition add_mirror :: "(event \<Rightarrow> bool) \<Rightarrow> writer \<Rightarrow> writer" where
  "add_mirror s w = w\<lparr>w_mirrors := w_mirrors w @ [s]\<rparr>"

definition add_post_commit_observer :: "(event \<Rightarrow> bool) \<Rightarrow> writer \<Rightarrow> writer" where
  "add_post_commit_observer s w = w\<lparr>w_post_commit := w_post_commit w @ [s]\<rparr>"

definition add_durability_observer :: "(event \<Rightarrow> bool) \<Rightarrow> writer \<Rightarrow> writer" where
  "add_durability_observer s w = w\<lparr>w_durability := w_durability w @ [s]\<rparr>"

text \<open>Calling observers: the first list stops at one that raises, the second does not.\<close>

definition see :: "event \<Rightarrow> writer \<Rightarrow> writer" where
  "see e w = w\<lparr>w_seen := w_seen w @ [e]\<rparr>"

fun fire_mirrors :: "(event \<Rightarrow> bool) list \<Rightarrow> event \<Rightarrow> writer \<Rightarrow> bool \<times> writer list" where
  "fire_mirrors [] e w = (True, [])"
| "fire_mirrors (s # ss) e w =
    (if s e then (case fire_mirrors ss e (see e w) of (b, ws) \<Rightarrow> (b, see e w # ws)) else (False, [see e w]))"

fun fire_post_commit :: "(event \<Rightarrow> bool) list \<Rightarrow> event \<Rightarrow> writer \<Rightarrow> writer list" where
  "fire_post_commit [] e w = []"
| "fire_post_commit (s # ss) e w = see e w # fire_post_commit ss e (see e w)"

text \<open>\<open>_write_line\<close>: the file opened, and with the line.\<close>

definition write_line :: "(string \<Rightarrow> string) \<Rightarrow> event \<Rightarrow> disk_file \<Rightarrow> trace_error + disk_file \<times> disk_file" where
  "write_line nfc e f =
    (case dumps_jcs nfc (PDict (to_canonical_dict e)) of
       Inl err \<Rightarrow> Inl (Unencodable err)
     | Inr t \<Rightarrow>
         (case open_append f of
            Inl err \<Rightarrow> Inl (TraceOs err)
          | Inr g \<Rightarrow> Inr (g, write_end (t @ [newline]) g)))"

definition redacted :: "(string \<Rightarrow> string \<Rightarrow> string \<Rightarrow> string) \<Rightarrow> writer \<Rightarrow> payload \<Rightarrow> payload" where
  "redacted resub w p = (case w_redaction w of None \<Rightarrow> p | Some prof \<Rightarrow> apply_redaction resub prof p)"

text \<open>\<open>emit\<close>, with the writer after each of its steps.\<close>

definition emit_states ::
    "(string \<Rightarrow> string \<Rightarrow> string \<Rightarrow> string) \<Rightarrow> (string \<Rightarrow> string) \<Rightarrow> (string \<Rightarrow> string) \<Rightarrow> string \<Rightarrow> payload
      \<Rightarrow> string option \<Rightarrow> string option \<Rightarrow> int \<Rightarrow> string \<Rightarrow> writer \<Rightarrow> (trace_error + event) \<times> writer list" where
  "emit_states resub nfc sha256 kd p step par ts i w =
    (let w1 = w\<lparr>w_committing := True\<rparr> in
     case build_next nfc sha256 (w_chain w) kd (redacted resub w p) step par ts i of
       Inl err \<Rightarrow> (Inl err, [w, w1, w1\<lparr>w_committing := False\<rparr>])
     | Inr e \<Rightarrow>
         (case write_line nfc e (w_file w) of
            Inl err \<Rightarrow> (Inl err, [w, w1, w1\<lparr>w_committing := False\<rparr>])
          | Inr (g, g') \<Rightarrow>
              let w2 = w1\<lparr>w_file := g'\<rparr> in
              (case chain_append_event nfc sha256 (w_chain w) e of
                 Inl err \<Rightarrow> (Inl err, [w, w1, w1\<lparr>w_file := g\<rparr>, w2, w2\<lparr>w_committing := False\<rparr>])
               | Inr c \<Rightarrow>
                   let w3 = w2\<lparr>w_chain := c\<rparr>; w4 = w3\<lparr>w_committing := False\<rparr>;
                       (returned, ms) = fire_mirrors (w_mirrors w) e w4;
                       w5 = last (w4 # ms);
                       ps = (if returned then fire_post_commit (w_post_commit w) e w5 else [])
                   in (if returned then Inr e else Inl SinkRaised,
                       [w, w1, w1\<lparr>w_file := g\<rparr>, w2, w3, w4] @ ms @ ps))))"

text \<open>The file when the process is killed after \<open>n\<close> bytes of the line.\<close>

definition emit_killed ::
    "(string \<Rightarrow> string \<Rightarrow> string \<Rightarrow> string) \<Rightarrow> (string \<Rightarrow> string) \<Rightarrow> (string \<Rightarrow> string) \<Rightarrow> nat \<Rightarrow> string \<Rightarrow> payload
      \<Rightarrow> string option \<Rightarrow> string option \<Rightarrow> int \<Rightarrow> string \<Rightarrow> writer \<Rightarrow> disk_file" where
  "emit_killed resub nfc sha256 n kd p step par ts i w =
    (case build_next nfc sha256 (w_chain w) kd (redacted resub w p) step par ts i of
       Inl _ \<Rightarrow> w_file w
     | Inr e \<Rightarrow>
         (case (dumps_jcs nfc (PDict (to_canonical_dict e)), open_append (w_file w)) of
            (Inr t, Inr g) \<Rightarrow> write_end (take n (t @ [newline])) g
          | _ \<Rightarrow> w_file w))"

text \<open>\<open>checkpoint\<close>; \<open>close\<close> is the same. The flag tells whether every observer returned.\<close>

fun fire_durability :: "(event \<Rightarrow> bool) list \<Rightarrow> event list \<Rightarrow> writer \<Rightarrow> bool \<times> writer" where
  "fire_durability obs [] w = (True, w)"
| "fire_durability obs (e # es) w =
    (case fire_mirrors obs e w of
       (returned, ws) \<Rightarrow>
         if returned then fire_durability obs es (last (w # ws)) else (False, last (w # ws)))"

definition checkpoint :: "writer \<Rightarrow> (trace_error + unit) \<times> writer" where
  "checkpoint w =
    (if w_committing w then (Inl WriteFirstViolation, w)
     else
       let w' = w\<lparr>w_watermark := length (chain_events (w_chain w))\<rparr> in
       case fire_durability (w_durability w) (drop (w_watermark w) (chain_events (w_chain w))) w' of
         (returned, w'') \<Rightarrow> (if returned then Inr () else Inl SinkRaised, w''))"

subsection \<open>Reading the lines of a log\<close>

text \<open>The bytes of a log whose lines are \<open>ts\<close>.\<close>

definition log_text :: "string list \<Rightarrow> string" where
  "log_text ts = concat (map (\<lambda>t. t @ [newline]) ts)"

lemma log_text_simps [simp]:
  "log_text [] = []" "log_text (t # ts) = t @ newline # log_text ts"
  "log_text (ts @ us) = log_text ts @ log_text us"
  by (simp_all add: log_text_def)

lemma split_log_text:
  "\<forall>t \<in> set ts. newline \<notin> set t \<Longrightarrow> newline \<notin> set u \<Longrightarrow> split_on newline (log_text ts @ u) = ts @ [u]"
  unfolding log_text_def by (simp add: split_on_lines split_on_no_sep)

lemma chunks_log_text:
  assumes "\<forall>t \<in> set ts. newline \<notin> set t" and "newline \<notin> set u"
  shows "chunks (log_text ts @ u) = map (\<lambda>t. t @ [newline]) ts @ (if u = [] then [] else [u])"
  by (simp add: chunks_def split_log_text [OF assms])

lemma event_line_text:
  assumes "event_line nfc e t"
  shows "t \<noteq> []" and "newline \<notin> set t" and "carriage \<notin> set t" and "utf8_valid t" and "py_strip t = t"
    and "hd t = CHR ''{''" and "last t = CHR ''}''"
proof -
  from assms have d: "dumps_jcs nfc (PDict (to_canonical_dict e)) = Inr t"
    and f: "float_free (PDict (to_canonical_dict e))"
    by (simp_all add: event_line_def float_free_to_canonical del: float_free.simps)
  show "newline \<notin> set t" using dumps_no_newline [OF d f] .
  have w: "walk nfc (PDict (to_canonical_dict e)) = Inr t" and "utf8_valid t" using d by (simp_all add: dumps_jcs_ok)
  then show "utf8_valid t" by simp
  show "carriage \<notin> set t" using walk_printable [OF w f] by (force simp: carriage_def)
  show "py_strip t = t" using d by (rule strip_dumped)
  have "encode_dict nfc (map (\<lambda>(k, v). (k, walk nfc v)) (to_canonical_dict e)) = Inr t" using w by simp
  note shape = encode_dict_ok(1) [OF this]
  show "t \<noteq> []" "hd t = CHR ''{''" "last t = CHR ''}''" unfolding shape by simp_all
qed

lemma endswith_snoc [simp]: "endswith (xs @ [x]) [y] \<longleftrightarrow> x = y"
  by (simp add: endswith_def)

lemma endswith_two: "endswith (xs @ [x]) [a, b] \<longleftrightarrow> xs \<noteq> [] \<and> last xs = a \<and> x = b"
  by (cases xs rule: rev_cases) (auto simp: endswith_def)

lemma endswith_in: "endswith s w \<Longrightarrow> set w \<subseteq> set s"
  using endswith_split [of s w] by (metis set_append sup.cobounded2)

lemma trim_eol_line:
  assumes "newline \<notin> set t" and "carriage \<notin> set t"
  shows "trim_eol (t @ [newline]) = t" and "trim_eol t = t"
proof -
  have c: "\<not> endswith t [carriage]" "\<not> endswith t [newline]" "\<not> endswith t [carriage, newline]"
    using assms endswith_in [of t] by force+
  have "\<not> endswith (t @ [newline]) [carriage, newline]"
    using assms(2) by (auto simp: endswith_two dest: last_in_set)
  with c show "trim_eol (t @ [newline]) = t" "trim_eol t = t"
    by (simp_all add: trim_eol_def trim_newline_def Let_def)
qed

lemma trim_eol_torn: "newline \<notin> set (p @ q) \<Longrightarrow> carriage \<notin> set (p @ q) \<Longrightarrow> trim_eol p = p"
  by (rule trim_eol_line) simp_all

lemma read_event_line:
  assumes "event_line nfc e t"
  shows "read_line_event h fl tail (t @ [newline]) = Inr (LineEvent (canon_event nfc e))"
    and "read_line_event h fl tail t = Inr (LineEvent (canon_event nfc e))"
  using event_line_text [OF assms] event_line_loads [OF assms, of fl] event_line_reads [OF assms, of h]
  by (simp_all add: read_line_event_def trim_eol_line decode_line_def)

lemma read_torn_line:
  assumes e: "event_line nfc e (p @ q)" and "q \<noteq> []" and "p \<noteq> []"
  shows "read_line_event h fl True p = Inr StopReading"
proof -
  from e have d: "dumps_jcs nfc (PDict (to_canonical_dict e)) = Inr (p @ q)" and n: "normalises nfc"
    and f: "float_free (PDict (to_canonical_dict e))"
    by (simp_all add: event_line_def float_free_to_canonical del: float_free.simps)
  note torn = torn_rejected [OF d assms(2) f n, of fl]
  have tr: "trim_eol p = p" using event_line_text(2,3) [OF e] by (rule trim_eol_torn)
  show ?thesis
    using torn assms(3) by (cases "utf8_valid p") (simp_all add: read_line_event_def tr decode_line_def)
qed

lemma read_glued_lines:
  assumes "event_line nfc e t" and "event_line nfc e' t'"
  shows "read_line_event h fl tail (t @ t' @ [newline]) = (if tail then Inr StopReading else Inl ChainBroken)"
proof -
  note a = event_line_text [OF assms(1)] and b = event_line_text [OF assms(2)]
  have none: "json_loads fl (t @ t') = None"
  proof (rule ccontr)
    assume "json_loads fl (t @ t') \<noteq> None"
    then have "json_loads fl t = None"
      using proper_prefix_rejected [of fl t t'] a b by (auto simp: is_space_def)
    with event_line_loads [OF assms(1), of fl] show False by simp
  qed
  have "t @ t' \<noteq> []" "hd (t @ t') = CHR ''{''" "last (t @ t') = CHR ''}''" using a b by simp_all
  then have st: "py_strip (t @ t') = t @ t'"
    using py_strip_brace strip_right_last by simp
  have "trim_eol ((t @ t') @ [newline]) = t @ t'" using a b by (intro trim_eol_line(1)) simp_all
  with a b show ?thesis
    by (simp add: read_line_event_def decode_line_def utf8_valid_append st none)
qed

lemma iter_log:
  assumes "list_all2 (event_line nfc) es ts"
  shows "iter_chunks h fl (map (\<lambda>t. t @ [newline]) ts @ rest)
    = rbind (iter_chunks h fl rest) (\<lambda>fs. Inr (map (canon_event nfc) es @ fs))"
  using assms
proof (induction es ts rule: list_all2_induct)
  case Nil
  show ?case by (cases "iter_chunks h fl rest") simp_all
next
  case (Cons e es t ts)
  then show ?case by (cases "iter_chunks h fl rest") (simp_all add: read_event_line(1) [of nfc e t])
qed

lemma lines_no_newline: "list_all2 (event_line nfc) es ts \<Longrightarrow> \<forall>t \<in> set ts. newline \<notin> set t"
  by (induction es ts rule: list_all2_induct) (simp_all add: event_line_text(2))

lemma read_log:
  assumes "list_all2 (event_line nfc) es ts"
  shows "read_all_events h fl (Content (log_text ts)) = Inr (map (canon_event nfc) es)"
  using iter_log [OF assms, of h fl "[]"] chunks_log_text [OF lines_no_newline [OF assms], of "[]"]
  by (simp add: read_all_events_def)

lemma read_log_torn:
  assumes "list_all2 (event_line nfc) es ts" and "event_line nfc e (p @ q)" and "q \<noteq> []"
  shows "read_all_events h fl (Content (log_text ts @ p)) = Inr (map (canon_event nfc) es)"
proof (cases "p = []")
  case True
  with read_log [OF assms(1)] show ?thesis by simp
next
  case False
  have "newline \<notin> set p" using event_line_text(2) [OF assms(2)] by simp
  from chunks_log_text [OF lines_no_newline [OF assms(1)] this] False
    iter_log [OF assms(1), of h fl "[p]"] read_torn_line [OF assms(2,3) False, of h fl]
  show ?thesis by (simp add: read_all_events_def)
qed

subsection \<open>Chains of events read back\<close>

lemma append_all_canon:
  assumes "append_all nfc sha256 c es = Inr d" and "normalises nfc"
    and "chain_run_id c' = chain_run_id c" and "tip_hash c' = tip_hash c"
  shows "append_all nfc sha256 c' (map (canon_event nfc) es)
    = Inr \<lparr>chain_run_id = chain_run_id c, chain_events = chain_events c' @ map (canon_event nfc) es, tip_hash = tip_hash d\<rparr>"
  using assms
proof (induction es arbitrary: c c')
  case Nil
  then show ?case by (simp add: append_all_def)
next
  case (Cons e es)
  from Cons.prems(1) obtain x where x: "chain_append_event nfc sha256 c e = Inr x"
    and rest: "append_all nfc sha256 x es = Inr d" by (auto simp: append_all_def result_simps)
  have p: "preimage nfc (canon_event nfc e) = Inr b" if "preimage nfc e = Inr b" for b
    using hash_preimage_canon [of nfc] that assms(2) by (simp add: preimage_def)
  let ?x' = "c'\<lparr>chain_events := chain_events c' @ [canon_event nfc e], tip_hash := ev_hash e\<rparr>"
  have "chain_append_event nfc sha256 c' (canon_event nfc e) = Inr ?x'"
    using x p Cons.prems(4) by (auto simp: chain_append_iff)
  moreover have "append_all nfc sha256 ?x' (map (canon_event nfc) es)
      = Inr \<lparr>chain_run_id = chain_run_id x, chain_events = chain_events ?x' @ map (canon_event nfc) es, tip_hash = tip_hash d\<rparr>"
    using x Cons.prems by (intro Cons.IH [OF rest]) (auto simp: chain_append_iff)
  moreover have "chain_run_id x = chain_run_id c" using x by (auto simp: chain_append_iff)
  ultimately show ?case by (simp add: append_all_def)
qed

text \<open>
  A file holds a log: the lines of the events \<open>es\<close> of the run \<open>r\<close>, which are a chain from
  the genesis hash to \<open>tip\<close>.
\<close>

definition log_holds ::
    "(string \<Rightarrow> string) \<Rightarrow> (string \<Rightarrow> string) \<Rightarrow> disk_file \<Rightarrow> string \<Rightarrow> event list \<Rightarrow> string \<Rightarrow> bool" where
  "log_holds nfc sha256 f r es tip \<longleftrightarrow>
    normalises nfc \<and> (\<forall>e \<in> set es. ev_run_id e = r) \<and>
    (\<exists>c. append_all nfc sha256 (new_chain r) es = Inr c \<and> tip_hash c = tip) \<and>
    (f = Absent \<and> es = [] \<or> (\<exists>ts. f = Content (log_text ts) \<and> list_all2 (event_line nfc) es ts))"

lemma log_holds_reads: "log_holds nfc sha256 f r es tip \<Longrightarrow> read_all_events h fl f = Inr (map (canon_event nfc) es)"
  by (auto simp: log_holds_def read_log) (simp add: read_all_events_def)

lemma log_holds_loads:
  assumes "log_holds nfc sha256 f r es tip" and "es \<noteq> []"
  shows "load_chain h fl nfc sha256 f
    = Inr \<lparr>chain_run_id = r, chain_events = map (canon_event nfc) es, tip_hash = tip\<rparr>"
proof -
  from assms(1) obtain c where c: "append_all nfc sha256 (new_chain r) es = Inr c" "tip_hash c = tip"
    and n: "normalises nfc" and r: "\<forall>e \<in> set es. ev_run_id e = r" by (auto simp: log_holds_def)
  from append_all_canon [OF c(1) n, of "new_chain r"]
  have "append_all nfc sha256 (new_chain r) (map (canon_event nfc) es)
      = Inr \<lparr>chain_run_id = r, chain_events = map (canon_event nfc) es, tip_hash = tip\<rparr>"
    using c(2) by (simp add: new_chain_def)
  moreover have "ev_run_id (hd (map (canon_event nfc) es)) = r" using r assms(2) by (cases es) simp_all
  ultimately show ?thesis using assms(2) by (simp add: load_chain_def log_holds_reads [OF assms(1)])
qed

lemma log_holds_start: "normalises nfc \<Longrightarrow> log_holds nfc sha256 Absent r [] genesis_hash"
  by (simp add: log_holds_def append_all_def new_chain_def)

lemma log_holds_open:
  "log_holds nfc sha256 f r es tip \<Longrightarrow> open_append f = Inr g \<Longrightarrow>
    \<exists>ts. g = Content (log_text ts) \<and> list_all2 (event_line nfc) es ts"
  by (auto simp: log_holds_def)

lemma log_holds_open_file: "log_holds nfc sha256 f r es tip \<Longrightarrow> open_append f = Inr g \<Longrightarrow> log_holds nfc sha256 g r es tip"
  using log_holds_open [of nfc sha256 f r es tip g] by (auto simp: log_holds_def)

lemma log_holds_snoc:
  assumes "log_holds nfc sha256 f r es tip" and "open_append f = Inr g" and "event_line nfc e t"
    and "ev_run_id e = r" and "prev_hash e = tip" and "rebuild_hash nfc sha256 e = Inr (ev_hash e)"
  shows "log_holds nfc sha256 (write_end (t @ [newline]) g) r (es @ [e]) (ev_hash e)"
proof -
  from log_holds_open [OF assms(1,2)] obtain ts where g: "g = Content (log_text ts)"
    and ts: "list_all2 (event_line nfc) es ts" by blast
  from assms(1) obtain c where c: "append_all nfc sha256 (new_chain r) es = Inr c" "tip_hash c = tip"
    by (auto simp: log_holds_def)
  have "append_all nfc sha256 (new_chain r) (es @ [e]) = Inr (c\<lparr>chain_events := chain_events c @ [e], tip_hash := ev_hash e\<rparr>)"
    using c assms(5,6) by (simp add: append_all_snoc chain_append_event_def)
  moreover have "write_end (t @ [newline]) g = Content (log_text (ts @ [t]))" by (simp add: g)
  moreover have "list_all2 (event_line nfc) (es @ [e]) (ts @ [t])" using ts assms(3) by (simp add: list_all2_appendI)
  ultimately show ?thesis
    using assms(1,4) unfolding log_holds_def
    by (intro conjI disjI2 exI [of _ "ts @ [t]"] exI [of _ "c\<lparr>chain_events := chain_events c @ [e], tip_hash := ev_hash e\<rparr>"])
      auto
qed

subsection \<open>Emitting\<close>

definition writer_log :: "(string \<Rightarrow> string) \<Rightarrow> (string \<Rightarrow> string) \<Rightarrow> writer \<Rightarrow> event list \<Rightarrow> bool" where
  "writer_log nfc sha256 w es \<longleftrightarrow>
    log_holds nfc sha256 (w_file w) (chain_run_id (w_chain w)) es (tip_hash (w_chain w))"

lemma build_next_ok:
  assumes "build_next nfc sha256 c kd p step par ts i = Inr e"
  shows "event_ok e" and "ev_run_id e = chain_run_id c" and "prev_hash e = tip_hash c"
    and "rebuild_hash nfc sha256 e = Inr (ev_hash e)" and "ev_payload e = p"
    and "chain_append_event nfc sha256 c e
      = Inr (c\<lparr>chain_events := chain_events c @ [e], tip_hash := ev_hash e\<rparr>)"
proof -
  obtain hs where hs: "hash_event nfc sha256 kd p (tip_hash c) i (chain_run_id c) step par ts = Inr hs"
    and e: "e = \<lparr>ev_id = i, ev_run_id = chain_run_id c, ev_step_id = step, ev_parent_id = par, timestamp_ns = ts,
         ev_kind = kd, ev_payload = p, ev_hash = hs, prev_hash = tip_hash c\<rparr>" and ok: "event_ok e"
    using assms by (auto simp: build_next_def rbind_Inr_iff event_post_init_def split: if_splits)
  show "event_ok e" by (rule ok)
  show r: "ev_run_id e = chain_run_id c" and q: "prev_hash e = tip_hash c" and "ev_payload e = p"
    by (simp_all add: e)
  show h: "rebuild_hash nfc sha256 e = Inr (ev_hash e)" using hs by (simp add: rebuild_hash_def e)
  show "chain_append_event nfc sha256 c e = Inr (c\<lparr>chain_events := chain_events c @ [e], tip_hash := ev_hash e\<rparr>)"
    by (simp add: chain_append_event_def h q)
qed

lemma build_next_line:
  assumes "build_next nfc sha256 c kd p step par ts i = Inr e" and "float_free (PDict p)" and "normalises nfc"
    and "dumps_jcs nfc (PDict (to_canonical_dict e)) = Inr t"
  shows "event_line nfc e t"
  using assms build_next_ok [OF assms(1)] by (simp add: event_line_def)

lemma fire_mirrors_keeps:
  "w' \<in> set (snd (fire_mirrors ss e w)) \<Longrightarrow>
    w_file w' = w_file w \<and> w_chain w' = w_chain w \<and> set (w_seen w') \<subseteq> insert e (set (w_seen w))"
  by (induction ss e w rule: fire_mirrors.induct) (auto simp: see_def split: if_splits prod.splits)

lemma fire_post_commit_keeps:
  "w' \<in> set (fire_post_commit ss e w) \<Longrightarrow>
    w_file w' = w_file w \<and> w_chain w' = w_chain w \<and> set (w_seen w') \<subseteq> insert e (set (w_seen w))"
  by (induction ss e w rule: fire_post_commit.induct) (auto simp: see_def)

text \<open>Either nothing reaches the file, or the line does, before any observer is called.\<close>

lemma emit_cases:
  assumes "emit_states resub nfc sha256 kd p step par ts i w = (r, ws)"
  obtains
    (failed) err where "r = Inl err" "ws \<noteq> []"
      "\<forall>w' \<in> set ws. w_file w' = w_file w \<and> w_chain w' = w_chain w \<and> w_seen w' = w_seen w"
  | (written) e t g c where
      "build_next nfc sha256 (w_chain w) kd (redacted resub w p) step par ts i = Inr e"
      "dumps_jcs nfc (PDict (to_canonical_dict e)) = Inr t" "open_append (w_file w) = Inr g"
      "chain_append_event nfc sha256 (w_chain w) e = Inr c" "r = Inr e \<or> r = Inl SinkRaised" "ws \<noteq> []"
      "w_file (last ws) = write_end (t @ [newline]) g" "w_chain (last ws) = c"
      "\<forall>w' \<in> set ws. (w_file w' = w_file w \<or> w_file w' = g) \<and> w_seen w' = w_seen w \<or>
        w_file w' = write_end (t @ [newline]) g \<and> set (w_seen w') \<subseteq> insert e (set (w_seen w))"
proof (cases "build_next nfc sha256 (w_chain w) kd (redacted resub w p) step par ts i")
  case (Inl err)
  with assms have "r = Inl err" "ws = [w, w\<lparr>w_committing := True\<rparr>, w\<lparr>w_committing := False\<rparr>]"
    by (simp_all add: emit_states_def)
  then show ?thesis by (intro failed) simp_all
next
  case b: (Inr e)
  show ?thesis
  proof (cases "write_line nfc e (w_file w)")
    case (Inl err)
    with b assms have "r = Inl err" "ws = [w, w\<lparr>w_committing := True\<rparr>, w\<lparr>w_committing := False\<rparr>]"
      by (simp_all add: emit_states_def)
    then show ?thesis by (intro failed) simp_all
  next
    case wl: (Inr gg)
    obtain t g where t: "dumps_jcs nfc (PDict (to_canonical_dict e)) = Inr t" and g: "open_append (w_file w) = Inr g"
      and gg: "gg = (g, write_end (t @ [newline]) g)"
      using wl by (auto simp: write_line_def split: sum.splits)
    let ?c = "(w_chain w)\<lparr>chain_events := chain_events (w_chain w) @ [e], tip_hash := ev_hash e\<rparr>"
    note c = build_next_ok(6) [OF b]
    let ?w1 = "w\<lparr>w_committing := True\<rparr>"
    let ?f = "write_end (t @ [newline]) g"
    obtain w4 where w4: "w4 = ?w1\<lparr>w_file := ?f, w_chain := ?c, w_committing := False\<rparr>" by blast
    obtain ret ms where m: "fire_mirrors (w_mirrors w) e w4 = (ret, ms)" by fastforce
    obtain ps where ps: "ps = (if ret then fire_post_commit (w_post_commit w) e (last (w4 # ms)) else [])" by blast
    obtain front where front: "front = [w, ?w1, ?w1\<lparr>w_file := g\<rparr>, ?w1\<lparr>w_file := ?f\<rparr>, ?w1\<lparr>w_file := ?f, w_chain := ?c\<rparr>]" by blast
    have r: "r = (if ret then Inr e else Inl SinkRaised)" and ws: "ws = front @ w4 # ms @ ps"
      using assms b wl gg c m by (auto simp: emit_states_def Let_def front ps w4)
    have f4: "w_file w4 = ?f \<and> w_chain w4 = ?c \<and> w_seen w4 = w_seen w" by (simp add: w4)
    have k4: "w_file w' = ?f \<and> w_chain w' = ?c \<and> set (w_seen w') \<subseteq> insert e (set (w_seen w))"
      if "w' \<in> set (w4 # ms)" for w'
      using that fire_mirrors_keeps [of w' "w_mirrors w" e w4] m f4 by auto
    have k5: "w_file w' = ?f \<and> w_chain w' = ?c \<and> set (w_seen w') \<subseteq> insert e (set (w_seen w))"
      if "w' \<in> set ps" for w'
    proof -
      obtain w5 where w5: "w5 = last (w4 # ms)" by blast
      have "w5 \<in> set (w4 # ms)" unfolding w5 by (rule last_in_set) simp
      note m5 = k4 [OF this]
      have "w' \<in> set (fire_post_commit (w_post_commit w) e w5)"
        using that unfolding ps w5 [symmetric] by (cases ret) simp_all
      note fire_post_commit_keeps [OF this]
      with m5 show ?thesis by auto
    qed
    have k: "w_file w' = ?f \<and> w_chain w' = ?c \<and> set (w_seen w') \<subseteq> insert e (set (w_seen w))"
      if "w' \<in> set (w4 # ms @ ps)" for w'
      using that k4 [of w'] k5 [of w'] by (simp only: set_simps set_append Un_iff insert_iff) blast
    have "last ws = last (w4 # ms @ ps)" unfolding ws by (simp only: last_appendR list.distinct(2) not_False_eq_True)
    moreover have "last (w4 # ms @ ps) \<in> set (w4 # ms @ ps)" by (rule last_in_set) simp
    ultimately have l: "w_file (last ws) = ?f" "w_chain (last ws) = ?c" using k by metis+
    have fr: "(w_file w' = w_file w \<or> w_file w' = g) \<and> w_seen w' = w_seen w \<or>
        w_file w' = ?f \<and> set (w_seen w') \<subseteq> insert e (set (w_seen w))" if "w' \<in> set front" for w'
      using that unfolding front by auto
    have all: "\<forall>w' \<in> set ws. (w_file w' = w_file w \<or> w_file w' = g) \<and> w_seen w' = w_seen w \<or>
        w_file w' = ?f \<and> set (w_seen w') \<subseteq> insert e (set (w_seen w))"
    proof
      fix w' assume "w' \<in> set ws"
      then consider "w' \<in> set front" | "w' \<in> set (w4 # ms @ ps)" unfolding ws set_append by blast
      then show "(w_file w' = w_file w \<or> w_file w' = g) \<and> w_seen w' = w_seen w \<or>
        w_file w' = ?f \<and> set (w_seen w') \<subseteq> insert e (set (w_seen w))"
        using fr k by cases blast+
    qed
    show ?thesis
      by (rule written [OF b t g c _ _ l all]) (simp_all add: r ws)
  qed
qed

text \<open>The events the call has put on the chain.\<close>

definition new_events :: "writer \<Rightarrow> writer \<Rightarrow> event list" where
  "new_events w w' = drop (length (chain_events (w_chain w))) (chain_events (w_chain w'))"

lemma emit_log:
  assumes "writer_log nfc sha256 w es" and "emit_states resub nfc sha256 kd p step par ts i w = (r, ws)"
    and "float_free (PDict (redacted resub w p))"
  shows "writer_log nfc sha256 (last ws) (es @ new_events w (last ws))"
  using assms(2)
proof (cases rule: emit_cases)
  case (failed err)
  then have "w_file (last ws) = w_file w \<and> w_chain (last ws) = w_chain w" by simp
  with assms(1) show ?thesis by (simp add: writer_log_def new_events_def)
next
  case (written e t g c)
  note b = build_next_ok [OF written(1)]
  have n: "normalises nfc" using assms(1) by (simp add: writer_log_def log_holds_def)
  have c: "c = (w_chain w)\<lparr>chain_events := chain_events (w_chain w) @ [e], tip_hash := ev_hash e\<rparr>"
    using b(6) written(4) by simp
  have "event_line nfc e t" by (rule build_next_line [OF written(1) assms(3) n written(2)])
  from log_holds_snoc [OF _ written(3) this b(2,3,4)] assms(1)
  have "log_holds nfc sha256 (write_end (t @ [newline]) g) (chain_run_id (w_chain w)) (es @ [e]) (ev_hash e)"
    by (simp add: writer_log_def)
  then show ?thesis using written(7,8) c by (simp add: writer_log_def new_events_def)
qed

subsection \<open>Opening a writer on a log\<close>

lemma py_strip_Nil: "py_strip [] = []"
proof -
  have w: "\<not> endswith [] w" "\<not> startswith [] w" if "w \<in> set white" for w
    using white_nonempty [OF that] by (auto simp: endswith_def startswith_def)
  then have "find (endswith []) white = None" "find (startswith []) white = None" by (simp_all add: find_None_iff)
  then show ?thesis by (simp add: py_strip_def strip_left.simps strip_right.simps)
qed

lemma log_text_utf8: "list_all2 (event_line nfc) es ts \<Longrightarrow> utf8_valid (log_text ts @ u) = utf8_valid u"
proof (induction es ts rule: list_all2_induct)
  case (Cons e es t ts)
  have "utf8_valid (newline # s) = utf8_valid s" for s
    using utf8_valid_append [OF utf8_valid_newline, of s] by simp
  with Cons event_line_text(4) [OF Cons(1)] show ?case by (simp add: utf8_valid_append del: utf8_valid.simps)
qed simp

lemma parse_line: "event_line nfc e t \<Longrightarrow> parse_event_line h fl t = Inr (canon_event nfc e)"
  by (simp add: parse_event_line_def event_line_loads event_line_reads)

lemma log_lines:
  assumes "list_all2 (event_line nfc) es ts" and "newline \<notin> set u"
  shows "filter (\<lambda>l. py_strip l \<noteq> []) (split_on newline (log_text ts @ u))
    = ts @ (if py_strip u = [] then [] else [u])"
proof -
  have "filter (\<lambda>l. py_strip l \<noteq> []) ts = ts"
    using assms(1) by (induction es ts rule: list_all2_induct) (auto simp: event_line_text(1,5))
  then show ?thesis by (simp add: split_log_text [OF lines_no_newline [OF assms(1)] assms(2)])
qed

lemma log_tip:
  assumes "log_holds nfc sha256 f r es tip"
  shows "tip = (if es = [] then genesis_hash else ev_hash (last es))"
  using assms
  by (cases es rule: rev_cases)
    (auto simp: log_holds_def append_all_snoc result_simps chain_append_iff, auto simp: append_all_def new_chain_def)

lemma seed_from_log:
  assumes "list_all2 (event_line nfc) es ts"
  shows "seed_from h fl (rev ts) = Inr (if es = [] then None else Some (ev_hash (last es), 0))"
proof (cases ts rule: rev_cases)
  case (snoc us t)
  with assms obtain fs e where "es = fs @ [e]" "event_line nfc e t"
    by (auto simp: list_all2_append2 list_all2_Cons2)
  with snoc show ?thesis by (simp add: parse_line)
qed (use assms in simp)

lemma reseed_log:
  assumes "log_holds nfc sha256 f r es tip"
  shows "reseed_tip h fl f = Inr (if es = [] then None else Some tip, f)"
proof (cases "f = Absent")
  case True
  with assms show ?thesis by (auto simp: log_holds_def reseed_tip_def)
next
  case False
  with assms obtain ts where f: "f = Content (log_text ts)" and ts: "list_all2 (event_line nfc) es ts"
    by (auto simp: log_holds_def)
  show ?thesis
  proof (cases "es = []")
    case True
    with f ts show ?thesis by (simp add: reseed_tip_def)
  next
    case ne: False
    then have "log_text ts \<noteq> []" using ts by (cases ts) auto
    moreover have "utf8_valid (log_text ts)" using log_text_utf8 [OF ts, of "[]"] by simp
    moreover have "filter (\<lambda>l. py_strip l \<noteq> []) (split_on newline (log_text ts)) = ts"
      using log_lines [OF ts, of "[]"] by (simp add: py_strip_Nil)
    ultimately show ?thesis
      using seed_from_log [OF ts, of h fl] log_tip [OF assms] ne by (simp add: f reseed_tip_def)
  qed
qed

lemma kept_prefix_log:
  assumes "list_all2 (event_line nfc) es ts" and "distinct (map ev_hash es)" and "es \<noteq> []"
  shows "kept_prefix h fl (ev_hash (last es)) (ts @ rest) = Inr (length (log_text ts))"
  using assms
proof (induction es ts rule: list_all2_induct)
  case (Cons e es t ts)
  show ?case
  proof (cases "es = []")
    case True
    with Cons show ?thesis by (simp add: parse_line)
  next
    case False
    then have "ev_hash e \<noteq> ev_hash (last es)" using Cons.prems(1) by auto
    with Cons False show ?thesis by (simp add: parse_line)
  qed
qed simp

lemma torn_line_fails:
  assumes e: "event_line nfc e (p @ q)" and "q \<noteq> []"
  shows "parse_event_line h fl p = Inl InvalidEvent"
proof -
  from e have "dumps_jcs nfc (PDict (to_canonical_dict e)) = Inr (p @ q)" and "normalises nfc"
    and "float_free (PDict (to_canonical_dict e))"
    by (simp_all add: event_line_def float_free_to_canonical del: float_free.simps)
  from dumps_dict_prefix [OF this(1) assms(2) this(3,2), of fl] show ?thesis by (simp add: parse_event_line_def)
qed

lemma reseed_torn:
  assumes l: "log_holds nfc sha256 (Content (log_text ts)) r es tip" and ts: "list_all2 (event_line nfc) es ts"
    and d: "distinct (map ev_hash es)" and e: "event_line nfc e (p @ q)" and p: "p \<noteq> []" and q: "q \<noteq> []"
  shows "reseed_tip h fl (Content (log_text ts @ p)) =
    (if \<not> utf8_valid p then Inl ChainBroken
     else if es = [] then Inr (None, Content p) else Inr (Some tip, Content (log_text ts)))"
proof (cases "utf8_valid p")
  case False
  with p show ?thesis by (simp add: reseed_tip_def log_text_utf8 [OF ts])
next
  case True
  have nl: "newline \<notin> set p" using event_line_text(2) [OF e] by simp
  from e have dd: "dumps_jcs nfc (PDict (to_canonical_dict e)) = Inr (p @ q)" and n: "normalises nfc"
    and ff: "float_free (PDict (to_canonical_dict e))"
    by (simp_all add: event_line_def float_free_to_canonical del: float_free.simps)
  have ne: "py_strip p \<noteq> []" using torn_rejected(1) [OF dd q ff n True p] by blast
  have ls: "filter (\<lambda>l. py_strip l \<noteq> []) (split_on newline (log_text ts @ p)) = ts @ [p]"
    using log_lines [OF ts nl] ne by simp
  have sd: "seed_from h fl (rev (ts @ [p])) = Inr (if es = [] then None else Some (ev_hash (last es), 1))"
    using seed_from_log [OF ts, of h fl] by (simp add: torn_line_fails [OF e q])
  show ?thesis
  proof (cases "es = []")
    case es: True
    with ts have "ts = []" by simp
    with es True p ls sd show ?thesis by (simp add: reseed_tip_def log_text_utf8 [OF ts])
  next
    case es: False
    have "kept_prefix h fl tip (ts @ [p]) = Inr (length (log_text ts))"
      using kept_prefix_log [OF ts d es, of h fl "[p]"] log_tip [OF l] es by simp
    with es True p ls sd log_tip [OF l] show ?thesis
      by (simp add: reseed_tip_def log_text_utf8 [OF ts] truncate_to_def)
  qed
qed

lemma open_log:
  assumes "log_holds nfc sha256 f r es tip" and "open_writer h fl (Some r) ambient red f = Inr w"
  shows "writer_log nfc sha256 w es"
  using assms reseed_log [OF assms(1), of h fl] log_tip [OF assms(1)]
  by (auto simp: open_writer_def resolve_run_id_def writer_log_def new_chain_def split: if_splits)

subsection \<open>Runs of a writer, with kills\<close>

text \<open>
  What can happen to a log: a writer is opened on nothing or on what is there, observers are
  added and a checkpoint is taken, events are emitted, and the process is killed in the middle
  of a line and the log is opened again. Two kills are left out: one that leaves the whole line
  without its newline, and one inside the very first line (the writer then starts over behind
  the torn bytes). A file cut inside a character is refused by the writer. The second argument is the list of the events whose lines are in the file.
\<close>

inductive trace_run ::
    "host \<Rightarrow> (string \<Rightarrow> pyfloat) \<Rightarrow> (string \<Rightarrow> string \<Rightarrow> string \<Rightarrow> string) \<Rightarrow> (string \<Rightarrow> string)
      \<Rightarrow> (string \<Rightarrow> string) \<Rightarrow> writer \<Rightarrow> event list \<Rightarrow> bool"
  for h fl resub nfc sha256 where
  start: "open_writer h fl rid ambient red Absent = Inr w \<Longrightarrow> trace_run h fl resub nfc sha256 w []"
| configure: "trace_run h fl resub nfc sha256 w es \<Longrightarrow> w_file w' = w_file w \<Longrightarrow> w_chain w' = w_chain w \<Longrightarrow>
    trace_run h fl resub nfc sha256 w' es"
| emits: "trace_run h fl resub nfc sha256 w es \<Longrightarrow>
    emit_states resub nfc sha256 kd p step par ts i w = (r, ws) \<Longrightarrow> float_free (PDict (redacted resub w p)) \<Longrightarrow>
    trace_run h fl resub nfc sha256 (last ws) (es @ new_events w (last ws))"
| reopen: "trace_run h fl resub nfc sha256 w es \<Longrightarrow>
    open_writer h fl (Some (chain_run_id (w_chain w))) ambient red (w_file w) = Inr w' \<Longrightarrow>
    trace_run h fl resub nfc sha256 w' es"
| killed: "trace_run h fl resub nfc sha256 w es \<Longrightarrow>
    build_next nfc sha256 (w_chain w) kd (redacted resub w p) step par ts i = Inr e \<Longrightarrow>
    float_free (PDict (redacted resub w p)) \<Longrightarrow> dumps_jcs nfc (PDict (to_canonical_dict e)) = Inr t \<Longrightarrow>
    n \<noteq> length t \<Longrightarrow> (es = [] \<longrightarrow> n = 0 \<or> length t < n) \<Longrightarrow>
    open_writer h fl (Some (chain_run_id (w_chain w))) ambient red
      (emit_killed resub nfc sha256 n kd p step par ts i w) = Inr w' \<Longrightarrow>
    trace_run h fl resub nfc sha256 w' (if length t < n then es @ [e] else es)"

lemma writer_log_open: "writer_log nfc sha256 w es \<Longrightarrow> \<exists>g. open_append (w_file w) = Inr g"
  by (auto simp: writer_log_def log_holds_def)

lemma trace_run_log:
  "trace_run h fl resub nfc sha256 w es \<Longrightarrow> normalises nfc \<Longrightarrow> distinct (map ev_hash es) \<Longrightarrow> writer_log nfc sha256 w es"
proof (induction rule: trace_run.induct)
  case (start rid ambient red w)
  then show ?case
    by (auto simp: open_writer_def result_simps reseed_tip_def writer_log_def new_chain_def log_holds_def append_all_def)
next
  case (configure w es w')
  then show ?case by (simp add: writer_log_def)
next
  case (emits w es kd p step par ts i r ws)
  then show ?case using emit_log by simp
next
  case (reopen w es ambient red w')
  then show ?case using open_log by (auto simp: writer_log_def)
next
  case (killed w es kd p step par ts i e t n ambient red w')
  have d: "distinct (map ev_hash es)" using killed.prems(2) by (auto split: if_splits)
  note wl = killed.IH [OF killed.prems(1) d]
  note b = build_next_ok [OF killed.hyps(2)]
  have l: "log_holds nfc sha256 (w_file w) (chain_run_id (w_chain w)) es (tip_hash (w_chain w))"
    using wl by (simp add: writer_log_def)
  have e: "event_line nfc e t" by (rule build_next_line [OF killed.hyps(2,3) killed.prems(1) killed.hyps(4)])
  from writer_log_open [OF wl] obtain g where g: "open_append (w_file w) = Inr g" by blast
  from log_holds_open [OF l g] obtain us where us: "g = Content (log_text us)" "list_all2 (event_line nfc) es us" by blast
  note lg = log_holds_open_file [OF l g, unfolded us(1)]
  have f: "emit_killed resub nfc sha256 n kd p step par ts i w = write_end (take n (t @ [newline])) g"
    using killed.hyps(2,4) g by (simp add: emit_killed_def)
  show ?case
  proof (cases "length t < n")
    case True
    then have "emit_killed resub nfc sha256 n kd p step par ts i w = write_end (t @ [newline]) g" using f by simp
    moreover have "log_holds nfc sha256 (write_end (t @ [newline]) g) (chain_run_id (w_chain w)) (es @ [e]) (ev_hash e)"
      by (rule log_holds_snoc [OF l g e b(2,3,4)])
    ultimately show ?thesis using open_log killed.hyps(7) True by simp
  next
    case False
    with killed.hyps(5) have n: "n < length t" by simp
    let ?p = "take n t" and ?q = "drop n t"
    have kf: "emit_killed resub nfc sha256 n kd p step par ts i w = Content (log_text us @ ?p)"
      using f n by (simp add: us(1))
    show ?thesis
    proof (cases "?p = []")
      case True
      with open_log [OF lg, of h fl ambient red w'] killed.hyps(7) kf False show ?thesis by simp
    next
      case p: False
      then have ne: "es \<noteq> []" using killed.hyps(6) n by auto
      have q: "?q \<noteq> []" using n by simp
      have "event_line nfc e (?p @ ?q)" using e by simp
      note rs = reseed_torn [OF lg us(2) d this p q, of h fl]
      have "w_file w' = Content (log_text us)" "tip_hash (w_chain w') = tip_hash (w_chain w)"
        "chain_run_id (w_chain w') = chain_run_id (w_chain w)"
        using killed.hyps(7) rs ne unfolding kf
        by (auto simp: open_writer_def resolve_run_id_def new_chain_def split: if_splits)
      with lg False show ?thesis by (simp add: writer_log_def)
    qed
  qed
qed

subsection \<open>Properties\<close>


text \<open>A writer on nothing, and the run of one event.\<close>

definition demo_writer :: writer where
  "demo_writer = \<lparr>w_file = Absent, w_chain = new_chain (replicate 16 (CHR ''r'')), w_redaction = None,
     w_mirrors = [\<lambda>_. True], w_post_commit = [], w_durability = [], w_watermark = 0, w_committing = False, w_seen = []\<rparr>"

definition demo_emit :: "writer \<Rightarrow> (trace_error + event) \<times> writer list" where
  "demo_emit w = emit_states (\<lambda>_ _ s. s) (\<lambda>s. s) demo_sha ''run.started'' [] None None 7 (replicate 16 (CHR ''i'')) w"

abbreviation demo_run_of :: "writer \<Rightarrow> event list \<Rightarrow> bool" where
  "demo_run_of \<equiv> trace_run demo_host (\<lambda>_. FNan) (\<lambda>_ _ s. s) (\<lambda>s. s) demo_sha"

lemma demo_start: "demo_run_of demo_writer []"
proof -
  have "open_writer demo_host (\<lambda>_. FNan) (Some (replicate 16 (CHR ''r''))) None None Absent
      = Inr (demo_writer\<lparr>w_mirrors := []\<rparr>)"
    by (simp add: open_writer_def resolve_run_id_def reseed_tip_def demo_writer_def new_chain_def)
  from trace_run.configure [OF trace_run.start [OF this], of demo_writer] show ?thesis by simp
qed

lemma demo_emitted: "fst (demo_emit demo_writer) = Inr (demo_event [])"
  by code_simp

lemma demo_emitted_events: "new_events demo_writer (last (snd (demo_emit demo_writer))) = [demo_event []]"
  by code_simp

lemma demo_one: "demo_run_of (last (snd (demo_emit demo_writer))) [demo_event []]"
  using trace_run.emits [OF demo_start, of "''run.started''" "[]" None None 7 "replicate 16 (CHR ''i'')"
      "fst (demo_emit demo_writer)" "snd (demo_emit demo_writer)"] demo_emitted_events
  by (simp add: redacted_def demo_writer_def) (simp add: demo_emit_def demo_writer_def)


text \<open>
  Write first: at every moment of an emit, each event that an observer has been given can be
  read from the file, and when the call returns an event, the file holds it behind all earlier
  ones.
\<close>

theorem observed_is_durable:
  assumes "trace_run h fl resub nfc sha256 w es" and "normalises nfc" and "distinct (map ev_hash es)"
    and "canon_event nfc ` set (w_seen w) \<subseteq> canon_event nfc ` set es"
    and "emit_states resub nfc sha256 kd p step par ts i w = (r, ws)" and "float_free (PDict (redacted resub w p))"
  shows "(\<forall>w' \<in> set ws. \<exists>fs. read_all_events h fl (w_file w') = Inr fs \<and> canon_event nfc ` set (w_seen w') \<subseteq> set fs) \<and>
    (\<forall>e. r = Inr e \<longrightarrow> read_all_events h fl (w_file (last ws)) = Inr (map (canon_event nfc) (es @ [e])))"
proof -
  have wl: "writer_log nfc sha256 w es" using assms(1-3) by (rule trace_run_log)
  then have l: "log_holds nfc sha256 (w_file w) (chain_run_id (w_chain w)) es (tip_hash (w_chain w))"
    by (simp add: writer_log_def)
  note rd = log_holds_reads [OF l, of h fl]
  show ?thesis
    using assms(5)
  proof (cases rule: emit_cases)
    case (failed err)
    with rd assms(4) show ?thesis by auto
  next
    case (written e t g c)
    note b = build_next_ok [OF written(1)]
    have e: "event_line nfc e t" by (rule build_next_line [OF written(1) assms(6,2) written(2)])
    note rg = log_holds_reads [OF log_holds_open_file [OF l written(3)], of h fl]
    note rn = log_holds_reads [OF log_holds_snoc [OF l written(3) e b(2,3,4)], of h fl]
    have "\<exists>fs. read_all_events h fl (w_file w') = Inr fs \<and> canon_event nfc ` set (w_seen w') \<subseteq> set fs"
      if "w' \<in> set ws" for w'
    proof -
      from written(9) that consider "w_file w' = w_file w \<or> w_file w' = g" "w_seen w' = w_seen w"
        | "w_file w' = write_end (t @ [newline]) g" "set (w_seen w') \<subseteq> insert e (set (w_seen w))" by blast
      then show ?thesis
      proof cases
        case 1
        with rd rg assms(4) show ?thesis by auto
      next
        case 2
        then have "canon_event nfc ` set (w_seen w') \<subseteq> set (map (canon_event nfc) (es @ [e]))"
          using assms(4) by auto
        with rn 2(1) show ?thesis by auto
      qed
    qed
    moreover have "e' = e" if "r = Inr e'" for e' using that written(5) by auto
    ultimately show ?thesis using rn written(7) by auto
  qed
qed

theorem observed_is_durable_witness:
  "read_all_events demo_host (\<lambda>_. FNan) (w_file (last (snd (demo_emit demo_writer))))
    = Inr (map (canon_event (\<lambda>s. s)) ([] @ [demo_event []]))"
proof -
  have "emit_states (\<lambda>_ _ s. s) (\<lambda>s. s) demo_sha ''run.started'' [] None None 7 (replicate 16 (CHR ''i'')) demo_writer
      = (Inr (demo_event []), snd (demo_emit demo_writer))"
    using demo_emitted by (metis demo_emit_def prod.collapse)
  from observed_is_durable [OF demo_start normalises_id _ _ this] show ?thesis
    by (simp add: redacted_def demo_writer_def)
qed

text \<open>
  A kill that leaves a whole line but not its newline costs the log: the writer opened on it
  takes the line's hash as its tip and glues the next event to the line. That event, which the
  call returned, cannot be read and neither can the one before, and one more event makes the
  whole file unreadable.
\<close>

theorem unterminated_line_breaks_log:
  assumes "trace_run h fl resub nfc sha256 w es" and "normalises nfc" and "distinct (map ev_hash es)"
    and "build_next nfc sha256 (w_chain w) kd (redacted resub w p) step par ts i = Inr e"
    and "float_free (PDict (redacted resub w p))" and "dumps_jcs nfc (PDict (to_canonical_dict e)) = Inr t"
    and "open_writer h fl (Some (chain_run_id (w_chain w))) None None
      (emit_killed resub nfc sha256 (length t) kd p step par ts i w) = Inr w1"
    and "emit_states resub nfc sha256 kd1 p1 step1 par1 ts1 i1 w1 = (Inr e1, ws1)" and "float_free (PDict p1)"
    and "emit_states resub nfc sha256 kd2 p2 step2 par2 ts2 i2 (last ws1) = (Inr e2, ws2)"
    and "float_free (PDict (redacted resub (last ws1) p2))"
  shows "read_all_events h fl (w_file (last ws1)) = Inr (map (canon_event nfc) es) \<and>
    read_all_events h fl (w_file (last ws2)) = Inl ChainBroken"
proof -
  have wl: "writer_log nfc sha256 w es" using assms(1-3) by (rule trace_run_log)
  then have l: "log_holds nfc sha256 (w_file w) (chain_run_id (w_chain w)) es (tip_hash (w_chain w))"
    by (simp add: writer_log_def)
  from writer_log_open [OF wl] obtain g where g: "open_append (w_file w) = Inr g" by blast
  from log_holds_open [OF l g] obtain us where us: "g = Content (log_text us)" "list_all2 (event_line nfc) es us" by blast
  have e: "event_line nfc e t" by (rule build_next_line [OF assms(4,5,2,6)])
  have f: "emit_killed resub nfc sha256 (length t) kd p step par ts i w = Content (log_text us @ t)"
    using assms(4,6) g by (simp add: emit_killed_def us(1))
  have "filter (\<lambda>l. py_strip l \<noteq> []) (split_on newline (log_text us @ t)) = us @ [t]"
    using log_lines [OF us(2) event_line_text(2) [OF e]] event_line_text(1,5) [OF e] by simp
  moreover have "log_text us @ t \<noteq> []" "utf8_valid (log_text us @ t)"
    using event_line_text(1,4) [OF e] by (simp_all add: log_text_utf8 [OF us(2)])
  ultimately have "reseed_tip h fl (Content (log_text us @ t)) = Inr (Some (ev_hash e), Content (log_text us @ t))"
    by (simp add: reseed_tip_def parse_line [OF e])
  with assms(7) have w1: "w_file w1 = Content (log_text us @ t)" "w_redaction w1 = None"
    unfolding f by (auto simp: open_writer_def resolve_run_id_def)
  from assms(8) obtain t1 where t1: "event_line nfc e1 t1" "w_file (last ws1) = Content (log_text us @ t @ t1 @ [newline])"
  proof (cases rule: emit_cases)
    case (written e' t1 g c)
    then have "e' = e1" by auto
    with written w1 assms(2,9) build_next_line [of nfc sha256 "w_chain w1" kd1 "redacted resub w1 p1"] that show ?thesis
      by (auto simp: redacted_def)
  qed simp
  from assms(10) obtain t2 where t2: "event_line nfc e2 t2"
    "w_file (last ws2) = Content (log_text us @ t @ t1 @ [newline] @ t2 @ [newline])"
  proof (cases rule: emit_cases)
    case (written e' t2 g c)
    then have "e' = e2" by auto
    with written t1 assms(2,11) build_next_line [of nfc sha256 "w_chain (last ws1)" kd2 "redacted resub (last ws1) p2"] that
    show ?thesis by auto
  qed simp
  have nl: "\<forall>x \<in> set us. newline \<notin> set x" "newline \<notin> set (t @ t1)" "newline \<notin> set t2"
    using lines_no_newline [OF us(2)] event_line_text(2) [OF e] event_line_text(2) [OF t1(1)] event_line_text(2) [OF t2(1)]
    by simp_all
  have c1: "chunks (log_text us @ t @ t1 @ [newline]) = map (\<lambda>t. t @ [newline]) us @ [t @ t1 @ [newline]]"
    using chunks_log_text [of "us @ [t @ t1]" "[]"] nl by auto
  have c2: "chunks (log_text us @ t @ t1 @ [newline] @ t2 @ [newline])
      = map (\<lambda>t. t @ [newline]) us @ [t @ t1 @ [newline], t2 @ [newline]]"
    using chunks_log_text [of "us @ [t @ t1, t2]" "[]"] nl by auto
  show ?thesis
    unfolding t1(2) t2(2) read_all_events_def disk_file.case c1 c2 iter_log [OF us(2)]
    by (simp add: read_glued_lines [OF e t1(1)])
qed

lemma demo_emit_again:
  assumes "w_file w = Content c" and "w_redaction w = None" and "w_mirrors w = []" and "w_post_commit w = []"
    and "chain_run_id (w_chain w) = replicate 16 (CHR ''r'')" and "tip_hash (w_chain w) = replicate 32 (CHR ''h'')"
  shows "\<exists>x ws c. demo_emit w = (Inr x, ws) \<and> w_redaction (last ws) = None \<and> w_mirrors (last ws) = [] \<and>
    w_post_commit (last ws) = [] \<and> w_file (last ws) = Content c \<and>
    w_chain (last ws) = (w_chain w)\<lparr>chain_events := chain_events (w_chain w) @ [x]\<rparr>"
proof -
  let ?i = "replicate 16 (CHR ''i'')" and ?x = "(demo_event [])\<lparr>prev_hash := replicate 32 (CHR ''h'')\<rparr>"
  have "is_ok (hash_preimage (\<lambda>s. s) ''run.started'' [] (replicate 32 (CHR ''h'')) ?i (replicate 16 (CHR ''r'')) None None 7)"
    by code_simp
  moreover have "event_ok ?x" by code_simp
  ultimately have bx: "build_next (\<lambda>s. s) demo_sha (w_chain w) ''run.started'' [] None None 7 ?i = Inr ?x"
    using assms by (auto simp: build_next_def hash_event_def is_ok_iff event_post_init_def demo_event_def demo_sha_def)
  have "is_ok (dumps_jcs (\<lambda>s. s) (PDict (to_canonical_dict ?x)))" by code_simp
  then obtain tx where "dumps_jcs (\<lambda>s. s) (PDict (to_canonical_dict ?x)) = Inr tx" by (auto simp: is_ok_iff)
  with bx build_next_ok(6) [OF bx] assms show ?thesis
    by (simp add: demo_emit_def emit_states_def redacted_def write_line_def Let_def demo_event_def)
qed

theorem unterminated_line_breaks_log_witness:
  "\<exists>f. read_all_events demo_host (\<lambda>_. FNan) f = Inl ChainBroken"
proof -
  let ?id = "replicate 16 (CHR ''i'')" and ?e = "demo_event []"
  let ?kill = "\<lambda>n. emit_killed (\<lambda>_ _ s. s) (\<lambda>s. s) demo_sha n ''run.started'' [] None None 7 ?id demo_writer"
  have b: "build_next (\<lambda>s. s) demo_sha (w_chain demo_writer) ''run.started'' (redacted (\<lambda>_ _ s. s) demo_writer []) None None 7 ?id
      = Inr ?e" by code_simp
  have "is_ok (dumps_jcs (\<lambda>s. s) (PDict (to_canonical_dict ?e)))" by code_simp
  then obtain t where t: "dumps_jcs (\<lambda>s. s) (PDict (to_canonical_dict ?e)) = Inr t" by (auto simp: is_ok_iff)
  have e: "event_line (\<lambda>s. s) ?e t"
    by (rule build_next_line [OF b _ normalises_id t]) (simp add: redacted_def demo_writer_def)
  have k: "?kill (length t) = Content t" using b t by (simp add: emit_killed_def demo_writer_def)
  have "filter (\<lambda>l. py_strip l \<noteq> []) (split_on newline t) = [t]"
    using log_lines [of "\<lambda>s. s" "[]" "[]" t] event_line_text(1,2,5) [OF e] by simp
  then have r: "reseed_tip demo_host (\<lambda>_. FNan) (Content t) = Inr (Some (ev_hash ?e), Content t)"
    using event_line_text(1,4) [OF e] by (simp add: reseed_tip_def parse_line [OF e])
  let ?w = "\<lambda>f. demo_writer\<lparr>w_file := f, w_mirrors := [], w_chain := (w_chain demo_writer)\<lparr>tip_hash := ev_hash ?e\<rparr>\<rparr>"
  have o: "open_writer demo_host (\<lambda>_. FNan) (Some (chain_run_id (w_chain demo_writer))) None None (?kill (length t)) = Inr (?w (Content t))"
    unfolding k by (simp add: open_writer_def resolve_run_id_def r demo_writer_def new_chain_def)
  note step = demo_emit_again
  from step [of "?w (Content t)"] obtain x1 ws1 c1 where s1: "demo_emit (?w (Content t)) = (Inr x1, ws1)"
    "w_redaction (last ws1) = None" "w_mirrors (last ws1) = []" "w_post_commit (last ws1) = []" "w_file (last ws1) = Content c1"
    "w_chain (last ws1) = (w_chain (?w (Content t)))\<lparr>chain_events := chain_events (w_chain (?w (Content t))) @ [x1]\<rparr>"
    by (auto simp: demo_writer_def new_chain_def demo_event_def)
  from step [of "last ws1" c1] s1 obtain x2 ws2 where s2: "demo_emit (last ws1) = (Inr x2, ws2)"
    by (auto simp: demo_writer_def new_chain_def demo_event_def)
  from unterminated_line_breaks_log [OF demo_start normalises_id _ b _ t o s1(1) [unfolded demo_emit_def] _ s2 [unfolded demo_emit_def]]
  show ?thesis using s1(2) by (auto simp: redacted_def demo_writer_def)
qed

end
