(* ===== verification/TraceVerify.thy ===== *)
theory TraceVerify
  imports TraceLog
begin

section \<open>Verifying an event log\<close>

text \<open>
  The model of \<open>src/ract/trace/verify.py\<close>: the walk over a log's lines with their byte offsets,
  \<open>cold_verify\<close>, and \<open>verify_trace\<close>, which starts at a checkpoint kept in a sidecar file after
  a spot check of the log's tail. The human-readable reasons and the telemetry events are left
  out. The sidecar's header check is \<open>ract.sidecar_header\<close>'s: the model takes the JSON object
  it accepted, if any.
\<close>

subsection \<open>Results\<close>

datatype verify_status = VALID | INVALID | TORN_TAIL | TAMPERED

datatype tamper_kind =
    json_decode_error
  | event_shape_invalid
  | run_id_mismatch
  | unknown_event_kind
  | prev_hash_mismatch
  | payload_tampered
  | chain_broken
  | middle_utf8_corruption

text \<open>\<open>tamper_details\<close>: the offset, the event's index and the kind of what was found.\<close>

record verify_result =
  v_status :: verify_status
  verified_head :: "string option"
  verified_offset :: nat
  events_verified :: nat
  events_torn :: nat
  events_tampered :: nat
  tamper_details :: "(nat \<times> nat \<times> tamper_kind) option"

definition valid_result :: "string option \<Rightarrow> nat \<Rightarrow> nat \<Rightarrow> verify_result" where
  "valid_result hd_hex off n = \<lparr>v_status = VALID, verified_head = hd_hex, verified_offset = off,
     events_verified = n, events_torn = 0, events_tampered = 0, tamper_details = None\<rparr>"

definition torn_tail_result :: "string option \<Rightarrow> nat \<Rightarrow> nat \<Rightarrow> verify_result" where
  "torn_tail_result hd_hex off n = \<lparr>v_status = TORN_TAIL, verified_head = hd_hex, verified_offset = off,
     events_verified = n, events_torn = 1, events_tampered = 0, tamper_details = None\<rparr>"

definition tampered_result :: "string option \<Rightarrow> nat \<Rightarrow> nat \<Rightarrow> tamper_kind \<Rightarrow> verify_result" where
  "tampered_result hd_hex off n k = \<lparr>v_status = TAMPERED, verified_head = hd_hex, verified_offset = off,
     events_verified = n, events_torn = 0, events_tampered = 1, tamper_details = Some (off, n, k)\<rparr>"

definition invalid_result :: verify_result where
  "invalid_result = \<lparr>v_status = INVALID, verified_head = None, verified_offset = 0,
     events_verified = 0, events_torn = 0, events_tampered = 0, tamper_details = None\<rparr>"

definition is_valid_result :: "verify_result \<Rightarrow> bool" where
  "is_valid_result r \<longleftrightarrow> v_status r = VALID \<or> v_status r = TORN_TAIL"

definition is_healthy :: "verify_result \<Rightarrow> bool" where
  "is_healthy r \<longleftrightarrow> v_status r = VALID"

text \<open>The checks of \<open>__post_init__\<close>.\<close>

definition verify_result_ok :: "verify_result \<Rightarrow> bool" where
  "verify_result_ok r \<longleftrightarrow> events_torn r \<le> 1 \<and> (v_status r = TAMPERED \<longleftrightarrow> tamper_details r \<noteq> None)"

subsection \<open>The walk\<close>

text \<open>Where strict decoding stops: the \<open>start\<close> of the \<open>UnicodeDecodeError\<close>, in its line.\<close>

function utf8_stop :: "string \<Rightarrow> nat" where
  "utf8_stop [] = 0"
| "utf8_stop (a # s) =
    (if code a < 128 then 1 + utf8_stop s
     else case follow a s of (n, whole) \<Rightarrow> if whole then 1 + n + utf8_stop (drop n s) else 0)"
  by pat_completeness auto
termination
  by (relation "measure length") auto

text \<open>What can leave the walk as an exception.\<close>

datatype walk_stop = StopUnicode nat | StopError trace_error

text \<open>One line of \<open>_iter_lines_with_offsets\<close>: its text, and whether it is torn.\<close>

definition verify_line :: "bool \<Rightarrow> string \<Rightarrow> walk_stop + string \<times> bool" where
  "verify_line is_last ch =
    (let raw = trim_newline ch in
     if utf8_valid raw then Inr (raw, False)
     else if is_last \<and> \<not> endswith ch [newline] then Inr (decode_replace raw, True)
     else Inl (StopUnicode (utf8_stop raw)))"

text \<open>An event against the chain: the new chain, or what is wrong with it.\<close>

definition check_event ::
    "(string \<Rightarrow> string) \<Rightarrow> (string \<Rightarrow> string) \<Rightarrow> nat \<Rightarrow> event_chain \<Rightarrow> event \<Rightarrow> trace_error + tamper_kind + event_chain" where
  "check_event nfc sha256 n c e =
    (let c1 = (if n = 0 \<and> tip_hash c = genesis_hash then new_chain (ev_run_id e) else c) in
     if ev_run_id e \<noteq> chain_run_id c1 then Inr (Inl run_id_mismatch)
     else if ev_kind e \<notin> set legal_event_kinds then Inr (Inl unknown_event_kind)
     else if prev_hash e \<noteq> tip_hash c1 then Inr (Inl prev_hash_mismatch)
     else case rebuild_hash nfc sha256 e of
       Inl err \<Rightarrow> Inl err
     | Inr x \<Rightarrow>
         if x \<noteq> ev_hash e then Inr (Inl payload_tampered)
         else (case chain_append_event nfc sha256 c1 e of
             Inl ChainBroken \<Rightarrow> Inr (Inl chain_broken)
           | Inl err \<Rightarrow> Inl err
           | Inr c2 \<Rightarrow> Inr (Inr c2)))"

fun walk_verify ::
    "host \<Rightarrow> (string \<Rightarrow> pyfloat) \<Rightarrow> (string \<Rightarrow> string) \<Rightarrow> (string \<Rightarrow> string) \<Rightarrow> event_chain \<Rightarrow> string option
      \<Rightarrow> nat \<Rightarrow> nat \<Rightarrow> string list \<Rightarrow> walk_stop + verify_result" where
  "walk_verify h fl nfc sha256 c tip off n [] = Inr (valid_result tip off n)"
| "walk_verify h fl nfc sha256 c tip off n (ch # rest) =
    rbind (verify_line (rest = []) ch) (\<lambda>(txt, torn).
      let stripped = py_strip txt; end_off = off + length ch in
      if torn then Inr (torn_tail_result tip off n)
      else if stripped = [] then walk_verify h fl nfc sha256 c tip end_off n rest
      else case json_loads fl stripped of
        None \<Rightarrow>
          if rest = [] then Inr (torn_tail_result tip off n) else Inr (tampered_result tip off n json_decode_error)
      | Some raw \<Rightarrow>
          (case from_canonical_dict h raw of
             Inl InvalidEvent \<Rightarrow> Inr (tampered_result tip off n event_shape_invalid)
           | Inl err \<Rightarrow> Inl (StopError err)
           | Inr e \<Rightarrow>
               (case check_event nfc sha256 n c e of
                  Inl err \<Rightarrow> Inl (StopError err)
                | Inr (Inl k) \<Rightarrow> Inr (tampered_result tip off n k)
                | Inr (Inr c2) \<Rightarrow>
                    walk_verify h fl nfc sha256 c2 (Some (hex (ev_hash e))) end_off (n + 1) rest)))"

definition start_tip :: "event_chain \<Rightarrow> nat \<Rightarrow> string option" where
  "start_tip c n =
    (if n \<noteq> 0 then Some (hex (tip_hash c))
     else if tip_hash c \<noteq> genesis_hash then Some (hex (tip_hash c)) else None)"

text \<open>\<open>_walk_verify\<close> from an offset; reading starts in the middle of a line if it points there.\<close>

definition walk_from ::
    "host \<Rightarrow> (string \<Rightarrow> pyfloat) \<Rightarrow> (string \<Rightarrow> string) \<Rightarrow> (string \<Rightarrow> string) \<Rightarrow> event_chain \<Rightarrow> nat \<Rightarrow> nat \<Rightarrow> string
      \<Rightarrow> walk_stop + verify_result" where
  "walk_from h fl nfc sha256 c off n content =
    walk_verify h fl nfc sha256 c (start_tip c n) off n (chunks (drop off content))"

definition zero_chain :: event_chain where
  "zero_chain = new_chain (zero_bytes 16)"

text \<open>The bytes \<open>_iter_lines_with_offsets\<close> reads: an empty file is not even opened.\<close>

definition file_bytes :: "disk_file \<Rightarrow> string option" where
  "file_bytes f = (case f of Content c \<Rightarrow> Some c | Unreadable c \<Rightarrow> if c = [] then Some [] else None | _ \<Rightarrow> None)"

definition cold_verify ::
    "host \<Rightarrow> (string \<Rightarrow> pyfloat) \<Rightarrow> (string \<Rightarrow> string) \<Rightarrow> (string \<Rightarrow> string) \<Rightarrow> disk_file \<Rightarrow> trace_error + verify_result" where
  "cold_verify h fl nfc sha256 f =
    (case file_bytes f of
       Some content \<Rightarrow>
         (case walk_from h fl nfc sha256 zero_chain 0 0 content of
            Inr r \<Rightarrow> Inr r
          | Inl (StopUnicode k) \<Rightarrow> Inr (tampered_result None k 0 middle_utf8_corruption)
          | Inl (StopError err) \<Rightarrow> Inl err)
     | None \<Rightarrow> Inr (case f of Unreadable _ \<Rightarrow> invalid_result | _ \<Rightarrow> valid_result None 0 0))"

subsection \<open>The checkpoint\<close>

record checkpoint_body =
  last_verified_head :: "string option"
  last_verified_offset :: nat
  last_verified_events :: nat

definition nat_field :: "pyval \<Rightarrow> nat option" where
  "nat_field v = (case v of PInt i \<Rightarrow> if 0 \<le> i then Some (nat i) else None | _ \<Rightarrow> None)"

definition hex_char :: "char \<Rightarrow> bool" where
  "hex_char c \<longleftrightarrow> hex_val c \<noteq> None"

text \<open>\<open>_read_verify_sidecar\<close>, on the JSON object whose header was accepted.\<close>

definition read_verify_sidecar :: "payload option \<Rightarrow> checkpoint_body option" where
  "read_verify_sidecar side =
    (case side of
       None \<Rightarrow> None
     | Some d \<Rightarrow>
         if \<exists>k \<in> {''last_verified_head'', ''last_verified_offset'', ''last_verified_events'', ''last_verified_at''}.
              map_of d (KStr k) = None
         then None
         else
           (case (nat_field (get_value d ''last_verified_offset''), nat_field (get_value d ''last_verified_events'')) of
              (Some off, Some n) \<Rightarrow>
                (case get_value d ''last_verified_head'' of
                   PNone \<Rightarrow> Some \<lparr>last_verified_head = None, last_verified_offset = off, last_verified_events = n\<rparr>
                 | PStr s \<Rightarrow>
                     if length s = 64 \<and> list_all hex_char s
                     then Some \<lparr>last_verified_head = Some s, last_verified_offset = off, last_verified_events = n\<rparr>
                     else None
                 | _ \<Rightarrow> None)
            | _ \<Rightarrow> None))"

text \<open>\<open>_read_events_in_range\<close> up to the end of the file: the events, and whether all was read.\<close>

fun events_in_range :: "host \<Rightarrow> (string \<Rightarrow> pyfloat) \<Rightarrow> nat \<Rightarrow> string list \<Rightarrow> trace_error + (nat \<times> event) list \<times> bool" where
  "events_in_range h fl off [] = Inr ([], True)"
| "events_in_range h fl off (ch # rest) =
    (case verify_line (rest = []) ch of
       Inl _ \<Rightarrow> Inr ([], False)
     | Inr (txt, torn) \<Rightarrow>
         let end_off = off + length ch; stripped = py_strip txt in
         if torn then Inr ([], True)
         else if stripped = [] then events_in_range h fl end_off rest
         else case parse_event_line h fl stripped of
           Inl InvalidEvent \<Rightarrow> Inr ([], False)
         | Inl err \<Rightarrow> Inl err
         | Inr e \<Rightarrow> rbind (events_in_range h fl end_off rest) (\<lambda>(es, ok). Inr ((end_off, e) # es, ok)))"

text \<open>
  \<open>_find_backwards_window_start\<close>: the window doubles until it holds enough newlines, none at
  all included.
\<close>

definition count_newlines :: "string \<Rightarrow> nat" where
  "count_newlines s = length (filter (\<lambda>c. c = newline) s)"

function window_start :: "string \<Rightarrow> nat \<Rightarrow> nat \<Rightarrow> nat" where
  "window_start content target window =
    (if length content \<le> window then 0
     else
       let start = length content - window; blob = drop start content;
           idx = length (takeWhile (\<lambda>c. c \<noteq> newline) blob)
       in if window = 0 then start
          else if idx = length blob then window_start content target (min (window * 2) (length content))
          else if target \<le> count_newlines (drop (idx + 1) blob) then start + idx + 1
          else window_start content target (min (window * 2) (length content)))"
  by pat_completeness auto
termination
  by (relation "measure (\<lambda>(content, target, window). length content - window)") auto

declare window_start.simps [simp del]

definition WARM_SPOT_CHECK_EVENTS :: nat where
  "WARM_SPOT_CHECK_EVENTS = 64"

definition last_n :: "nat \<Rightarrow> 'a list \<Rightarrow> 'a list" where
  "last_n n xs = drop (length xs - n) xs"

text \<open>Check B: every event rehashes, and links to the one before.\<close>

fun window_chained ::
    "(string \<Rightarrow> string) \<Rightarrow> (string \<Rightarrow> string) \<Rightarrow> string option \<Rightarrow> (nat \<times> event) list \<Rightarrow> trace_error + bool" where
  "window_chained nfc sha256 prior [] = Inr True"
| "window_chained nfc sha256 prior ((off, e) # es) =
    rbind (rebuild_hash nfc sha256 e) (\<lambda>x.
      if x \<noteq> ev_hash e then Inr False
      else if (case prior of None \<Rightarrow> False | Some p \<Rightarrow> prev_hash e \<noteq> p) then Inr False
      else window_chained nfc sha256 (Some (ev_hash e)) es)"

text \<open>Check A: the event that ends at the checkpoint, if it is in the window, is its head.\<close>

definition anchor_ok :: "checkpoint_body \<Rightarrow> (nat \<times> event) list \<Rightarrow> bool" where
  "anchor_ok b es =
    (case last_verified_head b of
       None \<Rightarrow> True
     | Some hd_hex \<Rightarrow>
         if last_verified_offset b = 0 then True
         else (case find (\<lambda>(off, _). off = last_verified_offset b) es of
             None \<Rightarrow> True
           | Some (_, e) \<Rightarrow> hex (ev_hash e) = hd_hex))"

definition spot_check_tail ::
    "host \<Rightarrow> (string \<Rightarrow> pyfloat) \<Rightarrow> (string \<Rightarrow> string) \<Rightarrow> (string \<Rightarrow> string) \<Rightarrow> checkpoint_body \<Rightarrow> string
      \<Rightarrow> trace_error + bool" where
  "spot_check_tail h fl nfc sha256 b content =
    (if content = [] then Inr True
     else
       let start = window_start content (WARM_SPOT_CHECK_EVENTS + 1) (64 * 1024) in
       rbind (events_in_range h fl start (chunks (drop start content))) (\<lambda>(es, complete).
         if \<not> complete then Inr False
         else if es = [] then Inr True
         else
           let ws = last_n WARM_SPOT_CHECK_EVENTS es in
           rbind (window_chained nfc sha256 None ws) (\<lambda>chained. Inr (chained \<and> anchor_ok b ws))))"

text \<open>
  \<open>verify_trace\<close>: the result, and the checkpoint to be written, if any. The \<open>Inl\<close> of the first
  sum is the \<open>ValueError\<close> for a run id of another length than 16 bytes.
\<close>

definition checkpoint_of :: "bool \<Rightarrow> verify_result \<Rightarrow> checkpoint_body option" where
  "checkpoint_of persist r =
    (if persist \<and> is_valid_result r
     then Some \<lparr>last_verified_head = verified_head r, last_verified_offset = verified_offset r,
            last_verified_events = events_verified r\<rparr>
     else None)"

definition warm_verify ::
    "host \<Rightarrow> (string \<Rightarrow> pyfloat) \<Rightarrow> (string \<Rightarrow> string) \<Rightarrow> (string \<Rightarrow> string) \<Rightarrow> string \<Rightarrow> checkpoint_body \<Rightarrow> string
      \<Rightarrow> trace_error + verify_result" where
  "warm_verify h fl nfc sha256 run b content =
    (let c = (new_chain run)\<lparr>tip_hash :=
          (case last_verified_head b of
             None \<Rightarrow> genesis_hash
           | Some s \<Rightarrow> (case fromhex s of None \<Rightarrow> genesis_hash | Some x \<Rightarrow> x))\<rparr>;
         off = last_verified_offset b; n = last_verified_events b
     in case walk_from h fl nfc sha256 c off n content of
          Inr r \<Rightarrow> Inr r
        | Inl (StopUnicode _) \<Rightarrow> Inr (tampered_result None off n middle_utf8_corruption)
        | Inl (StopError err) \<Rightarrow> Inl err)"

definition verify_trace ::
    "host \<Rightarrow> (string \<Rightarrow> pyfloat) \<Rightarrow> (string \<Rightarrow> string) \<Rightarrow> (string \<Rightarrow> string) \<Rightarrow> string option \<Rightarrow> bool \<Rightarrow> bool
      \<Rightarrow> payload option \<Rightarrow> disk_file \<Rightarrow> trace_error + verify_result \<times> checkpoint_body option" where
  "verify_trace h fl nfc sha256 run_hex force_cold persist side f =
    (let cold = cold_verify h fl nfc sha256 f in
     if f = Absent \<or> f = Directory then Inr (valid_result None 0 0, None)
     else case run_hex of
       None \<Rightarrow> rbind cold (\<lambda>r. Inr (r, None))
     | Some hx \<Rightarrow>
         if force_cold then rbind cold (\<lambda>r. Inr (r, checkpoint_of persist r))
         else (case (read_verify_sidecar side, file_bytes f) of
             (Some b, None) \<Rightarrow> Inl (TraceOs PermissionDenied)
           | (Some b, Some content) \<Rightarrow>
               rbind (spot_check_tail h fl nfc sha256 b content) (\<lambda>spot_ok.
                 if \<not> spot_ok then rbind cold (\<lambda>r. Inr (r, None))
                 else case fromhex hx of
                   None \<Rightarrow> rbind cold (\<lambda>r. Inr (r, None))
                 | Some run \<Rightarrow>
                     if length run \<noteq> 16 then Inl NoRunId
                     else if length content < last_verified_offset b then rbind cold (\<lambda>r. Inr (r, None))
                     else rbind (warm_verify h fl nfc sha256 run b content) (\<lambda>r. Inr (r, checkpoint_of persist r)))
           | (None, _) \<Rightarrow> rbind cold (\<lambda>r. Inr (r, checkpoint_of persist r))))"

subsection \<open>The two readers\<close>

lemma white_carriage: "w \<in> set white \<Longrightarrow> last w = carriage \<Longrightarrow> w = [carriage]"
  by (auto simp: white_def carriage_def)

lemma carriage_white: "[carriage] \<in> set white"
  by (simp add: white_def carriage_def)

lemma strip_right_carriage: "strip_right (r @ [carriage]) = strip_right r"
proof -
  have "find (endswith (r @ [carriage])) white = Some [carriage]"
  proof (cases "find (endswith (r @ [carriage])) white")
    case None
    then have "\<not> endswith (r @ [carriage]) [carriage]" using carriage_white by (auto simp: find_None_iff)
    then show ?thesis by simp
  next
    case (Some w)
    then have w: "w \<in> set white" "endswith (r @ [carriage]) w" by (auto dest: find_SomeD)
    with endswith_last [OF w(2) white_nonempty [OF w(1)]] white_carriage Some show ?thesis by auto
  qed
  then show ?thesis by (subst strip_right.simps) simp
qed

lemma utf8_valid_carriage: "utf8_valid [carriage]"
  by (rule utf8_valid_ascii) (simp add: isascii_def carriage_def)

text \<open>A text followed by an ASCII character is valid UTF-8 only if it is.\<close>

lemma ascii_not_cont: "code x < 128 \<Longrightarrow> \<not> cont x"
  by (simp add: cont_def)

lemma utf8_valid_snoc: "code x < 128 \<Longrightarrow> utf8_valid (r @ [x]) \<Longrightarrow> utf8_valid r"
proof (induction "length r" arbitrary: r rule: less_induct)
  case less
  note v = less.prems(2) and nc = ascii_not_cont [OF less.prems(1)]
  have IH: "utf8_valid (t @ [x]) \<Longrightarrow> length t < length r \<Longrightarrow> utf8_valid t" for t
    using less.hyps less.prems(1) by blast
  show ?case
  proof (cases r)
    case (Cons a s)
    note a = Cons
    consider (one) "code a < 128" | (two) "194 \<le> code a" "code a < 224"
      | (three) "224 \<le> code a" "code a < 240" | (four) "240 \<le> code a" "code a < 245"
      using v unfolding a by (simp split: if_splits)
    then show ?thesis
    proof cases
      case one
      then show ?thesis using v IH [of s] unfolding a by simp
    next
      case two
      then show ?thesis using v IH [of "tl s"] nc unfolding a by (cases s) simp_all
    next
      case three
      then show ?thesis using v IH [of "tl (tl s)"] nc unfolding a
        by (cases s; cases "tl s") simp_all
    next
      case four
      then show ?thesis using v IH [of "tl (tl (tl s))"] nc unfolding a
        by (cases s; cases "tl s"; cases "tl (tl s)") simp_all
    qed
  qed simp
qed

lemma trim_eol_same:
  assumes "utf8_valid (trim_newline ch)"
  shows "utf8_valid (trim_eol ch)" and "py_strip (trim_eol ch) = py_strip (trim_newline ch)"
proof -
  let ?r = "trim_newline ch"
  have "utf8_valid (trim_eol ch) \<and> py_strip (trim_eol ch) = py_strip ?r"
  proof (cases "endswith ?r [carriage]")
    case True
    then obtain u where u: "?r = u @ [carriage]" using endswith_split by blast
    then have "trim_eol ch = u" by (simp add: trim_eol_def)
    with u assms utf8_valid_snoc [of carriage u] show ?thesis
      by (simp add: py_strip_def strip_right_carriage) (simp add: carriage_def)
  next
    case False
    then show ?thesis using assms by (simp add: trim_eol_def)
  qed
  then show "utf8_valid (trim_eol ch)" "py_strip (trim_eol ch) = py_strip ?r" by blast+
qed

text \<open>A line the walk accepts is read as the same event, at the end of the file or not.\<close>

lemma verify_line_reads:
  assumes "verify_line l ch = Inr (tx, False)"
  shows "py_strip tx = [] \<Longrightarrow> read_line_event h fl tail ch = Inr SkipLine"
    and "py_strip tx \<noteq> [] \<Longrightarrow> json_loads fl (py_strip tx) = Some raw \<Longrightarrow> from_canonical_dict h raw = Inr e \<Longrightarrow>
      read_line_event h fl tail ch = Inr (LineEvent e)"
proof -
  from assms have "utf8_valid (trim_newline ch)" "tx = trim_newline ch"
    by (auto simp: verify_line_def Let_def split: if_splits)
  with trim_eol_same [of ch] have t: "utf8_valid (trim_eol ch)" "py_strip (trim_eol ch) = py_strip tx" by simp_all
  then show "py_strip tx = [] \<Longrightarrow> read_line_event h fl tail ch = Inr SkipLine"
    and "py_strip tx \<noteq> [] \<Longrightarrow> json_loads fl (py_strip tx) = Some raw \<Longrightarrow> from_canonical_dict h raw = Inr e \<Longrightarrow>
      read_line_event h fl tail ch = Inr (LineEvent e)"
    by (simp_all add: read_line_event_def decode_line_def)
qed

text \<open>The chain the first event of a walk is checked against.\<close>

definition bind_run :: "nat \<Rightarrow> event_chain \<Rightarrow> event \<Rightarrow> event_chain" where
  "bind_run n c e = (if n = 0 \<and> tip_hash c = genesis_hash then new_chain (ev_run_id e) else c)"

lemma check_event_ok:
  "check_event nfc sha256 n c e = Inr (Inr c2) \<longleftrightarrow>
    chain_append_event nfc sha256 (bind_run n c e) e = Inr c2 \<and> ev_run_id e = chain_run_id (bind_run n c e) \<and>
    ev_kind e \<in> set legal_event_kinds"
  unfolding check_event_def bind_run_def [symmetric] Let_def
  by (cases "rebuild_hash nfc sha256 e")
    (auto simp: chain_append_event_def split: sum.splits trace_error.splits if_splits)

text \<open>One line of a walk that ends \<open>VALID\<close>.\<close>

lemma walk_Cons_valid:
  assumes "walk_verify h fl nfc sha256 c tip off n (ch # rest) = Inr r" and "v_status r = VALID"
  obtains
    (blank) tx where "verify_line (rest = []) ch = Inr (tx, False)" "py_strip tx = []"
      "walk_verify h fl nfc sha256 c tip (off + length ch) n rest = Inr r"
  | (event) tx raw e c2 where "verify_line (rest = []) ch = Inr (tx, False)" "py_strip tx \<noteq> []"
      "json_loads fl (py_strip tx) = Some raw" "from_canonical_dict h raw = Inr e"
      "check_event nfc sha256 n c e = Inr (Inr c2)"
      "walk_verify h fl nfc sha256 c2 (Some (hex (ev_hash e))) (off + length ch) (n + 1) rest = Inr r"
proof (cases "verify_line (rest = []) ch")
  case (Inr tt)
  obtain tx torn where tt: "tt = (tx, torn)" by fastforce
  show ?thesis
    using assms that Inr unfolding tt
    by (auto simp: Let_def torn_tail_result_def tampered_result_def split: if_splits option.splits sum.splits trace_error.splits)
qed (use assms in simp)

lemma concat_chunks: "concat (chunks c) = c"
proof -
  have "concat (map (\<lambda>l. l @ [newline]) (butlast ps)) @ last ps = join [newline] ps" if "ps \<noteq> []" for ps
    using that by (induction ps) (auto simp: join_Cons)
  from this [of "split_on newline c"] show ?thesis
    by (auto simp: chunks_def Let_def join_split_on)
qed

lemma walk_valid:
  assumes "walk_verify h fl nfc sha256 c tip off n chs = Inr r" and "v_status r = VALID"
  shows "\<exists>es. iter_chunks h fl chs = Inr es \<and> r = valid_result
      (if es = [] then tip else Some (hex (ev_hash (last es)))) (off + length (concat chs)) (n + length es) \<and>
    (es \<noteq> [] \<longrightarrow> is_ok (append_all nfc sha256 (bind_run n c (hd es)) es) \<and>
      (\<forall>e \<in> set es. ev_run_id e = chain_run_id (bind_run n c (hd es))))"
  using assms
proof (induction chs arbitrary: c tip off n)
  case Nil
  then show ?case by simp
next
  case (Cons ch chs)
  from Cons.prems show ?case
  proof (cases rule: walk_Cons_valid)
    case (blank tx)
    with Cons.IH [OF blank(3) Cons.prems(2)] verify_line_reads(1) [OF blank(1,2), of h fl]
    show ?thesis by (auto simp: add.assoc)
  next
    case (event tx raw e c2)
    obtain c1 where c1: "c1 = bind_run n c e" "chain_append_event nfc sha256 c1 e = Inr c2"
      "ev_run_id e = chain_run_id c1"
      using event(5) unfolding check_event_ok by blast
    have c2: "chain_run_id c2 = chain_run_id c1" using c1(2) by (auto simp: chain_append_iff)
    from Cons.IH [OF event(6) Cons.prems(2)] obtain es where es: "iter_chunks h fl chs = Inr es"
      and r: "r = valid_result (if es = [] then Some (hex (ev_hash e)) else Some (hex (ev_hash (last es))))
        (off + length ch + length (concat chs)) (n + 1 + length es)"
      and ch: "es \<noteq> [] \<longrightarrow> is_ok (append_all nfc sha256 c2 es) \<and> (\<forall>e \<in> set es. ev_run_id e = chain_run_id c2)"
      unfolding bind_run_def by (auto simp del: hex_inject)
    have "iter_chunks h fl (ch # chs) = Inr (e # es)"
      using verify_line_reads(2) [OF event(1-4)] es by simp
    moreover have "is_ok (append_all nfc sha256 c1 (e # es))"
      using c1(2) ch by (cases "es = []") (simp_all add: append_all_def)
    moreover have "\<forall>x \<in> set (e # es). ev_run_id x = chain_run_id c1" using c1(3) c2 ch by (cases "es = []") simp_all
    moreover have "r = valid_result (Some (hex (ev_hash (last (e # es))))) (off + length (concat (ch # chs))) (n + length (e # es))"
      using r by (simp add: add.assoc)
    ultimately show ?thesis unfolding c1(1) by (intro exI [of _ "e # es"]) simp
  qed
qed

lemma start_genesis [simp]: "start_tip zero_chain 0 = None"
  by (simp add: start_tip_def zero_chain_def new_chain_def)

text \<open>A full verification is the walk over all lines.\<close>

lemma cold_walk:
  assumes "cold_verify h fl nfc sha256 (Content content) = Inr r" and "v_status r = VALID"
  shows "walk_verify h fl nfc sha256 zero_chain None 0 0 (chunks content) = Inr r"
  using assms
  by (auto simp: cold_verify_def file_bytes_def walk_from_def tampered_result_def split: sum.splits walk_stop.splits)

lemma walk_cold:
  "walk_verify h fl nfc sha256 zero_chain None 0 0 (chunks content) = Inr r \<Longrightarrow>
    cold_verify h fl nfc sha256 (Content content) = Inr r"
  by (simp add: cold_verify_def file_bytes_def walk_from_def)

text \<open>What a file whose verification succeeds holds.\<close>

lemma cold_valid:
  assumes "cold_verify h fl nfc sha256 (Content content) = Inr r" and "v_status r = VALID"
  obtains es c where "read_all_events h fl (Content content) = Inr es"
    and "append_all nfc sha256 (new_chain (chain_run_id c)) es = Inr c"
    and "r = valid_result (if es = [] then None else Some (hex (tip_hash c))) (length content) (length es)"
    and "\<forall>e \<in> set es. ev_run_id e = chain_run_id c"
proof -
  from walk_valid [OF cold_walk [OF assms] assms(2)] obtain es where es: "iter_chunks h fl (chunks content) = Inr es"
    and r: "r = valid_result (if es = [] then None else Some (hex (ev_hash (last es)))) (length content) (length es)"
    and ch: "es \<noteq> [] \<longrightarrow> is_ok (append_all nfc sha256 (bind_run 0 zero_chain (hd es)) es) \<and>
      (\<forall>e \<in> set es. ev_run_id e = chain_run_id (bind_run 0 zero_chain (hd es)))"
    by (auto simp: concat_chunks)
  have start: "bind_run 0 zero_chain e = new_chain (ev_run_id e)" for e
    by (simp add: bind_run_def zero_chain_def new_chain_def)
  obtain i where i: "i = (if es = [] then [] else ev_run_id (hd es))" by blast
  have bi: "bind_run 0 zero_chain (hd es) = new_chain i" if "es \<noteq> []" using that by (simp add: i start)
  have run: "\<forall>e \<in> set es. ev_run_id e = i"
  proof (cases "es = []")
    case False
    with ch have "\<forall>e \<in> set es. ev_run_id e = chain_run_id (new_chain i)" unfolding bi [OF False] by blast
    then show ?thesis by (simp add: new_chain_def)
  qed simp
  have "is_ok (append_all nfc sha256 (new_chain i) es)"
  proof (cases "es = []")
    case False
    with ch show ?thesis unfolding bi [OF False] by blast
  qed (simp add: append_all_def)
  then obtain c where c: "append_all nfc sha256 (new_chain i) es = Inr c" unfolding is_ok_iff by blast
  note g = append_all_grows [OF c]
  show thesis
    by (rule that [of es c]) (use es c g r run in \<open>simp_all add: read_all_events_def new_chain_def\<close>)
qed

text \<open>The walk over the lines of a log that is a chain.\<close>

lemma verify_event_line:
  assumes "event_line nfc e t"
  shows "verify_line l (t @ [newline]) = Inr (t, False)"
proof -
  note a = event_line_text [OF assms]
  have "\<not> endswith (t @ [newline]) [carriage, newline]"
    using a(1,3) by (auto simp: endswith_two dest: last_in_set)
  then show ?thesis using a(4) by (simp add: verify_line_def trim_newline_def)
qed

lemma walk_event_line:
  assumes "event_line nfc e t"
  shows "walk_verify h fl nfc sha256 c tip off n ((t @ [newline]) # rest) =
    (case check_event nfc sha256 n c (canon_event nfc e) of
       Inl err \<Rightarrow> Inl (StopError err)
     | Inr (Inl k) \<Rightarrow> Inr (tampered_result tip off n k)
     | Inr (Inr c2) \<Rightarrow>
         walk_verify h fl nfc sha256 c2 (Some (hex (ev_hash e))) (off + length t + 1) (n + 1) rest)"
  using event_line_text(1,5) [OF assms] event_line_loads [OF assms, of fl] event_line_reads [OF assms, of h]
  by (simp add: verify_event_line [OF assms] del: canon_event_simps(7))
    (simp split: sum.split)

lemma walk_log:
  assumes "list_all2 (event_line nfc) es ts"
    and "es \<noteq> [] \<Longrightarrow> is_ok (append_all nfc sha256 (bind_run n c (hd es)) (map (canon_event nfc) es)) \<and>
      (\<forall>e \<in> set es. ev_run_id e = chain_run_id (bind_run n c (hd es)))"
  shows "walk_verify h fl nfc sha256 c tip off n (map (\<lambda>t. t @ [newline]) ts)
    = Inr (valid_result (if es = [] then tip else Some (hex (ev_hash (last es)))) (off + length (log_text ts)) (n + length es))"
  using assms
proof (induction es ts arbitrary: c tip off n rule: list_all2_induct)
  case Nil
  then show ?case by simp
next
  case (Cons e es t ts)
  let ?c1 = "bind_run n c e" and ?f = "canon_event nfc e"
  have ok: "event_ok e" using Cons.hyps(1) by (simp add: event_line_def)
  from Cons.prems obtain x where x: "chain_append_event nfc sha256 ?c1 ?f = Inr x"
    and rest: "is_ok (append_all nfc sha256 x (map (canon_event nfc) es))"
    and run: "\<forall>f \<in> set (e # es). ev_run_id f = chain_run_id ?c1"
    by (auto simp: append_all_def result_simps is_ok_iff)
  have "bind_run n c ?f = ?c1" by (simp add: bind_run_def)
  then have chk: "check_event nfc sha256 n c ?f = Inr (Inr x)"
    using x run ok by (simp add: check_event_ok event_ok_def)
  have rid: "chain_run_id x = chain_run_id ?c1" using x by (simp add: chain_append_iff)
  have "walk_verify h fl nfc sha256 x (Some (hex (ev_hash e))) (off + length t + 1) (n + 1)
      (map (\<lambda>t. t @ [newline]) ts) = Inr (valid_result (if es = [] then Some (hex (ev_hash e)) else
        Some (hex (ev_hash (last es)))) (off + length t + 1 + length (log_text ts)) (n + 1 + length es))"
    by (rule Cons.IH) (use rest run rid in \<open>simp add: bind_run_def\<close>)
  then show ?case unfolding list.map walk_event_line [OF Cons.hyps(1)] chk by (simp add: add.assoc)
qed

text \<open>What is read has passed the checks of an event.\<close>

lemma from_canonical_ok: "from_canonical_dict h raw = Inr e \<Longrightarrow> event_ok e"
  unfolding from_canonical_dict_def rbind_Inr_iff event_post_init_def
  by (elim exE conjE) (clarsimp split: option.splits if_splits)

lemma read_line_ok: "read_line_event h fl tail ch = Inr (LineEvent e) \<Longrightarrow> event_ok e"
  unfolding read_line_event_def Let_def
  by (simp split: option.splits if_splits sum.splits trace_error.splits add: from_canonical_ok)

lemma iter_chunks_ok: "iter_chunks h fl chs = Inr es \<Longrightarrow> \<forall>e \<in> set es. event_ok e"
proof (induction chs arbitrary: es)
  case (Cons ch chs)
  then obtain x where x: "read_line_event h fl (chs = []) ch = Inr x"
    and rest: "(case x of SkipLine \<Rightarrow> iter_chunks h fl chs | StopReading \<Rightarrow> Inr []
      | LineEvent e \<Rightarrow> rbind (iter_chunks h fl chs) (\<lambda>es. Inr (e # es))) = Inr es"
    by (auto simp: rbind_Inr_iff)
  show ?case
  proof (cases x)
    case SkipLine
    with rest Cons.IH show ?thesis by simp
  next
    case StopReading
    with rest show ?thesis by simp
  next
    case (LineEvent e)
    with rest obtain fs where "iter_chunks h fl chs = Inr fs" "es = e # fs" by (auto simp: rbind_Inr_iff)
    with Cons.IH read_line_ok [of h fl "chs = []" ch e] x LineEvent show ?thesis by simp
  qed
qed simp

lemma cold_log:
  assumes "log_holds nfc sha256 f r es tip"
  shows "cold_verify h fl nfc sha256 f = Inr (valid_result (if es = [] then None else Some (hex tip))
    (case file_bytes f of None \<Rightarrow> 0 | Some c \<Rightarrow> length c) (length es))"
proof (cases "f = Absent")
  case True
  with assms have "es = []" by (simp add: log_holds_def)
  with True show ?thesis by (simp add: cold_verify_def file_bytes_def)
next
  case False
  with assms obtain ts where f: "f = Content (log_text ts)" and ts: "list_all2 (event_line nfc) es ts"
    by (auto simp: log_holds_def)
  from assms obtain c where c: "append_all nfc sha256 (new_chain r) es = Inr c" "tip_hash c = tip"
    and n: "normalises nfc" and run: "\<forall>e \<in> set es. ev_run_id e = r" by (auto simp: log_holds_def)
  have "is_ok (append_all nfc sha256 (new_chain r) (map (canon_event nfc) es))"
    using append_all_canon [OF c(1) n refl refl] by simp
  moreover have "bind_run 0 zero_chain (hd es) = new_chain r" if "es \<noteq> []"
    using that run by (cases es) (simp_all add: bind_run_def zero_chain_def new_chain_def)
  ultimately have "walk_verify h fl nfc sha256 zero_chain None 0 0 (map (\<lambda>t. t @ [newline]) ts)
      = Inr (valid_result (if es = [] then None else Some (hex (ev_hash (last es)))) (length (log_text ts)) (length es))"
    using run by (subst walk_log [OF ts]) (simp_all add: new_chain_def)
  moreover have "chunks (log_text ts) = map (\<lambda>t. t @ [newline]) ts"
    using chunks_log_text [OF lines_no_newline [OF ts], of "[]"] by simp
  ultimately show ?thesis
    using log_tip [OF assms] by (simp add: cold_verify_def f file_bytes_def walk_from_def)
qed

subsection \<open>Starting in the middle\<close>

lemma verify_line_any: "verify_line l ch = Inr (tx, False) \<Longrightarrow> verify_line l' ch = Inr (tx, False)"
  by (auto simp: verify_line_def Let_def split: if_splits)

lemma walk_append:
  assumes "walk_verify h fl nfc sha256 c tip off n chs = Inr r" and "v_status r = VALID"
  shows "\<exists>c' es. iter_chunks h fl chs = Inr es \<and> walk_verify h fl nfc sha256 c tip off n (chs @ rest)
      = walk_verify h fl nfc sha256 c' (verified_head r) (verified_offset r) (events_verified r) rest \<and>
    (if es = [] then events_verified r = n \<and> c' = c \<and> verified_head r = tip
     else n < events_verified r \<and> verified_head r = Some (hex (tip_hash c')) \<and> chain_run_id c' = ev_run_id (last es))"
  using assms
proof (induction chs arbitrary: c tip off n)
  case Nil
  then show ?case by (clarsimp simp: valid_result_def)
next
  case (Cons ch chs)
  from Cons.prems show ?case
  proof (cases rule: walk_Cons_valid)
    case (blank tx)
    note l = verify_line_any [OF blank(1), of "chs @ rest = []"]
    have "walk_verify h fl nfc sha256 c tip off n ((ch # chs) @ rest)
        = walk_verify h fl nfc sha256 c tip (off + length ch) n (chs @ rest)"
      using l blank(2) by simp
    moreover have "iter_chunks h fl (ch # chs) = iter_chunks h fl chs"
      using verify_line_reads(1) [OF blank(1,2)] by simp
    ultimately show ?thesis using Cons.IH [OF blank(3) Cons.prems(2)] by simp
  next
    case (event tx raw e c2)
    note l = verify_line_any [OF event(1), of "chs @ rest = []"]
    have w: "walk_verify h fl nfc sha256 c tip off n ((ch # chs) @ rest)
        = walk_verify h fl nfc sha256 c2 (Some (hex (ev_hash e))) (off + length ch) (n + 1) (chs @ rest)"
      using l event(2-5) by simp
    have i: "iter_chunks h fl (ch # chs) = rbind (iter_chunks h fl chs) (\<lambda>es. Inr (e # es))"
      using verify_line_reads(2) [OF event(1-4)] by simp
    have c2: "tip_hash c2 = ev_hash e" "chain_run_id c2 = ev_run_id e"
      using event(5) by (simp_all add: check_event_ok chain_append_iff)
    from Cons.IH [OF event(6) Cons.prems(2)] obtain c' es where es: "iter_chunks h fl chs = Inr es"
      and w': "walk_verify h fl nfc sha256 c2 (Some (hex (ev_hash e))) (off + length ch) (n + 1) (chs @ rest)
        = walk_verify h fl nfc sha256 c' (verified_head r) (verified_offset r) (events_verified r) rest"
      and st: "if es = [] then events_verified r = n + 1 \<and> c' = c2 \<and> verified_head r = Some (hex (ev_hash e))
        else n + 1 < events_verified r \<and> verified_head r = Some (hex (tip_hash c')) \<and> chain_run_id c' = ev_run_id (last es)"
      by blast
    have "iter_chunks h fl (ch # chs) = Inr (e # es)" using i es by simp
    moreover have "walk_verify h fl nfc sha256 c tip off n ((ch # chs) @ rest)
        = walk_verify h fl nfc sha256 c' (verified_head r) (verified_offset r) (events_verified r) rest"
      using w w' by (rule trans)
    moreover have "if e # es = [] then events_verified r = n \<and> c' = c \<and> verified_head r = tip
        else n < events_verified r \<and> verified_head r = Some (hex (tip_hash c')) \<and> chain_run_id c' = ev_run_id (last (e # es))"
      using st c2 by (simp split: if_splits)
    ultimately show ?thesis by blast
  qed
qed

text \<open>The walk looks at a chain's run and tip only.\<close>

definition same_state :: "nat \<Rightarrow> event_chain \<Rightarrow> event_chain \<Rightarrow> bool" where
  "same_state n c d \<longleftrightarrow> tip_hash c = tip_hash d \<and>
    (chain_run_id c = chain_run_id d \<or> n = 0 \<and> tip_hash c = genesis_hash)"

lemma check_same_state:
  assumes "same_state n c d"
  shows "(\<exists>x. check_event nfc sha256 n c e = Inl x \<and> check_event nfc sha256 n d e = Inl x) \<or>
    (\<exists>k. check_event nfc sha256 n c e = Inr (Inl k) \<and> check_event nfc sha256 n d e = Inr (Inl k)) \<or>
    (\<exists>c2 d2. check_event nfc sha256 n c e = Inr (Inr c2) \<and> check_event nfc sha256 n d e = Inr (Inr d2) \<and>
      same_state (n + 1) c2 d2)"
proof -
  obtain c1 d1 where c1: "c1 = bind_run n c e" and d1: "d1 = bind_run n d e" by blast
  have "chain_run_id c1 = chain_run_id d1" "tip_hash c1 = tip_hash d1"
    using assms by (auto simp: c1 d1 bind_run_def same_state_def)
  then show ?thesis
    unfolding check_event_def bind_run_def [symmetric] Let_def c1 [symmetric] d1 [symmetric]
    by (cases "rebuild_hash nfc sha256 e") (simp_all add: chain_append_event_def same_state_def)
qed

lemma walk_same_state:
  "same_state n c d \<Longrightarrow> walk_verify h fl nfc sha256 c tip off n chs = walk_verify h fl nfc sha256 d tip off n chs"
proof (induction chs arbitrary: c d tip off n)
  case (Cons ch chs)
  note chk = check_same_state [OF Cons.prems, of nfc sha256]
  show ?case
  proof (cases "verify_line (chs = []) ch")
    case (Inr tt)
    obtain tx torn where tt: "tt = (tx, torn)" by fastforce
    have blank: "walk_verify h fl nfc sha256 c tip (off + length ch) n chs
        = walk_verify h fl nfc sha256 d tip (off + length ch) n chs"
      by (rule Cons.IH [OF Cons.prems])
    show ?thesis
    proof (cases "torn \<or> py_strip tx = [] \<or> json_loads fl (py_strip tx) = None")
      case True
      with Inr blank show ?thesis unfolding tt by (auto simp: Let_def)
    next
      case False
      then obtain raw where raw: "json_loads fl (py_strip tx) = Some raw" and f: "\<not> torn" "py_strip tx \<noteq> []" by blast
      show ?thesis
      proof (cases "from_canonical_dict h raw")
        case (Inl x)
        with Inr raw f show ?thesis unfolding tt by (simp add: Let_def)
      next
        case e: (Inr e)
        from chk [of e] show ?thesis
        proof (elim disjE exE conjE)
          fix c2 d2 assume "check_event nfc sha256 n c e = Inr (Inr c2)" "check_event nfc sha256 n d e = Inr (Inr d2)"
            and "same_state (n + 1) c2 d2"
          with Cons.IH [of "n + 1" c2 d2] Inr raw f e show ?thesis unfolding tt by (simp add: Let_def)
        qed (use Inr raw f e in \<open>simp_all add: tt Let_def\<close>)
      qed
    qed
  qed simp
qed simp

lemma chunks_framed:
  assumes "framed u"
  shows "chunks (u @ v) = chunks u @ chunks v"
proof (cases "u = []")
  case False
  with assms obtain b where u: "u = b @ [newline]"
    by (metis append_butlast_last_id framed_def)
  show ?thesis unfolding u by (simp add: chunks_def Let_def butlast_append split_on_append_sep [of newline b "[]", simplified] split_on_append_sep)
qed (simp add: chunks_def)

text \<open>A walk from a checkpoint, next to the walk over the whole file.\<close>

lemma walk_from_checkpoint:
  assumes "cold_verify h fl nfc sha256 (Content u) = Inr r0" and "v_status r0 = VALID" and "framed u"
    and "read_all_events h fl (Content u) = Inr es" and "\<forall>e \<in> set es. ev_run_id e = run"
  shows "walk_from h fl nfc sha256 zero_chain 0 0 (u @ v)
    = walk_from h fl nfc sha256 ((new_chain run)\<lparr>tip_hash :=
        (case verified_head r0 of None \<Rightarrow> genesis_hash
         | Some s \<Rightarrow> (case fromhex s of None \<Rightarrow> genesis_hash | Some x \<Rightarrow> x))\<rparr>)
      (verified_offset r0) (events_verified r0) (u @ v)" (is "_ = walk_from h fl nfc sha256 ?d _ _ _")
proof -
  from walk_append [OF cold_walk [OF assms(1,2)] assms(2), of "chunks v"] obtain c' fs where fs: "iter_chunks h fl (chunks u) = Inr fs"
    and whole: "walk_verify h fl nfc sha256 zero_chain None 0 0 (chunks u @ chunks v)
      = walk_verify h fl nfc sha256 c' (verified_head r0) (verified_offset r0) (events_verified r0) (chunks v)"
    and st: "if fs = [] then events_verified r0 = 0 \<and> c' = zero_chain \<and> verified_head r0 = None
      else 0 < events_verified r0 \<and> verified_head r0 = Some (hex (tip_hash c')) \<and> chain_run_id c' = ev_run_id (last fs)"
    by blast
  have "fs = es" using fs assms(4) by (simp add: read_all_events_def)
  have "verified_offset r0 = length u" using assms(1,2) by (rule cold_valid) (simp add: valid_result_def)
  then have d: "chunks (drop (verified_offset r0) (u @ v)) = chunks v" by simp
  have "same_state (events_verified r0) c' ?d"
    using st assms(5) \<open>fs = es\<close>
    by (cases "es = []") (simp_all add: same_state_def zero_chain_def new_chain_def)
  moreover have "start_tip ?d (events_verified r0) = verified_head r0"
    using st by (cases "fs = []") (simp_all add: start_tip_def new_chain_def)
  ultimately show ?thesis
    unfolding walk_from_def d using whole walk_same_state [of "events_verified r0" c' ?d h fl nfc sha256]
    by (simp add: chunks_framed [OF assms(3)])
qed

subsection \<open>A log of one event, and of one event and an empty line\<close>

definition demo_line :: string where
  "demo_line = (case dumps_jcs (\<lambda>s. s) (PDict (to_canonical_dict (demo_event []))) of Inr t \<Rightarrow> t | Inl _ \<Rightarrow> [])"

definition demo_log :: string where
  "demo_log = demo_line @ [newline]"

definition demo_read :: event where
  "demo_read = canon_event (\<lambda>s. s) (demo_event [])"

definition demo_result :: "nat \<Rightarrow> verify_result" where
  "demo_result k = valid_result (Some (hex (replicate 32 (CHR ''h'')))) (length demo_log + k) 1"

lemma demo_line_short: "length demo_line < 1000"
  by code_simp

lemma demo_log_holds:
  shows "log_holds (\<lambda>s. s) demo_sha (w_file (last (snd (demo_emit demo_writer)))) (replicate 16 (CHR ''r''))
      [demo_event []] (replicate 32 (CHR ''h''))"
    and "w_file (last (snd (demo_emit demo_writer))) = Content demo_log"
    and "event_line (\<lambda>s. s) (demo_event []) demo_line"
proof -
  have l: "log_holds (\<lambda>s. s) demo_sha (w_file (last (snd (demo_emit demo_writer))))
      (chain_run_id (w_chain (last (snd (demo_emit demo_writer))))) [demo_event []]
      (tip_hash (w_chain (last (snd (demo_emit demo_writer)))))"
    using trace_run_log [OF demo_one normalises_id] by (simp add: writer_log_def)
  have "tip_hash (w_chain (last (snd (demo_emit demo_writer)))) = replicate 32 (CHR ''h'')"
    using log_tip [OF l] by (simp add: demo_event_def)
  moreover have "chain_run_id (w_chain (last (snd (demo_emit demo_writer)))) = replicate 16 (CHR ''r'')"
    using l by (simp add: log_holds_def demo_event_def)
  ultimately show "log_holds (\<lambda>s. s) demo_sha (w_file (last (snd (demo_emit demo_writer)))) (replicate 16 (CHR ''r''))
      [demo_event []] (replicate 32 (CHR ''h''))" using l by simp
  from l obtain t where "w_file (last (snd (demo_emit demo_writer))) = Content (t @ [newline])"
    and t: "event_line (\<lambda>s. s) (demo_event []) t"
    by (auto simp: log_holds_def list_all2_Cons1)
  moreover have "demo_line = t" using t by (simp add: demo_line_def event_line_def)
  ultimately show "w_file (last (snd (demo_emit demo_writer))) = Content demo_log"
    and "event_line (\<lambda>s. s) (demo_event []) demo_line" by (simp_all add: demo_log_def)
qed

lemma demo_framed: "framed demo_log"
  by (simp add: framed_def demo_log_def)

lemma demo_cold: "cold_verify demo_host (\<lambda>_. FNan) (\<lambda>s. s) demo_sha (Content demo_log) = Inr (demo_result 0)"
  using cold_log [OF demo_log_holds(1), of demo_host "\<lambda>_. FNan"]
  by (simp add: demo_log_holds(2) file_bytes_def demo_result_def)

lemma demo_reads: "read_all_events demo_host (\<lambda>_. FNan) (Content demo_log) = Inr [demo_read]"
  using log_holds_reads [OF demo_log_holds(1), of demo_host "\<lambda>_. FNan"]
  by (simp add: demo_log_holds(2) demo_read_def)

lemma demo_chunks: "chunks demo_log = [demo_log]" "chunks (demo_log @ [newline]) = [demo_log, [newline]]"
proof -
  have "newline \<notin> set demo_line" using event_line_text(2) [OF demo_log_holds(3)] .
  then show "chunks demo_log = [demo_log]"
    using chunks_log_text [of "[demo_line]" "[]"] by (simp add: demo_log_def)
  then show "chunks (demo_log @ [newline]) = [demo_log, [newline]]"
    unfolding chunks_framed [OF demo_framed] by (simp add: chunks_def)
qed

lemma blank_line: "verify_line l [newline] = Inr ([], False)"
  by (simp add: verify_line_def trim_newline_def endswith_def newline_def carriage_def)

lemma demo_reads_more: "read_all_events demo_host (\<lambda>_. FNan) (Content (demo_log @ [newline])) = Inr [demo_read]"
  using iter_log [of "\<lambda>s. s" "[demo_event []]" "[demo_line]" demo_host "\<lambda>_. FNan" "[[newline]]"] demo_log_holds(3)
    verify_line_reads(1) [OF blank_line, of demo_host "\<lambda>_. FNan" True]
  by (simp add: read_all_events_def demo_chunks demo_read_def demo_log_def [symmetric] py_strip_Nil)

lemma demo_cold_more:
  "cold_verify demo_host (\<lambda>_. FNan) (\<lambda>s. s) demo_sha (Content (demo_log @ [newline])) = Inr (demo_result 1)"
proof -
  have v: "v_status (demo_result 0) = VALID" by (simp add: demo_result_def valid_result_def)
  from walk_append [OF cold_walk [OF demo_cold v] v, of "[[newline]]"] obtain c where
    "walk_verify demo_host (\<lambda>_. FNan) (\<lambda>s. s) demo_sha zero_chain None 0 0 (chunks demo_log @ [[newline]])
      = walk_verify demo_host (\<lambda>_. FNan) (\<lambda>s. s) demo_sha c (verified_head (demo_result 0))
        (verified_offset (demo_result 0)) (events_verified (demo_result 0)) [[newline]]" by blast
  moreover have "chunks (demo_log @ [newline]) = chunks demo_log @ [[newline]]" by (simp add: demo_chunks)
  moreover have "walk_verify demo_host (\<lambda>_. FNan) (\<lambda>s. s) demo_sha c (verified_head (demo_result 0))
      (verified_offset (demo_result 0)) (events_verified (demo_result 0)) [[newline]] = Inr (demo_result 1)"
    by (simp add: blank_line py_strip_Nil demo_result_def valid_result_def)
  ultimately show ?thesis by (intro walk_cold) simp
qed

subsection \<open>A last line that is no event\<close>

lemma empty_object:
  shows "json_loads fl ''{}'' = Some (PDict [])" and "from_canonical_dict h (PDict []) = Inl InvalidEvent"
    and "py_strip ''{}'' = ''{}''" and "verify_line l ''{}'' = Inr (''{}'', False)" and "trim_eol ''{}'' = ''{}''"
    and "chunks ''{}'' = [''{}'']"
proof -
  show "json_loads fl ''{}'' = Some (PDict [])" by code_simp
  show "from_canonical_dict h (PDict []) = Inl InvalidEvent" by (simp add: from_canonical_dict_def field_of_def)
  show "py_strip ''{}'' = ''{}''" using py_strip_brace [of "''{}''"] strip_right_last [of "''{}''"] by simp
  show "verify_line l ''{}'' = Inr (''{}'', False)"
    by (simp add: verify_line_def trim_newline_def endswith_def newline_def)
  show "trim_eol ''{}'' = ''{}''"
    by (simp add: trim_eol_def trim_newline_def endswith_def newline_def carriage_def)
  show "chunks ''{}'' = [''{}'']" by (simp add: chunks_def newline_def)
qed

lemma bad_tail_walk:
  assumes "cold_verify h fl nfc sha256 (Content u) = Inr r" and "v_status r = VALID" and "framed u"
  shows "cold_verify h fl nfc sha256 (Content (u @ ''{}''))
    = Inr (tampered_result (verified_head r) (length u) (events_verified r) event_shape_invalid)"
proof -
  have off: "verified_offset r = length u" using assms(1,2) by (rule cold_valid) (simp add: valid_result_def)
  from walk_append [OF cold_walk [OF assms(1,2)] assms(2), of "[''{}'']"] obtain c where
    "walk_verify h fl nfc sha256 zero_chain None 0 0 (chunks u @ [''{}''])
      = walk_verify h fl nfc sha256 c (verified_head r) (verified_offset r) (events_verified r) [''{}'']" by blast
  moreover have "walk_verify h fl nfc sha256 c (verified_head r) (verified_offset r) (events_verified r) [''{}'']
      = Inr (tampered_result (verified_head r) (length u) (events_verified r) event_shape_invalid)"
    by (simp add: empty_object off)
  ultimately show ?thesis by (intro walk_cold) (simp add: chunks_framed [OF assms(3)] empty_object)
qed

subsection \<open>Properties\<close>

text \<open>
  C27. A verdict of \<open>VALID\<close> is sound: every line of the file is then an event, the number of
  events and the size of the file are the ones reported, all events are of one run, the file
  loads as an intact chain, and the head reported is that chain's tip.
\<close>

theorem valid_verdict_sound:
  assumes "cold_verify h fl nfc sha256 (Content content) = Inr r" and "v_status r = VALID"
  shows "\<exists>es. read_all_events h fl (Content content) = Inr es \<and>
    events_verified r = length es \<and> verified_offset r = length content \<and>
    (if es = [] then verified_head r = None
     else \<exists>c. load_chain h fl nfc sha256 (Content content) = Inr c \<and> chain_events c = es \<and>
       verified_head r = Some (hex (tip_hash c)) \<and> (\<forall>e \<in> set es. ev_run_id e = chain_run_id c))"
proof -
  from assms obtain es c where es: "read_all_events h fl (Content content) = Inr es"
    and c: "append_all nfc sha256 (new_chain (chain_run_id c)) es = Inr c"
    and r: "r = valid_result (if es = [] then None else Some (hex (tip_hash c))) (length content) (length es)"
    and run: "\<forall>e \<in> set es. ev_run_id e = chain_run_id c"
    by (rule cold_valid)
  have "load_chain h fl nfc sha256 (Content content) = Inr c" if "es \<noteq> []"
    using that es c run by (cases es) (simp_all add: load_chain_def)
  with es r run append_all_grows [OF c] show ?thesis by (simp add: valid_result_def new_chain_def)
qed

theorem valid_verdict_sound_witness:
  "\<exists>c. load_chain demo_host (\<lambda>_. FNan) (\<lambda>s. s) demo_sha (Content demo_log) = Inr c \<and> chain_events c = [demo_read] \<and>
    hex (tip_hash c) = hex (replicate 32 (CHR ''h''))"
  using valid_verdict_sound [OF demo_cold] by (auto simp: demo_reads demo_result_def valid_result_def)





text \<open>
  C34. A checkpoint changes no verdict: after a log that ends at a line end was verified in full
  and more was appended to it, verifying from the checkpoint and verifying everything agree on
  the result, except that for a tampered file the place reported may differ.
\<close>

theorem warm_agrees_with_cold:
  assumes "cold_verify h fl nfc sha256 (Content u) = Inr r0" and "v_status r0 = VALID" and "framed u"
    and "read_all_events h fl (Content u) = Inr es" and "\<forall>e \<in> set es. ev_run_id e = run" and "fromhex hx = Some run"
    and "read_verify_sidecar side = checkpoint_of True r0"
    and "verify_trace h fl nfc sha256 (Some hx) False persist side (Content (u @ v)) = Inr (r, cp)"
  shows "\<exists>r'. cold_verify h fl nfc sha256 (Content (u @ v)) = Inr r' \<and>
    (r = r' \<or> v_status r = TAMPERED \<and> v_status r' = TAMPERED)"
proof -
  let ?b = "\<lparr>last_verified_head = verified_head r0, last_verified_offset = verified_offset r0,
    last_verified_events = events_verified r0\<rparr>"
  have side: "read_verify_sidecar side = Some ?b"
    using assms(2,7) by (simp add: checkpoint_of_def is_valid_result_def)
  have off: "verified_offset r0 = length u" using assms(1,2) by (rule cold_valid) (simp add: valid_result_def)
  note walks = walk_from_checkpoint [OF assms(1-5), of v]
  have "rbind (cold_verify h fl nfc sha256 (Content (u @ v))) (\<lambda>r. Inr (r, None)) = Inr (r, cp) \<or>
      rbind (warm_verify h fl nfc sha256 run ?b (u @ v)) (\<lambda>r. Inr (r, checkpoint_of persist r)) = Inr (r, cp)"
    using assms(6,8) off
    by (auto simp: verify_trace_def Let_def side file_bytes_def rbind_Inr_iff split: if_splits)
  then show ?thesis
  proof
    assume "rbind (warm_verify h fl nfc sha256 run ?b (u @ v)) (\<lambda>r. Inr (r, checkpoint_of persist r)) = Inr (r, cp)"
    then have "warm_verify h fl nfc sha256 run ?b (u @ v) = Inr r" by (simp add: rbind_Inr_iff)
    then show ?thesis
      by (auto simp: warm_verify_def Let_def cold_verify_def file_bytes_def walks tampered_result_def
          split: sum.splits walk_stop.splits)
  qed (simp add: rbind_Inr_iff)
qed

text \<open>The checkpoint of the log of one event.\<close>

definition demo_side :: payload where
  "demo_side = [(KStr ''last_verified_head'', PStr (hex (replicate 32 (CHR ''h'')))),
     (KStr ''last_verified_offset'', PInt (int (length demo_log))), (KStr ''last_verified_events'', PInt 1),
     (KStr ''last_verified_at'', PStr ''2026-01-01T00:00:00Z'')]"

lemma demo_side_reads: "read_verify_sidecar (Some demo_side) = checkpoint_of True (demo_result 0)"
proof -
  have "length (hex (replicate 32 (CHR ''h''))) = 64 \<and> list_all hex_char (hex (replicate 32 (CHR ''h'')))" by code_simp
  then show ?thesis
    by (simp add: read_verify_sidecar_def demo_side_def get_value_def get_default_def nat_field_def checkpoint_of_def
        is_valid_result_def demo_result_def valid_result_def)
qed

lemma demo_spot: "spot_check_tail demo_host (\<lambda>_. FNan) (\<lambda>s. s) demo_sha
    \<lparr>last_verified_head = Some (hex (replicate 32 (CHR ''h''))), last_verified_offset = length demo_log,
      last_verified_events = 1\<rparr> (demo_log @ [newline]) = Inr True"
proof -
  have "window_start (demo_log @ [newline]) t (64 * 1024) = 0" for t
    using demo_line_short by (subst window_start.simps) (simp add: demo_log_def)
  moreover have "events_in_range demo_host (\<lambda>_. FNan) 0 [demo_log, [newline]] = Inr ([(length demo_log, demo_read)], True)"
    using event_line_text(1,5) [OF demo_log_holds(3)] parse_line [OF demo_log_holds(3), of demo_host "\<lambda>_. FNan"]
      verify_event_line [OF demo_log_holds(3), of False]
    by (simp add: demo_read_def demo_log_def blank_line py_strip_Nil)
  moreover have "rebuild_hash (\<lambda>s. s) demo_sha demo_read = Inr (ev_hash demo_read)" by code_simp
  moreover have "ev_hash demo_read = replicate 32 (CHR ''h'')" by (simp add: demo_read_def demo_event_def)
  moreover have "last_n WARM_SPOT_CHECK_EVENTS [x] = [x]" for x :: "nat \<times> event"
    by (simp add: last_n_def WARM_SPOT_CHECK_EVENTS_def)
  ultimately show ?thesis by (simp add: spot_check_tail_def demo_chunks anchor_ok_def)
qed

lemma demo_warm:
  "\<exists>cp. verify_trace demo_host (\<lambda>_. FNan) (\<lambda>s. s) demo_sha (Some (hex (replicate 16 (CHR ''r'')))) False False
      (Some demo_side) (Content (demo_log @ [newline])) = Inr (demo_result 1, cp)"
proof -
  let ?b = "\<lparr>last_verified_head = Some (hex (replicate 32 (CHR ''h''))), last_verified_offset = length demo_log,
      last_verified_events = 1\<rparr>"
  have v: "v_status (demo_result 0) = VALID" and r1: "v_status (demo_result 1) = VALID"
    by (simp_all add: demo_result_def valid_result_def)
  have run: "\<forall>e \<in> set [demo_read]. ev_run_id e = replicate 16 (CHR ''r'')" by (simp add: demo_read_def demo_event_def)
  have side: "read_verify_sidecar (Some demo_side) = Some ?b"
    using demo_side_reads v by (simp add: checkpoint_of_def is_valid_result_def demo_result_def valid_result_def)
  have "walk_from demo_host (\<lambda>_. FNan) (\<lambda>s. s) demo_sha zero_chain 0 0 (demo_log @ [newline]) = Inr (demo_result 1)"
    using cold_walk [OF demo_cold_more r1] by (simp add: walk_from_def)
  then have "warm_verify demo_host (\<lambda>_. FNan) (\<lambda>s. s) demo_sha (replicate 16 (CHR ''r'')) ?b (demo_log @ [newline])
      = Inr (demo_result 1)"
    unfolding walk_from_checkpoint [OF demo_cold v demo_framed demo_reads run]
    by (simp add: warm_verify_def demo_result_def valid_result_def)
  then show ?thesis
    by (simp add: verify_trace_def Let_def side file_bytes_def demo_spot del: One_nat_def)
qed

theorem warm_agrees_with_cold_witness:
  "\<exists>r'. cold_verify demo_host (\<lambda>_. FNan) (\<lambda>s. s) demo_sha (Content (demo_log @ [newline])) = Inr r' \<and>
    demo_result 1 = r'"
proof -
  obtain cp where "verify_trace demo_host (\<lambda>_. FNan) (\<lambda>s. s) demo_sha (Some (hex (replicate 16 (CHR ''r'')))) False False
      (Some demo_side) (Content (demo_log @ [newline])) = Inr (demo_result 1, cp)" using demo_warm by blast
  from warm_agrees_with_cold [OF demo_cold _ demo_framed demo_reads _ _ demo_side_reads this]
  show ?thesis by (simp add: demo_result_def valid_result_def demo_read_def demo_event_def)
qed

text \<open>
  The two checks differ on a last line that is JSON but no event: the reader stops at it as at
  a torn line and finds the log intact, while \<open>cold_verify\<close> calls the file tampered with.
\<close>

theorem bad_tail_two_verdicts:
  assumes "trace_run h fl resub nfc sha256 w es" and "normalises nfc" and "distinct (map ev_hash es)" and "es \<noteq> []"
    and "w_file w = Content u"
  shows "reader_verify h fl nfc sha256 (Content (u @ ''{}'')) = Inr True \<and>
    (\<exists>r. cold_verify h fl nfc sha256 (Content (u @ ''{}'')) = Inr r \<and> v_status r = TAMPERED)"
proof -
  have l: "log_holds nfc sha256 (Content u) (chain_run_id (w_chain w)) es (tip_hash (w_chain w))"
    using trace_run_log [OF assms(1-3)] by (simp add: writer_log_def assms(5))
  then obtain ts where u: "u = log_text ts" and ts: "list_all2 (event_line nfc) es ts" by (auto simp: log_holds_def)
  have fr: "framed u" unfolding u by (cases ts rule: rev_cases) (simp_all add: framed_def)
  have "read_line_event h fl True ''{}'' = Inr StopReading"
    by (simp add: read_line_event_def decode_line_def empty_object)
  with iter_log [OF ts, of h fl "[''{}'']"] chunks_log_text [OF lines_no_newline [OF ts], of "[]"]
  have "read_all_events h fl (Content (u @ ''{}'')) = read_all_events h fl (Content u)"
    using read_log [OF ts, of h fl] by (simp add: read_all_events_def chunks_framed [OF fr, unfolded u] empty_object u)
  then have "reader_verify h fl nfc sha256 (Content (u @ ''{}'')) = Inr True"
    using log_holds_loads [OF l assms(4), of h fl] by (simp add: reader_verify_def load_chain_def)
  moreover have "\<exists>r. cold_verify h fl nfc sha256 (Content (u @ ''{}'')) = Inr r \<and> v_status r = TAMPERED"
    using bad_tail_walk [OF cold_log [OF l, of h fl] _ fr] by (simp add: valid_result_def tampered_result_def)
  ultimately show ?thesis by blast
qed

theorem bad_tail_two_verdicts_witness:
  "reader_verify demo_host (\<lambda>_. FNan) (\<lambda>s. s) demo_sha (Content (demo_log @ ''{}'')) = Inr True"
  using bad_tail_two_verdicts [OF demo_one normalises_id _ _ demo_log_holds(2)] by simp

end
