(* ===== verification/AsciiJson.thy ===== *)
theory AsciiJson
  imports Journal
begin

section \<open>Values of ASCII text are encoded\<close>

text \<open>
  A JSON value whose texts are ASCII, without floats, is always encoded by \<open>dumps_jcs\<close>, and as
  ASCII. The writers of the program whose records hold digests, ids and counts only do not fail
  on encoding for this reason.
\<close>

lemma isascii_append: "isascii (s @ t) \<longleftrightarrow> isascii s \<and> isascii t"
  by (auto simp: isascii_def)

lemma isascii_join: "\<forall>p \<in> set ps. isascii p \<Longrightarrow> isascii sep \<Longrightarrow> isascii (join sep ps)"
  unfolding isascii_def by (rule join_printable)

lemma code_hex_digit: "n < 16 \<Longrightarrow> code (hex_digit n) < 128"
  by (simp add: hex_digit_def)

lemma isascii_escape:
  assumes "code c < 128"
  shows "isascii (escape_char c)"
proof (cases "map_of escape_map (code c)")
  case None
  with assms code_hex_digit [of "code c div 16"] code_hex_digit [of "code c mod 16"] show ?thesis
    by (simp add: escape_char_def isascii_def)
next
  case (Some e)
  then have "e \<in> snd ` set escape_map" by (force dest: map_of_SomeD)
  then have "isascii e" by (auto simp: escape_map_def isascii_def)
  with Some show ?thesis by (simp add: escape_char_def)
qed

lemma isascii_encode:
  assumes "isascii s" and "normalises nfc"
  shows "isascii (encode_string nfc s)"
proof -
  have "nfc s = s" using assms by (simp add: normalises_def)
  then show ?thesis using assms(1) isascii_escape
    by (fastforce simp: encode_string_def isascii_def quote_def)
qed

lemma isascii_dec_int: "isascii (dec_int i)"
  by (auto simp: dec_int_def isascii_def is_digit_def dest!: dec_nat_digits)

fun ascii_value :: "pyval \<Rightarrow> bool" where
  "ascii_value (PStr s) = isascii s"
| "ascii_value (PList vs) = (\<forall>v \<in> set vs. ascii_value v)"
| "ascii_value (PDict kvs) =
    ((\<forall>(k, v) \<in> set kvs. k \<noteq> KOther \<and> isascii (key_str k) \<and> ascii_value v) \<and> distinct (map fst kvs))"
| "ascii_value (PFloat f) = False"
| "ascii_value (PSnap v) = False"
| "ascii_value (PObject t) = False"
| "ascii_value v = True"

lemma distinct_plain_keys:
  assumes "normalises nfc" and "distinct (map fst d)" and "\<forall>(k, v) \<in> set d. k \<noteq> KOther \<and> isascii (key_str k)"
  shows "distinct (map (\<lambda>(k, v). nfc (key_str k)) d)"
proof -
  have inj: "inj_on key_str (set (map fst d))"
  proof (rule inj_onI)
    fix x y assume "x \<in> set (map fst d)" "y \<in> set (map fst d)" "key_str x = key_str y"
    with assms(3) show "x = y" by (cases x; cases y) force+
  qed
  have "map (\<lambda>(k, v). nfc (key_str k)) d = map key_str (map fst d)"
    using assms(1,3) by (auto simp: normalises_def intro!: map_cong)
  then show ?thesis using assms(2) inj by (simp only: distinct_map)
qed

lemma ascii_encodable: "ascii_value v \<Longrightarrow> normalises nfc \<Longrightarrow> encodable nfc v"
proof (induction v rule: ascii_value.induct)
  case (3 kvs)
  have ev: "encodable nfc v" if "(k, v) \<in> set kvs" for k v
    using "3.IH" [OF that refl] "3.prems" that by auto
  have bmp: "check_bmp_only (nfc (key_str k))" if "(k, v) \<in> set kvs" for k v
    using that "3.prems" by (force simp: check_bmp_only_def isascii_def normalises_def)
  have "distinct (map (\<lambda>(k, v). nfc (key_str k)) kvs)"
    using "3.prems" by (intro distinct_plain_keys) auto
  then show ?case using ev bmp "3.prems" by auto
qed simp_all

lemma ascii_walk: "walk nfc v = Inr t \<Longrightarrow> ascii_value v \<Longrightarrow> normalises nfc \<Longrightarrow> isascii t"
proof (induction nfc v arbitrary: t rule: walk.induct)
  case (5 nfc s)
  then show ?case using isascii_encode [of s nfc] by auto
next
  case (7 nfc vs)
  note ok = walk_list_ok [OF "7.prems"(1)]
  have "\<forall>p \<in> set (map (\<lambda>v. projr (walk nfc v)) vs). isascii p" using 7 ok(2) by auto
  from isascii_join [OF this, of "'',''"] show ?case unfolding ok(1) isascii_append by (simp add: isascii_def)
next
  case (8 nfc kvs)
  from "8.prems"(1) have "encode_dict nfc (map (\<lambda>(k, v). (k, walk nfc v)) kvs) = Inr t" by simp
  note ok = encode_dict_ok [OF this]
  have "isascii (member_text nfc k (projr (walk nfc v)))" if kv: "(k, v) \<in> set (sorted_members nfc kvs)" for k v
  proof -
    from kv obtain j where j: "(j, v) \<in> set kvs" "k = nfc (key_str j)" by (auto simp: set_sorted_members)
    with "8.prems"(2) have a: "isascii (key_str j)" "ascii_value v" by auto
    have "walk nfc v = Inr (projr (walk nfc v))" using ok(2) kv by blast
    from "8.IH" [OF j(1) refl this a(2) "8.prems"(3)] have "isascii (projr (walk nfc v))" .
    moreover have "isascii (encode_string nfc k)"
      using isascii_encode [OF a(1) "8.prems"(3)] "8.prems"(3) a(1) by (simp add: j(2) normalises_def)
    ultimately show ?thesis by (simp add: member_text_def isascii_append) (simp add: isascii_def)
  qed
  then have "\<forall>p \<in> set (map (\<lambda>(k, v). member_text nfc k (projr (walk nfc v))) (sorted_members nfc kvs)). isascii p" by auto
  from isascii_join [OF this, of "'',''"] show ?case unfolding ok(1) isascii_append by (simp add: isascii_def)
qed (auto simp: isascii_def encode_int_def dest: isascii_dec_int [unfolded isascii_def, rule_format])

lemma ascii_dumps:
  assumes "ascii_value v" and "normalises nfc"
  shows "is_ok (dumps_jcs nfc v)"
proof -
  obtain t where t: "walk nfc v = Inr t" using ascii_encodable [OF assms] walk_is_ok [of nfc v] by (auto simp: is_ok_iff)
  then show ?thesis using ascii_walk [OF t assms] by (simp add: dumps_jcs_def utf8_valid_ascii)
qed

end
