(* ===== verification/TraceRepair.thy ===== *)
theory TraceRepair
  imports TraceEvents AsciiJson "HOL-Library.Product_Lexorder" "HOL-Library.Multiset"
begin

section \<open>Repairing an event log\<close>

text \<open>
  The model of \<open>src/ract/trace/repair.py\<close>: the open handles of a list of events, and the close
  events made for them. The table of open handles is a function from kinds to the events of that
  kind still open; its five keys are those of \<open>close_map\<close>, in whose order they are gone through.
\<close>

subsection \<open>Open handles\<close>

definition close_map :: "(string \<times> string \<times> payload) list" where
  "close_map =
    [(''run.started'', ''run.aborted'', []),
     (''step.started'', ''step.rolled_back'', []),
     (''tool.called'', ''tool.result'', [(KStr ''status'', PStr ''unknown'')]),
     (''prompt.sent'', ''response.received'', [(KStr ''status'', PStr ''timed_out'')]),
     (''handshake.requested'', ''handshake.resolved'', [(KStr ''resolution'', PStr ''interrupted'')])]"

definition close_kinds :: "(string \<times> string) list" where
  "close_kinds =
    [(''run.completed'', ''run.started''), (''run.aborted'', ''run.started''),
     (''step.committed'', ''step.started''), (''step.rolled_back'', ''step.started''),
     (''tool.result'', ''tool.called''), (''tool.refused'', ''tool.called''),
     (''response.received'', ''prompt.sent''), (''response.rejected'', ''prompt.sent''),
     (''handshake.resolved'', ''handshake.requested'')]"

fun pop_first :: "('a \<Rightarrow> bool) \<Rightarrow> 'a list \<Rightarrow> 'a list" where
  "pop_first P [] = []"
| "pop_first P (x # xs) = (if P x then xs else x # pop_first P xs)"

type_synonym open_table = "string \<Rightarrow> event list"

text \<open>One event of the pass: it opens a handle, closes one, or neither.\<close>

definition track :: "open_table \<Rightarrow> event \<Rightarrow> open_table" where
  "track t e =
    (case map_of close_map (ev_kind e) of
       Some _ \<Rightarrow> t(ev_kind e := t (ev_kind e) @ [e])
     | None \<Rightarrow>
         (case map_of close_kinds (ev_kind e) of
            None \<Rightarrow> t
          | Some k \<Rightarrow>
              let source = get_value (ev_payload e) ''source_event_id'' in
              if source \<noteq> PNone then t(k := pop_first (\<lambda>c. PStr (hex (ev_id c)) = source) (t k))
              else t(k := drop 1 (t k))))"

definition open_handles :: "event list \<Rightarrow> event list" where
  "open_handles es = (let t = foldl track (\<lambda>_. []) es in concat (map (\<lambda>(k, _). t k) close_map))"

definition still_open :: "event list \<Rightarrow> event list" where
  "still_open es = sort_key (\<lambda>e. (timestamp_ns e, hex (ev_id e))) (open_handles es)"

subsection \<open>Closing them\<close>

definition SYNTH_MARKER :: string where
  "SYNTH_MARKER = ''ract.trace.repair.synth.v1''"

definition derive_synth_id :: "(string \<Rightarrow> string) \<Rightarrow> string \<Rightarrow> string \<Rightarrow> string" where
  "derive_synth_id sha256 i k = take 16 (sha256 (SYNTH_MARKER @ i @ k))"

definition synth_payload :: "payload \<Rightarrow> string \<Rightarrow> payload" where
  "synth_payload template i =
    template @ [(KStr ''synthesized'', PBool True), (KStr ''reason'', PStr ''interrupted''),
      (KStr ''source_event_id'', PStr (hex i))]"

definition synth_close ::
    "(string \<Rightarrow> string) \<Rightarrow> (string \<Rightarrow> string) \<Rightarrow> string \<Rightarrow> string \<Rightarrow> event \<Rightarrow> trace_error + event" where
  "synth_close nfc sha256 run tip e =
    (case map_of close_map (ev_kind e) of
       None \<Rightarrow> Inl InvalidEvent
     | Some (k, template) \<Rightarrow>
         let p = synth_payload template (ev_id e); i = derive_synth_id sha256 (ev_id e) k; ts = timestamp_ns e + 1 in
         rbind (hash_event nfc sha256 k p tip i run (ev_step_id e) (ev_parent_id e) ts) (\<lambda>h.
           event_post_init
             \<lparr>ev_id = i, ev_run_id = run, ev_step_id = ev_step_id e, ev_parent_id = ev_parent_id e,
              timestamp_ns = ts, ev_kind = k, ev_payload = p, ev_hash = h, prev_hash = tip\<rparr>))"

fun synth_all ::
    "(string \<Rightarrow> string) \<Rightarrow> (string \<Rightarrow> string) \<Rightarrow> string \<Rightarrow> string \<Rightarrow> event list \<Rightarrow> trace_error + event list" where
  "synth_all nfc sha256 run tip [] = Inr []"
| "synth_all nfc sha256 run tip (e # es) =
    rbind (synth_close nfc sha256 run tip e) (\<lambda>c.
    rbind (synth_all nfc sha256 run (ev_hash c) es) (\<lambda>cs. Inr (c # cs)))"

text \<open>What \<open>repair\<close> returns; no event is ever dropped.\<close>

record repaired =
  r_events :: "event list"
  r_synthesized :: "event list"
  r_closed_kinds :: "(string, nat) dict"
  r_already_closed :: bool

definition count_kind :: "(string, nat) dict \<Rightarrow> event \<Rightarrow> (string, nat) dict" where
  "count_kind d e =
    AList.update (ev_kind e) ((case map_of d (ev_kind e) of None \<Rightarrow> 0 | Some n \<Rightarrow> n) + 1) d"

definition repair :: "(string \<Rightarrow> string) \<Rightarrow> (string \<Rightarrow> string) \<Rightarrow> event list \<Rightarrow> trace_error + repaired" where
  "repair nfc sha256 es =
    (let tip = (if es = [] then zero_bytes 32 else ev_hash (last es));
         run = (if es = [] then zero_bytes 16 else ev_run_id (hd es))
     in rbind (synth_all nfc sha256 run tip (still_open es)) (\<lambda>cs.
       Inr \<lparr>r_events = es @ cs, r_synthesized = cs, r_closed_kinds = foldl count_kind [] (still_open es),
            r_already_closed = (cs = [])\<rparr>))"

definition rebuild_chain_from_repaired ::
    "(string \<Rightarrow> string) \<Rightarrow> (string \<Rightarrow> string) \<Rightarrow> repaired \<Rightarrow> trace_error + event_chain" where
  "rebuild_chain_from_repaired nfc sha256 s =
    (if r_events s = [] then Inl InvalidEvent
     else append_all nfc sha256 (new_chain (ev_run_id (hd (r_events s)))) (r_events s))"

subsection \<open>The table of open handles\<close>

text \<open>Every kind that closes another is no opening kind, and each opening kind has a closing one.\<close>

lemma close_tables:
  "map_of close_map k = Some (ck, tm) \<Longrightarrow> map_of close_map ck = None \<and> map_of close_kinds ck = Some k"
  "map_of close_kinds ck = Some k \<Longrightarrow> map_of close_map k \<noteq> None"
  "map_of close_map k = Some (ck, tm) \<Longrightarrow> map_of tm (KStr ''source_event_id'') = None"
  by (auto simp: close_map_def close_kinds_def split: if_splits)

definition table_ok :: "open_table \<Rightarrow> bool" where
  "table_ok t \<longleftrightarrow> (\<forall>k. (\<forall>e \<in> set (t k). ev_kind e = k) \<and> (map_of close_map k = None \<longrightarrow> t k = []))"

lemma set_pop_first: "set (pop_first P xs) \<subseteq> set xs"
  by (induction xs) auto

lemma table_ok_track: "table_ok t \<Longrightarrow> table_ok (track t e)"
  using set_pop_first set_drop_subset [of 1] close_tables(2)
  by (fastforce simp: table_ok_def track_def Let_def split: option.splits)

lemma table_ok_foldl: "table_ok t \<Longrightarrow> table_ok (foldl track t es)"
  by (induction es arbitrary: t) (simp_all add: table_ok_track)

lemma table_ok_start: "table_ok (\<lambda>_. [])"
  by (simp add: table_ok_def)

lemma filter_kind: "table_ok t \<Longrightarrow> filter (\<lambda>e. ev_kind e = k) (t j) = (if j = k then t j else [])"
  by (auto simp: table_ok_def filter_id_conv filter_empty_conv)

text \<open>The open handles of one kind.\<close>

lemma handles_of_kind:
  assumes "table_ok t"
  shows "filter (\<lambda>e. ev_kind e = k) (concat (map (\<lambda>(k, _). t k) close_map)) = t k"
proof (cases "map_of close_map k = None")
  case True
  moreover from this have "\<forall>j \<in> set (map fst close_map). j \<noteq> k" by (force simp: map_of_eq_None_iff)
  ultimately show ?thesis using assms by (simp add: close_map_def filter_kind) (simp add: table_ok_def close_map_def)
next
  case False
  then have "k \<in> set (map fst close_map)" by (simp add: map_of_eq_None_iff)
  then have "k = ''run.started'' \<or> k = ''step.started'' \<or> k = ''tool.called'' \<or> k = ''prompt.sent'' \<or>
    k = ''handshake.requested''" by (simp add: close_map_def)
  then show ?thesis by (elim disjE) (simp_all add: close_map_def filter_kind [OF assms])
qed

lemma handle_kinds:
  assumes "e \<in> set (still_open es)"
  shows "map_of close_map (ev_kind e) \<noteq> None"
proof -
  let ?t = "foldl track (\<lambda>_. []) es"
  from assms obtain k where "e \<in> set (?t k)" "map_of close_map k \<noteq> None"
    by (auto simp: still_open_def open_handles_def Let_def close_map_def)
  with table_ok_foldl [OF table_ok_start, of es] show ?thesis by (auto simp: table_ok_def)
qed

subsection \<open>The closes are recognised\<close>

text \<open>A close event made for an open one.\<close>

definition closes :: "event \<Rightarrow> event \<Rightarrow> bool" where
  "closes c e \<longleftrightarrow> (\<exists>ck tm. map_of close_map (ev_kind e) = Some (ck, tm) \<and> ev_kind c = ck \<and>
    get_value (ev_payload c) ''source_event_id'' = PStr (hex (ev_id e)))"

lemma synth_close_ok:
  assumes "synth_close nfc sha256 run tip e = Inr c"
  shows "closes c e" and "ev_run_id c = run" and "prev_hash c = tip" and "rebuild_hash nfc sha256 c = Inr (ev_hash c)"
    and "event_ok c" and "timestamp_ns c = timestamp_ns e + 1" and "get_value (ev_payload c) ''synthesized'' = PBool True"
proof -
  obtain k tm h where k: "map_of close_map (ev_kind e) = Some (k, tm)"
    and h: "hash_event nfc sha256 k (synth_payload tm (ev_id e)) tip (derive_synth_id sha256 (ev_id e) k) run
      (ev_step_id e) (ev_parent_id e) (timestamp_ns e + 1) = Inr h"
    and c: "c = \<lparr>ev_id = derive_synth_id sha256 (ev_id e) k, ev_run_id = run, ev_step_id = ev_step_id e,
      ev_parent_id = ev_parent_id e, timestamp_ns = timestamp_ns e + 1, ev_kind = k,
      ev_payload = synth_payload tm (ev_id e), ev_hash = h, prev_hash = tip\<rparr>" and ok: "event_ok c"
    using assms by (auto simp: synth_close_def Let_def event_post_init_def rbind_Inr_iff split: option.splits if_splits)
  show "event_ok c" by (rule ok)
  show "ev_run_id c = run" "prev_hash c = tip" "timestamp_ns c = timestamp_ns e + 1" by (simp_all add: c)
  show "rebuild_hash nfc sha256 c = Inr (ev_hash c)" using h by (simp add: c rebuild_hash_def)
  have none: "map_of tm (KStr ''source_event_id'') = None" "map_of tm (KStr ''synthesized'') = None"
    using k by (auto simp: close_map_def split: if_splits)
  then show "closes c e" "get_value (ev_payload c) ''synthesized'' = PBool True"
    using k by (simp_all add: closes_def c synth_payload_def get_value_def get_default_def map_add_def)
qed

lemma synth_all_closes: "synth_all nfc sha256 run tip es = Inr cs \<Longrightarrow> list_all2 closes cs es"
  by (induction es arbitrary: tip cs) (auto simp: rbind_Inr_iff dest: synth_close_ok(1))

lemma track_close:
  assumes "closes c e"
  shows "track t c = t(ev_kind e := pop_first (\<lambda>x. ev_id x = ev_id e) (t (ev_kind e)))"
  using assms close_tables(1) by (auto simp: closes_def track_def Let_def)

lemma mset_pop_first:
  "ev_id e \<in> ev_id ` set xs \<Longrightarrow>
    mset (map ev_id (pop_first (\<lambda>x. ev_id x = ev_id e) xs)) = mset (map ev_id xs) - {#ev_id e#}"
proof (induction xs)
  case (Cons x xs)
  then show ?case by (cases "ev_id x = ev_id e") (auto simp: insert_DiffM2)
qed simp

text \<open>Closing every handle of the table, in any order, leaves none.\<close>

lemma closes_empty:
  assumes "list_all2 closes cs os"
    and "\<forall>k. mset (map ev_id (t k)) = mset (map ev_id (filter (\<lambda>e. ev_kind e = k) os))"
  shows "foldl track t cs = (\<lambda>_. [])"
  using assms
proof (induction cs os arbitrary: t rule: list_all2_induct)
  case Nil
  then show ?case by auto
next
  case (Cons c cs e os)
  let ?k = "ev_kind e"
  have m: "mset (map ev_id (t k)) = mset (map ev_id (filter (\<lambda>e. ev_kind e = k) (e # os)))" for k
    using Cons.prems by blast
  have "ev_id e \<in># mset (map ev_id (t ?k))" unfolding m by simp
  then have i: "ev_id e \<in> ev_id ` set (t ?k)" by simp
  have "foldl track (track t c) cs = (\<lambda>_. [])"
  proof (rule Cons.IH, rule allI)
    fix k
    show "mset (map ev_id (track t c k)) = mset (map ev_id (filter (\<lambda>e. ev_kind e = k) os))"
      using m [of k] mset_pop_first [OF i] by (auto simp: track_close [OF Cons.hyps(1)])
  qed
  then show ?case by simp
qed

lemma mset_filter_sort: "mset (filter P (sort_key f xs)) = mset (filter P xs)"
  by (simp add: mset_filter)

lemma synth_closes_all:
  assumes "synth_all nfc sha256 run tip (still_open es) = Inr cs"
  shows "foldl track (\<lambda>_. []) (es @ cs) = (\<lambda>_. [])"
proof -
  let ?t = "foldl track (\<lambda>_. []) es"
  have "mset (map ev_id (?t k)) = mset (map ev_id (filter (\<lambda>e. ev_kind e = k) (still_open es)))" for k
  proof -
    have "mset (filter (\<lambda>e. ev_kind e = k) (still_open es)) = mset (?t k)"
      unfolding still_open_def mset_filter_sort open_handles_def Let_def
      using handles_of_kind [OF table_ok_foldl [OF table_ok_start]] by simp
    then have "mset (map ev_id (filter (\<lambda>e. ev_kind e = k) (still_open es))) = mset (map ev_id (?t k))"
      by (simp only: mset_map)
    then show ?thesis ..
  qed
  with closes_empty [OF synth_all_closes [OF assms]] show ?thesis by simp
qed

lemma nothing_open: "foldl track (\<lambda>_. []) es = (\<lambda>_. []) \<Longrightarrow> still_open es = []"
  by (simp add: still_open_def open_handles_def close_map_def)

subsection \<open>The repaired chain\<close>

lemma synth_all_chain:
  assumes "synth_all nfc sha256 run (tip_hash c) es = Inr cs"
  shows "is_ok (append_all nfc sha256 c cs)" and "\<forall>e \<in> set cs. ev_run_id e = run \<and> event_ok e"
proof -
  have "is_ok (append_all nfc sha256 c cs) \<and> (\<forall>e \<in> set cs. ev_run_id e = run \<and> event_ok e)"
    using assms
  proof (induction es arbitrary: c cs)
    case Nil
    then show ?case by (simp add: append_all_def)
  next
    case (Cons e es)
    from Cons.prems obtain x xs where x: "synth_close nfc sha256 run (tip_hash c) e = Inr x"
      and xs: "synth_all nfc sha256 run (ev_hash x) es = Inr xs" and cs: "cs = x # xs" by (auto simp: rbind_Inr_iff)
    note s = synth_close_ok [OF x]
    let ?d = "c\<lparr>chain_events := chain_events c @ [x], tip_hash := ev_hash x\<rparr>"
    have "chain_append_event nfc sha256 c x = Inr ?d" using s by (simp add: chain_append_event_def)
    moreover have "is_ok (append_all nfc sha256 ?d xs) \<and> (\<forall>e \<in> set xs. ev_run_id e = run \<and> event_ok e)"
      by (rule Cons.IH) (simp add: xs)
    ultimately show ?case using s by (simp add: cs append_all_def)
  qed
  then show "is_ok (append_all nfc sha256 c cs)" "\<forall>e \<in> set cs. ev_run_id e = run \<and> event_ok e" by blast+
qed

subsection \<open>When a repair succeeds\<close>

definition plain_value :: "pyval \<Rightarrow> bool" where
  "plain_value v \<longleftrightarrow> (case v of PStr s \<Rightarrow> isascii s | PBool _ \<Rightarrow> True | _ \<Rightarrow> False)"

lemma plain_dict_dumps:
  assumes "normalises nfc" and "distinct (map fst d)"
    and "\<forall>(k, v) \<in> set d. k \<noteq> KOther \<and> isascii (key_str k) \<and> plain_value v"
  shows "is_ok (dumps_jcs nfc (PDict d))"
proof (rule ascii_dumps [OF _ assms(1)])
  have "plain_value v \<Longrightarrow> ascii_value v" for v by (cases v) (simp_all add: plain_value_def)
  with assms(2,3) show "ascii_value (PDict d)" by auto
qed

lemma synth_payload_plain:
  assumes "map_of close_map k = Some (ck, tm)"
  shows "distinct (map fst (synth_payload tm i))"
    and "\<forall>(k, v) \<in> set (synth_payload tm i). k \<noteq> KOther \<and> isascii (key_str k) \<and> plain_value v"
proof -
  have h: "isascii (hex i)" by (rule isascii_hex)
  have c: "tm = [] \<or> tm = [(KStr ''status'', PStr ''unknown'')] \<or> tm = [(KStr ''status'', PStr ''timed_out'')] \<or>
    tm = [(KStr ''resolution'', PStr ''interrupted'')]"
    using assms by (auto simp: close_map_def split: if_splits)
  then show "distinct (map fst (synth_payload tm i))" by (elim disjE) (simp_all add: synth_payload_def)
  from c h show "\<forall>(k, v) \<in> set (synth_payload tm i). k \<noteq> KOther \<and> isascii (key_str k) \<and> plain_value v"
    by (elim disjE) (simp_all add: synth_payload_def plain_value_def isascii_def)
qed

lemma close_kind_legal:
  assumes "map_of close_map k = Some (ck, tm)"
  shows "ck \<in> set legal_event_kinds"
proof -
  have "\<forall>(k, ck, tm) \<in> set close_map. ck \<in> set legal_event_kinds" by code_simp
  then show ?thesis using map_of_SomeD [OF assms] by auto
qed

lemma synth_close_succeeds:
  assumes "event_ok e" and "map_of close_map (ev_kind e) \<noteq> None" and "length run = 16" and "length tip = 32"
    and "\<forall>b. length (sha256 b) = 32" and "normalises nfc"
  shows "is_ok (synth_close nfc sha256 run tip e) \<longleftrightarrow> timestamp_ns e < 2 ^ 64 - 1"
proof -
  from assms(2) obtain ck tm where k: "map_of close_map (ev_kind e) = Some (ck, tm)" by auto
  note legal = close_kind_legal [OF k]
  have "utf8_valid ck" by (rule utf8_valid_ascii [OF isascii_legal [OF legal]])
  moreover obtain t where "dumps_jcs nfc (PDict (synth_payload tm (ev_id e))) = Inr t"
    using plain_dict_dumps [OF assms(6) synth_payload_plain [OF k]] by (auto simp: is_ok_iff)
  ultimately show ?thesis
    using assms(1,3-5) legal
    by (auto simp: synth_close_def k Let_def hash_event_def hash_preimage_def event_post_init_def event_ok_def
        derive_synth_id_def)
qed

lemma synth_all_succeeds:
  assumes "\<forall>e \<in> set es. event_ok e \<and> map_of close_map (ev_kind e) \<noteq> None" and "length run = 16" and "length tip = 32"
    and "\<forall>b. length (sha256 b) = 32" and "normalises nfc"
  shows "is_ok (synth_all nfc sha256 run tip es) \<longleftrightarrow> (\<forall>e \<in> set es. timestamp_ns e < 2 ^ 64 - 1)"
  using assms(1,3)
proof (induction es arbitrary: tip)
  case (Cons e es)
  have e: "is_ok (synth_close nfc sha256 run tip e) \<longleftrightarrow> timestamp_ns e < 2 ^ 64 - 1"
    by (rule synth_close_succeeds) (use Cons.prems assms in auto)
  show ?case
  proof (cases "synth_close nfc sha256 run tip e")
    case (Inl x)
    with e show ?thesis by auto
  next
    case (Inr c)
    then have "length (ev_hash c) = 32" using synth_close_ok(5) by (auto simp: event_ok_def)
    with Cons.IH [of "ev_hash c"] Cons.prems have "is_ok (synth_all nfc sha256 run (ev_hash c) es)
      \<longleftrightarrow> (\<forall>e \<in> set es. timestamp_ns e < 2 ^ 64 - 1)" by simp
    with Inr e show ?thesis by (cases "synth_all nfc sha256 run (ev_hash c) es") auto
  qed
qed simp

lemma track_subset: "set (track t e k) \<subseteq> insert e (set (t k))"
  by (auto simp: track_def Let_def dest: subsetD [OF set_pop_first] subsetD [OF set_drop_subset]
      split: option.splits if_splits)

lemma foldl_track_subset: "set (foldl track t es k) \<subseteq> set (t k) \<union> set es"
proof (induction es arbitrary: t)
  case (Cons e es)
  from Cons [of "track t e"] track_subset [of t e k] show ?case by auto
qed simp

lemma still_open_subset: "set (still_open es) \<subseteq> set es"
  using foldl_track_subset [of "\<lambda>_. []" es] by (auto simp: still_open_def open_handles_def Let_def)

subsection \<open>Properties\<close>

text \<open>
  Repair is idempotent: on a repaired list it succeeds, makes no further event and returns the
  same events.
\<close>

theorem repair_idempotent:
  assumes "repair nfc sha256 es = Inr s"
  shows "\<exists>s'. repair nfc sha256 (r_events s) = Inr s' \<and> r_events s' = r_events s \<and>
    r_synthesized s' = [] \<and> r_already_closed s'"
proof -
  from assms obtain cs run tip where "synth_all nfc sha256 run tip (still_open es) = Inr cs" "r_events s = es @ cs"
    by (auto simp: repair_def Let_def rbind_Inr_iff)
  with synth_closes_all nothing_open have "still_open (r_events s) = []" by metis
  then show ?thesis by (simp add: repair_def)
qed

theorem repair_idempotent_witness:
  "\<exists>s s'. repair (\<lambda>s. s) demo_sha [demo_event []] = Inr s \<and> length (r_synthesized s) = 1 \<and>
    repair (\<lambda>s. s) demo_sha (r_events s) = Inr s' \<and> r_events s' = r_events s"
proof -
  have "(case repair (\<lambda>s. s) demo_sha [demo_event []] of Inl _ \<Rightarrow> 0 | Inr s \<Rightarrow> length (r_synthesized s)) = 1"
    by code_simp
  then obtain s where s: "repair (\<lambda>s. s) demo_sha [demo_event []] = Inr s" "length (r_synthesized s) = 1"
    by (auto split: sum.splits)
  with repair_idempotent [OF s(1)] show ?thesis by blast
qed

text \<open>
  Repair extends the log: the events given stay where they are, the ones made follow, and when
  the events given are an intact chain, the chain rebuilt from the result is intact and holds
  exactly the repaired events.
\<close>

theorem repair_extends_chain:
  assumes "repair nfc sha256 es = Inr s" and "es \<noteq> []"
    and "is_ok (append_all nfc sha256 (new_chain (ev_run_id (hd es))) es)"
  shows "\<exists>c. rebuild_chain_from_repaired nfc sha256 s = Inr c \<and> chain_events c = es @ r_synthesized s \<and>
    (\<forall>e \<in> set (r_synthesized s). ev_run_id e = chain_run_id c)"
proof -
  from assms(1,2) obtain cs where cs: "synth_all nfc sha256 (ev_run_id (hd es)) (ev_hash (last es)) (still_open es) = Inr cs"
    and s: "r_events s = es @ cs" "r_synthesized s = cs" by (auto simp: repair_def Let_def rbind_Inr_iff)
  from assms(3) obtain d where d: "append_all nfc sha256 (new_chain (ev_run_id (hd es))) es = Inr d"
    unfolding is_ok_iff by blast
  note gd = append_all_grows [OF d]
  with cs assms(2) have "synth_all nfc sha256 (ev_run_id (hd es)) (tip_hash d) (still_open es) = Inr cs" by simp
  from synth_all_chain [OF this] obtain c where c: "append_all nfc sha256 d cs = Inr c"
    and run: "\<forall>e \<in> set cs. ev_run_id e = ev_run_id (hd es)" unfolding is_ok_iff by blast
  have "append_all nfc sha256 (new_chain (ev_run_id (hd es))) (es @ cs) = Inr c"
    using c d by (simp add: append_all_def rfold_append)
  moreover have "hd (es @ cs) = hd es" using assms(2) by simp
  ultimately have "rebuild_chain_from_repaired nfc sha256 s = Inr c"
    using s assms(2) by (simp add: rebuild_chain_from_repaired_def)
  moreover have "chain_run_id c = ev_run_id (hd es)" "chain_events c = es @ cs"
    using append_all_grows [OF c] gd by (simp_all add: new_chain_def)
  ultimately show ?thesis using s run by metis
qed

theorem repair_extends_chain_witness:
  "\<exists>s c. repair (\<lambda>s. s) demo_sha [demo_event []] = Inr s \<and>
    rebuild_chain_from_repaired (\<lambda>s. s) demo_sha s = Inr c \<and> hd (chain_events c) = demo_event []"
proof -
  have "is_ok (repair (\<lambda>s. s) demo_sha [demo_event []])" by code_simp
  then obtain s where s: "repair (\<lambda>s. s) demo_sha [demo_event []] = Inr s" unfolding is_ok_iff by blast
  have "is_ok (append_all (\<lambda>s. s) demo_sha (new_chain (ev_run_id (hd [demo_event []]))) [demo_event []])" by code_simp
  with repair_extends_chain [OF s] s show ?thesis by force
qed

text \<open>
  When repair raises: on events that passed their own checks it returns exactly when no handle
  it has to close was opened at the last representable nanosecond, since the close is dated one
  nanosecond later.
\<close>

theorem repair_returns_iff:
  assumes "\<forall>e \<in> set es. event_ok e" and "\<forall>b. length (sha256 b) = 32" and "normalises nfc"
  shows "is_ok (repair nfc sha256 es) \<longleftrightarrow> (\<forall>e \<in> set (still_open es). timestamp_ns e < 2 ^ 64 - 1)"
proof -
  let ?tip = "if es = [] then zero_bytes 32 else ev_hash (last es)"
  let ?run = "if es = [] then zero_bytes 16 else ev_run_id (hd es)"
  have "length ?tip = 32" "length ?run = 16"
    using assms(1) by (simp_all add: zero_bytes_def event_ok_def)
  moreover have "\<forall>e \<in> set (still_open es). event_ok e \<and> map_of close_map (ev_kind e) \<noteq> None"
    using assms(1) still_open_subset handle_kinds by blast
  ultimately have "is_ok (synth_all nfc sha256 ?run ?tip (still_open es)) \<longleftrightarrow>
      (\<forall>e \<in> set (still_open es). timestamp_ns e < 2 ^ 64 - 1)"
    using assms(2,3) synth_all_succeeds by blast
  then show ?thesis
    by (cases "synth_all nfc sha256 ?run ?tip (still_open es)") (simp_all add: repair_def Let_def)
qed

theorem repair_returns_iff_witness:
  "\<not> is_ok (repair (\<lambda>s. s) demo_sha [(demo_event [])\<lparr>timestamp_ns := 2 ^ 64 - 1\<rparr>])"
proof -
  have "event_ok ((demo_event [])\<lparr>timestamp_ns := 2 ^ 64 - 1\<rparr>)" by code_simp
  moreover have "still_open [(demo_event [])\<lparr>timestamp_ns := 2 ^ 64 - 1\<rparr>] = [(demo_event [])\<lparr>timestamp_ns := 2 ^ 64 - 1\<rparr>]"
    by (simp add: still_open_def open_handles_def close_map_def track_def demo_event_def)
  ultimately show ?thesis
    using repair_returns_iff [of "[(demo_event [])\<lparr>timestamp_ns := 2 ^ 64 - 1\<rparr>]" demo_sha "\<lambda>s. s"] normalises_id
    by (simp add: demo_sha_def)
qed

text \<open>
  Closes are paired by kind and age alone: when two steps are open and the later one is
  committed, it is the earlier one that counts as closed, and the committed step is the one a
  rolled-back event is made for.
\<close>

theorem repair_pairs_by_age:
  assumes "ev_kind a = ''step.started''" and "ev_kind b = ''step.started''" and "ev_kind c = ''step.committed''"
    and "get_value (ev_payload c) ''source_event_id'' = PNone" and "ev_step_id c = ev_step_id b"
    and "ev_step_id a \<noteq> ev_step_id b" and "repair nfc sha256 [a, b, c] = Inr s"
  shows "\<exists>d. r_synthesized s = [d] \<and> ev_kind d = ''step.rolled_back'' \<and> ev_step_id d = ev_step_id c"
proof -
  have "still_open [a, b, c] = [b]"
    using assms(1-4) by (simp add: still_open_def open_handles_def close_map_def close_kinds_def track_def)
  with assms(7) obtain d run tip where d: "synth_close nfc sha256 run tip b = Inr d" "r_synthesized s = [d]"
    by (auto simp: repair_def Let_def rbind_Inr_iff)
  have "ev_kind d = ''step.rolled_back''" "ev_step_id d = ev_step_id b"
    using d(1) assms(2)
    by (auto simp: synth_close_def close_map_def Let_def rbind_Inr_iff event_post_init_def split: if_splits)
  with d(2) assms(5) show ?thesis by simp
qed

theorem repair_pairs_by_age_witness:
  "\<exists>s d. repair (\<lambda>s. s) demo_sha
      [(demo_event [])\<lparr>ev_kind := ''step.started'', ev_step_id := Some (replicate 16 (CHR ''a''))\<rparr>,
       (demo_event [])\<lparr>ev_kind := ''step.started'', ev_step_id := Some (replicate 16 (CHR ''b''))\<rparr>,
       (demo_event [])\<lparr>ev_kind := ''step.committed'', ev_step_id := Some (replicate 16 (CHR ''b''))\<rparr>] = Inr s \<and>
    r_synthesized s = [d] \<and> ev_step_id d = Some (replicate 16 (CHR ''b''))"
proof -
  let ?a = "(demo_event [])\<lparr>ev_kind := ''step.started'', ev_step_id := Some (replicate 16 (CHR ''a''))\<rparr>"
  let ?b = "(demo_event [])\<lparr>ev_kind := ''step.started'', ev_step_id := Some (replicate 16 (CHR ''b''))\<rparr>"
  let ?c = "(demo_event [])\<lparr>ev_kind := ''step.committed'', ev_step_id := Some (replicate 16 (CHR ''b''))\<rparr>"
  have "is_ok (repair (\<lambda>s. s) demo_sha [?a, ?b, ?c])" by code_simp
  then obtain s where s: "repair (\<lambda>s. s) demo_sha [?a, ?b, ?c] = Inr s" unfolding is_ok_iff by blast
  from repair_pairs_by_age [OF _ _ _ _ _ _ s] obtain d where "r_synthesized s = [d]" "ev_step_id d = ev_step_id ?c"
    by (auto simp: demo_event_def get_value_def get_default_def)
  with s show ?thesis by auto
qed

end
