(* ===== verification/JsonText.thy ===== *)
theory JsonText
  imports Canonical
begin

section \<open>\<open>json.dumps\<close> and base64\<close>

text \<open>
  What the policy code uses of the standard library's \<open>json\<close> and \<open>base64\<close>: \<open>json.dumps\<close> of a
  list of strings and, with \<open>indent=2\<close>, of an object of strings, in ASCII; \<open>b64encode\<close>, and
  \<open>b64decode\<close> with \<open>validate=True\<close>. Texts are UTF-8 bytes, as in \<open>PyText\<close>.
\<close>

subsection \<open>Base64\<close>

definition b64_char :: "nat \<Rightarrow> char" where
  "b64_char n =
    (if n < 26 then char_of (65 + n) else if n < 52 then char_of (71 + n)
     else if n < 62 then char_of (n - 4) else if n = 62 then CHR ''+'' else CHR ''/'')"

definition b64_val :: "char \<Rightarrow> nat option" where
  "b64_val c =
    (let n = code c in
     if 65 \<le> n \<and> n \<le> 90 then Some (n - 65) else if 97 \<le> n \<and> n \<le> 122 then Some (n - 71)
     else if 48 \<le> n \<and> n \<le> 57 then Some (n + 4) else if c = CHR ''+'' then Some 62
     else if c = CHR ''/'' then Some 63 else None)"

definition pad :: char where
  "pad = CHR ''=''"

fun b64encode :: "string \<Rightarrow> string" where
  "b64encode [] = []"
| "b64encode [a] = [b64_char (code a div 4), b64_char (code a mod 4 * 16), pad, pad]"
| "b64encode [a, b] =
    [b64_char (code a div 4), b64_char (code a mod 4 * 16 + code b div 16), b64_char (code b mod 16 * 4), pad]"
| "b64encode (a # b # c # s) =
    [b64_char (code a div 4), b64_char (code a mod 4 * 16 + code b div 16),
     b64_char (code b mod 16 * 4 + code c div 64), b64_char (code c mod 64)] @ b64encode s"

text \<open>Groups of four; padding ends the text, and the bits it leaves over are ignored.\<close>

fun b64decode :: "string \<Rightarrow> string option" where
  "b64decode [] = Some []"
| "b64decode (w # x # y # z # s) =
    (case (b64_val w, b64_val x) of
       (Some i, Some j) \<Rightarrow>
         let first = char_of (i * 4 + j div 16) in
         if z = pad then
           (if s \<noteq> [] then None
            else if y = pad then Some [first]
            else map_option (\<lambda>k. [first, char_of (j mod 16 * 16 + k div 4)]) (b64_val y))
         else
           (case (b64_val y, b64_val z) of
              (Some k, Some l) \<Rightarrow>
                map_option (\<lambda>r. [first, char_of (j mod 16 * 16 + k div 4), char_of (k mod 4 * 64 + l)] @ r) (b64decode s)
            | _ \<Rightarrow> None)
     | _ \<Rightarrow> None)"
| "b64decode _ = None"

lemma b64_val_char: "n < 64 \<Longrightarrow> b64_val (b64_char n) = Some n"
  by (auto simp: b64_val_def b64_char_def Let_def char_of_eq_iff)

lemma b64_char_not_pad: "n < 64 \<Longrightarrow> b64_char n \<noteq> pad"
  using b64_val_char [of n] by (auto simp: pad_def b64_val_def)

lemma div_lt: "code c div 16 < 16" "code c div 64 < 4" "code c div 4 < 64"
  using code_less_256 [of c] by (simp_all add: less_mult_imp_div_less)

lemma code_parts:
  "code a div 4 < 64" "code a mod 4 * 16 + code b div 16 < 64" "code b mod 16 * 4 + code c div 64 < 64"
  "code c mod 64 < 64" "code a mod 4 * 16 < 64" "code b mod 16 * 4 < 64"
proof -
  have m: "code a mod 4 < 4" "code b mod 16 < 16" by simp_all
  show "code a div 4 < 64" by (rule div_lt)
  show "code a mod 4 * 16 + code b div 16 < 64" using m(1) div_lt(1) [of b] by linarith
  show "code b mod 16 * 4 + code c div 64 < 64" using m(2) div_lt(2) [of c] by linarith
  show "code a mod 4 * 16 < 64" "code b mod 16 * 4 < 64" using m by linarith+
qed simp

lemma split16: "x < 16 \<Longrightarrow> (r * 16 + x) div 16 = r" "x < 16 \<Longrightarrow> (r * 16 + x) mod 16 = (x :: nat)"
  and split4: "x < 4 \<Longrightarrow> (r * 4 + x) div 4 = r" "x < 4 \<Longrightarrow> (r * 4 + x) mod 4 = (x :: nat)"
  by simp_all

lemma code_joins:
  "code a div 4 * 4 + (code a mod 4 * 16 + code b div 16) div 16 = code a"
  "code a div 4 * 4 + code a mod 4 * 16 div 16 = code a"
  "(code a mod 4 * 16 + code b div 16) mod 16 * 16 + (code b mod 16 * 4 + code c div 64) div 4 = code b"
  "(code a mod 4 * 16 + code b div 16) mod 16 * 16 + code b mod 16 * 4 div 4 = code b"
  "(code b mod 16 * 4 + code c div 64) mod 4 * 64 + code c mod 64 = code c"
  unfolding split16 [OF div_lt(1)] split4 [OF div_lt(2)] by simp_all

lemma b64_groups:
  "b64_val (b64_char (code a div 4)) = Some (code a div 4)"
  "b64_val (b64_char (code a mod 4 * 16 + code b div 16)) = Some (code a mod 4 * 16 + code b div 16)"
  "b64_val (b64_char (code b mod 16 * 4 + code c div 64)) = Some (code b mod 16 * 4 + code c div 64)"
  "b64_val (b64_char (code c mod 64)) = Some (code c mod 64)"
  "b64_val (b64_char (code a mod 4 * 16)) = Some (code a mod 4 * 16)"
  "b64_val (b64_char (code b mod 16 * 4)) = Some (code b mod 16 * 4)"
  "b64_char (code c mod 64) \<noteq> pad" "b64_char (code b mod 16 * 4) \<noteq> pad"
  by (rule b64_val_char b64_char_not_pad, rule code_parts)+

lemma b64decode_encode: "b64decode (b64encode s) = Some s"
proof (induction s rule: b64encode.induct)
  case (2 a)
  show ?case unfolding b64encode.simps b64decode.simps b64_groups Let_def prod.case option.case code_joins by simp
next
  case (3 a b)
  show ?case
    unfolding b64encode.simps b64decode.simps b64_groups Let_def prod.case option.case code_joins
    by (simp only: b64_groups if_False if_True refl option.map code_joins char_of_char simp_thms)
next
  case (4 a b c s)
  then show ?case
    unfolding b64encode.simps b64decode.simps append_Cons append_Nil
    by (simp only: b64_groups Let_def prod.case option.case if_False option.map code_joins char_of_char append_Cons append_Nil)
qed simp

subsection \<open>\<open>json.dumps\<close>\<close>

definition u_escape :: "nat \<Rightarrow> string" where
  "u_escape n = [CHR 0x5C, CHR ''u'', hex_digit (n div 4096), hex_digit (n div 256 mod 16),
     hex_digit (n div 16 mod 16), hex_digit (n mod 16)]"

text \<open>A character outside ASCII is its code point, above U+FFFF a surrogate pair.\<close>

fun json_escape :: "string \<Rightarrow> string" where
  "json_escape [] = []"
| "json_escape (a # s) =
    (if code a < 127 then escape_char a @ json_escape s
     else if code a = 127 then u_escape 127 @ json_escape s
     else if code a < 224 then
       (case s of b # t \<Rightarrow> u_escape ((code a - 192) * 64 + (code b - 128)) @ json_escape t | [] \<Rightarrow> [])
     else if code a < 240 then
       (case s of
          b # c # t \<Rightarrow> u_escape ((code a - 224) * 4096 + (code b - 128) * 64 + (code c - 128)) @ json_escape t
        | _ \<Rightarrow> [])
     else
       (case s of
          b # c # d # t \<Rightarrow>
            (let n = (code a - 240) * 262144 + (code b - 128) * 4096 + (code c - 128) * 64 + (code d - 128) - 0x10000
             in u_escape (0xD800 + n div 1024) @ u_escape (0xDC00 + n mod 1024) @ json_escape t)
        | _ \<Rightarrow> []))"

definition json_string :: "string \<Rightarrow> string" where
  "json_string s = quote # json_escape s @ [quote]"

definition dumps_strings :: "string list \<Rightarrow> string" where
  "dumps_strings ds = ''['' @ join '', '' (map json_string ds) @ '']''"

definition indented_member :: "string \<times> string \<Rightarrow> string" where
  "indented_member kv = newline # ''  '' @ json_string (fst kv) @ '': '' @ json_string (snd kv)"

definition dumps_indented :: "(string \<times> string) list \<Rightarrow> string" where
  "dumps_indented kvs =
    (if kvs = [] then ''{}'' else ''{'' @ join '','' (map indented_member kvs) @ newline # ''}'')"

text \<open>Texts in printable ASCII, or with control characters, are read back.\<close>

definition below_del :: "string \<Rightarrow> bool" where
  "below_del s \<longleftrightarrow> (\<forall>c \<in> set s. code c < 127)"

lemma json_escape_ascii: "below_del s \<Longrightarrow> json_escape s = concat (map escape_char s)"
  by (induction s) (simp_all add: below_del_def)

lemma scan_json: "below_del s \<Longrightarrow> scan_string (json_escape s @ quote # r) = Some (s, r)"
  by (simp add: json_escape_ascii scan_string_encoded)

lemma parse_json_string: "below_del s \<Longrightarrow> parse_value fl (Suc f) (json_string s @ r) = Some (PStr s, r)"
  by (simp add: json_string_def scan_json parse_value.simps)

lemma spaces [simp]: "is_space (CHR '' '')" "is_space newline"
  by (simp_all add: is_space_def newline_def)

lemma skip_json_string: "skip_ws (json_string s @ r) = json_string s @ r"
  by (simp add: json_string_def)

lemma parse_strings:
  assumes "ds \<noteq> []" and "\<forall>d \<in> set ds. below_del d" and "length ds < f"
  shows "parse_elems fl f (join '', '' (map json_string ds) @ CHR '']'' # r) = Some (map PStr ds, r)"
  using assms
proof (induction ds arbitrary: f)
  case (Cons d ds)
  obtain f' where f: "f = Suc (Suc f')" using Cons.prems(3) by (cases f; cases "f - 1") auto
  note v = parse_json_string [of d fl f']
  show ?case
  proof (cases "ds = []")
    case True
    with Cons.prems(2) v [of "CHR '']'' # r"] show ?thesis by (simp add: f parse_elems.simps)
  next
    case False
    let ?rest = "join '', '' (map json_string ds) @ CHR '']'' # r"
    have ws: "skip_ws (CHR '' '' # ?rest) = ?rest"
      using False by (cases ds; cases "tl ds") (simp_all add: skip_json_string is_space_def)
    have "parse_elems fl (Suc f') ?rest = Some (map PStr ds, r)"
      using Cons.IH [of "Suc f'"] False Cons.prems f by simp
    moreover have "parse_value fl (Suc f') (json_string d @ CHR '','' # CHR '' '' # ?rest) = Some (PStr d, CHR '','' # CHR '' '' # ?rest)"
      using v Cons.prems(2) by simp
    moreover have "skip_ws ?rest = ?rest" using ws by simp
    ultimately show ?thesis
      using False unfolding f by (subst parse_elems.simps(2)) (simp add: join_Cons)
  qed
qed simp

lemma length_joined: "\<forall>p \<in> set ps. p \<noteq> [] \<Longrightarrow> length ps \<le> length (join sep ps)"
proof (induction ps)
  case (Cons p ps)
  then have "Suc 0 \<le> length p" "length ps \<le> length (join sep ps)" by (cases p; simp)+
  then show ?case by (cases "ps = []"; cases p) (simp_all add: join_Cons)
qed simp

lemma json_string_nonempty [simp]: "json_string s \<noteq> []"
  by (simp add: json_string_def)

lemma loads_dumps_strings:
  assumes "\<forall>d \<in> set ds. below_del d"
  shows "json_loads fl (dumps_strings ds) = Some (PList (map PStr ds))"
proof (cases "ds = []")
  case True
  then show ?thesis by (simp add: dumps_strings_def json_loads_def parse_value.simps numeral_eq_Suc)
next
  case False
  let ?j = "join '', '' (map json_string ds)"
  have p: "parse_elems fl f (?j @ CHR '']'' # []) = Some (map PStr ds, [])" if "length ds < f" for f
    using parse_strings [OF False assms that, of fl "[]"] by simp
  obtain t where t: "?j @ '']'' = quote # t"
    using False by (cases ds; cases "tl ds") (simp_all add: json_string_def)
  then have "skip_ws (?j @ '']'') = ?j @ '']''" by simp
  moreover have "length ds < 2 * length (dumps_strings ds) + 1"
    using length_joined [of "map json_string ds" "'', ''"] by (simp add: dumps_strings_def)
  ultimately show ?thesis
    using p [of "2 * length (dumps_strings ds) + 1"] t
    by (simp add: json_loads_def dumps_strings_def parse_value.simps)
qed

text \<open>An indented object: white space before and after each member.\<close>

lemma skip_indent: "skip_ws (newline # CHR '' '' # CHR '' '' # json_string s @ r) = json_string s @ r"
  by (simp add: is_space_def newline_def skip_json_string)

lemma parse_indented:
  assumes "kvs \<noteq> []" and "\<forall>kv \<in> set kvs. below_del (fst kv) \<and> below_del (snd kv)" and "length kvs < f"
  shows "parse_members fl f (skip_ws (join '','' (map indented_member kvs) @ newline # CHR ''}'' # r))
    = Some (map (\<lambda>(k, v). (k, PStr v)) kvs, r)"
  using assms
proof (induction kvs arbitrary: f)
  case (Cons kv kvs)
  obtain k v where kv: "kv = (k, v)" by (cases kv)
  have kd: "below_del k" and vd: "below_del v" using Cons.prems(2) by (simp_all add: kv)
  obtain f' where f: "f = Suc (Suc f')" using Cons.prems(3) by (cases f; cases "f - 1") auto
  have sk: "skip_ws (indented_member kv @ r') = quote # json_escape k @ quote # CHR '':'' # CHR '' '' # json_string v @ r'" for r'
    using skip_indent [of k "'': '' @ json_string v @ r'"] by (simp add: indented_member_def kv json_string_def)
  have sp: "skip_ws (CHR '' '' # json_string v @ r') = json_string v @ r'" for r'
    by (simp add: is_space_def skip_json_string)
  note val = parse_json_string [OF vd, of fl f']
  show ?case
  proof (cases "kvs = []")
    case True
    then show ?thesis
      by (simp add: f kv parse_members.simps sk [unfolded kv] scan_json kd skip_json_string val)
  next
    case False
    let ?rest = "join '','' (map indented_member kvs) @ newline # CHR ''}'' # r"
    have "parse_members fl (Suc f') (skip_ws ?rest) = Some (map (\<lambda>(k, v). (k, PStr v)) kvs, r)"
      using Cons.IH [of "Suc f'"] False Cons.prems f by simp
    with False show ?thesis
      unfolding f by (subst parse_members.simps(2)) (simp add: kv join_Cons sk [unfolded kv] scan_json kd skip_json_string val)
  qed
qed simp

lemma loads_dumps_indented:
  assumes "kvs \<noteq> []" and "\<forall>kv \<in> set kvs. below_del (fst kv) \<and> below_del (snd kv)"
  shows "json_loads fl (dumps_indented kvs) = Some (PDict (dict_of_pairs (map (\<lambda>(k, v). (k, PStr v)) kvs)))"
proof -
  let ?j = "join '','' (map indented_member kvs) @ newline # ''}''"
  obtain k v kvs' where c: "kvs = (k, v) # kvs'" using assms(1) by (cases kvs) auto
  have "\<exists>t. ?j = newline # CHR '' '' # CHR '' '' # quote # t"
    by (cases kvs') (simp_all add: c indented_member_def json_string_def join_Cons)
  then obtain t where "?j = newline # CHR '' '' # CHR '' '' # quote # t" by blast
  then have t: "skip_ws ?j = quote # t" by simp
  have "length kvs \<le> length ?j"
    using length_joined [of "map indented_member kvs" "'',''"] by (simp add: indented_member_def)
  then have "parse_members fl (2 * length (dumps_indented kvs) + 1) (skip_ws ?j)
      = Some (map (\<lambda>(k, v). (k, PStr v)) kvs, [])"
    using assms(1) by (intro parse_indented [OF assms]) (simp add: dumps_indented_def)
  then show ?thesis
    using assms(1) t by (simp add: json_loads_def dumps_indented_def parse_value.simps)
qed

subsection \<open>What is written is ASCII\<close>

lemma escape_char_ascii: "code c < 127 \<Longrightarrow> \<forall>d \<in> set (escape_char c). code d < 127"
proof -
  have h: "code (hex_digit n) < 127" if "n < 16" for n using that by (auto simp: hex_digit_def)
  assume "code c < 127"
  then show ?thesis
    using h [OF code_nibbles(1)] h [OF code_nibbles(2)] by (auto simp: escape_char_def escape_map_def)
qed

lemma below_del_json: "below_del s \<Longrightarrow> below_del (json_string s)"
  using escape_char_ascii by (auto simp: below_del_def json_string_def json_escape_ascii [unfolded below_del_def] quote_def)

lemma below_del_append [simp]: "below_del (a @ b) \<longleftrightarrow> below_del a \<and> below_del b"
  by (auto simp: below_del_def)

lemma below_del_join: "below_del j \<Longrightarrow> \<forall>p \<in> set ps. below_del p \<Longrightarrow> below_del (join j ps)"
proof (induction ps)
  case (Cons p ps)
  then show ?case by (cases "ps = []") (simp_all add: join_Cons)
qed (simp add: below_del_def)

lemma utf8_below_del: "below_del s \<Longrightarrow> utf8_valid s"
  by (rule utf8_valid_ascii) (force simp: below_del_def isascii_def)

lemma utf8_dumps_strings: "\<forall>d \<in> set ds. below_del d \<Longrightarrow> utf8_valid (dumps_strings ds)"
proof (rule utf8_below_del)
  assume "\<forall>d \<in> set ds. below_del d"
  then have "below_del (join '', '' (map json_string ds))"
    by (intro below_del_join) (auto simp: below_del_json, simp add: below_del_def)
  moreover have "below_del ''[''" "below_del '']''" by (simp_all add: below_del_def)
  ultimately show "below_del (dumps_strings ds)" by (simp only: dumps_strings_def below_del_append simp_thms)
qed

lemma utf8_dumps_indented:
  "\<forall>kv \<in> set kvs. below_del (fst kv) \<and> below_del (snd kv) \<Longrightarrow> utf8_valid (dumps_indented kvs)"
proof (rule utf8_below_del)
  assume a: "\<forall>kv \<in> set kvs. below_del (fst kv) \<and> below_del (snd kv)"
  have "below_del (indented_member kv)" if "kv \<in> set kvs" for kv
  proof -
    have "indented_member kv = ([newline] @ ''  '') @ json_string (fst kv) @ '': '' @ json_string (snd kv)"
      by (simp add: indented_member_def)
    moreover have "below_del ([newline] @ ''  '')" "below_del '': ''" by (simp_all add: below_del_def newline_def)
    ultimately show ?thesis using a that by (simp only: below_del_append below_del_json simp_thms)
  qed
  then have j: "below_del (join '','' (map indented_member kvs))"
    by (intro below_del_join) (auto simp: below_del_def)
  have "below_del ''{''" "below_del (newline # ''}'')" "below_del ''{}''" by (simp_all add: below_del_def newline_def)
  with j show "below_del (dumps_indented kvs)" by (simp only: dumps_indented_def below_del_append simp_thms split: if_split)
qed

lemma below_del_hex [simp]: "below_del (hex s)"
  using set_hex [of _ s] by (force simp: below_del_def)

lemma below_del_b64: "below_del (b64encode s)"
proof -
  have c: "code (b64_char n) < 127" if "n < 64" for n using that by (auto simp: b64_char_def)
  have "code pad < 127" by (simp add: pad_def)
  then show ?thesis
    by (induction s rule: b64encode.induct)
      (simp_all only: below_del_def b64encode.simps list.set ball_simps append_Cons append_Nil c code_parts simp_thms
        insert_iff True_implies_equals)
qed

end
