(* ===== verification/Allowlist.thy ===== *)
theory Allowlist
  imports JsonTail Matcher JsonText
begin

section \<open>Entry points and session answers\<close>

text \<open>
  The model of \<open>src/ract/policy/allowlist.py\<close> and of \<open>is_test_file\<close> in
  \<open>src/ract/import_check.py\<close>: which files decide what an allowed command runs, their digests
  when a grant is signed and now, the differences that put a command back to the question, and
  the answers kept for a session. What \<open>git ls-files -z\<close> prints, what is at each listed path
  and whether the deadline has passed at the n-th path are the record \<open>tree\<close>; the records
  of the signed grants are a map from the grant's digest to a file.
\<close>

subsection \<open>Entry points\<close>

definition runner_files :: "string list" where
  "runner_files = [''conftest.py'', ''pytest.ini'', ''.pytest.ini'', ''pytest.toml'', ''pyproject.toml'', ''tox.ini'',
    ''setup.cfg'', ''setup.py'', ''noxfile.py'', ''mypy.ini'', ''.mypy.ini'', ''.flake8'', ''ruff.toml'', ''.ruff.toml'',
    ''Makefile'', ''makefile'', ''GNUmakefile'', ''Cargo.toml'', ''build.rs'', ''package.json'', ''tsconfig.json'']"

definition config_prefixes :: "string list" where
  "config_prefixes = [''jest.config.'', ''vitest.config.'', ''eslint.config.'', ''.eslintrc'', ''prettier.config.'',
    ''.prettierrc'', ''babel.config.'', ''.babelrc'']"

definition js_test :: "string list" where
  "js_test = [''.test.'', ''.spec.'']"

definition js_suffixes :: "string list" where
  "js_suffixes = [''.js'', ''.jsx'', ''.ts'', ''.tsx'', ''.mjs'', ''.cjs'']"

definition linked :: string where
  "linked = ''a link: what it points at decides what runs''"

definition written_by_model :: string where
  "written_by_model = ''written by the model this session''"

definition changed :: string where
  "changed = ''changed since the grant was signed''"

definition unknown :: string where
  "unknown = ''the project'' @ [CHR 0x27] @ ''s entry points could not be listed''"

definition named_outside :: string where
  "named_outside = ''named by the command, in a folder the signed record does not cover''"

definition not_collected :: "string list" where
  "not_collected = [''node_modules'', ''venv'', ''build'', ''dist'', ''site-packages'', ''__pycache__'', ''_darcs'', ''CVS'']"

text \<open>\<open>p in s\<close> on texts, and \<open>Path(s).parts\<close>.\<close>

fun occurs :: "string \<Rightarrow> string \<Rightarrow> bool" where
  "occurs p [] = (p = [])"
| "occurs p (a # s) = (startswith (a # s) p \<or> occurs p s)"

definition all_parts :: "string \<Rightarrow> string list" where
  "all_parts s = (if path_root s = [] then [] else [path_root s]) @ path_parts s"

definition collected :: "string \<Rightarrow> bool" where
  "collected rel =
    (\<not> (\<exists>part \<in> set (butlast (all_parts rel)).
        startswith part ''.'' \<or> part \<in> set not_collected \<or> endswith part ''.egg''))"

definition is_test_file :: "string \<Rightarrow> bool" where
  "is_test_file path =
    (let posix = slashed path; name = last (split_on sep posix) in
     if \<not> endswith name ''.py'' \<or> name = ''__init__.py'' \<or> name = ''conftest.py'' then False
     else startswith name ''test_'' \<or> endswith name ''_test.py'' \<or> occurs ''/tests/'' (sep # posix) \<or>
       occurs ''/test/'' (sep # posix))"

definition is_entry_point :: "textops \<Rightarrow> string \<Rightarrow> bool" where
  "is_entry_point ops path =
    (let folded = op_casefold ops (slashed path); name = path_name folded in
     if name \<in> set (map (op_casefold ops) runner_files) \<or> (\<exists>p \<in> set config_prefixes. startswith name p) \<or>
       is_test_file folded then True
     else if length (all_parts folded) = 1 \<and> endswith name ''.py'' then True
     else if (\<exists>x \<in> set js_suffixes. endswith name x) \<and>
       ((\<exists>m \<in> set js_test. occurs m name) \<or> ''__tests__'' \<in> set (all_parts folded)) then True
     else False)"

subsection \<open>The digests of the entry points\<close>

definition max_entry_points :: nat where
  "max_entry_points = 5000"

definition max_entry_bytes :: nat where
  "max_entry_bytes = 64 * 1024 * 1024"

text \<open>
  What is at a path: a link, nothing that is a file, an error of \<open>lstat\<close> or \<open>stat\<close>, a file of a
  size that cannot be read, a file.
\<close>

datatype entry_file = EntryLink | EntryNone | EntryError | EntryUnreadable nat | EntryFile string

record tree =
  listing :: "string option"
  entry_at :: "string \<Rightarrow> entry_file"
  late :: "nat \<Rightarrow> bool"

record entry_env =
  ent_ops :: textops
  ent_nfc :: "string \<Rightarrow> string"
  ent_fl :: "string \<Rightarrow> pyfloat"
  ent_sha :: "string \<Rightarrow> string"

definition hexdigest :: "entry_env \<Rightarrow> string \<Rightarrow> string" where
  "hexdigest env b = hex (ent_sha env b)"

definition counts :: "entry_env \<Rightarrow> string \<Rightarrow> bool" where
  "counts env rel \<longleftrightarrow> rel \<noteq> [] \<and> is_entry_point (ent_ops env) rel \<and> collected rel"

text \<open>The loop over the listing: the position, the digests so far, the bytes read so far.\<close>

fun digest_loop ::
    "entry_env \<Rightarrow> tree \<Rightarrow> nat \<Rightarrow> (string, string) dict \<Rightarrow> nat \<Rightarrow> string list \<Rightarrow> (string, string) dict option" where
  "digest_loop env tr i digests got [] = Some digests"
| "digest_loop env tr i digests got (raw # raws) =
    (let rel = decode_replace raw in
     if \<not> counts env rel then digest_loop env tr (Suc i) digests got raws
     else if max_entry_points \<le> length digests then None
     else if late tr i then None
     else case entry_at tr rel of
       EntryLink \<Rightarrow> digest_loop env tr (Suc i) (AList.update rel linked digests) got raws
     | EntryNone \<Rightarrow> digest_loop env tr (Suc i) digests got raws
     | EntryError \<Rightarrow> digest_loop env tr (Suc i) digests got raws
     | EntryUnreadable n \<Rightarrow>
         if max_entry_bytes < got + n then None else digest_loop env tr (Suc i) digests (got + n) raws
     | EntryFile b \<Rightarrow>
         if max_entry_bytes < got + length b then None
         else digest_loop env tr (Suc i) (AList.update rel (hexdigest env b) digests) (got + length b) raws)"

definition listed_paths :: "string \<Rightarrow> string list" where
  "listed_paths out = split_on (CHR 0x00) out"

definition entry_point_digests :: "entry_env \<Rightarrow> tree \<Rightarrow> (string, string) dict option" where
  "entry_point_digests env tr =
    (case listing tr of None \<Rightarrow> None | Some out \<Rightarrow> digest_loop env tr 0 [] 0 (listed_paths out))"

subsection \<open>The record of a signing\<close>

type_synonym records = "string \<Rightarrow> disk_file"

definition digests_value :: "(string, string) dict \<Rightarrow> payload" where
  "digests_value ds = map (\<lambda>(p, d). (KStr p, PStr d)) ds"

text \<open>
  \<open>record_signed\<close>: only an \<open>OSError\<close> is caught, so an error of the encoder is raised; the
  folder above the record can be made (\<open>can_mkdir\<close>) or the error is printed.
\<close>

definition record_signed ::
    "entry_env \<Rightarrow> bool \<Rightarrow> tree \<Rightarrow> string \<Rightarrow> records \<Rightarrow> (jcs_error + unit) \<times> records" where
  "record_signed env can_mkdir tr digest recs =
    (if \<not> can_mkdir then (Inr (), recs)
     else case entry_point_digests env tr of
       None \<Rightarrow> (Inr (), recs)
     | Some ds \<Rightarrow>
         (case dumps_jcs (ent_nfc env) (PDict (digests_value ds)) of
            Inl e \<Rightarrow> (Inl e, recs)
          | Inr t \<Rightarrow>
              (case write_atomic (recs digest) t of
                 Inl e \<Rightarrow> (Inr (), recs)
               | Inr f \<Rightarrow> (Inr (), recs(digest := f)))))"

definition signed_digests :: "entry_env \<Rightarrow> records \<Rightarrow> string option \<Rightarrow> payload option" where
  "signed_digests env recs digest =
    (case digest of
       None \<Rightarrow> None
     | Some d \<Rightarrow>
         if d = [] then None
         else case recs d of
           Content b \<Rightarrow>
             (case loads_jcs (ent_fl env) b of Some (PDict p) \<Rightarrow> Some p | _ \<Rightarrow> None)
         | _ \<Rightarrow> None)"

subsection \<open>What changed\<close>

datatype change = Change (change_path: string) (change_reason: string)

fun before_colons :: "string \<Rightarrow> string" where
  "before_colons [] = []"
| "before_colons (a # s) = (if startswith (a # s) ''::'' then [] else a # before_colons s)"

definition strip_slashes :: "string \<Rightarrow> string" where
  "strip_slashes s = rev (dropWhile (\<lambda>c. c = sep) (rev (dropWhile (\<lambda>c. c = sep) s)))"

definition named_path :: "string \<Rightarrow> string" where
  "named_path token = strip_slashes (slashed (before_colons token))"

definition named_uncovered :: "string list \<Rightarrow> string list" where
  "named_uncovered argv =
    filter (\<lambda>rel. rel \<noteq> [] \<and> \<not> collected (rel @ ''/x''))
      (map named_path (filter (\<lambda>t. t \<noteq> [] \<and> \<not> dashed t) (drop 1 argv)))"

definition now_value :: "(string, string) dict \<Rightarrow> string \<Rightarrow> pyval" where
  "now_value now p = (case map_of now p of None \<Rightarrow> PNone | Some d \<Rightarrow> PStr d)"

definition sorted_set :: "string list \<Rightarrow> string list" where
  "sorted_set xs = sort (remdups xs)"

text \<open>The comparison of one path, unless it is shown already.\<close>

definition compare_path :: "(string, string) dict \<Rightarrow> payload \<Rightarrow> string list \<Rightarrow> string \<Rightarrow> change list" where
  "compare_path now signed shown p =
    (if p \<in> set shown then []
     else if map_of now p = Some linked then [Change p linked]
     else if now_value now p \<noteq> get_value signed p then [Change p changed]
     else [])"

definition changed_entry_points ::
    "entry_env \<Rightarrow> tree \<Rightarrow> records \<Rightarrow> string option \<Rightarrow> string list \<Rightarrow> string list \<Rightarrow> change list" where
  "changed_entry_points env tr recs digest model_written argv =
    (let changes =
           map (\<lambda>p. Change p written_by_model) (filter (is_entry_point (ent_ops env)) (sorted_set model_written)) @
           map (\<lambda>p. Change p named_outside) (named_uncovered argv);
         shown = map change_path changes
     in case entry_point_digests env tr of
          None \<Rightarrow> changes @ [Change ''.'' unknown]
        | Some now \<Rightarrow>
            (case signed_digests env recs digest of
               None \<Rightarrow>
                 changes @ map (\<lambda>p. Change p changed) (filter (\<lambda>p. p \<notin> set shown) (sorted_set (keys now)))
             | Some signed \<Rightarrow>
                 changes @
                 concat (map (compare_path now signed shown)
                   (sorted_set (keys now @ map key_str (keys signed))))))"

subsection \<open>Session answers\<close>

definition covers :: "string list list \<Rightarrow> string list \<Rightarrow> bool" where
  "covers approved argv \<longleftrightarrow> argv \<in> set approved"

definition add_approval :: "string list \<Rightarrow> string list list \<Rightarrow> string list list" where
  "add_approval argv approved = (if argv \<in> set approved then approved else argv # approved)"

subsection \<open>What the loop gives\<close>

definition entry_digest :: "entry_env \<Rightarrow> tree \<Rightarrow> string \<Rightarrow> string option" where
  "entry_digest env tr p =
    (case entry_at tr p of EntryLink \<Rightarrow> Some linked | EntryFile b \<Rightarrow> Some (hexdigest env b) | _ \<Rightarrow> None)"

definition scanned :: "entry_env \<Rightarrow> tree \<Rightarrow> string \<Rightarrow> bool" where
  "scanned env tr p \<longleftrightarrow>
    counts env p \<and> (\<exists>out. listing tr = Some out \<and> p \<in> decode_replace ` set (listed_paths out))"

lemma digest_loop_map:
  assumes "digest_loop env tr i ds got raws = Some now"
  shows "map_of now p =
    (if counts env p \<and> p \<in> decode_replace ` set raws \<and> entry_digest env tr p \<noteq> None
     then entry_digest env tr p else map_of ds p)"
  using assms
proof (induction raws arbitrary: i ds got)
  case (Cons raw raws)
  let ?rel = "decode_replace raw"
  have step: "map_of now p =
      (if counts env p \<and> p \<in> decode_replace ` set raws \<and> entry_digest env tr p \<noteq> None
       then entry_digest env tr p else map_of ds' p)"
    if "digest_loop env tr i' ds' got' raws = Some now" for i' ds' got'
    by (rule Cons.IH [OF that])
  show ?case
  proof (cases "counts env ?rel")
    case False
    with Cons.prems step show ?thesis by (auto simp: Let_def)
  next
    case True
    with Cons.prems show ?thesis
      by (cases "entry_at tr ?rel")
        (auto simp: Let_def map_of_update entry_digest_def dest!: step split: if_splits)
  qed
qed simp

lemma digest_loop_step:
  assumes "digest_loop env tr i ds got (raw # raws) = Some now"
  shows "\<exists>i' ds' got'. digest_loop env tr i' ds' got' raws = Some now \<and>
    (ds' = ds \<or> (\<exists>v. ds' = AList.update (decode_replace raw) v ds \<and> length ds < max_entry_points))"
proof (cases "counts env (decode_replace raw)")
  case False
  with assms show ?thesis by (auto simp: Let_def)
next
  case True
  with assms show ?thesis
    by (cases "entry_at tr (decode_replace raw)") (auto simp: Let_def not_le split: if_splits)
qed

lemma digest_loop_wf:
  assumes "digest_loop env tr i ds got raws = Some now" and "wf_dict ds" and "length ds \<le> max_entry_points"
  shows "wf_dict now \<and> length now \<le> max_entry_points"
  using assms
proof (induction raws arbitrary: i ds got)
  case (Cons raw raws)
  have grow: "length (AList.update k v ds) \<le> Suc (length ds)" for k v and ds :: "(string, string) dict"
    by (induction ds) auto
  obtain i' ds' got' where l: "digest_loop env tr i' ds' got' raws = Some now"
    and d: "ds' = ds \<or> (\<exists>v. ds' = AList.update (decode_replace raw) v ds \<and> length ds < max_entry_points)"
    using digest_loop_step [OF Cons.prems(1)] by blast
  have "wf_dict ds' \<and> length ds' \<le> max_entry_points"
    using d Cons.prems(2,3) grow [of "decode_replace raw" _ ds]
    by (metis Suc_leI le_trans wf_dict_update)
  with Cons.IH [OF l] show ?case by simp
qed simp

lemma entry_point_digests_map:
  assumes "entry_point_digests env tr = Some now"
  shows "map_of now p = (if scanned env tr p then entry_digest env tr p else None)" and "wf_dict now"
    and "length now \<le> max_entry_points"
proof -
  from assms obtain out where out: "listing tr = Some out" "digest_loop env tr 0 [] 0 (listed_paths out) = Some now"
    by (auto simp: entry_point_digests_def split: option.splits)
  show "map_of now p = (if scanned env tr p then entry_digest env tr p else None)"
    using digest_loop_map [OF out(2)] out(1) by (auto simp: scanned_def)
  show "wf_dict now" "length now \<le> max_entry_points" using digest_loop_wf [OF out(2)] by simp_all
qed

subsection \<open>The record read back\<close>

lemma isascii_linked: "isascii linked"
  by (simp add: isascii_def linked_def)

lemma linked_not_hex: "hexdigest env b \<noteq> linked"
proof
  assume h: "hexdigest env b = linked"
  have "CHR '' '' \<in> set linked" by (simp add: linked_def)
  with h have "CHR '' '' \<in> set (hex (ent_sha env b))" by (simp add: hexdigest_def)
  from set_hex [OF this] show False by simp
qed

lemma entry_digest_ascii: "entry_digest env tr p = Some d \<Longrightarrow> isascii d"
  by (auto simp: entry_digest_def hexdigest_def isascii_linked isascii_hex split: entry_file.splits)

lemma digests_ascii:
  assumes "entry_point_digests env tr = Some ds" and "(k, d) \<in> set ds"
  shows "isascii d"
proof -
  have "map_of ds k = Some d"
    using entry_point_digests_map(2) [OF assms(1)] assms(2) by (simp add: map_of_wf_dict)
  then show ?thesis
    using entry_point_digests_map(1) [OF assms(1), of k] entry_digest_ascii by (simp split: if_splits)
qed

lemma map_of_signed:
  assumes "dumps_jcs nfc (PDict (digests_value ds)) = Inr t" and "normalises nfc"
    and "\<forall>(k, d) \<in> set ds. isascii d"
  shows "map_of (canon_payload nfc (digests_value ds)) (KStr p)
    = map_option PStr (map_of (map (\<lambda>(k, d). (nfc k, d)) ds) p)"
proof -
  let ?q = "canon_payload nfc (digests_value ds)" and ?ns = "map (\<lambda>(k, d). (nfc k, d)) ds"
  from assms(1) have w: "encode_dict nfc (map (\<lambda>(k, v). (k, walk nfc v)) (digests_value ds)) = Inr t"
    by (simp add: dumps_jcs_ok)
  have "distinct (map fst (sorted_members nfc (digests_value ds)))" by (rule encode_dict_ok(3) [OF w])
  moreover have "map fst ?q = map KStr (map fst (sorted_members nfc (digests_value ds)))"
    by (simp add: canon_payload_def case_prod_unfold comp_def)
  ultimately have dq: "distinct (map fst ?q)" by (simp add: distinct_map inj_on_def)
  have "encodable nfc (PDict (digests_value ds))" using w walk_is_ok [of nfc "PDict (digests_value ds)"] by simp
  then have dn: "distinct (map fst ?ns)" by (simp add: digests_value_def case_prod_unfold comp_def)
  have asc: "nfc d = d" if "(k, d) \<in> set ds" for k d
    using that assms(2,3) by (auto simp: normalises_def)
  have "(KStr p, v) \<in> set ?q \<longleftrightarrow> (\<exists>d. (p, d) \<in> set ?ns \<and> v = PStr d)" for v
    by (force simp: canon_payload_def set_sorted_members digests_value_def asc)
  then have "map_of ?q (KStr p) = Some v \<longleftrightarrow> (\<exists>d. map_of ?ns p = Some d \<and> v = PStr d)" for v
    using dq dn by simp
  then show ?thesis by (cases "map_of ?ns p"; cases "map_of ?q (KStr p)") auto
qed

lemma record_signed_reads:
  assumes "record_signed env True tr g recs = (Inr (), recs')" and "entry_point_digests env tr = Some ds"
    and "recs g \<noteq> Directory" and "g \<noteq> []" and "normalises (ent_nfc env)"
  obtains t where "dumps_jcs (ent_nfc env) (PDict (digests_value ds)) = Inr t"
    and "recs' = recs(g := Content t)"
    and "signed_digests env recs' (Some g) = Some (canon_payload (ent_nfc env) (digests_value ds))"
proof -
  from assms(1,2) obtain t where t: "dumps_jcs (ent_nfc env) (PDict (digests_value ds)) = Inr t"
    by (auto simp: record_signed_def split: sum.splits)
  have "write_atomic (recs g) t = Inr (Content t)" using assms(3) by (cases "recs g") simp_all
  with assms(1,2) t have r: "recs' = recs(g := Content t)" by (simp add: record_signed_def)
  have "float_free (PDict (digests_value ds))" by (simp add: digests_value_def case_prod_unfold)
  from dumps_loads_canon(1) [OF t this assms(5), of "ent_fl env"]
  have "loads_jcs (ent_fl env) t = Some (PDict (canon_payload (ent_nfc env) (digests_value ds)))"
    unfolding canon_PDict .
  with r assms(4) have "signed_digests env recs' (Some g) = Some (canon_payload (ent_nfc env) (digests_value ds))"
    by (simp add: signed_digests_def)
  with t r show thesis by (rule that)
qed

lemma signed_value:
  assumes "dumps_jcs nfc (PDict (digests_value ds)) = Inr t" and "normalises nfc"
    and "entry_point_digests env tr = Some ds"
  shows "get_value (canon_payload nfc (digests_value ds)) p = PStr d \<longleftrightarrow>
      (\<exists>k. nfc k = p \<and> map_of ds k = Some d)"
    and "get_value (canon_payload nfc (digests_value ds)) p = PNone \<longleftrightarrow> (\<forall>k. map_of ds k \<noteq> None \<longrightarrow> nfc k \<noteq> p)"
proof -
  let ?ns = "map (\<lambda>(k, d). (nfc k, d)) ds" and ?q = "canon_payload nfc (digests_value ds)"
  have asc: "\<forall>(k, d) \<in> set ds. isascii d" using digests_ascii [OF assms(3)] by blast
  note m = map_of_signed [OF assms(1,2) asc]
  have "encodable nfc (PDict (digests_value ds))"
    using assms(1) walk_is_ok [of nfc "PDict (digests_value ds)"] by (auto simp: dumps_jcs_ok)
  then have dn: "distinct (map fst ?ns)" by (simp add: digests_value_def case_prod_unfold comp_def)
  have "map_of ?ns p = Some d \<longleftrightarrow> (\<exists>k. nfc k = p \<and> (k, d) \<in> set ds)" for d
    using dn by force
  then have i: "map_of ?ns p = Some d \<longleftrightarrow> (\<exists>k. nfc k = p \<and> map_of ds k = Some d)" for d
    using map_of_wf_dict [OF entry_point_digests_map(2) [OF assms(3)]] by simp
  have g: "get_value ?q p = (case map_of ?ns p of None \<Rightarrow> PNone | Some d \<Rightarrow> PStr d)"
    by (simp add: get_value_def get_default_def m option.case_eq_if map_option_case)
  show "get_value ?q p = PStr d \<longleftrightarrow> (\<exists>k. nfc k = p \<and> map_of ds k = Some d)"
    using g i [of d] by (cases "map_of ?ns p") simp_all
  show "get_value ?q p = PNone \<longleftrightarrow> (\<forall>k. map_of ds k \<noteq> None \<longrightarrow> nfc k \<noteq> p)"
    using g i by (cases "map_of ?ns p") (auto, metis)
qed

subsection \<open>When nothing is asked\<close>

lemma sorted_set_set [simp]: "set (sorted_set xs) = set xs"
  by (simp add: sorted_set_def)

lemma filter_sorted_set: "filter P (sorted_set xs) = [] \<longleftrightarrow> (\<forall>x \<in> set xs. \<not> P x)"
  by (simp add: filter_empty_conv)

lemma sorted_set_Nil [simp]: "sorted_set xs = [] \<longleftrightarrow> xs = []"
  by (metis sorted_set_set set_empty)

lemma no_changes_iff:
  "changed_entry_points env tr recs g written argv = [] \<longleftrightarrow>
    (\<forall>p \<in> set written. \<not> is_entry_point (ent_ops env) p) \<and> named_uncovered argv = [] \<and>
    (\<exists>now. entry_point_digests env tr = Some now \<and>
      (case signed_digests env recs g of
         None \<Rightarrow> now = []
       | Some signed \<Rightarrow> \<forall>p \<in> set (keys now) \<union> key_str ` set (keys signed).
           map_of now p \<noteq> Some linked \<and> now_value now p = get_value signed p))"
proof -
  let ?w = "filter (is_entry_point (ent_ops env)) (sorted_set written)"
  let ?c = "map (\<lambda>p. Change p written_by_model) ?w @ map (\<lambda>p. Change p named_outside) (named_uncovered argv)"
  have c: "?c = [] \<longleftrightarrow> (\<forall>p \<in> set written. \<not> is_entry_point (ent_ops env) p) \<and> named_uncovered argv = []"
    by (simp add: filter_sorted_set)
  have cmp: "compare_path now signed [] p = [] \<longleftrightarrow>
      map_of now p \<noteq> Some linked \<and> now_value now p = get_value signed p" for now signed p
    by (simp add: compare_path_def)
  show ?thesis
  proof (cases "?c = []")
    case False
    then obtain d where d: "?c = d" "d \<noteq> []" by blast
    have "changed_entry_points env tr recs g written argv \<noteq> []"
      unfolding changed_entry_points_def Let_def d(1) using d(2) by (simp split: option.splits)
    with c False show ?thesis by blast
  next
    case True
    then have w: "?w = []" and n: "named_uncovered argv = []" by simp_all
    show ?thesis
      unfolding changed_entry_points_def Let_def w n using c True
      by (simp add: cmp keys_def filter_sorted_set image_image split: option.splits)
  qed
qed

lemma now_value_eq:
  "now_value now p = PStr d \<longleftrightarrow> map_of now p = Some d" "now_value now p = PNone \<longleftrightarrow> map_of now p = None"
  by (auto simp: now_value_def split: option.splits)

lemma compare_signed:
  assumes "dumps_jcs nfc (PDict (digests_value ds)) = Inr t" and "normalises nfc"
    and "entry_point_digests env tr = Some ds"
    and "\<forall>p \<in> set (keys now) \<union> key_str ` set (keys (canon_payload nfc (digests_value ds))).
      map_of now p \<noteq> Some linked \<and> now_value now p = get_value (canon_payload nfc (digests_value ds)) p"
  shows "map_of now p = Some d \<longleftrightarrow> (\<exists>k. nfc k = p \<and> map_of ds k = Some d)" and "map_of now p \<noteq> Some linked"
proof -
  let ?q = "canon_payload nfc (digests_value ds)"
  note v = signed_value [OF assms(1-3), of p]
  have n: "map_of now p \<noteq> None \<longrightarrow> p \<in> set (keys now)"
    using map_of_None_keys by metis
  have "get_value ?q p \<noteq> PNone \<longrightarrow> KStr p \<in> set (keys ?q)"
    using map_of_None_keys [of ?q "KStr p"] by (auto simp: get_value_def get_default_def)
  then have k: "get_value ?q p \<noteq> PNone \<longrightarrow> p \<in> key_str ` set (keys ?q)"
    using imageI [of "KStr p" "set (keys ?q)" key_str] by simp
  have eq: "now_value now p = get_value ?q p"
  proof (cases "p \<in> set (keys now) \<union> key_str ` set (keys ?q)")
    case True
    with assms(4) show ?thesis by blast
  next
    case False
    with n k have "map_of now p = None" "get_value ?q p = PNone" by blast+
    then show ?thesis by (simp add: now_value_def)
  qed
  show "map_of now p = Some d \<longleftrightarrow> (\<exists>k. nfc k = p \<and> map_of ds k = Some d)"
    using eq v(1) now_value_eq(1) [of now p d] by simp
  show "map_of now p \<noteq> Some linked" using n assms(4) by (cases "map_of now p") auto
qed

subsection \<open>Properties\<close>

text \<open>
  C26. An allow rule answers for a command only over the files the operator signed: when no
  entry point is reported as changed, no entry point is a link or written by the model, every
  entry point in the folder is the file that was there, under the same name up to NFC, when the
  grant was signed, with the same SHA-256, and none that was there then is gone.
\<close>

theorem unasked_files_were_signed:
  assumes "record_signed env True tr0 g recs = (Inr (), recs')" and "entry_point_digests env tr0 = Some ds"
    and "recs g \<noteq> Directory" and "g \<noteq> []" and "normalises (ent_nfc env)"
    and "changed_entry_points env tr recs' (Some g) written argv = []"
  shows "(\<forall>p. scanned env tr p \<longrightarrow> entry_at tr p \<noteq> EntryLink) \<and>
    (\<forall>p b. scanned env tr p \<and> entry_at tr p = EntryFile b \<longrightarrow>
      (\<exists>k b0. ent_nfc env k = p \<and> scanned env tr0 k \<and> entry_at tr0 k = EntryFile b0 \<and>
        ent_sha env b0 = ent_sha env b)) \<and>
    (\<forall>k b0. scanned env tr0 k \<and> entry_at tr0 k = EntryFile b0 \<longrightarrow>
      (\<exists>b. scanned env tr (ent_nfc env k) \<and> entry_at tr (ent_nfc env k) = EntryFile b \<and>
        ent_sha env b = ent_sha env b0)) \<and>
    (\<forall>p \<in> set written. \<not> is_entry_point (ent_ops env) p)"
proof -
  obtain t where t: "dumps_jcs (ent_nfc env) (PDict (digests_value ds)) = Inr t"
    and sd: "signed_digests env recs' (Some g) = Some (canon_payload (ent_nfc env) (digests_value ds))"
    using record_signed_reads [OF assms(1-5)] by metis
  from assms(6) obtain now where now: "entry_point_digests env tr = Some now"
    and w: "\<forall>p \<in> set written. \<not> is_entry_point (ent_ops env) p"
    and all: "\<forall>p \<in> set (keys now) \<union> key_str ` set (keys (canon_payload (ent_nfc env) (digests_value ds))).
      map_of now p \<noteq> Some linked \<and> now_value now p = get_value (canon_payload (ent_nfc env) (digests_value ds)) p"
    unfolding no_changes_iff sd option.case by blast
  note same = compare_signed [OF t assms(5,2) all]
  note here = entry_point_digests_map(1) [OF now] and before = entry_point_digests_map(1) [OF assms(2)]
  have new: "map_of now p = Some (hexdigest env b) \<longleftrightarrow>
      scanned env tr p \<and> (\<exists>b'. entry_at tr p = EntryFile b' \<and> ent_sha env b' = ent_sha env b)" for p b
    using linked_not_hex [of env b] by (auto simp: here entry_digest_def hexdigest_def split: entry_file.splits)
  have old: "map_of ds k = Some (hexdigest env b) \<longleftrightarrow>
      scanned env tr0 k \<and> (\<exists>b'. entry_at tr0 k = EntryFile b' \<and> ent_sha env b' = ent_sha env b)" for k b
    using linked_not_hex [of env b] by (auto simp: before entry_digest_def hexdigest_def split: entry_file.splits)
  have "scanned env tr p \<longrightarrow> entry_at tr p \<noteq> EntryLink" for p
    using same(2) [of p] by (auto simp: here entry_digest_def)
  moreover have "\<exists>k b0. ent_nfc env k = p \<and> scanned env tr0 k \<and> entry_at tr0 k = EntryFile b0 \<and> ent_sha env b0 = ent_sha env b"
    if "scanned env tr p" "entry_at tr p = EntryFile b" for p b
    using that same(1) [of p "hexdigest env b"] by (auto simp: new old)
  moreover have "\<exists>b. scanned env tr (ent_nfc env k) \<and> entry_at tr (ent_nfc env k) = EntryFile b \<and> ent_sha env b = ent_sha env b0"
    if "scanned env tr0 k" "entry_at tr0 k = EntryFile b0" for k b0
  proof -
    have "map_of ds k = Some (hexdigest env b0)" using that by (auto simp: old)
    then have "map_of now (ent_nfc env k) = Some (hexdigest env b0)" using same(1) by blast
    then show ?thesis by (auto simp: new)
  qed
  ultimately show ?thesis using w by blast
qed

text \<open>A folder with one entry point, a test, and a file that is none.\<close>

definition demo_entry_env :: entry_env where
  "demo_entry_env = \<lparr>ent_ops = ascii_ops, ent_nfc = (\<lambda>s. s), ent_fl = (\<lambda>_. FNan), ent_sha = (\<lambda>b. take 2 (b @ ''--''))\<rparr>"

definition demo_tree :: "string \<Rightarrow> tree" where
  "demo_tree body = \<lparr>listing = Some (''src/a.py'' @ [CHR 0x00] @ ''tests/test_a.py'' @ [CHR 0x00]),
     entry_at = (\<lambda>p. if p = ''tests/test_a.py'' then EntryFile body else EntryFile ''a''), late = (\<lambda>_. False)\<rparr>"

definition demo_recs :: records where
  "demo_recs = (\<lambda>_. Absent)(''g'' := Content (''{'' @ [quote] @ ''tests/test_a.py'' @ [quote] @ '':'' @ [quote] @ ''6f6b'' @ [quote] @ ''}''))"

lemma demo_counts:
  "counts demo_entry_env ''tests/test_a.py''" "\<not> counts demo_entry_env ''src/a.py''" "\<not> counts demo_entry_env []"
  by code_simp+

lemma demo_scan:
  "length b \<le> 100 \<Longrightarrow> entry_point_digests demo_entry_env (demo_tree b) = Some [(''tests/test_a.py'', hexdigest demo_entry_env b)]"
proof -
  have "map decode_replace (listed_paths (''src/a.py'' @ [CHR 0x00] @ ''tests/test_a.py'' @ [CHR 0x00]))
      = [''src/a.py'', ''tests/test_a.py'', []]"
    by code_simp
  then obtain x y z where "listed_paths (''src/a.py'' @ [CHR 0x00] @ ''tests/test_a.py'' @ [CHR 0x00]) = [x, y, z]"
    and "decode_replace x = ''src/a.py''" "decode_replace y = ''tests/test_a.py''" "decode_replace z = []"
    by (auto simp: map_eq_Cons_conv)
  moreover assume "length b \<le> 100"
  ultimately show ?thesis
    by (simp add: entry_point_digests_def demo_tree_def demo_counts max_entry_points_def max_entry_bytes_def)
qed

lemma demo_digests: "entry_point_digests demo_entry_env (demo_tree ''ok'') = Some [(''tests/test_a.py'', ''6f6b'')]"
proof -
  have "hexdigest demo_entry_env ''ok'' = ''6f6b''" by code_simp
  then show ?thesis by (simp add: demo_scan)
qed

lemma demo_signed:
  "signed_digests demo_entry_env demo_recs (Some ''g'') = Some [(KStr ''tests/test_a.py'', PStr ''6f6b'')]"
  by code_simp

lemma demo_recorded:
  "record_signed demo_entry_env True (demo_tree ''ok'') ''g'' (\<lambda>_. Absent) = (Inr (), demo_recs)"
proof -
  have "dumps_jcs (\<lambda>s. s) (PDict (digests_value [(''tests/test_a.py'', ''6f6b'')]))
      = Inr (''{'' @ [quote] @ ''tests/test_a.py'' @ [quote] @ '':'' @ [quote] @ ''6f6b'' @ [quote] @ ''}'')"
    by code_simp
  moreover have "ent_nfc demo_entry_env = (\<lambda>s. s)" by (simp add: demo_entry_env_def)
  ultimately show ?thesis by (simp add: record_signed_def demo_digests demo_recs_def)
qed

lemma demo_normalises: "normalises (ent_nfc demo_entry_env)"
  by (simp add: demo_entry_env_def normalises_id)

theorem unasked_files_were_signed_witness:
  "\<not> is_entry_point ascii_ops ''src/a.py'' \<and>
   changed_entry_points demo_entry_env (demo_tree ''ko'') demo_recs (Some ''g'') [] [] = [Change ''tests/test_a.py'' changed]"
proof
  have "changed_entry_points demo_entry_env (demo_tree ''ok'') demo_recs (Some ''g'') [''src/a.py''] [''pytest''] = []"
    unfolding no_changes_iff demo_signed demo_digests option.case by (simp add: keys_def) code_simp
  from unasked_files_were_signed [OF demo_recorded demo_digests _ _ demo_normalises this]
  show "\<not> is_entry_point ascii_ops ''src/a.py''" by (simp add: demo_entry_env_def)
  have "hexdigest demo_entry_env ''ko'' = ''6b6f''" by code_simp
  then show "changed_entry_points demo_entry_env (demo_tree ''ko'') demo_recs (Some ''g'') [] [] = [Change ''tests/test_a.py'' changed]"
    by (simp add: changed_entry_points_def demo_scan demo_signed sorted_set_def keys_def compare_path_def now_value_def
        get_value_def get_default_def linked_def named_uncovered_def)
qed

text \<open>
  A folder in which nothing changed since the grant was signed puts no command back to
  the question exactly when no entry point is a link and every one of them has a name in NFC:
  the record is canonical JSON, so a name in another normal form is recorded under another
  name, and is taken for a new and a missing file ever after.
\<close>

theorem unchanged_folder_quiet_iff:
  assumes "record_signed env True tr0 g recs = (Inr (), recs')" and "entry_point_digests env tr0 = Some ds"
    and "recs g \<noteq> Directory" and "g \<noteq> []" and "normalises (ent_nfc env)"
    and "entry_point_digests env tr = Some ds"
    and "\<forall>p \<in> set written. \<not> is_entry_point (ent_ops env) p" and "named_uncovered argv = []"
  shows "changed_entry_points env tr recs' (Some g) written argv = [] \<longleftrightarrow>
    (\<forall>(k, d) \<in> set ds. ent_nfc env k = k \<and> d \<noteq> linked)"
proof -
  let ?q = "canon_payload (ent_nfc env) (digests_value ds)"
  obtain t where t: "dumps_jcs (ent_nfc env) (PDict (digests_value ds)) = Inr t"
    and sd: "signed_digests env recs' (Some g) = Some ?q"
    using record_signed_reads [OF assms(1-5)] by metis
  have wf: "(k, d) \<in> set ds \<longleftrightarrow> map_of ds k = Some d" for k d
    using map_of_wf_dict [OF entry_point_digests_map(2) [OF assms(2)]] .
  have idem: "ent_nfc env (ent_nfc env s) = ent_nfc env s" for s using assms(5) by (simp add: normalises_def)
  let ?all = "\<forall>p \<in> set (keys ds) \<union> key_str ` set (keys ?q). map_of ds p \<noteq> Some linked \<and> now_value ds p = get_value ?q p"
  have "changed_entry_points env tr recs' (Some g) written argv = [] \<longleftrightarrow> ?all"
    unfolding no_changes_iff sd using assms(6,7,8) by simp
  also have "\<dots> \<longleftrightarrow> (\<forall>(k, d) \<in> set ds. ent_nfc env k = k \<and> d \<noteq> linked)"
  proof
    assume all: ?all
    note same = compare_signed [OF t assms(5,2) all]
    show "\<forall>(k, d) \<in> set ds. ent_nfc env k = k \<and> d \<noteq> linked"
      using same idem unfolding wf case_prod_unfold by (metis prod.collapse wf)
  next
    assume st: "\<forall>(k, d) \<in> set ds. ent_nfc env k = k \<and> d \<noteq> linked"
    then have nk: "map_of ds k = Some d \<Longrightarrow> ent_nfc env k = k \<and> d \<noteq> linked" for k d
      using wf by blast
    have "now_value ds p = get_value ?q p" for p
    proof (cases "map_of ds p")
      case None
      then have "get_value ?q p = PNone"
        using nk unfolding signed_value(2) [OF t assms(5,2)] by fastforce
      with None show ?thesis by (simp add: now_value_def)
    next
      case (Some d)
      with nk have "get_value ?q p = PStr d" unfolding signed_value(1) [OF t assms(5,2)] by blast
      with Some show ?thesis by (simp add: now_value_def)
    qed
    with nk show ?all by blast
  qed
  finally show ?thesis .
qed

theorem unchanged_folder_quiet_iff_witness:
  "changed_entry_points demo_entry_env (demo_tree ''ok'') demo_recs (Some ''g'') [] [''pytest'', ''tests''] = []"
proof -
  have "named_uncovered [''pytest'', ''tests''] = []" by code_simp
  moreover have "linked \<noteq> ''6f6b''" by (simp add: linked_def)
  ultimately show ?thesis
    using unchanged_folder_quiet_iff [OF demo_recorded demo_digests _ _ demo_normalises demo_digests, of "[]" "[''pytest'', ''tests'']"]
    by (simp add: demo_entry_env_def)
qed

text \<open>
  Two entry points whose names are the same in NFC: the encoder refuses the record, and the
  error is no \<open>OSError\<close>, so it leaves \<open>record_signed\<close>.
\<close>

lemma colliding_names_raise:
  assumes "entry_point_digests env tr = Some ds" and "(a, x) \<in> set ds" and "(b, y) \<in> set ds" and "a \<noteq> b"
    and "ent_nfc env a = ent_nfc env b"
  shows "\<exists>e. record_signed env True tr g recs = (Inl e, recs)"
proof -
  let ?p = "digests_value ds"
  have "\<not> distinct (map (\<lambda>(k, v). ent_nfc env (key_str k)) ?p)"
  proof
    assume "distinct (map (\<lambda>(k, v). ent_nfc env (key_str k)) ?p)"
    then have "inj_on (\<lambda>(k, v). ent_nfc env (key_str k)) (set ?p)" by (simp add: distinct_map)
    moreover have "(KStr a, PStr x) \<in> set ?p" "(KStr b, PStr y) \<in> set ?p"
      using assms(2,3) by (force simp: digests_value_def)+
    ultimately have "(KStr a, PStr x) = (KStr b, PStr y)" using assms(5) by (elim inj_onD) simp_all
    with assms(4) show False by simp
  qed
  then have "\<not> encodable (ent_nfc env) (PDict ?p)" by simp
  then have "\<not> is_ok (walk (ent_nfc env) (PDict ?p))" by (simp only: walk_is_ok not_False_eq_True)
  then obtain e where "dumps_jcs (ent_nfc env) (PDict ?p) = Inl e"
    by (cases "walk (ent_nfc env) (PDict ?p)") (auto simp: dumps_jcs_def)
  with assms(1) show ?thesis by (simp add: record_signed_def)
qed

end
