(* ===== verification/Grant.thy ===== *)
theory Grant
  imports Allowlist
begin

section \<open>The tier-3 grant\<close>

text \<open>
  The model of \<open>src/ract/policy/grant.py\<close> with \<open>pinned\<close>, \<open>key_id\<close> and \<open>PublicKey\<close> of
  \<open>src/ract/policy/operator_key.py\<close>: validation of a policy, signing it, revoking it, and the
  decision whether it holds. The YAML loader with pydantic's typing, Ed25519 verification, git's
  list of root commits and the sandbox's self-test are the record \<open>grant_env\<close>; SHA-256, NFC
  and the JSON floats are in \<open>entry_env\<close>. A policy's fields are the record \<open>policy\<close> of
  \<open>Matcher\<close>; the constraints the classes declare on them are \<open>policy_valid\<close>. Messages
  leave out the text of the exception they quote.
\<close>

subsection \<open>Parameters, files, errors\<close>

datatype 'a yaml_result = NotYaml | LoaderRaises | Loaded 'a

text \<open>
  \<open>g_policy_yaml\<close> gives the typed fields of a policy (\<open>None\<close>: no mapping, or a field of
  another type, or a field too many); \<open>LoaderRaises\<close> is an error of the loader that is no
  \<open>YAMLError\<close> (a date with a thirteenth month is a \<open>ValueError\<close>). In \<open>g_config_yaml\<close> a value of a
  type that JSON does not have is \<open>PNone\<close>: no field that is read accepts it.
\<close>

record grant_env =
  g_entry :: entry_env
  g_fs :: fsys
  g_policy_yaml :: "string \<Rightarrow> policy option yaml_result"
  g_config_yaml :: "string \<Rightarrow> pyval yaml_result"
  g_verify :: "string \<Rightarrow> string \<Rightarrow> string \<Rightarrow> bool"
  g_roots :: "string \<Rightarrow> string list option"
  g_confines :: bool

record grant_files =
  policy_file :: disk_file
  sig_file :: disk_file
  state_linked :: bool
  revoked_file :: disk_file
  config_file :: disk_file
  entry_records :: records
  records_mkdir :: bool
  project_tree :: tree

datatype grant_error =
    GrantOs os_error
  | GrantUnicode
  | LoaderError
  | PolicyInvalid string
  | RevocationListUnreadable
  | DateOverflow
  | RecordError jcs_error

record public_key =
  pk_id :: string
  pk_bytes :: string

subsection \<open>Validation\<close>

definition too_broad :: "string list" where
  "too_broad = [''python'', ''python3'', ''py'', ''node'', ''deno'', ''bun'', ''ruby'', ''perl'', ''php'', ''bash'',
    ''sh'', ''zsh'', ''fish'', ''cmd'', ''cmd.exe'', ''powershell'', ''pwsh'', ''powershell.exe'', ''pwsh.exe'',
    ''python.exe'', ''env'', ''npx'', ''uv'', ''uvx'']"

definition runtime_runners :: "string list" where
  "runtime_runners = [''command'', ''exec'', ''flock'', ''setsid'', ''taskset'', ''strace'', ''chroot'', ''unshare'',
    ''xvfb-run'', ''fakeroot'', ''npx'', ''uvx'', ''pipx'']"

definition code_modules :: "string list" where
  "code_modules = [''pip'', ''ensurepip'', ''runpy'', ''code'', ''idlelib'']"

definition max_days :: int where
  "max_days = 365"

text \<open>Microseconds, as in \<open>timedelta\<close>.\<close>

definition days :: "int \<Rightarrow> int" where
  "days n = n * 86400000000"

definition minutes :: "int \<Rightarrow> int" where
  "minutes n = n * 60000000"

text \<open>\<open>len\<close> of a text counts code points.\<close>

definition str_len :: "string \<Rightarrow> nat" where
  "str_len s = length (filter (\<lambda>c. \<not> cont c) s)"

definition lower_hex :: "char \<Rightarrow> bool" where
  "lower_hex c \<longleftrightarrow> is_digit c \<or> 97 \<le> code c \<and> code c \<le> 102"

definition lower_alnum :: "char \<Rightarrow> bool" where
  "lower_alnum c \<longleftrightarrow> is_digit c \<or> 97 \<le> code c \<and> code c \<le> 122"

definition image_char :: "char \<Rightarrow> bool" where
  "image_char c \<longleftrightarrow> lower_alnum c \<or> c \<in> set ''._/-''"

definition tag_char :: "char \<Rightarrow> bool" where
  "tag_char c \<longleftrightarrow> is_letter c \<or> is_digit c \<or> c \<in> set ''._-''"

definition image_name :: "string \<Rightarrow> bool" where
  "image_name p =
    (let name = takeWhile (\<lambda>c. c \<noteq> CHR '':'') p; tag = dropWhile (\<lambda>c. c \<noteq> CHR '':'') p in
     name \<noteq> [] \<and> lower_alnum (hd name) \<and> list_all image_char name \<and>
     (tag = [] \<or> (tl tag \<noteq> [] \<and> list_all tag_char (tl tag))))"

text \<open>\<open>_PINNED_IMAGE.match\<close>; its \<open>$\<close> also matches before a final newline.\<close>

definition pinned_image :: "string \<Rightarrow> bool" where
  "pinned_image img =
    (let s = (if img \<noteq> [] \<and> last img = newline then butlast img else img);
         n = length s - 64; named = take n s in
     64 \<le> length s \<and> list_all lower_hex (drop n s) \<and> endswith named ''@sha256:'' \<and>
     image_name (take (length named - 8) named))"

definition image_pinned :: "allow_rule \<Rightarrow> bool" where
  "image_pinned r =
    (if rule_backend r = ''container''
     then (case rule_image r of None \<Rightarrow> False | Some i \<Rightarrow> i \<noteq> [] \<and> pinned_image i)
     else rule_image r = None)"

definition narrow_argv :: "textops \<Rightarrow> string list \<Rightarrow> bool" where
  "narrow_argv ops argv =
    (if \<exists>part \<in> set argv. part = [] \<or> CHR 0x00 \<in> set part then False
     else if length argv = 1 \<and> op_lower ops (path_name (hd argv)) \<in> set too_broad then False
     else
       let name = command_name ops (hd argv) in
       if name \<in> set shells \<or> inline_code name (tl argv) \<or> wrapped_code ops (tl argv) \<noteq> None then False
       else if name \<in> set wrappers \<or> name \<in> set (keys never) \<or> name \<in> set runtime_runners then False
       else if take 2 argv = [''uv'', ''run''] then False
       else if name \<in> {''python'', ''pypy'', ''py''} \<and> take 1 (tl argv) = [''-m''] \<and>
         (\<exists>m \<in> set (take 1 (drop 2 argv)). m \<in> set code_modules) then False
       else True)"

definition cwd_ok :: "string \<Rightarrow> bool" where
  "cwd_ok cwd =
    (if cwd \<noteq> ''step_worktree'' \<and> \<not> startswith cwd ''step_worktree/'' then False
     else if ''..'' \<in> set (split_on sep cwd) then False
     else True)"

definition rule_valid :: "textops \<Rightarrow> allow_rule \<Rightarrow> bool" where
  "rule_valid ops r \<longleftrightarrow>
    1 \<le> str_len (rule_id r) \<and> str_len (rule_id r) \<le> 64 \<and>
    1 \<le> length (rule_argv r) \<and> length (rule_argv r) \<le> 32 \<and> narrow_argv ops (rule_argv r) \<and>
    cwd_ok (rule_cwd r) \<and> 1 \<le> rule_timeout_s r \<and> rule_timeout_s r \<le> 3600 \<and>
    1 \<le> rule_max_output_bytes r \<and> rule_max_output_bytes r \<le> 64 * 1048576 \<and>
    rule_home r \<in> {''isolated'', ''real''} \<and> rule_backend r \<in> {''host'', ''wsl2'', ''container''} \<and>
    (case rule_image r of None \<Rightarrow> True | Some i \<Rightarrow> str_len i \<le> 300) \<and> image_pinned r"

definition key_id_form :: "string \<Rightarrow> bool" where
  "key_id_form k \<longleftrightarrow> startswith k ''ed25519:'' \<and> length k = 24 \<and> list_all lower_hex (drop 8 k)"

definition policy_valid :: "textops \<Rightarrow> policy \<Rightarrow> bool" where
  "policy_valid ops p \<longleftrightarrow>
    binding_root p \<noteq> [] \<and>
    (case binding_commit p of None \<Rightarrow> True | Some c \<Rightarrow> length c = 40 \<and> list_all lower_hex c) \<and>
    key_id_form (policy_key_id p) \<and> max_mode p \<in> {''ask'', ''allowlist''} \<and>
    sandbox_mode p \<in> {''enforced'', ''best_effort''} \<and>
    list_all (rule_valid ops) (allow_rules p) \<and> list_all (\<lambda>argv. argv \<noteq> []) (deny_rules p) \<and>
    1 \<le> max_procs p \<and> max_procs p \<le> 4096 \<and> 64 \<le> memory_mb p \<and> memory_mb p \<le> 1048576 \<and>
    1 \<le> cpu_seconds p \<and> cpu_seconds p \<le> 86400"

definition parse_policy :: "grant_env \<Rightarrow> string \<Rightarrow> grant_error + policy" where
  "parse_policy env t =
    (case g_policy_yaml env t of
       NotYaml \<Rightarrow> Inl (PolicyInvalid ''not YAML'')
     | LoaderRaises \<Rightarrow> Inl LoaderError
     | Loaded None \<Rightarrow> Inl (PolicyInvalid ''not a policy'')
     | Loaded (Some p) \<Rightarrow>
         if \<not> policy_valid (ent_ops (g_entry env)) p then Inl (PolicyInvalid ''a field is refused'')
         else
           let span = expires_at p - issued_at p in
           if span \<le> 0 then Inl (PolicyInvalid ''expires_at: is not after issued_at'')
           else if span > days max_days then Inl (PolicyInvalid ''expires_at: a grant lasts at most 365 days'')
           else Inr p)"

subsection \<open>Digests, keys, folders\<close>

definition domain :: string where
  "domain = ''ract-policy/1'' @ [newline]"

definition message :: "string \<Rightarrow> string" where
  "message data = domain @ data"

definition digest_of :: "grant_env \<Rightarrow> string \<Rightarrow> string" where
  "digest_of env data = hexdigest (g_entry env) data"

definition key_id :: "grant_env \<Rightarrow> string \<Rightarrow> string" where
  "key_id env public = ''ed25519:'' @ take 16 (digest_of env public)"

definition same_folder :: "grant_env \<Rightarrow> string \<Rightarrow> string \<Rightarrow> bool" where
  "same_folder env a b \<longleftrightarrow> realpath (g_fs env) a = realpath (g_fs env) b"

definition repo_root_commit :: "grant_env \<Rightarrow> string \<Rightarrow> string option" where
  "repo_root_commit env project =
    (case g_roots env project of
       None \<Rightarrow> None
     | Some roots \<Rightarrow> (case sort roots of [] \<Rightarrow> None | r # _ \<Rightarrow> Some r))"

text \<open>\<open>path.read_bytes() if path.is_file() else None\<close>, and a read without the test.\<close>

fun read_if_file :: "disk_file \<Rightarrow> os_error + string option" where
  "read_if_file (Content b) = Inr (Some b)"
| "read_if_file (Unreadable b) = Inl PermissionDenied"
| "read_if_file f = Inr None"

fun read_bytes :: "disk_file \<Rightarrow> os_error + string" where
  "read_bytes (Content b) = Inr b"
| "read_bytes (Unreadable b) = Inl PermissionDenied"
| "read_bytes Directory = Inl IsADirectory"
| "read_bytes Absent = Inl FileNotFound"

text \<open>An \<open>OSError\<close> of the config file is printed; an undecodable byte or another loader error is raised.\<close>

definition pinned :: "grant_env \<Rightarrow> disk_file \<Rightarrow> grant_error + public_key option" where
  "pinned env f =
    (case f of
       Content b \<Rightarrow>
         if \<not> utf8_valid b then Inl GrantUnicode
         else
           (case g_config_yaml env b of
              NotYaml \<Rightarrow> Inr None
            | LoaderRaises \<Rightarrow> Inl LoaderError
            | Loaded (PDict data) \<Rightarrow>
                (case get_value data ''operator_key'' of
                   PDict entry \<Rightarrow>
                     (case get_value entry ''public_key'' of
                        PStr s \<Rightarrow>
                          (case b64decode s of
                             None \<Rightarrow> Inr None
                           | Some public \<Rightarrow>
                               if PStr (key_id env public) \<noteq> get_value entry ''key_id'' \<or> length public \<noteq> 32 then Inr None
                               else Inr (Some \<lparr>pk_id = key_id env public, pk_bytes = public\<rparr>))
                      | _ \<Rightarrow> Inr None)
                 | _ \<Rightarrow> Inr None)
            | Loaded _ \<Rightarrow> Inr None)
     | _ \<Rightarrow> Inr None)"

subsection \<open>Revocation\<close>

definition revoked :: "grant_env \<Rightarrow> disk_file \<Rightarrow> grant_error + string list" where
  "revoked env f =
    (case f of
       Absent \<Rightarrow> Inr []
     | Content b \<Rightarrow>
         (case loads_jcs (ent_fl (g_entry env)) b of
            Some (PList vs) \<Rightarrow> Inr (List.map_filter (\<lambda>v. case v of PStr s \<Rightarrow> Some s | _ \<Rightarrow> None) vs)
          | _ \<Rightarrow> Inl RevocationListUnreadable)
     | _ \<Rightarrow> Inl RevocationListUnreadable)"

text \<open>The signature is removed last; a directory in its place is an error.\<close>

definition unlink_signature :: "grant_files \<Rightarrow> (grant_error + unit) \<times> grant_files" where
  "unlink_signature fs =
    (case sig_file fs of
       Absent \<Rightarrow> (Inr (), fs)
     | Directory \<Rightarrow> (Inl (GrantOs IsADirectory), fs)
     | _ \<Rightarrow> (Inr (), fs\<lparr>sig_file := Absent\<rparr>))"

definition unlink_then :: "string option \<Rightarrow> grant_files \<Rightarrow> (grant_error + string option) \<times> grant_files" where
  "unlink_then digest fs = (case unlink_signature fs of (r, fs') \<Rightarrow> (rbind r (\<lambda>_. Inr digest), fs'))"

definition revoke :: "grant_env \<Rightarrow> grant_files \<Rightarrow> (grant_error + string option) \<times> grant_files" where
  "revoke env fs =
    (case read_if_file (policy_file fs) of
       Inl e \<Rightarrow> (Inl (GrantOs e), fs)
     | Inr None \<Rightarrow> unlink_then None fs
     | Inr (Some data) \<Rightarrow>
         let digest = digest_of env data in
         (case revoked env (revoked_file fs) of
            Inl e \<Rightarrow> (Inl e, fs)
          | Inr listed \<Rightarrow>
              (case write_atomic (revoked_file fs) (dumps_strings (sorted_set (digest # listed))) of
                 Inl e \<Rightarrow> (Inl (GrantOs e), fs)
               | Inr f \<Rightarrow> unlink_then (Some digest) (fs\<lparr>revoked_file := f\<rparr>))))"

subsection \<open>Signing\<close>

definition sig_format :: string where
  "sig_format = ''ract-policy-sig/1''"

definition signature_text :: "grant_env \<Rightarrow> public_key \<Rightarrow> string \<Rightarrow> string \<Rightarrow> string" where
  "signature_text env key data signature =
    dumps_indented [(''format'', sig_format), (''key_id'', pk_id key), (''sha256'', digest_of env data),
      (''signature'', b64encode signature)]"

text \<open>
  \<open>sign\<close> with the unlocked private key as the function that signs a message. The signature is
  on disk before the entry points are recorded.
\<close>

definition sign ::
    "grant_env \<Rightarrow> string \<Rightarrow> (string \<Rightarrow> string) \<Rightarrow> public_key \<Rightarrow> grant_files \<Rightarrow> (grant_error + string) \<times> grant_files" where
  "sign env project private_key key fs =
    (case read_bytes (policy_file fs) of
       Inl e \<Rightarrow> (Inl (GrantOs e), fs)
     | Inr data \<Rightarrow>
         if \<not> utf8_valid data then (Inl GrantUnicode, fs)
         else case parse_policy env data of
           Inl e \<Rightarrow> (Inl e, fs)
         | Inr policy \<Rightarrow>
             if policy_key_id policy \<noteq> pk_id key then (Inl (PolicyInvalid ''key_id: is not your key''), fs)
             else if \<not> same_folder env (binding_root policy) project
             then (Inl (PolicyInvalid ''binding.project_root: is not this folder''), fs)
             else if state_linked fs then (Inl (PolicyInvalid ''a state folder is a link''), fs)
             else
               let digest = digest_of env data; signature = private_key (message data) in
               (case write_atomic (sig_file fs) (signature_text env key data signature) of
                  Inl e \<Rightarrow> (Inl (GrantOs e), fs)
                | Inr f \<Rightarrow>
                    (case record_signed (g_entry env) (records_mkdir fs) (project_tree fs) digest (entry_records fs) of
                       (r, recs) \<Rightarrow>
                         ((case r of Inl e \<Rightarrow> Inl (RecordError e) | Inr _ \<Rightarrow> Inr digest),
                          fs\<lparr>sig_file := f, entry_records := recs\<rparr>))))"

subsection \<open>Whether the grant holds\<close>

datatype status = NoGrant | Unsigned | Invalid | NotYet | Expired | Revoked | Suspended | GrantOk

record grant_state =
  gs_status :: status
  gs_reason :: string
  gs_policy :: "policy option"
  gs_digest :: "string option"
  gs_pin :: "string option"

definition grant_holds :: "grant_state \<Rightarrow> bool" where
  "grant_holds st \<longleftrightarrow> gs_status st = GrantOk"

definition pin_of :: "grant_env \<Rightarrow> string \<Rightarrow> string \<Rightarrow> string" where
  "pin_of env policy_bytes signature = digest_of env (policy_bytes @ [CHR 0x00] @ signature)"

definition or_empty :: "string option \<Rightarrow> string" where
  "or_empty b = (case b of None \<Rightarrow> [] | Some s \<Rightarrow> s)"

definition pin_digest :: "grant_env \<Rightarrow> grant_files \<Rightarrow> os_error + string" where
  "pin_digest env fs =
    rbind (read_if_file (policy_file fs)) (\<lambda>p.
    rbind (read_if_file (sig_file fs)) (\<lambda>s. Inr (pin_of env (or_empty p) (or_empty s))))"

text \<open>The signature file's object and the decoded signature; \<open>None\<close> is one of the errors caught.\<close>

definition read_signature :: "grant_env \<Rightarrow> string \<Rightarrow> (payload \<times> string) option" where
  "read_signature env b =
    (case loads_jcs (ent_fl (g_entry env)) b of
       Some (PDict sig) \<Rightarrow>
         (case get_value sig ''signature'' of
            PStr s \<Rightarrow> map_option (\<lambda>signature. (sig, signature)) (b64decode s)
          | _ \<Rightarrow> None)
     | _ \<Rightarrow> None)"

text \<open>The checks behind the signature: what the policy says of this folder, machine and time.\<close>

definition check_time ::
    "int \<Rightarrow> (status \<Rightarrow> string \<Rightarrow> policy option \<Rightarrow> grant_state) \<Rightarrow> policy \<Rightarrow> grant_error + grant_state" where
  "check_time now state p =
    (if issued_at p + issued_offset p < minutes 5 then Inl DateOverflow
     else if now < issued_at p - minutes 5 then Inr (state NotYet ''the grant is not valid yet'' (Some p))
     else if expires_at p \<le> now then Inr (state Expired ''grant expired'' (Some p))
     else Inr (state GrantOk [] (Some p)))"

definition decide_policy ::
    "grant_env \<Rightarrow> string \<Rightarrow> int \<Rightarrow> public_key \<Rightarrow> (status \<Rightarrow> string \<Rightarrow> policy option \<Rightarrow> grant_state) \<Rightarrow> string
      \<Rightarrow> grant_error + grant_state" where
  "decide_policy env project now key state data =
    (if \<not> utf8_valid data then Inr (state Invalid ''policy.yaml does not validate'' None)
     else case parse_policy env data of
       Inl (PolicyInvalid _) \<Rightarrow> Inr (state Invalid ''policy.yaml does not validate'' None)
     | Inl e \<Rightarrow> Inl e
     | Inr p \<Rightarrow>
         if policy_key_id p \<noteq> pk_id key then Inr (state Invalid ''the grant names another key'' None)
         else if \<not> same_folder env (binding_root p) project
         then Inr (state Invalid ''the grant is bound to another folder'' None)
         else if binding_commit p \<noteq> None \<and> repo_root_commit env project \<noteq> binding_commit p
         then Inr (state Invalid ''the grant is bound to another repository'' None)
         else if sandbox_mode p = ''enforced'' \<and> \<not> g_confines env
         then Inr (state Invalid ''the grant says sandbox: enforced, and this machine cannot confine commands'' (Some p))
         else check_time now state p)"

definition check_signature ::
    "grant_env \<Rightarrow> string \<Rightarrow> int \<Rightarrow> public_key \<Rightarrow> (status \<Rightarrow> string \<Rightarrow> policy option \<Rightarrow> grant_state) \<Rightarrow> string \<Rightarrow> string
      \<Rightarrow> grant_error + grant_state" where
  "check_signature env project now key state data sig_bytes =
    (case read_signature env sig_bytes of
       None \<Rightarrow> Inr (state Invalid ''the signature file cannot be read'' None)
     | Some (sig, signature) \<Rightarrow>
         if get_value sig ''format'' \<noteq> PStr sig_format \<or> get_value sig ''key_id'' \<noteq> PStr (pk_id key)
         then Inr (state Invalid ''the grant is not signed by your operator key'' None)
         else if get_value sig ''sha256'' \<noteq> PStr (digest_of env data) \<or>
           \<not> g_verify env (pk_bytes key) signature (message data)
         then Inr (state Invalid ''the signature does not match policy.yaml'' None)
         else decide_policy env project now key state data)"

definition grant_state_of :: "string option \<Rightarrow> string \<Rightarrow> status \<Rightarrow> string \<Rightarrow> policy option \<Rightarrow> grant_state" where
  "grant_state_of digest pin status reason p =
    \<lparr>gs_status = status, gs_reason = reason, gs_policy = p, gs_digest = digest, gs_pin = Some pin\<rparr>"

definition load_grant :: "grant_env \<Rightarrow> string \<Rightarrow> int \<Rightarrow> grant_files \<Rightarrow> grant_error + grant_state" where
  "load_grant env project now fs =
    (case read_if_file (policy_file fs) of Inl e \<Rightarrow> Inl (GrantOs e) | Inr data \<Rightarrow>
     case read_if_file (sig_file fs) of Inl e \<Rightarrow> Inl (GrantOs e) | Inr sig_bytes \<Rightarrow>
       let pin = pin_of env (or_empty data) (or_empty sig_bytes);
           state = grant_state_of (map_option (digest_of env) data) pin
       in case data of
            None \<Rightarrow> Inr (state NoGrant ''no grant'' None)
          | Some policy_bytes \<Rightarrow>
              (case revoked env (revoked_file fs) of
                 Inl _ \<Rightarrow> Inr (state Invalid ''the revocation list cannot be read'' None)
               | Inr listed \<Rightarrow>
                   if digest_of env policy_bytes \<in> set listed then Inr (state Revoked ''this grant was revoked'' None)
                   else case sig_bytes of
                     None \<Rightarrow> Inr (state Unsigned ''the policy is not signed'' None)
                   | Some sb \<Rightarrow>
                       rbind (pinned env (config_file fs)) (\<lambda>pinned_key.
                         case pinned_key of
                           None \<Rightarrow> Inr (state Unsigned ''no operator key is pinned on this machine'' None)
                         | Some key \<Rightarrow> check_signature env project now key state policy_bytes sb)))"

subsection \<open>When a grant holds\<close>

text \<open>What a policy must say for the grant to hold in a folder, at a time, under a key.\<close>

definition policy_binds :: "grant_env \<Rightarrow> string \<Rightarrow> int \<Rightarrow> public_key \<Rightarrow> policy \<Rightarrow> bool" where
  "policy_binds env project now key p \<longleftrightarrow>
    policy_key_id p = pk_id key \<and> same_folder env (binding_root p) project \<and>
    (binding_commit p \<noteq> None \<longrightarrow> repo_root_commit env project = binding_commit p) \<and>
    (sandbox_mode p = ''enforced'' \<longrightarrow> g_confines env) \<and>
    issued_at p - minutes 5 \<le> now \<and> now < expires_at p"

lemma decide_policy_ok:
  assumes "\<And>s r p. gs_status (state s r p) = s"
  shows "decide_policy env project now key state data = Inr st \<and> gs_status st = GrantOk \<longleftrightarrow>
    (\<exists>p. utf8_valid data \<and> parse_policy env data = Inr p \<and> policy_binds env project now key p \<and>
      minutes 5 \<le> issued_at p + issued_offset p \<and> st = state GrantOk [] (Some p))"
proof (cases "parse_policy env data")
  case (Inl e)
  then show ?thesis using assms by (cases e) (auto simp: decide_policy_def)
next
  case (Inr p)
  have late: "check_time now state p = Inr st \<and> gs_status st = GrantOk \<longleftrightarrow>
      minutes 5 \<le> issued_at p + issued_offset p \<and> issued_at p - minutes 5 \<le> now \<and> now < expires_at p \<and>
      st = state GrantOk [] (Some p)"
    using assms by (auto simp: check_time_def split: if_splits)
  show ?thesis
  proof (cases "utf8_valid data \<and> policy_key_id p = pk_id key \<and> same_folder env (binding_root p) project \<and>
      \<not> (binding_commit p \<noteq> None \<and> repo_root_commit env project \<noteq> binding_commit p) \<and>
      \<not> (sandbox_mode p = ''enforced'' \<and> \<not> g_confines env)")
    case True
    then have "decide_policy env project now key state data = check_time now state p"
      using Inr by (simp only: decide_policy_def not_True_eq_False if_False sum.case simp_thms)
    with late True Inr show ?thesis by (auto simp: policy_binds_def)
  next
    case False
    then have "\<not> policy_binds env project now key p \<or> \<not> utf8_valid data" by (auto simp: policy_binds_def)
    moreover have "\<exists>s r q. decide_policy env project now key state data = Inr (state s r q) \<and> s \<noteq> GrantOk"
      using False Inr by (simp only: decide_policy_def) (auto split: if_splits)
    ultimately show ?thesis using Inr assms by auto
  qed
qed

definition signed_by :: "grant_env \<Rightarrow> public_key \<Rightarrow> string \<Rightarrow> string \<Rightarrow> bool" where
  "signed_by env key data sb \<longleftrightarrow>
    (case read_signature env sb of
       None \<Rightarrow> False
     | Some (sig, signature) \<Rightarrow>
         get_value sig ''format'' = PStr sig_format \<and> get_value sig ''key_id'' = PStr (pk_id key) \<and>
         get_value sig ''sha256'' = PStr (digest_of env data) \<and> g_verify env (pk_bytes key) signature (message data))"

lemma check_signature_ok:
  assumes "\<And>s r p. gs_status (state s r p) = s"
  shows "check_signature env project now key state data sb = Inr st \<and> gs_status st = GrantOk \<longleftrightarrow>
    signed_by env key data sb \<and> decide_policy env project now key state data = Inr st \<and> gs_status st = GrantOk"
  using assms by (auto simp: check_signature_def signed_by_def split: option.splits prod.splits if_splits)

text \<open>The state of a grant that holds.\<close>

definition ok_state :: "grant_env \<Rightarrow> string \<Rightarrow> string \<Rightarrow> policy \<Rightarrow> grant_state" where
  "ok_state env data sb p = grant_state_of (Some (digest_of env data)) (pin_of env data sb) GrantOk [] (Some p)"

lemma gs_status_state [simp]: "gs_status (grant_state_of d pin s r p) = s"
  by (simp add: grant_state_of_def)

lemma read_if_file_Some [simp]: "read_if_file f = Inr (Some b) \<longleftrightarrow> f = Content b"
  by (cases f) simp_all

lemma load_grant_ok_files:
  assumes "load_grant env project now fs = Inr st" and "grant_holds st"
  obtains data sb listed key where "policy_file fs = Content data" and "sig_file fs = Content sb"
    and "revoked env (revoked_file fs) = Inr listed" and "digest_of env data \<notin> set listed"
    and "pinned env (config_file fs) = Inr (Some key)"
proof -
  obtain data where d: "read_if_file (policy_file fs) = Inr (Some data)"
    using assms by (auto simp: load_grant_def Let_def grant_holds_def split: sum.splits option.splits)
  obtain sb where s: "read_if_file (sig_file fs) = Inr (Some sb)"
    using assms d by (auto simp: load_grant_def Let_def grant_holds_def split: sum.splits option.splits if_splits)
  obtain listed where l: "revoked env (revoked_file fs) = Inr listed" "digest_of env data \<notin> set listed"
    using assms d s by (auto simp: load_grant_def Let_def grant_holds_def split: sum.splits if_splits)
  obtain key where "pinned env (config_file fs) = Inr (Some key)"
    using assms d s l by (auto simp: load_grant_def Let_def grant_holds_def result_simps split: option.splits)
  with d s l show thesis by (intro that) simp_all
qed

lemma load_grant_signed:
  assumes "policy_file fs = Content data" and "sig_file fs = Content sb"
    and "revoked env (revoked_file fs) = Inr listed" and "digest_of env data \<notin> set listed"
    and "pinned env (config_file fs) = Inr (Some key)"
  shows "load_grant env project now fs = Inr st \<and> grant_holds st \<longleftrightarrow>
    signed_by env key data sb \<and>
    (\<exists>p. utf8_valid data \<and> parse_policy env data = Inr p \<and> policy_binds env project now key p \<and>
      minutes 5 \<le> issued_at p + issued_offset p \<and> st = ok_state env data sb p)"
proof -
  have "load_grant env project now fs = check_signature env project now key
      (grant_state_of (Some (digest_of env data)) (pin_of env data sb)) data sb"
    using assms by (simp add: load_grant_def Let_def or_empty_def)
  then show ?thesis
    by (simp add: grant_holds_def check_signature_ok decide_policy_ok ok_state_def)
qed

lemma pinned_key:
  assumes "pinned env f = Inr (Some key)"
  shows "length (pk_bytes key) = 32 \<and> pk_id key = key_id env (pk_bytes key)"
  using assms
  by (auto simp: pinned_def split: disk_file.splits if_splits yaml_result.splits pyval.splits option.splits)

lemma holding_conditions:
  assumes "load_grant env project now fs = Inr st" and "grant_holds st"
  obtains data sb key p where "policy_file fs = Content data" and "sig_file fs = Content sb"
    and "signed_by env key data sb" and "parse_policy env data = Inr p" and "policy_binds env project now key p"
    and "st = ok_state env data sb p"
proof -
  obtain data sb listed key where f: "policy_file fs = Content data" "sig_file fs = Content sb"
    "revoked env (revoked_file fs) = Inr listed" "digest_of env data \<notin> set listed"
    "pinned env (config_file fs) = Inr (Some key)"
    using load_grant_ok_files [OF assms] by metis
  with assms load_grant_signed [OF f, of project now st] show thesis using that by blast
qed

subsection \<open>The revocation list read back\<close>

lemma revoked_written:
  assumes "\<forall>d \<in> set ds. below_del d"
  shows "revoked env (Content (dumps_strings ds)) = Inr ds"
proof -
  have "List.map_filter (\<lambda>v. case v of PStr s \<Rightarrow> Some s | _ \<Rightarrow> None) (map PStr ds) = ds"
    by (induction ds) simp_all
  then show ?thesis
    using loads_dumps_strings [OF assms, of "ent_fl (g_entry env)"] utf8_dumps_strings [OF assms]
    by (simp add: revoked_def loads_jcs_def)
qed

lemma below_del_digest [simp]: "below_del (digest_of env data)"
  by (simp add: digest_of_def hexdigest_def)

text \<open>The list can be read, holds only printable ASCII, and has the digest.\<close>

definition list_keeps :: "grant_env \<Rightarrow> string \<Rightarrow> disk_file \<Rightarrow> bool" where
  "list_keeps env d f \<longleftrightarrow>
    (\<exists>listed. revoked env f = Inr listed \<and> (\<forall>x \<in> set listed. below_del x) \<and> d \<in> set listed)"

lemma unlink_then_list [simp]: "revoked_file (snd (unlink_then d fs)) = revoked_file fs"
  by (auto simp: unlink_then_def unlink_signature_def split: disk_file.splits)

lemma revoke_lists:
  assumes "policy_file fs = Content data" and "revoked env (revoked_file fs) = Inr listed"
    and "\<forall>x \<in> set listed. below_del x"
  shows "list_keeps env (digest_of env data) (revoked_file (snd (revoke env fs)))"
    and "d \<in> set listed \<Longrightarrow> list_keeps env d (revoked_file (snd (revoke env fs)))"
proof -
  let ?l = "sorted_set (digest_of env data # listed)"
  have "revoked_file fs \<noteq> Directory" using assms(2) by (auto simp: revoked_def)
  then have "write_atomic (revoked_file fs) (dumps_strings ?l) = Inr (Content (dumps_strings ?l))"
    by (cases "revoked_file fs") simp_all
  then have f: "revoked_file (snd (revoke env fs)) = Content (dumps_strings ?l)"
    using assms(1,2) by (simp add: revoke_def Let_def)
  have b: "\<forall>x \<in> set ?l. below_del x" using assms(3) by simp
  show "list_keeps env (digest_of env data) (revoked_file (snd (revoke env fs)))"
    "d \<in> set listed \<Longrightarrow> list_keeps env d (revoked_file (snd (revoke env fs)))"
    using revoked_written [OF b, of env] b unfolding f list_keeps_def by auto
qed

subsection \<open>Properties\<close>

text \<open>
  C22. A grant that holds was signed by the operator's pinned key: the signature file has a
  signature of exactly these bytes that verifies under a pinned key of 32 bytes with the id of
  those bytes; the bytes validate as a policy that names this key, this folder and, when it
  names one, this repository's first commit, on a machine that confines commands when it says
  so; it is not revoked; and the time is at most five minutes before its start and before its end.
\<close>

theorem holding_grant_is_signed:
  assumes "load_grant env project now fs = Inr st" and "grant_holds st"
  shows "\<exists>data sb sig signature key p listed. policy_file fs = Content data \<and> sig_file fs = Content sb \<and>
    pinned env (config_file fs) = Inr (Some key) \<and> length (pk_bytes key) = 32 \<and> pk_id key = key_id env (pk_bytes key) \<and>
    read_signature env sb = Some (sig, signature) \<and> get_value sig ''sha256'' = PStr (digest_of env data) \<and>
    g_verify env (pk_bytes key) signature (message data) \<and>
    revoked env (revoked_file fs) = Inr listed \<and> digest_of env data \<notin> set listed \<and>
    parse_policy env data = Inr p \<and> policy_binds env project now key p \<and>
    gs_policy st = Some p \<and> gs_digest st = Some (digest_of env data) \<and> gs_pin st = Some (pin_of env data sb)"
proof -
  obtain data sb listed key where f: "policy_file fs = Content data" "sig_file fs = Content sb"
    "revoked env (revoked_file fs) = Inr listed" "digest_of env data \<notin> set listed"
    "pinned env (config_file fs) = Inr (Some key)"
    using load_grant_ok_files [OF assms] by metis
  with assms load_grant_signed [OF f, of project now st] obtain p where s: "signed_by env key data sb"
    and p: "parse_policy env data = Inr p" "policy_binds env project now key p" "st = ok_state env data sb p"
    by blast
  from s obtain sig signature where r: "read_signature env sb = Some (sig, signature)"
    "get_value sig ''sha256'' = PStr (digest_of env data)" "g_verify env (pk_bytes key) signature (message data)"
    by (auto simp: signed_by_def split: option.splits)
  have "length (pk_bytes key) = 32 \<and> pk_id key = key_id env (pk_bytes key)" by (rule pinned_key [OF f(5)])
  with f r p show ?thesis by (auto simp: ok_state_def grant_state_of_def)
qed

text \<open>
  A signed text holds for at most 365 days and five minutes: two moments at which the same
  policy file holds, in whatever folder, under whatever key, are closer than that.
\<close>

theorem grant_lifetime:
  assumes "load_grant env project now fs = Inr st" and "grant_holds st"
    and "load_grant env project' now' fs' = Inr st'" and "grant_holds st'" and "policy_file fs' = policy_file fs"
  shows "now' - now < days 365 + minutes 5"
proof -
  obtain data p key where a: "policy_file fs = Content data" "parse_policy env data = Inr p" "policy_binds env project now key p"
    using holding_conditions [OF assms(1,2)] by metis
  obtain key' where b: "policy_binds env project' now' key' p"
    using holding_conditions [OF assms(3,4)] assms(5) a(1,2) by (metis Inr_inject disk_file.inject(2))
  have "expires_at p - issued_at p \<le> days max_days"
    using a(2) by (auto simp: parse_policy_def Let_def split: yaml_result.splits option.splits if_splits)
  with a(3) b show ?thesis by (simp add: policy_binds_def max_days_def)
qed

text \<open>
  One signature file is good for one text: two policy files that hold under the same
  signature bytes have the same SHA-256.
\<close>

theorem signature_fixes_text:
  assumes "load_grant env project now fs = Inr st" and "grant_holds st"
    and "load_grant env project' now' fs' = Inr st'" and "grant_holds st'" and "sig_file fs' = sig_file fs"
  shows "gs_digest st' = gs_digest st"
proof -
  obtain data sb key p where a: "sig_file fs = Content sb" "signed_by env key data sb" "st = ok_state env data sb p"
    using holding_conditions [OF assms(1,2)] by metis
  obtain data' key' p' where b: "signed_by env key' data' sb" "st' = ok_state env data' sb p'"
    using holding_conditions [OF assms(3,4)] a(1) assms(5) by (metis disk_file.inject(2))
  have "digest_of env data' = digest_of env data"
    using a(2) b(1) by (auto simp: signed_by_def split: option.splits)
  with a(3) b(2) show ?thesis by (simp add: ok_state_def grant_state_of_def)
qed

text \<open>
  What may happen to the files: the operator signs or revokes, and anything else changes
  everything but the revocation list (the project's files, a new pinned key).
\<close>

inductive grant_step :: "grant_env \<Rightarrow> grant_files \<Rightarrow> grant_files \<Rightarrow> bool" for env where
  step_sign: "grant_step env fs (snd (sign env project private_key key fs))"
| step_revoke: "grant_step env fs (snd (revoke env fs))"
| step_other: "revoked_file fs' = revoked_file fs \<Longrightarrow> grant_step env fs fs'"

lemma sign_list [simp]:
  "revoked_file (snd (sign env project private_key key fs)) = revoked_file fs"
  "policy_file (snd (sign env project private_key key fs)) = policy_file fs"
  by (auto simp: sign_def Let_def split: sum.splits prod.splits)

lemma revoke_list_same:
  assumes "\<nexists>data. policy_file fs = Content data"
  shows "revoked_file (snd (revoke env fs)) = revoked_file fs"
  using assms by (cases "policy_file fs") (simp_all add: revoke_def)

lemma step_keeps_list:
  assumes "grant_step env fs fs'" and "list_keeps env d (revoked_file fs)"
  shows "list_keeps env d (revoked_file fs')"
  using assms
proof cases
  case step_revoke
  from assms(2) obtain listed where l: "revoked env (revoked_file fs) = Inr listed" "\<forall>x \<in> set listed. below_del x" "d \<in> set listed"
    by (auto simp: list_keeps_def)
  show ?thesis
  proof (cases "\<exists>data. policy_file fs = Content data")
    case True
    with revoke_lists(2) [OF _ l] step_revoke show ?thesis by blast
  next
    case False
    with revoke_list_same [OF False] step_revoke assms(2) show ?thesis by simp
  qed
qed (use assms(2) in simp_all)

lemma list_keeps_forever: "(grant_step env)\<^sup>*\<^sup>* fs fs' \<Longrightarrow> list_keeps env d (revoked_file fs) \<Longrightarrow> list_keeps env d (revoked_file fs')"
  by (induction rule: rtranclp_induct) (blast intro: step_keeps_list)+

text \<open>
  C23. A revoked grant stays refused: after \<open>revoke\<close>, through any sequence of signings,
  revocations and changes to the project's files and to the pinned key, a policy file with the
  revoked digest is decided as revoked, also when the same text was signed again. The list
  must hold printable ASCII before, as \<open>revoke\<close> itself writes it.
\<close>

theorem revoked_stays_refused:
  assumes "policy_file fs = Content data" and "revoked env (revoked_file fs) = Inr listed"
    and "\<forall>x \<in> set listed. below_del x" and "(grant_step env)\<^sup>*\<^sup>* (snd (revoke env fs)) fs'"
    and "policy_file fs' = Content data'" and "digest_of env data' = digest_of env data"
    and "load_grant env project now fs' = Inr st"
  shows "gs_status st = Revoked"
proof -
  have "list_keeps env (digest_of env data) (revoked_file fs')"
    by (rule list_keeps_forever [OF assms(4) revoke_lists(1) [OF assms(1-3)]])
  then obtain listed' where "revoked env (revoked_file fs') = Inr listed'" "digest_of env data \<in> set listed'"
    by (auto simp: list_keeps_def)
  with assms(5-7) show ?thesis by (auto simp: load_grant_def Let_def split: sum.splits)
qed

lemma below_del_key_id: "key_id_form k \<Longrightarrow> below_del k"
proof -
  assume k: "key_id_form k"
  then have "k = ''ed25519:'' @ drop 8 k" by (auto simp: key_id_form_def startswith_iff)
  moreover have "below_del ''ed25519:''" by (simp add: below_del_def)
  moreover have "below_del (drop 8 k)"
    using k by (auto simp: key_id_form_def below_del_def list_all_iff lower_hex_def is_digit_def)
  ultimately show ?thesis by (metis below_del_append)
qed

lemma signature_reads:
  assumes "below_del (pk_id key)"
  shows "read_signature env (signature_text env key data signature) =
    Some ([(KStr ''format'', PStr sig_format), (KStr ''key_id'', PStr (pk_id key)),
      (KStr ''sha256'', PStr (digest_of env data)), (KStr ''signature'', PStr (b64encode signature))], signature)"
proof -
  let ?kvs = "[(''format'', sig_format), (''key_id'', pk_id key), (''sha256'', digest_of env data),
      (''signature'', b64encode signature)]"
  have "below_del ''format''" "below_del ''key_id''" "below_del ''sha256''" "below_del ''signature''" "below_del sig_format"
    by (simp_all add: below_del_def sig_format_def)
  then have b: "\<forall>kv \<in> set ?kvs. below_del (fst kv) \<and> below_del (snd kv)"
    using assms below_del_b64 by simp
  have ne: "?kvs \<noteq> []" by simp
  from loads_dumps_indented [OF ne b, of "ent_fl (g_entry env)"] utf8_dumps_indented [OF b]
  show ?thesis
    by (simp add: read_signature_def signature_text_def loads_jcs_def dict_of_pairs_def get_value_def get_default_def
        b64decode_encode)
qed

lemma sign_ok:
  assumes "sign env project private_key key fs = (Inr d, fs')"
  obtains data p recs where "policy_file fs = Content data" and "utf8_valid data" and "parse_policy env data = Inr p"
    and "policy_key_id p = pk_id key" and "same_folder env (binding_root p) project" and "d = digest_of env data"
    and "fs' = fs\<lparr>sig_file := Content (signature_text env key data (private_key (message data))), entry_records := recs\<rparr>"
proof -
  obtain data where data: "policy_file fs = Content data"
    using assms by (cases "policy_file fs") (simp_all add: sign_def)
  have u: "utf8_valid data" using assms data by (simp add: sign_def split: if_splits)
  obtain p where p: "parse_policy env data = Inr p"
    using assms data u by (cases "parse_policy env data") (simp_all add: sign_def)
  have k: "policy_key_id p = pk_id key" "same_folder env (binding_root p) project" "\<not> state_linked fs"
    using assms data u p by (simp_all add: sign_def split: if_splits)
  obtain r recs where rec: "record_signed (g_entry env) (records_mkdir fs) (project_tree fs) (digest_of env data) (entry_records fs) = (r, recs)"
    by fastforce
  have "sig_file fs \<noteq> Directory" using assms data u p k by (auto simp: sign_def)
  then have "write_atomic (sig_file fs) (signature_text env key data (private_key (message data)))
      = Inr (Content (signature_text env key data (private_key (message data))))"
    by (cases "sig_file fs") simp_all
  then have "d = digest_of env data"
    and "fs' = fs\<lparr>sig_file := Content (signature_text env key data (private_key (message data))), entry_records := recs\<rparr>"
    using assms data u p k rec by (auto simp: sign_def Let_def split: sum.splits)
  with data u p k show thesis by (intro that)
qed

lemma parse_policy_valid: "parse_policy env t = Inr p \<Longrightarrow> policy_valid (ent_ops (g_entry env)) p"
  by (auto simp: parse_policy_def Let_def split: yaml_result.splits option.splits if_splits)

lemma sign_load:
  assumes "sign env project private_key key fs = (Inr d, fs')"
    and "pinned env (config_file fs) = Inr (Some key)" and "\<forall>m. g_verify env (pk_bytes key) (private_key m) m"
    and "revoked env (revoked_file fs) = Inr listed" and "d \<notin> set listed"
    and "policy_file fs = Content data" and "parse_policy env data = Inr p"
    and "binding_commit p \<noteq> None \<longrightarrow> repo_root_commit env project = binding_commit p"
    and "sandbox_mode p = ''enforced'' \<longrightarrow> g_confines env"
    and "minutes 5 \<le> issued_at p + issued_offset p" and "issued_at p - minutes 5 \<le> now" and "now < expires_at p"
  shows "load_grant env project now fs' = Inr (ok_state env data (signature_text env key data (private_key (message data))) p)"
proof -
  let ?sb = "signature_text env key data (private_key (message data))"
  obtain recs where u: "utf8_valid data" and k: "policy_key_id p = pk_id key" "same_folder env (binding_root p) project"
    and d: "d = digest_of env data" and fs': "fs' = fs\<lparr>sig_file := Content ?sb, entry_records := recs\<rparr>"
    using sign_ok [OF assms(1)] assms(6,7) by (metis Inr_inject disk_file.inject(2))
  have "below_del (pk_id key)"
    using parse_policy_valid [OF assms(7)] k(1) below_del_key_id by (auto simp: policy_valid_def)
  then have "signed_by env key data ?sb"
    using assms(3) by (simp add: signed_by_def signature_reads get_value_def get_default_def)
  moreover have "policy_binds env project now key p" using k assms(8-12) by (simp add: policy_binds_def)
  ultimately show ?thesis
    using load_grant_signed [of fs' data ?sb env listed key project now "ok_state env data ?sb p"] assms(2-7,10) u d
    by (simp add: fs')
qed

text \<open>
  What the operator signs holds: after \<open>sign\<close> with the pinned key, in the folder the
  policy names, \<open>load_grant\<close> accepts the grant at every moment of its time, provided that it is
  not revoked, that it names no other first commit, and that the machine confines commands if it
  says so. The signature file is read back as it was written.
\<close>

theorem signed_grant_holds:
  assumes "sign env project private_key key fs = (Inr d, fs')"
    and "pinned env (config_file fs) = Inr (Some key)" and "\<forall>m. g_verify env (pk_bytes key) (private_key m) m"
    and "revoked env (revoked_file fs) = Inr listed" and "d \<notin> set listed"
    and "policy_file fs = Content data" and "parse_policy env data = Inr p"
    and "binding_commit p \<noteq> None \<longrightarrow> repo_root_commit env project = binding_commit p"
    and "sandbox_mode p = ''enforced'' \<longrightarrow> g_confines env"
    and "minutes 5 \<le> issued_at p + issued_offset p" and "issued_at p - minutes 5 \<le> now" and "now < expires_at p"
  shows "load_grant env project now fs' = Inr (ok_state env data (signature_text env key data (private_key (message data))) p)"
  using assms by (rule sign_load)

subsection \<open>Examples\<close>

definition demo_public :: string where
  "demo_public = replicate 32 (CHR ''k'')"

definition demo_key :: public_key where
  "demo_key = \<lparr>pk_id = ''ed25519:6b6b6b6b6b6b6b6b'', pk_bytes = demo_public\<rparr>"

definition demo_grant_policy :: "string option \<Rightarrow> policy" where
  "demo_grant_policy commit = demo_policy\<lparr>binding_commit := commit, issued_at := days 10, expires_at := days 100,
     policy_key_id := pk_id demo_key, allow_rules := [demo_rule ''tests'' [''pytest''] []]\<rparr>"

definition demo_config :: pyval where
  "demo_config = PDict [(KStr ''operator_key'', PDict [(KStr ''key_id'', PStr (pk_id demo_key)),
     (KStr ''public_key'', PStr (b64encode demo_public))])]"

definition demo_grant_env :: "string option \<Rightarrow> grant_env" where
  "demo_grant_env commit = \<lparr>g_entry = demo_entry_env\<lparr>ent_sha := (\<lambda>b. take 8 (b @ replicate 8 (CHR ''k'')))\<rparr>, g_fs = demo_fsys,
     g_policy_yaml = (\<lambda>_. Loaded (Some (demo_grant_policy commit))), g_config_yaml = (\<lambda>_. Loaded demo_config),
     g_verify = (\<lambda>public signature m. signature = m), g_roots = (\<lambda>_. Some [replicate 40 (CHR ''a'')]), g_confines = False\<rparr>"

definition demo_files :: grant_files where
  "demo_files = \<lparr>policy_file = Content ''v1'', sig_file = Absent, state_linked = False, revoked_file = Absent,
     config_file = Content ''c'', entry_records = (\<lambda>_. Absent), records_mkdir = True,
     project_tree = \<lparr>listing = None, entry_at = (\<lambda>_. EntryNone), late = (\<lambda>_. False)\<rparr>\<rparr>"

definition demo_signed_files :: "string option \<Rightarrow> grant_files" where
  "demo_signed_files commit = snd (sign (demo_grant_env commit) ''/p'' (\<lambda>m. m) demo_key demo_files)"

lemma demo_pinned: "pinned (demo_grant_env commit) (Content ''c'') = Inr (Some demo_key)"
proof -
  have "b64decode (b64encode demo_public) = Some demo_public" by (rule b64decode_encode)
  moreover have "key_id (demo_grant_env commit) demo_public = pk_id demo_key"
    by (simp add: key_id_def digest_of_def hexdigest_def demo_grant_env_def demo_key_def demo_public_def)
      code_simp
  moreover have "length demo_public = 32" by (simp add: demo_public_def)
  ultimately show ?thesis
    by (simp add: pinned_def demo_grant_env_def [of commit] demo_config_def get_value_def get_default_def)
      (simp add: demo_key_def)
qed

definition other_commit :: "string option" where
  "other_commit = Some (replicate 40 (CHR ''b''))"

lemma demo_valid: "policy_valid ascii_ops (demo_grant_policy None)" "policy_valid ascii_ops (demo_grant_policy other_commit)"
  by code_simp+

lemma demo_parse:
  assumes "policy_valid ascii_ops (demo_grant_policy commit)"
  shows "parse_policy (demo_grant_env commit) t = Inr (demo_grant_policy commit)"
  using assms
  by (simp add: parse_policy_def demo_grant_env_def demo_entry_env_def)
    (simp add: demo_grant_policy_def days_def max_days_def)

lemma demo_sign:
  assumes "policy_valid ascii_ops (demo_grant_policy commit)"
  shows "sign (demo_grant_env commit) ''/p'' (\<lambda>m. m) demo_key demo_files =
    (Inr (digest_of (demo_grant_env commit) ''v1''), demo_signed_files commit)"
proof -
  have "utf8_valid ''v1''" by code_simp
  moreover have "policy_key_id (demo_grant_policy commit) = pk_id demo_key"
    by (simp add: demo_grant_policy_def)
  moreover have "same_folder (demo_grant_env commit) (binding_root (demo_grant_policy commit)) ''/p''"
    by (simp add: same_folder_def demo_grant_policy_def demo_policy_def)
  ultimately show ?thesis
    unfolding demo_signed_files_def
    by (simp add: sign_def Let_def demo_parse [OF assms] demo_files_def record_signed_def entry_point_digests_def)
qed

lemma demo_verifies: "\<forall>m. g_verify (demo_grant_env commit) (pk_bytes demo_key) m m"
  by (simp add: demo_grant_env_def)

lemma demo_lists: "revoked env (revoked_file demo_files) = Inr []"
  by (simp add: demo_files_def revoked_def)

lemma demo_load:
  assumes "days 10 \<le> now" and "now < days 100"
  shows "load_grant (demo_grant_env None) ''/p'' now (demo_signed_files None) =
    Inr (ok_state (demo_grant_env None) ''v1'' (signature_text (demo_grant_env None) demo_key ''v1'' (message ''v1''))
      (demo_grant_policy None))"
proof (rule sign_load [OF demo_sign [OF demo_valid(1)] _ demo_verifies demo_lists])
  show "pinned (demo_grant_env None) (config_file demo_files) = Inr (Some demo_key)"
    using demo_pinned by (simp add: demo_files_def)
  show "parse_policy (demo_grant_env None) ''v1'' = Inr (demo_grant_policy None)" by (rule demo_parse [OF demo_valid(1)])
qed (use assms in \<open>simp_all add: demo_files_def demo_grant_policy_def demo_policy_def days_def minutes_def\<close>)

lemma ok_state_holds [simp]: "grant_holds (ok_state env data sb p)" "gs_digest (ok_state env data sb p) = Some (digest_of env data)"
  by (simp_all add: ok_state_def grant_state_of_def grant_holds_def)

theorem holding_grant_is_signed_witness:
  "\<exists>sb. sig_file (demo_signed_files None) = Content sb \<and>
    (\<exists>sig. read_signature (demo_grant_env None) sb = Some (sig, message ''v1''))"
proof -
  have l: "load_grant (demo_grant_env None) ''/p'' (days 50) (demo_signed_files None) =
    Inr (ok_state (demo_grant_env None) ''v1'' (signature_text (demo_grant_env None) demo_key ''v1'' (message ''v1''))
      (demo_grant_policy None))"
    by (rule demo_load) (simp_all add: days_def)
  have p: "policy_file (demo_signed_files None) = Content ''v1''"
    by (simp add: demo_signed_files_def demo_files_def)
  have v: "g_verify (demo_grant_env None) k signature m \<Longrightarrow> signature = m" for k signature m
    by (simp add: demo_grant_env_def)
  from holding_grant_is_signed [OF l ok_state_holds(1)] obtain data sb sig signature and key :: public_key where
    "policy_file (demo_signed_files None) = Content data"
    "sig_file (demo_signed_files None) = Content sb" "read_signature (demo_grant_env None) sb = Some (sig, signature)"
    "g_verify (demo_grant_env None) (pk_bytes key) signature (message data)"
    by blast
  with v p show ?thesis by auto
qed

theorem grant_lifetime_witness: "days 99 - days 11 < days 365 + minutes 5"
  by (rule grant_lifetime [OF demo_load ok_state_holds(1) demo_load ok_state_holds(1) refl]) (simp_all add: days_def)

theorem signature_fixes_text_witness:
  "gs_digest (ok_state (demo_grant_env None) ''v1'' (signature_text (demo_grant_env None) demo_key ''v1'' (message ''v1''))
      (demo_grant_policy None)) = Some (digest_of (demo_grant_env None) ''v1'')"
  using signature_fixes_text [OF demo_load ok_state_holds(1) demo_load ok_state_holds(1) refl, of "days 99" "days 11"]
  by (simp add: days_def)

theorem signed_grant_holds_witness:
  "load_grant (demo_grant_env None) ''/p'' (days 20) (demo_signed_files None) =
    Inr (ok_state (demo_grant_env None) ''v1'' (signature_text (demo_grant_env None) demo_key ''v1'' (message ''v1''))
      (demo_grant_policy None))"
proof (rule signed_grant_holds [OF demo_sign [OF demo_valid(1)] _ demo_verifies demo_lists])
  show "pinned (demo_grant_env None) (config_file demo_files) = Inr (Some demo_key)"
    using demo_pinned by (simp add: demo_files_def)
  show "parse_policy (demo_grant_env None) ''v1'' = Inr (demo_grant_policy None)" by (rule demo_parse [OF demo_valid(1)])
qed (simp_all add: demo_files_def demo_grant_policy_def demo_policy_def days_def minutes_def)

theorem revoked_stays_refused_witness:
  "\<exists>st. load_grant (demo_grant_env None) ''/p'' (days 20)
      (snd (sign (demo_grant_env None) ''/p'' (\<lambda>m. m) demo_key (snd (revoke (demo_grant_env None) demo_files)))) = Inr st \<and>
    gs_status st = Revoked"
proof -
  let ?e = "demo_grant_env None" and ?r = "snd (revoke (demo_grant_env None) demo_files)"
  let ?s = "snd (sign ?e ''/p'' (\<lambda>m. m) demo_key ?r)"
  have f: "policy_file demo_files = Content ''v1''" by (simp add: demo_files_def)
  have "list_keeps ?e (digest_of ?e ''v1'') (revoked_file ?r)" by (rule revoke_lists(1) [OF f demo_lists]) simp
  then obtain listed where l: "revoked ?e (revoked_file ?s) = Inr listed" "digest_of ?e ''v1'' \<in> set listed"
    by (auto simp: list_keeps_def)
  have p: "policy_file ?s = Content ''v1''" "sig_file ?s = Absent \<or> (\<exists>b. sig_file ?s = Content b)"
    by (simp_all add: demo_files_def revoke_def revoked_def sign_def unlink_then_def unlink_signature_def Let_def
        split: sum.split prod.split)
  then obtain st where st: "load_grant ?e ''/p'' (days 20) ?s = Inr st"
    using l by (auto simp: load_grant_def Let_def)
  have "(grant_step ?e)\<^sup>*\<^sup>* ?r ?s" by (blast intro: step_sign)
  from revoked_stays_refused [OF f demo_lists _ this p(1) refl st] st show ?thesis by simp
qed

text \<open>
  \<open>sign\<close> does not compare the policy's first commit with the repository's: it signs a
  policy bound to another repository and returns its digest, and the grant does not hold.
\<close>

theorem sign_ignores_commit:
  "fst (sign (demo_grant_env other_commit) ''/p'' (\<lambda>m. m) demo_key demo_files)
      = Inr (digest_of (demo_grant_env other_commit) ''v1'') \<and>
   repo_root_commit (demo_grant_env other_commit) ''/p'' \<noteq> binding_commit (demo_grant_policy other_commit) \<and>
   (\<nexists>now st. load_grant (demo_grant_env other_commit) ''/p'' now (demo_signed_files other_commit) = Inr st \<and> grant_holds st)"
proof (intro conjI)
  show "fst (sign (demo_grant_env other_commit) ''/p'' (\<lambda>m. m) demo_key demo_files)
      = Inr (digest_of (demo_grant_env other_commit) ''v1'')"
    by (simp add: demo_sign [OF demo_valid(2)])
  show c: "repo_root_commit (demo_grant_env other_commit) ''/p'' \<noteq> binding_commit (demo_grant_policy other_commit)"
    by (simp add: repo_root_commit_def demo_grant_env_def demo_grant_policy_def other_commit_def)
  show "\<nexists>now st. load_grant (demo_grant_env other_commit) ''/p'' now (demo_signed_files other_commit) = Inr st \<and> grant_holds st"
  proof
    assume "\<exists>now st. load_grant (demo_grant_env other_commit) ''/p'' now (demo_signed_files other_commit) = Inr st \<and> grant_holds st"
    then obtain now st where l: "load_grant (demo_grant_env other_commit) ''/p'' now (demo_signed_files other_commit) = Inr st"
      "grant_holds st" by blast
    from holding_conditions [OF l] obtain data key p where "parse_policy (demo_grant_env other_commit) data = Inr p"
      "policy_binds (demo_grant_env other_commit) ''/p'' now key p" by metis
    then have "policy_binds (demo_grant_env other_commit) ''/p'' now key (demo_grant_policy other_commit)"
      by (simp add: demo_parse [OF demo_valid(2)])
    with c show False by (simp add: policy_binds_def demo_grant_policy_def other_commit_def)
  qed
qed

end
