(* ===== verification/Tier3.thy ===== *)
theory Tier3
  imports Grant
begin

section \<open>Running a command under a grant\<close>

text \<open>
  The model of \<open>src/ract/policy/tier3.py\<close> and of the path every tier-3 command takes in
  \<open>src/ract/tools/tests_tool.py\<close>: the context of a step with its pinned grant, the refusals, the
  question, and the request that reaches \<open>run_command\<close>, which starts the process and is
  outside the model. The operator's answer is a function of the question; the project's files
  may change between any two of the checks, so each check has its own state of the files.
\<close>

subsection \<open>The context\<close>

definition suspended_reason :: string where
  "suspended_reason = ''suspended: policy changed. .ract/policy.yaml or its signature changed during '' @
    ''this session; tier 3 stays off until you confirm with /permissions resume''"

record tier3_context =
  t_project :: string
  t_grant :: grant_state
  t_approver :: bool
  t_mode :: string
  t_written :: "string list"
  t_pin :: "string option"
  t_approvals :: "string list list option"

definition suspend :: "grant_state \<Rightarrow> grant_state" where
  "suspend st = st\<lparr>gs_status := Suspended, gs_reason := suspended_reason, gs_policy := None\<rparr>"

text \<open>An error while the files are read again counts as a change.\<close>

definition check_pin :: "grant_env \<Rightarrow> grant_files \<Rightarrow> tier3_context \<Rightarrow> tier3_context" where
  "check_pin env fs ctx =
    (case t_pin ctx of
       None \<Rightarrow> ctx
     | Some expected \<Rightarrow>
         if gs_status (t_grant ctx) = Suspended then ctx
         else
           let now = (case pin_digest env fs of Inl _ \<Rightarrow> [] | Inr d \<Rightarrow> d) in
           if now \<noteq> expected then ctx\<lparr>t_grant := suspend (t_grant ctx)\<rparr> else ctx)"

definition for_project ::
    "grant_env \<Rightarrow> string \<Rightarrow> int \<Rightarrow> grant_files \<Rightarrow> bool \<Rightarrow> string option \<Rightarrow> string \<Rightarrow> string list list option
      \<Rightarrow> grant_error + tier3_context" where
  "for_project env project now fs approver expected_pin mode approvals =
    rbind (load_grant env project now fs) (\<lambda>loaded.
      let grant = (if expected_pin \<noteq> None \<and> gs_pin loaded \<noteq> expected_pin then suspend loaded else loaded);
          allowed = (case gs_policy grant of None \<Rightarrow> ''ask'' | Some p \<Rightarrow> max_mode p)
      in Inr \<lparr>t_project = project, t_grant = grant, t_approver = approver,
           t_mode = (if mode = ''allowlist'' \<and> allowed = ''allowlist'' then ''allowlist'' else ''ask''),
           t_written = [],
           t_pin = (if expected_pin \<noteq> None then expected_pin else gs_pin grant),
           t_approvals = approvals\<rparr>)"

datatype refusal = ToolRefused string

text \<open>\<open>tier3_context()\<close> of the tools: the context after the check, or the refusal.\<close>

definition tier3_context_of ::
    "grant_env \<Rightarrow> grant_files \<Rightarrow> tier3_context option \<Rightarrow> refusal + tier3_context" where
  "tier3_context_of env fs current =
    (case current of
       None \<Rightarrow> Inl (ToolRefused ''tier 3 is off for this step'')
     | Some ctx0 \<Rightarrow>
         let ctx = check_pin env fs ctx0 in
         if \<not> grant_holds (t_grant ctx) \<or> gs_policy (t_grant ctx) = None
         then Inl (ToolRefused (''tier 3 is off: '' @ gs_reason (t_grant ctx)))
         else Inr ctx)"

subsection \<open>The question\<close>

datatype answer = Declined | Approved | ForSession

record question =
  q_argv :: "string list"
  q_executable :: "string option"
  q_network :: string
  q_sandbox :: string
  q_rule :: string
  q_timeout_s :: int
  q_why :: string
  q_reason :: string
  q_notes :: "string list"
  q_follows :: string
  q_entry_points :: "change list"
  q_session_choice :: bool

text \<open>
  What a call sees of the machine: the parameters of \<open>classify\<close>, the name of the sandbox that
  confines the runner, and the line about fetched text that came before.
\<close>

record call_env =
  c_host :: host
  c_path :: string
  c_confined :: "string option"
  c_follows :: string

definition confined_lines :: "allow_rule \<Rightarrow> string option \<Rightarrow> string \<times> string" where
  "confined_lines rule confined =
    ((if rule_network rule then ''on''
      else if confined \<noteq> None then ''off'' else ''off (not enforced on this machine)''),
     (case confined of
        Some name \<Rightarrow> ''enforced: '' @ name
      | None \<Rightarrow> ''best effort: not enforced on this machine''))"

definition make_question ::
    "call_env \<Rightarrow> match_result \<Rightarrow> allow_rule \<Rightarrow> string \<Rightarrow> string list \<Rightarrow> change list \<Rightarrow> bool \<Rightarrow> question" where
  "make_question c m rule reason notes changes session_choice =
    \<lparr>q_argv = m_argv m, q_executable = m_executable m, q_network = fst (confined_lines rule (c_confined c)),
     q_sandbox = snd (confined_lines rule (c_confined c)), q_rule = rule_id rule, q_timeout_s = rule_timeout_s rule,
     q_why = m_reason m, q_reason = reason, q_notes = m_notes m @ notes, q_follows = c_follows c,
     q_entry_points = changes, q_session_choice = session_choice\<rparr>"

subsection \<open>The gate\<close>

record run_request =
  r_match :: match_result
  r_rule :: allow_rule
  r_digest :: "string option"
  r_approver :: string

text \<open>What the turn records: a denial nobody could answer, and that fetched text is cleared.\<close>

datatype effect = RecordDenial "string list" "string option" string | ApprovedAfterExternal

text \<open>Only the rule the tool runs under may answer, over unchanged files, with no fetched text before.\<close>

definition unasked_ok :: "call_env \<Rightarrow> match_result \<Rightarrow> allow_rule \<Rightarrow> change list \<Rightarrow> bool" where
  "unasked_ok c m rule changes \<longleftrightarrow>
    m_outcome m = Matches \<and> m_rule_id m = Some (rule_id rule) \<and> changes = [] \<and> c_follows c = []"

definition approved_unasked ::
    "call_env \<Rightarrow> tier3_context \<Rightarrow> match_result \<Rightarrow> allow_rule \<Rightarrow> change list \<Rightarrow> string" where
  "approved_unasked c ctx m rule changes =
    (if unasked_ok c m rule changes then
       (if t_mode ctx = ''allowlist'' then ''allow-rule''
        else case t_approvals ctx of
          Some approved \<Rightarrow> if covers approved (m_argv m) then ''session'' else []
        | None \<Rightarrow> [])
     else [])"

definition ask ::
    "call_env \<Rightarrow> tier3_context \<Rightarrow> match_result \<Rightarrow> allow_rule \<Rightarrow> string \<Rightarrow> string list \<Rightarrow> change list
      \<Rightarrow> (question \<Rightarrow> answer) \<Rightarrow> (refusal + string) \<times> tier3_context \<times> effect list" where
  "ask c ctx m rule reason notes changes approve =
    (let choice = (t_approvals ctx \<noteq> None \<and> unasked_ok c m rule changes);
         given = approve (make_question c m rule reason notes changes choice);
         effects = (if c_follows c \<noteq> [] then [ApprovedAfterExternal] else [])
     in if given = Declined then (Inl (ToolRefused ''you declined the command; nothing ran''), ctx, [])
        else if given = ForSession \<and> choice
        then (Inr ''operator-tty, for this session'',
              ctx\<lparr>t_approvals := map_option (add_approval (m_argv m)) (t_approvals ctx)\<rparr>, effects)
        else (Inr ''operator-tty'', ctx, effects))"

definition other_backend :: "policy \<Rightarrow> allow_rule \<Rightarrow> match_result \<Rightarrow> allow_rule option" where
  "other_backend p rule m =
    find (\<lambda>r. rule_backend r \<noteq> ''host'') (rule # filter (\<lambda>r. Some (rule_id r) = m_rule_id m) (allow_rules p))"

definition run_under_rule ::
    "grant_env \<Rightarrow> call_env \<Rightarrow> string \<Rightarrow> tree \<Rightarrow> records \<Rightarrow> grant_files \<Rightarrow> tier3_context \<Rightarrow> policy \<Rightarrow> allow_rule
      \<Rightarrow> string list \<Rightarrow> string \<Rightarrow> string list \<Rightarrow> (question \<Rightarrow> answer)
      \<Rightarrow> (refusal + run_request) \<times> tier3_context \<times> effect list" where
  "run_under_rule env c root tr recs fs ctx p rule argv reason notes approve =
    (let m = classify (c_host c) (ent_ops (g_entry env)) (g_fs env) argv (Some p) root (t_written ctx) (c_path c) [t_project ctx]
     in if m_outcome m = Refused then (Inl (ToolRefused (''refused: '' @ m_reason m)), ctx, [])
        else case other_backend p rule m of
          Some r \<Rightarrow> (Inl (ToolRefused (''the rule '' @ rule_id r @ '' runs with backend '' @ rule_backend r)), ctx, [])
        | None \<Rightarrow>
            if \<not> t_approver ctx
            then (Inl (ToolRefused ''tier 3 asks you before a command runs, and nobody can answer here''), ctx,
                  [RecordDenial (m_argv m) (m_rule_id m) reason])
            else
              let changes = changed_entry_points (g_entry env) tr recs (gs_digest (t_grant ctx)) (t_written ctx) (m_argv m);
                  unasked = approved_unasked c ctx m rule changes
              in case (if unasked \<noteq> [] then (Inr unasked, ctx, []) else ask c ctx m rule reason notes changes approve) of
                   (Inl e, ctx', effects) \<Rightarrow> (Inl e, ctx', effects)
                 | (Inr approved_by, ctx', effects) \<Rightarrow>
                     let ctx'' = check_pin env fs ctx' in
                     if gs_status (t_grant ctx'') = Suspended
                     then (Inl (ToolRefused (''tier 3 is off: '' @ gs_reason (t_grant ctx'') @ ''; nothing ran'')), ctx'', effects)
                     else (Inr \<lparr>r_match = m, r_rule = rule, r_digest = gs_digest (t_grant ctx''), r_approver = approved_by\<rparr>,
                           ctx'', effects))"

subsection \<open>The tests\<close>

definition selector_ok :: "string \<Rightarrow> bool" where
  "selector_ok selector =
    (let path = slashed (before_colons selector) in
     \<not> (selector = [] \<or> dashed selector \<or> CHR 0x00 \<in> set selector \<or> 300 < str_len selector \<or>
        startswith path ''/'' \<or> CHR '':'' \<in> set path \<or> ''..'' \<in> set (all_parts path)))"

definition selectors_ok :: "string list \<Rightarrow> bool" where
  "selectors_ok selectors \<longleftrightarrow> length selectors \<le> 32 \<and> list_all selector_ok selectors"

definition test_rule :: "policy \<Rightarrow> allow_rule option" where
  "test_rule p =
    (case find (\<lambda>r. rule_id r = ''tests'') (allow_rules p) of
       Some r \<Rightarrow> Some r
     | None \<Rightarrow>
         find (\<lambda>r. rule_argv r \<in> {[''python'', ''-m'', ''pytest''], [''pytest''], [''npm'', ''test'']}) (allow_rules p))"

definition runner_names :: "string list" where
  "runner_names = [''conftest.py'', ''pytest.ini'', ''pyproject.toml'', ''tox.ini'', ''setup.cfg'', ''package.json'',
    ''jest.config.js'', ''vitest.config.ts'']"

definition project_code_notes :: "string list \<Rightarrow> string list" where
  "project_code_notes written =
    (let mine = sorted_set (filter (\<lambda>p. path_name p \<in> set runner_names \<or> is_test_file p) written);
         note = ''this runs project code: the tests, conftest.py and the runner'' @ [CHR 0x27] @ ''s configuration'';
         shown = join '', '' (take 6 mine) @
           (if 6 < length mine then '' and '' @ dec_nat (length mine - 6) @ '' more'' else [])
     in if mine = [] then [note] else [note @ ''; written in this session: '' @ shown])"

definition test_argv :: "textops \<Rightarrow> allow_rule \<Rightarrow> string list \<Rightarrow> string list" where
  "test_argv ops rule selectors =
    (let is_pytest = (''pytest'' \<in> set (map (\<lambda>a. strip_suffix [''.exe''] (op_lower ops (path_name a))) (rule_argv rule)))
     in rule_argv rule @ (if is_pytest \<and> selectors \<noteq> [] then [''--''] else []) @ selectors)"

definition run_tests ::
    "grant_env \<Rightarrow> call_env \<Rightarrow> string \<Rightarrow> tree \<Rightarrow> records \<Rightarrow> grant_files \<Rightarrow> grant_files \<Rightarrow> tier3_context option
      \<Rightarrow> string list \<Rightarrow> string \<Rightarrow> (question \<Rightarrow> answer)
      \<Rightarrow> (refusal + run_request) \<times> tier3_context option \<times> effect list" where
  "run_tests env c root tr recs fs fs' current selectors reason approve =
    (case tier3_context_of env fs current of
       Inl e \<Rightarrow> (Inl e, map_option (check_pin env fs) current, [])
     | Inr ctx \<Rightarrow>
         (case gs_policy (t_grant ctx) of
            None \<Rightarrow> (Inl (ToolRefused ''tier 3 is off''), Some ctx, [])
          | Some p \<Rightarrow>
              (case test_rule p of
                 None \<Rightarrow> (Inl (ToolRefused ''the grant has no test rule''), Some ctx, [])
               | Some rule \<Rightarrow>
                   (case run_under_rule env c root tr recs fs' ctx p rule
                       (test_argv (ent_ops (g_entry env)) rule selectors) reason (project_code_notes (t_written ctx)) approve of
                      (r, ctx', effects) \<Rightarrow> (r, Some ctx', effects)))))"

subsection \<open>The pin\<close>

text \<open>A decision about some files and a digest of them that tells whether they are still those.\<close>

locale pinned_decision =
  fixes load :: "'f \<Rightarrow> 'e + grant_state" and pin :: "'f \<Rightarrow> 'o + string"
  assumes load_pin: "load fs = Inr st \<Longrightarrow> \<exists>d. pin fs = Inr d \<and> gs_pin st = Some d"
begin

lemma pin_of_load: "load fs = Inr st \<Longrightarrow> gs_pin st = Some d \<Longrightarrow> pin fs = Inr d"
  using load_pin by fastforce

lemma pin_defined: "load fs = Inr st \<Longrightarrow> gs_pin st \<noteq> None"
  using load_pin by fastforce

end

lemma gs_pin_state [simp]: "gs_pin (grant_state_of digest pin s r p) = Some pin"
  by (simp add: grant_state_of_def)

lemma check_time_state:
  "check_time now (grant_state_of digest pin) p = Inr st \<Longrightarrow> gs_pin st = Some pin"
  by (auto simp: check_time_def split: if_splits)

lemma decide_policy_state:
  assumes "decide_policy env project now key (grant_state_of digest pin) data = Inr st"
  shows "gs_pin st = Some pin"
proof (cases "parse_policy env data")
  case (Inl e)
  with assms show ?thesis by (cases e) (auto simp: decide_policy_def split: if_splits)
next
  case (Inr p)
  with assms show ?thesis
    unfolding decide_policy_def by (auto dest: check_time_state split: if_split_asm)
qed

lemma check_signature_state:
  "check_signature env project now key (grant_state_of digest pin) data sb = Inr st \<Longrightarrow> gs_pin st = Some pin"
  by (auto simp: check_signature_def dest: decide_policy_state split: option.splits if_splits)

lemma load_grant_pin:
  assumes "load_grant env project now fs = Inr st"
  shows "\<exists>d. pin_digest env fs = Inr d \<and> gs_pin st = Some d"
proof -
  obtain data where d: "read_if_file (policy_file fs) = Inr data"
    using assms by (cases "read_if_file (policy_file fs)") (simp_all add: load_grant_def)
  obtain sb where s: "read_if_file (sig_file fs) = Inr sb"
    using assms d by (cases "read_if_file (sig_file fs)") (simp_all add: load_grant_def)
  have "gs_pin st = Some (pin_of env (or_empty data) (or_empty sb))"
    using assms
    by (auto simp: load_grant_def d s Let_def result_simps dest: check_signature_state split: option.splits sum.splits if_splits)
  with d s show ?thesis by (simp add: pin_digest_def)
qed

interpretation grant_pin: pinned_decision "load_grant env project now" "pin_digest env"
  by unfold_locales (rule load_grant_pin)

lemma check_pin_passes:
  assumes "t_pin ctx = Some d" and "d \<noteq> []" and "gs_status (t_grant (check_pin env fs ctx)) \<noteq> Suspended"
  shows "check_pin env fs ctx = ctx" and "pin_digest env fs = Inr d"
proof -
  have s: "gs_status (t_grant ctx) \<noteq> Suspended"
    using assms(1,3) by (auto simp: check_pin_def)
  then have e: "(case pin_digest env fs of Inl _ \<Rightarrow> [] | Inr d \<Rightarrow> d) = d"
    using assms(1,3) by (auto simp: check_pin_def suspend_def Let_def split: if_splits)
  with s assms(1) show "check_pin env fs ctx = ctx" by (simp add: check_pin_def)
  from e assms(2) show "pin_digest env fs = Inr d" by (auto split: sum.splits)
qed

subsection \<open>What passes the gate\<close>

lemma check_pin_keeps [simp]:
  "t_pin (check_pin env fs ctx) = t_pin ctx" "t_approver (check_pin env fs ctx) = t_approver ctx"
  "t_mode (check_pin env fs ctx) = t_mode ctx" "t_approvals (check_pin env fs ctx) = t_approvals ctx"
  by (simp_all add: check_pin_def Let_def split: option.splits)

lemma check_pin_suspended [simp]: "gs_status (t_grant ctx) = Suspended \<Longrightarrow> check_pin env fs ctx = ctx"
  by (simp add: check_pin_def split: option.splits)

lemma ask_ok:
  assumes "ask c ctx m rule reason notes changes approve = (Inr by_whom, ctx', effects)"
  shows "approve (make_question c m rule reason notes changes (t_approvals ctx \<noteq> None \<and> unasked_ok c m rule changes)) \<noteq> Declined"
    and "by_whom \<in> {''operator-tty'', ''operator-tty, for this session''}"
    and "t_grant ctx' = t_grant ctx" and "t_pin ctx' = t_pin ctx"
  using assms by (auto simp: ask_def Let_def split: if_splits)

lemma approved_unasked_ok:
  assumes "approved_unasked c ctx m rule changes \<noteq> []"
  shows "unasked_ok c m rule changes"
    and "t_mode ctx = ''allowlist'' \<or> (\<exists>approved. t_approvals ctx = Some approved \<and> covers approved (m_argv m))"
  using assms by (auto simp: approved_unasked_def split: if_splits option.splits)

lemma run_under_rule_ok:
  assumes "run_under_rule env c root tr recs fs ctx p rule argv reason notes approve = (Inr req, ctx', effects)"
    and "t_pin ctx = Some d" and "d \<noteq> []"
  defines "m \<equiv> classify (c_host c) (ent_ops (g_entry env)) (g_fs env) argv (Some p) root (t_written ctx) (c_path c) [t_project ctx]"
  defines "changes \<equiv> changed_entry_points (g_entry env) tr recs (gs_digest (t_grant ctx)) (t_written ctx) (m_argv m)"
  shows "r_match req = m" and "m_outcome m \<noteq> Refused" and "other_backend p rule m = None" and "t_approver ctx"
    and "pin_digest env fs = Inr d" and "r_rule req = rule" and "r_digest req = gs_digest (t_grant ctx)"
    and "(\<exists>choice. approve (make_question c m rule reason notes changes choice) \<noteq> Declined) \<or>
      (unasked_ok c m rule changes \<and>
       (t_mode ctx = ''allowlist'' \<or> (\<exists>approved. t_approvals ctx = Some approved \<and> covers approved (m_argv m))))"
proof -
  note def = run_under_rule_def Let_def m_def [symmetric]
  show out: "m_outcome m \<noteq> Refused" using assms(1) by (auto simp: def)
  then show be: "other_backend p rule m = None" using assms(1) by (auto simp: def split: option.splits)
  then show ap: "t_approver ctx" using assms(1) out by (auto simp: def split: if_splits)
  let ?pick = "if approved_unasked c ctx m rule changes \<noteq> [] then (Inr (approved_unasked c ctx m rule changes), ctx, [])
    else ask c ctx m rule reason notes changes approve"
  obtain r ctx1 eff where pick: "?pick = (r, ctx1, eff)" by (cases ?pick) auto
  have run: "run_under_rule env c root tr recs fs ctx p rule argv reason notes approve =
    (case (r, ctx1, eff) of
       (Inl e, ctx', effects) \<Rightarrow> (Inl e, ctx', effects)
     | (Inr approved_by, ctx', effects) \<Rightarrow>
         let ctx'' = check_pin env fs ctx' in
         if gs_status (t_grant ctx'') = Suspended
         then (Inl (ToolRefused (''tier 3 is off: '' @ gs_reason (t_grant ctx'') @ ''; nothing ran'')), ctx'', effects)
         else (Inr \<lparr>r_match = m, r_rule = rule, r_digest = gs_digest (t_grant ctx''), r_approver = approved_by\<rparr>, ctx'', effects))"
    using out be ap unfolding pick [symmetric] by (simp add: def changes_def)
  obtain by_whom where r: "r = Inr by_whom" using run assms(1) by (cases r) simp_all
  have same: "t_grant ctx1 = t_grant ctx" "t_pin ctx1 = t_pin ctx"
    using pick r ask_ok(3,4) by (auto split: if_splits)
  have ns: "gs_status (t_grant (check_pin env fs ctx1)) \<noteq> Suspended"
    using run assms(1) r by (auto simp: Let_def split: if_splits)
  have pin: "t_pin ctx1 = Some d" using same assms(2) by simp
  show "pin_digest env fs = Inr d" by (rule check_pin_passes(2) [OF pin assms(3) ns])
  have "check_pin env fs ctx1 = ctx1" by (rule check_pin_passes(1) [OF pin assms(3) ns])
  with run assms(1) r ns same show "r_match req = m" "r_rule req = rule" "r_digest req = gs_digest (t_grant ctx)"
    by (auto simp: Let_def)
  show "(\<exists>choice. approve (make_question c m rule reason notes changes choice) \<noteq> Declined) \<or>
      (unasked_ok c m rule changes \<and>
       (t_mode ctx = ''allowlist'' \<or> (\<exists>approved. t_approvals ctx = Some approved \<and> covers approved (m_argv m))))"
    using pick r ask_ok(1) approved_unasked_ok [of c ctx m rule changes] by (cases "approved_unasked c ctx m rule changes = []") fastforce+
qed

lemma for_project_ok:
  assumes "for_project env project now fs approver expected mode approvals = Inr ctx"
    and "gs_status (t_grant ctx) \<noteq> Suspended"
  obtains d where "load_grant env project now fs = Inr (t_grant ctx)" and "pin_digest env fs = Inr d"
    and "t_pin ctx = Some d" and "expected = None \<or> expected = Some d" and "t_approver ctx = approver"
    and "t_mode ctx = ''allowlist'' \<Longrightarrow> (\<exists>p. gs_policy (t_grant ctx) = Some p \<and> max_mode p = ''allowlist'')"
proof -
  from assms(1) obtain st where st: "load_grant env project now fs = Inr st"
    by (auto simp: for_project_def result_simps)
  obtain d where d: "pin_digest env fs = Inr d" "gs_pin st = Some d" using grant_pin.load_pin [OF st] by blast
  have g: "t_grant ctx = st" "expected = None \<or> expected = Some d"
    using assms d st by (auto simp: for_project_def Let_def suspend_def split: if_splits)
  have "t_pin ctx = Some d" "t_approver ctx = approver"
    "t_mode ctx = ''allowlist'' \<Longrightarrow> (\<exists>p. gs_policy (t_grant ctx) = Some p \<and> max_mode p = ''allowlist'')"
    using assms(1) d g st by (auto simp: for_project_def Let_def suspend_def split: if_splits option.splits)
  with st d(1) g show thesis by (intro that) simp_all
qed

lemma run_tests_ok:
  assumes "run_tests env c root tr recs fs fs' (Some ctx) selectors reason approve = (Inr req, ctx', effects)"
  obtains p rule ctx'' where "tier3_context_of env fs (Some ctx) = Inr (check_pin env fs ctx)"
    and "gs_policy (t_grant (check_pin env fs ctx)) = Some p" and "test_rule p = Some rule"
    and "run_under_rule env c root tr recs fs' (check_pin env fs ctx) p rule (test_argv (ent_ops (g_entry env)) rule selectors) reason
      (project_code_notes (t_written (check_pin env fs ctx))) approve = (Inr req, ctx'', effects)"
proof -
  have t: "tier3_context_of env fs (Some ctx) = Inr (check_pin env fs ctx)"
    using assms by (auto simp: run_tests_def tier3_context_of_def Let_def split: if_splits)
  obtain p where p: "gs_policy (t_grant (check_pin env fs ctx)) = Some p"
    using t by (auto simp: tier3_context_of_def Let_def split: if_splits)
  obtain rule where r: "test_rule p = Some rule"
    using assms t p by (cases "test_rule p") (auto simp: run_tests_def)
  obtain ctx'' where "run_under_rule env c root tr recs fs' (check_pin env fs ctx) p rule (test_argv (ent_ops (g_entry env)) rule selectors) reason
      (project_code_notes (t_written (check_pin env fs ctx))) approve = (Inr req, ctx'', effects)"
    using assms t p r by (auto simp: run_tests_def split: prod.splits)
  with t p r show thesis by (intro that)
qed

subsection \<open>Properties\<close>

text \<open>
  C21. What reaches \<open>run_command\<close>: the tests of a project run only in a step whose grant held
  when it was read, with the policy and signature files unchanged at the call and again after the
  question; the command is the one the matcher did not refuse, no rule for it names another
  backend, somebody can be asked, and either the operator said yes to a question showing this
  command, or the matcher found the tool's own rule, no entry point changed since the signing,
  no fetched text came before, and the grant allows the allowlist mode or the operator approved
  this argv for the session. (SHA-256 never gives an empty digest.)
\<close>

theorem tests_run_only_if_allowed:
  assumes "for_project env project now fs0 approver expected mode approvals = Inr ctx0"
    and "run_tests env c root tr recs fs fs' (Some (ctx0\<lparr>t_written := written, t_approvals := approved\<rparr>)) selectors reason approve
      = (Inr req, ctx', effects)"
    and "\<forall>b. ent_sha (g_entry env) b \<noteq> []"
  shows "\<exists>st p rule d changes. load_grant env project now fs0 = Inr st \<and> grant_holds st \<and> gs_policy st = Some p \<and>
    pin_digest env fs0 = Inr d \<and> pin_digest env fs = Inr d \<and> pin_digest env fs' = Inr d \<and>
    (expected = None \<or> expected = Some d) \<and> approver \<and> test_rule p = Some rule \<and>
    r_match req = classify (c_host c) (ent_ops (g_entry env)) (g_fs env) (test_argv (ent_ops (g_entry env)) rule selectors) (Some p)
      root written (c_path c) [t_project ctx0] \<and>
    m_outcome (r_match req) \<noteq> Refused \<and> other_backend p rule (r_match req) = None \<and>
    changes = changed_entry_points (g_entry env) tr recs (gs_digest st) written (m_argv (r_match req)) \<and>
    ((\<exists>q. approve q \<noteq> Declined \<and> q_argv q = m_argv (r_match req) \<and> q_entry_points q = changes) \<or>
     (m_outcome (r_match req) = Matches \<and> m_rule_id (r_match req) = Some (rule_id rule) \<and> changes = [] \<and> c_follows c = [] \<and>
      (max_mode p = ''allowlist'' \<or> (\<exists>argvs. approved = Some argvs \<and> covers argvs (m_argv (r_match req))))))"
proof -
  let ?ctx = "ctx0\<lparr>t_written := written, t_approvals := approved\<rparr>"
  obtain p rule ctx'' where t: "tier3_context_of env fs (Some ?ctx) = Inr (check_pin env fs ?ctx)"
    and p: "gs_policy (t_grant (check_pin env fs ?ctx)) = Some p" "test_rule p = Some rule"
    and run: "run_under_rule env c root tr recs fs' (check_pin env fs ?ctx) p rule (test_argv (ent_ops (g_entry env)) rule selectors) reason
      (project_code_notes (t_written (check_pin env fs ?ctx))) approve = (Inr req, ctx'', effects)"
    using run_tests_ok [OF assms(2)] by blast
  have h: "grant_holds (t_grant (check_pin env fs ?ctx))"
    using t by (auto simp: tier3_context_of_def Let_def split: if_splits)
  then have ns: "gs_status (t_grant (check_pin env fs ?ctx)) \<noteq> Suspended" by (simp add: grant_holds_def)
  then have ns0: "gs_status (t_grant ctx0) \<noteq> Suspended" by auto
  obtain d where l: "load_grant env project now fs0 = Inr (t_grant ctx0)" "pin_digest env fs0 = Inr d" "t_pin ctx0 = Some d"
    "expected = None \<or> expected = Some d" "t_approver ctx0 = approver"
    "t_mode ctx0 = ''allowlist'' \<Longrightarrow> (\<exists>p. gs_policy (t_grant ctx0) = Some p \<and> max_mode p = ''allowlist'')"
    using for_project_ok [OF assms(1) ns0] by blast
  have ne: "d \<noteq> []"
    using l(2) assms(3) by (auto simp: pin_digest_def pin_of_def digest_of_def hexdigest_def result_simps)
  have pin: "t_pin ?ctx = Some d" using l(3) by simp
  have ck: "check_pin env fs ?ctx = ?ctx" and pd: "pin_digest env fs = Inr d"
    by (rule check_pin_passes [OF pin ne ns])+
  note ok = run_under_rule_ok [OF run [unfolded ck] pin ne]
  have st: "gs_policy (t_grant ctx0) = Some p" "grant_holds (t_grant ctx0)" using p(1) h by (simp_all add: ck)
  have q: "q_argv (make_question c m r reason n ch choice) = m_argv m" "q_entry_points (make_question c m r reason n ch choice) = ch"
    for m r reason n ch choice by (simp_all add: make_question_def)
  show ?thesis
    using ok l(1,2,4,5) l(6) st p(2) pd q
    by (intro exI [of _ "t_grant ctx0"] exI [of _ p] exI [of _ rule] exI [of _ d] exI conjI)
      (simp_all add: unasked_ok_def, metis option.inject)
qed

text \<open>
  A suspended context runs nothing: whatever the files are then, whatever the operator
  answers, the tests are refused without a question and the context stays suspended.
\<close>

theorem suspended_stays_off:
  assumes "gs_status (t_grant ctx) = Suspended"
  shows "\<exists>e. run_tests env c root tr recs fs fs' (Some ctx) selectors reason approve = (Inl e, Some ctx, [])"
  using assms by (simp add: run_tests_def tier3_context_of_def grant_holds_def)

text \<open>
  Revoking the grant ends tier 3 in the sessions that run: the next check of the pin
  suspends a context that was pinned to the files before (the digest's function being injective,
  as SHA-256 is taken to be).
\<close>

theorem revocation_suspends:
  assumes "pin_digest env fs = Inr d" and "t_pin ctx = Some d" and "policy_file fs = Content data"
    and "sig_file fs = Content sb" and "sb \<noteq> []" and "inj (ent_sha (g_entry env))"
    and "fst (revoke env fs) = Inr r"
  shows "gs_status (t_grant (check_pin env (snd (revoke env fs)) ctx)) = Suspended"
proof -
  have d: "d = pin_of env data sb" using assms(1,3,4) by (simp add: pin_digest_def or_empty_def)
  have un: "sig_file (snd (unlink_then x fs1)) = Absent" "policy_file (snd (unlink_then x fs1)) = policy_file fs1"
    if "sig_file fs1 = Content sb" for x fs1
    using that by (simp_all add: unlink_then_def unlink_signature_def)
  have "sig_file (snd (revoke env fs)) = Absent \<and> policy_file (snd (revoke env fs)) = Content data"
    using assms(3,4,7) un by (auto simp: revoke_def Let_def split: sum.splits)
  then have "pin_digest env (snd (revoke env fs)) = Inr (pin_of env data [])"
    by (simp add: pin_digest_def or_empty_def)
  moreover have "pin_of env data [] \<noteq> d"
    using assms(5,6) by (simp add: d pin_of_def digest_of_def hexdigest_def inj_eq)
  ultimately show ?thesis using assms(2) by (simp add: check_pin_def suspend_def)
qed

subsection \<open>Examples\<close>

definition demo_call :: call_env where
  "demo_call = \<lparr>c_host = demo_host, c_path = ''/usr/bin'', c_confined = None, c_follows = []\<rparr>"

definition demo_context :: tier3_context where
  "demo_context = \<lparr>t_project = ''/p'',
     t_grant = ok_state (demo_grant_env None) ''v1'' (signature_text (demo_grant_env None) demo_key ''v1'' (message ''v1'')) (demo_grant_policy None),
     t_approver = True, t_mode = ''allowlist'', t_written = [],
     t_pin = Some (pin_of (demo_grant_env None) ''v1'' (signature_text (demo_grant_env None) demo_key ''v1'' (message ''v1''))),
     t_approvals = None\<rparr>"

lemma demo_for_project:
  "for_project (demo_grant_env None) ''/p'' (days 20) (demo_signed_files None) True None ''allowlist'' None = Inr demo_context"
proof -
  have "load_grant (demo_grant_env None) ''/p'' (days 20) (demo_signed_files None) = Inr (t_grant demo_context)"
    unfolding demo_context_def tier3_context.simps by (rule demo_load) (simp_all add: days_def)
  then show ?thesis
    by (simp add: for_project_def Let_def demo_context_def ok_state_def grant_state_of_def demo_grant_policy_def demo_policy_def)
qed

lemma demo_match:
  "m_outcome (classify demo_host ascii_ops demo_fsys [''pytest''] (Some (demo_grant_policy None)) ''/p'' [] ''/usr/bin'' [''/p'']) = Matches"
  "m_rule_id (classify demo_host ascii_ops demo_fsys [''pytest''] (Some (demo_grant_policy None)) ''/p'' [] ''/usr/bin'' [''/p'']) = Some ''tests''"
  by code_simp+

lemma demo_pin: "pin_digest (demo_grant_env None) (demo_signed_files None) = Inr (the (t_pin demo_context))"
proof -
  obtain d where "pin_digest (demo_grant_env None) (demo_signed_files None) = Inr d"
    "gs_pin (t_grant demo_context) = Some d"
  proof -
    have "load_grant (demo_grant_env None) ''/p'' (days 20) (demo_signed_files None) = Inr (t_grant demo_context)"
      unfolding demo_context_def tier3_context.simps by (rule demo_load) (simp_all add: days_def)
    from grant_pin.load_pin [OF this] that show thesis by blast
  qed
  then show ?thesis by (simp add: demo_context_def ok_state_def)
qed

lemma demo_check: "check_pin (demo_grant_env None) (demo_signed_files None) demo_context = demo_context"
  using demo_pin by (auto simp: check_pin_def Let_def split: option.splits)

definition demo_outcome :: "(refusal + run_request) \<times> tier3_context option \<times> effect list" where
  "demo_outcome = run_tests (demo_grant_env None) demo_call ''/p'' (project_tree demo_files) (\<lambda>_. Absent)
     (demo_signed_files None) (demo_signed_files None) (Some demo_context) [] [] (\<lambda>_. Approved)"

lemma demo_outcome_runs: "\<exists>req ctx. demo_outcome = (Inr req, ctx, []) \<and> r_approver req = ''operator-tty''"
proof -
  let ?m = "classify demo_host ascii_ops demo_fsys [''pytest''] (Some (demo_grant_policy None)) ''/p'' [] ''/usr/bin'' [''/p'']"
  let ?rule = "demo_rule ''tests'' [''pytest''] []"
  have h: "grant_holds (t_grant demo_context)" "gs_policy (t_grant demo_context) = Some (demo_grant_policy None)"
    "gs_status (t_grant demo_context) \<noteq> Suspended"
    by (simp_all add: demo_context_def ok_state_def grant_state_of_def grant_holds_def)
  have r: "test_rule (demo_grant_policy None) = Some ?rule" by (simp add: test_rule_def demo_grant_policy_def demo_rule_def)
  have a: "test_argv ascii_ops ?rule [] = [''pytest'']" by (simp add: test_argv_def demo_rule_def)
  have b: "other_backend (demo_grant_policy None) ?rule ?m = None"
    by (simp add: other_backend_def demo_grant_policy_def demo_rule_def)
  have e: "entry_point_digests ent (project_tree demo_files) = None" for ent
    by (simp add: entry_point_digests_def demo_files_def)
  have env: "ent_ops (g_entry (demo_grant_env None)) = ascii_ops" "g_fs (demo_grant_env None) = demo_fsys"
    by (simp_all add: demo_grant_env_def demo_entry_env_def)
  have c: "t_written demo_context = []" "t_project demo_context = ''/p''" "t_approver demo_context" "t_approvals demo_context = None"
    by (simp_all add: demo_context_def)
  have "\<exists>req. run_under_rule (demo_grant_env None) demo_call ''/p'' (project_tree demo_files) (\<lambda>_. Absent) (demo_signed_files None)
      demo_context (demo_grant_policy None) ?rule [''pytest''] [] (project_code_notes []) (\<lambda>_. Approved) = (Inr req, demo_context, []) \<and>
      r_approver req = ''operator-tty''"
    using demo_match(1) b h(3)
    by (simp add: run_under_rule_def env c demo_call_def Let_def changed_entry_points_def e approved_unasked_def unasked_ok_def
        ask_def demo_check)
  then show ?thesis
    using h r a by (auto simp: demo_outcome_def run_tests_def tier3_context_of_def demo_check env c split: prod.splits)
qed

theorem tests_run_only_if_allowed_witness:
  "\<exists>req. fst demo_outcome = Inr req \<and> r_approver req = ''operator-tty'' \<and>
    (\<exists>st. load_grant (demo_grant_env None) ''/p'' (days 20) (demo_signed_files None) = Inr st \<and> grant_holds st)"
proof -
  obtain req ctx where o: "demo_outcome = (Inr req, ctx, [])" "r_approver req = ''operator-tty''"
    using demo_outcome_runs by blast
  have u: "demo_context\<lparr>t_written := [], t_approvals := None\<rparr> = demo_context" by (simp add: demo_context_def)
  have ne: "\<forall>b. ent_sha (g_entry (demo_grant_env None)) b \<noteq> []" by (simp add: demo_grant_env_def demo_entry_env_def)
  have run: "run_tests (demo_grant_env None) demo_call ''/p'' (project_tree demo_files) (\<lambda>_. Absent)
     (demo_signed_files None) (demo_signed_files None) (Some (demo_context\<lparr>t_written := [], t_approvals := None\<rparr>)) [] [] (\<lambda>_. Approved)
      = (Inr req, ctx, [])"
    using o(1) unfolding u demo_outcome_def .
  have "\<exists>st. load_grant (demo_grant_env None) ''/p'' (days 20) (demo_signed_files None) = Inr st \<and> grant_holds st"
    using tests_run_only_if_allowed [OF demo_for_project run ne] by blast
  moreover have "fst demo_outcome = Inr req" by (simp add: o(1))
  ultimately show ?thesis using o(2) by blast
qed

theorem suspended_stays_off_witness:
  "\<exists>e. run_tests (demo_grant_env None) demo_call ''/p'' (project_tree demo_files) (\<lambda>_. Absent) (demo_signed_files None)
    (demo_signed_files None) (Some (demo_context\<lparr>t_grant := suspend (t_grant demo_context)\<rparr>)) [] [] (\<lambda>_. Approved)
    = (Inl e, Some (demo_context\<lparr>t_grant := suspend (t_grant demo_context)\<rparr>), [])"
  by (rule suspended_stays_off) (simp add: suspend_def)

theorem revocation_suspends_witness:
  "gs_status (t_grant (check_pin ((demo_grant_env None)\<lparr>g_entry := demo_entry_env\<lparr>ent_sha := (\<lambda>b. b)\<rparr>\<rparr>)
    (snd (revoke ((demo_grant_env None)\<lparr>g_entry := demo_entry_env\<lparr>ent_sha := (\<lambda>b. b)\<rparr>\<rparr>) (demo_files\<lparr>sig_file := Content ''s''\<rparr>)))
    (demo_context\<lparr>t_pin := Some (hex (''v1'' @ [CHR 0x00] @ ''s''))\<rparr>))) = Suspended"
proof (rule revocation_suspends [where sb = "''s''"])
  let ?e = "(demo_grant_env None)\<lparr>g_entry := demo_entry_env\<lparr>ent_sha := (\<lambda>b. b)\<rparr>\<rparr>"
  show "pin_digest ?e (demo_files\<lparr>sig_file := Content ''s''\<rparr>) = Inr (hex (''v1'' @ [CHR 0x00] @ ''s''))"
    by (simp add: pin_digest_def pin_of_def digest_of_def hexdigest_def demo_files_def or_empty_def)
  show "fst (revoke ?e (demo_files\<lparr>sig_file := Content ''s''\<rparr>)) = Inr (Some (hex ''v1''))"
    by (simp add: revoke_def demo_files_def Let_def revoked_def digest_of_def hexdigest_def unlink_then_def unlink_signature_def)
qed (simp_all add: demo_files_def)

end
