(* ===== verification/Fence.thy ===== *)
theory Fence
  imports Predicates
begin

section \<open>Step transactions and the delete fence\<close>

text \<open>
  The model of \<open>src/ract/core/transaction.py\<close> and of the gate in
  \<open>src/ract/contracts/fence.py\<close>: a step's descriptor with its checks, and the tickets
  that a delete needs before the descriptor is made. The tickets are the class attribute
  \<open>FenceGate.approved_tickets\<close>, the state of the model; a fresh identifier, git's log and
  blame lines and the manifest's digest are arguments. The event \<open>step.started\<close> is not read back
  and is left out.
\<close>

subsection \<open>Descriptors\<close>

text \<open>\<open>cpu\<close> is a float of which only the sign is looked at.\<close>

record resource_budget =
  cpu_positive :: bool
  budget_memory_mb :: int
  budget_network :: bool
  wall_seconds :: int

datatype txn_error = TxnValueError string | UnfencedDelete string | ManifestTypeError

definition budget_post_init :: "resource_budget \<Rightarrow> txn_error + resource_budget" where
  "budget_post_init b =
    (if \<not> cpu_positive b then Inl (TxnValueError ''cpu must be > 0'')
     else if budget_memory_mb b \<le> 0 then Inl (TxnValueError ''memory_mb must be > 0'')
     else if wall_seconds b \<le> 0 then Inl (TxnValueError ''wall_seconds must be > 0'')
     else Inr b)"

datatype txn_outcome = COMMITTED | ROLLED_BACK | BLOCKED_ON_HANDSHAKE

record step_transaction =
  txn_step_id :: string
  txn_parent :: string
  txn_path :: string
  postconditions :: "predicate list"
  timeout_seconds :: int
  txn_budget :: resource_budget
  txn_container :: "string option"
  txn_depends_on :: "string list"
  txn_manifest :: "string option"

definition txn_post_init :: "step_transaction \<Rightarrow> txn_error + step_transaction" where
  "txn_post_init t =
    (if length (txn_step_id t) \<noteq> 16 then Inl (TxnValueError ''step_id must be a 16-byte UUID'')
     else if txn_parent t = [] then Inl (TxnValueError ''parent_snapshot must be a non-empty git sha'')
     else if timeout_seconds t \<le> 0 then Inl (TxnValueError ''timeout_seconds must be > 0'')
     else if \<not> list_all (\<lambda>d. length d = 16) (txn_depends_on t)
     then Inl (TxnValueError ''each dependency step_id must be a 16-byte UUID'')
     else Inr t)"

definition step_branch :: "string \<Rightarrow> string" where
  "step_branch sid = ''rootact/step/'' @ hex sid"

subsection \<open>The gate\<close>

text \<open>An action is a delete, or any other one (of which only the kind is read).\<close>

datatype action = DeleteFile string string | OtherAction string

type_synonym tickets = "string list"

definition consume_ticket :: "string \<Rightarrow> tickets \<Rightarrow> bool \<times> tickets" where
  "consume_ticket ticket ts = (if ticket \<in> set ts then (True, removeAll ticket ts) else (False, ts))"

definition has_ticket :: "string \<Rightarrow> tickets \<Rightarrow> bool" where
  "has_ticket ticket ts \<longleftrightarrow> ticket \<in> set ts"

record brief =
  brief_path :: string
  brief_reason :: string
  recent_commits :: "string list"
  blame_snippets :: "string list"
  brief_confidence :: string

definition fence_evaluate ::
    "host \<Rightarrow> (string \<Rightarrow> string list) \<Rightarrow> (string \<Rightarrow> string list) \<Rightarrow> string \<Rightarrow> action \<Rightarrow> tickets \<Rightarrow> (brief \<times> string) option \<times> tickets" where
  "fence_evaluate h commits_of blame_of ticket act ts =
    (case act of
       OtherAction _ \<Rightarrow> (None, ts)
     | DeleteFile path rationale \<Rightarrow>
         let commits = commits_of path; blame = blame_of path in
         (Some (\<lparr>brief_path = path,
            brief_reason = ''path='' @ path @ '' rationale='' @ host_repr h (PStr rationale) @ ''; recent commits='' @
              dec_nat (length commits) @ ''; blame lines='' @ dec_nat (length blame),
            recent_commits = take 10 commits, blame_snippets = take 20 blame,
            brief_confidence = (if commits \<noteq> [] then ''0.8'' else ''0.3'')\<rparr>, ticket), List.insert ticket ts))"

text \<open>The loop over a step's actions: every delete takes the ticket, the first that finds none raises.\<close>

fun fence_actions :: "string option \<Rightarrow> action list \<Rightarrow> tickets \<Rightarrow> (txn_error + unit) \<times> tickets" where
  "fence_actions ticket [] ts = (Inr (), ts)"
| "fence_actions ticket (OtherAction k # acts) ts = fence_actions ticket acts ts"
| "fence_actions ticket (DeleteFile path why # acts) ts =
    (case ticket of
       None \<Rightarrow> (Inl (UnfencedDelete path), ts)
     | Some t \<Rightarrow>
         (case consume_ticket t ts of
            (False, ts') \<Rightarrow> (Inl (UnfencedDelete path), ts')
          | (True, ts') \<Rightarrow> fence_actions ticket acts ts'))"

definition open_transaction ::
    "step_transaction \<Rightarrow> (txn_error + string option) \<Rightarrow> action list \<Rightarrow> string option \<Rightarrow> tickets
      \<Rightarrow> (txn_error + step_transaction) \<times> tickets" where
  "open_transaction t manifest acts ticket ts =
    (case fence_actions ticket acts ts of
       (Inl e, ts') \<Rightarrow> (Inl e, ts')
     | (Inr _, ts') \<Rightarrow>
         (case manifest of
            Inl e \<Rightarrow> (Inl e, ts')
          | Inr digest \<Rightarrow> (txn_post_init (t\<lparr>txn_manifest := digest\<rparr>), ts')))"

subsection \<open>Deletes and evaluations\<close>

fun deletes :: "action list \<Rightarrow> string list" where
  "deletes [] = []"
| "deletes (DeleteFile path why # acts) = path # deletes acts"
| "deletes (OtherAction k # acts) = deletes acts"

text \<open>A call of the gate or of the opener, and what a run of them counts.\<close>

datatype fence_call =
    Evaluate string action
  | Open step_transaction "txn_error + string option" "action list" "string option"

record fence_run =
  live :: tickets
  evaluated :: nat
  admitted :: "string list"

definition fence_step :: "host \<Rightarrow> (string \<Rightarrow> string list) \<Rightarrow> (string \<Rightarrow> string list) \<Rightarrow> fence_run \<Rightarrow> fence_call \<Rightarrow> fence_run" where
  "fence_step h commits_of blame_of s c =
    (case c of
       Evaluate ticket act \<Rightarrow>
         (case fence_evaluate h commits_of blame_of ticket act (live s) of
            (None, ts) \<Rightarrow> s\<lparr>live := ts\<rparr>
          | (Some _, ts) \<Rightarrow> s\<lparr>live := ts, evaluated := Suc (evaluated s)\<rparr>)
     | Open t manifest acts ticket \<Rightarrow>
         (case open_transaction t manifest acts ticket (live s) of
            (Inl _, ts) \<Rightarrow> s\<lparr>live := ts\<rparr>
          | (Inr _, ts) \<Rightarrow> s\<lparr>live := ts, admitted := admitted s @ deletes acts\<rparr>))"

definition fence_calls :: "host \<Rightarrow> (string \<Rightarrow> string list) \<Rightarrow> (string \<Rightarrow> string list) \<Rightarrow> fence_call list \<Rightarrow> fence_run" where
  "fence_calls h commits_of blame_of cs =
    foldl (fence_step h commits_of blame_of) \<lparr>live = [], evaluated = 0, admitted = []\<rparr> cs"

lemma consume_ticket_distinct: "distinct ts \<Longrightarrow> distinct (snd (consume_ticket t ts))"
  by (simp add: consume_ticket_def distinct_removeAll)

lemma fence_actions_count:
  assumes "distinct ts" and "fence_actions ticket acts ts = (r, ts')"
  shows "distinct ts' \<and> length ts' \<le> length ts \<and> (r = Inr () \<longrightarrow> length (deletes acts) + length ts' \<le> length ts)"
  using assms
proof (induction ticket acts ts arbitrary: r ts' rule: fence_actions.induct)
  case (3 ticket path why acts ts)
  show ?case
  proof (cases ticket)
    case None
    with "3.prems" show ?thesis by auto
  next
    case (Some t)
    show ?thesis
    proof (cases "t \<in> set ts")
      case True
      have len: "Suc (length (removeAll t ts)) \<le> length ts" using True by (simp add: Suc_leI length_removeAll_less)
      have d: "distinct (removeAll t ts)" using "3.prems"(1) by (rule distinct_removeAll)
      have c: "consume_ticket t ts = (True, removeAll t ts)" using True by (simp add: consume_ticket_def)
      have "fence_actions ticket acts (removeAll t ts) = (r, ts')" using "3.prems"(2) Some c by simp
      from "3.IH" [OF Some c [symmetric] refl d this] len show ?thesis by auto
    next
      case False
      with "3.prems" Some show ?thesis by (auto simp: consume_ticket_def)
    qed
  qed
qed auto

lemma fence_step_count:
  assumes "distinct (live s)" and "length (admitted s) + length (live s) \<le> evaluated s"
    and s': "s' = fence_step h cm bl s c"
  shows "distinct (live s') \<and> length (admitted s') + length (live s') \<le> evaluated s'"
proof (cases c)
  case (Evaluate ticket act)
  then show ?thesis
    using assms(1,2) by (cases act) (auto simp: s' fence_step_def fence_evaluate_def Let_def List.insert_def)
next
  case (Open t manifest acts ticket)
  obtain r ts where f: "fence_actions ticket acts (live s) = (r, ts)" by fastforce
  note n = fence_actions_count [OF assms(1) f]
  show ?thesis
  proof (cases r)
    case (Inl e)
    with n assms(2) Open f show ?thesis by (auto simp: s' fence_step_def open_transaction_def)
  next
    case (Inr u)
    with n assms(2) Open f show ?thesis
      by (cases manifest; cases "txn_post_init (t\<lparr>txn_manifest := projr manifest\<rparr>)")
        (auto simp: s' fence_step_def open_transaction_def)
  qed
qed

text \<open>
  C37. Every delete that a transaction admits was paid for by an evaluation of its own: after
  any sequence of calls, the deletes in opened transactions and the tickets still live together
  are at most the deletes the gate has evaluated, also when identifiers repeat.
\<close>

theorem deletes_bounded_by_evaluations:
  "length (admitted (fence_calls h cm bl cs)) + length (live (fence_calls h cm bl cs)) \<le> evaluated (fence_calls h cm bl cs)"
proof -
  have "distinct (live s') \<and> length (admitted s') + length (live s') \<le> evaluated s'"
    if "distinct (live s)" "length (admitted s) + length (live s) \<le> evaluated s" "s' = foldl (fence_step h cm bl) s cs" for s s'
    using that
  proof (induction cs arbitrary: s)
    case (Cons c cs)
    from fence_step_count [OF Cons.prems(1,2) refl, of h cm bl c] Cons.IH Cons.prems(3) show ?case by simp
  qed simp
  from this [OF _ _ refl] show ?thesis by (simp add: fence_calls_def)
qed

definition demo_txn :: step_transaction where
  "demo_txn = \<lparr>txn_step_id = replicate 16 (CHR ''s''), txn_parent = ''abc'', txn_path = ''/w'', postconditions = [],
     timeout_seconds = 60, txn_budget = \<lparr>cpu_positive = True, budget_memory_mb = 1024, budget_network = False, wall_seconds = 60\<rparr>,
     txn_container = None, txn_depends_on = [], txn_manifest = None\<rparr>"

text \<open>
  A ticket names no file: the gate looks at \<open>a.py\<close>, and the ticket it gives admits a
  transaction that deletes \<open>b.py\<close>, which it has never seen.
\<close>

theorem ticket_covers_any_path:
  "admitted (fence_calls demo_host (\<lambda>_. []) (\<lambda>_. [])
    [Evaluate ''t'' (DeleteFile ''a.py'' ''unused''), Open demo_txn (Inr None) [DeleteFile ''b.py'' []] (Some ''t'')]) = [''b.py'']"
  by code_simp

end
