(* ===== verification/Substrate.thy ===== *)
theory Substrate
  imports Fence "HOL-Library.Sublist"
begin

section \<open>The transactional loop\<close>

text \<open>
  The model of \<open>SubstrateLoop\<close> in \<open>src/ract/executor/loop.py\<close> (one step as a transaction, and
  the disposal of the loop), of \<open>src/ract/executor/commit_compensator.py\<close>, and of the methods of
  \<open>WorktreeManager\<close> in \<open>src/ract/executor/worktree.py\<close> they call. Every git command is a field of
  the record \<open>gitops\<close> over an abstract repository; what the code relies on of git is the locale
  \<open>git_repo\<close>. The step runner (with the sandbox it is entered in) is a function that raises or
  returns a snapshot, and may leave processes and subagents behind.
\<close>

subsection \<open>Git\<close>

datatype removal = Removed | NotThere | RemoveFails

record 'r gitops =
  rev_head :: "'r \<Rightarrow> string"
  rev_parse :: "'r \<Rightarrow> string \<Rightarrow> string"
  abbrev_head :: "'r \<Rightarrow> string"
  head_in_history :: "'r \<Rightarrow> string \<Rightarrow> bool"
  reset_ref :: "'r \<Rightarrow> string \<Rightarrow> string \<Rightarrow> bool \<times> 'r"
  update_ref :: "'r \<Rightarrow> string \<Rightarrow> string \<Rightarrow> string \<Rightarrow> bool \<times> 'r"
  remote_contains :: "'r \<Rightarrow> string \<Rightarrow> bool option"
  worktree_add :: "'r \<Rightarrow> string \<Rightarrow> string \<Rightarrow> string \<Rightarrow> bool \<times> 'r"
  stage_all :: "'r \<Rightarrow> string \<Rightarrow> bool \<times> 'r"
  commit_in :: "'r \<Rightarrow> string \<Rightarrow> string \<Rightarrow> bool \<times> 'r"
  head_in :: "'r \<Rightarrow> string \<Rightarrow> string option"
  worktree_remove :: "'r \<Rightarrow> string \<Rightarrow> removal \<times> 'r"
  path_exists :: "'r \<Rightarrow> string \<Rightarrow> bool"
  branch_delete :: "'r \<Rightarrow> string \<Rightarrow> removal \<times> 'r"
  prune_dead :: "'r \<Rightarrow> 'r"

subsection \<open>Compensators\<close>

record compensator =
  comp_branch :: string
  sha_before :: string
  sha_after :: string
  comp_mode :: string
  pushed :: bool
  applied :: bool

datatype comp_error = CompensatorPushed | CompensatorAlreadyApplied

definition reset_flag :: "string \<Rightarrow> string" where
  "reset_flag mode = (if mode = ''soft'' then ''--soft'' else ''--hard'')"

text \<open>A branch that cannot be resolved falls back to \<open>HEAD\<close>.\<close>

definition comp_apply :: "'r gitops \<Rightarrow> compensator \<Rightarrow> 'r \<Rightarrow> (comp_error + bool) \<times> compensator \<times> 'r" where
  "comp_apply g c r =
    (if applied c then (Inl CompensatorAlreadyApplied, c, r)
     else if pushed c then (Inl CompensatorPushed, c, r)
     else
       let tip = rev_parse g r (comp_branch c);
           current = (if tip = [] then rev_head g r else tip)
       in if current \<noteq> sha_after c then (Inr False, c\<lparr>applied := True\<rparr>, r)
          else
            (case (if abbrev_head g r = comp_branch c
                   then reset_ref g r (reset_flag (comp_mode c)) (sha_before c)
                   else update_ref g r (comp_branch c) (sha_before c) (sha_after c)) of
               (moved, r') \<Rightarrow> (Inr moved, c\<lparr>applied := True\<rparr>, r')))"

definition drain_status :: "comp_error + bool \<Rightarrow> string" where
  "drain_status res =
    (case res of
       Inl CompensatorPushed \<Rightarrow> ''refused_pushed''
     | Inl CompensatorAlreadyApplied \<Rightarrow> ''already_applied''
     | Inr moved \<Rightarrow> if moved then ''applied'' else ''soft_refused'')"

text \<open>The loop of \<open>drain\<close>, over the stack with its last entry first.\<close>

fun drain_from :: "'r gitops \<Rightarrow> compensator list \<Rightarrow> 'r \<Rightarrow> (compensator \<times> string) list \<times> 'r" where
  "drain_from g [] r = ([], r)"
| "drain_from g (c # cs) r =
    (case comp_apply g c r of
       (res, c', r') \<Rightarrow>
         (case drain_from g cs r' of (outcomes, r'') \<Rightarrow> ((c', drain_status res) # outcomes, r'')))"

definition drain :: "'r gitops \<Rightarrow> compensator list \<Rightarrow> 'r \<Rightarrow> (compensator \<times> string) list \<times> 'r" where
  "drain g stack r = drain_from g (rev stack) r"

definition check_pushed :: "'r gitops \<Rightarrow> 'r \<Rightarrow> string \<Rightarrow> bool" where
  "check_pushed g r sha = (case remote_contains g r sha of None \<Rightarrow> True | Some b \<Rightarrow> b)"

definition build_compensator ::
    "'r gitops \<Rightarrow> 'r \<Rightarrow> string \<Rightarrow> string \<Rightarrow> string \<Rightarrow> string \<Rightarrow> compensator option" where
  "build_compensator g r branch before after mode =
    (if mode \<notin> {''soft'', ''hard''} then None
     else Some \<lparr>comp_branch = branch, sha_before = before, sha_after = after, comp_mode = mode,
       pushed = check_pushed g r after, applied = False\<rparr>)"

subsection \<open>The loop's state\<close>

record step_record =
  sr_step_id :: string
  sr_outcome :: txn_outcome
  sr_before :: string
  sr_after :: string
  sr_branch :: string
  sr_reason :: string

datatype loop_event =
    StepEvent string step_record
  | CompInstalled compensator
  | CompDrained compensator string string
  | CompDiscarded nat string
  | ProcessReaped string string
  | SubagentDisposed string string

record 'r sloop =
  repo :: 'r
  parent_snapshot :: string
  advance_head :: bool
  records :: "step_record list"
  committed_ids :: "string list"
  comp_stack :: "compensator list"
  processes :: "string list"
  subagents :: "string list"
  containers :: "string list"
  loop_log :: "loop_event list"

record step_spec =
  spec_id :: string
  spec_predicates :: "predicate list"
  runtime_image :: "string option"
  spec_budget :: resource_budget
  handshake_ids :: "string list"
  spec_depends_on :: "string list"
  commit_message :: string

datatype substrate_error =
    KnotNotRegistered
  | WorktreeError string
  | ContainerError string
  | TxnFailed txn_error
  | RunnerRaised string
  | HandshakeRaised string
  | PredicateRaised eval_error

text \<open>
  What the loop is built with: evaluation of predicates, where the worktrees are, the container
  backend (\<open>None\<close>: none), the handshake registry's \<open>blocks_commit\<close> (\<open>None\<close>: no registry) and
  \<open>unsigned_reason\<close> (empty: none), and the manifest's digest.
\<close>

record loop_env =
  le_host :: host
  le_import :: "string \<Rightarrow> string \<Rightarrow> resolution"
  le_worktree_root :: string
  le_container :: "(string \<Rightarrow> string + string) option"
  le_handshakes :: "(string list \<Rightarrow> string + string list) option"
  le_unsigned_reason :: "string \<Rightarrow> string + string"
  le_manifest :: "txn_error + string option"

record 'r run_result =
  rr_outcome :: "string + snapshot"
  rr_repo :: 'r
  rr_processes :: "string list"
  rr_subagents :: "string list"

definition reap_processes :: "string \<Rightarrow> 'r sloop \<Rightarrow> 'r sloop" where
  "reap_processes why st =
    st\<lparr>processes := [], loop_log := loop_log st @ map (\<lambda>p. ProcessReaped p why) (processes st)\<rparr>"

definition reap_subagents :: "string \<Rightarrow> 'r sloop \<Rightarrow> 'r sloop" where
  "reap_subagents why st =
    st\<lparr>subagents := [], loop_log := loop_log st @ map (\<lambda>p. SubagentDisposed p why) (rev (subagents st))\<rparr>"

text \<open>Identity decides whether a subagent is registered already; here handles are names.\<close>

definition register_subagent :: "string \<Rightarrow> 'r sloop \<Rightarrow> 'r sloop" where
  "register_subagent h st = (if h \<in> set (subagents st) then st else st\<lparr>subagents := subagents st @ [h]\<rparr>)"

definition keep_record :: "step_record \<Rightarrow> string \<Rightarrow> 'r sloop \<Rightarrow> 'r sloop" where
  "keep_record rec kind st = st\<lparr>records := records st @ [rec], loop_log := loop_log st @ [StepEvent kind rec]\<rparr>"

subsection \<open>Worktrees\<close>

definition worktree_path :: "loop_env \<Rightarrow> string \<Rightarrow> string" where
  "worktree_path env sid = le_worktree_root env @ ''/'' @ hex sid"

definition wt_create :: "'r gitops \<Rightarrow> loop_env \<Rightarrow> string \<Rightarrow> string \<Rightarrow> 'r \<Rightarrow> (substrate_error + string) \<times> 'r" where
  "wt_create g env sid parent r =
    (case worktree_add g r (worktree_path env sid) (step_branch sid) parent of
       (True, r') \<Rightarrow> (Inr (worktree_path env sid), r')
     | (False, r') \<Rightarrow> (Inl (WorktreeError ''git worktree add failed''), r'))"

definition wt_commit :: "'r gitops \<Rightarrow> string \<Rightarrow> string \<Rightarrow> 'r \<Rightarrow> (substrate_error + string) \<times> 'r" where
  "wt_commit g path msg r =
    (case stage_all g r path of
       (False, r1) \<Rightarrow> (Inl (WorktreeError ''git add failed''), r1)
     | (True, r1) \<Rightarrow>
         (case commit_in g r1 path msg of
            (False, r2) \<Rightarrow> (Inl (WorktreeError ''git commit failed''), r2)
          | (True, r2) \<Rightarrow>
              (case head_in g r2 path of
                 None \<Rightarrow> (Inl (WorktreeError ''git rev-parse HEAD failed''), r2)
               | Some sha \<Rightarrow> (Inr sha, r2))))"

text \<open>\<open>rollback(wt, abandon=False)\<close>: a worktree or a branch that is gone already is no error.\<close>

definition wt_rollback :: "'r gitops \<Rightarrow> string \<Rightarrow> string \<Rightarrow> 'r \<Rightarrow> (substrate_error + unit) \<times> 'r" where
  "wt_rollback g path branch r =
    (case worktree_remove g r path of
       (RemoveFails, r1) \<Rightarrow> (Inl (WorktreeError ''git worktree remove failed''), r1)
     | (res, r1) \<Rightarrow>
         let r2 = (if res = NotThere then prune_dead g r1 else r1) in
         (case branch_delete g r2 branch of
            (RemoveFails, r3) \<Rightarrow> (Inl (WorktreeError ''git branch -D failed''), r3)
          | (_, r3) \<Rightarrow> (Inr (), r3)))"

definition remove_worktree_only :: "'r gitops \<Rightarrow> string \<Rightarrow> 'r \<Rightarrow> 'r" where
  "remove_worktree_only g path r =
    (case worktree_remove g r path of
       (res, r1) \<Rightarrow> if res \<noteq> Removed \<and> \<not> path_exists g r1 path then prune_dead g r1 else r1)"

definition fast_forward_head :: "'r gitops \<Rightarrow> string \<Rightarrow> bool \<Rightarrow> 'r \<Rightarrow> 'r" where
  "fast_forward_head g new_sha soft r =
    (if \<not> head_in_history g r new_sha then r
     else snd (reset_ref g r (if soft then ''--soft'' else ''--hard'') new_sha))"

subsection \<open>One step\<close>

fun first_failed :: "loop_env \<Rightarrow> snapshot \<Rightarrow> predicate list \<Rightarrow> eval_error + string option" where
  "first_failed env ws [] = Inr None"
| "first_failed env ws (p # ps) =
    (if \<not> required_flag p then first_failed env ws ps
     else case evaluate (le_host env) (le_import env) p ws of
       Inl e \<Rightarrow> Inl e
     | Inr res \<Rightarrow> if ok res then first_failed env ws ps else Inr (Some (reason res)))"

definition step_result :: "step_transaction \<Rightarrow> txn_outcome \<Rightarrow> string \<Rightarrow> string \<Rightarrow> step_record" where
  "step_result txn outcome after why =
    \<lparr>sr_step_id = txn_step_id txn, sr_outcome = outcome, sr_before = txn_parent txn, sr_after = after,
     sr_branch = step_branch (txn_step_id txn), sr_reason = why\<rparr>"

text \<open>The rollback of a step: processes first, then the worktree and its branch.\<close>

definition roll_back ::
    "'r gitops \<Rightarrow> step_transaction \<Rightarrow> string \<Rightarrow> string \<Rightarrow> 'r sloop \<Rightarrow> (substrate_error + step_record) \<times> 'r sloop" where
  "roll_back g txn kind why st =
    (let st1 = reap_processes kind st in
     case wt_rollback g (txn_path txn) (step_branch (txn_step_id txn)) (repo st1) of
       (Inl e, r) \<Rightarrow> (Inl e, st1\<lparr>repo := r\<rparr>)
     | (Inr _, r) \<Rightarrow>
         let rec = step_result txn ROLLED_BACK (txn_parent txn) why in
         (Inr rec, keep_record rec ''step.rolled_back'' (st1\<lparr>repo := r\<rparr>)))"

definition install_compensator :: "'r gitops \<Rightarrow> string \<Rightarrow> string \<Rightarrow> 'r sloop \<Rightarrow> 'r sloop" where
  "install_compensator g head_before new_sha st =
    (case build_compensator g (repo st) (abbrev_head g (repo st)) head_before new_sha ''soft'' of
       None \<Rightarrow> st
     | Some c \<Rightarrow> st\<lparr>comp_stack := comp_stack st @ [c], loop_log := loop_log st @ [CompInstalled c]\<rparr>)"

text \<open>Behind the commit: the branch moves, or the commit stays on the step's branch.\<close>

definition land ::
    "'r gitops \<Rightarrow> step_transaction \<Rightarrow> string \<Rightarrow> 'r sloop \<Rightarrow> 'r sloop" where
  "land g txn new_sha st =
    (if \<not> advance_head st then
       st\<lparr>parent_snapshot := new_sha, committed_ids := List.insert (txn_step_id txn) (committed_ids st),
          repo := remove_worktree_only g (txn_path txn) (repo st)\<rparr>
     else
       let r = fast_forward_head g new_sha True (repo st);
           moved = (rev_head g r = new_sha);
           st1 = st\<lparr>repo := r, parent_snapshot := (if moved then new_sha else parent_snapshot st),
             committed_ids := List.insert (txn_step_id txn) (committed_ids st)\<rparr>;
           st2 = (if moved \<and> txn_parent txn \<noteq> [] \<and> txn_parent txn \<noteq> new_sha
                  then install_compensator g (txn_parent txn) new_sha st1 else st1)
       in st2\<lparr>repo := remove_worktree_only g (txn_path txn) (repo st2)\<rparr>)"

definition unresolved_of :: "loop_env \<Rightarrow> step_spec \<Rightarrow> string + string list" where
  "unresolved_of env spec =
    (if handshake_ids spec = [] then Inr []
     else case le_handshakes env of None \<Rightarrow> Inr [] | Some blocking \<Rightarrow> blocking (handshake_ids spec))"

definition blocked_reason :: "loop_env \<Rightarrow> string list \<Rightarrow> string + string" where
  "blocked_reason env unresolved =
    rbind (sequence (map (le_unsigned_reason env) unresolved)) (\<lambda>whys.
      Inr (''post-conditions ok; commit blocked on handshake '' @ host_repr (le_host env) (PList (map PStr unresolved)) @
        concat (map (\<lambda>w. ''; '' @ w) (filter (\<lambda>w. w \<noteq> []) whys))))"

text \<open>The text of a failed git command, less what git wrote itself.\<close>

fun failure_text :: "substrate_error \<Rightarrow> string" where
  "failure_text (WorktreeError e) = e"
| "failure_text _ = []"

definition finalize ::
    "'r gitops \<Rightarrow> loop_env \<Rightarrow> step_spec \<Rightarrow> step_transaction \<Rightarrow> snapshot \<Rightarrow> 'r sloop
      \<Rightarrow> (substrate_error + step_record) \<times> 'r sloop" where
  "finalize g env spec txn ws st =
    (case first_failed env ws (postconditions txn) of
       Inl e \<Rightarrow> (Inl (PredicateRaised e), st)
     | Inr (Some why) \<Rightarrow> roll_back g txn ''postcondition_failed'' (''post-condition failed: '' @ why) st
     | Inr None \<Rightarrow>
         (case unresolved_of env spec of
            Inl e \<Rightarrow> (Inl (HandshakeRaised e), st)
          | Inr unresolved \<Rightarrow>
            if unresolved \<noteq> [] then
              (case blocked_reason env unresolved of
                 Inl e \<Rightarrow> (Inl (HandshakeRaised e), st)
               | Inr why \<Rightarrow>
                   let rec = step_result txn BLOCKED_ON_HANDSHAKE (txn_parent txn) why
                   in (Inr rec, keep_record rec ''step.rolled_back'' st))
            else
              let msg = (if commit_message spec \<noteq> [] then commit_message spec else ''rootact step '' @ hex (txn_step_id txn)) in
              (case wt_commit g (txn_path txn) msg (repo st) of
                 (Inl e, r) \<Rightarrow> roll_back g txn ''commit_failed'' (''commit failed: '' @ failure_text e) (st\<lparr>repo := r\<rparr>)
               | (Inr new_sha, r) \<Rightarrow>
                   let rec = step_result txn COMMITTED new_sha [] in
                   (Inr rec, keep_record rec ''step.committed'' (land g txn new_sha (st\<lparr>repo := r\<rparr>))))))"

definition start_container :: "loop_env \<Rightarrow> step_spec \<Rightarrow> 'r sloop \<Rightarrow> (substrate_error + string option) \<times> 'r sloop" where
  "start_container env spec st =
    (case (runtime_image spec, le_container env) of
       (Some img, Some start) \<Rightarrow>
         (case start img of
            Inl e \<Rightarrow> (Inl (ContainerError e), st)
          | Inr cid \<Rightarrow> (Inr (Some cid), st\<lparr>containers := cid # containers st\<rparr>))
     | _ \<Rightarrow> (Inr None, st))"

definition stop_container :: "string option \<Rightarrow> 'r sloop \<Rightarrow> 'r sloop" where
  "stop_container cid st =
    (case cid of None \<Rightarrow> st | Some i \<Rightarrow> st\<lparr>containers := remove1 i (containers st)\<rparr>)"

definition new_txn :: "loop_env \<Rightarrow> step_spec \<Rightarrow> string \<Rightarrow> string \<Rightarrow> string option \<Rightarrow> step_transaction" where
  "new_txn env spec parent path cid =
    \<lparr>txn_step_id = spec_id spec, txn_parent = parent, txn_path = path, postconditions = spec_predicates spec,
     timeout_seconds = wall_seconds (spec_budget spec), txn_budget = spec_budget spec, txn_container = cid,
     txn_depends_on = spec_depends_on spec, txn_manifest = None\<rparr>"

text \<open>
  The body of the \<open>try\<close>: the transaction is opened without actions, so the delete fence
  is not asked (and its tickets are not touched); then the runner, then \<open>_finalize\<close>.
  The auction sweep (whose errors are swallowed) and the event of a retrieval are left out.
\<close>

definition step_body ::
    "'r gitops \<Rightarrow> loop_env \<Rightarrow> step_spec \<Rightarrow> string \<Rightarrow> string option \<Rightarrow> ('r \<Rightarrow> 'r run_result) \<Rightarrow> 'r sloop
      \<Rightarrow> (substrate_error + step_record) \<times> 'r sloop" where
  "step_body g env spec path cid runner st =
    (case fst (open_transaction (new_txn env spec (parent_snapshot st) path cid) (le_manifest env) [] None []) of
       Inl e \<Rightarrow> (Inl (TxnFailed e), st)
     | Inr txn \<Rightarrow>
         let res = runner (repo st);
             st1 = fold register_subagent (rr_subagents res)
               (st\<lparr>repo := rr_repo res, processes := processes st @ rr_processes res\<rparr>)
         in (case rr_outcome res of
               Inl e \<Rightarrow> (Inl (RunnerRaised e), st1)
             | Inr ws \<Rightarrow> finalize g env spec txn ws st1))"

definition unwind :: "'r sloop \<Rightarrow> 'r sloop" where
  "unwind st = reap_subagents ''run_step_exception'' (reap_processes ''run_step_exception'' st)"

definition run_step ::
    "'r gitops \<Rightarrow> loop_env \<Rightarrow> bool option \<Rightarrow> step_spec \<Rightarrow> ('r \<Rightarrow> 'r run_result) \<Rightarrow> 'r sloop
      \<Rightarrow> (substrate_error + step_record) \<times> 'r sloop" where
  "run_step g env caller_knot spec runner st =
    (if caller_knot = Some False then (Inl KnotNotRegistered, st)
     else case find (\<lambda>d. d \<notin> set (committed_ids st)) (spec_depends_on spec) of
       Some dep \<Rightarrow>
         (let rec = \<lparr>sr_step_id = spec_id spec, sr_outcome = BLOCKED_ON_HANDSHAKE, sr_before = parent_snapshot st,
                sr_after = parent_snapshot st, sr_branch = step_branch (spec_id spec), sr_reason = ''blocked on prior step '' @ hex dep\<rparr>
          in (Inr rec, keep_record rec ''step.rolled_back'' st))
     | None \<Rightarrow>
         (case wt_create g env (spec_id spec) (parent_snapshot st) (repo st) of
            (Inl e, r) \<Rightarrow> (Inl e, st\<lparr>repo := r\<rparr>)
          | (Inr path, r) \<Rightarrow>
              (case start_container env spec (st\<lparr>repo := r\<rparr>) of
                 (Inl e, st1) \<Rightarrow> (Inl e, unwind st1)
               | (Inr cid, st1) \<Rightarrow>
                   (case step_body g env spec path cid runner st1 of
                      (Inl e, st2) \<Rightarrow> (Inl e, stop_container cid (unwind st2))
                    | (Inr rec, st2) \<Rightarrow> (Inr rec, stop_container cid st2)))))"

subsection \<open>Disposal\<close>

definition dispose :: "'r gitops \<Rightarrow> bool \<Rightarrow> string \<Rightarrow> 'r sloop \<Rightarrow> (compensator \<times> string) list \<times> 'r sloop" where
  "dispose g success why st =
    (if success then
       ([], st\<lparr>comp_stack := [], processes := [], subagents := [],
          loop_log := loop_log st @ [CompDiscarded (length (comp_stack st)) (if why = [] then ''T1_SUCCESS'' else why)]\<rparr>)
     else
       let w = (if why = [] then ''dispose_unsuccessful'' else why);
           st1 = reap_subagents w (reap_processes w st);
           w' = (if why = [] then ''loop_disposed_unsuccessfully'' else why)
       in case drain g (comp_stack st1) (repo st1) of
            (outcomes, r) \<Rightarrow>
              (outcomes, st1\<lparr>comp_stack := [], repo := r,
                 loop_log := loop_log st1 @ map (\<lambda>(c, s). CompDrained c s w') outcomes,
                 parent_snapshot := (if rev_head g r \<noteq> [] then rev_head g r else parent_snapshot st1)\<rparr>))"

subsection \<open>What the code relies on of git\<close>

text \<open>
  \<open>HEAD\<close> and the name of the branch checked out in the main folder. Work in a step's worktree
  does not touch them; \<open>git reset\<close> moves the branch that is checked out, or fails and moves
  nothing; \<open>git update-ref\<close> of another branch leaves them alone.
\<close>

definition same_refs :: "'r gitops \<Rightarrow> 'r \<Rightarrow> 'r \<Rightarrow> bool" where
  "same_refs g r r' \<longleftrightarrow> rev_head g r' = rev_head g r \<and> abbrev_head g r' = abbrev_head g r"

lemma same_refs_trans: "same_refs g a b \<Longrightarrow> same_refs g b c \<Longrightarrow> same_refs g a c"
  by (simp add: same_refs_def)

lemma same_refs_refl [simp]: "same_refs g r r"
  by (simp add: same_refs_def)

locale git_repo =
  fixes g :: "'r gitops"
  assumes tip_of_head: "rev_parse g r (abbrev_head g r) = rev_head g r \<or> rev_parse g r (abbrev_head g r) = []"
    and add_refs: "worktree_add g r path branch sha = (done, r') \<Longrightarrow> same_refs g r r'"
    and stage_refs: "stage_all g r path = (done, r') \<Longrightarrow> same_refs g r r'"
    and commit_refs: "commit_in g r path msg = (done, r') \<Longrightarrow> same_refs g r r'"
    and remove_refs: "worktree_remove g r path = (removal, r') \<Longrightarrow> same_refs g r r'"
    and delete_refs: "branch_delete g r branch = (removal, r') \<Longrightarrow> same_refs g r r'"
    and prune_refs: "same_refs g r (prune_dead g r)"
    and reset_moves: "reset_ref g r flag sha = (True, r') \<Longrightarrow> rev_head g r' = sha \<and> abbrev_head g r' = abbrev_head g r"
    and reset_fails: "reset_ref g r flag sha = (False, r') \<Longrightarrow> same_refs g r r'"
    and update_other: "abbrev_head g r \<noteq> branch \<Longrightarrow> update_ref g r branch new old = (done, r') \<Longrightarrow> same_refs g r r'"
begin

lemma wt_create_refs: "wt_create g env sid parent r = (res, r') \<Longrightarrow> same_refs g r r'"
  using add_refs by (auto simp: wt_create_def split: prod.splits bool.splits)

lemma wt_commit_refs: "wt_commit g path msg r = (res, r') \<Longrightarrow> same_refs g r r'"
  by (auto simp: wt_commit_def split: prod.splits bool.splits option.splits dest!: stage_refs commit_refs dest: same_refs_trans)

lemma wt_rollback_refs:
  assumes "wt_rollback g path branch r = (res, r')"
  shows "same_refs g r r'"
proof -
  obtain a r1 where w: "worktree_remove g r path = (a, r1)" by fastforce
  have s1: "same_refs g r r1" by (rule remove_refs [OF w])
  show ?thesis
  proof (cases "a = RemoveFails")
    case True
    with assms w s1 show ?thesis by (simp add: wt_rollback_def)
  next
    case False
    let ?r2 = "if a = NotThere then prune_dead g r1 else r1"
    obtain b r3 where d: "branch_delete g ?r2 branch = (b, r3)" by fastforce
    have "same_refs g r1 ?r2" by (simp add: prune_refs)
    with s1 delete_refs [OF d] have "same_refs g r r3" by (blast intro: same_refs_trans)
    moreover have "r' = r3" using assms w d False by (cases a; cases b) (auto simp: wt_rollback_def Let_def)
    ultimately show ?thesis by simp
  qed
qed

lemma remove_only_refs: "same_refs g r (remove_worktree_only g path r)"
proof -
  obtain a r1 where w: "worktree_remove g r path = (a, r1)" by fastforce
  with remove_refs [OF w] prune_refs [of r1] show ?thesis
    by (auto simp: remove_worktree_only_def intro: same_refs_trans)
qed

lemma fast_forward_refs:
  "same_refs g r (fast_forward_head g sha soft r) \<or>
    (rev_head g (fast_forward_head g sha soft r) = sha \<and> abbrev_head g (fast_forward_head g sha soft r) = abbrev_head g r)"
proof (cases "head_in_history g r sha")
  case True
  obtain d r' where "reset_ref g r (if soft then ''--soft'' else ''--hard'') sha = (d, r')" by fastforce
  with True reset_moves reset_fails show ?thesis by (cases d) (auto simp: fast_forward_head_def)
qed (simp add: fast_forward_head_def)

end

subsection \<open>A step that does not commit changes nothing\<close>

text \<open>What a step leaves alone when it does not commit.\<close>

definition quiet :: "'r gitops \<Rightarrow> 'r sloop \<Rightarrow> 'r sloop \<Rightarrow> bool" where
  "quiet g st st' \<longleftrightarrow> same_refs g (repo st) (repo st') \<and> parent_snapshot st' = parent_snapshot st \<and>
    comp_stack st' = comp_stack st \<and> committed_ids st' = committed_ids st \<and> advance_head st' = advance_head st"

lemma quiet_refl [simp]: "quiet g st st"
  by (simp add: quiet_def)

lemma quiet_trans: "quiet g a b \<Longrightarrow> quiet g b c \<Longrightarrow> quiet g a c"
  by (auto simp: quiet_def intro: same_refs_trans)

lemma quiet_simps [simp]:
  "quiet g st (reap_processes why st)" "quiet g st (reap_subagents why st)" "quiet g st (keep_record rec kind st)"
  "quiet g st (unwind st)" "quiet g st (stop_container cid st)"
  by (simp_all add: quiet_def reap_processes_def reap_subagents_def keep_record_def unwind_def stop_container_def split: option.splits)

lemma quiet_after:
  assumes "quiet g st s"
  shows "quiet g st (unwind s)" and "quiet g st (stop_container cid s)" and "quiet g st (stop_container cid (unwind s))"
    and "quiet g st (keep_record rec kind s)"
  using assms quiet_trans [OF assms quiet_simps(4)] quiet_trans [OF _ quiet_simps(5)] quiet_trans [OF assms quiet_simps(3)]
  by blast+

lemma quiet_repo: "same_refs g (repo st) r \<Longrightarrow> quiet g st (st\<lparr>repo := r\<rparr>)"
  by (simp add: quiet_def)

lemma fold_register [simp]:
  "repo (fold register_subagent hs st) = repo st" "parent_snapshot (fold register_subagent hs st) = parent_snapshot st"
  "comp_stack (fold register_subagent hs st) = comp_stack st" "committed_ids (fold register_subagent hs st) = committed_ids st"
  "advance_head (fold register_subagent hs st) = advance_head st" "containers (fold register_subagent hs st) = containers st"
  by (induction hs arbitrary: st) (simp_all add: register_subagent_def)

lemma start_container_quiet: "start_container env spec st = (res, st') \<Longrightarrow> quiet g st st'"
  by (auto simp: start_container_def quiet_def split: option.splits sum.splits)

context git_repo
begin

lemma roll_back_quiet:
  assumes "roll_back g txn kind why st = (res, st')"
  shows "quiet g st st'" and "res = Inr rec \<Longrightarrow> sr_outcome rec = ROLLED_BACK"
proof -
  obtain a r where w: "wt_rollback g (txn_path txn) (step_branch (txn_step_id txn)) (repo (reap_processes kind st)) = (a, r)"
    by fastforce
  have q: "quiet g st ((reap_processes kind st)\<lparr>repo := r\<rparr>)"
    by (rule quiet_trans [OF quiet_simps(1) quiet_repo [OF wt_rollback_refs [OF w]]])
  from assms w q show "quiet g st st'"
    by (cases a) (auto simp: roll_back_def Let_def intro: quiet_trans)
  from assms w show "res = Inr rec \<Longrightarrow> sr_outcome rec = ROLLED_BACK"
    by (cases a) (auto simp: roll_back_def Let_def step_result_def)
qed

end

text \<open>What a step that commits has behind it.\<close>

definition earned :: "loop_env \<Rightarrow> step_spec \<Rightarrow> snapshot \<Rightarrow> bool" where
  "earned env spec ws \<longleftrightarrow>
    (\<forall>p \<in> set (spec_predicates spec). required_flag p \<longrightarrow>
      (\<exists>res. evaluate (le_host env) (le_import env) p ws = Inr res \<and> ok res)) \<and>
    (case le_handshakes env of
       None \<Rightarrow> True
     | Some blocking \<Rightarrow> handshake_ids spec = [] \<or> blocking (handshake_ids spec) = Inr [])"

lemma first_failed_None:
  "first_failed env ws ps = Inr None \<longleftrightarrow>
    (\<forall>p \<in> set ps. required_flag p \<longrightarrow> (\<exists>res. evaluate (le_host env) (le_import env) p ws = Inr res \<and> ok res))"
  by (induction env ws ps rule: first_failed.induct) (auto split: sum.splits)

context git_repo
begin

lemma finalize_cases:
  assumes "finalize g env spec txn ws st = (res, st')" and "postconditions txn = spec_predicates spec"
  shows "(quiet g st st' \<and> (\<forall>rec. res = Inr rec \<longrightarrow> sr_outcome rec \<noteq> COMMITTED)) \<or>
    (\<exists>new_sha r. earned env spec ws \<and> same_refs g (repo st) r \<and> res = Inr (step_result txn COMMITTED new_sha []) \<and>
      st' = keep_record (step_result txn COMMITTED new_sha []) ''step.committed'' (land g txn new_sha (st\<lparr>repo := r\<rparr>)))"
proof (cases "first_failed env ws (postconditions txn)")
  case (Inl e)
  with assms show ?thesis by (auto simp: finalize_def)
next
  case (Inr f)
  show ?thesis
  proof (cases f)
    case (Some why)
    with Inr assms(1) have "roll_back g txn ''postcondition_failed'' (''post-condition failed: '' @ why) st = (res, st')"
      by (simp add: finalize_def)
    from roll_back_quiet [OF this] show ?thesis by auto
  next
    case None
    let ?msg = "if commit_message spec \<noteq> [] then commit_message spec else ''rootact step '' @ hex (txn_step_id txn)"
    note fin = finalize_def Inr None
    show ?thesis
    proof (cases "unresolved_of env spec = Inr []")
      case False
      with assms(1) show ?thesis
        by (cases "unresolved_of env spec"; cases "blocked_reason env (projr (unresolved_of env spec))")
          (auto simp: fin Let_def step_result_def)
    next
      case True
      obtain a r where w: "wt_commit g (txn_path txn) ?msg (repo st) = (a, r)" by fastforce
      note same = wt_commit_refs [OF w]
      show ?thesis
      proof (cases a)
        case (Inl e)
        with True w assms(1) have rb: "roll_back g txn ''commit_failed'' (''commit failed: '' @ failure_text e) (st\<lparr>repo := r\<rparr>) = (res, st')"
          by (simp add: fin Let_def)
        from roll_back_quiet [OF rb] quiet_trans [OF quiet_repo [OF same]] show ?thesis by auto
      next
        case (Inr new_sha)
        have "earned env spec ws"
          using True \<open>first_failed env ws (postconditions txn) = Inr f\<close> None assms(2)
          by (auto simp: earned_def unresolved_of_def first_failed_None split: option.splits if_splits)
        moreover have "res = Inr (step_result txn COMMITTED new_sha [])"
          "st' = keep_record (step_result txn COMMITTED new_sha []) ''step.committed'' (land g txn new_sha (st\<lparr>repo := r\<rparr>))"
          using True w Inr assms(1) by (simp_all add: fin Let_def)
        ultimately show ?thesis using same by blast
      qed
    qed
  qed
qed

end

lemma open_without_actions:
  assumes "fst (open_transaction t manifest [] None []) = Inr txn"
  shows "\<exists>d. txn = t\<lparr>txn_manifest := d\<rparr> \<and> txn_parent t \<noteq> []"
  using assms by (auto simp: open_transaction_def txn_post_init_def split: sum.splits if_splits)

text \<open>The state in which \<open>_finalize\<close> runs: only the repository, the processes and the helpers differ.\<close>

context git_repo
begin

lemma run_step_cases:
  assumes "run_step g env knot spec runner st = (res, st')" and keeps: "\<And>r. same_refs g r (rr_repo (runner r))"
  shows "(quiet g st st' \<and> (\<forall>rec. res = Inr rec \<longrightarrow> sr_outcome rec \<noteq> COMMITTED)) \<or>
    (\<exists>txn new_sha cid st1 ws r. set (spec_depends_on spec) \<subseteq> set (committed_ids st) \<and> rr_outcome (runner r) = Inr ws \<and>
      earned env spec ws \<and> quiet g st st1 \<and> txn_parent txn = parent_snapshot st \<and> parent_snapshot st \<noteq> [] \<and>
      txn_step_id txn = spec_id spec \<and>
      res = Inr (step_result txn COMMITTED new_sha []) \<and>
      st' = stop_container cid (keep_record (step_result txn COMMITTED new_sha []) ''step.committed'' (land g txn new_sha st1)))"
proof (cases "knot = Some False")
  case True
  with assms(1) show ?thesis by (auto simp: run_step_def)
next
  case knot: False
  show ?thesis
  proof (cases "find (\<lambda>d. d \<notin> set (committed_ids st)) (spec_depends_on spec)")
    case (Some dep)
    with knot assms(1) show ?thesis by (auto simp: run_step_def Let_def)
  next
    case None
    then have deps: "set (spec_depends_on spec) \<subseteq> set (committed_ids st)" by (auto simp: find_None_iff)
    obtain a r where w: "wt_create g env (spec_id spec) (parent_snapshot st) (repo st) = (a, r)" by fastforce
    have q0: "quiet g st (st\<lparr>repo := r\<rparr>)" by (rule quiet_repo [OF wt_create_refs [OF w]])
    note run = run_step_def knot None w
    show ?thesis
    proof (cases a)
      case (Inl e)
      with assms(1) q0 show ?thesis by (auto simp: run)
    next
      case (Inr path)
      obtain b st1 where c: "start_container env spec (st\<lparr>repo := r\<rparr>) = (b, st1)" by fastforce
      have q1: "quiet g st st1" by (rule quiet_trans [OF q0 start_container_quiet [OF c]])
      note run = run Inr c
      show ?thesis
      proof (cases b)
        case (Inl e)
        with assms(1) q1 show ?thesis by (auto simp: run intro: quiet_trans)
      next
        case (Inr cid)
        obtain x st2 where body: "step_body g env spec path cid runner st1 = (x, st2)" by fastforce
        have fin: "res = x \<and> st' = stop_container cid (case x of Inl _ \<Rightarrow> unwind st2 | Inr _ \<Rightarrow> st2)"
          using assms(1) by (cases x) (auto simp: run Inr body)
        have stop: "quiet g st st2 \<Longrightarrow> quiet g st st'"
          using fin by (cases x) (simp_all add: quiet_after)
        show ?thesis
        proof (cases "fst (open_transaction (new_txn env spec (parent_snapshot st1) path cid) (le_manifest env) [] None [])")
          case (Inl e)
          with body have "x = Inl (TxnFailed e)" "st2 = st1" by (simp_all add: step_body_def)
          with fin stop q1 show ?thesis by auto
        next
          case (Inr txn)
          note opened = open_without_actions [OF this]
          let ?st2 = "fold register_subagent (rr_subagents (runner (repo st1)))
            (st1\<lparr>repo := rr_repo (runner (repo st1)), processes := processes st1 @ rr_processes (runner (repo st1))\<rparr>)"
          have q2: "quiet g st ?st2"
            using q1 keeps [of "repo st1"] by (auto simp: quiet_def intro: same_refs_trans)
          show ?thesis
          proof (cases "rr_outcome (runner (repo st1))")
            case (Inl e)
            with body Inr have "x = Inl (RunnerRaised e)" "st2 = ?st2" by (simp_all add: step_body_def Let_def)
            with fin stop q2 show ?thesis by auto
          next
            case (Inr ws)
            with body \<open>_ = Inr txn\<close> have f: "finalize g env spec txn ws ?st2 = (x, st2)"
              by (simp add: step_body_def Let_def)
            have post: "postconditions txn = spec_predicates spec" "txn_parent txn = parent_snapshot st1" "txn_step_id txn = spec_id spec"
              "parent_snapshot st1 \<noteq> []"
              using opened by (auto simp: new_txn_def)
            have par: "parent_snapshot st1 = parent_snapshot st" using q1 by (simp add: quiet_def)
            from finalize_cases [OF f post(1)] show ?thesis
            proof
              assume "quiet g ?st2 st2 \<and> (\<forall>rec. x = Inr rec \<longrightarrow> sr_outcome rec \<noteq> COMMITTED)"
              with fin stop quiet_trans [OF q2] show ?thesis by auto
            next
              assume "\<exists>new_sha r. earned env spec ws \<and> same_refs g (repo ?st2) r \<and> x = Inr (step_result txn COMMITTED new_sha []) \<and>
                st2 = keep_record (step_result txn COMMITTED new_sha []) ''step.committed'' (land g txn new_sha (?st2\<lparr>repo := r\<rparr>))"
              then obtain new_sha r' where e: "earned env spec ws" "same_refs g (repo ?st2) r'" "x = Inr (step_result txn COMMITTED new_sha [])"
                "st2 = keep_record (step_result txn COMMITTED new_sha []) ''step.committed'' (land g txn new_sha (?st2\<lparr>repo := r'\<rparr>))"
                by blast
              have "quiet g st (?st2\<lparr>repo := r'\<rparr>)" by (rule quiet_trans [OF q2 quiet_repo [OF e(2)]])
              with e(1,3,4) fin deps Inr post par show ?thesis by fastforce
            qed
          qed
        qed
      qed
    qed
  qed
qed

end

subsection \<open>What holds a commit back\<close>

text \<open>
  What the loop relies on of a handshake registry: when nothing among the ids a step names is held
  back, each of them is cleared. Then every step that commits has all of its handshakes cleared.
\<close>

locale commit_gate =
  fixes blocks :: "string list \<Rightarrow> string + string list" and cleared :: "string \<Rightarrow> bool"
  assumes unblocked: "blocks ids = Inr [] \<Longrightarrow> i \<in> set ids \<Longrightarrow> cleared i"
begin

lemma committed_cleared:
  assumes "git_repo g" and "\<And>r. same_refs g r (rr_repo (runner r))" and "le_handshakes env = Some blocks"
    and "run_step g env knot spec runner st = (Inr rec, st')" and "sr_outcome rec = COMMITTED" and "i \<in> set (handshake_ids spec)"
  shows "cleared i"
proof -
  have "\<exists>ws. earned env spec ws"
    using git_repo.run_step_cases [OF assms(1,4,2)] assms(5) by blast
  with assms(3,6) have "blocks (handshake_ids spec) = Inr []" by (auto simp: earned_def)
  from unblocked [OF this assms(6)] show ?thesis .
qed

end

subsection \<open>The saga: what the compensators undo\<close>

text \<open>Steps one behind the other; a caller may go on behind an exception.\<close>

definition run_steps ::
    "'r gitops \<Rightarrow> loop_env \<Rightarrow> (step_spec \<times> ('r \<Rightarrow> 'r run_result)) list \<Rightarrow> 'r sloop \<Rightarrow> 'r sloop" where
  "run_steps g env plan st = foldl (\<lambda>s (spec, runner). snd (run_step g env None spec runner s)) st plan"

text \<open>
  A stack, its last entry first, that leads from the tip of the branch back to \<open>h0\<close>, one commit
  at a time.
\<close>

fun undo_chain :: "(string \<Rightarrow> string \<Rightarrow> bool) \<Rightarrow> string \<Rightarrow> string \<Rightarrow> compensator list \<Rightarrow> string \<Rightarrow> bool" where
  "undo_chain anc b h0 [] tip \<longleftrightarrow> tip = h0"
| "undo_chain anc b h0 (c # cs) tip \<longleftrightarrow>
    comp_branch c = b \<and> sha_after c = tip \<and> comp_mode c = ''soft'' \<and> \<not> applied c \<and>
    anc (sha_before c) tip \<and> sha_before c \<noteq> tip \<and> undo_chain anc b h0 cs (sha_before c)"

lemma chain_bottom: "undo_chain anc b h0 cs tip \<Longrightarrow> (tip # map sha_before cs) ! length cs = h0"
  by (induction cs arbitrary: tip) auto

definition saga :: "'r gitops \<Rightarrow> (string \<Rightarrow> string \<Rightarrow> bool) \<Rightarrow> string \<Rightarrow> string \<Rightarrow> 'r sloop \<Rightarrow> bool" where
  "saga g anc b h0 st \<longleftrightarrow> advance_head st \<and> abbrev_head g (repo st) = b \<and>
    rev_head g (repo st) = parent_snapshot st \<and> undo_chain anc b h0 (rev (comp_stack st)) (parent_snapshot st)"

lemma saga_quiet: "saga g anc b h0 st \<Longrightarrow> quiet g st st' \<Longrightarrow> saga g anc b h0 st'"
  by (auto simp: saga_def quiet_def same_refs_def)

text \<open>The commits of a repository are ordered by ancestry, and the fast-forward asks for it.\<close>

locale commit_graph = git_repo +
  fixes anc :: "string \<Rightarrow> string \<Rightarrow> bool"
  assumes ancestor: "head_in_history g r sha \<Longrightarrow> anc (rev_head g r) sha"
    and anc_trans: "anc x y \<Longrightarrow> anc y z \<Longrightarrow> anc x z"
    and anc_antisym: "anc x y \<Longrightarrow> anc y x \<Longrightarrow> x = y"
begin

lemma land_saga:
  assumes inv: "saga g anc b h0 st" and txn: "txn_parent txn = parent_snapshot st" and "parent_snapshot st \<noteq> []"
  shows "saga g anc b h0 (land g txn sha st)"
proof -
  let ?r = "fast_forward_head g sha True (repo st)"
  have refs: "abbrev_head g ?r = b" and head: "rev_head g ?r = parent_snapshot st \<or> rev_head g ?r = sha"
    using fast_forward_refs [of "repo st" sha True] inv by (auto simp: same_refs_def saga_def)
  have up: "rev_head g ?r = sha \<Longrightarrow> sha \<noteq> parent_snapshot st \<Longrightarrow> anc (parent_snapshot st) sha"
    using ancestor [of "repo st" sha] inv by (cases "head_in_history g (repo st) sha") (auto simp: saga_def fast_forward_head_def)
  have keep: "rev_head g (remove_worktree_only g p r) = rev_head g r" "abbrev_head g (remove_worktree_only g p r) = abbrev_head g r" for p r
    using remove_only_refs [of r p] by (simp_all add: same_refs_def)
  consider "rev_head g ?r \<noteq> sha" | "rev_head g ?r = sha" "sha = parent_snapshot st"
    | "rev_head g ?r = sha" "sha \<noteq> parent_snapshot st" by blast
  then show ?thesis
  proof cases
    case 1
    with inv refs head show ?thesis by (simp add: saga_def land_def Let_def keep)
  next
    case 2
    with inv refs txn show ?thesis by (simp add: saga_def land_def Let_def keep)
  next
    case 3
    with assms refs up show ?thesis
      by (auto simp: saga_def land_def Let_def keep install_compensator_def build_compensator_def)
  qed
qed

lemma run_step_saga:
  assumes "saga g anc b h0 st" and keeps: "\<And>r. same_refs g r (rr_repo (runner r))"
  shows "saga g anc b h0 (snd (run_step g env knot spec runner st))"
proof -
  obtain res st' where run: "run_step g env knot spec runner st = (res, st')" by fastforce
  from run_step_cases [OF run keeps] show ?thesis
  proof (elim disjE exE conjE)
    assume "quiet g st st'"
    with assms(1) run show ?thesis by (simp add: saga_quiet)
  next
    fix txn new_sha cid st1
    assume q: "quiet g st st1" and txn: "txn_parent txn = parent_snapshot st" "parent_snapshot st \<noteq> []"
      and st': "st' = stop_container cid (keep_record (step_result txn COMMITTED new_sha []) ''step.committed'' (land g txn new_sha st1))"
    have "saga g anc b h0 st1" "parent_snapshot st1 = parent_snapshot st"
      using assms(1) q by (auto intro: saga_quiet simp: quiet_def)
    then have "saga g anc b h0 (land g txn new_sha st1)" using txn land_saga by simp
    from saga_quiet [OF this quiet_after(2) [OF quiet_simps(3)]] run st' show ?thesis by simp
  qed
qed

lemma run_steps_saga:
  "saga g anc b h0 st \<Longrightarrow> (\<And>spec runner r. (spec, runner) \<in> set plan \<Longrightarrow> same_refs g r (rr_repo (runner r)))
    \<Longrightarrow> saga g anc b h0 (run_steps g env plan st)"
proof (induction plan arbitrary: st)
  case (Cons p plan)
  obtain spec runner where p: "p = (spec, runner)" by fastforce
  have "saga g anc b h0 (snd (run_step g env None spec runner st))"
    using Cons.prems(1) Cons.prems(2) [of spec runner] p by (intro run_step_saga) auto
  from Cons.IH [OF this] have "saga g anc b h0 (run_steps g env plan (snd (run_step g env None spec runner st)))"
    using Cons.prems(2) by (meson list.set_intros(2))
  with p show ?case by (simp add: run_steps_def)
qed (simp add: run_steps_def)

lemma chain_below: "undo_chain anc b h0 cs tip \<Longrightarrow> c \<in> set cs \<Longrightarrow> sha_after c = tip \<or> anc (sha_after c) tip"
proof (induction cs arbitrary: tip)
  case (Cons a cs)
  from Cons.IH [of "sha_before a"] Cons.prems anc_trans [of "sha_after c" "sha_before a" tip] show ?case by auto
qed simp

text \<open>Once the tip is no entry's commit, the rest of the stack refuses and moves nothing.\<close>

lemma drain_stuck:
  assumes "rev_head g r = x" and "abbrev_head g r = b"
    and "\<And>c. c \<in> set cs \<Longrightarrow> comp_branch c = b \<and> \<not> applied c \<and> sha_after c \<noteq> x"
  shows "snd (drain_from g cs r) = r \<and> ''applied'' \<notin> snd ` set (fst (drain_from g cs r))"
  using assms(3)
proof (induction cs)
  case (Cons c cs)
  have "snd (snd (comp_apply g c r)) = r \<and> drain_status (fst (comp_apply g c r)) \<noteq> ''applied''"
    using Cons.prems [of c] assms(1,2) tip_of_head [of r] by (auto simp: comp_apply_def drain_status_def Let_def)
  with Cons show ?case by (auto split: prod.splits)
qed simp

lemma chain_branch: "undo_chain anc b h0 cs tip \<Longrightarrow> c \<in> set cs \<Longrightarrow> comp_branch c = b \<and> \<not> applied c"
  by (induction cs arbitrary: tip) auto

lemma drain_undoes:
  assumes "undo_chain anc b h0 cs tip" and "rev_head g r = tip" and "abbrev_head g r = b"
  shows "\<exists>k \<le> length cs. \<exists>rest. map snd (fst (drain_from g cs r)) = replicate k ''applied'' @ rest \<and> ''applied'' \<notin> set rest \<and>
    rev_head g (snd (drain_from g cs r)) = (tip # map sha_before cs) ! k \<and> abbrev_head g (snd (drain_from g cs r)) = b \<and>
    (k < length cs \<longrightarrow> pushed (cs ! k) \<or> (\<exists>r. \<not> fst (reset_ref g r ''--soft'' (sha_before (cs ! k)))))"
  using assms
proof (induction cs arbitrary: tip r)
  case (Cons c cs)
  have c: "comp_branch c = b" "sha_after c = tip" "comp_mode c = ''soft''" "\<not> applied c"
    and lt: "anc (sha_before c) tip" "sha_before c \<noteq> tip" and chain: "undo_chain anc b h0 cs (sha_before c)"
    using Cons.prems(1) by simp_all
  have old: "comp_branch d = b \<and> \<not> applied d \<and> sha_after d \<noteq> tip" if "d \<in> set cs" for d
    using chain_branch [OF chain that] chain_below [OF chain that] lt anc_antisym by metis
  obtain moved r1 where reset: "reset_ref g r ''--soft'' (sha_before c) = (moved, r1)" by fastforce
  have app: "comp_apply g c r = (if pushed c then (Inl CompensatorPushed, c, r) else (Inr moved, c\<lparr>applied := True\<rparr>, r1))"
    using c Cons.prems(2,3) tip_of_head [of r] reset by (auto simp: comp_apply_def reset_flag_def Let_def)
  show ?case
  proof (cases "\<not> pushed c \<and> moved")
    case True
    then have r1: "rev_head g r1 = sha_before c" "abbrev_head g r1 = b"
      using reset_moves [of r "''--soft''" "sha_before c" r1] reset Cons.prems(3) by auto
    obtain k rest where ih: "k \<le> length cs" "map snd (fst (drain_from g cs r1)) = replicate k ''applied'' @ rest" "''applied'' \<notin> set rest"
      "rev_head g (snd (drain_from g cs r1)) = (sha_before c # map sha_before cs) ! k" "abbrev_head g (snd (drain_from g cs r1)) = b"
      "k < length cs \<longrightarrow> pushed (cs ! k) \<or> (\<exists>r. \<not> fst (reset_ref g r ''--soft'' (sha_before (cs ! k))))"
      using Cons.IH [OF chain r1] by blast
    show ?thesis
      using True app ih
      by (intro exI [of _ "Suc k"] conjI exI [of _ rest]) (auto simp: drain_status_def split: prod.splits)
  next
    case False
    let ?r = "if pushed c then r else r1"
    have "rev_head g ?r = tip" "abbrev_head g ?r = b"
      using False reset_fails [of r "''--soft''" "sha_before c" r1] reset Cons.prems by (auto simp: same_refs_def)
    with drain_stuck [of ?r tip b cs] old
    have "snd (drain_from g cs ?r) = ?r" "''applied'' \<notin> snd ` set (fst (drain_from g cs ?r))" by auto
    moreover have "rev_head g ?r = tip" "abbrev_head g ?r = b" by fact+
    moreover have "pushed c \<or> \<not> fst (reset_ref g r ''--soft'' (sha_before c))" using False reset by auto
    ultimately show ?thesis
      using False app
      by (intro exI [of _ 0] conjI exI [of _ "map snd (fst (drain_from g (c # cs) r))"])
        (auto simp: drain_status_def split: prod.splits if_splits)
  qed
qed simp

end

text \<open>A loop that does not advance \<open>HEAD\<close>.\<close>

definition detached :: "'r gitops \<Rightarrow> 'r sloop \<Rightarrow> 'r sloop \<Rightarrow> bool" where
  "detached g st st' \<longleftrightarrow> same_refs g (repo st) (repo st') \<and> comp_stack st' = comp_stack st \<and> \<not> advance_head st'"

lemma detached_trans: "detached g a b \<Longrightarrow> detached g b c \<Longrightarrow> detached g a c"
  by (auto simp: detached_def intro: same_refs_trans)

lemma quiet_detached: "quiet g st st' \<Longrightarrow> \<not> advance_head st \<Longrightarrow> detached g st st'"
  by (simp add: quiet_def detached_def)

context git_repo
begin

lemma land_detached: "\<not> advance_head st \<Longrightarrow> detached g st (land g txn sha st)"
  by (simp add: land_def detached_def remove_only_refs)

lemma run_step_detached:
  assumes "\<not> advance_head st" and keeps: "\<And>r. same_refs g r (rr_repo (runner r))"
  shows "detached g st (snd (run_step g env knot spec runner st))"
proof -
  obtain res st' where run: "run_step g env knot spec runner st = (res, st')" by fastforce
  from run_step_cases [OF run keeps] show ?thesis
  proof (elim disjE exE conjE)
    assume "quiet g st st'"
    with assms(1) run show ?thesis by (simp add: quiet_detached)
  next
    fix txn new_sha cid st1
    assume q: "quiet g st st1"
      and st': "st' = stop_container cid (keep_record (step_result txn COMMITTED new_sha []) ''step.committed'' (land g txn new_sha st1))"
    have d1: "detached g st st1" by (rule quiet_detached [OF q assms(1)])
    then have d2: "detached g st1 (land g txn new_sha st1)" by (intro land_detached) (simp add: detached_def)
    then have "detached g (land g txn new_sha st1) st'"
      unfolding st' by (intro quiet_detached quiet_after(2) quiet_simps) (simp add: detached_def)
    with d1 d2 run show ?thesis by (auto intro: detached_trans)
  qed
qed

lemma run_steps_detached:
  "\<not> advance_head st \<Longrightarrow> (\<And>spec runner r. (spec, runner) \<in> set plan \<Longrightarrow> same_refs g r (rr_repo (runner r)))
    \<Longrightarrow> detached g st (run_steps g env plan st)"
proof (induction plan arbitrary: st)
  case (Cons p plan)
  obtain spec runner where p: "p = (spec, runner)" by fastforce
  let ?st = "snd (run_step g env None spec runner st)"
  have d: "detached g st ?st"
    using Cons.prems(1) Cons.prems(2) [of spec runner] p by (intro run_step_detached) auto
  then have "\<not> advance_head ?st" by (simp add: detached_def)
  from Cons.IH [OF this] have "detached g ?st (run_steps g env plan ?st)"
    using Cons.prems(2) by (meson list.set_intros(2))
  with d p show ?case by (auto simp: run_steps_def intro: detached_trans)
qed (simp add: run_steps_def detached_def)

end

subsection \<open>A repository in memory\<close>

text \<open>
  A repository whose commits are named by the messages that lead to them, so that ancestry is
  the prefix order: branches with their tips, worktrees with their branches, and the tips a
  remote holds.
\<close>

record mem_repo =
  mr_branch :: string
  mr_tips :: "(string \<times> string) list"
  mr_trees :: "(string \<times> string) list"
  mr_remote :: "string list"

definition mr_tip :: "mem_repo \<Rightarrow> string \<Rightarrow> string" where
  "mr_tip r b = (case map_of (mr_tips r) b of None \<Rightarrow> [] | Some sha \<Rightarrow> sha)"

definition mr_set :: "mem_repo \<Rightarrow> string \<Rightarrow> string \<Rightarrow> mem_repo" where
  "mr_set r b sha = r\<lparr>mr_tips := (b, sha) # mr_tips r\<rparr>"

definition mr_held :: "mem_repo \<Rightarrow> string \<Rightarrow> bool" where
  "mr_held r sha \<longleftrightarrow> sha \<noteq> [] \<and> list_ex (\<lambda>(b, t). prefix sha t) (mr_tips r)"

definition mem_git :: "mem_repo gitops" where
  "mem_git = \<lparr>
     rev_head = (\<lambda>r. mr_tip r (mr_branch r)),
     rev_parse = mr_tip,
     abbrev_head = mr_branch,
     head_in_history = (\<lambda>r sha. prefix (mr_tip r (mr_branch r)) sha),
     reset_ref = (\<lambda>r flag sha. if mr_held r sha then (True, mr_set r (mr_branch r) sha) else (False, r)),
     update_ref = (\<lambda>r b new old. if mr_tip r b = old then (True, mr_set r b new) else (False, r)),
     remote_contains = (\<lambda>r sha. Some (list_ex (prefix sha) (mr_remote r))),
     worktree_add = (\<lambda>r path b sha.
       if b = mr_branch r \<or> map_of (mr_tips r) b \<noteq> None \<or> map_of (mr_trees r) path \<noteq> None then (False, r)
       else (True, (mr_set r b sha)\<lparr>mr_trees := (path, b) # mr_trees r\<rparr>)),
     stage_all = (\<lambda>r path. (map_of (mr_trees r) path \<noteq> None, r)),
     commit_in = (\<lambda>r path msg. case map_of (mr_trees r) path of
         None \<Rightarrow> (False, r)
       | Some b \<Rightarrow> if b = mr_branch r then (False, r) else (True, mr_set r b (mr_tip r b @ ''/'' @ msg))),
     head_in = (\<lambda>r path. map_option (mr_tip r) (map_of (mr_trees r) path)),
     worktree_remove = (\<lambda>r path. if map_of (mr_trees r) path = None then (NotThere, r)
       else (Removed, r\<lparr>mr_trees := filter (\<lambda>(p, b). p \<noteq> path) (mr_trees r)\<rparr>)),
     path_exists = (\<lambda>r path. map_of (mr_trees r) path \<noteq> None),
     branch_delete = (\<lambda>r b. if b = mr_branch r then (RemoveFails, r)
       else if map_of (mr_tips r) b = None then (NotThere, r)
       else (Removed, r\<lparr>mr_tips := filter (\<lambda>(x, t). x \<noteq> b) (mr_tips r)\<rparr>)),
     prune_dead = (\<lambda>r. r)\<rparr>"

lemma map_of_filter_other: "b \<noteq> x \<Longrightarrow> map_of (filter (\<lambda>(y, t). y \<noteq> x) ts) b = map_of ts b"
  by (induction ts) auto

lemma mr_tip_set [simp]: "mr_tip (mr_set r b sha) x = (if x = b then sha else mr_tip r x)" "mr_branch (mr_set r b sha) = mr_branch r"
  by (simp_all add: mr_tip_def mr_set_def)

lemma mr_tip_trees [simp]: "mr_tip (r\<lparr>mr_trees := ts\<rparr>) = mr_tip r"
  by (simp add: mr_tip_def fun_eq_iff)

interpretation mem: commit_graph mem_git prefix
proof unfold_locales
  show "\<And>r path branch sha don r'. worktree_add mem_git r path branch sha = (don, r') \<Longrightarrow> same_refs mem_git r r'"
    by (auto simp: mem_git_def same_refs_def split: if_splits)
  show "\<And>r path msg don r'. commit_in mem_git r path msg = (don, r') \<Longrightarrow> same_refs mem_git r r'"
    by (auto simp: mem_git_def same_refs_def split: if_splits option.splits)
  show "\<And>r branch don r'. branch_delete mem_git r branch = (don, r') \<Longrightarrow> same_refs mem_git r r'"
    by (auto simp: mem_git_def same_refs_def mr_tip_def map_of_filter_other split: if_splits)
  show "\<And>r branch new old don r'. abbrev_head mem_git r \<noteq> branch \<Longrightarrow> update_ref mem_git r branch new old = (don, r') \<Longrightarrow> same_refs mem_git r r'"
    by (auto simp: mem_git_def same_refs_def split: if_splits)
qed (auto simp: mem_git_def same_refs_def split: if_splits intro: prefix_order.antisym)

context git_repo
begin

lemma land_frame:
  "committed_ids (land g txn sha st) = List.insert (txn_step_id txn) (committed_ids st) \<and>
   rev_head g (repo (land g txn sha st)) \<in> {rev_head g (repo st), sha} \<and>
   abbrev_head g (repo (land g txn sha st)) = abbrev_head g (repo st)"
proof -
  have keep: "rev_head g (remove_worktree_only g p r) = rev_head g r" "abbrev_head g (remove_worktree_only g p r) = abbrev_head g r" for p r
    using remove_only_refs [of r p] by (simp_all add: same_refs_def)
  show ?thesis
    using fast_forward_refs [of "repo st" sha True]
    by (auto simp: land_def Let_def keep install_compensator_def same_refs_def split: option.splits)
qed

end

subsection \<open>Containers and helpers\<close>

lemma roll_back_containers: "containers (snd (roll_back g txn kind why st)) = containers st"
  by (simp add: roll_back_def Let_def reap_processes_def keep_record_def split: prod.splits sum.splits)

lemma land_containers: "containers (land g txn sha st) = containers st"
  by (simp add: land_def Let_def install_compensator_def split: option.splits)

lemma finalize_containers: "containers (snd (finalize g env spec txn ws st)) = containers st"
  by (simp add: finalize_def Let_def roll_back_containers land_containers keep_record_def split: sum.splits option.splits prod.splits)

lemma step_body_containers: "containers (snd (step_body g env spec path cid runner st)) = containers st"
  by (simp add: step_body_def Let_def finalize_containers split: sum.splits)

lemma unwind_helpers: "containers (unwind st) = containers st" "processes (unwind st) = []" "subagents (unwind st) = []"
  by (simp_all add: unwind_def reap_processes_def reap_subagents_def)

text \<open>
  A step's container never outlives the step, and a step that raises leaves no process and
  no helper behind: whatever the runner, git, the container backend and the predicates do, the
  containers that run afterwards are those that ran before, and an exception from behind the
  creation of the worktree finds every child of the loop reaped.
\<close>

theorem step_leaks_nothing:
  fixes st :: "'r sloop"
  assumes "run_step g env knot spec runner st = (res, st')" and "processes st = []" and "subagents st = []"
  shows "containers st' = containers st \<and> (isl res \<longrightarrow> processes st' = [] \<and> subagents st' = [])"
proof -
  obtain a r where w: "wt_create g env (spec_id spec) (parent_snapshot st) (repo st) = (a, r)" by fastforce
  consider "knot = Some False \<or> find (\<lambda>d. d \<notin> set (committed_ids st)) (spec_depends_on spec) \<noteq> None \<or> isl a"
    | path where "knot \<noteq> Some False" "find (\<lambda>d. d \<notin> set (committed_ids st)) (spec_depends_on spec) = None" "a = Inr path"
    by (cases a) auto
  then show ?thesis
  proof cases
    case 1
    with assms w show ?thesis
      by (auto simp: run_step_def Let_def keep_record_def isl_def split: if_splits option.splits)
  next
    case 2
    obtain b st1 where c: "start_container env spec (st\<lparr>repo := r\<rparr>) = (b, st1)" by fastforce
    have st1: "containers st1 = (case b of Inr (Some cid) \<Rightarrow> cid # containers st | _ \<Rightarrow> containers st)"
      using c by (auto simp: start_container_def split: option.splits sum.splits)
    show ?thesis
    proof (cases b)
      case (Inl e)
      with assms(1) 2 w c st1 show ?thesis by (auto simp: run_step_def unwind_helpers)
    next
      case (Inr cid)
      obtain x st2 where body: "step_body g env spec path cid runner st1 = (x, st2)" by fastforce
      then have "containers st2 = containers st1" using step_body_containers [of g env spec path cid runner st1] by simp
      with assms(1) 2 w c st1 Inr body show ?thesis
        by (cases x; cases cid) (auto simp: run_step_def stop_container_def unwind_helpers)
    qed
  qed
qed

subsection \<open>Steps over a repository\<close>

definition demo_loop_env :: loop_env where
  "demo_loop_env = \<lparr>le_host = demo_host, le_import = (\<lambda>_ _. Callable (\<lambda>ws. Returned (PBool (files ws \<noteq> [])))), le_worktree_root = ''/w'',
     le_container = Some (\<lambda>img. Inr (''c-'' @ img)), le_handshakes = None, le_unsigned_reason = (\<lambda>_. Inr []), le_manifest = Inr None\<rparr>"

definition demo_step :: "char \<Rightarrow> string list \<Rightarrow> step_spec" where
  "demo_step x deps = \<lparr>spec_id = replicate 16 x,
     spec_predicates = [\<lparr>pred_id = replicate 16 (CHR ''p''), pred_kind = ''invariant'', invocation = AssertionInvocation ''checks:any_file'',
       required_flag = True, pred_depends_on = []\<rparr>],
     runtime_image = Some ''py'', spec_budget = \<lparr>cpu_positive = True, budget_memory_mb = 1024, budget_network = False, wall_seconds = 60\<rparr>,
     handshake_ids = [], spec_depends_on = deps, commit_message = [x]\<rparr>"

text \<open>A runner that writes a file, one that writes none, and one that raises with a child running.\<close>

definition writes :: "mem_repo \<Rightarrow> mem_repo run_result" where
  "writes r = \<lparr>rr_outcome = Inr \<lparr>files = [(''a.py'', ''x = 1'')], metadata = []\<rparr>, rr_repo = r, rr_processes = [], rr_subagents = []\<rparr>"

definition idles :: "mem_repo \<Rightarrow> mem_repo run_result" where
  "idles r = \<lparr>rr_outcome = Inr \<lparr>files = [], metadata = []\<rparr>, rr_repo = r, rr_processes = [], rr_subagents = []\<rparr>"

definition crashes :: "mem_repo \<Rightarrow> mem_repo run_result" where
  "crashes r = \<lparr>rr_outcome = Inl ''OSError'', rr_repo = r, rr_processes = [''pid7''], rr_subagents = [''lsp'']\<rparr>"

lemma runners_keep: "same_refs mem_git r (rr_repo (writes r))" "same_refs mem_git r (rr_repo (idles r))" "same_refs mem_git r (rr_repo (crashes r))"
  by (simp_all add: writes_def idles_def crashes_def)

definition demo_loop :: "bool \<Rightarrow> mem_repo sloop" where
  "demo_loop adv = \<lparr>repo = \<lparr>mr_branch = ''main'', mr_tips = [(''main'', ''root'')], mr_trees = [], mr_remote = [''root'']\<rparr>,
     parent_snapshot = ''root'', advance_head = adv, records = [], committed_ids = [], comp_stack = [], processes = [],
     subagents = [], containers = [], loop_log = []\<rparr>"

theorem step_leaks_nothing_witness:
  "isl (fst (run_step mem_git demo_loop_env None (demo_step CHR ''a'' []) crashes (demo_loop True))) \<and>
   containers (snd (run_step mem_git demo_loop_env None (demo_step CHR ''a'' []) crashes (demo_loop True))) = []"
proof -
  have "isl (fst (run_step mem_git demo_loop_env None (demo_step CHR ''a'' []) crashes (demo_loop True)))" by code_simp
  moreover have "containers (demo_loop True) = []" "processes (demo_loop True) = []" "subagents (demo_loop True) = []"
    by (simp_all add: demo_loop_def)
  ultimately show ?thesis
    using step_leaks_nothing [of mem_git demo_loop_env None "demo_step CHR ''a'' []" crashes "demo_loop True"]
    by (metis prod.collapse)
qed

text \<open>
  C1. A step is all or nothing. Either the step did not commit, and then the branch that is
  checked out, its tip, the loop's parent snapshot, the set of committed steps and the compensators
  are what they were; or it committed, and then every step it depends on had committed, the
  snapshot the runner returned meets every required predicate of the step, no handshake it names is
  open, and the branch is where it was or at the step's own commit.
\<close>

theorem step_atomic:
  assumes "git_repo g" and "\<forall>r. same_refs g r (rr_repo (runner r))"
    and "run_step g env knot spec runner st = (res, st')"
  shows "(quiet g st st' \<and> (\<nexists>rec. res = Inr rec \<and> sr_outcome rec = COMMITTED)) \<or>
    (\<exists>rec ws r. res = Inr rec \<and> sr_outcome rec = COMMITTED \<and> sr_before rec = parent_snapshot st \<and>
      set (spec_depends_on spec) \<subseteq> set (committed_ids st) \<and> committed_ids st' = List.insert (spec_id spec) (committed_ids st) \<and>
      rr_outcome (runner r) = Inr ws \<and> earned env spec ws \<and>
      rev_head g (repo st') \<in> {rev_head g (repo st), sr_after rec} \<and> abbrev_head g (repo st') = abbrev_head g (repo st))"
  using git_repo.run_step_cases [OF assms(1,3) spec [OF assms(2)]]
proof (elim disjE exE conjE)
  fix txn new_sha cid st1 ws r
  assume q: "quiet g st st1" and a: "set (spec_depends_on spec) \<subseteq> set (committed_ids st)" "rr_outcome (runner r) = Inr ws" "earned env spec ws"
      "txn_parent txn = parent_snapshot st" "txn_step_id txn = spec_id spec" "res = Inr (step_result txn COMMITTED new_sha [])"
    and st': "st' = stop_container cid (keep_record (step_result txn COMMITTED new_sha []) ''step.committed'' (land g txn new_sha st1))"
  from git_repo.land_frame [OF assms(1), where txn = txn and sha = new_sha and st = st1] q have
    "committed_ids st' = List.insert (spec_id spec) (committed_ids st)" "rev_head g (repo st') \<in> {rev_head g (repo st), new_sha}"
    "abbrev_head g (repo st') = abbrev_head g (repo st)"
    using a(5) by (auto simp: st' stop_container_def keep_record_def quiet_def same_refs_def split: option.splits)
  with a show ?thesis by (auto simp: step_result_def)
qed auto

theorem step_atomic_witness:
  "(\<exists>rec. fst (run_step mem_git demo_loop_env None (demo_step CHR ''a'' []) writes (demo_loop True)) = Inr rec \<and>
     sr_outcome rec = COMMITTED \<and> sr_after rec = ''root/a'') \<and>
   (\<exists>ws r. rr_outcome (writes r) = Inr ws \<and> earned demo_loop_env (demo_step CHR ''a'' []) ws) \<and>
   quiet mem_git (demo_loop True) (snd (run_step mem_git demo_loop_env None (demo_step CHR ''a'' []) idles (demo_loop True)))"
proof -
  have c: "(case fst (run_step mem_git demo_loop_env None (demo_step CHR ''a'' []) writes (demo_loop True)) of
      Inl _ \<Rightarrow> False | Inr rec \<Rightarrow> sr_outcome rec = COMMITTED \<and> sr_after rec = ''root/a'')" by code_simp
  then obtain rec where rec: "fst (run_step mem_git demo_loop_env None (demo_step CHR ''a'' []) writes (demo_loop True)) = Inr rec"
    "sr_outcome rec = COMMITTED" "sr_after rec = ''root/a''" by (auto split: sum.splits)
  moreover have "\<exists>ws r. rr_outcome (writes r) = Inr ws \<and> earned demo_loop_env (demo_step CHR ''a'' []) ws"
    using step_atomic [OF mem.git_repo_axioms _ surjective_pairing, where runner = writes and env = demo_loop_env and knot = None
        and spec = "demo_step CHR ''a'' []" and st = "demo_loop True"] runners_keep rec by auto
  moreover have i: "(case fst (run_step mem_git demo_loop_env None (demo_step CHR ''a'' []) idles (demo_loop True)) of
      Inl _ \<Rightarrow> True | Inr rec \<Rightarrow> sr_outcome rec \<noteq> COMMITTED)" by code_simp
  then have "quiet mem_git (demo_loop True) (snd (run_step mem_git demo_loop_env None (demo_step CHR ''a'' []) idles (demo_loop True)))"
    using step_atomic [OF mem.git_repo_axioms _ surjective_pairing, where runner = idles and env = demo_loop_env and knot = None
        and spec = "demo_step CHR ''a'' []" and st = "demo_loop True"] runners_keep by (auto split: sum.splits)
  ultimately show ?thesis by blast
qed


definition demo_plan :: "(step_spec \<times> (mem_repo \<Rightarrow> mem_repo run_result)) list" where
  "demo_plan = [(demo_step CHR ''a'' [], writes), (demo_step CHR ''b'' [], idles), (demo_step CHR ''c'' [replicate 16 (CHR ''a'')], writes)]"

lemma demo_plan_keeps: "\<forall>(spec, runner) \<in> set demo_plan. \<forall>r. same_refs mem_git r (rr_repo (runner r))"
  using runners_keep by (simp add: demo_plan_def)

definition demo_report :: "mem_repo sloop \<Rightarrow> string \<times> txn_outcome list \<times> nat \<times> string list" where
  "demo_report st = (rev_head mem_git (repo st), map sr_outcome (records st), length (comp_stack st),
     map snd (fst (dispose mem_git False [] st)))"

lemma demo_reports:
  "demo_report (run_steps mem_git demo_loop_env demo_plan (demo_loop True)) =
    (''root/a/c'', [COMMITTED, ROLLED_BACK, COMMITTED], 2, [''applied'', ''applied''])"
  by code_simp


text \<open>
  A loop built not to advance \<open>HEAD\<close> never moves it: whatever steps run and commit on it,
  and also when it is disposed of without success, the branch that is checked out and its tip are
  what they were, and no compensator is installed.
\<close>

theorem detached_loop_keeps_head:
  assumes "git_repo g" and "\<forall>(spec, runner) \<in> set plan. \<forall>r. same_refs g r (rr_repo (runner r))"
    and "\<not> advance_head st" and "comp_stack st = []"
  shows "same_refs g (repo st) (repo (run_steps g env plan st)) \<and> comp_stack (run_steps g env plan st) = [] \<and>
    same_refs g (repo st) (repo (snd (dispose g success why (run_steps g env plan st))))"
proof -
  have "detached g st (run_steps g env plan st)"
    by (rule git_repo.run_steps_detached [OF assms(1,3)]) (use assms(2) in auto)
  then show ?thesis
    using assms(4) by (simp add: detached_def dispose_def Let_def drain_def reap_processes_def reap_subagents_def)
qed

theorem detached_loop_keeps_head_witness:
  "map sr_outcome (records (run_steps mem_git demo_loop_env demo_plan (demo_loop False))) = [COMMITTED, ROLLED_BACK, COMMITTED] \<and>
   rev_head mem_git (repo (run_steps mem_git demo_loop_env demo_plan (demo_loop False))) = ''root''"
proof -
  have "map sr_outcome (records (run_steps mem_git demo_loop_env demo_plan (demo_loop False))) = [COMMITTED, ROLLED_BACK, COMMITTED]"
    by code_simp
  moreover have "same_refs mem_git (repo (demo_loop False)) (repo (run_steps mem_git demo_loop_env demo_plan (demo_loop False)))"
    using detached_loop_keeps_head [OF mem.git_repo_axioms demo_plan_keeps, of "demo_loop False" demo_loop_env] by (simp add: demo_loop_def)
  ultimately show ?thesis by (simp add: same_refs_def) (simp add: demo_loop_def mem_git_def mr_tip_def)
qed

end
