(* ===== verification/Handshakes.thy ===== *)
theory Handshakes
  imports Grant
begin

section \<open>Operator handshakes\<close>

text \<open>
  The model of \<open>src/ract/handshake_registry.py\<close>: the registry file of the workspace, this
  machine's marks beside it, approvals signed with the operator key, and which handshakes hold a
  commit back. The registry file and a signed mark are the JSON values they hold (\<open>json.loads\<close> gives
  back what \<open>json.dumps\<close> wrote; \<open>None\<close> stands for a file that is absent, refused or no JSON).
  Reading and writing a time stamp are parameters; a \<open>StateDirRefused\<close> is the flag \<open>hs_linked\<close>,
  and other errors of the file system are left out, as are the trace events.
\<close>

subsection \<open>Items\<close>

record handshake =
  hid :: string
  hdescription :: string
  hacceptance :: string
  htimestamp :: string
  hstatus :: string
  hmetadata :: pyval
  hdepends :: "string list"

definition statuses :: "string list" where
  "statuses = [''pending'', ''approved'', ''rejected'', ''deferred'']"

definition text_fields :: "string list" where
  "text_fields = [''id'', ''description'', ''acceptance'', ''timestamp'', ''status'']"

definition known_fields :: "string list" where
  "known_fields = text_fields @ [''metadata'', ''depends_on'']"

fun is_text :: "pyval \<Rightarrow> bool" where
  "is_text (PStr _) = True"
| "is_text _ = False"

fun is_texts :: "pyval \<Rightarrow> bool" where
  "is_texts (PList vs) = list_all is_text vs"
| "is_texts _ = False"

fun is_mapping :: "pyval \<Rightarrow> bool" where
  "is_mapping (PDict _) = True"
| "is_mapping _ = False"

fun item_ok :: "pyval \<Rightarrow> bool" where
  "item_ok (PDict raw) \<longleftrightarrow>
    list_all (\<lambda>(k, _). case k of KStr s \<Rightarrow> s \<in> set known_fields | KOther \<Rightarrow> False) raw \<and>
    list_all (\<lambda>name. is_text (get_value raw name)) text_fields \<and>
    get_value raw ''status'' \<in> set (map PStr statuses) \<and>
    (get_value raw ''metadata'' = PNone \<or> is_mapping (get_value raw ''metadata'')) \<and>
    is_texts (get_default raw ''depends_on'' (PList []))"
| "item_ok _ \<longleftrightarrow> False"

fun text_of :: "pyval \<Rightarrow> string" where
  "text_of (PStr s) = s"
| "text_of _ = []"

fun texts_of :: "pyval \<Rightarrow> string list" where
  "texts_of (PList vs) = map text_of vs"
| "texts_of _ = []"

fun item_of :: "pyval \<Rightarrow> handshake" where
  "item_of (PDict raw) =
    \<lparr>hid = text_of (get_value raw ''id''), hdescription = text_of (get_value raw ''description''),
     hacceptance = text_of (get_value raw ''acceptance''), htimestamp = text_of (get_value raw ''timestamp''),
     hstatus = text_of (get_value raw ''status''), hmetadata = get_value raw ''metadata'',
     hdepends = texts_of (get_default raw ''depends_on'' (PList []))\<rparr>"
| "item_of _ = \<lparr>hid = [], hdescription = [], hacceptance = [], htimestamp = [], hstatus = [], hmetadata = PNone, hdepends = []\<rparr>"

definition item_raw :: "handshake \<Rightarrow> pyval" where
  "item_raw it = PDict (
    [(KStr ''id'', PStr (hid it)), (KStr ''description'', PStr (hdescription it)),
     (KStr ''acceptance'', PStr (hacceptance it)), (KStr ''timestamp'', PStr (htimestamp it)),
     (KStr ''status'', PStr (hstatus it))] @
    (if hmetadata it = PNone then [] else [(KStr ''metadata'', hmetadata it)]) @
    (if hdepends it = [] then [] else [(KStr ''depends_on'', PList (map PStr (hdepends it)))]))"

subsection \<open>The registry file and the marks\<close>

record hs_env =
  he_grant :: grant_env
  he_host :: host
  he_read_stamp :: "string \<Rightarrow> int option"
  he_write_stamp :: "int \<Rightarrow> string"
  he_isoformat :: "int \<Rightarrow> string"

record hs_state =
  hs_file :: "pyval option"
  hs_linked :: bool
  hs_marks :: "(string \<times> string, string) dict"
  hs_signed :: "(string, pyval) dict"
  hs_config :: disk_file

datatype hs_error =
    StateDirRefused
  | InvalidStatus string
  | HandshakeNotFound string
  | NotAManifest
  | KeyError grant_error
  | MessageError jcs_error

definition approval_digest :: "hs_env \<Rightarrow> handshake \<Rightarrow> string" where
  "approval_digest env it =
    digest_of (he_grant env) (dumps_strings [hid it, hdescription it, hacceptance it, htimestamp it])"

definition mark_name :: "hs_env \<Rightarrow> string \<Rightarrow> string" where
  "mark_name env i = take 32 (digest_of (he_grant env) i)"

definition read_mark :: "hs_env \<Rightarrow> hs_state \<Rightarrow> string \<Rightarrow> string \<Rightarrow> string option" where
  "read_mark env st i kind =
    (case map_of (hs_marks st) (mark_name env i, kind) of
       None \<Rightarrow> None
     | Some b \<Rightarrow> if isascii (take 128 b) then Some (py_strip (take 128 b)) else None)"

definition write_mark :: "hs_env \<Rightarrow> string \<Rightarrow> string \<Rightarrow> string option \<Rightarrow> hs_state \<Rightarrow> hs_state" where
  "write_mark env i kind digest st =
    (case digest of
       None \<Rightarrow> st\<lparr>hs_marks := AList.delete (mark_name env i, kind) (hs_marks st)\<rparr>
     | Some d \<Rightarrow> st\<lparr>hs_marks := AList.update (mark_name env i, kind) d (hs_marks st)\<rparr>)"

definition marked :: "hs_env \<Rightarrow> hs_state \<Rightarrow> handshake \<Rightarrow> string \<Rightarrow> bool" where
  "marked env st it kind \<longleftrightarrow> read_mark env st (hid it) kind = Some (approval_digest env it)"

definition read_signed_mark :: "hs_env \<Rightarrow> hs_state \<Rightarrow> string \<Rightarrow> payload option" where
  "read_signed_mark env st i =
    (case map_of (hs_signed st) (mark_name env i) of Some (PDict d) \<Rightarrow> Some d | _ \<Rightarrow> None)"

definition hs_entries :: "hs_state \<Rightarrow> handshake list" where
  "hs_entries st =
    (case hs_file st of Some (PList raws) \<Rightarrow> map item_of (filter item_ok raws) | _ \<Rightarrow> [])"

definition save :: "handshake list \<Rightarrow> hs_state \<Rightarrow> hs_error + hs_state" where
  "save items st =
    (if hs_linked st then Inl StateDirRefused else Inr (st\<lparr>hs_file := Some (PList (map item_raw items))\<rparr>))"

text \<open>The item this machine requested, else the last one with the id.\<close>

definition current_index :: "hs_env \<Rightarrow> hs_state \<Rightarrow> handshake list \<Rightarrow> string \<Rightarrow> nat option" where
  "current_index env st items i =
    (let found = filter (\<lambda>k. hid (items ! k) = i) [0..<length items] in
     case find (\<lambda>k. marked env st (items ! k) ''requested'') found of
       Some k \<Rightarrow> Some k
     | None \<Rightarrow> if found = [] then None else Some (last found))"

definition current :: "hs_env \<Rightarrow> hs_state \<Rightarrow> string \<Rightarrow> handshake option" where
  "current env st i = map_option (\<lambda>k. hs_entries st ! k) (current_index env st (hs_entries st) i)"

definition pending_items :: "hs_state \<Rightarrow> handshake list" where
  "pending_items st = filter (\<lambda>it. hstatus it = ''pending'') (hs_entries st)"

subsection \<open>Signed approvals\<close>

definition approval_days :: int where
  "approval_days = 30"

definition approval_format :: string where
  "approval_format = ''ract-handshake-approval/1''"

definition approval_domain :: string where
  "approval_domain = approval_format @ [newline]"

definition approval_message :: "hs_env \<Rightarrow> string \<Rightarrow> string \<Rightarrow> string \<Rightarrow> hs_error + string" where
  "approval_message env i digest expires =
    (case dumps_jcs (ent_nfc (g_entry (he_grant env)))
        (PDict [(KStr ''id'', PStr i), (KStr ''digest'', PStr digest), (KStr ''expires'', PStr expires)]) of
       Inl e \<Rightarrow> Inl (MessageError e)
     | Inr t \<Rightarrow> Inr (approval_domain @ t))"

text \<open>The signer is the unlocked key: its id, and the function that signs a message.\<close>

definition sign_approval :: "hs_env \<Rightarrow> int \<Rightarrow> string \<Rightarrow> string \<Rightarrow> string \<times> (string \<Rightarrow> string) \<Rightarrow> hs_error + payload" where
  "sign_approval env now i digest signer =
    (let expires = he_write_stamp env (now + days approval_days) in
     rbind (approval_message env i digest expires) (\<lambda>m.
       Inr [(KStr ''format'', PStr approval_format), (KStr ''id'', PStr i), (KStr ''digest'', PStr digest),
         (KStr ''expires'', PStr expires), (KStr ''key_id'', PStr (fst signer)),
         (KStr ''signature'', PStr (b64encode (snd signer m)))]))"

definition signature_holds :: "hs_env \<Rightarrow> int \<Rightarrow> string \<Rightarrow> payload \<Rightarrow> string \<Rightarrow> public_key \<Rightarrow> hs_error + bool" where
  "signature_holds env now i d digest key =
    (case (map_of d (KStr ''expires''), map_of d (KStr ''signature'')) of
       (Some e, Some s) \<Rightarrow>
         (case (he_read_stamp env (py_str (he_host env) e), b64decode (py_str (he_host env) s)) of
            (Some expires, Some signature) \<Rightarrow>
              if expires \<le> now then Inr False
              else rbind (approval_message env i digest (py_str (he_host env) e)) (\<lambda>m.
                Inr (g_verify (he_grant env) (pk_bytes key) signature m))
          | _ \<Rightarrow> Inr False)
     | _ \<Rightarrow> Inr False)"

definition signed_approval_holds ::
    "hs_env \<Rightarrow> int \<Rightarrow> disk_file \<Rightarrow> string \<Rightarrow> payload option \<Rightarrow> string \<Rightarrow> hs_error + bool" where
  "signed_approval_holds env now config i record digest =
    (case record of
       None \<Rightarrow> Inr False
     | Some d \<Rightarrow>
         if d = [] \<or> get_value d ''format'' \<noteq> PStr approval_format then Inr False
         else if get_value d ''id'' \<noteq> PStr i \<or> get_value d ''digest'' \<noteq> PStr digest then Inr False
         else
           (case pinned (he_grant env) config of
              Inl e \<Rightarrow> Inl (KeyError e)
            | Inr None \<Rightarrow> Inr False
            | Inr (Some key) \<Rightarrow>
                if get_value d ''key_id'' \<noteq> PStr (pk_id key) then Inr False
                else signature_holds env now i d digest key))"

definition approved_here :: "hs_env \<Rightarrow> int \<Rightarrow> hs_state \<Rightarrow> handshake \<Rightarrow> hs_error + bool" where
  "approved_here env now st it =
    signed_approval_holds env now (hs_config st) (hid it) (read_signed_mark env st (hid it)) (approval_digest env it)"

definition approval_state :: "hs_env \<Rightarrow> int \<Rightarrow> hs_state \<Rightarrow> handshake \<Rightarrow> hs_error + string" where
  "approval_state env now st it =
    rbind (approved_here env now st it) (\<lambda>signed.
      Inr (if signed then ''signed''
           else if marked env st it ''approved'' \<or> (case read_signed_mark env st (hid it) of None \<Rightarrow> False | Some d \<Rightarrow> d \<noteq> [])
           then ''unsigned'' else ''none''))"

definition is_approved :: "hs_env \<Rightarrow> int \<Rightarrow> hs_state \<Rightarrow> string \<Rightarrow> hs_error + bool" where
  "is_approved env now st i =
    (case current env st i of
       None \<Rightarrow> Inr False
     | Some it \<Rightarrow> if hstatus it \<noteq> ''approved'' then Inr False else approved_here env now st it)"

definition unsigned_reason :: "hs_env \<Rightarrow> int \<Rightarrow> hs_state \<Rightarrow> string \<Rightarrow> hs_error + string option" where
  "unsigned_reason env now st i =
    (case current env st i of
       None \<Rightarrow> Inr None
     | Some it \<Rightarrow>
         if hstatus it \<noteq> ''approved'' then Inr None
         else rbind (approved_here env now st it) (\<lambda>signed.
           if signed then Inr None
           else case pinned (he_grant env) (hs_config st) of
             Inl e \<Rightarrow> Inl (KeyError e)
           | Inr None \<Rightarrow> Inr (Some (i @ '' was approved without the operator's signature; `ract policy init --guided` creates the key, then approve again''))
           | Inr (Some _) \<Rightarrow> Inr (Some (i @ '' was approved without a signature that holds now (another key, expired, or the item changed); approve it again: `ract handshakes approve '' @ i @ ''`''))))"

subsection \<open>What holds a commit back\<close>

fun blocked_among :: "hs_env \<Rightarrow> int \<Rightarrow> hs_state \<Rightarrow> handshake list \<Rightarrow> string list \<Rightarrow> hs_error + string list" where
  "blocked_among env now st items [] = Inr []"
| "blocked_among env now st items (i # ids) =
    (case current_index env st items i of
       None \<Rightarrow> blocked_among env now st items ids
     | Some k \<Rightarrow>
         let it = items ! k in
         if hstatus it = ''pending'' then map_sum id ((#) i) (blocked_among env now st items ids)
         else if hstatus it \<noteq> ''approved'' then blocked_among env now st items ids
         else rbind (approved_here env now st it) (\<lambda>signed.
           if signed then blocked_among env now st items ids
           else map_sum id ((#) i) (blocked_among env now st items ids)))"

definition blocks_commit :: "hs_env \<Rightarrow> int \<Rightarrow> hs_state \<Rightarrow> string list \<Rightarrow> hs_error + string list" where
  "blocks_commit env now st ids = blocked_among env now st (hs_entries st) ids"

text \<open>The part of a capability manifest that an approval widens.\<close>

record manifest =
  mf_read :: "string list"
  mf_write :: "string list"
  mf_hosts :: "string list"
  extra_read :: "string list"
  extra_write :: "string list"
  extra_hosts :: "string list"

definition widen_manifest_for :: "hs_env \<Rightarrow> int \<Rightarrow> hs_state \<Rightarrow> manifest option \<Rightarrow> string \<Rightarrow> hs_error + manifest" where
  "widen_manifest_for env now st m i =
    (case m of
       None \<Rightarrow> Inl NotAManifest
     | Some mf \<Rightarrow>
         rbind (is_approved env now st i) (\<lambda>approved.
           Inr (if \<not> approved then mf
                else mf\<lparr>mf_read := mf_read mf @ extra_read mf, mf_write := mf_write mf @ extra_write mf,
                  mf_hosts := mf_hosts mf @ extra_hosts mf\<rparr>)))"

subsection \<open>Requests and decisions\<close>

definition hs_add ::
    "hs_env \<Rightarrow> int \<Rightarrow> string \<Rightarrow> string \<Rightarrow> string \<Rightarrow> payload option \<Rightarrow> string list \<Rightarrow> hs_state \<Rightarrow> (hs_error + handshake) \<times> hs_state" where
  "hs_add env now i description acceptance meta deps st =
    (let it = \<lparr>hid = i, hdescription = description, hacceptance = acceptance, htimestamp = he_isoformat env now,
           hstatus = ''pending'', hmetadata = (case meta of None \<Rightarrow> PNone | Some d \<Rightarrow> PDict d), hdepends = deps\<rparr>
     in case save (hs_entries st @ [it]) st of
          Inl e \<Rightarrow> (Inl e, st)
        | Inr st1 \<Rightarrow> (Inr it, write_mark env i ''requested'' (Some (approval_digest env it)) st1))"

text \<open>An error of the signer leaves the registry saved and the plain mark written.\<close>

definition record_approval_mark ::
    "hs_env \<Rightarrow> int \<Rightarrow> handshake \<Rightarrow> (string \<times> (string \<Rightarrow> string)) option \<Rightarrow> hs_state \<Rightarrow> (hs_error + unit) \<times> hs_state" where
  "record_approval_mark env now it signer st =
    (let digest = (if hstatus it = ''approved'' then Some (approval_digest env it) else None);
         st1 = write_mark env (hid it) ''approved'' digest st;
         name = mark_name env (hid it)
     in case (digest, signer) of
          (Some d, Some s) \<Rightarrow>
            (case sign_approval env now (hid it) d s of
               Inl e \<Rightarrow> (Inl e, st1)
             | Inr rec \<Rightarrow> (Inr (), st1\<lparr>hs_signed := AList.update name (PDict rec) (hs_signed st1)\<rparr>))
        | _ \<Rightarrow> (Inr (), st1\<lparr>hs_signed := AList.delete name (hs_signed st1)\<rparr>))"

definition update_status ::
    "hs_env \<Rightarrow> int \<Rightarrow> string \<Rightarrow> string \<Rightarrow> (string \<times> (string \<Rightarrow> string)) option \<Rightarrow> hs_state \<Rightarrow> (hs_error + handshake) \<times> hs_state" where
  "update_status env now i status signer st =
    (if status \<notin> {''approved'', ''rejected'', ''deferred''} then (Inl (InvalidStatus status), st)
     else case current_index env st (hs_entries st) i of
       None \<Rightarrow> (Inl (HandshakeNotFound i), st)
     | Some k \<Rightarrow>
         let it = (hs_entries st ! k)\<lparr>hstatus := status\<rparr> in
         (case save ((hs_entries st)[k := it]) st of
            Inl e \<Rightarrow> (Inl e, st)
          | Inr st1 \<Rightarrow>
              (case record_approval_mark env now it signer st1 of
                 (Inl e, st2) \<Rightarrow> (Inl e, st2)
               | (Inr _, st2) \<Rightarrow> (Inr it, st2))))"

subsection \<open>What is saved is read back\<close>

definition wf_item :: "handshake \<Rightarrow> bool" where
  "wf_item it \<longleftrightarrow> hstatus it \<in> set statuses \<and> (hmetadata it = PNone \<or> is_mapping (hmetadata it))"

lemma get_value_simps [simp]:
  "get_default [] k v = v"
  "get_default ((KStr k', w) # p) k v = (if k' = k then w else get_default p k v)"
  "get_value [] k = PNone"
  "get_value ((KStr k', w) # p) k = (if k' = k then w else get_value p k)"
  by (simp_all add: get_default_def get_value_def)

lemma texts_simps [simp]: "list_all is_text (map PStr ds)" "map (text_of \<circ> PStr) ds = ds"
  by (simp_all add: list_all_iff comp_def)

lemma item_roundtrip: "wf_item it \<Longrightarrow> item_ok (item_raw it) \<and> item_of (item_raw it) = it"
  by (cases it) (auto simp: wf_item_def item_raw_def known_fields_def text_fields_def statuses_def)

lemma item_of_wf: "item_ok raw \<Longrightarrow> wf_item (item_of raw)"
  by (cases raw) (auto simp: wf_item_def statuses_def text_fields_def)

lemma hs_entries_wf: "it \<in> set (hs_entries st) \<Longrightarrow> wf_item it"
  by (auto simp: hs_entries_def item_of_wf split: option.splits pyval.splits)

lemma hs_entries_save:
  assumes "save items st = Inr st'" and "\<And>it. it \<in> set items \<Longrightarrow> wf_item it"
  shows "hs_entries st' = items"
proof -
  have f: "st' = st\<lparr>hs_file := Some (PList (map item_raw items))\<rparr>" using assms(1) by (simp add: save_def split: if_splits)
  have "filter item_ok (map item_raw items) = map item_raw items"
    using assms(2) by (simp add: item_roundtrip filter_id_conv)
  then show ?thesis using assms(2) by (simp add: f hs_entries_def map_idI item_roundtrip comp_def)
qed

lemma hs_entries_marks [simp]: "hs_entries (st\<lparr>hs_marks := m\<rparr>) = hs_entries st" "hs_entries (st\<lparr>hs_signed := g\<rparr>) = hs_entries st"
  "hs_entries (write_mark env i kind d st) = hs_entries st"
  by (simp_all add: hs_entries_def write_mark_def split: option.splits)

subsection \<open>Marks\<close>

lemma white_codes: "\<forall>w \<in> set white. code (hd w) \<notin> {48..57} \<union> {97..102} \<and> code (last w) \<notin> {48..57} \<union> {97..102}"
  by code_simp

lemma not_white_hex: "w \<in> set white \<Longrightarrow> hd w \<notin> set (hex s) \<and> last w \<notin> set (hex s)"
  using white_codes set_hex [of _ s] by fastforce

lemma strip_hex: "py_strip (hex s) = hex s"
proof -
  have e: "\<not> endswith (hex s) w" if "w \<in> set white" for w
    using not_white_hex [OF that, of s] endswith_last [of "hex s" w] white_nonempty [OF that] last_in_set by metis
  have "\<not> startswith (hex s) w" if "w \<in> set white" for w
    using not_white_hex [OF that, of s] startswith_hd [of "hex s" w] white_nonempty [OF that] list.set_sel(1) by metis
  with e have "find (endswith (hex s)) white = None" "find (startswith (hex s)) white = None" by (simp_all add: find_None_iff)
  then show ?thesis
    unfolding py_strip_def by (subst strip_right.simps, simp) (subst strip_left.simps, simp)
qed

lemma length_hex: "length (hex s) = 2 * length s"
  by (induction s) simp_all

text \<open>SHA-256 gives 32 bytes.\<close>

definition sha_sized :: "hs_env \<Rightarrow> bool" where
  "sha_sized env \<longleftrightarrow> (\<forall>b. length (ent_sha (g_entry (he_grant env)) b) = 32)"

lemma read_written_mark:
  assumes "sha_sized env"
  shows "read_mark env (write_mark env i kind (Some (approval_digest env it)) st) i kind = Some (approval_digest env it)"
proof -
  have "take 128 (approval_digest env it) = approval_digest env it"
    using assms by (simp add: sha_sized_def approval_digest_def digest_of_def hexdigest_def length_hex)
  moreover have "isascii (approval_digest env it)" "py_strip (approval_digest env it) = approval_digest env it"
    by (simp_all add: approval_digest_def digest_of_def hexdigest_def isascii_hex strip_hex)
  ultimately show ?thesis by (simp add: read_mark_def write_mark_def update_Some_unfold map_of_update)
qed

subsection \<open>The item that stands for an id\<close>

lemma current_index_Some:
  assumes "current_index env st items i = Some k"
  shows "k < length items \<and> hid (items ! k) = i"
proof -
  let ?found = "filter (\<lambda>k. hid (items ! k) = i) [0..<length items]"
  have "k \<in> set ?found"
    using assms last_in_set [of ?found] by (auto simp: current_index_def Let_def split: option.splits if_splits dest: find_SomeD)
  then show ?thesis by simp
qed

text \<open>Neither the status of an item nor a mark of another kind changes which one stands for the id.\<close>

lemma current_index_cong:
  assumes "length items' = length items"
    and "\<And>k. k < length items \<Longrightarrow> hid (items' ! k) = hid (items ! k) \<and> approval_digest env (items' ! k) = approval_digest env (items ! k)"
    and "\<And>j. read_mark env st' j ''requested'' = read_mark env st j ''requested''"
  shows "current_index env st' items' i = current_index env st items i"
proof -
  have f: "filter (\<lambda>k. hid (items' ! k) = i) [0..<length items'] = filter (\<lambda>k. hid (items ! k) = i) [0..<length items]"
    using assms(1,2) by (intro filter_cong) auto
  have "find (\<lambda>k. marked env st' (items' ! k) ''requested'') (filter (\<lambda>k. hid (items ! k) = i) [0..<length items]) =
    find (\<lambda>k. marked env st (items ! k) ''requested'') (filter (\<lambda>k. hid (items ! k) = i) [0..<length items])"
    using assms(2,3) by (intro find_cong) (auto simp: marked_def)
  with f show ?thesis by (simp add: current_index_def Let_def)
qed

lemma read_other_mark [simp]: "kind' \<noteq> kind \<Longrightarrow> read_mark env (write_mark env i kind d st) j kind' = read_mark env st j kind'"
  by (cases d) (simp_all add: read_mark_def write_mark_def update_conv' delete_conv')

lemma write_mark_frame [simp]: "hs_config (write_mark env i kind d st) = hs_config st" "hs_signed (write_mark env i kind d st) = hs_signed st"
  by (simp_all add: write_mark_def split: option.splits)

lemma read_mark_frame [simp]: "read_mark env (st\<lparr>hs_signed := g\<rparr>) j kind = read_mark env st j kind"
  "read_mark env (st\<lparr>hs_file := f\<rparr>) j kind = read_mark env st j kind"
  by (simp_all add: read_mark_def)

lemma approval_digest_status [simp]: "approval_digest env (it\<lparr>hstatus := s\<rparr>) = approval_digest env it"
  by (simp add: approval_digest_def)

lemma current_after_add:
  assumes "sha_sized env" and "hs_add env now i description acceptance meta deps st = (Inr it, st')"
  shows "\<exists>c. current env st' i = Some c \<and> hid c = i \<and> approval_digest env c = approval_digest env it"
proof -
  have it: "hid it = i" "wf_item it" and st': "\<exists>st1. save (hs_entries st @ [it]) st = Inr st1 \<and>
      st' = write_mark env i ''requested'' (Some (approval_digest env it)) st1"
    using assms(2) by (auto simp: hs_add_def Let_def wf_item_def statuses_def split: sum.splits option.splits)
  then obtain st1 where st1: "save (hs_entries st @ [it]) st = Inr st1" "st' = write_mark env i ''requested'' (Some (approval_digest env it)) st1"
    by blast
  let ?items = "hs_entries st @ [it]"
  have items: "hs_entries st' = ?items"
    using hs_entries_save [OF st1(1)] hs_entries_wf it(2) st1(2) by auto
  let ?found = "filter (\<lambda>k. hid (?items ! k) = i) [0..<length ?items]"
  have here: "marked env st' it ''requested''"
    using read_written_mark [OF assms(1)] it(1) st1(2) by (simp add: marked_def)
  have "length (hs_entries st) \<in> set ?found" using it(1) by simp
  with here have "find (\<lambda>k. marked env st' (?items ! k) ''requested'') ?found \<noteq> None"
    unfolding find_None_iff by (metis nth_append_length)
  then obtain k where k: "find (\<lambda>k. marked env st' (?items ! k) ''requested'') ?found = Some k" by blast
  then have "k \<in> set ?found" "marked env st' (?items ! k) ''requested''" by (auto dest: find_SomeD)
  then have c: "hid (?items ! k) = i" "approval_digest env (?items ! k) = approval_digest env it"
    using here it(1) by (auto simp: marked_def)
  have "current env st' i = Some (?items ! k)"
    using k by (simp add: current_def current_index_def items Let_def)
  with c show ?thesis by blast
qed

subsection \<open>Decisions\<close>

lemma update_status_current:
  assumes "update_status env now i status signer st = (Inr it, st')"
  shows "current env st' i = Some it \<and> hstatus it = status \<and> hid it = i \<and> hs_config st' = hs_config st"
    and "\<exists>st1. record_approval_mark env now it signer st1 = (Inr (), st') \<and> hs_config st1 = hs_config st"
proof -
  obtain k where k: "current_index env st (hs_entries st) i = Some k" and ok: "status \<in> {''approved'', ''rejected'', ''deferred''}"
    using assms by (auto simp: update_status_def split: if_splits option.splits)
  let ?it = "(hs_entries st ! k)\<lparr>hstatus := status\<rparr>"
  have kk: "k < length (hs_entries st)" "hid ?it = i" using current_index_Some [OF k] by simp_all
  obtain st1 where s: "save ((hs_entries st)[k := ?it]) st = Inr st1"
    using assms k ok by (auto simp: update_status_def Let_def split: if_splits option.splits sum.splits)
  obtain u where r: "record_approval_mark env now ?it signer st1 = (Inr u, st')" and it: "it = ?it"
    using assms k ok s by (auto simp: update_status_def Let_def split: if_splits option.splits sum.splits prod.splits)
  have wf: "wf_item x" if "x \<in> set ((hs_entries st)[k := ?it])" for x
  proof (cases "x = ?it")
    case True
    then show ?thesis using hs_entries_wf [OF nth_mem [OF kk(1)]] ok by (auto simp: wf_item_def statuses_def)
  next
    case False
    then have "x \<in> set (hs_entries st)" using that set_update_subset_insert by fast
    then show ?thesis by (rule hs_entries_wf)
  qed
  have e1: "hs_entries st1 = (hs_entries st)[k := ?it]" by (rule hs_entries_save [OF s wf])
  have f1: "st1 = st\<lparr>hs_file := Some (PList (map item_raw ((hs_entries st)[k := ?it])))\<rparr>"
    using s by (simp add: save_def split: if_splits)
  have e': "hs_entries st' = hs_entries st1" "\<And>j. read_mark env st' j ''requested'' = read_mark env st1 j ''requested''" "hs_config st' = hs_config st1"
    using r by (auto simp: record_approval_mark_def Let_def split: option.splits sum.splits prod.splits if_splits)
  show "current env st' i = Some it \<and> hstatus it = status \<and> hid it = i \<and> hs_config st' = hs_config st"
  proof -
    have "current_index env st' (hs_entries st') i = current_index env st (hs_entries st) i"
      using e' e1 kk(1) by (intro current_index_cong) (auto simp: f1 nth_list_update)
    then show ?thesis using k kk e' e1 it f1 by (simp add: current_def)
  qed
  show "\<exists>st1. record_approval_mark env now it signer st1 = (Inr (), st') \<and> hs_config st1 = hs_config st"
    using r it f1 by auto
qed

text \<open>What an approval that unlocks has behind it.\<close>

definition operator_signed :: "hs_env \<Rightarrow> int \<Rightarrow> hs_state \<Rightarrow> handshake \<Rightarrow> bool" where
  "operator_signed env now st it \<longleftrightarrow>
    (\<exists>key s e x m. pinned (he_grant env) (hs_config st) = Inr (Some key) \<and> he_read_stamp env e = Some x \<and> now < x \<and>
      approval_message env (hid it) (approval_digest env it) e = Inr m \<and> g_verify (he_grant env) (pk_bytes key) s m)"

lemma holds_signed:
  assumes "signed_approval_holds env now config i record digest = Inr True"
  shows "\<exists>d key s e x m. record = Some d \<and> get_value d ''id'' = PStr i \<and> get_value d ''digest'' = PStr digest \<and>
    pinned (he_grant env) config = Inr (Some key) \<and> he_read_stamp env e = Some x \<and> now < x \<and>
    approval_message env i digest e = Inr m \<and> g_verify (he_grant env) (pk_bytes key) s m"
proof -
  obtain d key where d: "record = Some d" "get_value d ''id'' = PStr i" "get_value d ''digest'' = PStr digest"
    "pinned (he_grant env) config = Inr (Some key)" and h: "signature_holds env now i d digest key = Inr True"
    using assms by (auto simp: signed_approval_holds_def split: option.splits if_splits sum.splits)
  from h obtain e s x sig m where "he_read_stamp env (py_str (he_host env) e) = Some x" "now < x"
    "approval_message env i digest (py_str (he_host env) e) = Inr m" "g_verify (he_grant env) (pk_bytes key) sig m"
    by (auto simp: signature_holds_def rbind_def split: option.splits if_splits sum.splits)
  with d show ?thesis by blast
qed

lemma approved_here_signed: "approved_here env now st it = Inr True \<Longrightarrow> operator_signed env now st it"
  unfolding approved_here_def operator_signed_def by (drule holds_signed) blast

lemma signed_record_holds:
  assumes "sign_approval env now i digest (pk_id key, sk) = Inr rec" and "pinned (he_grant env) config = Inr (Some key)"
    and "\<And>m. g_verify (he_grant env) (pk_bytes key) (sk m) m"
    and "he_read_stamp env (he_write_stamp env (now + days approval_days)) = Some x" and "now' < x"
  shows "signed_approval_holds env now' config i (Some rec) digest = Inr True"
proof -
  let ?e = "he_write_stamp env (now + days approval_days)"
  obtain m where m: "approval_message env i digest ?e = Inr m"
    using assms(1) by (auto simp: sign_approval_def Let_def rbind_def split: sum.splits)
  then have rec: "rec = [(KStr ''format'', PStr approval_format), (KStr ''id'', PStr i), (KStr ''digest'', PStr digest),
      (KStr ''expires'', PStr ?e), (KStr ''key_id'', PStr (pk_id key)), (KStr ''signature'', PStr (b64encode (sk m)))]"
    using assms(1) by (simp add: sign_approval_def Let_def rbind_def)
  then have "signature_holds env now' i rec digest key = Inr True"
    using assms(3-5) m by (simp add: signature_holds_def rbind_def b64decode_encode)
  then show ?thesis using assms(2) rec by (simp add: signed_approval_holds_def)
qed

lemma approval_unlocks:
  assumes "pinned (he_grant env) (hs_config st) = Inr (Some key)" and "\<forall>m. g_verify (he_grant env) (pk_bytes key) (sk m) m"
    and "he_read_stamp env (he_write_stamp env (now + days approval_days)) = Some x" and "now' < x"
    and "update_status env now i ''approved'' (Some (pk_id key, sk)) st = (Inr it, st')"
  shows "is_approved env now' st' i = Inr True \<and> blocks_commit env now' st' [i] = Inr [] \<and> unsigned_reason env now' st' i = Inr None"
proof -
  note cur = update_status_current(1) [OF assms(5)]
  obtain st1 where r: "record_approval_mark env now it (Some (pk_id key, sk)) st1 = (Inr (), st')"
    using update_status_current(2) [OF assms(5)] by blast
  have st: "hstatus it = ''approved''" "hid it = i" using cur by simp_all
  obtain rec where rec: "sign_approval env now i (approval_digest env it) (pk_id key, sk) = Inr rec"
    and sig: "map_of (hs_signed st') (mark_name env i) = Some (PDict rec)"
    using r st by (auto simp: record_approval_mark_def Let_def update_conv' split: sum.splits)
  have "approved_here env now' st' it = Inr True"
    using signed_record_holds [OF rec assms(1) spec [OF assms(2)] assms(3,4)] cur sig
    by (simp add: approved_here_def read_signed_mark_def)
  with cur st show ?thesis
    by (auto simp: is_approved_def unsigned_reason_def blocks_commit_def current_def rbind_def)
qed

text \<open>
  A handshake that is turned down holds nothing back: once the operator has rejected or
  deferred it, the step that names it is free to commit.
\<close>

theorem rejection_unblocks:
  assumes "update_status env now i status signer st = (Inr it, st')" and "status \<in> {''rejected'', ''deferred''}"
  shows "blocks_commit env now' st' [i] = Inr []"
  using update_status_current(1) [OF assms(1)] assms(2) by (auto simp: blocks_commit_def current_def)

lemma lost_registry_unblocks: "hs_file st = None \<Longrightarrow> blocks_commit env now st ids = Inr []"
  by (induction ids) (simp_all add: blocks_commit_def hs_entries_def current_index_def)

subsection \<open>Runs\<close>

text \<open>
  Requests and decisions on this machine, with the workspace's file changed by anybody in between;
  the log holds what was approved with a signer, as the id and the digest of the item's text.
\<close>

inductive hs_run :: "hs_env \<Rightarrow> hs_state \<Rightarrow> (string \<times> string) list \<Rightarrow> bool" for env where
  start: "hs_signed st = [] \<Longrightarrow> hs_run env st []"
| request: "hs_run env st log \<Longrightarrow> hs_add env now i description acceptance meta deps st = (res, st') \<Longrightarrow> hs_run env st' log"
| decide: "hs_run env st log \<Longrightarrow> update_status env now i status signer st = (res, st') \<Longrightarrow>
    log' = (case current env st i of
       Some it \<Rightarrow> if status = ''approved'' \<and> signer \<noteq> None then (i, approval_digest env it) # log else log
     | None \<Rightarrow> log) \<Longrightarrow> hs_run env st' log'"
| tamper: "hs_run env st log \<Longrightarrow> hs_run env (st\<lparr>hs_file := f\<rparr>) log"
| rekey: "hs_run env st log \<Longrightarrow> hs_run env (st\<lparr>hs_config := c\<rparr>) log"

definition records_logged :: "hs_state \<Rightarrow> (string \<times> string) list \<Rightarrow> bool" where
  "records_logged st log \<longleftrightarrow> (\<forall>n v. map_of (hs_signed st) n = Some v \<longrightarrow>
    (\<exists>d i g. v = PDict d \<and> get_value d ''id'' = PStr i \<and> get_value d ''digest'' = PStr g \<and> (i, g) \<in> set log))"

lemma records_logged_mono: "records_logged st log \<Longrightarrow> hs_signed st' = hs_signed st \<Longrightarrow> set log \<subseteq> set log' \<Longrightarrow> records_logged st' log'"
  by (fastforce simp: records_logged_def)

lemma sign_approval_fields:
  "sign_approval env now i g signer = Inr d \<Longrightarrow> get_value d ''id'' = PStr i \<and> get_value d ''digest'' = PStr g"
  by (auto simp: sign_approval_def Let_def rbind_def split: sum.splits)

lemma record_mark_logged:
  assumes "record_approval_mark env now it signer st = (res, st')" and "records_logged st log"
    and "set log' = (if hstatus it = ''approved'' \<and> signer \<noteq> None then insert (hid it, approval_digest env it) (set log) else set log)"
  shows "records_logged st' log'"
proof -
  let ?st1 = "\<lambda>d. write_mark env (hid it) ''approved'' d st"
  have drop: "records_logged (?st1 d\<lparr>hs_signed := AList.delete n (hs_signed st)\<rparr>) log'" for d n
    using assms(2,3) by (fastforce simp: records_logged_def delete_conv')
  have keep: "records_logged (?st1 d) log'" for d
    by (rule records_logged_mono [OF assms(2)]) (use assms(3) in auto)
  show ?thesis
  proof (cases "hstatus it = ''approved'' \<and> signer \<noteq> None")
    case True
    then obtain sg where sg: "signer = Some sg" by blast
    show ?thesis
    proof (cases "sign_approval env now (hid it) (approval_digest env it) sg")
      case (Inl e)
      then show ?thesis using assms(1) True sg keep by (auto simp: record_approval_mark_def Let_def)
    next
      case (Inr d)
      have "map_of (hs_signed st') n = Some v \<Longrightarrow> v = PDict d \<or> map_of (hs_signed st) n = Some v" for n v
        using assms(1) True sg Inr by (auto simp: record_approval_mark_def Let_def update_conv' split: if_splits)
      with assms(2,3) True sign_approval_fields [OF Inr] show ?thesis by (fastforce simp: records_logged_def)
    qed
  next
    case False
    then show ?thesis using assms(1) drop by (auto simp: record_approval_mark_def Let_def split: option.splits if_splits)
  qed
qed

lemma update_status_cases:
  assumes "update_status env now i status signer st = (res, st')"
  shows "hs_signed st' = hs_signed st \<or>
    (\<exists>it st1 r. current env st i = Some it \<and> hid it = i \<and> hs_signed st1 = hs_signed st \<and>
      record_approval_mark env now (it\<lparr>hstatus := status\<rparr>) signer st1 = (r, st'))"
proof (cases "current_index env st (hs_entries st) i")
  case None
  with assms show ?thesis by (auto simp: update_status_def split: if_splits)
next
  case (Some k)
  have saved: "save items st = Inr st1 \<Longrightarrow> hs_signed st1 = hs_signed st" for items st1
    by (auto simp: save_def split: if_splits)
  from Some current_index_Some [OF Some] have cur: "current env st i = Some (hs_entries st ! k)" "hid (hs_entries st ! k) = i"
    by (simp_all add: current_def)
  from assms Some cur saved show ?thesis
    by (auto simp: update_status_def Let_def split: if_splits sum.splits prod.splits)
qed

lemma hs_run_logged: "hs_run env st log \<Longrightarrow> records_logged st log"
proof (induction rule: hs_run.induct)
  case (request st log now i description acceptance meta deps res st')
  then have "hs_signed st' = hs_signed st"
    by (auto simp: hs_add_def save_def Let_def split: if_splits)
  with request show ?case using records_logged_mono by blast
next
  case (decide st log now i status signer res st' log')
  have mono: "set log \<subseteq> set log'" using decide.hyps(3) by (auto split: option.splits)
  from update_status_cases [OF decide.hyps(2)] show ?case
  proof
    assume "hs_signed st' = hs_signed st"
    with decide.IH mono show ?thesis using records_logged_mono by blast
  next
    assume "\<exists>it st1 r. current env st i = Some it \<and> hid it = i \<and> hs_signed st1 = hs_signed st \<and>
      record_approval_mark env now (it\<lparr>hstatus := status\<rparr>) signer st1 = (r, st')"
    then obtain it st1 r where it: "current env st i = Some it" "hid it = i" "hs_signed st1 = hs_signed st"
      "record_approval_mark env now (it\<lparr>hstatus := status\<rparr>) signer st1 = (r, st')" by blast
    have "records_logged st1 log" using records_logged_mono [OF decide.IH it(3)] by simp
    moreover have "set log' = (if hstatus (it\<lparr>hstatus := status\<rparr>) = ''approved'' \<and> signer \<noteq> None
        then insert (hid (it\<lparr>hstatus := status\<rparr>), approval_digest env (it\<lparr>hstatus := status\<rparr>)) (set log) else set log)"
      using it(1,2) decide.hyps(3) by auto
    ultimately show ?thesis by (rule record_mark_logged [OF it(4)])
  qed
next
  case (tamper st log f)
  then show ?case by (auto intro: records_logged_mono)
next
  case (rekey st log c)
  then show ?case by (auto intro: records_logged_mono)
qed (simp add: records_logged_def)


lemma blocked_among_free:
  assumes "blocked_among env now st items ids = Inr bs" and "i \<in> set ids" and "i \<notin> set bs" and "current_index env st items i = Some k"
  shows "hstatus (items ! k) \<noteq> ''pending'' \<and> (hstatus (items ! k) = ''approved'' \<longrightarrow> approved_here env now st (items ! k) = Inr True)"
  using assms
proof (induction ids arbitrary: bs)
  case (Cons j ids)
  let ?rest = "blocked_among env now st items ids"
  have rest: "\<exists>bs'. ?rest = Inr bs' \<and> set bs' \<subseteq> set bs"
    using Cons.prems(1) by (cases ?rest)
      (auto simp: Let_def rbind_def split: option.splits if_splits sum.splits)
  show ?case
  proof (cases "i = j")
    case False
    with rest Cons show ?thesis by auto
  next
    case True
    obtain bs' where "?rest = Inr bs'" using rest by blast
    with True Cons.prems show ?thesis
      by (auto simp: Let_def rbind_def split: if_splits sum.splits)
  qed
qed simp

text \<open>A commit that is not held back: every handshake it names is turned down, unknown, or signed for.\<close>

lemma unblocked_signed:
  assumes "blocks_commit env now st ids = Inr []" and "i \<in> set ids" and "current env st i = Some it"
  shows "hstatus it \<in> {''rejected'', ''deferred''} \<or> (hstatus it = ''approved'' \<and> operator_signed env now st it)"
proof -
  obtain k where k: "current_index env st (hs_entries st) i = Some k" "it = hs_entries st ! k"
    using assms(3) by (auto simp: current_def)
  have "wf_item it" using hs_entries_wf [OF nth_mem] current_index_Some [OF k(1)] k(2) by blast
  with blocked_among_free [OF assms(1) [unfolded blocks_commit_def] assms(2) _ k(1)] k(2) approved_here_signed show ?thesis
    by (auto simp: wf_item_def statuses_def)
qed

subsection \<open>Examples\<close>

text \<open>
  A digest of 32 bytes, stamps in decimal, and a signature that is the message. The repository ships
  an item for \<open>deploy\<close> that is approved already.
\<close>

definition demo_hs_env :: hs_env where
  "demo_hs_env = \<lparr>he_grant = (demo_grant_env None)\<lparr>g_entry := demo_entry_env\<lparr>ent_sha := (\<lambda>b. take 32 (b @ replicate 32 (CHR ''k'')))\<rparr>\<rparr>,
     he_host = demo_host, he_read_stamp = (\<lambda>s. if s = ''later'' then Some (days 31) else None), he_write_stamp = (\<lambda>t. ''later''),
     he_isoformat = (\<lambda>t. ''now'')\<rparr>"

definition shipped :: handshake where
  "shipped = \<lparr>hid = ''deploy'', hdescription = ''harmless'', hacceptance = ''ok'', htimestamp = ''then'', hstatus = ''approved'',
     hmetadata = PNone, hdepends = []\<rparr>"

definition demo_hs :: hs_state where
  "demo_hs = \<lparr>hs_file = Some (PList [item_raw shipped]), hs_linked = False, hs_marks = [], hs_signed = [], hs_config = Content ''c''\<rparr>"

definition demo_requested :: hs_state where
  "demo_requested = snd (hs_add demo_hs_env 0 ''deploy'' ''rm -rf'' ''none'' None [] demo_hs)"

definition demo_approved :: hs_state where
  "demo_approved = snd (update_status demo_hs_env 0 ''deploy'' ''approved'' (Some (pk_id demo_key, (\<lambda>m. m))) demo_requested)"

lemma demo_sized: "sha_sized demo_hs_env"
  by (auto simp: sha_sized_def demo_hs_env_def min_def)

lemma demo_hs_pinned: "pinned (he_grant demo_hs_env) (Content ''c'') = Inr (Some demo_key)"
  by code_simp

definition demo_item :: handshake where
  "demo_item = \<lparr>hid = ''deploy'', hdescription = ''rm -rf'', hacceptance = ''none'', htimestamp = ''now'', hstatus = ''pending'',
     hmetadata = PNone, hdepends = []\<rparr>"

lemma demo_add: "hs_add demo_hs_env 0 ''deploy'' ''rm -rf'' ''none'' None [] demo_hs = (Inr demo_item, demo_requested)"
  by (simp add: demo_requested_def hs_add_def Let_def save_def demo_hs_def demo_item_def demo_hs_env_def)

lemma update_status_succeeds:
  assumes "current env st i = Some c" and "\<not> hs_linked st" and "approval_message env i (approval_digest env c) (he_write_stamp env (now + days approval_days)) = Inr m"
  shows "\<exists>it st'. update_status env now i ''approved'' (Some signer) st = (Inr it, st')"
proof -
  obtain k where k: "current_index env st (hs_entries st) i = Some k" "c = hs_entries st ! k"
    using assms(1) by (auto simp: current_def)
  note id = current_index_Some [OF k(1)]
  from assms(2,3) k id show ?thesis
    by (auto simp: update_status_def Let_def save_def record_approval_mark_def sign_approval_def rbind_def)
qed

lemma demo_message: "isl (approval_message demo_hs_env ''deploy'' (approval_digest demo_hs_env demo_item) ''later'') = False"
  by code_simp

lemma demo_update:
  "\<exists>it. update_status demo_hs_env 0 ''deploy'' ''approved'' (Some (pk_id demo_key, (\<lambda>m. m))) demo_requested = (Inr it, demo_approved)"
proof -
  obtain c where c: "current demo_hs_env demo_requested ''deploy'' = Some c" "approval_digest demo_hs_env c = approval_digest demo_hs_env demo_item"
    using current_after_add [OF demo_sized demo_add] by blast
  obtain m where m: "approval_message demo_hs_env ''deploy'' (approval_digest demo_hs_env demo_item) ''later'' = Inr m"
    using demo_message by (auto simp: isl_def split: sum.splits) (metis sum.exhaust)
  have "\<not> hs_linked demo_requested" "he_write_stamp demo_hs_env t = ''later''" for t
    by (simp_all add: demo_requested_def hs_add_def Let_def save_def demo_hs_def write_mark_def demo_hs_env_def)
  with update_status_succeeds [OF c(1)] c(2) m show ?thesis
    by (metis demo_approved_def snd_conv)
qed

lemma demo_config: "hs_config demo_requested = Content ''c''"
  by (simp add: demo_requested_def hs_add_def Let_def save_def demo_hs_def)

lemma demo_verify: "\<forall>m. g_verify (he_grant demo_hs_env) (pk_bytes demo_key) m m"
  by (simp add: demo_hs_env_def demo_grant_env_def)

lemma demo_stamp: "he_read_stamp demo_hs_env (he_write_stamp demo_hs_env (0 + days approval_days)) = Some (days 31)"
  by (simp add: demo_hs_env_def)

lemma demo_is_approved: "is_approved demo_hs_env 0 demo_approved ''deploy'' = Inr True"
    "blocks_commit demo_hs_env 0 demo_approved [''deploy''] = Inr []"
proof -
  obtain it where u: "update_status demo_hs_env 0 ''deploy'' ''approved'' (Some (pk_id demo_key, (\<lambda>m. m))) demo_requested = (Inr it, demo_approved)"
    using demo_update by blast
  have "pinned (he_grant demo_hs_env) (hs_config demo_requested) = Inr (Some demo_key)" by (simp add: demo_config demo_hs_pinned)
  from approval_unlocks [OF this _ demo_stamp _ u] demo_verify
  show "is_approved demo_hs_env 0 demo_approved ''deploy'' = Inr True" "blocks_commit demo_hs_env 0 demo_approved [''deploy''] = Inr []"
    by (simp_all add: days_def)
qed

lemma demo_run: "\<exists>log. hs_run demo_hs_env demo_approved log"
proof -
  have "hs_run demo_hs_env demo_hs []" by (rule hs_run.start) (simp add: demo_hs_def)
  then have "hs_run demo_hs_env demo_requested []" by (rule hs_run.request [OF _ demo_add])
  then show ?thesis using demo_update hs_run.decide [OF _ _ refl] by blast
qed

subsection \<open>What the registry promises\<close>

text \<open>
  The request this machine makes stands for its id. Whatever items a cloned repository ships
  under the same id, ahead of it or behind it and whatever their status, the item that every later
  decision about the id reads is one with the text, the acceptance and the time that were requested
  here (the same digest).
\<close>

theorem request_stands:
  assumes "sha_sized env" and "hs_add env now i description acceptance meta deps st = (Inr it, st')"
  shows "\<exists>c. current env st' i = Some c \<and> hid c = i \<and> approval_digest env c = approval_digest env it"
  using assms by (rule current_after_add)

theorem request_stands_witness:
  "\<exists>c. current demo_hs_env demo_requested ''deploy'' = Some c \<and> hid c = ''deploy'' \<and>
    approval_digest demo_hs_env c = approval_digest demo_hs_env demo_item"
  by (rule request_stands [OF demo_sized demo_add])

text \<open>
  An approval that the operator signs unlocks the step. Behind \<open>update_status\<close> with the
  pinned key, and until the thirty days are over, the handshake counts as approved, it holds no
  commit back, and nothing is left to say about its signature.
\<close>

theorem signed_approval_unlocks:
  assumes "pinned (he_grant env) (hs_config st) = Inr (Some key)" and "\<forall>m. g_verify (he_grant env) (pk_bytes key) (sk m) m"
    and "he_read_stamp env (he_write_stamp env (now + days approval_days)) = Some x" and "now' < x"
    and "update_status env now i ''approved'' (Some (pk_id key, sk)) st = (Inr it, st')"
  shows "is_approved env now' st' i = Inr True \<and> blocks_commit env now' st' [i] = Inr [] \<and> unsigned_reason env now' st' i = Inr None"
  using assms by (rule approval_unlocks)

theorem signed_approval_unlocks_witness:
  "is_approved demo_hs_env (days 30) demo_approved ''deploy'' = Inr True \<and> blocks_commit demo_hs_env (days 30) demo_approved [''deploy''] = Inr []"
proof -
  obtain it where u: "update_status demo_hs_env 0 ''deploy'' ''approved'' (Some (pk_id demo_key, (\<lambda>m. m))) demo_requested = (Inr it, demo_approved)"
    using demo_update by blast
  have "pinned (he_grant demo_hs_env) (hs_config demo_requested) = Inr (Some demo_key)" by (simp add: demo_config demo_hs_pinned)
  from signed_approval_unlocks [OF this _ demo_stamp _ u] demo_verify show ?thesis by (simp add: days_def)
qed


theorem rejection_unblocks_witness:
  "blocks_commit demo_hs_env 0 demo_requested [''deploy''] = Inr [''deploy''] \<and>
   blocks_commit demo_hs_env 0 (snd (update_status demo_hs_env 0 ''deploy'' ''rejected'' None demo_requested)) [''deploy''] = Inr []"
proof -
  obtain c k where c: "current demo_hs_env demo_requested ''deploy'' = Some c" "current_index demo_hs_env demo_requested (hs_entries demo_requested) ''deploy'' = Some k"
    using current_after_add [OF demo_sized demo_add] by (auto simp: current_def)
  have "\<exists>it. fst (update_status demo_hs_env 0 ''deploy'' ''rejected'' None demo_requested) = Inr it"
    using c by (auto simp: update_status_def Let_def save_def record_approval_mark_def demo_requested_def hs_add_def Let_def demo_hs_def write_mark_def)
  then obtain it where "update_status demo_hs_env 0 ''deploy'' ''rejected'' None demo_requested =
      (Inr it, snd (update_status demo_hs_env 0 ''deploy'' ''rejected'' None demo_requested))"
    by (metis prod.collapse)
  from rejection_unblocks [OF this] have "blocks_commit demo_hs_env 0 (snd (update_status demo_hs_env 0 ''deploy'' ''rejected'' None demo_requested)) [''deploy''] = Inr []"
    by simp
  moreover have "blocks_commit demo_hs_env 0 demo_requested [''deploy''] = Inr [''deploy'']" by code_simp
  ultimately show ?thesis by simp
qed

end
