(* ===== verification/ToolGate.thy ===== *)
theory ToolGate
  imports Grant
begin

section \<open>The gate in front of the tools\<close>

text \<open>
  The model of \<open>src/ract/executor/tool_gate.py\<close> and of \<open>invoke_tool\<close>, \<open>tool_gate_for\<close> and
  \<open>wire_mcp_registry\<close> of \<open>SubstrateLoop\<close> in \<open>src/ract/executor/loop.py\<close>: argument schemas, the
  registry of tools, the budget of a step and the checks in front of a call. A tool is a function
  from its arguments and the world to a result (or the name and text of an exception) and the
  world behind it. Events are kept in a gate's state; times and latencies are left out.
\<close>

subsection \<open>Schemas\<close>

definition allowed_types :: "string list" where
  "allowed_types = [''str'', ''int'', ''float'', ''bool'', ''list'', ''tuple'', ''dict'']"

record arg_spec =
  arg_name :: string
  arg_type :: string
  arg_optional :: bool

definition arg_spec_post_init :: "arg_spec \<Rightarrow> string + arg_spec" where
  "arg_spec_post_init s = (if arg_type s \<notin> set allowed_types then Inl ''ValueError'' else Inr s)"

text \<open>\<open>type(value).__name__\<close>; a value that JSON does not have carries its type's name.\<close>

fun value_type :: "pyval \<Rightarrow> string" where
  "value_type PNone = ''NoneType''"
| "value_type (PBool _) = ''bool''"
| "value_type (PInt _) = ''int''"
| "value_type (PFloat _) = ''float''"
| "value_type (PStr _) = ''str''"
| "value_type (PList _) = ''list''"
| "value_type (PDict _) = ''dict''"
| "value_type (PSnap v) = value_type v"
| "value_type (PObject t) = t"

definition is_instance :: "pyval \<Rightarrow> string \<Rightarrow> bool" where
  "is_instance v t \<longleftrightarrow> value_type v = t \<or> (t = ''int'' \<and> value_type v = ''bool'')"

type_synonym tool_args = "(string, pyval) dict"

definition args_value :: "tool_args \<Rightarrow> pyval" where
  "args_value args = PDict (map (\<lambda>(k, v). (KStr k, v)) args)"

fun check_specs :: "host \<Rightarrow> tool_args \<Rightarrow> arg_spec list \<Rightarrow> (string \<times> payload) option" where
  "check_specs h args [] = None"
| "check_specs h args (s # ss) =
    (case map_of args (arg_name s) of
       None \<Rightarrow>
         if arg_optional s then check_specs h args ss
         else Some (''missing required arg '' @ host_repr h (PStr (arg_name s)), [(KStr ''missing_arg'', PStr (arg_name s))])
     | Some v \<Rightarrow>
         if arg_type s = ''int'' \<and> value_type v = ''bool''
         then Some (''arg '' @ host_repr h (PStr (arg_name s)) @ '' expected int; got bool'',
           [(KStr ''arg'', PStr (arg_name s)), (KStr ''value_type'', PStr ''bool'')])
         else if \<not> is_instance v (arg_type s)
         then Some (''arg '' @ host_repr h (PStr (arg_name s)) @ '' type mismatch: expected '' @ arg_type s @ '', got '' @ value_type v,
           [(KStr ''arg'', PStr (arg_name s)), (KStr ''expected'', PStr (arg_type s))])
         else check_specs h args ss)"

text \<open>\<open>validate\<close>: \<open>None\<close> when the arguments conform, else the reason and the details.\<close>

definition validate :: "host \<Rightarrow> arg_spec list \<Rightarrow> tool_args \<Rightarrow> (string \<times> payload) option" where
  "validate h specs args =
    (let extras = sorted_set (filter (\<lambda>k. k \<notin> set (map arg_name specs)) (keys args)) in
     if extras \<noteq> []
     then Some (''unknown args: '' @ host_repr h (PList (map PStr extras)), [(KStr ''unknown_args'', PList (map PStr extras))])
     else check_specs h args specs)"

subsection \<open>The registry and the budget\<close>

record 'w tool_def =
  tool_id :: string
  schema :: "arg_spec list"
  tool_call :: "tool_args \<Rightarrow> 'w \<Rightarrow> (string \<times> string + pyval) \<times> 'w"

record 'w tool_registry =
  tool_defs :: "(string, 'w tool_def) dict"
  frozen :: bool

datatype registry_error = RegistryFrozen | AlreadyRegistered string

definition register_tool :: "'w tool_def \<Rightarrow> 'w tool_registry \<Rightarrow> registry_error + 'w tool_registry" where
  "register_tool d reg =
    (if frozen reg then Inl RegistryFrozen
     else if tool_id d \<in> set (keys (tool_defs reg)) then Inl (AlreadyRegistered (tool_id d))
     else Inr (reg\<lparr>tool_defs := tool_defs reg @ [(tool_id d, d)]\<rparr>))"

definition freeze :: "'w tool_registry \<Rightarrow> 'w tool_registry" where
  "freeze reg = reg\<lparr>frozen := True\<rparr>"

definition declared_ids :: "'w tool_registry \<Rightarrow> string list" where
  "declared_ids reg = keys (tool_defs reg)"

record tool_budget =
  max_invocations :: int
  used :: int

definition consume :: "tool_budget \<Rightarrow> bool \<times> tool_budget" where
  "consume b = (if max_invocations b \<le> used b then (False, b) else (True, b\<lparr>used := used b + 1\<rparr>))"

definition tool_remaining :: "tool_budget \<Rightarrow> int" where
  "tool_remaining b = max 0 (max_invocations b - used b)"

subsection \<open>The gate\<close>

definition max_args_repr :: nat where
  "max_args_repr = 512"

text \<open>The first \<open>n\<close> code points of a text.\<close>

fun take_chars :: "nat \<Rightarrow> string \<Rightarrow> string" where
  "take_chars n [] = []"
| "take_chars n (c # s) = (if cont c then c # take_chars n s else case n of 0 \<Rightarrow> [] | Suc m \<Rightarrow> c # take_chars m s)"

definition bounded_repr :: "host \<Rightarrow> tool_args \<Rightarrow> string" where
  "bounded_repr h args =
    (let raw = host_repr h (args_value args) in
     if str_len raw \<le> max_args_repr then raw else take_chars (max_args_repr - 3) raw @ ''...'')"

definition approximate_size :: "host \<Rightarrow> pyval \<Rightarrow> nat" where
  "approximate_size h v = (if v = PNone then 0 else length (host_repr h v))"

record tool_record =
  tr_tool_id :: string
  tr_args_repr :: string
  tr_ok :: bool
  tr_refused_gate :: string
  tr_refused_reason :: string
  tr_result_size :: nat

datatype tool_event =
    ToolRefusedEvent string string string payload
  | ToolPre string string int int
  | ToolPostFailed string string
  | ToolPost string nat

record tool_gate =
  gate_declared :: "string list"
  gate_budget :: tool_budget
  gate_records :: "tool_record list"
  gate_events :: "tool_event list"

datatype tool_error = ToolInvocationRefused string string string payload | ToolRaised string string

definition refuse :: "string \<Rightarrow> string \<Rightarrow> string \<Rightarrow> payload \<Rightarrow> string \<Rightarrow> tool_gate \<Rightarrow> tool_error \<times> tool_gate" where
  "refuse tid gate why details args_repr s =
    (ToolInvocationRefused tid gate why details,
     s\<lparr>gate_events := gate_events s @ [ToolRefusedEvent tid gate why details],
       gate_records := gate_records s @ [\<lparr>tr_tool_id = tid, tr_args_repr = args_repr, tr_ok = False, tr_refused_gate = gate,
         tr_refused_reason = why, tr_result_size = 0\<rparr>]\<rparr>)"

text \<open>The call behind the checks: the event before it, the call, the event and the record behind it.\<close>

definition execute ::
    "host \<Rightarrow> 'w tool_def \<Rightarrow> string \<Rightarrow> tool_args \<Rightarrow> tool_gate \<Rightarrow> 'w \<Rightarrow> (tool_error + pyval) \<times> tool_gate \<times> 'w" where
  "execute h d tid args s w =
    (let ar = bounded_repr h args;
         s1 = s\<lparr>gate_events := gate_events s @ [ToolPre tid ar (used (gate_budget s)) (max_invocations (gate_budget s))]\<rparr>
     in case tool_call d args w of
          (Inl (exc, msg), w') \<Rightarrow>
            (Inl (ToolRaised exc msg),
             s1\<lparr>gate_events := gate_events s1 @ [ToolPostFailed tid exc],
                gate_records := gate_records s1 @ [\<lparr>tr_tool_id = tid, tr_args_repr = ar, tr_ok = False, tr_refused_gate = ''exception'',
                  tr_refused_reason = exc @ '': '' @ msg, tr_result_size = 0\<rparr>]\<rparr>, w')
        | (Inr v, w') \<Rightarrow>
            (Inr v,
             s1\<lparr>gate_events := gate_events s1 @ [ToolPost tid (approximate_size h v)],
                gate_records := gate_records s1 @ [\<lparr>tr_tool_id = tid, tr_args_repr = ar, tr_ok = True, tr_refused_gate = [],
                  tr_refused_reason = [], tr_result_size = approximate_size h v\<rparr>]\<rparr>, w'))"

definition invoke ::
    "host \<Rightarrow> 'w tool_registry \<Rightarrow> string \<Rightarrow> tool_args \<Rightarrow> tool_gate \<Rightarrow> 'w \<Rightarrow> (tool_error + pyval) \<times> tool_gate \<times> 'w" where
  "invoke h reg tid args s w =
    (let ar = bounded_repr h args; no = (\<lambda>gate why details s. case refuse tid gate why details ar s of (e, s') \<Rightarrow> (Inl e, s', w)) in
     if tid \<notin> set (gate_declared s) then
       no ''manifest'' (''tool '' @ host_repr h (PStr tid) @ '' is not declared in the run's CapabilityManifest.tools allowlist'')
         [(KStr ''declared_ids'', PList (map PStr (sorted_set (gate_declared s))))] s
     else case map_of (tool_defs reg) tid of
       None \<Rightarrow>
         no ''registry'' (''tool '' @ host_repr h (PStr tid) @ '' is declared in the manifest but no implementation is registered in the ToolRegistry'') [] s
     | Some d \<Rightarrow>
         (case validate h (schema d) args of
            Some (why, details) \<Rightarrow> no ''args'' why details s
          | None \<Rightarrow>
              (case consume (gate_budget s) of
                 (False, b) \<Rightarrow>
                   no ''budget'' (''tool budget exhausted (used='' @ dec_int (used b) @ '' of max='' @ dec_int (max_invocations b) @ '')'')
                     [(KStr ''used'', PInt (used b)), (KStr ''max'', PInt (max_invocations b))] (s\<lparr>gate_budget := b\<rparr>)
               | (True, b) \<Rightarrow> execute h d tid args (s\<lparr>gate_budget := b\<rparr>) w)))"

subsection \<open>The loop's tools\<close>

record 'w tool_loop =
  tl_registry :: "'w tool_registry option"
  tl_declared :: "string list"
  tl_max :: int
  tl_gates :: "(string, tool_gate) dict"
  tl_schemas :: "(string, pyval) dict"

definition tool_gate_for :: "'w tool_loop \<Rightarrow> string \<Rightarrow> tool_gate option" where
  "tool_gate_for l sid = map_of (tl_gates l) sid"

definition no_step :: string where
  "no_step = replicate 16 (CHR 0x00)"

definition new_gate :: "'w tool_loop \<Rightarrow> tool_gate" where
  "new_gate l = \<lparr>gate_declared = tl_declared l, gate_budget = \<lparr>max_invocations = tl_max l, used = 0\<rparr>, gate_records = [], gate_events = []\<rparr>"

definition invoke_tool ::
    "host \<Rightarrow> string \<Rightarrow> tool_args \<Rightarrow> string option \<Rightarrow> 'w tool_loop \<Rightarrow> 'w \<Rightarrow> (tool_error + pyval) \<times> 'w tool_loop \<times> 'w" where
  "invoke_tool h tid args step l w =
    (case tl_registry l of
       None \<Rightarrow>
         (Inl (ToolInvocationRefused tid ''registry'' ''SubstrateLoop was constructed without a ToolRegistry; no tool calls admissible'' []), l, w)
     | Some reg \<Rightarrow>
         let sid = (case step of None \<Rightarrow> no_step | Some s \<Rightarrow> s);
             gate = (case map_of (tl_gates l) sid of None \<Rightarrow> new_gate l | Some s \<Rightarrow> s)
         in case invoke h reg tid args gate w of
              (res, gate', w') \<Rightarrow> (res, l\<lparr>tl_gates := AList.update sid gate' (tl_gates l)\<rparr>, w'))"

text \<open>
  \<open>wire_mcp_registry\<close> over the names and input schemas that the MCP servers list (an unreachable
  registry is the empty list); the call over the wire is a parameter.
\<close>

definition mcp_tool :: "(string \<Rightarrow> tool_args \<Rightarrow> 'w \<Rightarrow> (string \<times> string + pyval) \<times> 'w) \<Rightarrow> string \<Rightarrow> 'w tool_def" where
  "mcp_tool call name = \<lparr>tool_id = ''mcp:'' @ name, schema = [\<lparr>arg_name = ''arguments'', arg_type = ''dict'', arg_optional = True\<rparr>],
     tool_call = call name\<rparr>"

fun wire_tools ::
    "(string \<Rightarrow> tool_args \<Rightarrow> 'w \<Rightarrow> (string \<times> string + pyval) \<times> 'w) \<Rightarrow> bool \<Rightarrow> 'w tool_registry \<Rightarrow> (string \<times> pyval) list \<Rightarrow> nat \<Rightarrow> 'w tool_loop
      \<Rightarrow> (registry_error + nat) \<times> 'w tool_loop" where
  "wire_tools call auto reg [] n l = (Inr n, l\<lparr>tl_registry := Some reg\<rparr>)"
| "wire_tools call auto reg ((name, input_schema) # tools) n l =
    (if name = [] \<or> CHR ''/'' \<notin> set name then wire_tools call auto reg tools n l
     else if ''mcp:'' @ name \<in> set (declared_ids reg) then wire_tools call auto reg tools n l
     else case register_tool (mcp_tool call name) reg of
       Inl e \<Rightarrow> (Inl e, l\<lparr>tl_registry := Some reg\<rparr>)
     | Inr reg' \<Rightarrow>
         wire_tools call auto reg' tools (Suc n)
           (l\<lparr>tl_declared := (if auto then List.insert (''mcp:'' @ name) (tl_declared l) else tl_declared l),
              tl_schemas := AList.update (''mcp:'' @ name) input_schema (tl_schemas l)\<rparr>))"

definition wire_mcp_registry ::
    "(string \<Rightarrow> tool_args \<Rightarrow> 'w \<Rightarrow> (string \<times> string + pyval) \<times> 'w) \<Rightarrow> bool \<Rightarrow> (string \<times> pyval) list \<Rightarrow> 'w tool_loop
      \<Rightarrow> (registry_error + nat) \<times> 'w tool_loop" where
  "wire_mcp_registry call auto listed l =
    wire_tools call auto (case tl_registry l of None \<Rightarrow> \<lparr>tool_defs = [], frozen = False\<rparr> | Some reg \<Rightarrow> reg) listed 0 l"

subsection \<open>Schemas, declaratively\<close>

definition conforms :: "arg_spec list \<Rightarrow> tool_args \<Rightarrow> bool" where
  "conforms specs args \<longleftrightarrow>
    set (keys args) \<subseteq> set (map arg_name specs) \<and>
    (\<forall>s \<in> set specs. case map_of args (arg_name s) of None \<Rightarrow> arg_optional s | Some v \<Rightarrow> value_type v = arg_type s)"

lemma check_specs_None:
  "check_specs h args specs = None \<longleftrightarrow>
    (\<forall>s \<in> set specs. case map_of args (arg_name s) of None \<Rightarrow> arg_optional s | Some v \<Rightarrow> value_type v = arg_type s)"
  by (induction specs) (auto simp: is_instance_def split: option.splits)

lemma validate_None: "validate h specs args = None \<longleftrightarrow> conforms specs args"
  by (auto simp: validate_def Let_def sorted_set_Nil conforms_def check_specs_None filter_empty_conv)

subsection \<open>What a call leaves behind\<close>

text \<open>The two ways a call ends: behind every check, or refused with nothing run.\<close>

definition admitted_call ::
    "'w tool_registry \<Rightarrow> string \<Rightarrow> tool_args \<Rightarrow> tool_gate \<Rightarrow> 'w \<Rightarrow> tool_error + pyval \<Rightarrow> tool_gate \<Rightarrow> 'w \<Rightarrow> bool" where
  "admitted_call reg tid args s w res s' w' \<longleftrightarrow>
    (\<exists>d ar post. tid \<in> set (gate_declared s) \<and> map_of (tool_defs reg) tid = Some d \<and> conforms (schema d) args \<and>
      used (gate_budget s) < max_invocations (gate_budget s) \<and> used (gate_budget s') = used (gate_budget s) + 1 \<and>
      res = map_sum (\<lambda>(exc, msg). ToolRaised exc msg) (\<lambda>v. v) (fst (tool_call d args w)) \<and> w' = snd (tool_call d args w) \<and>
      gate_events s' = gate_events s @ [ToolPre tid ar (used (gate_budget s')) (max_invocations (gate_budget s)), post] \<and>
      post \<in> {ToolPostFailed tid e | e. True} \<union> {ToolPost tid n | n. True})"

definition refused_call :: "string \<Rightarrow> tool_gate \<Rightarrow> 'w \<Rightarrow> tool_error + pyval \<Rightarrow> tool_gate \<Rightarrow> 'w \<Rightarrow> bool" where
  "refused_call tid s w res s' w' \<longleftrightarrow> w' = w \<and> gate_budget s' = gate_budget s \<and>
    (\<exists>gate why details. res = Inl (ToolInvocationRefused tid gate why details) \<and>
      gate_events s' = gate_events s @ [ToolRefusedEvent tid gate why details])"

lemma execute_outcome:
  assumes "execute h d tid args s w = (res, s', w')"
  shows "res = map_sum (\<lambda>(exc, msg). ToolRaised exc msg) (\<lambda>v. v) (fst (tool_call d args w)) \<and> w' = snd (tool_call d args w) \<and>
    gate_budget s' = gate_budget s \<and> gate_declared s' = gate_declared s \<and> length (gate_records s') = Suc (length (gate_records s)) \<and>
    (\<exists>ar post. gate_events s' = gate_events s @ [ToolPre tid ar (used (gate_budget s)) (max_invocations (gate_budget s)), post] \<and>
      post \<in> {ToolPostFailed tid e | e. True} \<union> {ToolPost tid n | n. True})"
proof -
  obtain r w1 where c: "tool_call d args w = (r, w1)" by fastforce
  with assms show ?thesis
    by (cases r) (auto simp: execute_def Let_def)
qed

lemma invoke_outcome:
  assumes "invoke h reg tid args s w = (res, s', w')"
  shows "(admitted_call reg tid args s w res s' w' \<or> refused_call tid s w res s' w') \<and>
    gate_declared s' = gate_declared s \<and> max_invocations (gate_budget s') = max_invocations (gate_budget s) \<and>
    length (gate_records s') = Suc (length (gate_records s))"
proof -
  consider (undeclared) "tid \<notin> set (gate_declared s)"
    | (missing) "tid \<in> set (gate_declared s)" "map_of (tool_defs reg) tid = None"
    | (args) d why details where "tid \<in> set (gate_declared s)" "map_of (tool_defs reg) tid = Some d" "validate h (schema d) args = Some (why, details)"
    | (spent) d where "tid \<in> set (gate_declared s)" "map_of (tool_defs reg) tid = Some d" "validate h (schema d) args = None"
        "max_invocations (gate_budget s) \<le> used (gate_budget s)"
    | (runs) d where "tid \<in> set (gate_declared s)" "map_of (tool_defs reg) tid = Some d" "validate h (schema d) args = None"
        "used (gate_budget s) < max_invocations (gate_budget s)"
    by (cases "map_of (tool_defs reg) tid"; cases "validate h (schema (the (map_of (tool_defs reg) tid))) args") force+
  then show ?thesis
  proof cases
    case runs
    let ?s = "s\<lparr>gate_budget := (gate_budget s)\<lparr>used := used (gate_budget s) + 1\<rparr>\<rparr>"
    have "execute h d tid args ?s w = (res, s', w')"
      using assms runs by (simp add: invoke_def consume_def Let_def)
    from execute_outcome [OF this] runs show ?thesis
      by (auto simp: admitted_call_def validate_None)
  qed (use assms in \<open>auto simp: invoke_def consume_def Let_def refuse_def refused_call_def\<close>)
qed

subsection \<open>A run of calls\<close>

type_synonym tool_request = "string \<times> tool_args \<times> string option"

definition sid_of :: "tool_request \<Rightarrow> string" where
  "sid_of c = (case snd (snd c) of None \<Rightarrow> no_step | Some s \<Rightarrow> s)"

fun tool_calls :: "host \<Rightarrow> tool_request list \<Rightarrow> 'w tool_loop \<Rightarrow> 'w \<Rightarrow> 'w tool_loop \<times> 'w" where
  "tool_calls h [] l w = (l, w)"
| "tool_calls h ((tid, args, step) # cs) l w =
    (case invoke_tool h tid args step l w of (res, l', w') \<Rightarrow> tool_calls h cs l' w')"

fun is_pre :: "tool_event \<Rightarrow> bool" where
  "is_pre (ToolPre _ _ _ _) = True"
| "is_pre _ = False"

definition runs_of :: "tool_gate \<Rightarrow> nat" where
  "runs_of s = length (filter is_pre (gate_events s))"

text \<open>A gate counts what it has run, never more than its budget, and one record for each call.\<close>

definition gate_counts :: "int \<Rightarrow> nat \<Rightarrow> tool_gate \<Rightarrow> bool" where
  "gate_counts m n s \<longleftrightarrow> max_invocations (gate_budget s) = m \<and> used (gate_budget s) = int (runs_of s) \<and> int (runs_of s) \<le> max 0 m \<and>
    length (gate_records s) = n"

lemma gate_counts_invoke:
  assumes "invoke h reg tid args s w = (res, s', w')" and "gate_counts m n s"
  shows "gate_counts m (Suc n) s'"
  using invoke_outcome [OF assms(1)] assms(2)
  by (auto simp: gate_counts_def admitted_call_def refused_call_def runs_of_def)

lemma gate_counts_new: "gate_counts (tl_max l) 0 (new_gate l)"
  by (simp add: gate_counts_def new_gate_def runs_of_def)

definition loop_counts :: "tool_request list \<Rightarrow> 'w tool_loop \<Rightarrow> bool" where
  "loop_counts past l \<longleftrightarrow> (\<forall>sid. case map_of (tl_gates l) sid of
     None \<Rightarrow> \<not> (\<exists>c \<in> set past. sid_of c = sid)
   | Some s \<Rightarrow> gate_counts (tl_max l) (length (filter (\<lambda>c. sid_of c = sid) past)) s)"

lemma invoke_tool_counts:
  assumes "loop_counts past l" and "tl_registry l = Some reg" and "invoke_tool h tid args step l w = (res, l', w')"
  shows "loop_counts (past @ [(tid, args, step)]) l' \<and> tl_registry l' = Some reg \<and> tl_max l' = tl_max l"
proof -
  let ?sid = "sid_of (tid, args, step)" and ?n = "\<lambda>sid. length (filter (\<lambda>c. sid_of c = sid) past)"
  let ?gate = "case map_of (tl_gates l) ?sid of None \<Rightarrow> new_gate l | Some s \<Rightarrow> s"
  obtain r s' w1 where inv: "invoke h reg tid args ?gate w = (r, s', w1)" by (metis prod_cases3)
  have l': "l' = l\<lparr>tl_gates := AList.update ?sid s' (tl_gates l)\<rparr>"
    using assms(2,3) inv by (simp add: invoke_tool_def sid_of_def Let_def)
  have "gate_counts (tl_max l) (?n ?sid) ?gate"
  proof (cases "map_of (tl_gates l) ?sid")
    case None
    from assms(1) [unfolded loop_counts_def, rule_format, of ?sid] None have "filter (\<lambda>c. sid_of c = ?sid) past = []"
      by (simp add: filter_empty_conv)
    with None gate_counts_new [of l] show ?thesis by simp
  next
    case (Some s)
    with assms(1) [unfolded loop_counts_def, rule_format, of ?sid] show ?thesis by simp
  qed
  note here = gate_counts_invoke [OF inv this]
  have "loop_counts (past @ [(tid, args, step)]) l'"
    unfolding loop_counts_def
  proof
    fix sid
    show "case map_of (tl_gates l') sid of None \<Rightarrow> \<not> (\<exists>c \<in> set (past @ [(tid, args, step)]). sid_of c = sid)
      | Some s \<Rightarrow> gate_counts (tl_max l') (length (filter (\<lambda>c. sid_of c = sid) (past @ [(tid, args, step)]))) s"
      using here assms(1) [unfolded loop_counts_def, rule_format, of sid]
      by (cases "sid = ?sid"; cases "map_of (tl_gates l) sid") (simp_all add: l' update_conv')
  qed
  with assms(2) show ?thesis by (simp add: l')
qed

lemma tool_calls_counts:
  assumes "loop_counts past l" and "tl_registry l = Some reg" and "tool_calls h cs l w = (l', w')"
  shows "loop_counts (past @ cs) l' \<and> tl_max l' = tl_max l"
  using assms
proof (induction cs arbitrary: past l w)
  case (Cons c cs)
  obtain tid args step where c: "c = (tid, args, step)" by (metis prod_cases3)
  obtain res l1 w1 where i: "invoke_tool h tid args step l w = (res, l1, w1)" by (metis prod_cases3)
  note one = invoke_tool_counts [OF Cons.prems(1,2) i]
  with Cons.IH [of "past @ [c]" l1 w1] Cons.prems(3) c i show ?case by simp
qed simp

text \<open>The tools of the examples: a log that a tool writes to, and one that fails.\<close>

definition demo_tools :: "string list tool_registry" where
  "demo_tools = \<lparr>tool_defs =
     [(''write'', \<lparr>tool_id = ''write'', schema = [\<lparr>arg_name = ''path'', arg_type = ''str'', arg_optional = False\<rparr>,
         \<lparr>arg_name = ''count'', arg_type = ''int'', arg_optional = True\<rparr>],
       tool_call = (\<lambda>args w. (Inr PNone, w @ [''write'']))\<rparr>),
      (''fail'', \<lparr>tool_id = ''fail'', schema = [], tool_call = (\<lambda>args w. (Inl (''OSError'', ''no''), w @ [''fail'']))\<rparr>)],
     frozen = True\<rparr>"

definition demo_tool_loop :: "string list tool_loop" where
  "demo_tool_loop = \<lparr>tl_registry = Some demo_tools, tl_declared = [''write'', ''fail'', ''other''], tl_max = 2, tl_gates = [], tl_schemas = []\<rparr>"

definition demo_requests :: "tool_request list" where
  "demo_requests = [(''write'', [(''path'', PStr ''a'')], Some ''s''), (''write'', [(''path'', PStr ''a''), (''count'', PBool True)], Some ''s''),
     (''other'', [], Some ''s''), (''rm'', [], Some ''s''), (''fail'', [], Some ''s''), (''write'', [(''path'', PStr ''b'')], Some ''s'')]"

text \<open>
  The gate admits exactly the arguments of the schema: no name outside it, every required one
  there, and every one that is there of the very type that is declared (a truth value is not an
  integer here).
\<close>

theorem validate_exact: "validate h specs args = None \<longleftrightarrow> conforms specs args"
  by (rule validate_None)



text \<open>
  C6. A step's budget is never exceeded and nothing goes unrecorded: however many calls are made
  through a fresh loop and for whichever steps, the gate of a step has run at most as many tools
  as its budget says, it has counted exactly those, and it holds one record for every call that was
  made for the step, run or refused.
\<close>

theorem tool_budget_bounds:
  assumes "tl_registry l = Some reg" and "tl_gates l = []" and "tool_calls h cs l w = (l', w')" and "tool_gate_for l' sid = Some s"
  shows "int (runs_of s) \<le> max 0 (tl_max l) \<and> used (gate_budget s) = int (runs_of s) \<and>
    length (gate_records s) = length (filter (\<lambda>c. sid_of c = sid) cs)"
proof -
  have "loop_counts [] l" using assms(2) by (simp add: loop_counts_def)
  from tool_calls_counts [OF this assms(1,3)] assms(4) show ?thesis
    by (auto simp: loop_counts_def gate_counts_def tool_gate_for_def split: option.splits)
qed

theorem tool_budget_bounds_witness:
  "\<exists>s. tool_gate_for (fst (tool_calls demo_host demo_requests demo_tool_loop [])) ''s'' = Some s \<and>
     snd (tool_calls demo_host demo_requests demo_tool_loop []) = [''write'', ''fail''] \<and> runs_of s \<le> 2 \<and> length (gate_records s) = 6"
proof -
  have run: "(case tool_gate_for (fst (tool_calls demo_host demo_requests demo_tool_loop [])) ''s'' of None \<Rightarrow> False | Some s \<Rightarrow> True) \<and>
      snd (tool_calls demo_host demo_requests demo_tool_loop []) = [''write'', ''fail'']" by code_simp
  then obtain s where s: "tool_gate_for (fst (tool_calls demo_host demo_requests demo_tool_loop [])) ''s'' = Some s" by (auto split: option.splits)
  have "length (filter (\<lambda>c. sid_of c = ''s'') demo_requests) = 6" by code_simp
  with tool_budget_bounds [OF _ _ surjective_pairing s, of demo_tools] s run show ?thesis
    by (auto simp: demo_tool_loop_def)
qed

text \<open>
  The text of a call's arguments in the log has at most 512 characters, but up to there it is the
  whole of it.
\<close>

lemma str_len_take_chars: "str_len (take_chars n s) \<le> n"
  by (induction n s rule: take_chars.induct) (auto simp: str_len_def split: nat.splits)

lemma bounded_repr_bound: "str_len (bounded_repr h args) \<le> max_args_repr"
proof -
  have "str_len (take_chars (max_args_repr - 3) (host_repr h (args_value args)) @ ''...'') \<le> max_args_repr"
    using str_len_take_chars [of "max_args_repr - 3" "host_repr h (args_value args)"]
    by (simp add: str_len_def max_args_repr_def cont_def)
  then show ?thesis by (simp add: bounded_repr_def Let_def)
qed

lemma short_args_logged_whole: "str_len (host_repr h (args_value args)) \<le> 512 \<Longrightarrow> bounded_repr h args = host_repr h (args_value args)"
  by (simp add: bounded_repr_def max_args_repr_def)

end
