(* ===== verification/JsonDoc.thy ===== *)
theory JsonDoc
  imports JsonText
begin

section \<open>\<open>json.dumps\<close> with sorted keys and an indent\<close>

text \<open>
  The text \<open>json.dumps(v, sort_keys=True, indent=2)\<close> writes for a nested value, and the proof
  that \<open>json.loads\<close> reads it back: as the same value with the members of every object in the
  order of their keys. Strings outside ASCII are escaped and read back too. A key that is no
  string, and an object of another class, is a \<open>TypeError\<close>, the value \<open>None\<close> (a dict with
  only number keys, which Python would write, does not occur).
\<close>

subsection \<open>The writer\<close>

definition json_float :: "pyfloat \<Rightarrow> string" where
  "json_float f =
    (case f of FNan \<Rightarrow> ''NaN'' | FInf pos \<Rightarrow> (if pos then ''Infinity'' else ''-Infinity'') | FFin _ t \<Rightarrow> t)"

definition line_start :: "nat \<Rightarrow> string" where
  "line_start n = newline # replicate (2 * n) (CHR '' '')"

text \<open>The lines of a list or an object at depth \<open>n\<close>, between its two brackets.\<close>

definition json_block :: "nat \<Rightarrow> char \<Rightarrow> char \<Rightarrow> string list \<Rightarrow> string" where
  "json_block n a b ts =
    (if ts = [] then [a, b]
     else a # line_start (Suc n) @ join (CHR '','' # line_start (Suc n)) ts @ line_start n @ [b])"

definition json_member :: "string \<Rightarrow> string \<Rightarrow> string" where
  "json_member k t = json_string k @ '': '' @ t"

fun json_doc :: "nat \<Rightarrow> pyval \<Rightarrow> string option" where
  "json_doc n PNone = Some ''null''"
| "json_doc n (PBool b) = Some (if b then ''true'' else ''false'')"
| "json_doc n (PInt i) = Some (dec_int i)"
| "json_doc n (PFloat f) = Some (json_float f)"
| "json_doc n (PStr s) = Some (json_string s)"
| "json_doc n (PList vs) =
    map_option (json_block n (CHR ''['') (CHR '']'')) (those (map (json_doc (Suc n)) vs))"
| "json_doc n (PDict kvs) =
    (if KOther \<in> fst ` set kvs then None
     else map_option (json_block n (CHR ''{'') (CHR ''}''))
       (those (map (\<lambda>(k, t). map_option (json_member k) t)
         (sorted_members (\<lambda>s. s) (map (\<lambda>(k, v). (k, json_doc (Suc n) v)) kvs)))))"
| "json_doc n (PSnap v) = None"
| "json_doc n (PObject c) = None"

definition dumps_sorted :: "pyval \<Rightarrow> string option" where
  "dumps_sorted v = json_doc 0 v"

text \<open>The values that come back: valid text, string keys without repetition, no floats.\<close>

fun readable :: "pyval \<Rightarrow> bool" where
  "readable (PFloat f) = False"
| "readable (PStr s) = utf8_valid s"
| "readable (PList vs) = (\<forall>v \<in> set vs. readable v)"
| "readable (PDict kvs) =
    ((\<forall>(k, v) \<in> set kvs. k \<noteq> KOther \<and> utf8_valid (key_str k) \<and> readable v) \<and> distinct (map fst kvs))"
| "readable (PSnap v) = False"
| "readable (PObject c) = False"
| "readable v = True"

subsection \<open>Escaped text is read back\<close>

lemma hex4_u_escape:
  assumes "n < 65536"
  shows "hex4 (hex_digit (n div 4096) # hex_digit (n div 256 mod 16) # hex_digit (n div 16 mod 16)
    # hex_digit (n mod 16) # s) = Some (n, s)"
proof -
  have "n div 4096 < 16" using assms by (simp add: div_less_iff_less_mult)
  moreover have "4096 * (n div 4096) + 256 * (n div 256 mod 16) + 16 * (n div 16 mod 16) + n mod 16 = n"
  proof -
    have "n = 16 * (n div 16) + n mod 16" "n div 16 = 16 * (n div 256) + n div 16 mod 16"
      "n div 256 = 16 * (n div 4096) + n div 256 mod 16"
      using div_mult2_eq [of n 16 16] div_mult2_eq [of n 256 16] mult_div_mod_eq [of 16 n]
        mult_div_mod_eq [of 16 "n div 16"] mult_div_mod_eq [of 16 "n div 256"] by simp_all
    then show ?thesis by linarith
  qed
  ultimately show ?thesis by simp
qed

lemma scan_string_u:
  assumes "scan_unicode t = Some (x, r)"
  shows "scan_string (CHR 0x5C # CHR ''u'' # t) = map_option (\<lambda>(b, r'). (x @ b, r')) (scan_string r)"
  using assms by (simp add: quote_def simple_escapes_def)

lemma u_escape_split:
  assumes "n < 65536"
  obtains t where "\<And>s. u_escape n @ s = CHR 0x5C # CHR ''u'' # t @ s" and "\<And>s. hex4 (t @ s) = Some (n, s)"
  using hex4_u_escape [OF assms] by (intro that [of "drop 2 (u_escape n)"]) (simp_all only: u_escape_def, simp_all)

lemma scan_string_u_escape:
  assumes "n < 65536" and "n < 0xD800 \<or> 0xDBFF < n"
  shows "scan_string (u_escape n @ s) = map_option (\<lambda>(b, r). (utf8_enc n @ b, r)) (scan_string s)"
proof (rule u_escape_split [OF assms(1)])
  fix t assume t: "\<And>s. u_escape n @ s = CHR 0x5C # CHR ''u'' # t @ s" "\<And>s. hex4 (t @ s) = Some (n, s)"
  from assms(2) have "scan_unicode (t @ s) = Some (utf8_enc n, s)" by (auto simp: scan_unicode_def t(2))
  from scan_string_u [OF this] show ?thesis unfolding t(1) .
qed

lemma scan_string_surrogates:
  assumes h: "0xD800 \<le> h" "h \<le> 0xDBFF" and l: "0xDC00 \<le> l" "l \<le> 0xDFFF"
  shows "scan_string (u_escape h @ u_escape l @ s)
    = map_option (\<lambda>(b, r). (utf8_enc (0x10000 + 1024 * (h - 0xD800) + (l - 0xDC00)) @ b, r)) (scan_string s)"
proof -
  have "h < 65536" and "l < 65536" using assms by simp_all
  from u_escape_split [OF this(1)] u_escape_split [OF this(2)] obtain t u
    where t: "\<And>s. u_escape h @ s = CHR 0x5C # CHR ''u'' # t @ s" "\<And>s. hex4 (t @ s) = Some (h, s)"
      and u: "\<And>s. u_escape l @ s = CHR 0x5C # CHR ''u'' # u @ s" "\<And>s. hex4 (u @ s) = Some (l, s)" by metis
  have "scan_unicode (t @ CHR 0x5C # CHR ''u'' # u @ s) = Some (utf8_enc (0x10000 + 1024 * (h - 0xD800) + (l - 0xDC00)), s)"
    unfolding scan_unicode_def t(2) using h l by (simp add: startswith_def u(2))
  from scan_string_u [OF this] show ?thesis unfolding t(1) u(1) .
qed

lemma scan_string_pair:
  assumes "n < 0x100000"
  shows "scan_string (u_escape (0xD800 + n div 1024) @ u_escape (0xDC00 + n mod 1024) @ s)
    = map_option (\<lambda>(b, r). (utf8_enc (0x10000 + n) @ b, r)) (scan_string s)"
proof -
  have h: "n div 1024 < 1024" using assms by (simp add: div_less_iff_less_mult)
  have l: "n mod 1024 < 1024" by simp
  have "0x10000 + 1024 * (0xD800 + n div 1024 - 0xD800) + (0xDC00 + n mod 1024 - 0xDC00) = 0x10000 + n"
    using mult_div_mod_eq [of 1024 n] by linarith
  moreover have "0xD800 + n div 1024 \<le> 0xDBFF" "0xDC00 + n mod 1024 \<le> 0xDFFF" using h l by linarith+
  ultimately show ?thesis
    using scan_string_surrogates [of "0xD800 + n div 1024" "0xDC00 + n mod 1024" s] by (simp only: le_add1)
qed

lemma utf8_enc_long:
  "2048 \<le> n \<Longrightarrow> n < 65536 \<Longrightarrow> utf8_enc n = [char_of (224 + n div 4096), char_of (128 + n div 64 mod 64), char_of (128 + n mod 64)]"
  "65536 \<le> n \<Longrightarrow> utf8_enc n = [char_of (240 + n div 262144), char_of (128 + n div 4096 mod 64),
        char_of (128 + n div 64 mod 64), char_of (128 + n mod 64)]"
  by (simp_all add: utf8_enc_def)

lemma utf8_enc_bytes:
  assumes "cont b"
  shows "194 \<le> code a \<Longrightarrow> code a < 224 \<Longrightarrow> utf8_enc ((code a - 192) * 64 + (code b - 128)) = [a, b]"
    and "cont c \<Longrightarrow> 224 \<le> code a \<Longrightarrow> code a < 240 \<Longrightarrow> (code a = 224 \<longrightarrow> 160 \<le> code b) \<Longrightarrow>
      utf8_enc ((code a - 224) * 4096 + (code b - 128) * 64 + (code c - 128)) = [a, b, c]"
    and "cont c \<Longrightarrow> cont d \<Longrightarrow> 240 \<le> code a \<Longrightarrow> code a < 245 \<Longrightarrow> (code a = 240 \<longrightarrow> 144 \<le> code b) \<Longrightarrow>
      utf8_enc ((code a - 240) * 262144 + (code b - 128) * 4096 + (code c - 128) * 64 + (code d - 128)) = [a, b, c, d]"
proof -
  have split: "(x * 64 + y) div 64 = x" "(x * 64 + y) mod 64 = y" if "y < 64" for x y :: nat
    using that by simp_all
  have b: "code b - 128 < 64" "128 + (code b - 128) = code b" using assms by (auto simp: cont_def)
  show "utf8_enc ((code a - 192) * 64 + (code b - 128)) = [a, b]" if "194 \<le> code a" "code a < 224"
  proof -
    let ?n = "(code a - 192) * 64 + (code b - 128)"
    have "?n div 64 = code a - 192" "?n mod 64 = code b - 128" using split [OF b(1)] by simp_all
    moreover have "128 \<le> ?n" "?n < 2048" using that b(1) by linarith+
    ultimately show ?thesis using that b(2) by (simp add: utf8_enc_def)
  qed
  show "utf8_enc ((code a - 224) * 4096 + (code b - 128) * 64 + (code c - 128)) = [a, b, c]"
    if "cont c" "224 \<le> code a" "code a < 240" "code a = 224 \<longrightarrow> 160 \<le> code b"
  proof -
    have c: "code c - 128 < 64" "128 + (code c - 128) = code c" using that by (auto simp: cont_def)
    let ?m = "(code a - 224) * 64 + (code b - 128)"
    let ?n = "?m * 64 + (code c - 128)"
    have n: "(code a - 224) * 4096 + (code b - 128) * 64 + (code c - 128) = ?n" by (simp add: algebra_simps)
    have q: "?n div 64 = ?m" "?n mod 64 = code c - 128" by (rule split [OF c(1)])+
    have "?n div 4096 = code a - 224" using div_mult2_eq [of ?n 64 64] by (simp only: q split [OF b(1)]) simp
    moreover have "?n div 64 mod 64 = code b - 128" using q split [OF b(1)] by simp
    have ge: "32 \<le> x \<or> 1 \<le> y \<Longrightarrow> 2048 \<le> (y * 64 + x) * 64 + z" for x y z :: nat by auto
    have "32 \<le> code b - 128 \<or> 1 \<le> code a - 224" using that by linarith
    then have "2048 \<le> ?n" by (rule ge)
    have lt: "y < 16 \<Longrightarrow> x < 64 \<Longrightarrow> z < 64 \<Longrightarrow> (y * 64 + x) * 64 + z < 65536" for x y z :: nat by auto
    have "code a - 224 < 16" using that by linarith
    from lt [OF this b(1) c(1)] have "?n < 65536" .
    moreover have "224 + (code a - 224) = code a" using that by simp
    ultimately show ?thesis
      unfolding n utf8_enc_long(1) [OF \<open>2048 \<le> ?n\<close> \<open>?n < 65536\<close>] by (simp only: q split [OF b(1)] b(2) c(2) char_of_code)
  qed
  show "utf8_enc ((code a - 240) * 262144 + (code b - 128) * 4096 + (code c - 128) * 64 + (code d - 128)) = [a, b, c, d]"
    if "cont c" "cont d" "240 \<le> code a" "code a < 245" "code a = 240 \<longrightarrow> 144 \<le> code b"
  proof -
    have c: "code c - 128 < 64" "128 + (code c - 128) = code c" using that by (auto simp: cont_def)
    have d: "code d - 128 < 64" "128 + (code d - 128) = code d" using that by (auto simp: cont_def)
    let ?l = "(code a - 240) * 64 + (code b - 128)"
    let ?m = "?l * 64 + (code c - 128)"
    let ?n = "?m * 64 + (code d - 128)"
    have n: "(code a - 240) * 262144 + (code b - 128) * 4096 + (code c - 128) * 64 + (code d - 128) = ?n"
      by (simp add: algebra_simps)
    have q: "?n div 64 = ?m" "?n mod 64 = code d - 128" by (rule split [OF d(1)])+
    have q2: "?m div 64 = ?l" "?m mod 64 = code c - 128" by (rule split [OF c(1)])+
    have q3: "?l div 64 = code a - 240" "?l mod 64 = code b - 128" by (rule split [OF b(1)])+
    have r: "?n div 4096 = ?l" using div_mult2_eq [of ?n 64 64] by (simp only: q q2) simp
    have r2: "?n div 262144 = code a - 240" using div_mult2_eq [of ?n 4096 64] by (simp only: r q3) simp
    have ge: "16 \<le> x \<or> 1 \<le> y \<Longrightarrow> 65536 \<le> ((y * 64 + x) * 64 + z) * 64 + w" for x y z w :: nat by auto
    have "16 \<le> code b - 128 \<or> 1 \<le> code a - 240" using that by linarith
    then have "65536 \<le> ?n" by (rule ge)
    moreover have "240 + (code a - 240) = code a" using that by simp
    ultimately show ?thesis
      unfolding n utf8_enc_long(2) [OF \<open>65536 \<le> ?n\<close>] by (simp only: q q2 q3 r r2 b(2) c(2) d(2) char_of_code)
  qed
qed

lemma scan_json_text: "utf8_valid s \<Longrightarrow> scan_string (json_escape s @ quote # r) = Some (s, r)"
proof (induction s rule: utf8_valid.induct)
  case (2 a s)
  consider (one) "code a < 127" | (del) "code a = 127" | (two) "194 \<le> code a" "code a < 224"
    | (three) "224 \<le> code a" "code a < 240" | (four) "240 \<le> code a" "code a < 245"
    using "2.prems" by (fastforce split: if_splits)
  then show ?case
  proof cases
    case one
    with 2 show ?thesis by (simp add: scan_string_escape)
  next
    case del
    then have "utf8_enc 127 = [a]" by (simp add: utf8_enc_def char_of_eq_iff)
    with del 2 show ?thesis by (simp add: scan_string_u_escape)
  next
    case two
    with "2.prems" obtain b u where s: "s = b # u" "utf8_valid u" "cont b" by (simp split: list.splits)
    let ?n = "(code a - 192) * 64 + (code b - 128)"
    have "?n < 0xD800" using two s(3) by (auto simp: cont_def)
    with two 2 s show ?thesis by (simp add: scan_string_u_escape utf8_enc_bytes(1))
  next
    case three
    with "2.prems" obtain b c u where s: "s = b # c # u" "utf8_valid u" "cont b" "cont c"
      "code a = 224 \<longrightarrow> 160 \<le> code b" "code a = 237 \<longrightarrow> code b < 160" by (simp split: list.splits)
    let ?n = "(code a - 224) * 4096 + (code b - 128) * 64 + (code c - 128)"
    have lt: "?n < 65536" using three s(3,4) by (auto simp: cont_def)
    have sur: "?n < 0xD800 \<or> 0xDBFF < ?n"
    proof (cases "code a \<le> 237")
      case True
      then have "?n < 0xD800" using three s(3-6) by (cases "code a = 237") (auto simp: cont_def)
      then show ?thesis ..
    next
      case False
      then have "0xDBFF < ?n" using three by linarith
      then show ?thesis ..
    qed
    from three 2 s show ?thesis
      using scan_string_u_escape [OF lt sur] by (simp add: utf8_enc_bytes(2))
  next
    case four
    with "2.prems" obtain b c d u where s: "s = b # c # d # u" "utf8_valid u" "cont b" "cont c" "cont d"
      "code a = 240 \<longrightarrow> 144 \<le> code b" "code a = 244 \<longrightarrow> code b < 144" by (simp split: list.splits)
    let ?m = "(code a - 240) * 262144 + (code b - 128) * 4096 + (code c - 128) * 64 + (code d - 128)"
    have lo: "0x10000 \<le> ?m" using four s(3,6) by (auto simp: cont_def)
    have hi: "?m < 0x110000" using four s(3-7) by (cases "code a = 244") (auto simp: cont_def)
    have "?m - 0x10000 < 0x100000" using hi by linarith
    from scan_string_pair [OF this] four 2 s lo show ?thesis
      by (simp add: utf8_enc_bytes(3) Let_def)
  qed
qed simp

subsection \<open>Documents are read back\<close>

lemma skip_line_start [simp]: "skip_ws (line_start n @ s) = skip_ws s"
proof -
  have "skip_ws (replicate m (CHR '' '') @ s) = skip_ws s" for m by (induction m) simp_all
  then show ?thesis by (simp add: line_start_def)
qed

lemma delim_line_start [simp]: "delim (line_start n @ s)"
  by (simp add: line_start_def)

lemma reads_first:
  assumes "reads fl t v"
  shows "skip_ws (t @ s) = t @ s" and "\<exists>c u. t = c # u \<and> \<not> is_space c \<and> c \<noteq> CHR '']''"
  using assms by (cases t; auto simp: reads_def)+

lemma reads_json_string: "utf8_valid s \<Longrightarrow> reads fl (json_string s) (PStr s)"
  by (rule readsI) (simp_all add: json_string_def scan_json_text parse_value.simps)

lemma json_member_append: "json_member k t @ s = quote # json_escape k @ quote # CHR '':'' # CHR '' '' # t @ s"
  by (simp add: json_member_def json_string_def)

lemma parse_lines:
  assumes "ps \<noteq> []" and "\<forall>(t, v) \<in> set ps. reads fl t v"
    and "2 * length (join (CHR '','' # line_start m) (map fst ps)) + 2 \<le> f"
  shows "parse_elems fl f (join (CHR '','' # line_start m) (map fst ps) @ line_start n @ CHR '']'' # r)
    = Some (map snd ps, r)"
  using assms
proof (induction ps arbitrary: f)
  case (Cons p ps)
  obtain t v where p: "p = (t, v)" by (cases p)
  from Cons.prems have rd: "reads fl t v" by (simp add: p)
  obtain f' where f: "f = Suc f'" using Cons.prems(3) by (cases f) auto
  show ?case
  proof (cases "ps = []")
    case True
    with Cons.prems(3) readsD [OF rd, of f' "line_start n @ CHR '']'' # r"] show ?thesis by (simp add: p f parse_unfold)
  next
    case False
    let ?j = "join (CHR '','' # line_start m) (map fst ps)"
    let ?rest = "?j @ line_start n @ CHR '']'' # r"
    have j: "join (CHR '','' # line_start m) (map fst (p # ps)) = t @ CHR '','' # line_start m @ ?j"
      using False by (simp add: join_Cons p)
    obtain t' v' ps' where ps: "ps = (t', v') # ps'" using False by (cases ps) auto
    have "reads fl t' v'" using Cons.prems(2) ps by simp
    from reads_first(2) [OF this] have ws: "skip_ws ?rest = ?rest"
      unfolding ps by (cases ps') auto
    have "parse_value fl f' (t @ CHR '','' # line_start m @ ?rest) = Some (v, CHR '','' # line_start m @ ?rest)"
      by (rule readsD [OF rd]) (use Cons.prems(3) [unfolded j f] in simp_all)
    moreover have "parse_elems fl f' ?rest = Some (map snd ps, r)"
      by (rule Cons.IH) (use False Cons.prems(2) Cons.prems(3) [unfolded j f] in simp_all)
    ultimately show ?thesis unfolding j f by (simp add: p ws parse_unfold)
  qed
qed simp

abbreviation member_line :: "string \<times> string \<times> pyval \<Rightarrow> string" where
  "member_line \<equiv> \<lambda>(k, t, v). json_member k t"

lemma parse_member_lines:
  assumes "ps \<noteq> []" and "\<forall>(k, t, v) \<in> set ps. reads fl t v \<and> utf8_valid k"
    and "2 * length (join (CHR '','' # line_start m) (map member_line ps)) + 2 \<le> f"
  shows "parse_members fl f (join (CHR '','' # line_start m) (map member_line ps) @ line_start n @ CHR ''}'' # r)
    = Some (map (\<lambda>(k, t, v). (k, v)) ps, r)"
  using assms
proof (induction ps arbitrary: f)
  case (Cons p ps)
  obtain k t v where p: "p = (k, t, v)" by (cases p)
  from Cons.prems have rd: "reads fl t v" and k: "utf8_valid k" by (simp_all add: p)
  note ws = reads_first(1) [OF rd]
  obtain f' where f: "f = Suc f'" using Cons.prems(3) by (cases f) auto
  show ?case
  proof (cases "ps = []")
    case True
    with Cons.prems(3) have "2 * length t + 1 \<le> f'" by (simp add: p f json_member_def)
    from readsD [OF rd this, of "line_start n @ CHR ''}'' # r"] True show ?thesis
      by (simp add: p f json_member_append scan_json_text k ws parse_unfold)
  next
    case False
    let ?j = "join (CHR '','' # line_start m) (map member_line ps)"
    let ?rest = "?j @ line_start n @ CHR ''}'' # r"
    have j: "join (CHR '','' # line_start m) (map member_line (p # ps)) = json_member k t @ CHR '','' # line_start m @ ?j"
      using False by (simp add: join_Cons p)
    obtain k' t' v' ps' where ps: "ps = (k', t', v') # ps'" using False by (cases ps) auto
    have "\<exists>s. ?rest = quote # s" unfolding ps by (cases ps') (auto simp: json_member_append)
    then have ws': "skip_ws ?rest = ?rest" by auto
    have "parse_value fl f' (t @ CHR '','' # line_start m @ ?rest) = Some (v, CHR '','' # line_start m @ ?rest)"
      by (rule readsD [OF rd]) (use Cons.prems(3) [unfolded j f] in \<open>simp_all add: json_member_def\<close>)
    moreover have "parse_members fl f' ?rest = Some (map (\<lambda>(k, t, v). (k, v)) ps, r)"
      by (rule Cons.IH) (use False Cons.prems(2) Cons.prems(3) [unfolded j f] in simp_all)
    ultimately show ?thesis
      unfolding j f by (simp add: p json_member_append scan_json_text k ws ws' parse_unfold)
  qed
qed simp

lemma reads_list_block:
  assumes "\<forall>(t, v) \<in> set ps. reads fl t v"
  shows "reads fl (json_block n (CHR ''['') (CHR '']'') (map fst ps)) (PList (map snd ps))"
proof (rule readsI)
  let ?b = "json_block n (CHR ''['') (CHR '']'') (map fst ps)"
  fix f r assume f: "2 * length ?b \<le> f"
  show "parse_value fl (Suc f) (?b @ r) = Some (PList (map snd ps), r)"
  proof (cases "ps = []")
    case True
    then show ?thesis by (simp add: json_block_def quote_def parse_unfold)
  next
    case False
    let ?j = "join (CHR '','' # line_start (Suc n)) (map fst ps)"
    have "parse_elems fl f (?j @ line_start n @ CHR '']'' # r) = Some (map snd ps, r)"
      by (rule parse_lines) (use assms f False in \<open>auto simp: json_block_def\<close>)
    moreover obtain t v ps' where "ps = (t, v) # ps'" using False by (cases ps) auto
    with assms reads_first(2) [of fl t v] have "\<exists>c u. ?j = c # u \<and> \<not> is_space c \<and> c \<noteq> CHR '']''"
      by (cases ps') auto
    ultimately show ?thesis using False by (auto simp: json_block_def quote_def parse_unfold)
  qed
qed (simp_all add: json_block_def is_space_def)

lemma reads_dict_block:
  assumes "\<forall>(k, t, v) \<in> set ps. reads fl t v \<and> utf8_valid k" and "distinct (map fst ps)"
  shows "reads fl (json_block n (CHR ''{'') (CHR ''}'') (map member_line ps))
    (PDict (map (\<lambda>(k, t, v). (KStr k, v)) ps))"
proof (rule readsI)
  let ?b = "json_block n (CHR ''{'') (CHR ''}'') (map member_line ps)"
  fix f r assume f: "2 * length ?b \<le> f"
  show "parse_value fl (Suc f) (?b @ r) = Some (PDict (map (\<lambda>(k, t, v). (KStr k, v)) ps), r)"
  proof (cases "ps = []")
    case True
    then show ?thesis by (simp add: json_block_def quote_def parse_unfold)
  next
    case False
    let ?j = "join (CHR '','' # line_start (Suc n)) (map member_line ps)"
    have "parse_members fl f (?j @ line_start n @ CHR ''}'' # r) = Some (map (\<lambda>(k, t, v). (k, v)) ps, r)"
      by (rule parse_member_lines) (use assms f False in \<open>auto simp: json_block_def\<close>)
    moreover have "dict_of_pairs (map (\<lambda>(k, t, v). (k, v)) ps) = map (\<lambda>(k, t, v). (KStr k, v)) ps"
      using dict_of_pairs_distinct [of "map (\<lambda>(k, t, v). (k, v)) ps"] assms(2)
      by (simp add: case_prod_unfold comp_def)
    moreover obtain k t v ps' where "ps = (k, t, v) # ps'" using False by (cases ps) auto
    then have "\<exists>u. ?j = quote # u" by (cases ps') (auto simp: json_member_append json_member_def json_string_def)
    ultimately show ?thesis using False by (auto simp: json_block_def parse_unfold)
  qed
qed (simp_all add: json_block_def is_space_def)

lemma those_Some_iff: "those xs = Some ys \<longleftrightarrow> xs = map Some ys"
  by (induction xs arbitrary: ys) (auto split: option.splits)

lemma json_doc_reads: "json_doc n v = Some t \<Longrightarrow> readable v \<Longrightarrow> reads fl t (canon (\<lambda>s. s) v)"
proof (induction n v arbitrary: t rule: json_doc.induct)
  case (6 n vs)
  from "6.prems"(1) obtain ts where ts: "map (json_doc (Suc n)) vs = map Some ts"
    and t: "t = json_block n (CHR ''['') (CHR '']'') ts"
    by (auto simp: those_Some_iff)
  have len: "length ts = length vs" using arg_cong [OF ts, of length] by simp
  have item: "json_doc (Suc n) (vs ! i) = Some (ts ! i)" if "i < length vs" for i
    using arg_cong [OF ts, of "\<lambda>xs. xs ! i"] that len by simp
  have "\<forall>(t, v) \<in> set (zip ts (map (canon (\<lambda>s. s)) vs)). reads fl t v"
    using "6.IH" "6.prems"(2) item len by (auto simp: set_zip)
  from reads_list_block [OF this, of n] show ?case using len by (simp add: t)
next
  case (7 n kvs)
  let ?base = "sorted_members (\<lambda>s. s) kvs"
  from "7.prems"(1) have str: "KOther \<notin> fst ` set kvs" by (auto split: if_splits)
  have sm: "sorted_members (\<lambda>s. s) (map (\<lambda>(k, v). (k, json_doc (Suc n) v)) kvs)
      = map (\<lambda>(k, v). (k, json_doc (Suc n) v)) ?base" by (rule sorted_members_map)
  from "7.prems"(1) str obtain ts where "those (map (\<lambda>(k, t). map_option (json_member k) t)
        (map (\<lambda>(k, v). (k, json_doc (Suc n) v)) ?base)) = Some ts"
    and t: "t = json_block n (CHR ''{'') (CHR ''}'') ts"
    unfolding json_doc.simps sm by (auto simp del: map_map)
  then have ts: "map (\<lambda>(k, v). map_option (json_member k) (json_doc (Suc n) v)) ?base = map Some ts"
    by (simp add: those_Some_iff comp_def case_prod_unfold)
  let ?ps = "map (\<lambda>(k, v). (k, the (json_doc (Suc n) v), canon (\<lambda>s. s) v)) ?base"
  have all: "json_doc (Suc n) v \<noteq> None" if "(k, v) \<in> set ?base" for k v
  proof -
    have "map_option (json_member k) (json_doc (Suc n) v) \<in> set (map Some ts)"
      unfolding ts [symmetric] using that by force
    then show ?thesis by auto
  qed
  have "map Some ts = map Some (map member_line ?ps)"
    unfolding ts [symmetric] map_map
  proof (rule map_cong [OF refl])
    fix p assume p: "p \<in> set ?base"
    obtain k v where "p = (k, v)" by (cases p)
    with all [of k v] p show "(case p of (k, v) \<Rightarrow> map_option (json_member k) (json_doc (Suc n) v))
        = (Some \<circ> (member_line \<circ> (\<lambda>(k, v). (k, the (json_doc (Suc n) v), canon (\<lambda>s. s) v)))) p" by auto
  qed
  then have ts': "ts = map member_line ?ps" by (simp only: inj_map_eq_map [OF inj_Some])
  have inkvs: "(KStr k, v) \<in> set kvs" if "(k, v) \<in> set ?base" for k v
  proof -
    from that obtain k' where "(k', v) \<in> set kvs" "k = key_str k'" by (auto simp: set_sorted_members)
    with str show ?thesis by (cases k') force+
  qed
  have "\<forall>(k, t, v) \<in> set ?ps. reads fl t v \<and> utf8_valid k"
  proof clarify
    fix k t v assume "(k, t, v) \<in> set ?ps"
    then obtain w where w: "(k, w) \<in> set ?base" "t = the (json_doc (Suc n) w)" "v = canon (\<lambda>s. s) w" by auto
    have "utf8_valid k" "readable w" using inkvs [OF w(1)] "7.prems"(2) by force+
    with "7.IH" [OF str inkvs [OF w(1)] refl] all [OF w(1)] w show "reads fl t v \<and> utf8_valid k" by auto
  qed
  moreover have "distinct (map fst ?ps)"
  proof -
    have "inj_on key_str (fst ` set kvs)"
    proof (rule inj_onI)
      fix x y assume "x \<in> fst ` set kvs" "y \<in> fst ` set kvs" "key_str x = key_str y"
      with str show "x = y" by (cases x; cases y) auto
    qed
    moreover have "distinct (map fst kvs)" using "7.prems"(2) by simp
    ultimately have "distinct (map key_str (map fst kvs))" by (simp only: distinct_map set_map)
    then have "distinct (map fst (map (\<lambda>(k, v). (key_str k, v)) kvs))"
      by (simp add: case_prod_unfold comp_def)
    from distinct_sorted_members [OF this] show ?thesis by (simp add: case_prod_unfold comp_def)
  qed
  ultimately have "reads fl (json_block n (CHR ''{'') (CHR ''}'') (map member_line ?ps))
      (PDict (map (\<lambda>(k, t, v). (KStr k, v)) ?ps))" by (rule reads_dict_block)
  then show ?case unfolding t ts' canon_dict by (simp add: case_prod_unfold comp_def)
qed (auto simp: reads_literals reads_int reads_json_string)

lemma json_doc_total: "readable v \<Longrightarrow> \<exists>t. json_doc n v = Some t"
proof (induction n v rule: json_doc.induct)
  case (6 n vs)
  then have "\<exists>t. those (map (json_doc (Suc n)) vs) = Some t"
    by (induction vs) (auto split: option.splits)
  then show ?case by auto
next
  case (7 n kvs)
  from "7.prems" have str: "KOther \<notin> fst ` set kvs" by force
  let ?base = "sorted_members (\<lambda>s. s) kvs"
  have ex: "\<exists>t. json_doc (Suc n) v = Some t" if "(k, v) \<in> set kvs" for k v
    using "7.IH" [OF str that refl] "7.prems" that by force
  have "\<exists>t. those (map (\<lambda>(k, v). map_option (json_member k) (json_doc (Suc n) v)) b) = Some t"
    if "snd ` set b \<subseteq> snd ` set kvs" for b
    using that ex by (induction b) (force split: option.splits)+
  moreover have "snd ` set ?base \<subseteq> snd ` set kvs" by (force simp: set_sorted_members)
  ultimately have "\<exists>t. those (map (\<lambda>(k, v). map_option (json_member k) (json_doc (Suc n) v)) ?base) = Some t" by blast
  then show ?case using str unfolding json_doc.simps sorted_members_map by (simp add: comp_def case_prod_unfold)
qed simp_all

lemma loads_dumps_sorted:
  assumes "readable v"
  obtains t where "dumps_sorted v = Some t" and "json_loads fl t = Some (canon (\<lambda>s. s) v)"
  using json_doc_total [OF assms, of 0] json_doc_reads [OF _ assms, of 0 _ fl] json_loads_reads
  by (auto simp: dumps_sorted_def)

end
