(* ===== verification/Rootknot.thy ===== *)
theory Rootknot
  imports Journal
begin

section \<open>Rootknots: the signed provenance of an artifact\<close>

text \<open>
  The model of \<open>src/ract/core/rootknot.py\<close>: the value \<open>Rootknot\<close> with its constructor's checks,
  its canonical bytes, signing, the two attestations, the three verifications and the factories
  of the four schema versions.

  Bytes are strings. Four fields, and a gate's handshake id, hold whatever JSON value a sidecar
  held, since the reader does not coerce them; they are of type \<open>pyval\<close>. Ed25519 is the
  parameter \<open>ed_verify\<close> (message, signature, public key), and a signer is a function on the
  message.
\<close>

subsection \<open>The value\<close>

definition zero_digest :: string where
  "zero_digest = replicate 32 (CHR 0x00)"

definition known_schema_versions :: "int list" where
  "known_schema_versions = [1, 2, 3, 4]"

record gate_result =
  gr_id :: string
  gr_passed :: bool
  gr_evidence :: string
  gr_handshake :: pyval

record generator_ref =
  gen_model_name :: pyval
  gen_model_version :: pyval
  gen_session_id :: string
  gen_public_key_id :: string

record rootknot =
  rk_plan_id :: string
  rk_step_id :: string
  rk_assumption_digest :: string
  rk_generator :: generator_ref
  rk_parent_digests :: "string list"
  rk_workspace_path :: pyval
  rk_artifact_digest :: string
  rk_created_at_ns :: pyval
  rk_generator_signature :: string
  rk_environment_signature :: string
  rk_acceptance_suite_digest :: string
  rk_predicate_results :: "string list"
  rk_manifest_digest :: string
  rk_antilazy_signature :: string
  rk_gate_results :: "gate_result list"
  rk_reversal_taint :: string
  rk_schema_version :: int
  rk_retrieval_attestation :: "string option"
  rk_workspace_digest :: "string option"
  rk_prompt_digest :: "string option"
  rk_run_id :: string

text \<open>
  What the constructor and the methods raise: \<open>RootknotSchemaViolation\<close> with the version and
  the missing fields, \<open>ValueError\<close> with its subject, an error of the canonical encoder.
\<close>

datatype knot_error =
    SchemaViolation int "string list"
  | KnotValueError string
  | EncodeError jcs_error

text \<open>\<open>not d or d == _ZERO_DIGEST\<close>.\<close>

definition digest_unset :: "string option \<Rightarrow> bool" where
  "digest_unset d \<longleftrightarrow> d = None \<or> d = Some [] \<or> d = Some zero_digest"

definition missing_v4 :: "rootknot \<Rightarrow> string list" where
  "missing_v4 k =
    (if digest_unset (rk_workspace_digest k) then [''workspace_digest''] else []) @
    (if digest_unset (rk_prompt_digest k) then [''prompt_digest''] else []) @
    (if rk_run_id k = [] then [''run_id''] else [])"

text \<open>\<open>__post_init__\<close>: every construction of a knot goes through it.\<close>

definition knot_post_init :: "rootknot \<Rightarrow> knot_error + rootknot" where
  "knot_post_init k =
    (if rk_schema_version k \<notin> set known_schema_versions then Inl (SchemaViolation (rk_schema_version k) [])
     else if rk_schema_version k = 4 \<and> missing_v4 k \<noteq> [] then Inl (SchemaViolation 4 (missing_v4 k))
     else Inr k)"

subsection \<open>Canonical bytes\<close>

definition canonical_dict :: "gate_result \<Rightarrow> pyval" where
  "canonical_dict g =
    PDict ([(KStr ''gate_id'', PStr (gr_id g)), (KStr ''passed'', PBool (gr_passed g)),
       (KStr ''evidence_digest'', PStr (hex (gr_evidence g)))] @
      (if gr_handshake g = PNone then [] else [(KStr ''handshake_id'', gr_handshake g)]))"

definition generator_dict :: "generator_ref \<Rightarrow> pyval" where
  "generator_dict g =
    PDict [(KStr ''model_name'', gen_model_name g), (KStr ''model_version'', gen_model_version g),
      (KStr ''session_id'', PStr (hex (gen_session_id g))), (KStr ''public_key_id'', PStr (hex (gen_public_key_id g)))]"

abbreviation hex_list :: "string list \<Rightarrow> pyval" where
  "hex_list ds \<equiv> PList (map (\<lambda>d. PStr (hex d)) ds)"

definition base_members :: "rootknot \<Rightarrow> payload" where
  "base_members k =
    [(KStr ''plan_id'', PStr (hex (rk_plan_id k))),
     (KStr ''step_id'', PStr (hex (rk_step_id k))),
     (KStr ''assumption_digest'', PStr (hex (rk_assumption_digest k))),
     (KStr ''generator'', generator_dict (rk_generator k)),
     (KStr ''parent_digests'', hex_list (rk_parent_digests k)),
     (KStr ''workspace_path'', rk_workspace_path k),
     (KStr ''artifact_digest'', PStr (hex (rk_artifact_digest k))),
     (KStr ''created_at_ns'', rk_created_at_ns k)]"

definition optional_hex :: "string \<Rightarrow> string option \<Rightarrow> payload" where
  "optional_hex n d = (case d of None \<Rightarrow> [] | Some x \<Rightarrow> [(KStr n, PStr (hex x))])"

definition knot_members :: "rootknot \<Rightarrow> payload" where
  "knot_members k = base_members k @
    (if 2 \<le> rk_schema_version k then
       [(KStr ''acceptance_suite_digest'', PStr (hex (rk_acceptance_suite_digest k))),
        (KStr ''predicate_results'', hex_list (rk_predicate_results k)),
        (KStr ''manifest_digest'', PStr (hex (rk_manifest_digest k))),
        (KStr ''schema_version'', PInt (rk_schema_version k))]
     else []) @
    (if 3 \<le> rk_schema_version k then
       [(KStr ''gate_results'', PList (map canonical_dict (rk_gate_results k))),
        (KStr ''reversal_taint'', PStr (rk_reversal_taint k))]
     else []) @
    optional_hex ''retrieval_attestation'' (rk_retrieval_attestation k) @
    optional_hex ''workspace_digest'' (rk_workspace_digest k) @
    optional_hex ''prompt_digest'' (rk_prompt_digest k) @
    (if rk_run_id k \<noteq> [] then [(KStr ''run_id'', PStr (rk_run_id k))] else [])"

definition canonical_bytes :: "(string \<Rightarrow> string) \<Rightarrow> rootknot \<Rightarrow> knot_error + string" where
  "canonical_bytes nfc k = (case dumps_jcs nfc (PDict (knot_members k)) of Inl e \<Rightarrow> Inl (EncodeError e) | Inr t \<Rightarrow> Inr t)"

subsection \<open>Signing and verifying\<close>

type_synonym signer = "string \<Rightarrow> string"

definition sign_knot :: "(string \<Rightarrow> string) \<Rightarrow> signer \<Rightarrow> rootknot \<Rightarrow> knot_error + rootknot" where
  "sign_knot nfc key k =
    rbind (canonical_bytes nfc k) (\<lambda>t. knot_post_init (k\<lparr>rk_generator_signature := key t\<rparr>))"

text \<open>
  \<open>attest_environment\<close> offers the signed knot to the manifest ledger bound at the time, the
  state transformer \<open>observe\<close>; nothing it raises reaches the caller.
\<close>

definition attest_environment ::
    "(string \<Rightarrow> string) \<Rightarrow> (rootknot \<Rightarrow> 'l \<Rightarrow> 'l) \<Rightarrow> signer \<Rightarrow> rootknot \<Rightarrow> 'l \<Rightarrow> (knot_error + rootknot) \<times> 'l" where
  "attest_environment nfc observe key k ledger =
    (case rbind (canonical_bytes nfc k) (\<lambda>t. knot_post_init (k\<lparr>rk_environment_signature := key t\<rparr>)) of
       Inl e \<Rightarrow> (Inl e, ledger)
     | Inr signed \<Rightarrow> (Inr signed, observe signed ledger))"

definition attest_antilazy :: "(string \<Rightarrow> string) \<Rightarrow> signer \<Rightarrow> rootknot \<Rightarrow> knot_error + rootknot" where
  "attest_antilazy nfc key k =
    (if rk_schema_version k < 3 then Inl (KnotValueError ''schema_version'')
     else rbind (canonical_bytes nfc k) (\<lambda>t. knot_post_init (k\<lparr>rk_antilazy_signature := key t\<rparr>)))"

type_synonym ed_verifier = "string \<Rightarrow> string \<Rightarrow> string \<Rightarrow> bool"

definition verify_knot :: "(string \<Rightarrow> string) \<Rightarrow> ed_verifier \<Rightarrow> string \<Rightarrow> rootknot \<Rightarrow> knot_error + bool" where
  "verify_knot nfc ed pubkey k =
    rbind (canonical_bytes nfc k) (\<lambda>t. Inr (ed t (rk_generator_signature k) pubkey))"

definition verify_environment :: "(string \<Rightarrow> string) \<Rightarrow> ed_verifier \<Rightarrow> string \<Rightarrow> rootknot \<Rightarrow> knot_error + bool" where
  "verify_environment nfc ed pubkey k =
    (if rk_environment_signature k = [] then Inr False
     else rbind (canonical_bytes nfc k) (\<lambda>t. Inr (ed t (rk_environment_signature k) pubkey)))"

definition verify_antilazy :: "(string \<Rightarrow> string) \<Rightarrow> ed_verifier \<Rightarrow> string \<Rightarrow> rootknot \<Rightarrow> knot_error + bool" where
  "verify_antilazy nfc ed pubkey k =
    (if rk_antilazy_signature k = [] then Inr False
     else rbind (canonical_bytes nfc k) (\<lambda>t. Inr (ed t (rk_antilazy_signature k) pubkey)))"

subsection \<open>The factories\<close>

text \<open>
  A session key is its public key and its signing function; \<open>public_key_id\<close> is the digest of
  the former. The arguments the four factories share are a record: the ids when the caller gives
  them, and the fresh ids and the time the factory would otherwise take.
\<close>

record session_key =
  key_public :: string
  key_sign :: signer

definition public_key_id :: "(string \<Rightarrow> string) \<Rightarrow> session_key \<Rightarrow> string" where
  "public_key_id sha key = sha (key_public key)"

record mint_args =
  ma_workspace_path :: string
  ma_artifact_digest :: string
  ma_assumption_digest :: string
  ma_model_name :: string
  ma_model_version :: string
  ma_plan_id :: "string option"
  ma_step_id :: "string option"
  ma_parent_digests :: "string list"
  ma_fresh_plan_id :: string
  ma_fresh_step_id :: string
  ma_now_ns :: int

definition given_or :: "string option \<Rightarrow> string \<Rightarrow> string" where
  "given_or x fresh = (case x of None \<Rightarrow> fresh | Some i \<Rightarrow> if i = [] then fresh else i)"

definition make_generator :: "(string \<Rightarrow> string) \<Rightarrow> session_key \<Rightarrow> mint_args \<Rightarrow> generator_ref" where
  "make_generator sha key a =
    \<lparr>gen_model_name = PStr (ma_model_name a), gen_model_version = PStr (ma_model_version a),
     gen_session_id = take 16 (public_key_id sha key), gen_public_key_id = public_key_id sha key\<rparr>"

definition unsigned_v1 :: "(string \<Rightarrow> string) \<Rightarrow> session_key \<Rightarrow> mint_args \<Rightarrow> rootknot" where
  "unsigned_v1 sha key a =
    \<lparr>rk_plan_id = given_or (ma_plan_id a) (ma_fresh_plan_id a), rk_step_id = given_or (ma_step_id a) (ma_fresh_step_id a),
     rk_assumption_digest = ma_assumption_digest a, rk_generator = make_generator sha key a,
     rk_parent_digests = ma_parent_digests a, rk_workspace_path = PStr (ma_workspace_path a),
     rk_artifact_digest = ma_artifact_digest a, rk_created_at_ns = PInt (ma_now_ns a),
     rk_generator_signature = [], rk_environment_signature = [], rk_acceptance_suite_digest = zero_digest,
     rk_predicate_results = [], rk_manifest_digest = zero_digest, rk_antilazy_signature = [],
     rk_gate_results = [], rk_reversal_taint = ''clean'', rk_schema_version = 1,
     rk_retrieval_attestation = None, rk_workspace_digest = None, rk_prompt_digest = None, rk_run_id = []\<rparr>"

definition make_rootknot :: "(string \<Rightarrow> string) \<Rightarrow> (string \<Rightarrow> string) \<Rightarrow> session_key \<Rightarrow> mint_args \<Rightarrow> knot_error + rootknot" where
  "make_rootknot nfc sha key a = rbind (knot_post_init (unsigned_v1 sha key a)) (sign_knot nfc (key_sign key))"

record attest_args =
  aa_suite :: string
  aa_predicates :: "string list"
  aa_manifest :: string

definition with_environment :: "attest_args \<Rightarrow> rootknot \<Rightarrow> rootknot" where
  "with_environment e k = k\<lparr>rk_acceptance_suite_digest := aa_suite e, rk_predicate_results := aa_predicates e,
     rk_manifest_digest := aa_manifest e\<rparr>"

text \<open>The chain \<open>unsigned.sign(key).attest_environment(sandbox_signer)\<close>.\<close>

definition sign_and_attest ::
    "(string \<Rightarrow> string) \<Rightarrow> (rootknot \<Rightarrow> 'l \<Rightarrow> 'l) \<Rightarrow> session_key \<Rightarrow> signer \<Rightarrow> rootknot \<Rightarrow> 'l \<Rightarrow> (knot_error + rootknot) \<times> 'l" where
  "sign_and_attest nfc observe key sandbox k ledger =
    (case rbind (knot_post_init k) (sign_knot nfc (key_sign key)) of
       Inl e \<Rightarrow> (Inl e, ledger)
     | Inr k' \<Rightarrow> attest_environment nfc observe sandbox k' ledger)"

definition make_rootknot_v2 ::
    "(string \<Rightarrow> string) \<Rightarrow> (string \<Rightarrow> string) \<Rightarrow> (rootknot \<Rightarrow> 'l \<Rightarrow> 'l) \<Rightarrow> session_key \<Rightarrow> signer \<Rightarrow> mint_args \<Rightarrow> attest_args \<Rightarrow>
     'l \<Rightarrow> (knot_error + rootknot) \<times> 'l" where
  "make_rootknot_v2 nfc sha observe key sandbox a e ledger =
    sign_and_attest nfc observe key sandbox ((with_environment e (unsigned_v1 sha key a))\<lparr>rk_schema_version := 2\<rparr>) ledger"

definition triple_attest ::
    "(string \<Rightarrow> string) \<Rightarrow> (rootknot \<Rightarrow> 'l \<Rightarrow> 'l) \<Rightarrow> session_key \<Rightarrow> signer \<Rightarrow> signer \<Rightarrow> rootknot \<Rightarrow> 'l \<Rightarrow> (knot_error + rootknot) \<times> 'l" where
  "triple_attest nfc observe key sandbox alm k ledger =
    (case sign_and_attest nfc observe key sandbox k ledger of
       (r, ledger') \<Rightarrow> (rbind r (attest_antilazy nfc alm), ledger'))"

definition unsigned_v3 ::
    "(string \<Rightarrow> string) \<Rightarrow> session_key \<Rightarrow> mint_args \<Rightarrow> attest_args \<Rightarrow> gate_result list \<Rightarrow> string \<Rightarrow> string option \<Rightarrow> rootknot" where
  "unsigned_v3 sha key a e gates taint retrieval =
    (with_environment e (unsigned_v1 sha key a))\<lparr>rk_gate_results := gates, rk_reversal_taint := taint,
       rk_schema_version := 3, rk_retrieval_attestation := retrieval\<rparr>"

definition make_rootknot_v3 ::
    "(string \<Rightarrow> string) \<Rightarrow> (string \<Rightarrow> string) \<Rightarrow> (rootknot \<Rightarrow> 'l \<Rightarrow> 'l) \<Rightarrow> session_key \<Rightarrow> signer \<Rightarrow> signer \<Rightarrow> mint_args \<Rightarrow> attest_args \<Rightarrow>
     gate_result list \<Rightarrow> string \<Rightarrow> string option \<Rightarrow> 'l \<Rightarrow> (knot_error + rootknot) \<times> 'l" where
  "make_rootknot_v3 nfc sha observe key sandbox alm a e gates taint retrieval ledger =
    triple_attest nfc observe key sandbox alm (unsigned_v3 sha key a e gates taint retrieval) ledger"

text \<open>
  \<open>make_rootknot_v4\<close>: the run id is the argument, or the ambient one. An argument \<open>None\<close> for a
  digest is refused before the knot is built.
\<close>

definition unsigned_v4 ::
    "(string \<Rightarrow> string) \<Rightarrow> session_key \<Rightarrow> mint_args \<Rightarrow> attest_args \<Rightarrow> gate_result list \<Rightarrow> string \<Rightarrow> string option \<Rightarrow>
     string \<Rightarrow> string \<Rightarrow> string \<Rightarrow> rootknot" where
  "unsigned_v4 sha key a e gates taint retrieval wd pd run =
    (unsigned_v3 sha key a e gates taint retrieval)\<lparr>rk_schema_version := 4, rk_workspace_digest := Some wd,
       rk_prompt_digest := Some pd, rk_run_id := run\<rparr>"

definition make_rootknot_v4 ::
    "(string \<Rightarrow> string) \<Rightarrow> (string \<Rightarrow> string) \<Rightarrow> (rootknot \<Rightarrow> 'l \<Rightarrow> 'l) \<Rightarrow> session_key \<Rightarrow> signer \<Rightarrow> signer \<Rightarrow> mint_args \<Rightarrow> attest_args \<Rightarrow>
     gate_result list \<Rightarrow> string \<Rightarrow> string option \<Rightarrow> string option \<Rightarrow> string option \<Rightarrow> string option \<Rightarrow> string option \<Rightarrow>
     'l \<Rightarrow> (knot_error + rootknot) \<times> 'l" where
  "make_rootknot_v4 nfc sha observe key sandbox alm a e gates taint retrieval workspace prompt run_id ambient ledger =
    (case workspace of
       None \<Rightarrow> (Inl (KnotValueError ''workspace_digest''), ledger)
     | Some wd \<Rightarrow>
         (case prompt of
            None \<Rightarrow> (Inl (KnotValueError ''prompt_digest''), ledger)
          | Some pd \<Rightarrow>
              let run = given_or run_id (given_or ambient []) in
              if run = [] then (Inl (KnotValueError ''run_id''), ledger)
              else triple_attest nfc observe key sandbox alm (unsigned_v4 sha key a e gates taint retrieval wd pd run) ledger))"

definition bundle_digest :: "(string \<Rightarrow> string) \<Rightarrow> string \<Rightarrow> string" where
  "bundle_digest sha bundle = sha bundle"

subsection \<open>What the bytes say\<close>

text \<open>
  \<open>attested\<close> is the part of a knot its bytes carry: without the signatures, with text in NFC,
  and with the fields the version's payload leaves out at their defaults.
\<close>

definition attested_gate :: "(string \<Rightarrow> string) \<Rightarrow> gate_result \<Rightarrow> gate_result" where
  "attested_gate nfc g = g\<lparr>gr_id := nfc (gr_id g), gr_handshake := canon nfc (gr_handshake g)\<rparr>"

definition attested_generator :: "(string \<Rightarrow> string) \<Rightarrow> generator_ref \<Rightarrow> generator_ref" where
  "attested_generator nfc g =
    g\<lparr>gen_model_name := canon nfc (gen_model_name g), gen_model_version := canon nfc (gen_model_version g)\<rparr>"

definition attested :: "(string \<Rightarrow> string) \<Rightarrow> rootknot \<Rightarrow> rootknot" where
  "attested nfc k =
    (let v = rk_schema_version k in
     \<lparr>rk_plan_id = rk_plan_id k, rk_step_id = rk_step_id k, rk_assumption_digest = rk_assumption_digest k,
      rk_generator = attested_generator nfc (rk_generator k), rk_parent_digests = rk_parent_digests k,
      rk_workspace_path = canon nfc (rk_workspace_path k), rk_artifact_digest = rk_artifact_digest k,
      rk_created_at_ns = canon nfc (rk_created_at_ns k), rk_generator_signature = [], rk_environment_signature = [],
      rk_acceptance_suite_digest = (if 2 \<le> v then rk_acceptance_suite_digest k else zero_digest),
      rk_predicate_results = (if 2 \<le> v then rk_predicate_results k else []),
      rk_manifest_digest = (if 2 \<le> v then rk_manifest_digest k else zero_digest), rk_antilazy_signature = [],
      rk_gate_results = (if 3 \<le> v then map (attested_gate nfc) (rk_gate_results k) else []),
      rk_reversal_taint = (if 3 \<le> v then nfc (rk_reversal_taint k) else ''clean''), rk_schema_version = v,
      rk_retrieval_attestation = rk_retrieval_attestation k, rk_workspace_digest = rk_workspace_digest k,
      rk_prompt_digest = rk_prompt_digest k, rk_run_id = nfc (rk_run_id k)\<rparr>)"

definition plain_keys :: "payload \<Rightarrow> bool" where
  "plain_keys kvs \<longleftrightarrow> (\<forall>kv \<in> set kvs. fst kv \<noteq> KOther \<and> isascii (key_str (fst kv)))"

lemma canon_lookup:
  assumes "normalises nfc" and "plain_keys kvs" and "distinct (map fst kvs)"
  shows "map_of (map (\<lambda>(k, v). (KStr k, canon nfc v)) (sorted_members nfc kvs)) k = map_option (canon nfc) (map_of kvs k)"
proof -
  let ?xs = "map (\<lambda>(k, v). (KStr k, canon nfc v)) (sorted_members nfc kvs)"
  let ?ys = "map (\<lambda>(k, v). (k, canon nfc v)) kvs"
  have key: "KStr (nfc (key_str q)) = q" if "q \<in> fst ` set kvs" for q
    using that assms(1,2) by (cases q) (force simp: plain_keys_def normalises_def)+
  have "set ?xs = set ?ys" using key by (force simp: set_sorted_members image_image case_prod_unfold)
  moreover have "distinct (map fst (map (\<lambda>(k, v). (nfc (key_str k), v)) kvs))"
  proof -
    have "inj_on (\<lambda>q. nfc (key_str q)) (set (map fst kvs))"
      using key by (intro inj_onI) (metis set_map)
    with assms(3) have "distinct (map (\<lambda>q. nfc (key_str q)) (map fst kvs))" by (simp only: distinct_map)
    then show ?thesis by (simp add: comp_def case_prod_unfold)
  qed
  then have "distinct (map fst ?xs)"
    using distinct_sorted_members [of nfc kvs] by (simp add: distinct_map comp_def case_prod_unfold inj_on_def)
  moreover have "distinct (map fst ?ys)" using assms(3) by (simp add: comp_def case_prod_unfold)
  ultimately have "map_of ?xs = map_of ?ys" using map_of_inject_set by blast
  then show ?thesis by (simp add: map_of_map)
qed

lemma canon_members:
  assumes "canon nfc (PDict kvs) = canon nfc (PDict kvs')" and "normalises nfc"
    and "plain_keys kvs" "distinct (map fst kvs)" and "plain_keys kvs'" "distinct (map fst kvs')"
  shows "map_option (canon nfc) (map_of kvs k) = map_option (canon nfc) (map_of kvs' k)"
  using canon_lookup [OF assms(2,3,4), of k] canon_lookup [OF assms(2,5,6), of k] assms(1)
  unfolding canon_dict by simp

lemma gate_keys: "plain_keys [(KStr ''gate_id'', a), (KStr ''passed'', b), (KStr ''evidence_digest'', c)]"
  "plain_keys [(KStr ''gate_id'', a), (KStr ''passed'', b), (KStr ''evidence_digest'', c), (KStr ''handshake_id'', d)]"
  by (simp_all add: plain_keys_def isascii_def)

lemma canonical_dict_bind:
  assumes "canon nfc (canonical_dict g) = canon nfc (canonical_dict g')" and "normalises nfc"
  shows "attested_gate nfc g = attested_gate nfc g'"
proof -
  let ?m = "\<lambda>g. [(KStr ''gate_id'', PStr (gr_id g)), (KStr ''passed'', PBool (gr_passed g)),
       (KStr ''evidence_digest'', PStr (hex (gr_evidence g)))] @
      (if gr_handshake g = PNone then [] else [(KStr ''handshake_id'', gr_handshake g)])"
  have ok: "plain_keys (?m g)" "distinct (map fst (?m g))" for g by (simp_all add: gate_keys)
  have eq: "map_option (canon nfc) (map_of (?m g) k) = map_option (canon nfc) (map_of (?m g') k)" for k
    by (rule canon_members [OF _ assms(2) ok ok]) (use assms(1) in \<open>simp add: canonical_dict_def\<close>)
  have "nfc (gr_id g) = nfc (gr_id g')" "gr_passed g = gr_passed g'" "gr_evidence g = gr_evidence g'"
    using eq [of "KStr ''gate_id''"] eq [of "KStr ''passed''"] eq [of "KStr ''evidence_digest''"] assms(2)
      by (simp_all add: normalises_def isascii_hex)
  moreover have "canon nfc (gr_handshake g) = canon nfc (gr_handshake g')"
    using eq [of "KStr ''handshake_id''"] by (simp split: if_splits)
  ultimately show ?thesis by (simp add: attested_gate_def)
qed

lemma generator_dict_bind:
  assumes "canon nfc (generator_dict g) = canon nfc (generator_dict g')" and "normalises nfc"
  shows "attested_generator nfc g = attested_generator nfc g'"
proof -
  let ?m = "\<lambda>g. [(KStr ''model_name'', gen_model_name g), (KStr ''model_version'', gen_model_version g),
      (KStr ''session_id'', PStr (hex (gen_session_id g))), (KStr ''public_key_id'', PStr (hex (gen_public_key_id g)))]"
  have ok: "plain_keys (?m g)" "distinct (map fst (?m g))" for g by (simp_all add: plain_keys_def isascii_def)
  have eq: "map_option (canon nfc) (map_of (?m g) k) = map_option (canon nfc) (map_of (?m g') k)" for k
    by (rule canon_members [OF _ assms(2) ok ok]) (use assms(1) in \<open>simp add: generator_dict_def\<close>)
  show ?thesis
    using eq [of "KStr ''model_name''"] eq [of "KStr ''model_version''"] eq [of "KStr ''session_id''"]
      eq [of "KStr ''public_key_id''"] assms(2)
    by (simp add: attested_generator_def normalises_def isascii_hex)
qed

lemma nfc_hex [simp]: "normalises nfc \<Longrightarrow> nfc (hex s) = hex s"
  by (simp add: normalises_def isascii_hex)

lemma canon_hexes: "normalises nfc \<Longrightarrow> canon nfc (hex_list ds) = hex_list ds"
  by (simp add: comp_def)

lemma map_PStr_hex_inject [simp]: "map (\<lambda>d. PStr (hex d)) ds = map (\<lambda>d. PStr (hex d)) ds' \<longleftrightarrow> ds = ds'"
  by (rule inj_map_eq_map) (simp add: inj_def)

lemma optional_hex_simps [simp]:
  "map fst (optional_hex n d) = (if d = None then [] else [KStr n])"
  "map_of (optional_hex n d) (KStr m) = (if m = n then map_option (\<lambda>x. PStr (hex x)) d else None)"
  by (cases d; simp add: optional_hex_def)+

text \<open>The names of the members, and the value under each.\<close>

lemma knot_key_list:
  "map fst (knot_members k) = map KStr
    ([''plan_id'', ''step_id'', ''assumption_digest'', ''generator'', ''parent_digests'', ''workspace_path'',
      ''artifact_digest'', ''created_at_ns''] @
     (if 2 \<le> rk_schema_version k then [''acceptance_suite_digest'', ''predicate_results'', ''manifest_digest'', ''schema_version''] else []) @
     (if 3 \<le> rk_schema_version k then [''gate_results'', ''reversal_taint''] else []) @
     (if rk_retrieval_attestation k = None then [] else [''retrieval_attestation'']) @
     (if rk_workspace_digest k = None then [] else [''workspace_digest'']) @
     (if rk_prompt_digest k = None then [] else [''prompt_digest'']) @
     (if rk_run_id k = [] then [] else [''run_id'']))"
  by (simp add: knot_members_def base_members_def)

lemma knot_names_distinct:
  "distinct ([''plan_id'', ''step_id'', ''assumption_digest'', ''generator'', ''parent_digests'', ''workspace_path'',
      ''artifact_digest'', ''created_at_ns''] @
    [''acceptance_suite_digest'', ''predicate_results'', ''manifest_digest'', ''schema_version''] @
    [''gate_results'', ''reversal_taint''] @ [''retrieval_attestation''] @ [''workspace_digest''] @ [''prompt_digest''] @ [''run_id''])"
  by simp

lemma distinct_optional:
  assumes "distinct (a @ b @ c @ d @ e @ f @ g)" and "set b' \<subseteq> set b" "set c' \<subseteq> set c" "set d' \<subseteq> set d"
    "set e' \<subseteq> set e" "set f' \<subseteq> set f" "set g' \<subseteq> set g"
    and "distinct b'" "distinct c'" "distinct d'" "distinct e'" "distinct f'" "distinct g'"
  shows "distinct (a @ b' @ c' @ d' @ e' @ f' @ g')"
  using assms by (simp add: disjoint_iff) blast

lemma knot_keys: "plain_keys (knot_members k)" "distinct (map fst (knot_members k))"
proof -
  have eq: "plain_keys kvs \<longleftrightarrow> (\<forall>q \<in> set (map fst kvs). q \<noteq> KOther \<and> isascii (key_str q))" for kvs
    by (simp add: plain_keys_def)
  show "plain_keys (knot_members k)"
    unfolding eq knot_key_list by (auto simp: isascii_def)
  have inj: "inj_on KStr A" for A by (simp add: inj_on_def)
  show "distinct (map fst (knot_members k))"
    unfolding knot_key_list distinct_map
    by (intro conjI distinct_optional [OF knot_names_distinct] inj) (auto split: if_splits)
qed

lemma knot_lookup [simp]:
  "map_of (knot_members k) (KStr ''plan_id'') = Some (PStr (hex (rk_plan_id k)))"
  "map_of (knot_members k) (KStr ''step_id'') = Some (PStr (hex (rk_step_id k)))"
  "map_of (knot_members k) (KStr ''assumption_digest'') = Some (PStr (hex (rk_assumption_digest k)))"
  "map_of (knot_members k) (KStr ''generator'') = Some (generator_dict (rk_generator k))"
  "map_of (knot_members k) (KStr ''parent_digests'') = Some (hex_list (rk_parent_digests k))"
  "map_of (knot_members k) (KStr ''workspace_path'') = Some (rk_workspace_path k)"
  "map_of (knot_members k) (KStr ''artifact_digest'') = Some (PStr (hex (rk_artifact_digest k)))"
  "map_of (knot_members k) (KStr ''created_at_ns'') = Some (rk_created_at_ns k)"
  by (simp_all add: knot_members_def base_members_def map_add_def)

lemma knot_lookup_version [simp]:
  "map_of (knot_members k) (KStr ''acceptance_suite_digest'') =
    (if 2 \<le> rk_schema_version k then Some (PStr (hex (rk_acceptance_suite_digest k))) else None)"
  "map_of (knot_members k) (KStr ''predicate_results'') =
    (if 2 \<le> rk_schema_version k then Some (hex_list (rk_predicate_results k)) else None)"
  "map_of (knot_members k) (KStr ''manifest_digest'') =
    (if 2 \<le> rk_schema_version k then Some (PStr (hex (rk_manifest_digest k))) else None)"
  "map_of (knot_members k) (KStr ''schema_version'') =
    (if 2 \<le> rk_schema_version k then Some (PInt (rk_schema_version k)) else None)"
  "map_of (knot_members k) (KStr ''gate_results'') =
    (if 3 \<le> rk_schema_version k then Some (PList (map canonical_dict (rk_gate_results k))) else None)"
  "map_of (knot_members k) (KStr ''reversal_taint'') =
    (if 3 \<le> rk_schema_version k then Some (PStr (rk_reversal_taint k)) else None)"
  by (simp_all add: knot_members_def base_members_def map_add_def split: option.splits)

lemma knot_lookup_optional [simp]:
  "map_of (knot_members k) (KStr ''retrieval_attestation'') = map_option (\<lambda>x. PStr (hex x)) (rk_retrieval_attestation k)"
  "map_of (knot_members k) (KStr ''workspace_digest'') = map_option (\<lambda>x. PStr (hex x)) (rk_workspace_digest k)"
  "map_of (knot_members k) (KStr ''prompt_digest'') = map_option (\<lambda>x. PStr (hex x)) (rk_prompt_digest k)"
  "map_of (knot_members k) (KStr ''run_id'') = (if rk_run_id k = [] then None else Some (PStr (rk_run_id k)))"
  by (auto simp: knot_members_def base_members_def map_add_def split: option.splits)

lemma canonical_bytes_ok: "canonical_bytes nfc k = Inr t \<longleftrightarrow> dumps_jcs nfc (PDict (knot_members k)) = Inr t"
  by (simp add: canonical_bytes_def split: sum.splits)

definition built :: "rootknot \<Rightarrow> bool" where
  "built k \<longleftrightarrow> knot_post_init k = Inr k"

lemma built_iff: "built k \<longleftrightarrow> rk_schema_version k \<in> {1, 2, 3, 4} \<and> (rk_schema_version k = 4 \<longrightarrow> missing_v4 k = [])"
  by (auto simp: built_def knot_post_init_def known_schema_versions_def)

lemma post_init_Inr: "knot_post_init k = Inr k' \<longleftrightarrow> built k \<and> k' = k"
  by (auto simp: built_def knot_post_init_def)

definition floatless :: "rootknot \<Rightarrow> bool" where
  "floatless k \<longleftrightarrow> float_free (PDict (knot_members k))"

lemma map_option_hex_inject: "map_option (\<lambda>x. PStr (hex x)) d = map_option (\<lambda>x. PStr (hex x)) d' \<longleftrightarrow> d = d'"
  by (cases d; cases d') auto

lemma map_eq_lift:
  assumes "map f xs = map f ys" and "\<And>x y. f x = f y \<Longrightarrow> g x = g y"
  shows "map g xs = map g ys"
  using assms(1)
proof (induction xs arbitrary: ys)
  case (Cons x xs)
  then obtain y ys' where ys: "ys = y # ys'" "f x = f y" "map f xs = map f ys'" by (cases ys) auto
  from Cons.IH [OF ys(3)] assms(2) [OF ys(2)] show ?case by (simp add: ys(1))
qed simp

lemma canonical_bytes_attest:
  assumes "canonical_bytes nfc k = Inr t" and "canonical_bytes nfc k' = Inr t"
    and "built k" and "built k'" and "floatless k" and "floatless k'" and nfc: "normalises nfc"
  shows "attested nfc k = attested nfc k'"
proof -
  have "canon nfc (PDict (knot_members k)) = canon nfc (PDict (knot_members k'))"
    using dumps_reads [of nfc "PDict (knot_members k)" t] dumps_reads [of nfc "PDict (knot_members k')" t] assms
    by (simp add: canonical_bytes_ok floatless_def)
  note eq = canon_members [OF this nfc knot_keys knot_keys]
  have v: "rk_schema_version k = rk_schema_version k'"
    using eq [of "KStr ''schema_version''"] assms(3,4) by (auto simp: built_iff split: if_splits)
  have ids: "rk_plan_id k = rk_plan_id k'" "rk_step_id k = rk_step_id k'"
    "rk_assumption_digest k = rk_assumption_digest k'" "rk_artifact_digest k = rk_artifact_digest k'"
    "rk_parent_digests k = rk_parent_digests k'"
    using eq [of "KStr ''plan_id''"] eq [of "KStr ''step_id''"] eq [of "KStr ''assumption_digest''"]
      eq [of "KStr ''artifact_digest''"] eq [of "KStr ''parent_digests''"] nfc
    by (simp_all add: canon_hexes comp_def)
  have vals: "canon nfc (rk_workspace_path k) = canon nfc (rk_workspace_path k')"
    "canon nfc (rk_created_at_ns k) = canon nfc (rk_created_at_ns k')"
    using eq [of "KStr ''workspace_path''"] eq [of "KStr ''created_at_ns''"] by simp_all
  have gen: "attested_generator nfc (rk_generator k) = attested_generator nfc (rk_generator k')"
    using eq [of "KStr ''generator''"] by (intro generator_dict_bind [OF _ nfc]) simp
  have v2: "rk_acceptance_suite_digest k = rk_acceptance_suite_digest k'"
    "rk_predicate_results k = rk_predicate_results k'" "rk_manifest_digest k = rk_manifest_digest k'"
    if "2 \<le> rk_schema_version k'"
    using eq [of "KStr ''acceptance_suite_digest''"] eq [of "KStr ''predicate_results''"]
      eq [of "KStr ''manifest_digest''"] nfc that v by (simp_all add: comp_def)
  have v3: "map (attested_gate nfc) (rk_gate_results k) = map (attested_gate nfc) (rk_gate_results k')"
    "nfc (rk_reversal_taint k) = nfc (rk_reversal_taint k')" if "3 \<le> rk_schema_version k'"
  proof -
    have "map (\<lambda>g. canon nfc (canonical_dict g)) (rk_gate_results k) = map (\<lambda>g. canon nfc (canonical_dict g)) (rk_gate_results k')"
      using eq [of "KStr ''gate_results''"] that v by (simp add: comp_def)
    from map_eq_lift [OF this canonical_dict_bind [OF _ nfc]]
    show "map (attested_gate nfc) (rk_gate_results k) = map (attested_gate nfc) (rk_gate_results k')" .
    show "nfc (rk_reversal_taint k) = nfc (rk_reversal_taint k')" using eq [of "KStr ''reversal_taint''"] that v by simp
  qed
  have opt: "rk_retrieval_attestation k = rk_retrieval_attestation k'" "rk_workspace_digest k = rk_workspace_digest k'"
    "rk_prompt_digest k = rk_prompt_digest k'" "nfc (rk_run_id k) = nfc (rk_run_id k')"
    using eq [of "KStr ''retrieval_attestation''"] eq [of "KStr ''workspace_digest''"]
      eq [of "KStr ''prompt_digest''"] eq [of "KStr ''run_id''"] nfc
    by (simp_all add: option.map_comp comp_def map_option_hex_inject split: if_splits)
  show ?thesis
    unfolding attested_def Let_def rootknot.ext_inject v by (simp add: ids vals gen v2 v3 opt)
qed

subsection \<open>Properties\<close>

lemma canonical_bytes_unsigned [simp]:
  "canonical_bytes nfc (k\<lparr>rk_generator_signature := s\<rparr>) = canonical_bytes nfc k"
  "canonical_bytes nfc (k\<lparr>rk_environment_signature := s\<rparr>) = canonical_bytes nfc k"
  "canonical_bytes nfc (k\<lparr>rk_antilazy_signature := s\<rparr>) = canonical_bytes nfc k"
  by (simp_all add: canonical_bytes_def knot_members_def base_members_def)

lemma built_unsigned [simp]:
  "built (k\<lparr>rk_generator_signature := s\<rparr>) = built k"
  "built (k\<lparr>rk_environment_signature := s\<rparr>) = built k"
  "built (k\<lparr>rk_antilazy_signature := s\<rparr>) = built k"
  by (simp_all add: built_iff missing_v4_def)

text \<open>The chain of the v3 and v4 factories, on every branch.\<close>

lemma sign_and_attest_eq:
  "sign_and_attest nfc observe key sandbox k ledger =
    (case rbind (knot_post_init k) (canonical_bytes nfc) of
       Inl e \<Rightarrow> (Inl e, ledger)
     | Inr t \<Rightarrow>
         (let k' = k\<lparr>rk_generator_signature := key_sign key t, rk_environment_signature := sandbox t\<rparr>
          in (Inr k', observe k' ledger)))"
proof (cases "built k")
  case True
  then have p: "knot_post_init k = Inr k" by (simp add: built_def)
  have q: "built k' \<Longrightarrow> knot_post_init k' = Inr k'" for k' by (simp add: built_def)
  show ?thesis
    using True by (cases "canonical_bytes nfc k")
      (simp_all add: sign_and_attest_def p sign_knot_def attest_environment_def q Let_def)
next
  case False
  then obtain e where "knot_post_init k = Inl e" using post_init_Inr by (cases "knot_post_init k") auto
  then show ?thesis by (simp add: sign_and_attest_def)
qed

lemma triple_attest_eq:
  assumes "3 \<le> rk_schema_version k"
  shows "triple_attest nfc observe key sandbox alm k ledger =
    (case rbind (knot_post_init k) (canonical_bytes nfc) of
       Inl e \<Rightarrow> (Inl e, ledger)
     | Inr t \<Rightarrow>
         (let k' = k\<lparr>rk_generator_signature := key_sign key t, rk_environment_signature := sandbox t\<rparr>
          in (Inr (k'\<lparr>rk_antilazy_signature := alm t\<rparr>), observe k' ledger)))"
proof (cases "rbind (knot_post_init k) (canonical_bytes nfc)")
  case (Inl e)
  then show ?thesis by (simp add: triple_attest_def sign_and_attest_eq)
next
  case (Inr t)
  then have k: "built k" and t: "canonical_bytes nfc k = Inr t" by (auto simp: result_simps post_init_Inr)
  then show ?thesis
    using Inr assms by (simp add: triple_attest_def sign_and_attest_eq attest_antilazy_def Let_def post_init_Inr)
qed


text \<open>A key, its signatures, and the arguments of a knot, for evaluating examples.\<close>

definition knot_demo_ed :: ed_verifier where
  "knot_demo_ed m s pk \<longleftrightarrow> s = pk @ m"

definition knot_demo_sha :: "string \<Rightarrow> string" where
  "knot_demo_sha m = take 32 (m @ replicate 32 (CHR ''#''))"

definition knot_demo_key :: session_key where
  "knot_demo_key = \<lparr>key_public = ''gen'', key_sign = (\<lambda>m. ''gen'' @ m)\<rparr>"

definition knot_demo_args :: mint_args where
  "knot_demo_args =
    \<lparr>ma_workspace_path = ''a.py'', ma_artifact_digest = knot_demo_sha ''x = 1'', ma_assumption_digest = ''A'',
     ma_model_name = ''m'', ma_model_version = ''0'', ma_plan_id = Some ''P'', ma_step_id = None,
     ma_parent_digests = [], ma_fresh_plan_id = ''p'', ma_fresh_step_id = ''S'', ma_now_ns = 7\<rparr>"

definition knot_demo_attest :: attest_args where
  "knot_demo_attest = \<lparr>aa_suite = ''U'', aa_predicates = [''r''], aa_manifest = ''M''\<rparr>"

definition knot_demo_v1 :: rootknot where
  "knot_demo_v1 = unsigned_v1 knot_demo_sha knot_demo_key knot_demo_args"

lemma knot_demo_ok:
  "is_ok (canonical_bytes (\<lambda>s. s) knot_demo_v1)" "built knot_demo_v1" "floatless knot_demo_v1"
  by (code_simp, simp_all add: knot_demo_v1_def unsigned_v1_def built_iff floatless_def knot_members_def
    base_members_def optional_hex_def generator_dict_def make_generator_def)


text \<open>
  A knot that verifies says what a signed knot said: when the holder of a key has signed only
  the bytes of the knots in \<open>S\<close> and signatures cannot be forged, a knot whose generator
  signature verifies under that key attests the same as a knot in \<open>S\<close>.
\<close>

theorem verified_knot_was_signed:
  assumes "\<forall>m s. ed m s pk \<longrightarrow> (\<exists>k0 \<in> S. canonical_bytes nfc k0 = Inr m)"
    and "\<forall>k0 \<in> S. built k0 \<and> floatless k0" and "built k" and "floatless k" and "normalises nfc"
    and "verify_knot nfc ed pk k = Inr True"
  shows "\<exists>k0 \<in> S. attested nfc k = attested nfc k0"
proof -
  from assms(6) obtain t where t: "canonical_bytes nfc k = Inr t" and "ed t (rk_generator_signature k) pk"
    by (auto simp: verify_knot_def result_simps)
  with assms(1) obtain k0 where "k0 \<in> S" "canonical_bytes nfc k0 = Inr t" by blast
  with canonical_bytes_attest [OF t _ assms(3) _ assms(4) _ assms(5)] assms(2) show ?thesis by blast
qed

theorem verified_knot_was_signed_witness:
  "\<exists>k0 \<in> {knot_demo_v1}. attested (\<lambda>s. s) (knot_demo_v1\<lparr>rk_generator_signature := ''s''\<rparr>) = attested (\<lambda>s. s) k0"
proof -
  obtain t where t: "canonical_bytes (\<lambda>s. s) knot_demo_v1 = Inr t" using knot_demo_ok(1) by (auto simp: is_ok_iff)
  let ?ed = "\<lambda>m s pk. m = t \<and> s = ''s''"
  have "floatless (knot_demo_v1\<lparr>rk_generator_signature := ''s''\<rparr>)"
    using knot_demo_ok(3) by (simp add: floatless_def knot_members_def base_members_def)
  moreover have "verify_knot (\<lambda>s. s) ?ed ''pk'' (knot_demo_v1\<lparr>rk_generator_signature := ''s''\<rparr>) = Inr True"
    by (simp add: verify_knot_def t)
  ultimately show ?thesis
    using t knot_demo_ok by (intro verified_knot_was_signed [where ed = ?ed and pk = "''pk''"]) (simp_all add: normalises_id)
qed

text \<open>
  C11. \<open>make_rootknot_v4\<close> returns a knot exactly when it is given a workspace and a prompt digest
  that are neither empty nor the zero digest, a run id or an ambient one, and a payload the
  canonical encoder accepts; what it returns verifies under all three keys.
\<close>

theorem make_rootknot_v4_verifies:
  assumes "\<forall>m. ed m (key_sign key m) (key_public key)"
    and "\<forall>m. sandbox m \<noteq> [] \<and> ed m (sandbox m) sandbox_pk" and "\<forall>m. alm m \<noteq> [] \<and> ed m (alm m) alm_pk"
    and run_def: "run = given_or run_id (given_or ambient [])"
    and minted_def: "minted = fst (make_rootknot_v4 nfc sha observe key sandbox alm a e gates taint retrieval ws pr run_id ambient ledger)"
  shows "(is_ok minted \<longleftrightarrow>
      \<not> digest_unset ws \<and> \<not> digest_unset pr \<and> run \<noteq> [] \<and>
      is_ok (canonical_bytes nfc (unsigned_v4 sha key a e gates taint retrieval (the ws) (the pr) run))) \<and>
    (\<forall>k. minted = Inr k \<longrightarrow>
      verify_knot nfc ed (key_public key) k = Inr True \<and> verify_environment nfc ed sandbox_pk k = Inr True \<and>
      verify_antilazy nfc ed alm_pk k = Inr True)"
proof (cases "ws = None \<or> pr = None \<or> run = []")
  case True
  then show ?thesis
    unfolding minted_def run_def by (auto simp: make_rootknot_v4_def digest_unset_def Let_def split: option.splits)
next
  case False
  then obtain wd pd where wp: "ws = Some wd" "pr = Some pd" and run: "run \<noteq> []" by auto
  let ?k = "unsigned_v4 sha key a e gates taint retrieval wd pd run"
  have v: "rk_schema_version ?k = 4" and bt: "built ?k \<longleftrightarrow> \<not> digest_unset ws \<and> \<not> digest_unset pr"
    using run by (auto simp: unsigned_v4_def built_iff missing_v4_def wp)
  have m: "minted = fst (triple_attest nfc observe key sandbox alm ?k ledger)"
    using wp run by (simp add: minted_def make_rootknot_v4_def run_def Let_def)
  show ?thesis
  proof (cases "rbind (knot_post_init ?k) (canonical_bytes nfc)")
    case (Inl err)
    then have "\<not> (built ?k \<and> is_ok (canonical_bytes nfc ?k))"
      by (auto simp: is_ok_iff built_def)
    then show ?thesis using Inl v run wp bt by (auto simp: m triple_attest_eq)
  next
    case (Inr t)
    then have "built ?k" "canonical_bytes nfc ?k = Inr t" by (auto simp: result_simps post_init_Inr)
    then show ?thesis
      using Inr v run wp bt assms(1-3)
      by (simp add: m triple_attest_eq Let_def verify_knot_def verify_environment_def verify_antilazy_def)
  qed
qed

theorem make_rootknot_v4_verifies_witness:
  "\<exists>k. fst (make_rootknot_v4 (\<lambda>s. s) knot_demo_sha (\<lambda>k n. Suc n) knot_demo_key (\<lambda>m. ''env'' @ m) (\<lambda>m. ''alm'' @ m)
      knot_demo_args knot_demo_attest [] ''clean'' None (Some ''W'') (Some ''Q'') None (Some ''run'') 0) = Inr k \<and>
    verify_knot (\<lambda>s. s) knot_demo_ed ''gen'' k = Inr True \<and> verify_environment (\<lambda>s. s) knot_demo_ed ''env'' k = Inr True \<and>
    verify_antilazy (\<lambda>s. s) knot_demo_ed ''alm'' k = Inr True"
proof -
  have "is_ok (canonical_bytes (\<lambda>s. s)
      (unsigned_v4 knot_demo_sha knot_demo_key knot_demo_args knot_demo_attest [] ''clean'' None ''W'' ''Q'' ''run''))"
    by code_simp
  moreover have "\<not> digest_unset (Some ''W'')" "\<not> digest_unset (Some ''Q'')"
    by (simp_all add: digest_unset_def zero_digest_def numeral_eq_Suc)
  ultimately show ?thesis
    using make_rootknot_v4_verifies [where ed = knot_demo_ed and key = knot_demo_key and sandbox = "\<lambda>m. ''env'' @ m"
        and sandbox_pk = "''env''" and alm = "\<lambda>m. ''alm'' @ m" and alm_pk = "''alm''", OF _ _ _ refl refl,
      where run_id = None and ambient = "Some ''run''" and nfc = "\<lambda>s. s" and sha = knot_demo_sha and observe = "\<lambda>k n. Suc n"
        and a = knot_demo_args and e = knot_demo_attest and gates = "[]" and taint = "''clean''" and retrieval = None
        and ws = "Some ''W''" and pr = "Some ''Q''" and ledger = 0]
    by (auto simp: knot_demo_ed_def knot_demo_key_def given_or_def is_ok_iff)
qed

end
