(* ===== verification/Provenance.thy ===== *)
theory Provenance
  imports JsonDoc Rootknot PathText "HOL-Library.Monad_Syntax"
begin

section \<open>The provenance index and the workspace verifier\<close>

text \<open>
  The model of \<open>src/ract/core/provenance.py\<close>: the sidecar text of a knot and its reader, the
  index (the rows of the SQLite table and the sidecar files), and \<open>verify_workspace\<close> with the
  invariants RK-1, RK-2, RK-3 and AL-1 and the classification of a failure; and of the write site
  \<open>_record_provenance\<close> in \<open>src/ract/executor/steps.py\<close>.

  What the caller passes to \<open>verify_workspace\<close> is the record \<open>verify_ctx\<close>: the key resolvers, the
  registries, the policy, and what the workspace holds at a relative path. Ed25519, SHA-256 and
  NFC are its first fields. Warnings and message texts are left out; the trace events are kept.
\<close>

subsection \<open>The sidecar\<close>

definition signed_fields :: "rootknot \<Rightarrow> payload" where
  "signed_fields k =
    [(KStr ''generator_signature'', PStr (hex (rk_generator_signature k))),
     (KStr ''environment_signature'', PStr (hex (rk_environment_signature k))),
     (KStr ''acceptance_suite_digest'', PStr (hex (rk_acceptance_suite_digest k))),
     (KStr ''predicate_results'', hex_list (rk_predicate_results k)),
     (KStr ''manifest_digest'', PStr (hex (rk_manifest_digest k))),
     (KStr ''schema_version'', PInt (rk_schema_version k))]"

definition antilazy_fields :: "rootknot \<Rightarrow> payload" where
  "antilazy_fields k =
    [(KStr ''antilazy_signature'', PStr (hex (rk_antilazy_signature k))),
     (KStr ''gate_results'', PList (map canonical_dict (rk_gate_results k))),
     (KStr ''reversal_taint'', PStr (rk_reversal_taint k))]"

definition hex_or_null :: "string option \<Rightarrow> pyval" where
  "hex_or_null d = (case d of None \<Rightarrow> PNone | Some x \<Rightarrow> PStr (hex x))"

definition optional_b64 :: "string \<Rightarrow> string option \<Rightarrow> payload" where
  "optional_b64 n pk = (case pk of None \<Rightarrow> [] | Some b \<Rightarrow> [(KStr n, PStr (b64encode b))])"

definition sidecar_members :: "rootknot \<Rightarrow> string option \<Rightarrow> string option \<Rightarrow> payload" where
  "sidecar_members k sandbox_pubkey alm_pubkey =
    (if 4 \<le> rk_schema_version k then
       [(KStr ''schema'', PStr ''sidecar/v4'')] @ base_members k @ signed_fields k @ antilazy_fields k @
       [(KStr ''workspace_digest'', hex_or_null (rk_workspace_digest k)),
        (KStr ''prompt_digest'', hex_or_null (rk_prompt_digest k)),
        (KStr ''run_id'', PStr (rk_run_id k))] @
       optional_hex ''retrieval_attestation'' (rk_retrieval_attestation k) @
       optional_b64 ''sandbox_pubkey_b64'' sandbox_pubkey @ optional_b64 ''alm_pubkey_b64'' alm_pubkey
     else if 3 \<le> rk_schema_version k then
       [(KStr ''schema'', PStr ''sidecar/v3'')] @ base_members k @ signed_fields k @ antilazy_fields k @
       optional_b64 ''sandbox_pubkey_b64'' sandbox_pubkey @ optional_b64 ''alm_pubkey_b64'' alm_pubkey
     else if 2 \<le> rk_schema_version k then
       [(KStr ''schema'', PStr ''sidecar/v2'')] @ base_members k @ signed_fields k @
       optional_b64 ''sandbox_pubkey_b64'' sandbox_pubkey
     else base_members k @ [(KStr ''signature'', PStr (hex (rk_generator_signature k)))])"

text \<open>\<open>_knot_to_json\<close>; \<open>None\<close> is the \<open>TypeError\<close> of \<open>json.dumps\<close>.\<close>

definition knot_to_json :: "rootknot \<Rightarrow> string option \<Rightarrow> string option \<Rightarrow> string option" where
  "knot_to_json k sandbox_pubkey alm_pubkey = dumps_sorted (PDict (sidecar_members k sandbox_pubkey alm_pubkey))"

text \<open>
  The reader. Every exception of it reaches the caller as the cause of a \<open>_KnotLoadError\<close>, which
  only tells a \<open>RootknotSchemaViolation\<close> from the others.
\<close>

datatype load_fault = SchemaFault "string list" | OtherFault

definition hex_bytes :: "pyval \<Rightarrow> string option" where
  "hex_bytes v = (case v of PStr s \<Rightarrow> fromhex s | _ \<Rightarrow> None)"

definition hex_field :: "payload \<Rightarrow> string \<Rightarrow> string option" where
  "hex_field p n = Option.bind (map_of p (KStr n)) hex_bytes"

definition hex_values :: "pyval \<Rightarrow> string list option" where
  "hex_values v = Option.bind (iter_value v) (\<lambda>vs. those (map hex_bytes vs))"

definition optional_digest :: "payload \<Rightarrow> string \<Rightarrow> string option option" where
  "optional_digest p n =
    (if get_value p n = PNone then Some None else map_option Some (hex_bytes (get_value p n)))"

definition read_generator :: "pyval \<Rightarrow> generator_ref option" where
  "read_generator v =
    (case v of
       PDict p \<Rightarrow>
         do {
           name \<leftarrow> map_of p (KStr ''model_name'');
           version \<leftarrow> map_of p (KStr ''model_version'');
           session \<leftarrow> hex_field p ''session_id'';
           kid \<leftarrow> hex_field p ''public_key_id'';
           Some \<lparr>gen_model_name = name, gen_model_version = version, gen_session_id = session, gen_public_key_id = kid\<rparr>
         }
     | _ \<Rightarrow> None)"

definition read_gate :: "host \<Rightarrow> pyval \<Rightarrow> gate_result option" where
  "read_gate h v =
    (case v of
       PDict p \<Rightarrow>
         do {
           i \<leftarrow> map_of p (KStr ''gate_id'');
           ok \<leftarrow> map_of p (KStr ''passed'');
           d \<leftarrow> hex_field p ''evidence_digest'';
           Some \<lparr>gr_id = py_str h i, gr_passed = truthy ok, gr_evidence = d, gr_handshake = get_value p ''handshake_id''\<rparr>
         }
     | _ \<Rightarrow> None)"

text \<open>The arguments every branch passes; \<open>sig\<close> names the member with the generator's signature.\<close>

definition read_base :: "string \<Rightarrow> payload \<Rightarrow> rootknot option" where
  "read_base sig p =
    do {
      gen \<leftarrow> Option.bind (map_of p (KStr ''generator'')) read_generator;
      plan \<leftarrow> hex_field p ''plan_id'';
      step \<leftarrow> hex_field p ''step_id'';
      assumption \<leftarrow> hex_field p ''assumption_digest'';
      parents \<leftarrow> Option.bind (map_of p (KStr ''parent_digests'')) hex_values;
      path \<leftarrow> map_of p (KStr ''workspace_path'');
      artifact \<leftarrow> hex_field p ''artifact_digest'';
      created \<leftarrow> map_of p (KStr ''created_at_ns'');
      signature \<leftarrow> hex_field p sig;
      Some \<lparr>rk_plan_id = plan, rk_step_id = step, rk_assumption_digest = assumption, rk_generator = gen,
        rk_parent_digests = parents, rk_workspace_path = path, rk_artifact_digest = artifact,
        rk_created_at_ns = created, rk_generator_signature = signature, rk_environment_signature = [],
        rk_acceptance_suite_digest = zero_digest, rk_predicate_results = [], rk_manifest_digest = zero_digest,
        rk_antilazy_signature = [], rk_gate_results = [], rk_reversal_taint = ''clean'', rk_schema_version = 1,
        rk_retrieval_attestation = None, rk_workspace_digest = None, rk_prompt_digest = None, rk_run_id = []\<rparr>
    }"

definition read_v2 :: "host \<Rightarrow> int \<Rightarrow> payload \<Rightarrow> rootknot option" where
  "read_v2 h version p =
    do {
      k \<leftarrow> read_base ''generator_signature'' p;
      env \<leftarrow> hex_field p ''environment_signature'';
      suite \<leftarrow> hex_field p ''acceptance_suite_digest'';
      preds \<leftarrow> hex_values (get_default p ''predicate_results'' (PList []));
      manifest \<leftarrow> hex_field p ''manifest_digest'';
      v \<leftarrow> py_int h (get_default p ''schema_version'' (PInt version));
      Some (k\<lparr>rk_environment_signature := env, rk_acceptance_suite_digest := suite, rk_predicate_results := preds,
        rk_manifest_digest := manifest, rk_schema_version := v\<rparr>)
    }"

definition read_v3 :: "host \<Rightarrow> int \<Rightarrow> payload \<Rightarrow> rootknot option" where
  "read_v3 h version p =
    do {
      gates \<leftarrow> Option.bind (iter_value (get_default p ''gate_results'' (PList []))) (\<lambda>gs. those (map (read_gate h) gs));
      k \<leftarrow> read_v2 h version p;
      alm \<leftarrow> hex_bytes (get_default p ''antilazy_signature'' (PStr []));
      Some (k\<lparr>rk_antilazy_signature := alm, rk_gate_results := gates,
        rk_reversal_taint := py_str h (get_default p ''reversal_taint'' (PStr ''clean''))\<rparr>)
    }"

definition read_v4 :: "host \<Rightarrow> payload \<Rightarrow> rootknot option" where
  "read_v4 h p =
    do {
      k \<leftarrow> read_v3 h 4 p;
      retrieval \<leftarrow> optional_digest p ''retrieval_attestation'';
      workspace \<leftarrow> optional_digest p ''workspace_digest'';
      prompt \<leftarrow> optional_digest p ''prompt_digest'';
      Some (k\<lparr>rk_retrieval_attestation := retrieval, rk_workspace_digest := workspace, rk_prompt_digest := prompt,
        rk_run_id := (let r = get_default p ''run_id'' (PStr []) in if truthy r then py_str h r else [])\<rparr>)
    }"

definition construct :: "rootknot option \<Rightarrow> load_fault + rootknot" where
  "construct k =
    (case k of
       None \<Rightarrow> Inl OtherFault
     | Some k' \<Rightarrow>
         (case knot_post_init k' of
            Inl (SchemaViolation _ missing) \<Rightarrow> Inl (SchemaFault missing)
          | Inl _ \<Rightarrow> Inl OtherFault
          | Inr k'' \<Rightarrow> Inr k''))"

definition knot_of_data :: "host \<Rightarrow> payload \<Rightarrow> load_fault + rootknot" where
  "knot_of_data h p =
    (let schema = get_value p ''schema'' in
     if schema = PStr ''sidecar/v4'' then construct (read_v4 h p)
     else if schema = PStr ''sidecar/v3'' then construct (read_v3 h 3 p)
     else if schema = PStr ''sidecar/v2'' then construct (read_v2 h 2 p)
     else if schema \<noteq> PNone then Inl OtherFault
     else construct (read_base ''signature'' p))"

definition knot_from_json :: "host \<Rightarrow> (string \<Rightarrow> pyfloat) \<Rightarrow> string \<Rightarrow> load_fault + rootknot" where
  "knot_from_json h fl s = (case json_loads fl s of Some (PDict p) \<Rightarrow> knot_of_data h p | _ \<Rightarrow> Inl OtherFault)"

subsection \<open>The index\<close>

text \<open>
  The rows in the order \<open>SELECT\<close> returns them, the sidecar files by path, and the events handed
  to the trace. \<open>INSERT OR REPLACE\<close> deletes the row of the path and appends the new one.
\<close>

record prov_store =
  ps_rows :: "(string \<times> string) list"
  ps_sidecars :: "(string \<times> string) list"
  ps_events :: "(string \<times> payload) list"

definition rel_path :: "string \<Rightarrow> string \<Rightarrow> string" where
  "rel_path root p =
    (if under_path p root
     then (let ps = drop (length (path_parts root)) (path_parts p) in if ps = [] then ''.'' else join [sep] ps)
     else path_str p)"

definition knot_sidecar :: "string \<Rightarrow> string" where
  "knot_sidecar p = path_root p @ join [sep] (butlast (path_parts p) @ [''.'' @ path_name p @ ''.rootknot.json''])"

definition created_event :: "rootknot \<Rightarrow> payload" where
  "created_event k =
    [(KStr ''workspace_path'', rk_workspace_path k), (KStr ''plan_id'', PStr (hex (rk_plan_id k))),
     (KStr ''step_id_ref'', PStr (hex (rk_step_id k))), (KStr ''artifact_digest'', PStr (hex (rk_artifact_digest k))),
     (KStr ''assumption_digest'', PStr (hex (rk_assumption_digest k))),
     (KStr ''schema_version'', PInt (rk_schema_version k))]"

definition save_knot ::
    "string \<Rightarrow> rootknot \<Rightarrow> string \<Rightarrow> string option \<Rightarrow> string option \<Rightarrow> prov_store \<Rightarrow> bool \<times> prov_store" where
  "save_knot root k p sandbox_pubkey alm_pubkey st =
    (case knot_to_json k sandbox_pubkey alm_pubkey of
       None \<Rightarrow> (False, st)
     | Some t \<Rightarrow>
         (True,
          st\<lparr>ps_rows := filter (\<lambda>(q, _). q \<noteq> rel_path root p) (ps_rows st) @ [(rel_path root p, t)],
             ps_sidecars := AList.update (knot_sidecar p) t (ps_sidecars st),
             ps_events := ps_events st @ [(''rootknot.created'', created_event k)]\<rparr>))"

definition load_knot ::
    "host \<Rightarrow> (string \<Rightarrow> pyfloat) \<Rightarrow> string \<Rightarrow> string \<Rightarrow> prov_store \<Rightarrow> load_fault + rootknot option" where
  "load_knot h fl root p st =
    (case map_of (ps_rows st) (rel_path root p) of
       None \<Rightarrow> Inr None
     | Some t \<Rightarrow> rbind (knot_from_json h fl t) (\<lambda>k. Inr (Some k)))"

fun all_knots :: "host \<Rightarrow> (string \<Rightarrow> pyfloat) \<Rightarrow> (string \<times> string) list \<Rightarrow> (string \<times> load_fault) + (string \<times> rootknot) list" where
  "all_knots h fl [] = Inr []"
| "all_knots h fl ((p, t) # rows) =
    (case knot_from_json h fl t of
       Inl f \<Rightarrow> Inl (p, f)
     | Inr k \<Rightarrow> rbind (all_knots h fl rows) (\<lambda>ks. Inr ((p, k) # ks)))"

subsection \<open>The invariants of one knot\<close>

datatype artifact = Missing | Unreadable | Content string

record verify_ctx =
  vc_nfc :: "string \<Rightarrow> string"
  vc_sha :: "string \<Rightarrow> string"
  vc_ed :: ed_verifier
  vc_artifact :: "string \<Rightarrow> artifact"
  vc_plans :: "(string \<times> string list) list"
  vc_assumptions :: "(string \<times> string option) list"
  vc_generator_pk :: "generator_ref \<Rightarrow> string option"
  vc_sandbox_pk :: "(rootknot \<Rightarrow> string option) option"
  vc_suites :: "string list option"
  vc_manifests :: "string list option"
  vc_alm_pk :: "(rootknot \<Rightarrow> string option) option"
  vc_approved :: "string list"
  vc_partial_runs :: "string list"
  vc_strict :: bool
  vc_floor :: "int option"

text \<open>What \<open>verify_workspace\<close> may raise: the encoder, a path that is no string, a file that cannot be read, an unhashable handshake id.\<close>

datatype verify_error = KnotRaised knot_error | PathTypeError | ArtifactReadError | HandshakeTypeError

definition lift_knot :: "knot_error + 'a \<Rightarrow> verify_error + 'a" where
  "lift_knot r = (case r of Inl e \<Rightarrow> Inl (KnotRaised e) | Inr x \<Rightarrow> Inr x)"

text \<open>A check, then another one if it passed: the early \<open>return False\<close> of the code.\<close>

definition and_then :: "'e + bool \<Rightarrow> 'e + bool \<Rightarrow> 'e + bool" where
  "and_then a b = (case a of Inl e \<Rightarrow> Inl e | Inr x \<Rightarrow> if x then b else Inr False)"

lemma and_then_cong [fundef_cong]: "a = a' \<Longrightarrow> (a' = Inr True \<Longrightarrow> b = b') \<Longrightarrow> and_then a b = and_then a' b'"
  by (auto simp: and_then_def split: sum.splits)

lemma and_then_simps [simp]:
  "and_then (Inr True) b = b" "and_then (Inr False) b = Inr False" "and_then (Inl e) b = Inl e"
  "and_then a b = Inr True \<longleftrightarrow> a = Inr True \<and> b = Inr True"
  by (auto simp: and_then_def split: sum.splits)

definition knot_bytes :: "verify_ctx \<Rightarrow> rootknot \<Rightarrow> verify_error + string" where
  "knot_bytes E k = lift_knot (canonical_bytes (vc_nfc E) k)"

definition check_artifact :: "verify_ctx \<Rightarrow> rootknot \<Rightarrow> verify_error + bool" where
  "check_artifact E k =
    (case rk_workspace_path k of
       PStr p \<Rightarrow>
         (case vc_artifact E p of
            Missing \<Rightarrow> Inr False
          | Unreadable \<Rightarrow> Inl ArtifactReadError
          | Content c \<Rightarrow> Inr (vc_sha E c = rk_artifact_digest k))
     | _ \<Rightarrow> Inl PathTypeError)"

definition check_generator :: "verify_ctx \<Rightarrow> rootknot \<Rightarrow> verify_error + bool" where
  "check_generator E k =
    (case vc_generator_pk E (rk_generator k) of
       None \<Rightarrow> Inr False
     | Some pk \<Rightarrow> lift_knot (verify_knot (vc_nfc E) (vc_ed E) pk k))"

definition plan_active :: "verify_ctx \<Rightarrow> rootknot \<Rightarrow> bool" where
  "plan_active E k \<longleftrightarrow> map_of (vc_plans E) (rk_plan_id k) \<noteq> None"

definition step_in_plan :: "verify_ctx \<Rightarrow> rootknot \<Rightarrow> bool" where
  "step_in_plan E k \<longleftrightarrow>
    (case map_of (vc_plans E) (rk_plan_id k) of None \<Rightarrow> False | Some steps \<Rightarrow> rk_step_id k \<in> set steps)"

definition assumption_registered :: "verify_ctx \<Rightarrow> rootknot \<Rightarrow> bool" where
  "assumption_registered E k \<longleftrightarrow> map_of (vc_assumptions E) (rk_assumption_digest k) \<noteq> None"

definition assumption_standing :: "verify_ctx \<Rightarrow> rootknot \<Rightarrow> bool" where
  "assumption_standing E k \<longleftrightarrow> map_of (vc_assumptions E) (rk_assumption_digest k) \<noteq> Some (Some ''VIOLATED'')"

definition resolved :: "(rootknot \<Rightarrow> string option) option \<Rightarrow> rootknot \<Rightarrow> string option" where
  "resolved f k = (case f of None \<Rightarrow> None | Some g \<Rightarrow> g k)"

definition check_environment :: "verify_ctx \<Rightarrow> rootknot \<Rightarrow> verify_error + bool" where
  "check_environment E k =
    (case resolved (vc_sandbox_pk E) k of
       None \<Rightarrow> Inr (\<not> vc_strict E)
     | Some pk \<Rightarrow> lift_knot (verify_environment (vc_nfc E) (vc_ed E) pk k))"

definition registered :: "string list option \<Rightarrow> string \<Rightarrow> bool" where
  "registered known d \<longleftrightarrow> (case known of None \<Rightarrow> True | Some ds \<Rightarrow> d \<in> set ds)"

definition above_floor :: "verify_ctx \<Rightarrow> rootknot \<Rightarrow> bool" where
  "above_floor E k \<longleftrightarrow> (case vc_floor E of None \<Rightarrow> True | Some f \<Rightarrow> f \<le> rk_schema_version k)"

definition check_rk3 :: "verify_ctx \<Rightarrow> rootknot \<Rightarrow> verify_error + bool" where
  "check_rk3 E k =
    (if rk_schema_version k \<notin> set known_schema_versions then Inr False
     else if \<not> above_floor E k then Inr False
     else if rk_schema_version k = 4 \<and> missing_v4 k \<noteq> [] then Inr False
     else if rk_schema_version k < 2 then Inr (\<not> vc_strict E)
     else and_then (check_environment E k)
       (and_then (Inr (registered (vc_suites E) (rk_acceptance_suite_digest k)))
         (and_then (Inr (rk_predicate_results k \<noteq> []))
           (Inr (registered (vc_manifests E) (rk_manifest_digest k))))))"

definition check_antilazy :: "verify_ctx \<Rightarrow> rootknot \<Rightarrow> verify_error + bool" where
  "check_antilazy E k =
    (case resolved (vc_alm_pk E) k of
       None \<Rightarrow> Inr (\<not> vc_strict E)
     | Some pk \<Rightarrow> lift_knot (verify_antilazy (vc_nfc E) (vc_ed E) pk k))"

definition gate_excused :: "string list \<Rightarrow> gate_result \<Rightarrow> verify_error + bool" where
  "gate_excused approved g =
    (if gr_passed g then Inr True
     else if \<not> truthy (gr_handshake g) then Inr False
     else case gr_handshake g of
       PStr i \<Rightarrow> Inr (i \<in> set approved)
     | PList _ \<Rightarrow> Inl HandshakeTypeError
     | PDict _ \<Rightarrow> Inl HandshakeTypeError
     | _ \<Rightarrow> Inr False)"

fun check_gates :: "string list \<Rightarrow> gate_result list \<Rightarrow> verify_error + bool" where
  "check_gates approved [] = Inr True"
| "check_gates approved (g # gs) = and_then (gate_excused approved g) (check_gates approved gs)"

definition taint_accepted :: "verify_ctx \<Rightarrow> rootknot \<Rightarrow> bool" where
  "taint_accepted E k \<longleftrightarrow> rk_reversal_taint k = ''clean'' \<or> rk_plan_id k \<in> set (vc_partial_runs E)"

definition check_al1 :: "verify_ctx \<Rightarrow> rootknot \<Rightarrow> verify_error + bool" where
  "check_al1 E k =
    (if rk_schema_version k < 3 then Inr (\<not> vc_strict E)
     else and_then (check_antilazy E k)
       (and_then (check_gates (vc_approved E) (rk_gate_results k)) (Inr (taint_accepted E k))))"

subsection \<open>A knot and its ancestors\<close>

definition checks_before :: "verify_ctx \<Rightarrow> rootknot \<Rightarrow> verify_error + bool" where
  "checks_before E k =
    and_then (check_artifact E k)
      (and_then (check_generator E k)
        (and_then (Inr (plan_active E k))
          (and_then (Inr (step_in_plan E k)) (Inr (assumption_registered E k)))))"

definition checks_after :: "verify_ctx \<Rightarrow> rootknot \<Rightarrow> verify_error + bool" where
  "checks_after E k = and_then (Inr (assumption_standing E k)) (and_then (check_rk3 E k) (check_al1 E k))"

fun find_knot :: "verify_ctx \<Rightarrow> rootknot list \<Rightarrow> string \<Rightarrow> verify_error + rootknot option" where
  "find_knot E [] d = Inr None"
| "find_knot E (k # ks) d =
    (case knot_bytes E k of
       Inl e \<Rightarrow> Inl e
     | Inr t \<Rightarrow> if vc_sha E t = d then Inr (Some k) else find_knot E ks d)"

definition digests :: "verify_ctx \<Rightarrow> rootknot list \<Rightarrow> string set" where
  "digests E ks = (\<lambda>k. vc_sha E (projr (knot_bytes E k))) ` set ks"

lemma finite_digests [simp]: "finite (digests E ks)"
  by (simp add: digests_def)

lemma find_knot_Some:
  "find_knot E ks d = Inr (Some k) \<Longrightarrow> k \<in> set ks \<and> (\<exists>t. knot_bytes E k = Inr t \<and> vc_sha E t = d) \<and> d \<in> digests E ks"
  by (induction ks) (auto simp: digests_def split: sum.splits if_splits)

lemma fewer_unseen:
  assumes "find_knot E ks d = Inr (Some k)" and "d \<notin> set seen"
  shows "card (digests E ks - set (d # seen)) < card (digests E ks - set seen)"
  using find_knot_Some [OF assms(1)] assms(2) by (intro psubset_card_mono) auto

text \<open>
  \<open>_check_knot\<close>, the loop over its parents and \<open>resolve_parent\<close>. The set \<open>seen\<close> grows by one
  stored digest with every generation, so the recursion ends.
\<close>

function check_knot :: "verify_ctx \<Rightarrow> rootknot list \<Rightarrow> string list \<Rightarrow> rootknot \<Rightarrow> verify_error + bool"
  and check_parents :: "verify_ctx \<Rightarrow> rootknot list \<Rightarrow> string list \<Rightarrow> string list \<Rightarrow> verify_error + bool"
  and resolve_parent :: "verify_ctx \<Rightarrow> rootknot list \<Rightarrow> string list \<Rightarrow> string \<Rightarrow> verify_error + bool"
  where
  "check_knot E ks seen k =
    (case knot_bytes E k of
       Inl e \<Rightarrow> Inl e
     | Inr t \<Rightarrow>
         and_then (checks_before E k)
           (and_then (check_parents E ks seen (rk_parent_digests k)) (checks_after E k)))"
| "check_parents E ks seen [] = Inr True"
| "check_parents E ks seen (d # ds) = and_then (resolve_parent E ks seen d) (check_parents E ks seen ds)"
| "resolve_parent E ks seen d =
    (if d \<in> set seen then Inr False
     else case find_knot E ks d of
       Inl e \<Rightarrow> Inl e
     | Inr None \<Rightarrow> Inr False
     | Inr (Some k) \<Rightarrow> check_knot E ks (d # seen) k)"
  by pat_completeness auto

termination
  by (relation "measures [
      \<lambda>x. case x of Inl (E, ks, seen, _) \<Rightarrow> card (digests E ks - set seen)
        | Inr (Inl (E, ks, seen, _)) \<Rightarrow> card (digests E ks - set seen)
        | Inr (Inr (E, ks, seen, _)) \<Rightarrow> card (digests E ks - set seen),
      \<lambda>x. case x of Inl _ \<Rightarrow> 2 | Inr (Inl (_, _, _, ds)) \<Rightarrow> 1 | Inr (Inr _) \<Rightarrow> 0,
      \<lambda>x. case x of Inr (Inl (_, _, _, ds)) \<Rightarrow> length ds | _ \<Rightarrow> 0]")
    (use fewer_unseen in auto)

declare check_knot.simps [simp del] resolve_parent.simps [simp del]

subsection \<open>The workspace\<close>

record prov_violation =
  pv_file :: pyval
  pv_predicate :: string

definition violation_of :: "rootknot \<Rightarrow> string \<Rightarrow> prov_violation" where
  "violation_of k c = \<lparr>pv_file = rk_workspace_path k, pv_predicate = c\<rparr>"

text \<open>\<open>_classify_violation\<close>: the checks in its own order, the parents last.\<close>

definition report :: "string \<Rightarrow> verify_error + bool \<Rightarrow> verify_error + string \<Rightarrow> verify_error + string" where
  "report c check rest = (case check of Inl e \<Rightarrow> Inl e | Inr x \<Rightarrow> if x then rest else Inr c)"

definition classify_rk3 :: "verify_ctx \<Rightarrow> rootknot \<Rightarrow> verify_error + string \<Rightarrow> verify_error + string" where
  "classify_rk3 E k rest =
    (if rk_schema_version k < 2 \<and> vc_strict E then Inr ''RK-3''
     else if 2 \<le> rk_schema_version k then
       report ''RK-3.1'' (check_environment E k)
         (report ''RK-3.2'' (Inr (registered (vc_suites E) (rk_acceptance_suite_digest k)))
           (report ''RK-3.3'' (Inr (rk_predicate_results k \<noteq> []))
             (report ''RK-3.4'' (Inr (registered (vc_manifests E) (rk_manifest_digest k))) rest)))
     else rest)"

definition classify_al1 :: "verify_ctx \<Rightarrow> rootknot \<Rightarrow> verify_error + string \<Rightarrow> verify_error + string" where
  "classify_al1 E k rest =
    (if rk_schema_version k < 3 \<and> vc_strict E then Inr ''AL-1''
     else if 3 \<le> rk_schema_version k then
       report ''AL-1.1'' (check_antilazy E k)
         (report ''AL-1.2'' (check_gates (vc_approved E) (rk_gate_results k))
           (report ''AL-1.3'' (Inr (taint_accepted E k)) rest))
     else rest)"

definition classify_violation :: "verify_ctx \<Rightarrow> rootknot \<Rightarrow> verify_error + prov_violation" where
  "classify_violation E k =
    rbind
      (if rk_schema_version k \<notin> set known_schema_versions then Inr ''RK-UNKNOWN-SCHEMA''
       else if \<not> above_floor E k then Inr ''RK-DOWNGRADE-REFUSED''
       else if rk_schema_version k = 4 \<and> missing_v4 k \<noteq> [] then Inr ''RK-V4-LABEL-MISMATCH''
       else report ''RK-1.1'' (check_artifact E k)
         (report ''RK-1.2'' (check_generator E k)
           (report ''RK-1.3'' (Inr (plan_active E k))
             (report ''RK-1.4'' (Inr (step_in_plan E k))
               (report ''RK-1.5'' (Inr (assumption_registered E k))
                 (report ''RK-2'' (Inr (assumption_standing E k))
                   (classify_rk3 E k (classify_al1 E k (Inr ''RK-1.6'')))))))))
      (\<lambda>c. Inr (violation_of k c))"

definition verified_event :: "string \<Rightarrow> rootknot \<Rightarrow> payload" where
  "verified_event p k =
    [(KStr ''workspace_path'', PStr p), (KStr ''artifact_digest'', PStr (hex (rk_artifact_digest k))),
     (KStr ''schema_version'', PInt (rk_schema_version k))]"

text \<open>
  The loop over the knots: what it raises or returns (\<open>None\<close> is ok) and the events it emits.
\<close>

fun verify_loop ::
    "verify_ctx \<Rightarrow> rootknot list \<Rightarrow> (string \<times> rootknot) list \<Rightarrow> (verify_error + prov_violation option) \<times> (string \<times> payload) list" where
  "verify_loop E ks [] = (Inr None, [])"
| "verify_loop E ks ((p, k) # rest) =
    (case check_knot E ks [] k of
       Inl e \<Rightarrow> (Inl e, [])
     | Inr False \<Rightarrow> (rbind (classify_violation E k) (\<lambda>v. Inr (Some v)), [])
     | Inr True \<Rightarrow>
         (case verify_loop E ks rest of (r, evs) \<Rightarrow> (r, (''rootknot.verified'', verified_event p k) # evs)))"

definition load_violation :: "string \<Rightarrow> load_fault \<Rightarrow> prov_violation" where
  "load_violation p f =
    \<lparr>pv_file = PStr p,
     pv_predicate =
       (case f of
          SchemaFault missing \<Rightarrow> if missing \<noteq> [] then ''RK-V4-LABEL-MISMATCH'' else ''RK-UNKNOWN-SCHEMA''
        | OtherFault \<Rightarrow> ''RK-SIDECAR-UNREADABLE'')\<rparr>"

definition verify_workspace ::
    "verify_ctx \<Rightarrow> host \<Rightarrow> (string \<Rightarrow> pyfloat) \<Rightarrow> prov_store \<Rightarrow> (verify_error + prov_violation option) \<times> (string \<times> payload) list" where
  "verify_workspace E h fl st =
    (case all_knots h fl (ps_rows st) of
       Inl (p, f) \<Rightarrow> (Inr (Some (load_violation p f)), [])
     | Inr ks \<Rightarrow> verify_loop E (map snd ks) ks)"

subsection \<open>The write site of the executor\<close>

text \<open>
  What \<open>_record_provenance\<close> is wired to: a provider is the value its call returns, \<open>Some None\<close>
  when the call raises. The suite's digest comes in hex.
\<close>

record write_site =
  ws_project :: "string option"
  ws_key :: "session_key option"
  ws_sandbox :: "signer option"
  ws_alm :: "signer option"
  ws_workspace :: "string option option"
  ws_prompt :: "string option option"
  ws_suite :: "string option option"
  ws_manifest :: "string option option"
  ws_gates :: "gate_result list option"
  ws_ambient_run :: "string option"
  ws_run_attribute :: string

text \<open>
  The artifact just written: its path, its path below the project when it has one, the bytes on
  disk when it is a file, and the content that was to be written; and the fresh ids and the time.
\<close>

record written =
  wr_path :: string
  wr_relative :: "string option"
  wr_on_disk :: "string option"
  wr_content :: string
  wr_fresh_plan_id :: string
  wr_fresh_step_id :: string
  wr_now_ns :: int

definition wired :: "write_site \<Rightarrow> bool" where
  "wired w \<longleftrightarrow> ws_sandbox w \<noteq> None \<and> ws_alm w \<noteq> None \<and> ws_workspace w \<noteq> None \<and> ws_prompt w \<noteq> None \<and>
    ws_suite w \<noteq> None \<and> ws_manifest w \<noteq> None"

definition slashes :: "string \<Rightarrow> string" where
  "slashes s = map (\<lambda>c. if c = CHR 0x5C then CHR ''/'' else c) s"

definition write_args :: "(string \<Rightarrow> string) \<Rightarrow> written \<Rightarrow> string \<Rightarrow> mint_args" where
  "write_args sha a rel =
    \<lparr>ma_workspace_path = slashes rel,
     ma_artifact_digest = sha (case wr_on_disk a of Some b \<Rightarrow> b | None \<Rightarrow> wr_content a),
     ma_assumption_digest = sha rel, ma_model_name = ''unknown'', ma_model_version = ''0'', ma_plan_id = None,
     ma_step_id = None, ma_parent_digests = [], ma_fresh_plan_id = wr_fresh_plan_id a,
     ma_fresh_step_id = wr_fresh_step_id a, ma_now_ns = wr_now_ns a\<rparr>"

text \<open>The body of the \<open>try\<close>: the knot, or \<open>None\<close> for any exception; and the ledger.\<close>

definition mint_written ::
    "(string \<Rightarrow> string) \<Rightarrow> (string \<Rightarrow> string) \<Rightarrow> (rootknot \<Rightarrow> 'l \<Rightarrow> 'l) \<Rightarrow> write_site \<Rightarrow> written \<Rightarrow> 'l \<Rightarrow> rootknot option \<times> 'l" where
  "mint_written nfc sha observe w a ledger =
    (case (wr_relative a, the (ws_workspace w), the (ws_prompt w), Option.bind (the (ws_suite w)) fromhex, the (ws_manifest w)) of
       (Some rel, Some wd, Some pd, Some suite, Some manifest) \<Rightarrow>
         let run = given_or (ws_ambient_run w) (ws_run_attribute w) in
         if run = [] then (None, ledger)
         else
           (case make_rootknot_v4 nfc sha observe (the (ws_key w)) (the (ws_sandbox w)) (the (ws_alm w)) (write_args sha a rel)
               \<lparr>aa_suite = suite, aa_predicates = [], aa_manifest = manifest\<rparr>
               (case ws_gates w of None \<Rightarrow> [] | Some gs \<Rightarrow> gs) ''clean'' None (Some wd) (Some pd) (Some run) (ws_ambient_run w) ledger of
              (Inl e, ledger') \<Rightarrow> (None, ledger')
            | (Inr k, ledger') \<Rightarrow> (Some k, ledger'))
     | _ \<Rightarrow> (None, ledger))"

definition record_provenance ::
    "(string \<Rightarrow> string) \<Rightarrow> (string \<Rightarrow> string) \<Rightarrow> (rootknot \<Rightarrow> 'l \<Rightarrow> 'l) \<Rightarrow> write_site \<Rightarrow> string option \<Rightarrow> written \<Rightarrow>
     prov_store \<Rightarrow> 'l \<Rightarrow> bool \<times> prov_store \<times> 'l" where
  "record_provenance nfc sha observe w index_root a st ledger =
    (case index_root of
       None \<Rightarrow> (False, st, ledger)
     | Some root \<Rightarrow>
         if ws_key w = None \<or> ws_project w = None \<or> \<not> wired w then (False, st, ledger)
         else
           (case mint_written nfc sha observe w a ledger of
              (None, ledger') \<Rightarrow> (False, st, ledger')
            | (Some k, ledger') \<Rightarrow>
                (case save_knot root k (wr_path a) None None st of (ok, st') \<Rightarrow> (ok, st', ledger'))))"

subsection \<open>Grounded knots\<close>

text \<open>
  The specification of an accepted knot, without \<open>seen\<close> and without order: its own clauses hold,
  and each of its parents is the digest of a stored knot that is grounded in turn. The definition
  is inductive, so a chain of parents ends, and no knot is its own ancestor.
\<close>

definition locally_ok :: "verify_ctx \<Rightarrow> rootknot \<Rightarrow> bool" where
  "locally_ok E k \<longleftrightarrow> is_ok (knot_bytes E k) \<and> checks_before E k = Inr True \<and> checks_after E k = Inr True"

inductive grounded :: "verify_ctx \<Rightarrow> rootknot list \<Rightarrow> rootknot \<Rightarrow> bool" for E ks where
  step: "locally_ok E k \<Longrightarrow>
    (\<And>d. d \<in> set (rk_parent_digests k) \<Longrightarrow> \<exists>c. find_knot E ks d = Inr (Some c) \<and> grounded E ks c) \<Longrightarrow>
    grounded E ks k"

inductive_cases groundedE: "grounded E ks k"

lemma check_knot_True:
  "check_knot E ks seen k = Inr True \<longleftrightarrow> locally_ok E k \<and> check_parents E ks seen (rk_parent_digests k) = Inr True"
  by (auto simp: check_knot.simps locally_ok_def is_ok_iff split: sum.splits)

lemma check_parents_True:
  "check_parents E ks seen ds = Inr True \<longleftrightarrow> (\<forall>d \<in> set ds. resolve_parent E ks seen d = Inr True)"
  by (induction ds) auto

lemma resolve_parent_True:
  "resolve_parent E ks seen d = Inr True \<longleftrightarrow>
    d \<notin> set seen \<and> (\<exists>c. find_knot E ks d = Inr (Some c) \<and> check_knot E ks (d # seen) c = Inr True)"
  by (auto simp: resolve_parent.simps split: sum.splits option.splits)

text \<open>An accepted knot is grounded.\<close>

lemma check_grounded:
  "check_knot E ks seen k = Inr True \<Longrightarrow> grounded E ks k"
  "check_parents E ks seen ds = Inr True \<Longrightarrow> \<forall>d \<in> set ds. \<exists>c. find_knot E ks d = Inr (Some c) \<and> grounded E ks c"
  "resolve_parent E ks seen d = Inr True \<Longrightarrow> \<exists>c. find_knot E ks d = Inr (Some c) \<and> grounded E ks c"
proof (induction E ks seen k and E ks seen ds and E ks seen d rule: check_knot_check_parents_resolve_parent.induct)
  case (1 E ks seen k)
  then have ok: "locally_ok E k" "check_parents E ks seen (rk_parent_digests k) = Inr True" by (simp_all add: check_knot_True)
  then obtain t where "knot_bytes E k = Inr t" "checks_before E k = Inr True" by (auto simp: locally_ok_def is_ok_iff)
  from "1.IH" [OF this ok(2)] ok(1) show ?case by (intro grounded.step) auto
next
  case (4 E ks seen d)
  then obtain c where c: "d \<notin> set seen" "find_knot E ks d = Inr (Some c)" "check_knot E ks (d # seen) c = Inr True"
    by (auto simp: resolve_parent_True)
  with "4.IH" [OF c(1,2) refl c(3)] show ?case by blast
qed simp_all

text \<open>
  A grounded knot is accepted. Whatever was seen on the way leads down to the knot, so if one of
  its parents had been seen, that parent would be its own ancestor.
\<close>

definition knot_parent :: "verify_ctx \<Rightarrow> rootknot list \<Rightarrow> rootknot \<Rightarrow> rootknot \<Rightarrow> bool" where
  "knot_parent E ks c k \<longleftrightarrow> (\<exists>d \<in> set (rk_parent_digests k). find_knot E ks d = Inr (Some c))"

lemma grounded_parent: "grounded E ks k \<Longrightarrow> knot_parent E ks c k \<Longrightarrow> grounded E ks c"
  by (erule groundedE) (force simp: knot_parent_def)

lemma grounded_no_cycle: "grounded E ks k \<Longrightarrow> \<not> (knot_parent E ks)\<^sup>+\<^sup>+ k k"
proof (induction rule: grounded.induct)
  case (step k)
  show ?case
  proof
    assume "(knot_parent E ks)\<^sup>+\<^sup>+ k k"
    then obtain c where c: "(knot_parent E ks)\<^sup>*\<^sup>* k c" "knot_parent E ks c k" 
      by (cases rule: tranclp.cases) (auto intro: tranclp_into_rtranclp)
    then have "(knot_parent E ks)\<^sup>+\<^sup>+ c c" by (simp add: rtranclp_into_tranclp2)
    moreover obtain d where "d \<in> set (rk_parent_digests k)" "find_knot E ks d = Inr (Some c)"
      using c(2) by (auto simp: knot_parent_def)
    with step.IH have "\<not> (knot_parent E ks)\<^sup>+\<^sup>+ c c" by fastforce
    ultimately show False by blast
  qed
qed

lemma grounded_check:
  assumes "grounded E ks k"
    and "\<forall>d \<in> set seen. \<exists>a. find_knot E ks d = Inr (Some a) \<and> (knot_parent E ks)\<^sup>*\<^sup>* k a"
  shows "check_knot E ks seen k = Inr True"
  using assms
proof (induction arbitrary: seen rule: grounded.induct)
  case (step k)
  have "resolve_parent E ks seen d = Inr True" if d: "d \<in> set (rk_parent_digests k)" for d
  proof -
    obtain c where c: "find_knot E ks d = Inr (Some c)" "grounded E ks c"
      and IH: "\<And>seen. \<forall>d \<in> set seen. \<exists>a. find_knot E ks d = Inr (Some a) \<and> (knot_parent E ks)\<^sup>*\<^sup>* c a \<Longrightarrow>
        check_knot E ks seen c = Inr True"
      using step.IH [OF d] by blast
    have p: "knot_parent E ks c k" using d c(1) by (auto simp: knot_parent_def)
    have "d \<notin> set seen"
    proof
      assume "d \<in> set seen"
      with step.prems c(1) have "(knot_parent E ks)\<^sup>*\<^sup>* k c" by auto
      with p have "(knot_parent E ks)\<^sup>+\<^sup>+ c c" by (simp add: rtranclp_into_tranclp2)
      with grounded_no_cycle [OF c(2)] show False by blast
    qed
    moreover have "check_knot E ks (d # seen) c = Inr True"
    proof (rule IH, intro ballI)
      fix d' assume "d' \<in> set (d # seen)"
      then show "\<exists>a. find_knot E ks d' = Inr (Some a) \<and> (knot_parent E ks)\<^sup>*\<^sup>* c a"
        using c(1) step.prems p by (auto intro: converse_rtranclp_into_rtranclp)
    qed
    ultimately show ?thesis using c(1) by (auto simp: resolve_parent_True)
  qed
  with step.hyps(1) show ?case by (simp add: check_knot_True check_parents_True)
qed

lemma check_knot_iff: "check_knot E ks [] k = Inr True \<longleftrightarrow> grounded E ks k"
  using check_grounded(1) [of E ks "[]" k] grounded_check [of E ks k "[]"] by auto

lemma verify_loop_ok:
  "fst (verify_loop E ks rows) = Inr None \<longleftrightarrow> (\<forall>(p, k) \<in> set rows. grounded E ks k)"
proof (induction rows)
  case (Cons row rows)
  obtain p k where row: "row = (p, k)" by (cases row)
  show ?case
  proof (cases "check_knot E ks [] k = Inr True")
    case True
    with Cons check_knot_iff [of E ks k] show ?thesis by (auto simp: row split: prod.splits)
  next
    case False
    then have "fst (verify_loop E ks (row # rows)) \<noteq> Inr None"
      by (cases "classify_violation E k") (auto simp: row split: sum.splits bool.splits)
    with False check_knot_iff [of E ks k] show ?thesis by (auto simp: row)
  qed
qed simp

text \<open>What each predicate of a violation says, stated on its own.\<close>

definition clause_holds :: "verify_ctx \<Rightarrow> rootknot list \<Rightarrow> rootknot \<Rightarrow> string \<Rightarrow> bool" where
  "clause_holds E ks k c \<longleftrightarrow>
    (let v = rk_schema_version k in
     if c = ''RK-UNKNOWN-SCHEMA'' then v \<in> {1, 2, 3, 4}
     else if c = ''RK-DOWNGRADE-REFUSED'' then above_floor E k
     else if c = ''RK-V4-LABEL-MISMATCH'' then v = 4 \<longrightarrow> missing_v4 k = []
     else if c = ''RK-1.1'' then
       \<exists>p b. rk_workspace_path k = PStr p \<and> vc_artifact E p = Content b \<and> vc_sha E b = rk_artifact_digest k
     else if c = ''RK-1.2'' then
       \<exists>pk. vc_generator_pk E (rk_generator k) = Some pk \<and> verify_knot (vc_nfc E) (vc_ed E) pk k = Inr True
     else if c = ''RK-1.3'' then plan_active E k
     else if c = ''RK-1.4'' then
       \<exists>steps. map_of (vc_plans E) (rk_plan_id k) = Some steps \<and> rk_step_id k \<in> set steps
     else if c = ''RK-1.5'' then assumption_registered E k
     else if c = ''RK-1.6'' then
       \<forall>d \<in> set (rk_parent_digests k). \<exists>a. find_knot E ks d = Inr (Some a) \<and> grounded E ks a
     else if c = ''RK-2'' then assumption_standing E k
     else if c = ''RK-3'' then vc_strict E \<longrightarrow> 2 \<le> v
     else if c = ''RK-3.1'' then 2 \<le> v \<longrightarrow>
       (case resolved (vc_sandbox_pk E) k of
          None \<Rightarrow> \<not> vc_strict E | Some pk \<Rightarrow> verify_environment (vc_nfc E) (vc_ed E) pk k = Inr True)
     else if c = ''RK-3.2'' then 2 \<le> v \<longrightarrow> registered (vc_suites E) (rk_acceptance_suite_digest k)
     else if c = ''RK-3.3'' then 2 \<le> v \<longrightarrow> rk_predicate_results k \<noteq> []
     else if c = ''RK-3.4'' then 2 \<le> v \<longrightarrow> registered (vc_manifests E) (rk_manifest_digest k)
     else if c = ''AL-1'' then vc_strict E \<longrightarrow> 3 \<le> v
     else if c = ''AL-1.1'' then 3 \<le> v \<longrightarrow>
       (case resolved (vc_alm_pk E) k of
          None \<Rightarrow> \<not> vc_strict E | Some pk \<Rightarrow> verify_antilazy (vc_nfc E) (vc_ed E) pk k = Inr True)
     else if c = ''AL-1.2'' then 3 \<le> v \<longrightarrow>
       (\<forall>g \<in> set (rk_gate_results k). gr_passed g \<or>
         (\<exists>i. gr_handshake g = PStr i \<and> i \<noteq> [] \<and> i \<in> set (vc_approved E)))
     else c = ''AL-1.3'' \<and> (3 \<le> v \<longrightarrow> taint_accepted E k))"

definition knot_clauses :: "string list" where
  "knot_clauses = [''RK-UNKNOWN-SCHEMA'', ''RK-DOWNGRADE-REFUSED'', ''RK-V4-LABEL-MISMATCH'', ''RK-1.1'', ''RK-1.2'',
     ''RK-1.3'', ''RK-1.4'', ''RK-1.5'', ''RK-2'', ''RK-3'', ''RK-3.1'', ''RK-3.2'', ''RK-3.3'', ''RK-3.4'', ''AL-1'',
     ''AL-1.1'', ''AL-1.2'', ''AL-1.3'']"

lemma lift_knot_True [simp]: "lift_knot r = Inr x \<longleftrightarrow> r = Inr x"
  by (simp add: lift_knot_def split: sum.splits)

lemma check_artifact_True: "check_artifact E k = Inr True \<longleftrightarrow> clause_holds E ks k ''RK-1.1''"
  by (auto simp: check_artifact_def clause_holds_def split: pyval.splits artifact.splits)

lemma check_generator_True: "check_generator E k = Inr True \<longleftrightarrow> clause_holds E ks k ''RK-1.2''"
  by (auto simp: check_generator_def clause_holds_def split: option.splits)

lemma check_environment_True: "2 \<le> rk_schema_version k \<Longrightarrow> check_environment E k = Inr True \<longleftrightarrow> clause_holds E ks k ''RK-3.1''"
  by (auto simp: check_environment_def clause_holds_def split: option.splits)

lemma check_antilazy_True: "3 \<le> rk_schema_version k \<Longrightarrow> check_antilazy E k = Inr True \<longleftrightarrow> clause_holds E ks k ''AL-1.1''"
  by (auto simp: check_antilazy_def clause_holds_def split: option.splits)

lemma gate_excused_True:
  "gate_excused approved g = Inr True \<longleftrightarrow>
    gr_passed g \<or> (\<exists>i. gr_handshake g = PStr i \<and> i \<noteq> [] \<and> i \<in> set approved)"
  by (auto simp: gate_excused_def split: pyval.splits)

lemma check_gates_True: "check_gates approved gs = Inr True \<longleftrightarrow> (\<forall>g \<in> set gs. gate_excused approved g = Inr True)"
  by (induction gs) auto

lemma check_gates_clause:
  "3 \<le> rk_schema_version k \<Longrightarrow>
    check_gates (vc_approved E) (rk_gate_results k) = Inr True \<longleftrightarrow> clause_holds E ks k ''AL-1.2''"
  by (simp add: check_gates_True gate_excused_True clause_holds_def)

lemma step_in_plan_clause: "step_in_plan E k \<longleftrightarrow> clause_holds E ks k ''RK-1.4''"
  by (simp add: step_in_plan_def clause_holds_def split: option.splits)

lemma plain_clauses:
  "plan_active E k \<longleftrightarrow> clause_holds E ks k ''RK-1.3''" "assumption_registered E k \<longleftrightarrow> clause_holds E ks k ''RK-1.5''"
  "assumption_standing E k \<longleftrightarrow> clause_holds E ks k ''RK-2''" "above_floor E k \<longleftrightarrow> clause_holds E ks k ''RK-DOWNGRADE-REFUSED''"
  by (simp_all add: clause_holds_def)

lemma schema_clauses:
  "rk_schema_version k \<in> set known_schema_versions \<longleftrightarrow> clause_holds E ks k ''RK-UNKNOWN-SCHEMA''"
  "rk_schema_version k = 4 \<and> missing_v4 k \<noteq> [] \<longleftrightarrow> \<not> clause_holds E ks k ''RK-V4-LABEL-MISMATCH''"
  by (simp_all add: clause_holds_def known_schema_versions_def Let_def)

lemma version_clauses:
  "clause_holds E ks k ''RK-3'' \<longleftrightarrow> (vc_strict E \<longrightarrow> 2 \<le> rk_schema_version k)"
  "clause_holds E ks k ''AL-1'' \<longleftrightarrow> (vc_strict E \<longrightarrow> 3 \<le> rk_schema_version k)"
  "clause_holds E ks k ''RK-3.2'' \<longleftrightarrow> (2 \<le> rk_schema_version k \<longrightarrow> registered (vc_suites E) (rk_acceptance_suite_digest k))"
  "clause_holds E ks k ''RK-3.3'' \<longleftrightarrow> (2 \<le> rk_schema_version k \<longrightarrow> rk_predicate_results k \<noteq> [])"
  "clause_holds E ks k ''RK-3.4'' \<longleftrightarrow> (2 \<le> rk_schema_version k \<longrightarrow> registered (vc_manifests E) (rk_manifest_digest k))"
  "clause_holds E ks k ''AL-1.3'' \<longleftrightarrow> (3 \<le> rk_schema_version k \<longrightarrow> taint_accepted E k)"
  by (simp_all add: clause_holds_def)

lemma clause_below_version:
  "rk_schema_version k < 2 \<Longrightarrow> clause_holds E ks k ''RK-V4-LABEL-MISMATCH''"
  "rk_schema_version k < 2 \<Longrightarrow> clause_holds E ks k ''RK-3.1''"
  "rk_schema_version k < 3 \<Longrightarrow> clause_holds E ks k ''AL-1.1''" "rk_schema_version k < 3 \<Longrightarrow> clause_holds E ks k ''AL-1.2''"
  by (simp_all add: clause_holds_def)

lemmas clause_facts = check_artifact_True check_generator_True check_environment_True check_antilazy_True
  check_gates_clause step_in_plan_clause plain_clauses

lemma check_rk3_clauses:
  "check_rk3 E k = Inr True \<longleftrightarrow>
    (\<forall>c \<in> {''RK-UNKNOWN-SCHEMA'', ''RK-DOWNGRADE-REFUSED'', ''RK-V4-LABEL-MISMATCH'', ''RK-3'', ''RK-3.1'', ''RK-3.2'',
      ''RK-3.3'', ''RK-3.4''}. clause_holds E ks k c)"
proof (cases "rk_schema_version k < 2")
  case True
  then show ?thesis
    by (auto simp: check_rk3_def clause_below_version version_clauses plain_clauses [where ks = ks] schema_clauses [where E = E and ks = ks])
next
  case False
  then show ?thesis
    by (auto simp: check_rk3_def version_clauses clause_facts [where ks = ks] schema_clauses [where E = E and ks = ks])
qed

lemma check_al1_clauses:
  "check_al1 E k = Inr True \<longleftrightarrow> (\<forall>c \<in> {''AL-1'', ''AL-1.1'', ''AL-1.2'', ''AL-1.3''}. clause_holds E ks k c)"
proof (cases "rk_schema_version k < 3")
  case True
  then show ?thesis by (auto simp: check_al1_def clause_below_version version_clauses)
next
  case False
  then show ?thesis by (auto simp: check_al1_def version_clauses clause_facts [where ks = ks] schema_clauses [where E = E and ks = ks])
qed

lemma locally_ok_clauses: "locally_ok E k \<longleftrightarrow> is_ok (knot_bytes E k) \<and> (\<forall>c \<in> set knot_clauses. clause_holds E ks k c)"
  by (auto simp: locally_ok_def checks_before_def checks_after_def knot_clauses_def check_rk3_clauses [of E k ks]
      check_al1_clauses [of E k ks] clause_facts [where ks = ks] schema_clauses [where E = E and ks = ks])

lemma report_Inr: "report c check rest = Inr c' \<longleftrightarrow> (check = Inr False \<and> c' = c) \<or> (check = Inr True \<and> rest = Inr c')"
  by (auto simp: report_def split: sum.splits)

lemma Inr_False_not: "a = Inr False \<Longrightarrow> a \<noteq> Inr True"
  by simp

lemma classify_rk3_Inr:
  assumes "classify_rk3 E k rest = Inr c"
  shows "\<not> clause_holds E ks k c \<or>
    (rest = Inr c \<and> (\<forall>c \<in> {''RK-3'', ''RK-3.1'', ''RK-3.2'', ''RK-3.3'', ''RK-3.4''}. clause_holds E ks k c))"
proof (cases "rk_schema_version k < 2")
  case True
  then show ?thesis
    using assms by (auto simp: classify_rk3_def version_clauses clause_below_version split: if_splits)
next
  case False
  then show ?thesis
    using assms by (auto simp: classify_rk3_def report_Inr version_clauses check_environment_True [where ks = ks]
        dest: Inr_False_not)
qed

lemma classify_al1_Inr:
  assumes "classify_al1 E k rest = Inr c"
  shows "\<not> clause_holds E ks k c \<or>
    (rest = Inr c \<and> (\<forall>c \<in> {''AL-1'', ''AL-1.1'', ''AL-1.2'', ''AL-1.3''}. clause_holds E ks k c))"
proof (cases "rk_schema_version k < 3")
  case True
  then show ?thesis
    using assms by (auto simp: classify_al1_def version_clauses clause_below_version split: if_splits)
next
  case False
  then show ?thesis
    using assms by (auto simp: classify_al1_def report_Inr version_clauses check_antilazy_True [where ks = ks]
        check_gates_clause [where ks = ks] dest: Inr_False_not)
qed

lemma classify_Inr:
  assumes "classify_violation E k = Inr v"
  shows "\<not> clause_holds E ks k (pv_predicate v) \<or>
    (pv_predicate v = ''RK-1.6'' \<and> (\<forall>c \<in> set knot_clauses. clause_holds E ks k c))"
proof -
  let ?c = "pv_predicate v"
  have tail: "\<not> clause_holds E ks k ?c \<or> (?c = ''RK-1.6'' \<and>
      (\<forall>c \<in> {''RK-3'', ''RK-3.1'', ''RK-3.2'', ''RK-3.3'', ''RK-3.4'', ''AL-1'', ''AL-1.1'', ''AL-1.2'', ''AL-1.3''}. clause_holds E ks k c))"
    if "classify_rk3 E k (classify_al1 E k (Inr ''RK-1.6'')) = Inr ?c"
    using classify_rk3_Inr [OF that, of ks] classify_al1_Inr [of E k "Inr ''RK-1.6''" ?c ks] by auto
  let ?head = "[''RK-UNKNOWN-SCHEMA'', ''RK-DOWNGRADE-REFUSED'', ''RK-V4-LABEL-MISMATCH'']"
  note f = clause_facts [where ks = ks] schema_clauses [where E = E and ks = ks]
  show ?thesis
  proof (cases "\<forall>c \<in> set ?head. clause_holds E ks k c")
    case False
    then have "?c \<in> set ?head \<and> \<not> clause_holds E ks k ?c"
      using assms by (auto simp: classify_violation_def violation_of_def f split: if_splits)
    then show ?thesis by blast
  next
    case True
    then have "report ''RK-1.1'' (check_artifact E k) (report ''RK-1.2'' (check_generator E k)
           (report ''RK-1.3'' (Inr (plan_active E k)) (report ''RK-1.4'' (Inr (step_in_plan E k))
               (report ''RK-1.5'' (Inr (assumption_registered E k)) (report ''RK-2'' (Inr (assumption_standing E k))
                   (classify_rk3 E k (classify_al1 E k (Inr ''RK-1.6'')))))))) = Inr ?c"
      using assms by (auto simp: classify_violation_def result_simps violation_of_def f split: if_splits)
    then have "(check_artifact E k = Inr False \<and> ?c = ''RK-1.1'') \<or> check_artifact E k = Inr True \<and>
      ((check_generator E k = Inr False \<and> ?c = ''RK-1.2'') \<or> check_generator E k = Inr True \<and>
      ((\<not> plan_active E k \<and> ?c = ''RK-1.3'') \<or> plan_active E k \<and>
      ((\<not> step_in_plan E k \<and> ?c = ''RK-1.4'') \<or> step_in_plan E k \<and>
      ((\<not> assumption_registered E k \<and> ?c = ''RK-1.5'') \<or> assumption_registered E k \<and>
      ((\<not> assumption_standing E k \<and> ?c = ''RK-2'') \<or> assumption_standing E k \<and>
      classify_rk3 E k (classify_al1 E k (Inr ''RK-1.6'')) = Inr ?c)))))"
      unfolding report_Inr by simp
    with True tail show ?thesis
      unfolding knot_clauses_def by (elim disjE conjE) (simp_all add: f [symmetric])
  qed
qed

subsection \<open>A sidecar read back\<close>

definition text_value :: "pyval \<Rightarrow> bool" where
  "text_value v \<longleftrightarrow> (\<exists>s. v = PStr s \<and> utf8_valid s)"

text \<open>The types the factories give the fields.\<close>

definition typed_knot :: "rootknot \<Rightarrow> bool" where
  "typed_knot k \<longleftrightarrow>
    text_value (gen_model_name (rk_generator k)) \<and> text_value (gen_model_version (rk_generator k)) \<and>
    text_value (rk_workspace_path k) \<and> (\<exists>i. rk_created_at_ns k = PInt i) \<and>
    (\<forall>g \<in> set (rk_gate_results k). utf8_valid (gr_id g) \<and> (gr_handshake g = PNone \<or> text_value (gr_handshake g))) \<and>
    utf8_valid (rk_reversal_taint k) \<and> utf8_valid (rk_run_id k)"

text \<open>What a sidecar of the knot's version keeps of it.\<close>

definition stored :: "rootknot \<Rightarrow> rootknot" where
  "stored k =
    k\<lparr>rk_environment_signature := (if 2 \<le> rk_schema_version k then rk_environment_signature k else []),
       rk_acceptance_suite_digest := (if 2 \<le> rk_schema_version k then rk_acceptance_suite_digest k else zero_digest),
       rk_predicate_results := (if 2 \<le> rk_schema_version k then rk_predicate_results k else []),
       rk_manifest_digest := (if 2 \<le> rk_schema_version k then rk_manifest_digest k else zero_digest),
       rk_antilazy_signature := (if 3 \<le> rk_schema_version k then rk_antilazy_signature k else []),
       rk_gate_results := (if 3 \<le> rk_schema_version k then rk_gate_results k else []),
       rk_reversal_taint := (if 3 \<le> rk_schema_version k then rk_reversal_taint k else ''clean''),
       rk_retrieval_attestation := (if 4 \<le> rk_schema_version k then rk_retrieval_attestation k else None),
       rk_workspace_digest := (if 4 \<le> rk_schema_version k then rk_workspace_digest k else None),
       rk_prompt_digest := (if 4 \<le> rk_schema_version k then rk_prompt_digest k else None),
       rk_run_id := (if 4 \<le> rk_schema_version k then rk_run_id k else [])\<rparr>"

lemma utf8_hex [simp]: "utf8_valid (hex s)"
  by (simp add: utf8_valid_ascii isascii_hex)

lemma utf8_b64 [simp]: "utf8_valid (b64encode s)"
  by (simp add: utf8_below_del below_del_b64)

abbreviation canon_id :: "pyval \<Rightarrow> pyval" where
  "canon_id \<equiv> canon (\<lambda>s. s)"

abbreviation sorted_payload :: "payload \<Rightarrow> payload" where
  "sorted_payload p \<equiv> map (\<lambda>(k, v). (KStr k, canon_id v)) (sorted_members (\<lambda>s. s) p)"

lemma canon_id_dict: "canon_id (PDict p) = PDict (sorted_payload p)"
  by (rule canon_dict)

lemma sorted_lookup:
  "plain_keys p \<Longrightarrow> distinct (map fst p) \<Longrightarrow> map_of (sorted_payload p) k = map_option canon_id (map_of p k)"
  by (rule canon_lookup [OF normalises_id])

lemma canon_id_values [simp]: "map (canon_id \<circ> (\<lambda>d. PStr (hex d))) ds = map (\<lambda>d. PStr (hex d)) ds"
  by simp

lemma hex_values_list [simp]: "hex_values (hex_list ds) = Some ds"
  by (simp add: hex_values_def comp_def hex_bytes_def those_Some_iff)

lemma readable_hex_list [simp]: "readable (hex_list ds)"
  by simp

lemma text_valueE: "text_value v \<Longrightarrow> (\<And>s. v = PStr s \<Longrightarrow> utf8_valid s \<Longrightarrow> P) \<Longrightarrow> P"
  by (auto simp: text_value_def)

lemma readable_generator:
  "text_value (gen_model_name g) \<Longrightarrow> text_value (gen_model_version g) \<Longrightarrow> readable (generator_dict g)"
  by (auto simp: generator_dict_def text_value_def utf8_valid_ascii isascii_def)

lemma readable_gate:
  "utf8_valid (gr_id g) \<Longrightarrow> gr_handshake g = PNone \<or> text_value (gr_handshake g) \<Longrightarrow> readable (canonical_dict g)"
  by (auto simp: canonical_dict_def text_value_def utf8_valid_ascii isascii_def)

lemma read_generator_back:
  assumes "text_value (gen_model_name g)" and "text_value (gen_model_version g)"
  shows "read_generator (canon_id (generator_dict g)) = Some g"
proof -
  let ?p = "[(KStr ''model_name'', gen_model_name g), (KStr ''model_version'', gen_model_version g),
      (KStr ''session_id'', PStr (hex (gen_session_id g))), (KStr ''public_key_id'', PStr (hex (gen_public_key_id g)))]"
  have "map_of (sorted_payload ?p) k = map_option canon_id (map_of ?p k)" for k
    by (rule sorted_lookup) (simp_all add: plain_keys_def isascii_def)
  then show ?thesis
    using assms unfolding generator_dict_def canon_id_dict read_generator_def
    by (auto simp: hex_field_def hex_bytes_def text_value_def)
qed

lemma read_gate_back:
  assumes "gr_handshake g = PNone \<or> text_value (gr_handshake g)"
  shows "read_gate h (canon_id (canonical_dict g)) = Some g"
proof -
  let ?p = "[(KStr ''gate_id'', PStr (gr_id g)), (KStr ''passed'', PBool (gr_passed g)),
       (KStr ''evidence_digest'', PStr (hex (gr_evidence g)))] @
      (if gr_handshake g = PNone then [] else [(KStr ''handshake_id'', gr_handshake g)])"
  have "map_of (sorted_payload ?p) k = map_option canon_id (map_of ?p k)" for k
    by (rule sorted_lookup) (simp_all add: gate_keys)
  then show ?thesis
    using assms unfolding canonical_dict_def canon_id_dict read_gate_def
    by (auto simp: hex_field_def hex_bytes_def text_value_def get_value_def get_default_def)
qed

lemma optional_b64_simps [simp]:
  "map fst (optional_b64 n d) = (if d = None then [] else [KStr n])"
  "map_of (optional_b64 n d) (KStr m) = (if m = n then map_option (\<lambda>x. PStr (b64encode x)) d else None)"
  by (cases d; simp add: optional_b64_def)+

lemma sidecar_names_distinct:
  "distinct ([''schema'', ''plan_id'', ''step_id'', ''assumption_digest'', ''generator'', ''parent_digests'', ''workspace_path'',
      ''artifact_digest'', ''created_at_ns'', ''generator_signature'', ''environment_signature'', ''acceptance_suite_digest'',
      ''predicate_results'', ''manifest_digest'', ''schema_version''] @
    [''antilazy_signature'', ''gate_results'', ''reversal_taint''] @ [''workspace_digest'', ''prompt_digest'', ''run_id''] @
    [''retrieval_attestation''] @ [''sandbox_pubkey_b64''] @ [''alm_pubkey_b64''] @ [])"
  by simp

lemma sidecar_keys:
  "map fst (sidecar_members k sb al) = map KStr
    (if rk_schema_version k < 2
     then [''plan_id'', ''step_id'', ''assumption_digest'', ''generator'', ''parent_digests'', ''workspace_path'',
      ''artifact_digest'', ''created_at_ns'', ''signature'']
     else [''schema'', ''plan_id'', ''step_id'', ''assumption_digest'', ''generator'', ''parent_digests'', ''workspace_path'',
      ''artifact_digest'', ''created_at_ns'', ''generator_signature'', ''environment_signature'', ''acceptance_suite_digest'',
      ''predicate_results'', ''manifest_digest'', ''schema_version''] @
     (if 3 \<le> rk_schema_version k then [''antilazy_signature'', ''gate_results'', ''reversal_taint''] else []) @
     (if 4 \<le> rk_schema_version k then [''workspace_digest'', ''prompt_digest'', ''run_id''] else []) @
     (if 4 \<le> rk_schema_version k \<and> rk_retrieval_attestation k \<noteq> None then [''retrieval_attestation''] else []) @
     (if sb \<noteq> None then [''sandbox_pubkey_b64''] else []) @
     (if 3 \<le> rk_schema_version k \<and> al \<noteq> None then [''alm_pubkey_b64''] else []) @ [])"
  by (simp add: sidecar_members_def base_members_def signed_fields_def antilazy_fields_def)

lemma sidecar_keys_ok: "plain_keys (sidecar_members k sb al)" "distinct (map fst (sidecar_members k sb al))"
proof -
  have eq: "plain_keys kvs \<longleftrightarrow> (\<forall>q \<in> set (map fst kvs). q \<noteq> KOther \<and> isascii (key_str q))" for kvs
    by (simp add: plain_keys_def)
  show "plain_keys (sidecar_members k sb al)"
    unfolding eq sidecar_keys by (auto simp: isascii_def split: if_splits)
  have inj: "inj_on KStr A" for A by (simp add: inj_on_def)
  show "distinct (map fst (sidecar_members k sb al))"
  proof (cases "rk_schema_version k < 2")
    case True
    then show ?thesis unfolding sidecar_keys by (simp add: distinct_map inj)
  next
    case False
    then show ?thesis
      unfolding sidecar_keys distinct_map if_not_P [OF False]
      by (intro conjI distinct_optional [OF sidecar_names_distinct] inj) (auto split: if_splits)
  qed
qed

lemma readable_members:
  assumes "plain_keys p" and "distinct (map fst p)" and "\<forall>v \<in> snd ` set p. readable v"
  shows "readable (PDict p)"
  using assms by (fastforce simp: plain_keys_def utf8_valid_ascii)

lemma readable_sidecar:
  assumes "typed_knot k"
  shows "readable (PDict (sidecar_members k sb al))"
proof (rule readable_members [OF sidecar_keys_ok])
  have r: "readable (rk_workspace_path k)" "readable (rk_created_at_ns k)" "readable (generator_dict (rk_generator k))"
    "\<forall>g \<in> set (rk_gate_results k). readable (canonical_dict g)" "utf8_valid (rk_reversal_taint k)" "utf8_valid (rk_run_id k)"
    using assms readable_generator readable_gate by (auto simp: typed_knot_def text_value_def)
  have "\<forall>v \<in> snd ` set (base_members k). readable v" "\<forall>v \<in> snd ` set (signed_fields k). readable v"
    "\<forall>v \<in> snd ` set (antilazy_fields k). readable v"
    using r by (simp_all add: base_members_def signed_fields_def antilazy_fields_def)
  moreover have "\<forall>v \<in> snd ` set (optional_hex n d). readable v" "\<forall>v \<in> snd ` set (optional_b64 n d). readable v" for n d
    by (cases d; simp add: optional_hex_def optional_b64_def)+
  moreover have "readable (hex_or_null d)" for d by (simp add: hex_or_null_def split: option.splits)
  moreover have "utf8_valid ''sidecar/v4''" "utf8_valid ''sidecar/v3''" "utf8_valid ''sidecar/v2''"
    by (simp_all add: utf8_valid_ascii isascii_def)
  ultimately show "\<forall>v \<in> snd ` set (sidecar_members k sb al). readable v"
    using r(6) unfolding sidecar_members_def by (simp add: ball_Un image_Un)
qed

text \<open>The members of a sidecar that has been read back, under the name of each field.\<close>

abbreviation reread :: "rootknot \<Rightarrow> string option \<Rightarrow> string option \<Rightarrow> payload" where
  "reread k sb al \<equiv> sorted_payload (sidecar_members k sb al)"

lemma reread_lookup: "map_of (reread k sb al) n = map_option canon_id (map_of (sidecar_members k sb al) n)"
  by (rule sorted_lookup [OF sidecar_keys_ok])

lemma reread_Some:
  "(KStr n, v) \<in> set (sidecar_members k sb al) \<Longrightarrow> map_of (reread k sb al) (KStr n) = Some (canon_id v)"
  using map_of_is_SomeI [OF sidecar_keys_ok(2)] by (simp add: reread_lookup)

lemma sidecar_subsets:
  "set (base_members k) \<subseteq> set (sidecar_members k sb al)"
  "2 \<le> rk_schema_version k \<Longrightarrow> set (signed_fields k) \<subseteq> set (sidecar_members k sb al)"
  "3 \<le> rk_schema_version k \<Longrightarrow> set (antilazy_fields k) \<subseteq> set (sidecar_members k sb al)"
  by (auto simp: sidecar_members_def)

lemma reread_base:
  "map_of (reread k sb al) (KStr ''plan_id'') = Some (PStr (hex (rk_plan_id k)))"
  "map_of (reread k sb al) (KStr ''step_id'') = Some (PStr (hex (rk_step_id k)))"
  "map_of (reread k sb al) (KStr ''assumption_digest'') = Some (PStr (hex (rk_assumption_digest k)))"
  "map_of (reread k sb al) (KStr ''generator'') = Some (canon_id (generator_dict (rk_generator k)))"
  "map_of (reread k sb al) (KStr ''parent_digests'') = Some (hex_list (rk_parent_digests k))"
  "map_of (reread k sb al) (KStr ''workspace_path'') = Some (canon_id (rk_workspace_path k))"
  "map_of (reread k sb al) (KStr ''artifact_digest'') = Some (PStr (hex (rk_artifact_digest k)))"
  "map_of (reread k sb al) (KStr ''created_at_ns'') = Some (canon_id (rk_created_at_ns k))"
proof -
  have m: "map_of (reread k sb al) (KStr n) = Some (canon_id v)" if "(KStr n, v) \<in> set (base_members k)" for n v
    using reread_Some sidecar_subsets(1) that by blast
  show "map_of (reread k sb al) (KStr ''plan_id'') = Some (PStr (hex (rk_plan_id k)))"
    "map_of (reread k sb al) (KStr ''step_id'') = Some (PStr (hex (rk_step_id k)))"
    "map_of (reread k sb al) (KStr ''assumption_digest'') = Some (PStr (hex (rk_assumption_digest k)))"
    "map_of (reread k sb al) (KStr ''generator'') = Some (canon_id (generator_dict (rk_generator k)))"
    "map_of (reread k sb al) (KStr ''parent_digests'') = Some (hex_list (rk_parent_digests k))"
    "map_of (reread k sb al) (KStr ''workspace_path'') = Some (canon_id (rk_workspace_path k))"
    "map_of (reread k sb al) (KStr ''artifact_digest'') = Some (PStr (hex (rk_artifact_digest k)))"
    "map_of (reread k sb al) (KStr ''created_at_ns'') = Some (canon_id (rk_created_at_ns k))"
    by (subst m, simp add: base_members_def, simp)+
qed

lemma reread_signed:
  assumes "2 \<le> rk_schema_version k"
  shows "map_of (reread k sb al) (KStr ''generator_signature'') = Some (PStr (hex (rk_generator_signature k)))"
    and "map_of (reread k sb al) (KStr ''environment_signature'') = Some (PStr (hex (rk_environment_signature k)))"
    and "map_of (reread k sb al) (KStr ''acceptance_suite_digest'') = Some (PStr (hex (rk_acceptance_suite_digest k)))"
    and "map_of (reread k sb al) (KStr ''predicate_results'') = Some (hex_list (rk_predicate_results k))"
    and "map_of (reread k sb al) (KStr ''manifest_digest'') = Some (PStr (hex (rk_manifest_digest k)))"
    and "map_of (reread k sb al) (KStr ''schema_version'') = Some (PInt (rk_schema_version k))"
proof -
  have m: "map_of (reread k sb al) (KStr n) = Some (canon_id v)" if "(KStr n, v) \<in> set (signed_fields k)" for n v
    using reread_Some sidecar_subsets(2) [OF assms] that by blast
  show "map_of (reread k sb al) (KStr ''generator_signature'') = Some (PStr (hex (rk_generator_signature k)))"
    "map_of (reread k sb al) (KStr ''environment_signature'') = Some (PStr (hex (rk_environment_signature k)))"
    "map_of (reread k sb al) (KStr ''acceptance_suite_digest'') = Some (PStr (hex (rk_acceptance_suite_digest k)))"
    "map_of (reread k sb al) (KStr ''predicate_results'') = Some (hex_list (rk_predicate_results k))"
    "map_of (reread k sb al) (KStr ''manifest_digest'') = Some (PStr (hex (rk_manifest_digest k)))"
    "map_of (reread k sb al) (KStr ''schema_version'') = Some (PInt (rk_schema_version k))"
    by (subst m, simp add: signed_fields_def, simp)+
qed

lemma reread_antilazy:
  assumes "3 \<le> rk_schema_version k"
  shows "map_of (reread k sb al) (KStr ''antilazy_signature'') = Some (PStr (hex (rk_antilazy_signature k)))"
    and "map_of (reread k sb al) (KStr ''gate_results'') = Some (PList (map (\<lambda>g. canon_id (canonical_dict g)) (rk_gate_results k)))"
    and "map_of (reread k sb al) (KStr ''reversal_taint'') = Some (PStr (rk_reversal_taint k))"
proof -
  have m: "map_of (reread k sb al) (KStr n) = Some (canon_id v)" if "(KStr n, v) \<in> set (antilazy_fields k)" for n v
    using reread_Some sidecar_subsets(3) [OF assms] that by blast
  show "map_of (reread k sb al) (KStr ''antilazy_signature'') = Some (PStr (hex (rk_antilazy_signature k)))"
    "map_of (reread k sb al) (KStr ''gate_results'') = Some (PList (map (\<lambda>g. canon_id (canonical_dict g)) (rk_gate_results k)))"
    "map_of (reread k sb al) (KStr ''reversal_taint'') = Some (PStr (rk_reversal_taint k))"
    by (subst m, simp add: antilazy_fields_def, simp add: comp_def)+
qed

lemma reread_v4:
  assumes "4 \<le> rk_schema_version k"
  shows "map_of (reread k sb al) (KStr ''workspace_digest'') = Some (hex_or_null (rk_workspace_digest k))"
    and "map_of (reread k sb al) (KStr ''prompt_digest'') = Some (hex_or_null (rk_prompt_digest k))"
    and "map_of (reread k sb al) (KStr ''run_id'') = Some (PStr (rk_run_id k))"
    and "map_of (reread k sb al) (KStr ''retrieval_attestation'') = map_option (\<lambda>x. PStr (hex x)) (rk_retrieval_attestation k)"
proof -
  have c: "canon_id (hex_or_null d) = hex_or_null d" for d by (simp add: hex_or_null_def split: option.splits)
  note m = reread_Some [of _ _ k sb al]
  have "(KStr ''workspace_digest'', hex_or_null (rk_workspace_digest k)) \<in> set (sidecar_members k sb al)"
    "(KStr ''prompt_digest'', hex_or_null (rk_prompt_digest k)) \<in> set (sidecar_members k sb al)"
    "(KStr ''run_id'', PStr (rk_run_id k)) \<in> set (sidecar_members k sb al)"
    using assms by (simp_all add: sidecar_members_def)
  from this [THEN m] show "map_of (reread k sb al) (KStr ''workspace_digest'') = Some (hex_or_null (rk_workspace_digest k))"
    "map_of (reread k sb al) (KStr ''prompt_digest'') = Some (hex_or_null (rk_prompt_digest k))"
    "map_of (reread k sb al) (KStr ''run_id'') = Some (PStr (rk_run_id k))" by (simp_all add: c)
  show "map_of (reread k sb al) (KStr ''retrieval_attestation'') = map_option (\<lambda>x. PStr (hex x)) (rk_retrieval_attestation k)"
  proof (cases "rk_retrieval_attestation k")
    case None
    then have "KStr ''retrieval_attestation'' \<notin> set (map fst (sidecar_members k sb al))"
      unfolding sidecar_keys by auto
    then have "map_of (sidecar_members k sb al) (KStr ''retrieval_attestation'') = None" by (simp add: map_of_eq_None_iff)
    then show ?thesis by (simp add: reread_lookup None)
  next
    case (Some r)
    then have "(KStr ''retrieval_attestation'', PStr (hex r)) \<in> set (sidecar_members k sb al)"
      using assms by (simp add: sidecar_members_def optional_hex_def)
    from m [OF this] show ?thesis by (simp add: Some)
  qed
qed

lemma reread_schema:
  "get_value (reread k sb al) ''schema'' =
    (if 4 \<le> rk_schema_version k then PStr ''sidecar/v4'' else if 3 \<le> rk_schema_version k then PStr ''sidecar/v3''
     else if 2 \<le> rk_schema_version k then PStr ''sidecar/v2'' else PNone)"
proof (cases "rk_schema_version k < 2")
  case True
  then have "KStr ''schema'' \<notin> set (map fst (sidecar_members k sb al))" unfolding sidecar_keys by simp
  then have "map_of (sidecar_members k sb al) (KStr ''schema'') = None" by (simp add: map_of_eq_None_iff)
  with True show ?thesis by (simp add: get_value_def get_default_def reread_lookup)
next
  case False
  let ?s = "if 4 \<le> rk_schema_version k then ''sidecar/v4'' else if 3 \<le> rk_schema_version k then ''sidecar/v3'' else ''sidecar/v2''"
  have "(KStr ''schema'', PStr ?s) \<in> set (sidecar_members k sb al)" using False by (simp add: sidecar_members_def)
  from reread_Some [OF this] False show ?thesis by (simp add: get_value_def get_default_def)
qed

lemma reread_v1: "rk_schema_version k < 2 \<Longrightarrow> map_of (reread k sb al) (KStr ''signature'') = Some (PStr (hex (rk_generator_signature k)))"
  using reread_Some [of "''signature''" "PStr (hex (rk_generator_signature k))" k sb al] by (simp add: sidecar_members_def)

lemma hex_fields:
  "map_of p (KStr n) = Some (PStr (hex x)) \<Longrightarrow> hex_field p n = Some x"
  by (simp add: hex_field_def hex_bytes_def)

text \<open>The knot the v1 reader builds from the members of \<open>k\<close>.\<close>

definition base_knot :: "rootknot \<Rightarrow> rootknot" where
  "base_knot k =
    \<lparr>rk_plan_id = rk_plan_id k, rk_step_id = rk_step_id k, rk_assumption_digest = rk_assumption_digest k,
     rk_generator = rk_generator k, rk_parent_digests = rk_parent_digests k, rk_workspace_path = rk_workspace_path k,
     rk_artifact_digest = rk_artifact_digest k, rk_created_at_ns = rk_created_at_ns k,
     rk_generator_signature = rk_generator_signature k, rk_environment_signature = [],
     rk_acceptance_suite_digest = zero_digest, rk_predicate_results = [], rk_manifest_digest = zero_digest,
     rk_antilazy_signature = [], rk_gate_results = [], rk_reversal_taint = ''clean'', rk_schema_version = 1,
     rk_retrieval_attestation = None, rk_workspace_digest = None, rk_prompt_digest = None, rk_run_id = []\<rparr>"

lemma read_base_back:
  assumes "typed_knot k" and "map_of (reread k sb al) (KStr sig) = Some (PStr (hex (rk_generator_signature k)))"
  shows "read_base sig (reread k sb al) = Some (base_knot k)"
proof -
  have names: "text_value (gen_model_name (rk_generator k))" "text_value (gen_model_version (rk_generator k))"
    and path: "canon_id (rk_workspace_path k) = rk_workspace_path k" and time: "canon_id (rk_created_at_ns k) = rk_created_at_ns k"
    using assms(1) by (auto simp: typed_knot_def text_value_def)
  note h = hex_fields [OF reread_base(1)] hex_fields [OF reread_base(2)] hex_fields [OF reread_base(3)]
    hex_fields [OF reread_base(7)] hex_fields [OF assms(2)]
  show ?thesis
    using read_generator_back [OF names] unfolding read_base_def h base_knot_def
    by (simp add: reread_base path time del: map_map)
qed

lemma those_read_gates:
  assumes "\<forall>g \<in> set gs. gr_handshake g = PNone \<or> text_value (gr_handshake g)"
  shows "those (map (read_gate h) (map (\<lambda>g. canon_id (canonical_dict g)) gs)) = Some gs"
proof -
  have "map (read_gate h) (map (\<lambda>g. canon_id (canonical_dict g)) gs) = map Some gs"
    unfolding map_map by (rule map_cong [OF refl]) (use assms read_gate_back in auto)
  then show ?thesis by (simp only: those_Some_iff)
qed

lemma get_default_Some: "map_of p (KStr n) = Some v \<Longrightarrow> get_default p n w = v"
  by (simp add: get_default_def)

lemma read_v2_back:
  assumes "typed_knot k" and v: "2 \<le> rk_schema_version k"
  shows "read_v2 h d (reread k sb al) = Some ((base_knot k)\<lparr>rk_environment_signature := rk_environment_signature k,
    rk_acceptance_suite_digest := rk_acceptance_suite_digest k, rk_predicate_results := rk_predicate_results k,
    rk_manifest_digest := rk_manifest_digest k, rk_schema_version := rk_schema_version k\<rparr>)"
  using read_base_back [OF assms(1) reread_signed(1) [OF v]]
  unfolding read_v2_def hex_fields [OF reread_signed(2) [OF v]] hex_fields [OF reread_signed(3) [OF v]]
    hex_fields [OF reread_signed(5) [OF v]] get_default_Some [OF reread_signed(4) [OF v]]
    get_default_Some [OF reread_signed(6) [OF v]]
  by simp

lemma read_v3_back:
  assumes t: "typed_knot k" and v: "3 \<le> rk_schema_version k"
  shows "read_v3 h d (reread k sb al) = Some ((base_knot k)\<lparr>rk_environment_signature := rk_environment_signature k,
    rk_acceptance_suite_digest := rk_acceptance_suite_digest k, rk_predicate_results := rk_predicate_results k,
    rk_manifest_digest := rk_manifest_digest k, rk_schema_version := rk_schema_version k,
    rk_antilazy_signature := rk_antilazy_signature k, rk_gate_results := rk_gate_results k,
    rk_reversal_taint := rk_reversal_taint k\<rparr>)"
proof -
  have v2: "2 \<le> rk_schema_version k" using v by simp
  have g: "\<forall>g \<in> set (rk_gate_results k). gr_handshake g = PNone \<or> text_value (gr_handshake g)"
    using t by (simp add: typed_knot_def)
  have "hex_bytes (PStr (hex (rk_antilazy_signature k))) = Some (rk_antilazy_signature k)" by (simp add: hex_bytes_def)
  then show ?thesis
    using read_v2_back [OF t v2] those_read_gates [OF g]
    unfolding read_v3_def get_default_Some [OF reread_antilazy(1) [OF v]] get_default_Some [OF reread_antilazy(2) [OF v]]
      get_default_Some [OF reread_antilazy(3) [OF v]]
    by (simp del: map_map)
qed

lemma optional_digest_back: "get_value p n = hex_or_null d \<Longrightarrow> optional_digest p n = Some d"
  by (cases d) (simp_all add: optional_digest_def hex_or_null_def hex_bytes_def)

lemma read_v4_back:
  assumes t: "typed_knot k" and v: "4 \<le> rk_schema_version k"
  shows "read_v4 h (reread k sb al) = Some k"
proof -
  have v3: "3 \<le> rk_schema_version k" using v by simp
  have "get_value (reread k sb al) ''retrieval_attestation'' = hex_or_null (rk_retrieval_attestation k)"
    using reread_v4(4) [OF v] by (cases "rk_retrieval_attestation k") (simp_all add: get_value_def get_default_def hex_or_null_def)
  moreover have "get_value (reread k sb al) ''workspace_digest'' = hex_or_null (rk_workspace_digest k)"
    "get_value (reread k sb al) ''prompt_digest'' = hex_or_null (rk_prompt_digest k)"
    unfolding get_value_def by (rule get_default_Some, rule reread_v4 [OF v])+
  ultimately have "read_v4 h (reread k sb al) = Some ((base_knot k)\<lparr>rk_environment_signature := rk_environment_signature k,
    rk_acceptance_suite_digest := rk_acceptance_suite_digest k, rk_predicate_results := rk_predicate_results k,
    rk_manifest_digest := rk_manifest_digest k, rk_schema_version := rk_schema_version k,
    rk_antilazy_signature := rk_antilazy_signature k, rk_gate_results := rk_gate_results k,
    rk_reversal_taint := rk_reversal_taint k, rk_retrieval_attestation := rk_retrieval_attestation k,
    rk_workspace_digest := rk_workspace_digest k, rk_prompt_digest := rk_prompt_digest k, rk_run_id := rk_run_id k\<rparr>)"
    unfolding read_v4_def read_v3_back [OF t v3] get_default_Some [OF reread_v4(3) [OF v]]
    by (simp add: optional_digest_back)
  then show ?thesis by (simp add: base_knot_def)
qed

lemma built_stored: "built k \<Longrightarrow> built (stored k)"
  by (simp add: built_iff stored_def missing_v4_def)

lemma knot_of_data_back:
  assumes t: "typed_knot k" and b: "built k"
  shows "knot_of_data h (reread k sb al) = Inr (stored k)"
proof -
  have c: "construct (Some (stored k)) = Inr (stored k)"
    using built_stored [OF b] by (simp add: construct_def built_def)
  from b consider (v1) "rk_schema_version k = 1" | (v2) "rk_schema_version k = 2" | (v3) "rk_schema_version k = 3"
    | (v4) "rk_schema_version k = 4" by (auto simp: built_iff)
  then show ?thesis
  proof cases
    case v1
    then have "read_base ''signature'' (reread k sb al) = Some (stored k)"
      using read_base_back [OF t reread_v1, of sb al] by (simp add: stored_def base_knot_def)
    with v1 c show ?thesis by (simp add: knot_of_data_def reread_schema)
  next
    case v2
    then have "read_v2 h 2 (reread k sb al) = Some (stored k)"
      using read_v2_back [OF t, of h 2 sb al] by (simp add: stored_def base_knot_def)
    with v2 c show ?thesis by (simp add: knot_of_data_def reread_schema)
  next
    case v3
    then have "read_v3 h 3 (reread k sb al) = Some (stored k)"
      using read_v3_back [OF t, of h 3 sb al] by (simp add: stored_def base_knot_def)
    with v3 c show ?thesis by (simp add: knot_of_data_def reread_schema)
  next
    case v4
    then have "read_v4 h (reread k sb al) = Some (stored k)"
      using read_v4_back [OF t, of h sb al] by (simp add: stored_def)
    with v4 c show ?thesis by (simp add: knot_of_data_def reread_schema)
  qed
qed

lemma knot_json_back:
  assumes "typed_knot k" and "built k"
  obtains s where "knot_to_json k sb al = Some s" and "knot_from_json h fl s = Inr (stored k)"
proof -
  obtain s where "dumps_sorted (PDict (sidecar_members k sb al)) = Some s"
    and "json_loads fl s = Some (canon_id (PDict (sidecar_members k sb al)))"
    by (rule loads_dumps_sorted [OF readable_sidecar [OF assms(1)]])
  with knot_of_data_back [OF assms] show thesis
    by (intro that [of s]) (simp_all add: knot_to_json_def knot_from_json_def canon_id_dict del: canon.simps)
qed

subsection \<open>Properties\<close>

lemma all_knots_built: "all_knots h fl rows = Inr ks \<Longrightarrow> (p, k) \<in> set ks \<Longrightarrow> built k"
proof (induction rows arbitrary: ks)
  case (Cons row rows)
  have b: "built k" if "knot_from_json h fl t = Inr k" for t k
    using that by (auto simp: knot_from_json_def knot_of_data_def Let_def construct_def post_init_Inr
        split: option.splits pyval.splits if_splits sum.splits knot_error.splits)
  from Cons show ?case by (cases row) (auto simp: result_simps b split: sum.splits)
qed simp

lemma all_knots_mem:
  "all_knots h fl rows = Inr ks \<Longrightarrow> (p, t) \<in> set rows \<Longrightarrow> \<exists>k. knot_from_json h fl t = Inr k \<and> (p, k) \<in> set ks"
  by (induction rows arbitrary: ks) (auto simp: result_simps split: sum.splits)

lemma verify_workspace_ok:
  "fst (verify_workspace E h fl st) = Inr None \<longleftrightarrow>
    (\<exists>ks. all_knots h fl (ps_rows st) = Inr ks \<and> (\<forall>(p, k) \<in> set ks. grounded E (map snd ks) k))"
  by (auto simp: verify_workspace_def verify_loop_ok split: sum.splits)


lemma verify_loop_violation:
  assumes "fst (verify_loop E ks rows) = Inr (Some v)"
  obtains p k where "(p, k) \<in> set rows" and "check_knot E ks [] k = Inr False" and "classify_violation E k = Inr v"
  using assms
proof (induction rows arbitrary: thesis)
  case (Cons row rows)
  obtain p k where row: "row = (p, k)" by (cases row)
  consider (err) e where "check_knot E ks [] k = Inl e" | (no) "check_knot E ks [] k = Inr False"
    | (yes) "check_knot E ks [] k = Inr True" by (cases "check_knot E ks [] k") auto
  then show ?case
  proof cases
    case err
    with Cons.prems(2) show ?thesis by (simp add: row)
  next
    case no
    with Cons.prems(2) have "classify_violation E k = Inr v" by (auto simp: row result_simps)
    with no Cons.prems(1) [of p k] show ?thesis by (simp add: row)
  next
    case yes
    with Cons.prems(2) have "fst (verify_loop E ks rows) = Inr (Some v)" by (simp add: row split: prod.splits)
    with Cons.IH Cons.prems(1) show ?thesis by (metis list.set_intros(2))
  qed
qed simp

lemma refused_clause:
  assumes "check_knot E ks [] k = Inr False" and "classify_violation E k = Inr v"
  shows "\<not> clause_holds E ks k (pv_predicate v)" and "pv_file v = rk_workspace_path k"
proof -
  show "pv_file v = rk_workspace_path k"
    using assms(2) by (auto simp: classify_violation_def violation_of_def result_simps)
  show "\<not> clause_holds E ks k (pv_predicate v)"
  proof
    assume h: "clause_holds E ks k (pv_predicate v)"
    with classify_Inr [OF assms(2), of ks] have c: "pv_predicate v = ''RK-1.6''" "\<forall>c \<in> set knot_clauses. clause_holds E ks k c"
      by blast+
    moreover have "is_ok (knot_bytes E k)" using assms(1) by (auto simp: check_knot.simps is_ok_iff split: sum.splits)
    ultimately have "locally_ok E k" by (simp add: locally_ok_clauses [of E k ks])
    moreover have "\<forall>d \<in> set (rk_parent_digests k). \<exists>a. find_knot E ks d = Inr (Some a) \<and> grounded E ks a"
      using h c(1) by (simp add: clause_holds_def)
    ultimately have "grounded E ks k" by (intro grounded.step) auto
    with check_knot_iff [of E ks k] assms(1) show False by simp
  qed
qed

text \<open>
  C9. The violation names the truth. When all sidecars load and \<open>verify_workspace\<close> reports a
  violation, the reported file is the path of a stored knot for which the reported clause does
  not hold; RK-1.6 is reported only when a parent really is missing, refused or cyclic.
\<close>

theorem violation_names_failing_clause:
  assumes "all_knots h fl (ps_rows st) = Inr ks" and "fst (verify_workspace E h fl st) = Inr (Some v)"
  shows "\<exists>(p, k) \<in> set ks. pv_file v = rk_workspace_path k \<and> \<not> clause_holds E (map snd ks) k (pv_predicate v)"
proof -
  have "fst (verify_loop E (map snd ks) ks) = Inr (Some v)" using assms by (simp add: verify_workspace_def)
  then obtain p k where "(p, k) \<in> set ks" "check_knot E (map snd ks) [] k = Inr False" "classify_violation E k = Inr v"
    by (rule verify_loop_violation)
  with refused_clause [OF this(2,3)] show ?thesis by blast
qed

text \<open>A context in which the demo knot checks out, and one in which its artifact is gone.\<close>

definition prov_demo_ctx :: "artifact \<Rightarrow> verify_ctx" where
  "prov_demo_ctx found =
    \<lparr>vc_nfc = (\<lambda>s. s), vc_sha = knot_demo_sha,
     vc_ed = (\<lambda>m s pk. canonical_bytes (\<lambda>s. s) knot_demo_v1 = Inr m), vc_artifact = (\<lambda>_. found),
     vc_plans = [(''P'', [''S''])], vc_assumptions = [(''A'', Some ''CONFIRMED'')], vc_generator_pk = (\<lambda>_. Some ''gen''),
     vc_sandbox_pk = None, vc_suites = None, vc_manifests = None, vc_alm_pk = None, vc_approved = [],
     vc_partial_runs = [], vc_strict = False, vc_floor = None\<rparr>"

definition prov_demo_store :: "string \<Rightarrow> prov_store" where
  "prov_demo_store s = \<lparr>ps_rows = [(''a.py'', s)], ps_sidecars = [], ps_events = []\<rparr>"

lemma knot_demo_typed: "typed_knot knot_demo_v1" "stored knot_demo_v1 = knot_demo_v1"
  by (simp_all add: knot_demo_v1_def unsigned_v1_def typed_knot_def make_generator_def knot_demo_args_def text_value_def
      utf8_valid_ascii isascii_def stored_def)

lemma prov_demo_row:
  obtains s where "knot_to_json knot_demo_v1 None None = Some s"
    and "all_knots demo_host fl (ps_rows (prov_demo_store s)) = Inr [(''a.py'', knot_demo_v1)]"
proof -
  obtain s where s: "knot_to_json knot_demo_v1 None None = Some s"
    and k: "knot_from_json demo_host fl s = Inr (stored knot_demo_v1)"
    by (rule knot_json_back [OF knot_demo_typed(1) knot_demo_ok(2)])
  have "all_knots demo_host fl (ps_rows (prov_demo_store s)) = Inr [(''a.py'', knot_demo_v1)]"
    by (simp add: prov_demo_store_def k knot_demo_typed(2))
  with s show thesis by (rule that)
qed

lemma prov_demo_checks:
  "check_knot (prov_demo_ctx (Content ''x = 1'')) [knot_demo_v1] [] knot_demo_v1 = Inr True"
  "check_knot (prov_demo_ctx Missing) [knot_demo_v1] [] knot_demo_v1 = Inr False"
  "classify_violation (prov_demo_ctx Missing) knot_demo_v1 = Inr \<lparr>pv_file = PStr ''a.py'', pv_predicate = ''RK-1.1''\<rparr>"
proof -
  obtain t where t: "canonical_bytes (\<lambda>s. s) knot_demo_v1 = Inr t" using knot_demo_ok(1) by (auto simp: is_ok_iff)
  have f: "rk_workspace_path knot_demo_v1 = PStr ''a.py''" "rk_plan_id knot_demo_v1 = ''P''" "rk_step_id knot_demo_v1 = ''S''"
    "rk_assumption_digest knot_demo_v1 = ''A''" "rk_parent_digests knot_demo_v1 = []" "rk_schema_version knot_demo_v1 = 1"
    "rk_artifact_digest knot_demo_v1 = knot_demo_sha ''x = 1''"
    by (simp_all add: knot_demo_v1_def unsigned_v1_def knot_demo_args_def given_or_def)
  show "check_knot (prov_demo_ctx (Content ''x = 1'')) [knot_demo_v1] [] knot_demo_v1 = Inr True"
    by (simp add: check_knot_True locally_ok_def knot_bytes_def lift_knot_def prov_demo_ctx_def t checks_before_def
        checks_after_def check_artifact_def check_generator_def verify_knot_def f plan_active_def step_in_plan_def
        assumption_registered_def assumption_standing_def check_rk3_def check_al1_def known_schema_versions_def above_floor_def)
  show "check_knot (prov_demo_ctx Missing) [knot_demo_v1] [] knot_demo_v1 = Inr False"
    by (simp add: check_knot.simps knot_bytes_def lift_knot_def prov_demo_ctx_def t checks_before_def check_artifact_def f)
  show "classify_violation (prov_demo_ctx Missing) knot_demo_v1 = Inr \<lparr>pv_file = PStr ''a.py'', pv_predicate = ''RK-1.1''\<rparr>"
    by (simp add: classify_violation_def prov_demo_ctx_def f known_schema_versions_def above_floor_def check_artifact_def
        report_def violation_of_def)
qed

theorem violation_names_failing_clause_witness:
  "\<not> clause_holds (prov_demo_ctx Missing) [knot_demo_v1] knot_demo_v1 ''RK-1.1''"
proof -
  obtain s where s: "all_knots demo_host (\<lambda>_. FNan) (ps_rows (prov_demo_store s)) = Inr [(''a.py'', knot_demo_v1)]"
    by (rule prov_demo_row)
  then have "fst (verify_workspace (prov_demo_ctx Missing) demo_host (\<lambda>_. FNan) (prov_demo_store s))
      = Inr (Some \<lparr>pv_file = PStr ''a.py'', pv_predicate = ''RK-1.1''\<rparr>)"
    by (simp add: verify_workspace_def prov_demo_checks)
  from violation_names_failing_clause [OF s this] show ?thesis by simp
qed

lemma grounded_clauses: "grounded E ks k \<Longrightarrow> c \<in> set knot_clauses \<Longrightarrow> clause_holds E ks k c"
  by (erule groundedE) (simp add: locally_ok_clauses [of E k ks])



lemma map_of_filter_key: "map_of (filter (\<lambda>(q, _). q \<noteq> r) xs) x = (if x = r then None else map_of xs x)"
  by (induction xs) auto

text \<open>
  A knot saved for an artifact is what \<open>load\<close> returns for it, up to the fields the sidecar of
  its version leaves out (none in version 4), and the knots of other artifacts are untouched.
\<close>

theorem saved_knot_loaded:
  assumes "typed_knot k" and "built k" and "save_knot root k p sb al st = (ok, st')"
  shows "ok \<and> load_knot h fl root p st' = Inr (Some (stored k)) \<and>
    (rk_schema_version k = 4 \<longrightarrow> stored k = k) \<and>
    (rel_path root q \<noteq> rel_path root p \<longrightarrow> load_knot h fl root q st' = load_knot h fl root q st)"
proof -
  obtain s where s: "knot_to_json k sb al = Some s" "knot_from_json h fl s = Inr (stored k)"
    by (rule knot_json_back [OF assms(1,2)])
  let ?r = "rel_path root p" and ?rows = "filter (\<lambda>(q, _). q \<noteq> rel_path root p) (ps_rows st)"
  have st': "ok" "ps_rows st' = ?rows @ [(?r, s)]" using assms(3) by (auto simp: save_knot_def s(1))
  have none: "map_of ?rows ?r = None" by (auto simp: map_of_eq_None_iff)
  have other: "map_of ?rows x = map_of (ps_rows st) x" if "x \<noteq> ?r" for x
    using that by (simp add: map_of_filter_key)
  have "map_of (ps_rows st') ?r = Some s" by (simp add: st' map_add_def none)
  moreover have "map_of (ps_rows st') x = map_of (ps_rows st) x" if "x \<noteq> ?r" for x
    by (simp add: st' map_add_def other that split: option.splits)
  moreover have "rk_schema_version k = 4 \<longrightarrow> stored k = k" by (simp add: stored_def)
  ultimately show ?thesis using st'(1) s(2) by (simp add: load_knot_def)
qed

theorem saved_knot_loaded_witness:
  "\<exists>st'. save_knot ''/r'' knot_demo_v1 ''/r/a.py'' None None (prov_demo_store ''{}'') = (True, st') \<and>
    load_knot demo_host (\<lambda>_. FNan) ''/r'' ''/r/a.py'' st' = Inr (Some knot_demo_v1)"
proof -
  obtain ok st' where sv: "save_knot ''/r'' knot_demo_v1 ''/r/a.py'' None None (prov_demo_store ''{}'') = (ok, st')"
    by (rule prod.exhaust)
  from saved_knot_loaded [OF knot_demo_typed(1) knot_demo_ok(2) sv, of demo_host "\<lambda>_. FNan"] show ?thesis
    using sv by (simp add: knot_demo_typed(2))
qed

lemma typed_floatless: "typed_knot k \<Longrightarrow> floatless k"
proof -
  assume t: "typed_knot k"
  have "float_free (generator_dict (rk_generator k))" "\<forall>g \<in> set (rk_gate_results k). float_free (canonical_dict g)"
    using t by (auto simp: typed_knot_def text_value_def generator_dict_def canonical_dict_def)
  moreover have "float_free (rk_workspace_path k)" "float_free (rk_created_at_ns k)"
    using t by (auto simp: typed_knot_def text_value_def)
  moreover have "\<forall>kv \<in> set (optional_hex n d). float_free (snd kv)" for n d by (cases d) (simp_all add: optional_hex_def)
  ultimately show ?thesis
    unfolding floatless_def float_free.simps knot_members_def base_members_def ball_Un set_append by (auto simp: ball_simps)
qed

lemma stored_typed: "typed_knot k \<Longrightarrow> typed_knot (stored k)"
  by (simp add: typed_knot_def stored_def utf8_valid_ascii isascii_def)

lemma stored_members:
  assumes "rk_schema_version k < 4" and "rk_retrieval_attestation k = None" "rk_workspace_digest k = None"
    "rk_prompt_digest k = None" "rk_run_id k = []"
  shows "knot_members (stored k) = knot_members k"
  using assms by (simp add: knot_members_def base_members_def stored_def)


definition prov_demo_v3 :: rootknot where
  "prov_demo_v3 = unsigned_v3 knot_demo_sha knot_demo_key knot_demo_args knot_demo_attest [] ''clean'' (Some ''R'')"


lemma mint_written_knot:
  assumes "mint_written nfc sha observe w a ledger = (Some k, ledger')"
  obtains rel suite manifest wd pd gen env alm where "wr_relative a = Some rel"
    and "k = (unsigned_v4 sha (the (ws_key w)) (write_args sha a rel) \<lparr>aa_suite = suite, aa_predicates = [], aa_manifest = manifest\<rparr>
        (case ws_gates w of None \<Rightarrow> [] | Some gs \<Rightarrow> gs) ''clean'' None wd pd (given_or (ws_ambient_run w) (ws_run_attribute w)))
      \<lparr>rk_generator_signature := gen, rk_environment_signature := env, rk_antilazy_signature := alm\<rparr>"
    and "built k"
proof -
  let ?run = "given_or (ws_ambient_run w) (ws_run_attribute w)"
  from assms obtain rel wd pd suite manifest where r: "wr_relative a = Some rel" "the (ws_workspace w) = Some wd"
      "the (ws_prompt w) = Some pd" "Option.bind (the (ws_suite w)) fromhex = Some suite" "the (ws_manifest w) = Some manifest"
    and run: "?run \<noteq> []"
    by (auto simp: mint_written_def Let_def split: option.splits if_splits)
  let ?k = "unsigned_v4 sha (the (ws_key w)) (write_args sha a rel) \<lparr>aa_suite = suite, aa_predicates = [], aa_manifest = manifest\<rparr>
        (case ws_gates w of None \<Rightarrow> [] | Some gs \<Rightarrow> gs) ''clean'' None wd pd ?run"
  have run2: "given_or (Some ?run) (given_or (ws_ambient_run w) []) = ?run" using run by (simp add: given_or_def)
  have "triple_attest nfc observe (the (ws_key w)) (the (ws_sandbox w)) (the (ws_alm w)) ?k ledger = (Inr k, ledger')"
    using assms run by (auto simp: mint_written_def r make_rootknot_v4_def run2 Let_def split: sum.splits prod.splits)
  moreover have "3 \<le> rk_schema_version ?k" by (simp add: unsigned_v4_def)
  ultimately obtain t where t: "rbind (knot_post_init ?k) (canonical_bytes nfc) = Inr t"
    and k: "k = ?k\<lparr>rk_generator_signature := key_sign (the (ws_key w)) t, rk_environment_signature := the (ws_sandbox w) t,
      rk_antilazy_signature := the (ws_alm w) t\<rparr>"
    by (auto simp: triple_attest_eq Let_def split: sum.splits)
  have "built k" using t by (auto simp: k result_simps post_init_Inr)
  with that r(1) k show thesis by blast
qed

text \<open>
  C12. No artifact the executor records verifies. \<open>_record_provenance\<close> mints its knots with no
  predicate results, and RK-3.3 refuses a knot of version 2 or above without them: once it has
  recorded a knot, \<open>verify_workspace\<close> does not return ok, whatever keys, registries and policy
  it is given.
\<close>

theorem recorded_knots_refused:
  assumes "record_provenance nfc sha observe w (Some root) a st ledger = (True, st', ledger')"
    and "\<forall>rel. wr_relative a = Some rel \<longrightarrow> utf8_valid (slashes rel)"
    and "\<forall>gs. ws_gates w = Some gs \<longrightarrow> (\<forall>g \<in> set gs. utf8_valid (gr_id g) \<and> (gr_handshake g = PNone \<or> text_value (gr_handshake g)))"
    and "utf8_valid (given_or (ws_ambient_run w) (ws_run_attribute w))"
  shows "fst (verify_workspace E h fl st') \<noteq> Inr None"
proof
  assume "fst (verify_workspace E h fl st') = Inr None"
  then obtain ks where ks: "all_knots h fl (ps_rows st') = Inr ks" "\<forall>(p, k) \<in> set ks. grounded E (map snd ks) k"
    unfolding verify_workspace_ok by blast
  from assms(1) obtain k where m: "mint_written nfc sha observe w a ledger = (Some k, ledger')"
    and sv: "save_knot root k (wr_path a) None None st = (True, st')"
    by (auto simp: record_provenance_def split: if_splits option.splits prod.splits)
  from m obtain rel suite manifest wd pd gen env alm where rel: "wr_relative a = Some rel"
    and k: "k = (unsigned_v4 sha (the (ws_key w)) (write_args sha a rel) \<lparr>aa_suite = suite, aa_predicates = [], aa_manifest = manifest\<rparr>
        (case ws_gates w of None \<Rightarrow> [] | Some gs \<Rightarrow> gs) ''clean'' None wd pd (given_or (ws_ambient_run w) (ws_run_attribute w)))
      \<lparr>rk_generator_signature := gen, rk_environment_signature := env, rk_antilazy_signature := alm\<rparr>"
    and b: "built k" by (rule mint_written_knot)
  have "typed_knot k"
    using assms(2-4) rel by (cases "ws_gates w") (auto simp: k typed_knot_def unsigned_v4_def unsigned_v3_def with_environment_def unsigned_v1_def
        make_generator_def write_args_def text_value_def utf8_valid_ascii isascii_def split: option.splits)
  then obtain s where s: "knot_to_json k None None = Some s" "knot_from_json h fl s = Inr (stored k)"
    by (rule knot_json_back [OF _ b])
  then have "(rel_path root (wr_path a), s) \<in> set (ps_rows st')" using sv by (auto simp: save_knot_def)
  with all_knots_mem [OF ks(1)] s(2) obtain p where "(p, stored k) \<in> set ks" by fastforce
  with ks(2) have "grounded E (map snd ks) (stored k)" by auto
  then have "clause_holds E (map snd ks) (stored k) ''RK-3.3''"
    by (rule grounded_clauses) (simp add: knot_clauses_def)
  moreover have "rk_schema_version k = 4" "rk_predicate_results k = []"
    by (simp_all add: k unsigned_v4_def unsigned_v3_def with_environment_def)
  ultimately show False by (simp add: version_clauses stored_def)
qed

definition prov_demo_site :: write_site where
  "prov_demo_site =
    \<lparr>ws_project = Some ''/r'', ws_key = Some knot_demo_key, ws_sandbox = Some (\<lambda>m. ''env'' @ m), ws_alm = Some (\<lambda>m. ''alm'' @ m),
     ws_workspace = Some (Some ''W''), ws_prompt = Some (Some ''Q''), ws_suite = Some (Some ''55''), ws_manifest = Some (Some ''M''),
     ws_gates = None, ws_ambient_run = Some ''run'', ws_run_attribute = []\<rparr>"

definition prov_demo_written :: written where
  "prov_demo_written = \<lparr>wr_path = ''/r/a.py'', wr_relative = Some ''a.py'', wr_on_disk = Some ''x = 1'', wr_content = [],
     wr_fresh_plan_id = ''p'', wr_fresh_step_id = ''s'', wr_now_ns = 7\<rparr>"

definition prov_demo_unsigned :: rootknot where
  "prov_demo_unsigned = unsigned_v4 knot_demo_sha knot_demo_key (write_args knot_demo_sha prov_demo_written ''a.py'')
    \<lparr>aa_suite = ''U'', aa_predicates = [], aa_manifest = ''M''\<rparr> [] ''clean'' None ''W'' ''Q'' ''run''"

lemma prov_demo_minted:
  obtains k where "mint_written (\<lambda>s. s) knot_demo_sha (\<lambda>k n. Suc n) prov_demo_site prov_demo_written (0 :: nat) = (Some k, 1)"
    and "typed_knot k" and "built k"
proof -
  have "is_ok (canonical_bytes (\<lambda>s. s) prov_demo_unsigned)" by code_simp
  then obtain t where t: "canonical_bytes (\<lambda>s. s) prov_demo_unsigned = Inr t" by (auto simp: is_ok_iff)
  have v: "3 \<le> rk_schema_version prov_demo_unsigned" by (simp add: prov_demo_unsigned_def unsigned_v4_def)
  have b: "built prov_demo_unsigned"
    by (simp add: prov_demo_unsigned_def unsigned_v4_def built_iff missing_v4_def digest_unset_def zero_digest_def numeral_eq_Suc)
  then have p: "knot_post_init prov_demo_unsigned = Inr prov_demo_unsigned" by (simp add: built_def)
  let ?k = "prov_demo_unsigned\<lparr>rk_generator_signature := ''gen'' @ t, rk_environment_signature := ''env'' @ t,
    rk_antilazy_signature := ''alm'' @ t\<rparr>"
  have ta: "triple_attest (\<lambda>s. s) (\<lambda>k n. Suc n) knot_demo_key (\<lambda>m. ''env'' @ m) (\<lambda>m. ''alm'' @ m) prov_demo_unsigned (0 :: nat) = (Inr ?k, 1)"
    by (simp add: triple_attest_eq [OF v] p t Let_def knot_demo_key_def)
  have hx: "fromhex ''55'' = Some ''U''" by code_simp
  have "mint_written (\<lambda>s. s) knot_demo_sha (\<lambda>k n. Suc n) prov_demo_site prov_demo_written (0 :: nat) = (Some ?k, 1)"
    using ta unfolding prov_demo_unsigned_def
    by (simp add: mint_written_def prov_demo_site_def prov_demo_written_def hx given_or_def make_rootknot_v4_def del: fromhex.simps)
  moreover have "typed_knot ?k"
    by (simp add: prov_demo_unsigned_def unsigned_v4_def unsigned_v3_def with_environment_def unsigned_v1_def typed_knot_def
        make_generator_def write_args_def text_value_def slashes_def utf8_valid_ascii isascii_def)
  ultimately show thesis using that b by simp
qed

theorem recorded_knots_refused_witness:
  "\<exists>st'. record_provenance (\<lambda>s. s) knot_demo_sha (\<lambda>k n. Suc n) prov_demo_site (Some ''/r'') prov_demo_written
      \<lparr>ps_rows = [], ps_sidecars = [], ps_events = []\<rparr> (0 :: nat) = (True, st', 1) \<and>
    fst (verify_workspace (prov_demo_ctx (Content ''x = 1'')) demo_host (\<lambda>_. FNan) st') \<noteq> Inr None"
proof -
  let ?st = "\<lparr>ps_rows = [], ps_sidecars = [], ps_events = []\<rparr>"
  obtain k where k: "mint_written (\<lambda>s. s) knot_demo_sha (\<lambda>k n. Suc n) prov_demo_site prov_demo_written (0 :: nat) = (Some k, 1)"
    "typed_knot k" "built k" by (rule prov_demo_minted)
  obtain s where "knot_to_json k None None = Some s" by (rule knot_json_back [OF k(2,3)])
  then obtain st' where "save_knot ''/r'' k ''/r/a.py'' None None ?st = (True, st')" by (simp add: save_knot_def)
  then have r: "record_provenance (\<lambda>s. s) knot_demo_sha (\<lambda>k n. Suc n) prov_demo_site (Some ''/r'') prov_demo_written ?st (0 :: nat)
      = (True, st', 1)"
    using k(1) by (simp add: record_provenance_def wired_def prov_demo_site_def prov_demo_written_def)
  moreover have "fst (verify_workspace (prov_demo_ctx (Content ''x = 1'')) demo_host (\<lambda>_. FNan) st') \<noteq> Inr None"
    by (rule recorded_knots_refused [OF r])
      (simp_all add: prov_demo_written_def prov_demo_site_def slashes_def given_or_def utf8_valid_ascii isascii_def)
  ultimately show ?thesis by blast
qed

end
