(* ===== verification/Ledger.thy ===== *)
theory Ledger
  imports Rootknot Grant Wal JsonText AsciiJson "HOL-Library.Sublist"
begin

section \<open>The manifest ledger\<close>

text \<open>
  The model of \<open>src/ract/security/manifest_ledger.py\<close>: the append-only file
  \<open>manifest_ledger.jsonl\<close>, the snapshots of manifests stored by their digest, \<open>append\<close>,
  \<open>verify_chain\<close> with its schema check, the proofs of inclusion, the observer that
  \<open>Rootknot.attest_environment\<close> calls, and the exit code of \<open>ract manifest ledger verify\<close>.

  The environment \<open>ledger_env\<close> holds SHA-256, NFC, the reading of float literals, the conversions
  of foreign values and the Unicode tables that \<open>int(s, 16)\<close> reads digits and white space with.
  The time stamp of an entry is an argument. Trace events other than the refusal of an
  observation, which nothing reads back, are left out.
\<close>

subsection \<open>State and errors\<close>

record ledger_env =
  lv_nfc :: "string \<Rightarrow> string"
  lv_sha :: "string \<Rightarrow> string"
  lv_float :: "string \<Rightarrow> pyfloat"
  lv_host :: host
  lv_ascii :: "string \<Rightarrow> string"

text \<open>The ledger file, and the snapshot directory by the digest in the file's name.\<close>

record ledger_store =
  ledger_file :: disk_file
  ledger_snapshots :: "(string, string) dict"

datatype ledger_error =
    LedgerLockContended nat
  | LedgerCorruptError string
  | LedgerSnapshotMissingError string
  | LedgerUnencodable jcs_error
  | LedgerUndecodable
  | LedgerOsError os_error
  | LedgerValueError string
  | LedgerTypeError string
  | LedgerIndexError int
  | LedgerWalError wal_error

definition ledger_lock_retries :: nat where
  "ledger_lock_retries = 3"

definition GENESIS :: string where
  "GENESIS = ''GENESIS''"

definition snapshot_ref :: "string \<Rightarrow> string" where
  "snapshot_ref d = ''manifest_snapshots/'' @ d @ ''.json''"

subsection \<open>Hashing an entry\<close>

definition entry_bytes :: "ledger_env \<Rightarrow> payload \<Rightarrow> jcs_error + string" where
  "entry_bytes E e = dumps_jcs (lv_nfc E) (PDict e)"

definition hash_entry :: "ledger_env \<Rightarrow> payload \<Rightarrow> ledger_error + string" where
  "hash_entry E e =
    (case entry_bytes E e of Inl x \<Rightarrow> Inl (LedgerUnencodable x) | Inr t \<Rightarrow> Inr (hex (lv_sha E t)))"

subsection \<open>The snapshot store\<close>

text \<open>A snapshot that is there is not written again, whatever it holds.\<close>

definition store_snapshot :: "ledger_env \<Rightarrow> string \<Rightarrow> ledger_store \<Rightarrow> string \<times> ledger_store" where
  "store_snapshot E b st =
    (let d = hex (lv_sha E b) in
     (d, if map_of (ledger_snapshots st) d = None
         then st\<lparr>ledger_snapshots := AList.update d b (ledger_snapshots st)\<rparr> else st))"

definition read_snapshot :: "string \<Rightarrow> ledger_store \<Rightarrow> ledger_error + string" where
  "read_snapshot d st =
    (case map_of (ledger_snapshots st) d of None \<Rightarrow> Inl (LedgerSnapshotMissingError d) | Some b \<Rightarrow> Inr b)"

subsection \<open>Reading\<close>

definition ledger_line :: "(string \<Rightarrow> pyfloat) \<Rightarrow> bool \<Rightarrow> string \<Rightarrow> ledger_error + payload option" where
  "ledger_line fl is_last line =
    (case json_loads fl line of
       None \<Rightarrow> if is_last then Inr None else Inl (LedgerCorruptError ''malformed line'')
     | Some (PDict obj) \<Rightarrow> Inr (Some obj)
     | Some _ \<Rightarrow> Inl (LedgerCorruptError ''not an object''))"

definition ledger_text :: "(string \<Rightarrow> pyfloat) \<Rightarrow> string \<Rightarrow> ledger_error + payload list" where
  "ledger_text fl raw =
    (if raw = [] then Inr []
     else if \<not> utf8_valid raw then Inl LedgerUndecodable
     else read_all (ledger_line fl) (split_lines raw))"

definition load_ledger :: "ledger_env \<Rightarrow> ledger_store \<Rightarrow> ledger_error + payload list" where
  "load_ledger E st =
    (case ledger_file st of
       Absent \<Rightarrow> Inr []
     | Directory \<Rightarrow> Inl (LedgerOsError IsADirectory)
     | Unreadable _ \<Rightarrow> Inl (LedgerOsError PermissionDenied)
     | Content raw \<Rightarrow> ledger_text (lv_float E) raw)"

subsection \<open>Building an entry\<close>

text \<open>
  \<open>int(s, 16)\<close> does not raise: white space around, a sign, a prefix \<open>0x\<close>, and single underscores
  between the digits are all read.
\<close>

definition int_space :: "char \<Rightarrow> bool" where
  "int_space c \<longleftrightarrow> code c \<in> {9, 10, 11, 12, 13, 32}"

definition unsigned_part :: "string \<Rightarrow> string" where
  "unsigned_part t = (if startswith t ''+'' \<or> startswith t ''-'' then tl t else t)"

definition digits_part :: "string \<Rightarrow> string" where
  "digits_part t =
    (if startswith t ''0x'' \<or> startswith t ''0X''
     then (if startswith (drop 2 t) ''_'' then drop 3 t else drop 2 t) else t)"

definition int16_reads :: "ledger_env \<Rightarrow> string \<Rightarrow> bool" where
  "int16_reads E s =
    list_all (\<lambda>p. p \<noteq> [] \<and> list_all (\<lambda>c. hex_val c \<noteq> None) p)
      (split_on CHR ''_''
        (digits_part (unsigned_part (rev (dropWhile int_space (rev (dropWhile int_space (lv_ascii E s))))))))"

definition reads_as_digest :: "ledger_env \<Rightarrow> string \<Rightarrow> bool" where
  "reads_as_digest E s \<longleftrightarrow> str_len s = 64 \<and> int16_reads E s"

definition normalise_tool_trace :: "host \<Rightarrow> payload \<Rightarrow> ledger_error + payload" where
  "normalise_tool_trace h s =
    (case iter_value (get_default s ''tool_ids_invoked'' (PList [])) of
       None \<Rightarrow> Inl (LedgerTypeError ''tool_ids_invoked'')
     | Some ts \<Rightarrow>
         (case py_int h (get_default s ''invocation_count'' (PInt 0)) of
            None \<Rightarrow> Inl (LedgerTypeError ''invocation_count'')
          | Some n \<Rightarrow>
              Inr [(KStr ''tool_ids_invoked'', PList (map PStr (sort (remdups (map (py_str h) ts))))),
                   (KStr ''invocation_count'', PInt n),
                   (KStr ''first_invoke_at'', get_value s ''first_invoke_at''),
                   (KStr ''last_invoke_at'', get_value s ''last_invoke_at'')]))"

definition empty_tool_trace :: payload where
  "empty_tool_trace =
    [(KStr ''tool_ids_invoked'', PList []), (KStr ''invocation_count'', PInt 0),
     (KStr ''first_invoke_at'', PNone), (KStr ''last_invoke_at'', PNone)]"

definition tool_trace_or_empty :: "payload option \<Rightarrow> payload" where
  "tool_trace_or_empty s = (case s of None \<Rightarrow> empty_tool_trace | Some p \<Rightarrow> if p = [] then empty_tool_trace else p)"

record append_args =
  la_digest :: string
  la_signature :: string
  la_run_id :: string
  la_manifest :: "string option"
  la_summary :: "payload option"
  la_first_wal :: "int option"
  la_last_wal :: "int option"

definition wal_cross_link :: "append_args \<Rightarrow> payload" where
  "wal_cross_link a =
    (if la_first_wal a \<noteq> None \<or> la_last_wal a \<noteq> None
     then [(KStr ''wal_cross_link'', PDict
             [(KStr ''first_wal_seq'', PInt (case la_first_wal a of None \<Rightarrow> 0 | Some n \<Rightarrow> n)),
              (KStr ''last_wal_seq'', PInt (case la_last_wal a of None \<Rightarrow> 0 | Some n \<Rightarrow> n))])]
     else [])"

definition entry_members :: "string \<Rightarrow> append_args \<Rightarrow> payload \<Rightarrow> string \<Rightarrow> nat \<Rightarrow> payload" where
  "entry_members now a summary prev idx =
    [(KStr ''timestamp'', PStr now), (KStr ''manifest_digest'', PStr (la_digest a)),
     (KStr ''rootknot_signature'', PStr (b64encode (la_signature a))),
     (KStr ''rootknot_run_id'', PStr (la_run_id a)), (KStr ''tool_trace_summary'', PDict summary),
     (KStr ''prev_ledger_hash'', PStr prev), (KStr ''entry_index'', PInt (int idx))] @
    (case la_manifest a of
       None \<Rightarrow> [] | Some _ \<Rightarrow> [(KStr ''manifest_snapshot_ref'', PStr (snapshot_ref (la_digest a)))]) @
    wal_cross_link a"

definition build_entry :: "host \<Rightarrow> string \<Rightarrow> append_args \<Rightarrow> string \<Rightarrow> nat \<Rightarrow> ledger_error + payload" where
  "build_entry h now a prev idx =
    rbind (normalise_tool_trace h (tool_trace_or_empty (la_summary a)))
      (\<lambda>s. Inr (entry_members now a s prev idx))"

subsection \<open>Appending\<close>

record append_result =
  ar_index :: nat
  ar_hash :: string
  ar_duplicate :: bool

definition same_observation :: "append_args \<Rightarrow> payload \<Rightarrow> bool" where
  "same_observation a e \<longleftrightarrow>
    get_value e ''rootknot_run_id'' = PStr (la_run_id a) \<and> get_value e ''manifest_digest'' = PStr (la_digest a)"

text \<open>The index of the first entry of the same observation.\<close>

fun recorded_at :: "append_args \<Rightarrow> payload list \<Rightarrow> nat option" where
  "recorded_at a [] = None"
| "recorded_at a (e # es) = (if same_observation a e then Some 0 else map_option Suc (recorded_at a es))"

text \<open>The hash the next entry has to name; \<open>None\<close> stands before the first entry.\<close>

definition link_of :: "ledger_env \<Rightarrow> payload option \<Rightarrow> ledger_error + string" where
  "link_of E p = (case p of None \<Rightarrow> Inr GENESIS | Some e \<Rightarrow> hash_entry E e)"

definition last_entry :: "payload list \<Rightarrow> payload option" where
  "last_entry es = (if es = [] then None else Some (last es))"

text \<open>Opening the file with \<open>O_RDWR | O_CREAT | O_APPEND\<close>.\<close>

fun open_rdwr :: "disk_file \<Rightarrow> os_error + disk_file" where
  "open_rdwr Absent = Inr (Content [])"
| "open_rdwr Directory = Inl IsADirectory"
| "open_rdwr (Unreadable c) = Inl PermissionDenied"
| "open_rdwr (Content c) = Inr (Content c)"

text \<open>What is written and returned under the lock, given the entries read there.\<close>

definition append_line ::
    "ledger_env \<Rightarrow> string \<Rightarrow> append_args \<Rightarrow> payload list \<Rightarrow> ledger_error + (append_result \<times> string)" where
  "append_line E now a es =
    (case recorded_at a es of
       Some i \<Rightarrow> rbind (hash_entry E (es ! i)) (\<lambda>x. Inr (\<lparr>ar_index = i, ar_hash = x, ar_duplicate = True\<rparr>, []))
     | None \<Rightarrow>
         rbind (link_of E (last_entry es)) (\<lambda>prev.
         rbind (build_entry (lv_host E) now a prev (length es)) (\<lambda>e.
           case entry_bytes E e of
             Inl x \<Rightarrow> Inl (LedgerUnencodable x)
           | Inr t \<Rightarrow>
               Inr (\<lparr>ar_index = length es, ar_hash = hex (lv_sha E t), ar_duplicate = False\<rparr>, t @ [newline]))))"

definition append_locked ::
    "ledger_env \<Rightarrow> (nat \<Rightarrow> bool) \<Rightarrow> string \<Rightarrow> append_args \<Rightarrow> ledger_store \<Rightarrow> (ledger_error + append_result) \<times> ledger_store" where
  "append_locked E try_lock now a st =
    (case open_rdwr (ledger_file st) of
       Inl x \<Rightarrow> (Inl (LedgerOsError x), st)
     | Inr f \<Rightarrow>
         let opened = st\<lparr>ledger_file := f\<rparr> in
         if \<not> lock_exclusive try_lock ledger_lock_retries
         then (Inl (LedgerLockContended ledger_lock_retries), opened)
         else case rbind (load_ledger E opened) (append_line E now a) of
           Inl x \<Rightarrow> (Inl x, opened)
         | Inr (r, line) \<Rightarrow> (Inr r, opened\<lparr>ledger_file := write_end line f\<rparr>))"

definition ledger_append ::
    "ledger_env \<Rightarrow> (nat \<Rightarrow> bool) \<Rightarrow> string \<Rightarrow> append_args \<Rightarrow> ledger_store \<Rightarrow> (ledger_error + append_result) \<times> ledger_store" where
  "ledger_append E try_lock now a st =
    (if \<not> reads_as_digest E (la_digest a) then (Inl (LedgerValueError ''manifest_digest''), st)
     else if la_run_id a = [] then (Inl (LedgerValueError ''rootknot_run_id''), st)
     else case la_manifest a of
       None \<Rightarrow> append_locked E try_lock now a st
     | Some b \<Rightarrow>
         (case store_snapshot E b st of
            (d, stored) \<Rightarrow>
              if d \<noteq> la_digest a then (Inl (LedgerValueError ''manifest_bytes''), stored)
              else append_locked E try_lock now a stored))"

subsection \<open>Verifying the chain\<close>

definition is_int :: "pyval \<Rightarrow> bool" where
  "is_int v = (case v of PInt _ \<Rightarrow> True | PBool _ \<Rightarrow> True | _ \<Rightarrow> False)"

definition entry_schema_valid :: "ledger_env \<Rightarrow> payload \<Rightarrow> bool" where
  "entry_schema_valid E e \<longleftrightarrow>
    (case get_value e ''manifest_digest'' of PStr s \<Rightarrow> reads_as_digest E s | _ \<Rightarrow> False) \<and>
    (case get_value e ''rootknot_signature'' of PStr s \<Rightarrow> b64decode s \<noteq> None | _ \<Rightarrow> False) \<and>
    (case get_value e ''rootknot_run_id'' of PStr s \<Rightarrow> s \<noteq> [] | _ \<Rightarrow> False) \<and>
    (case get_value e ''tool_trace_summary'' of PDict _ \<Rightarrow> True | _ \<Rightarrow> False) \<and>
    (case get_value e ''prev_ledger_hash'' of PStr s \<Rightarrow> s = GENESIS \<or> reads_as_digest E s | _ \<Rightarrow> False) \<and>
    (case get_value e ''manifest_snapshot_ref'' of
       PNone \<Rightarrow> True | PStr s \<Rightarrow> startswith s ''manifest_snapshots/'' \<and> endswith s ''.json'' | _ \<Rightarrow> False) \<and>
    (case get_value e ''wal_cross_link'' of
       PNone \<Rightarrow> True
     | PDict d \<Rightarrow> is_int (get_value d ''first_wal_seq'') \<and> is_int (get_value d ''last_wal_seq'')
     | _ \<Rightarrow> False) \<and>
    (case get_value e ''entry_index'' of PNone \<Rightarrow> True | PInt i \<Rightarrow> 0 \<le> i | _ \<Rightarrow> False)"

definition misplaced :: "nat \<Rightarrow> payload \<Rightarrow> bool" where
  "misplaced i e =
    (case get_value e ''entry_index'' of
       PInt k \<Rightarrow> k \<noteq> int i | PBool b \<Rightarrow> (if b then 1 else 0) \<noteq> int i | _ \<Rightarrow> False)"

text \<open>The index of the first entry that breaks the chain.\<close>

fun verify_entries :: "ledger_env \<Rightarrow> nat \<Rightarrow> payload option \<Rightarrow> payload list \<Rightarrow> ledger_error + nat option" where
  "verify_entries E i p [] = Inr None"
| "verify_entries E i p (e # es) =
    (if \<not> entry_schema_valid E e \<or> misplaced i e then Inr (Some i)
     else rbind (link_of E p) (\<lambda>prev.
       if get_value e ''prev_ledger_hash'' \<noteq> PStr prev then Inr (Some i)
       else verify_entries E (Suc i) (Some e) es))"

record ledger_verdict =
  lr_valid :: bool
  lr_first_break :: "nat option"
  lr_valid_count :: nat

definition verify_chain :: "ledger_env \<Rightarrow> ledger_store \<Rightarrow> ledger_error + ledger_verdict" where
  "verify_chain E st =
    rbind (load_ledger E st) (\<lambda>es.
    rbind (verify_entries E 0 None es) (\<lambda>b.
      Inr (case b of
             None \<Rightarrow> \<lparr>lr_valid = True, lr_first_break = None, lr_valid_count = length es\<rparr>
           | Some i \<Rightarrow> \<lparr>lr_valid = False, lr_first_break = Some i, lr_valid_count = i\<rparr>)))"

text \<open>\<open>ract manifest ledger verify\<close>.\<close>

definition verify_exit_code :: "ledger_env \<Rightarrow> ledger_store \<Rightarrow> int" where
  "verify_exit_code E st = (case verify_chain E st of Inl _ \<Rightarrow> 2 | Inr v \<Rightarrow> if lr_valid v then 0 else 1)"

subsection \<open>Proofs of inclusion\<close>

record merkle_proof =
  mp_index :: int
  mp_entry :: payload
  mp_hash :: string
  mp_forward :: "string list"
  mp_tail :: string

definition proof_of :: "ledger_env \<Rightarrow> int \<Rightarrow> ledger_store \<Rightarrow> ledger_error + merkle_proof" where
  "proof_of E i st =
    rbind (load_ledger E st) (\<lambda>es.
      if i < 0 \<or> int (length es) \<le> i then Inl (LedgerIndexError i)
      else
        let target = es ! nat i in
        rbind (hash_entry E target) (\<lambda>x.
        rbind (sequence (map (hash_entry E) (drop (Suc (nat i)) es))) (\<lambda>fs.
          Inr \<lparr>mp_index = i, mp_entry = target, mp_hash = x, mp_forward = fs,
               mp_tail = (if fs = [] then x else last fs)\<rparr>)))"

text \<open>The loop of \<open>verify_proof\<close>; a loader that raises gives \<open>None\<close>.\<close>

fun walk_forward ::
    "ledger_env \<Rightarrow> (string \<Rightarrow> pyval option) \<Rightarrow> string \<Rightarrow> string list \<Rightarrow> ledger_error + bool" where
  "walk_forward E loader prev [] = Inr True"
| "walk_forward E loader prev (x # xs) =
    (case loader x of
       Some (PDict e) \<Rightarrow>
         rbind (hash_entry E e) (\<lambda>y.
           if y \<noteq> x \<or> get_value e ''prev_ledger_hash'' \<noteq> PStr prev then Inr False
           else walk_forward E loader x xs)
     | _ \<Rightarrow> Inr False)"

definition tail_agrees :: "merkle_proof \<Rightarrow> bool" where
  "tail_agrees p \<longleftrightarrow> (if mp_forward p = [] then mp_hash p else last (mp_forward p)) = mp_tail p"

definition verify_proof :: "ledger_env \<Rightarrow> merkle_proof \<Rightarrow> (string \<Rightarrow> pyval option) option \<Rightarrow> ledger_error + bool" where
  "verify_proof E p loader =
    (case loader of
       None \<Rightarrow> Inl (LedgerValueError ''loader'')
     | Some l \<Rightarrow>
         rbind (hash_entry E (mp_entry p)) (\<lambda>x.
           if x \<noteq> mp_hash p then Inr False
           else rbind (walk_forward E l (mp_hash p) (mp_forward p)) (\<lambda>ok.
             Inr (ok \<and> tail_agrees p))))"

definition verify_proof_shape_only :: "ledger_env \<Rightarrow> merkle_proof \<Rightarrow> ledger_error + bool" where
  "verify_proof_shape_only E p =
    rbind (hash_entry E (mp_entry p)) (\<lambda>x. Inr (x = mp_hash p \<and> tail_agrees p))"

subsection \<open>The observer of an attestation\<close>

definition count_wal_entries :: "(string \<Rightarrow> pyfloat) \<Rightarrow> wal_store \<Rightarrow> wal_error + int" where
  "count_wal_entries fl w = rbind (load_all fl w) (\<lambda>(ss, ws). Inr (int (length ss) + int (length ws)))"

record observation =
  ob_manifest :: "string option"
  ob_summary :: "payload option"
  ob_wal :: "wal_store option"
  ob_first_wal :: "int option"
  ob_last_wal :: "int option"

definition observed_seqs :: "(string \<Rightarrow> pyfloat) \<Rightarrow> observation \<Rightarrow> ledger_error + (int option \<times> int option)" where
  "observed_seqs fl ob =
    (case ob_wal ob of
       Some w \<Rightarrow>
         if ob_first_wal ob = None \<and> ob_last_wal ob = None
         then (case count_wal_entries fl w of Inl x \<Rightarrow> Inl (LedgerWalError x) | Inr n \<Rightarrow> Inr (Some n, Some n))
         else Inr (ob_first_wal ob, ob_last_wal ob)
     | None \<Rightarrow> Inr (ob_first_wal ob, ob_last_wal ob))"

definition observed_args :: "rootknot \<Rightarrow> observation \<Rightarrow> int option \<times> int option \<Rightarrow> append_args" where
  "observed_args k ob s =
    \<lparr>la_digest = hex (rk_manifest_digest k), la_signature = rk_environment_signature k,
     la_run_id = rk_run_id k, la_manifest = ob_manifest ob, la_summary = ob_summary ob,
     la_first_wal = fst s, la_last_wal = snd s\<rparr>"

text \<open>
  \<open>record_environment_attestation\<close> on the ledger that is bound, if one is: what it returns, what
  it leaves of the ledger, and whether it emits \<open>manifest.ledger.refused\<close>.
\<close>

definition observable :: "rootknot \<Rightarrow> bool" where
  "observable k \<longleftrightarrow> \<not> list_all (\<lambda>c. c = CHR 0x00) (rk_manifest_digest k) \<and>
    rk_environment_signature k \<noteq> [] \<and> rk_run_id k \<noteq> []"

definition record_attestation ::
    "ledger_env \<Rightarrow> (nat \<Rightarrow> bool) \<Rightarrow> string \<Rightarrow> observation \<Rightarrow> rootknot \<Rightarrow> ledger_store option \<Rightarrow>
     (ledger_error + append_result option) \<times> ledger_store option \<times> bool" where
  "record_attestation E try_lock now ob k ledger =
    (case ledger of
       None \<Rightarrow> (Inr None, None, False)
     | Some st \<Rightarrow>
         if \<not> observable k then (Inr None, Some st, False)
         else case observed_seqs (lv_float E) ob of
           Inl x \<Rightarrow> (Inl x, Some st, False)
         | Inr s \<Rightarrow>
             (case ledger_append E try_lock now (observed_args k ob s) st of
                (Inl x, st') \<Rightarrow> (Inr None, Some st', True)
              | (Inr r, st') \<Rightarrow> (Inr (Some r), Some st', False)))"

text \<open>The call in \<open>attest_environment\<close>, with nothing but the knot.\<close>

definition bare_observation :: observation where
  "bare_observation = \<lparr>ob_manifest = None, ob_summary = None, ob_wal = None, ob_first_wal = None, ob_last_wal = None\<rparr>"

definition observe_knot ::
    "ledger_env \<Rightarrow> (nat \<Rightarrow> bool) \<Rightarrow> string \<Rightarrow> rootknot \<Rightarrow> ledger_store option \<Rightarrow> ledger_store option" where
  "observe_knot E try_lock now k ledger = fst (snd (record_attestation E try_lock now bare_observation k ledger))"

subsection \<open>The ledger is a journal\<close>

definition ledger_valid :: "(string \<Rightarrow> string) \<Rightarrow> payload \<Rightarrow> string \<Rightarrow> bool" where
  "ledger_valid nfc e t \<longleftrightarrow> normalises nfc \<and> float_free (PDict e) \<and> dumps_jcs nfc (PDict e) = Inr t"

interpretation ledger_log: jsonl "ledger_line fl" "ledger_valid nfc" "canon_payload nfc"
proof
  fix e t assume v: "ledger_valid nfc e t"
  then show "t \<noteq> [] \<and> newline \<notin> set t"
    using dumps_no_newline [of nfc "PDict e" t] dumps_dict_shape [of nfc e t] by (simp add: ledger_valid_def)
  have "json_loads fl t = Some (canon nfc (PDict e))" using dumps_reads v by (auto simp: ledger_valid_def)
  then show "ledger_line fl l t = Inr (Some (canon_payload nfc e))" for l
    by (simp add: ledger_line_def canon_PDict del: canon.simps)
next
  fix e p q assume "ledger_valid nfc e (p @ q)" and "q \<noteq> []"
  then have "json_loads fl p = None"
    by (intro dumps_dict_prefix [of nfc e p q]) (simp_all add: ledger_valid_def)
  then show "ledger_line fl True p = Inr None" by (simp add: ledger_line_def)
qed

definition ledger_holds :: "ledger_env \<Rightarrow> ledger_store \<Rightarrow> payload list \<Rightarrow> bool" where
  "ledger_holds E st es \<longleftrightarrow>
    (case ledger_file st of
       Absent \<Rightarrow> es = []
     | Content c \<Rightarrow> utf8_valid c \<and> holds (ledger_line (lv_float E)) c es
     | _ \<Rightarrow> False)"

lemma ledger_text_holds: "utf8_valid c \<Longrightarrow> holds (ledger_line fl) c es \<Longrightarrow> ledger_text fl c = Inr es"
  using holds_read [of "ledger_line fl" c es] by (auto simp: ledger_text_def holds_def reads_as_def)

lemma load_holds: "ledger_holds E st es \<Longrightarrow> load_ledger E st = Inr es"
  by (auto simp: ledger_holds_def load_ledger_def ledger_text_holds split: disk_file.splits)

lemma opened_holds:
  assumes "ledger_holds E st es"
  obtains c where "open_rdwr (ledger_file st) = Inr (Content c)" "utf8_valid c" "holds (ledger_line (lv_float E)) c es"
proof (cases "ledger_file st")
  case Absent
  with assms that [of "[]"] show ?thesis by (simp add: ledger_holds_def holds_Nil)
qed (use assms that in \<open>simp_all add: ledger_holds_def\<close>)

subsection \<open>Hexadecimal text\<close>

definition ascii_kept :: "ledger_env \<Rightarrow> bool" where
  "ascii_kept E \<longleftrightarrow> (\<forall>s. isascii s \<longrightarrow> lv_ascii E s = s)"

lemma str_len_ascii: "isascii s \<Longrightarrow> str_len s = length s"
  by (induction s) (auto simp: str_len_def isascii_def cont_def)

lemma hex_length: "length (hex b) = 2 * length b"
  by (induction b) auto

lemma hex_val_of_hex: "c \<in> set (hex b) \<Longrightarrow> hex_val c \<noteq> None"
  by (auto dest!: set_hex simp: hex_val_def is_digit_def)

lemma hex_not: "c \<in> set (hex b) \<Longrightarrow> \<not> int_space c \<and> c \<noteq> CHR ''_'' \<and> c \<noteq> CHR ''+'' \<and> c \<noteq> CHR ''-'' \<and>
    c \<noteq> CHR ''x'' \<and> c \<noteq> CHR ''X'' \<and> c \<noteq> CHR ''G''"
  by (auto dest!: set_hex simp: int_space_def)

lemma dropWhile_none: "(\<And>c. c \<in> set s \<Longrightarrow> \<not> P c) \<Longrightarrow> dropWhile P s = s"
  by (cases s) auto

lemma digit_parts_hex: "digits_part (unsigned_part (hex b)) = hex b"
proof -
  have "unsigned_part (hex b) = hex b"
    using hex_not [of "hd (hex b)" b] by (cases "hex b") (auto simp: unsigned_part_def startswith_def)
  moreover have "\<not> startswith (hex b) ''0x'' \<and> \<not> startswith (hex b) ''0X''"
  proof (cases b)
    case (Cons c cs)
    then show ?thesis using hex_not [of "hex_digit (code c mod 16)" b] by (auto simp: startswith_def)
  qed (simp add: startswith_def)
  ultimately show ?thesis by (simp add: digits_part_def)
qed

lemma reads_as_digest_hex [intro]:
  assumes "ascii_kept E" and "length b = 32"
  shows "reads_as_digest E (hex b)"
proof -
  have "lv_ascii E (hex b) = hex b" using assms(1) isascii_hex by (simp add: ascii_kept_def)
  moreover have "dropWhile int_space (hex b) = hex b" "dropWhile int_space (rev (hex b)) = rev (hex b)"
    using hex_not by (auto intro!: dropWhile_none)
  moreover have "split_on CHR ''_'' (hex b) = [hex b]" using hex_not by (intro split_on_no_sep) auto
  moreover have "hex b \<noteq> []" using assms(2) by auto
  ultimately have "int16_reads E (hex b)"
    using hex_val_of_hex by (auto simp: int16_reads_def digit_parts_hex list_all_iff)
  then show ?thesis using assms(2) by (simp add: reads_as_digest_def str_len_ascii isascii_hex hex_length)
qed

lemma hex_not_GENESIS: "hex b \<noteq> GENESIS"
  using hex_not [of "CHR ''G''" b] by (auto simp: GENESIS_def)

subsection \<open>What the link of an entry fixes\<close>

lemma hash_entry_Inr: "hash_entry E e = Inr x \<longleftrightarrow> (\<exists>t. entry_bytes E e = Inr t \<and> x = hex (lv_sha E t))"
  by (auto simp: hash_entry_def split: sum.splits)

lemma link_isascii: "link_of E p = Inr x \<Longrightarrow> isascii x"
  by (auto simp: link_of_def hash_entry_Inr GENESIS_def isascii_hex split: option.splits) (simp add: isascii_def)

text \<open>Entries of the same bytes name the same predecessor.\<close>

lemma same_bytes_member:
  assumes "entry_bytes E e = Inr t" and "entry_bytes E f = Inr t" and "normalises (lv_nfc E)"
    and "float_free (PDict e)" and "float_free (PDict f)"
    and "get_value e k = PStr x" and "get_value f k = PStr y" and "isascii k" and "isascii x" and "isascii y"
  shows "x = y"
proof -
  have canon: "canon_payload (lv_nfc E) e = canon_payload (lv_nfc E) f"
    using dumps_injective [of "lv_nfc E" "PDict e" t "PDict f" t] assms(1-5)
    by (simp add: entry_bytes_def canon_PDict del: canon.simps)
  have get: "map_of d (KStr k) = Some (PStr z)" if "get_value d k = PStr z" for d z
    using that by (auto simp: get_value_def get_default_def split: option.splits)
  have "map_of (canon_payload (lv_nfc E) e) (KStr k) = Some (PStr (lv_nfc E x))"
    "map_of (canon_payload (lv_nfc E) f) (KStr k) = Some (PStr (lv_nfc E y))"
    using map_of_canon_payload [OF assms(1)[unfolded entry_bytes_def] assms(3) get [OF assms(6)] assms(8)]
      map_of_canon_payload [OF assms(2)[unfolded entry_bytes_def] assms(3) get [OF assms(7)] assms(8)] by simp_all
  with canon assms(3,9,10) show ?thesis by (simp add: normalises_def)
qed

definition good_entry :: "ledger_env \<Rightarrow> nat \<Rightarrow> payload option \<Rightarrow> payload \<Rightarrow> bool" where
  "good_entry E i p e \<longleftrightarrow> entry_schema_valid E e \<and> \<not> misplaced i e \<and>
    (\<exists>x. link_of E p = Inr x \<and> get_value e ''prev_ledger_hash'' = PStr x)"

lemma verify_Cons:
  "verify_entries E i p (e # es) = Inr None \<longleftrightarrow> good_entry E i p e \<and> verify_entries E (Suc i) (Some e) es = Inr None"
  by (auto simp: good_entry_def result_simps split: if_splits)

lemma verify_snoc:
  "verify_entries E i p (es @ [e]) = Inr None \<longleftrightarrow>
    verify_entries E i p es = Inr None \<and> good_entry E (i + length es) (if es = [] then p else Some (last es)) e"
proof (induction es arbitrary: i p)
  case Nil
  show ?case unfolding append_Nil verify_Cons by simp
next
  case (Cons d ds)
  show ?case unfolding append_Cons verify_Cons Cons.IH by auto
qed

text \<open>Lists in which every entry names the hash of the one before.\<close>

fun hash_linked :: "ledger_env \<Rightarrow> payload list \<Rightarrow> bool" where
  "hash_linked E (e # f # es) \<longleftrightarrow>
    (\<exists>x. hash_entry E e = Inr x \<and> get_value f ''prev_ledger_hash'' = PStr x) \<and> hash_linked E (f # es)"
| "hash_linked E es \<longleftrightarrow> True"

lemma linked_snoc:
  "hash_linked E (es @ [e]) \<longleftrightarrow> hash_linked E es \<and>
    (es \<noteq> [] \<longrightarrow> (\<exists>x. hash_entry E (last es) = Inr x \<and> get_value e ''prev_ledger_hash'' = PStr x))"
  by (induction E es rule: hash_linked.induct) auto

lemma verified_linked:
  "verify_entries E 0 None es = Inr None \<Longrightarrow>
    hash_linked E es \<and> (es \<noteq> [] \<longrightarrow> get_value (hd es) ''prev_ledger_hash'' = PStr GENESIS)"
proof (induction es rule: rev_induct)
  case (snoc e es)
  then show ?case by (auto simp: verify_snoc linked_snoc good_entry_def link_of_def hd_append)
qed simp

definition bytes_in :: "ledger_env \<Rightarrow> payload set \<Rightarrow> string set" where
  "bytes_in E D = {t. \<exists>e \<in> D. entry_bytes E e = Inr t}"

lemma bytes_inI: "e \<in> D \<Longrightarrow> entry_bytes E e = Inr t \<Longrightarrow> t \<in> bytes_in E D"
  by (auto simp: bytes_in_def)

lemma shared_tail:
  assumes "normalises (lv_nfc E)" and "inj_on (lv_sha E) (bytes_in E (set es \<union> set fs))"
    and "\<forall>e \<in> set es \<union> set fs. float_free (PDict e)"
    and "hash_linked E es" and "hash_linked E fs" and "es \<noteq> []" and "fs \<noteq> []"
    and "get_value (hd es) ''prev_ledger_hash'' = PStr GENESIS"
    and "entry_bytes E (last es) = Inr t" and "entry_bytes E (last fs) = Inr t"
  shows "suffix (map (entry_bytes E) fs) (map (entry_bytes E) es)"
  using assms
proof (induction es arbitrary: fs t rule: rev_induct)
  case (snoc e es)
  obtain gs f where fs: "fs = gs @ [f]" using snoc.prems(7) by (cases fs rule: rev_cases) auto
  have bytes: "entry_bytes E e = Inr t" "entry_bytes E f = Inr t" using snoc.prems(9,10) by (simp_all add: fs)
  have ff: "float_free (PDict e)" "float_free (PDict f)" using snoc.prems(3) by (auto simp: fs)
  note member = same_bytes_member [OF bytes snoc.prems(1) ff, of "''prev_ledger_hash''"]
  have key: "isascii ''prev_ledger_hash''" by (simp add: isascii_def)
  show ?case
  proof (cases "gs = []")
    case True
    then show ?thesis using bytes by (simp add: fs suffix_def)
  next
    case False
    then obtain u where u: "entry_bytes E (last gs) = Inr u" "get_value f ''prev_ledger_hash'' = PStr (hex (lv_sha E u))"
      using snoc.prems(5) by (auto simp: fs linked_snoc hash_entry_Inr)
    have "es \<noteq> []"
    proof
      assume "es = []"
      then have "get_value e ''prev_ledger_hash'' = PStr GENESIS" using snoc.prems(8) by simp
      from member [OF this u(2) key _ isascii_hex] show False
        using hex_not_GENESIS by (simp add: GENESIS_def isascii_def) metis
    qed
    then obtain v where v: "entry_bytes E (last es) = Inr v" "get_value e ''prev_ledger_hash'' = PStr (hex (lv_sha E v))"
      using snoc.prems(4) by (auto simp: linked_snoc hash_entry_Inr)
    have "lv_sha E v = lv_sha E u" using member [OF v(2) u(2) key isascii_hex isascii_hex] by simp
    moreover have "u \<in> bytes_in E (set (es @ [e]) \<union> set fs)"
      using u(1) False by (intro bytes_inI [of "last gs"]) (simp_all add: fs)
    moreover have "v \<in> bytes_in E (set (es @ [e]) \<union> set fs)"
      using v(1) \<open>es \<noteq> []\<close> by (intro bytes_inI [of "last es"]) simp_all
    ultimately have "v = u" using snoc.prems(2) by (auto dest: inj_onD)
    moreover have "inj_on (lv_sha E) (bytes_in E (set es \<union> set gs))"
      using snoc.prems(2) by (rule inj_on_subset) (auto simp: bytes_in_def fs)
    ultimately have "suffix (map (entry_bytes E) gs) (map (entry_bytes E) es)"
      using snoc.prems False \<open>es \<noteq> []\<close> u(1) v(1) by (intro snoc.IH [of gs u]) (auto simp: fs linked_snoc)
    then show ?thesis using bytes by (simp add: fs)
  qed
qed simp

lemma shared_chain:
  assumes "normalises (lv_nfc E)" and "inj_on (lv_sha E) (bytes_in E (set es \<union> set fs))"
    and "\<forall>e \<in> set es \<union> set fs. float_free (PDict e)"
    and "verify_entries E 0 None es = Inr None" and "verify_entries E 0 None fs = Inr None"
    and "es \<noteq> []" and "fs \<noteq> []" and "entry_bytes E (last es) = Inr t" and "entry_bytes E (last fs) = Inr t"
  shows "map (entry_bytes E) es = map (entry_bytes E) fs"
proof (rule suffix_order.antisym)
  note l = verified_linked [OF assms(4)] verified_linked [OF assms(5)]
  show "suffix (map (entry_bytes E) fs) (map (entry_bytes E) es)"
    using l assms by (intro shared_tail [of E es fs t]) auto
  show "suffix (map (entry_bytes E) es) (map (entry_bytes E) fs)"
    using l assms by (intro shared_tail [of E fs es t]) (auto simp: Un_commute)
qed

subsection \<open>An appended entry verifies\<close>

definition stable_args :: "ledger_env \<Rightarrow> append_args \<Rightarrow> bool" where
  "stable_args E a \<longleftrightarrow> lv_nfc E (la_digest a) = la_digest a \<and> lv_nfc E (la_run_id a) = la_run_id a \<and>
    (\<forall>s. la_summary a = Some s \<longrightarrow> float_free (PDict s))"

definition ledger_env_ok :: "ledger_env \<Rightarrow> bool" where
  "ledger_env_ok E \<longleftrightarrow> normalises (lv_nfc E) \<and> ascii_kept E \<and> (\<forall>b. length (lv_sha E b) = 32)"

lemma entry_keys: "plain_keys (entry_members now a s prev i)" "distinct (map fst (entry_members now a s prev i))"
  by (auto simp: entry_members_def wal_cross_link_def plain_keys_def isascii_def split: option.splits)

lemma canon_get:
  assumes "normalises nfc" and "plain_keys e" and "distinct (map fst e)"
  shows "get_value (canon_payload nfc e) k = canon nfc (get_value e k)"
proof -
  have "map_of (canon_payload nfc e) (KStr k) = map_option (canon nfc) (map_of e (KStr k))"
    unfolding canon_payload_def by (rule canon_lookup [OF assms])
  then show ?thesis by (simp add: get_value_def get_default_def split: option.split)
qed

lemma entry_get [simp]:
  "get_value (entry_members now a s prev i) ''manifest_digest'' = PStr (la_digest a)"
  "get_value (entry_members now a s prev i) ''rootknot_signature'' = PStr (b64encode (la_signature a))"
  "get_value (entry_members now a s prev i) ''rootknot_run_id'' = PStr (la_run_id a)"
  "get_value (entry_members now a s prev i) ''tool_trace_summary'' = PDict s"
  "get_value (entry_members now a s prev i) ''prev_ledger_hash'' = PStr prev"
  "get_value (entry_members now a s prev i) ''entry_index'' = PInt (int i)"
  "get_value (entry_members now a s prev i) ''manifest_snapshot_ref'' =
     (if la_manifest a = None then PNone else PStr (snapshot_ref (la_digest a)))"
  "get_value (entry_members now a s prev i) ''wal_cross_link'' =
     (if la_first_wal a = None \<and> la_last_wal a = None then PNone
      else PDict [(KStr ''first_wal_seq'', PInt (case la_first_wal a of None \<Rightarrow> 0 | Some n \<Rightarrow> n)),
              (KStr ''last_wal_seq'', PInt (case la_last_wal a of None \<Rightarrow> 0 | Some n \<Rightarrow> n))])"
  by (auto simp: get_value_def get_default_def entry_members_def wal_cross_link_def split: option.split)

lemma float_free_get: "float_free (PDict p) \<Longrightarrow> float_free (get_value p k)"
  by (auto simp: get_value_def get_default_def split: option.splits dest!: map_of_SomeD)

lemma entry_float_free:
  assumes "build_entry h now a prev i = Inr e" and "stable_args E a"
  shows "float_free (PDict e)" and "\<exists>s. e = entry_members now a s prev i"
proof -
  from assms(1) obtain s where s: "normalise_tool_trace h (tool_trace_or_empty (la_summary a)) = Inr s"
    and e: "e = entry_members now a s prev i"
    by (auto simp: build_entry_def result_simps)
  have "float_free (PDict (tool_trace_or_empty (la_summary a)))"
    using assms(2) by (auto simp: tool_trace_or_empty_def empty_tool_trace_def stable_args_def split: option.splits)
  then have "float_free (PDict s)"
    using s float_free_get [of "tool_trace_or_empty (la_summary a)"]
    by (auto simp: normalise_tool_trace_def split: option.splits)
  then show "float_free (PDict e)"
    by (auto simp: e entry_members_def wal_cross_link_def split: option.splits)
  show "\<exists>s. e = entry_members now a s prev i" using e by blast
qed

lemma isascii_b64: "isascii (b64encode s)"
  using below_del_b64 [of s] by (auto simp: below_del_def isascii_def)

lemma canon_link:
  assumes "normalises nfc"
  shows "canon_payload nfc [(KStr ''first_wal_seq'', PInt m), (KStr ''last_wal_seq'', PInt n)] =
    [(KStr ''first_wal_seq'', PInt m), (KStr ''last_wal_seq'', PInt n)]"
proof -
  have "nfc ''first_wal_seq'' = ''first_wal_seq''" "nfc ''last_wal_seq'' = ''last_wal_seq''"
    using assms by (simp_all add: normalises_def isascii_def)
  then show ?thesis by (simp add: sorted_members_def canon_payload_def)
qed

lemma startswith_snapshot_ref: "startswith (snapshot_ref d) ''manifest_snapshots/'' \<and> endswith (snapshot_ref d) ''.json''"
  by (simp add: snapshot_ref_def startswith_def endswith_def)

text \<open>What \<open>append\<close> has checked of its arguments when it comes to the lock.\<close>

definition appendable :: "ledger_env \<Rightarrow> append_args \<Rightarrow> bool" where
  "appendable E a \<longleftrightarrow> reads_as_digest E (la_digest a) \<and> la_run_id a \<noteq> [] \<and>
    (\<forall>b. la_manifest a = Some b \<longrightarrow> la_digest a = hex (lv_sha E b))"

lemma link_digest:
  assumes "link_of E p = Inr x" and "ledger_env_ok E"
  shows "x = GENESIS \<or> reads_as_digest E x" and "lv_nfc E x = x"
proof -
  show "x = GENESIS \<or> reads_as_digest E x"
    using assms reads_as_digest_hex [of E] by (auto simp: link_of_def hash_entry_Inr ledger_env_ok_def split: option.splits)
  show "lv_nfc E x = x" using link_isascii [OF assms(1)] assms(2) by (simp add: ledger_env_ok_def normalises_def)
qed

lemma stable_ref:
  assumes "normalises (lv_nfc E)" and "appendable E a" and "la_manifest a = Some b"
  shows "lv_nfc E (snapshot_ref (la_digest a)) = snapshot_ref (la_digest a)"
proof -
  have "isascii (la_digest a)" using assms(2,3) isascii_hex by (simp add: appendable_def)
  then have "isascii (snapshot_ref (la_digest a))" by (simp add: snapshot_ref_def isascii_def)
  with assms(1) show ?thesis by (simp add: normalises_def)
qed

lemma appended_good:
  assumes "ledger_env_ok E" and "stable_args E a" and "appendable E a"
    and "link_of E p = Inr prev" and "build_entry h now a prev i = Inr e"
  shows "good_entry E i p (canon_payload (lv_nfc E) e)"
proof -
  have n: "normalises (lv_nfc E)" using assms(1) by (simp add: ledger_env_ok_def)
  from entry_float_free(2) [OF assms(5,2)] obtain s where e: "e = entry_members now a s prev i" by blast
  have get: "get_value (canon_payload (lv_nfc E) e) k = canon (lv_nfc E) (get_value e k)" for k
    unfolding e by (rule canon_get [OF n entry_keys])
  have b64: "lv_nfc E (b64encode b) = b64encode b" for b using n isascii_b64 by (simp add: normalises_def)
  note ref = stable_ref [OF n assms(3)]
  have "entry_schema_valid E (canon_payload (lv_nfc E) e)"
    using assms(2,3) link_digest [OF assms(4,1)] b64decode_encode
    unfolding entry_schema_valid_def get unfolding e entry_get
    by (auto simp: b64 ref canon_link [OF n] stable_args_def appendable_def startswith_snapshot_ref
        get_value_def get_default_def is_int_def canon_PDict simp del: canon.simps(4))
  moreover have "\<not> misplaced i (canon_payload (lv_nfc E) e)" by (simp add: misplaced_def get) (simp add: e)
  moreover have "get_value (canon_payload (lv_nfc E) e) ''prev_ledger_hash'' = PStr prev"
    using link_digest(2) [OF assms(4,1)] by (simp add: get) (simp add: e)
  ultimately show ?thesis using assms(4) by (simp add: good_entry_def)
qed

text \<open>The pair an entry records.\<close>

definition observed_pair :: "payload \<Rightarrow> pyval \<times> pyval" where
  "observed_pair e = (get_value e ''rootknot_run_id'', get_value e ''manifest_digest'')"

lemma same_observation_iff: "same_observation a e \<longleftrightarrow> observed_pair e = (PStr (la_run_id a), PStr (la_digest a))"
  by (simp add: same_observation_def observed_pair_def)

lemma recorded_at_None: "recorded_at a es = None \<longleftrightarrow> (\<forall>e \<in> set es. \<not> same_observation a e)"
  by (induction es) auto

lemma recorded_at_Some:
  "recorded_at a es = Some i \<Longrightarrow> i < length es \<and> same_observation a (es ! i) \<and> (\<forall>j < i. \<not> same_observation a (es ! j))"
proof (induction es arbitrary: i)
  case (Cons e es)
  show ?case
  proof (cases "same_observation a e")
    case False
    with Cons.prems obtain j where "i = Suc j" "recorded_at a es = Some j" by auto
    with Cons.IH [of j] False show ?thesis by (auto simp: less_Suc_eq_0_disj)
  qed (use Cons.prems in auto)
qed simp

text \<open>The snapshot an entry refers to.\<close>

definition referred :: "payload \<Rightarrow> string \<Rightarrow> bool" where
  "referred e d \<longleftrightarrow> get_value e ''manifest_digest'' = PStr d \<and> get_value e ''manifest_snapshot_ref'' = PStr (snapshot_ref d)"

lemma appended_line:
  assumes "ledger_env_ok E" and "stable_args E a" and "appendable E a"
    and "append_line E now a es = Inr (r, line)" and "recorded_at a es = None"
    and "verify_entries E 0 None es = Inr None"
  obtains e t where "line = t @ [newline]" "ledger_valid (lv_nfc E) e t" "utf8_valid t"
    "r = \<lparr>ar_index = length es, ar_hash = hex (lv_sha E t), ar_duplicate = False\<rparr>"
    "hash_entry E (canon_payload (lv_nfc E) e) = Inr (hex (lv_sha E t))"
    "verify_entries E 0 None (es @ [canon_payload (lv_nfc E) e]) = Inr None"
    "same_observation a (canon_payload (lv_nfc E) e)"
    "get_value (canon_payload (lv_nfc E) e) ''rootknot_signature'' = PStr (b64encode (la_signature a))"
    "get_value (canon_payload (lv_nfc E) e) ''entry_index'' = PInt (int (length es))"
    "la_manifest a = None \<longrightarrow> get_value (canon_payload (lv_nfc E) e) ''manifest_snapshot_ref'' = PNone"
    "la_manifest a \<noteq> None \<longrightarrow>
      get_value (canon_payload (lv_nfc E) e) ''manifest_snapshot_ref'' = PStr (snapshot_ref (la_digest a))"
proof -
  have n: "normalises (lv_nfc E)" using assms(1) by (simp add: ledger_env_ok_def)
  obtain prev e t where prev: "link_of E (last_entry es) = Inr prev"
    and b: "build_entry (lv_host E) now a prev (length es) = Inr e" and t: "entry_bytes E e = Inr t"
    and out: "r = \<lparr>ar_index = length es, ar_hash = hex (lv_sha E t), ar_duplicate = False\<rparr>" "line = t @ [newline]"
  proof -
    obtain prev where p: "link_of E (last_entry es) = Inr prev"
      using assms(4,5) by (cases "link_of E (last_entry es)") (simp_all add: append_line_def)
    moreover obtain e where b: "build_entry (lv_host E) now a prev (length es) = Inr e"
      using assms(4,5) p by (cases "build_entry (lv_host E) now a prev (length es)") (simp_all add: append_line_def)
    moreover obtain t where "entry_bytes E e = Inr t"
      using assms(4,5) p b by (cases "entry_bytes E e") (simp_all add: append_line_def)
    ultimately show thesis using assms(4,5) by (intro that [of prev e t]) (simp_all add: append_line_def)
  qed
  note ff = entry_float_free(1) [OF b assms(2)]
  note ref = stable_ref [OF n assms(3)]
  from entry_float_free(2) [OF b assms(2)] obtain s where e: "e = entry_members now a s prev (length es)" by blast
  have get: "get_value (canon_payload (lv_nfc E) e) k = canon (lv_nfc E) (get_value e k)" for k
    unfolding e by (rule canon_get [OF n entry_keys])
  have same: "entry_bytes E (canon_payload (lv_nfc E) e) = Inr t"
    using dumps_loads_canon(2) [OF t[unfolded entry_bytes_def] ff n]
    by (simp add: entry_bytes_def canon_PDict del: canon.simps)
  show ?thesis
  proof (rule that [OF out(2) _ _ out(1)])
    show "ledger_valid (lv_nfc E) e t" using n ff t by (simp add: ledger_valid_def entry_bytes_def)
    show "utf8_valid t" using t by (simp add: entry_bytes_def dumps_jcs_ok)
    show "hash_entry E (canon_payload (lv_nfc E) e) = Inr (hex (lv_sha E t))" by (simp add: hash_entry_def same)
    show "verify_entries E 0 None (es @ [canon_payload (lv_nfc E) e]) = Inr None"
      using appended_good [OF assms(1-3) prev b] assms(6) by (simp add: verify_snoc last_entry_def if_distrib)
    show "same_observation a (canon_payload (lv_nfc E) e)"
      using assms(2) by (simp add: same_observation_def get stable_args_def) (simp add: e)
    show "get_value (canon_payload (lv_nfc E) e) ''rootknot_signature'' = PStr (b64encode (la_signature a))"
      using n isascii_b64 by (simp add: get normalises_def) (simp add: e)
    show "get_value (canon_payload (lv_nfc E) e) ''entry_index'' = PInt (int (length es))"
      by (simp add: get) (simp add: e)
    show "la_manifest a = None \<longrightarrow> get_value (canon_payload (lv_nfc E) e) ''manifest_snapshot_ref'' = PNone"
      by (simp add: get) (simp add: e)
    show "la_manifest a \<noteq> None \<longrightarrow>
        get_value (canon_payload (lv_nfc E) e) ''manifest_snapshot_ref'' = PStr (snapshot_ref (la_digest a))"
      using ref by (auto simp: get) (auto simp: e)
  qed
qed

subsection \<open>A ledger that its own calls wrote\<close>

definition snapshots_ok :: "ledger_env \<Rightarrow> ledger_store \<Rightarrow> payload list \<Rightarrow> bool" where
  "snapshots_ok E st es \<longleftrightarrow>
    (\<forall>d b. map_of (ledger_snapshots st) d = Some b \<longrightarrow> d = hex (lv_sha E b)) \<and>
    (\<forall>e \<in> set es. get_value e ''manifest_snapshot_ref'' \<noteq> PNone \<longrightarrow>
      (\<exists>d b. referred e d \<and> map_of (ledger_snapshots st) d = Some b))"

definition ledger_good :: "ledger_env \<Rightarrow> ledger_store \<Rightarrow> payload list \<Rightarrow> bool" where
  "ledger_good E st es \<longleftrightarrow> ledger_holds E st es \<and> verify_entries E 0 None es = Inr None \<and>
    distinct (map observed_pair es) \<and> snapshots_ok E st es \<and>
    (\<forall>j < length es. get_value (es ! j) ''entry_index'' = PInt (int j)) \<and>
    (\<forall>e \<in> set es. is_ok (hash_entry E e) \<and> float_free (PDict e))"

lemma store_snapshot_good:
  assumes "ledger_good E st es" and "store_snapshot E b st = (d, st')"
  shows "ledger_good E st' es" and "\<exists>c. map_of (ledger_snapshots st') d = Some c" and "d = hex (lv_sha E b)"
proof -
  have d: "d = hex (lv_sha E b)" and st': "st' = (if map_of (ledger_snapshots st) d = None
      then st\<lparr>ledger_snapshots := AList.update d b (ledger_snapshots st)\<rparr> else st)"
    using assms(2) by (auto simp: store_snapshot_def Let_def)
  show "d = hex (lv_sha E b)" by (rule d)
  show "\<exists>c. map_of (ledger_snapshots st') d = Some c" by (auto simp: st' update_conv')
  show "ledger_good E st' es"
  proof (cases "map_of (ledger_snapshots st) d = None")
    case True
    have snap: "snapshots_ok E st es" using assms(1) by (simp add: ledger_good_def)
    have look: "map_of (ledger_snapshots st') x = (if x = d then Some b else map_of (ledger_snapshots st) x)" for x
      using True by (simp add: st' update_conv')
    have "snapshots_ok E st' es"
      unfolding snapshots_ok_def
    proof (intro conjI allI impI ballI)
      fix x c assume "map_of (ledger_snapshots st') x = Some c"
      then show "x = hex (lv_sha E c)" using snap d by (auto simp: look snapshots_ok_def split: if_splits)
    next
      fix e assume "e \<in> set es" and "get_value e ''manifest_snapshot_ref'' \<noteq> PNone"
      with snap obtain x c where "referred e x" "map_of (ledger_snapshots st) x = Some c"
        unfolding snapshots_ok_def by blast
      then show "\<exists>x c. referred e x \<and> map_of (ledger_snapshots st') x = Some c"
        by (cases "x = d") (auto simp: look)
    qed
    with assms(1) True show ?thesis by (simp add: st' ledger_good_def ledger_holds_def)
  qed (use assms(1) st' in auto)
qed

text \<open>What a call leaves behind and returns.\<close>

definition append_outcome :: "ledger_env \<Rightarrow> append_args \<Rightarrow> payload list \<Rightarrow> ledger_error + append_result \<Rightarrow> payload list \<Rightarrow> bool" where
  "append_outcome E a es out es' \<longleftrightarrow>
    (case out of
       Inl _ \<Rightarrow> es' = es
     | Inr r \<Rightarrow>
         ar_index r < length es' \<and> same_observation a (es' ! ar_index r) \<and>
         hash_entry E (es' ! ar_index r) = Inr (ar_hash r) \<and>
         (if ar_duplicate r then es' = es
          else \<exists>e. es' = es @ [e] \<and> ar_index r = length es \<and> (\<forall>f \<in> set es. \<not> same_observation a f) \<and>
            get_value e ''rootknot_signature'' = PStr (b64encode (la_signature a)) \<and>
            get_value e ''entry_index'' = PInt (int (length es))))"

lemma append_locked_outcome:
  assumes "ledger_env_ok E" and "stable_args E a" and "appendable E a" and "ledger_good E st es"
    and "la_manifest a \<noteq> None \<longrightarrow> (\<exists>c. map_of (ledger_snapshots st) (la_digest a) = Some c)"
  shows "\<exists>es'. ledger_good E (snd (append_locked E try_lock now a st)) es' \<and>
    append_outcome E a es (fst (append_locked E try_lock now a st)) es'"
proof -
  have holds: "ledger_holds E st es" and ver: "verify_entries E 0 None es = Inr None"
    and dist: "distinct (map observed_pair es)" and snap: "snapshots_ok E st es"
    and stamped: "\<forall>j < length es. get_value (es ! j) ''entry_index'' = PInt (int j)"
    and hashed: "\<forall>e \<in> set es. is_ok (hash_entry E e) \<and> float_free (PDict e)"
    using assms(4) by (simp_all add: ledger_good_def)
  obtain c where c: "open_rdwr (ledger_file st) = Inr (Content c)" "utf8_valid c" "holds (ledger_line (lv_float E)) c es"
    by (rule opened_holds [OF holds])
  let ?o = "st\<lparr>ledger_file := Content c\<rparr>"
  have good: "ledger_good E ?o es" and load: "load_ledger E ?o = Inr es"
    using c(2,3) ver dist snap stamped hashed
    by (simp_all add: ledger_good_def ledger_holds_def snapshots_ok_def load_ledger_def ledger_text_holds)
  show ?thesis
  proof (cases "lock_exclusive try_lock ledger_lock_retries")
    case False
    then show ?thesis using good by (auto simp: append_locked_def c(1) append_outcome_def)
  next
    case True
    show ?thesis
    proof (cases "append_line E now a es")
      case (Inl x)
      then show ?thesis using good True load by (auto simp: append_locked_def c(1) append_outcome_def)
    next
      case (Inr rl)
      obtain r line where rl: "rl = (r, line)" by (cases rl)
      have out: "append_locked E try_lock now a st = (Inr r, st\<lparr>ledger_file := Content (c @ line)\<rparr>)"
        using True load Inr by (simp add: append_locked_def c(1) rl)
      show ?thesis
      proof (cases "recorded_at a es")
        case (Some i)
        then have "line = [] \<and> ar_index r = i \<and> ar_duplicate r \<and> hash_entry E (es ! i) = Inr (ar_hash r)"
          using Inr by (auto simp: append_line_def rl rbind_Inr_iff)
        then show ?thesis using recorded_at_Some [OF Some] good by (auto simp: out append_outcome_def)
      next
        case None
        obtain e t where line: "line = t @ [newline]"
          "ledger_valid (lv_nfc E) e t" "utf8_valid t"
          and r: "r = \<lparr>ar_index = length es, ar_hash = hex (lv_sha E t), ar_duplicate = False\<rparr>"
          and e: "hash_entry E (canon_payload (lv_nfc E) e) = Inr (hex (lv_sha E t))"
            "verify_entries E 0 None (es @ [canon_payload (lv_nfc E) e]) = Inr None"
            "same_observation a (canon_payload (lv_nfc E) e)"
            "get_value (canon_payload (lv_nfc E) e) ''rootknot_signature'' = PStr (b64encode (la_signature a))"
            "get_value (canon_payload (lv_nfc E) e) ''entry_index'' = PInt (int (length es))"
            "la_manifest a = None \<longrightarrow> get_value (canon_payload (lv_nfc E) e) ''manifest_snapshot_ref'' = PNone"
            "la_manifest a \<noteq> None \<longrightarrow>
              get_value (canon_payload (lv_nfc E) e) ''manifest_snapshot_ref'' = PStr (snapshot_ref (la_digest a))"
          by (rule appended_line [OF assms(1-3) Inr[unfolded rl] None ver])
        let ?e = "canon_payload (lv_nfc E) e"
        let ?st = "st\<lparr>ledger_file := Content (c @ line)\<rparr>"
        have "ledger_holds E ?st (es @ [?e])"
          using ledger_log.holds_append [OF c(3) line(2)] c(2) line(1,3)
          by (simp add: ledger_holds_def utf8_valid_append utf8_valid_newline del: utf8_valid.simps)
        moreover have "distinct (map observed_pair (es @ [?e]))"
          using dist None e(3) by (auto simp: recorded_at_None same_observation_iff)
        moreover have "snapshots_ok E ?st (es @ [?e])"
        proof -
          have "\<exists>d b. referred ?e d \<and> map_of (ledger_snapshots st) d = Some b"
            if "get_value ?e ''manifest_snapshot_ref'' \<noteq> PNone"
            using that e(3,6,7) assms(5) unfolding referred_def same_observation_def by metis
          with snap show ?thesis by (simp add: snapshots_ok_def)
        qed
        moreover have "\<forall>j < length (es @ [?e]). get_value ((es @ [?e]) ! j) ''entry_index'' = PInt (int j)"
          using stamped e(5) by (auto simp: nth_append less_Suc_eq)
        moreover have "float_free (PDict ?e)"
          using line(2) float_free_canon [of "PDict e" "lv_nfc E"]
          by (simp add: ledger_valid_def canon_PDict del: canon.simps float_free.simps)
        then have "\<forall>e \<in> set (es @ [?e]). is_ok (hash_entry E e) \<and> float_free (PDict e)"
          using hashed e(1) by (simp del: float_free.simps)
        ultimately have "ledger_good E ?st (es @ [?e])" using e(2) by (simp add: ledger_good_def del: float_free.simps)
        moreover have "append_outcome E a es (Inr r) (es @ [?e])"
          using e None by (auto simp: append_outcome_def r recorded_at_None)
        ultimately show ?thesis by (auto simp: out)
      qed
    qed
  qed
qed

lemma append_outcome_raised: "append_outcome E a es (Inl x) es"
  by (simp add: append_outcome_def)

lemma ledger_append_outcome:
  assumes "ledger_env_ok E" and "stable_args E a" and "ledger_good E st es"
  shows "\<exists>es'. ledger_good E (snd (ledger_append E try_lock now a st)) es' \<and>
    append_outcome E a es (fst (ledger_append E try_lock now a st)) es'"
proof (cases "reads_as_digest E (la_digest a) \<and> la_run_id a \<noteq> []")
  case False
  then show ?thesis using assms(3) append_outcome_raised by (auto simp: ledger_append_def)
next
  case True
  show ?thesis
  proof (cases "la_manifest a")
    case None
    then have "appendable E a" using True by (simp add: appendable_def)
    from append_locked_outcome [OF assms(1,2) this assms(3), of try_lock now] show ?thesis
      using None True by (simp add: ledger_append_def)
  next
    case (Some b)
    obtain d st' where st': "store_snapshot E b st = (d, st')" by (cases "store_snapshot E b st")
    note stored = store_snapshot_good [OF assms(3) st']
    show ?thesis
    proof (cases "d = la_digest a")
      case False
      then show ?thesis using stored(1) Some True st' append_outcome_raised by (auto simp: ledger_append_def)
    next
      case eq: True
      have "appendable E a" using True Some stored(3) eq by (simp add: appendable_def)
      from append_locked_outcome [OF assms(1,2) this stored(1), of try_lock now] show ?thesis
        using Some True st' eq stored(2) by (simp add: ledger_append_def)
    qed
  qed
qed

text \<open>
  The ledgers that calls of \<open>append\<close> produce, from an empty directory, whatever each call returns.
\<close>

inductive written_ledger :: "ledger_env \<Rightarrow> ledger_store \<Rightarrow> bool" for E where
  fresh: "written_ledger E \<lparr>ledger_file = Absent, ledger_snapshots = []\<rparr>"
| call: "written_ledger E st \<Longrightarrow> stable_args E a \<Longrightarrow> written_ledger E (snd (ledger_append E try_lock now a st))"

lemma written_good: "written_ledger E st \<Longrightarrow> ledger_env_ok E \<Longrightarrow> \<exists>es. ledger_good E st es"
proof (induction rule: written_ledger.induct)
  case fresh
  have "ledger_good E \<lparr>ledger_file = Absent, ledger_snapshots = []\<rparr> []"
    by (simp add: ledger_good_def ledger_holds_def snapshots_ok_def)
  then show ?case ..
next
  case (call st a try_lock now)
  then show ?case using ledger_append_outcome by blast
qed

lemma good_verdict:
  "ledger_good E st es \<Longrightarrow> load_ledger E st = Inr es \<and>
    verify_chain E st = Inr \<lparr>lr_valid = True, lr_first_break = None, lr_valid_count = length es\<rparr>"
  using load_holds [of E st es] by (simp add: ledger_good_def verify_chain_def)

lemma valid_chain:
  assumes "verify_chain E st = Inr v" and "lr_valid v" and "load_ledger E st = Inr es"
  shows "verify_entries E 0 None es = Inr None"
proof -
  obtain b where b: "verify_entries E 0 None es = Inr b"
    using assms(1,3) by (cases "verify_entries E 0 None es") (simp_all add: verify_chain_def)
  with assms show ?thesis by (cases b) (auto simp: verify_chain_def)
qed

lemma walk_forward_True:
  "walk_forward E loader prev xs = Inr True \<Longrightarrow>
    \<exists>ds. list_all2 (\<lambda>x d. loader x = Some (PDict d) \<and> hash_entry E d = Inr x) xs ds \<and>
      (\<forall>e. hash_entry E e = Inr prev \<longrightarrow> hash_linked E (e # ds))"
proof (induction xs arbitrary: prev)
  case (Cons x xs)
  from Cons.prems obtain d where d: "loader x = Some (PDict d)" "hash_entry E d = Inr x"
      "get_value d ''prev_ledger_hash'' = PStr prev" "walk_forward E loader x xs = Inr True"
    by (auto simp: rbind_Inr_iff split: option.splits pyval.splits if_splits)
  from Cons.IH [OF d(4)] obtain ds where
    ds: "list_all2 (\<lambda>x d. loader x = Some (PDict d) \<and> hash_entry E d = Inr x) xs ds"
      "\<forall>e. hash_entry E e = Inr x \<longrightarrow> hash_linked E (e # ds)" by blast
  then show ?case using d by (intro exI [of _ "d # ds"]) simp
qed simp

lemma list_all2_last: "list_all2 P xs ys \<Longrightarrow> xs \<noteq> [] \<Longrightarrow> P (last xs) (last ys)"
  by (induction xs ys rule: list_all2_induct) auto

lemma list_all2_in_right: "list_all2 P xs ys \<Longrightarrow> y \<in> set ys \<Longrightarrow> \<exists>x \<in> set xs. P x y"
  by (induction xs ys rule: list_all2_induct) auto

text \<open>The entries that a proof's check reads.\<close>

definition proof_entries :: "merkle_proof \<Rightarrow> (string \<Rightarrow> pyval option) \<Rightarrow> payload set" where
  "proof_entries p loader = insert (mp_entry p) {d. \<exists>x \<in> set (mp_forward p). loader x = Some (PDict d)}"

lemma verify_proof_True:
  assumes "verify_proof E p (Some loader) = Inr True"
  obtains ds where "hash_linked E (mp_entry p # ds)" "length ds = length (mp_forward p)"
    "set (mp_entry p # ds) \<subseteq> proof_entries p loader" "hash_entry E (last (mp_entry p # ds)) = Inr (mp_tail p)"
proof -
  have hash: "hash_entry E (mp_entry p) = Inr (mp_hash p)"
    and walk: "walk_forward E loader (mp_hash p) (mp_forward p) = Inr True" and tail: "tail_agrees p"
    using assms by (auto simp: verify_proof_def rbind_Inr_iff split: if_splits)
  from walk_forward_True [OF walk] hash obtain ds where
    ds: "list_all2 (\<lambda>x d. loader x = Some (PDict d) \<and> hash_entry E d = Inr x) (mp_forward p) ds"
      "hash_linked E (mp_entry p # ds)" by blast
  have len: "length ds = length (mp_forward p)" using ds(1) by (simp add: list_all2_lengthD)
  have "set ds \<subseteq> proof_entries p loader"
  proof
    fix d assume "d \<in> set ds"
    with ds(1) obtain x where "x \<in> set (mp_forward p)" "loader x = Some (PDict d)" by (auto dest: list_all2_in_right)
    then show "d \<in> proof_entries p loader" by (auto simp: proof_entries_def)
  qed
  moreover have "hash_entry E (last (mp_entry p # ds)) = Inr (mp_tail p)"
    using tail hash list_all2_last [OF ds(1)] len by (auto simp: tail_agrees_def split: if_splits)
  ultimately show ?thesis using that [OF ds(2) len] by (simp add: proof_entries_def)
qed

lemma walk_forward_linked:
  assumes "hash_linked E (e # ds)" and "hash_entry E e = Inr prev"
    and "list_all2 (\<lambda>x d. loader x = Some (PDict d) \<and> hash_entry E d = Inr x) xs ds"
  shows "walk_forward E loader prev xs = Inr True"
  using assms(3,1,2)
proof (induction xs ds arbitrary: e prev rule: list_all2_induct)
  case (Cons x xs d ds)
  from Cons.hyps(1) have d: "loader x = Some (PDict d)" "hash_entry E d = Inr x" by simp_all
  with Cons.prems have "get_value d ''prev_ledger_hash'' = PStr prev" "hash_linked E (d # ds)" by simp_all
  with d Cons.IH [of d x] show ?case by simp
qed simp

lemma append_recorded:
  assumes "written_ledger E st" and "ledger_env_ok E" and "stable_args E a" and "load_ledger E st = Inr es"
  shows "\<exists>es'. load_ledger E (snd (ledger_append E try_lock now a st)) = Inr es' \<and>
    append_outcome E a es (fst (ledger_append E try_lock now a st)) es'"
proof -
  obtain fs where fs: "ledger_good E st fs" using written_good [OF assms(1,2)] ..
  with good_verdict [OF this] assms(4) have "ledger_good E st es" by simp
  from ledger_append_outcome [OF assms(2,3) this] show ?thesis using good_verdict by blast
qed

subsection \<open>When an append cannot fail\<close>

text \<open>An observation whose texts are ASCII: every one that the program itself makes.\<close>

definition ascii_args :: "string \<Rightarrow> append_args \<Rightarrow> bool" where
  "ascii_args now a \<longleftrightarrow> isascii now \<and> isascii (la_digest a) \<and> isascii (la_run_id a) \<and> la_summary a = None"

lemma ascii_stable: "normalises (lv_nfc E) \<Longrightarrow> ascii_args now a \<Longrightarrow> stable_args E a"
  by (simp add: stable_args_def ascii_args_def normalises_def)

lemma empty_trace_kept: "normalise_tool_trace h (tool_trace_or_empty None) = Inr empty_tool_trace"
  by (simp add: tool_trace_or_empty_def normalise_tool_trace_def empty_tool_trace_def get_default_def get_value_def)

lemma ascii_entry:
  assumes "ascii_args now a" and "isascii prev"
  shows "ascii_value (PDict (entry_members now a empty_tool_trace prev i))"
proof -
  have keys: "k \<noteq> KOther \<and> isascii (key_str k)" if "(k, v) \<in> set (entry_members now a empty_tool_trace prev i)" for k v
    using entry_keys(1) [of now a empty_tool_trace prev i] that by (force simp: plain_keys_def)
  have link: "ascii_value v" if "(k, v) \<in> set (wal_cross_link a)" for k v
    using that by (auto simp: wal_cross_link_def isascii_def split: if_splits)
  have ref: "isascii (snapshot_ref (la_digest a))"
    using assms(1) unfolding snapshot_ref_def isascii_append ascii_args_def by (simp add: isascii_def)
  have trace: "ascii_value (PDict empty_tool_trace)" by (simp add: empty_tool_trace_def isascii_def)
  have "ascii_value v" if "(k, v) \<in> set (entry_members now a empty_tool_trace prev i)" for k v
    using that assms isascii_b64 link ref trace
    by (auto simp: entry_members_def ascii_args_def simp del: ascii_value.simps(3) split: option.splits)
  with keys entry_keys(2) show ?thesis by auto
qed

lemma append_line_ascii:
  assumes "ascii_args now a" and "ledger_env_ok E" and "verify_entries E 0 None es = Inr None"
    and "es = [] \<or> is_ok (hash_entry E (last es))" and "recorded_at a es = None"
  shows "\<exists>line. append_line E now a es = Inr line"
proof -
  obtain prev where prev: "link_of E (last_entry es) = Inr prev"
    using assms(4) by (cases "es = []") (auto simp: link_of_def last_entry_def is_ok_iff)
  have "normalises (lv_nfc E)" using assms(2) by (simp add: ledger_env_ok_def)
  from ascii_dumps [OF ascii_entry [OF assms(1) link_isascii [OF prev], of "length es"] this] obtain t where
    "entry_bytes E (entry_members now a empty_tool_trace prev (length es)) = Inr t"
    by (auto simp: is_ok_iff entry_bytes_def)
  then show ?thesis
    using prev assms(1,5) by (simp add: append_line_def build_entry_def ascii_args_def empty_trace_kept)
qed

lemma append_locked_ascii:
  assumes "ledger_good E st es" and "ledger_env_ok E" and "ascii_args now a"
    and "lock_exclusive try_lock ledger_lock_retries"
  shows "is_ok (fst (append_locked E try_lock now a st))"
proof -
  have holds: "ledger_holds E st es" and ver: "verify_entries E 0 None es = Inr None"
    and hashed: "\<forall>e \<in> set es. is_ok (hash_entry E e)"
    using assms(1) by (simp_all add: ledger_good_def)
  obtain c where c: "open_rdwr (ledger_file st) = Inr (Content c)" "utf8_valid c" "holds (ledger_line (lv_float E)) c es"
    by (rule opened_holds [OF holds])
  have load: "load_ledger E (st\<lparr>ledger_file := Content c\<rparr>) = Inr es"
    using c(2,3) by (simp add: load_ledger_def ledger_text_holds)
  have "\<exists>rl. append_line E now a es = Inr rl"
  proof (cases "recorded_at a es")
    case None
    have "es = [] \<or> is_ok (hash_entry E (last es))" using hashed by (cases "es = []") auto
    then show ?thesis by (rule append_line_ascii [OF assms(3,2) ver _ None])
  next
    case (Some i)
    then have "es ! i \<in> set es" using recorded_at_Some [OF Some] by simp
    then obtain x where "hash_entry E (es ! i) = Inr x" using hashed by (auto simp: is_ok_iff)
    then show ?thesis using Some by (simp add: append_line_def)
  qed
  then show ?thesis using assms(4) load by (auto simp: append_locked_def c(1))
qed

lemma ledger_append_ascii:
  assumes "ledger_good E st es" and "ledger_env_ok E" and "ascii_args now a" and "appendable E a"
    and "lock_exclusive try_lock ledger_lock_retries"
  shows "is_ok (fst (ledger_append E try_lock now a st))"
proof (cases "la_manifest a")
  case None
  then show ?thesis using append_locked_ascii [OF assms(1-3,5)] assms(4) by (simp add: ledger_append_def appendable_def)
next
  case (Some b)
  obtain d st' where st': "store_snapshot E b st = (d, st')" by (cases "store_snapshot E b st")
  note stored = store_snapshot_good [OF assms(1) st']
  have "reads_as_digest E (la_digest a)" "la_run_id a \<noteq> []" using assms(4) unfolding appendable_def by blast+
  moreover have "d = la_digest a" using assms(4) stored(3) Some by (simp add: appendable_def)
  ultimately show ?thesis
    using append_locked_ascii [OF stored(1) assms(2,3,5)] Some st' by (simp add: ledger_append_def)
qed

text \<open>A ledger of two observations, for the examples.\<close>

definition ledger_demo_env :: ledger_env where
  "ledger_demo_env = \<lparr>lv_nfc = (\<lambda>s. s), lv_sha = knot_demo_sha, lv_float = (\<lambda>_. FNan), lv_host = demo_host,
     lv_ascii = (\<lambda>s. s)\<rparr>"

definition ledger_demo_args :: "char \<Rightarrow> append_args" where
  "ledger_demo_args c = \<lparr>la_digest = hex (replicate 32 c), la_signature = ''sig'', la_run_id = ''r'',
     la_manifest = Some (replicate 32 c), la_summary = None, la_first_wal = None, la_last_wal = Some 4\<rparr>"

definition ledger_demo_call :: "char \<Rightarrow> ledger_store \<Rightarrow> (ledger_error + append_result) \<times> ledger_store" where
  "ledger_demo_call c st = ledger_append ledger_demo_env (\<lambda>_. True) ''now'' (ledger_demo_args c) st"

definition ledger_demo_empty :: ledger_store where
  "ledger_demo_empty = \<lparr>ledger_file = Absent, ledger_snapshots = []\<rparr>"

definition ledger_demo_one :: ledger_store where
  "ledger_demo_one = snd (ledger_demo_call CHR ''m'' ledger_demo_empty)"

definition ledger_demo_two :: ledger_store where
  "ledger_demo_two = snd (ledger_demo_call CHR ''n'' ledger_demo_one)"

lemma ledger_demo_sha: "length (knot_demo_sha b) = 32"
  by (simp add: knot_demo_sha_def min_def)

lemma ledger_demo_ok: "ledger_env_ok ledger_demo_env"
  by (simp add: ledger_env_ok_def ledger_demo_env_def ascii_kept_def normalises_id ledger_demo_sha)

lemma ledger_demo_nfc [simp]: "lv_nfc ledger_demo_env = (\<lambda>s. s)"
  by (simp add: ledger_demo_env_def)

lemma ledger_demo_ascii: "ascii_args ''now'' (ledger_demo_args c)"
  by (simp add: ascii_args_def ledger_demo_args_def isascii_hex) (simp add: isascii_def)

lemma ledger_demo_stable: "stable_args ledger_demo_env (ledger_demo_args c)"
  by (rule ascii_stable [OF _ ledger_demo_ascii]) (simp add: normalises_id)

lemma ledger_demo_admitted: "appendable ledger_demo_env (ledger_demo_args c)"
  using reads_as_digest_hex [of ledger_demo_env "replicate 32 c"] ledger_demo_ok
  by (simp add: appendable_def ledger_demo_args_def ledger_env_ok_def) (simp add: ledger_demo_env_def knot_demo_sha_def)

lemma ledger_demo_written:
  "written_ledger ledger_demo_env ledger_demo_empty" "written_ledger ledger_demo_env ledger_demo_one"
  "written_ledger ledger_demo_env ledger_demo_two"
  unfolding ledger_demo_two_def ledger_demo_one_def ledger_demo_empty_def ledger_demo_call_def
  by (intro written_ledger.call written_ledger.fresh ledger_demo_stable)+

lemma ledger_demo_lock: "lock_exclusive (\<lambda>_. True) ledger_lock_retries"
  by (simp add: lock_exclusive_def ledger_lock_retries_def lock_from.simps)

lemma ledger_demo_step:
  assumes "ledger_good ledger_demo_env st es" and "\<forall>e \<in> set es. \<not> same_observation (ledger_demo_args c) e"
  shows "\<exists>e. ledger_good ledger_demo_env (snd (ledger_demo_call c st)) (es @ [e]) \<and>
    same_observation (ledger_demo_args c) e"
proof -
  obtain r where r: "fst (ledger_demo_call c st) = Inr r"
    using ledger_append_ascii [OF assms(1) ledger_demo_ok ledger_demo_ascii ledger_demo_admitted ledger_demo_lock]
    by (auto simp: ledger_demo_call_def is_ok_iff)
  obtain es' where es': "ledger_good ledger_demo_env (snd (ledger_demo_call c st)) es'"
    "append_outcome ledger_demo_env (ledger_demo_args c) es (Inr r) es'"
    using ledger_append_outcome [OF ledger_demo_ok ledger_demo_stable [of c] assms(1), where try_lock = "\<lambda>_. True" and now = "''now''"] r
    unfolding ledger_demo_call_def by auto
  then obtain i where "i < length es'" "same_observation (ledger_demo_args c) (es' ! i)" by (auto simp: append_outcome_def)
  moreover have "es' \<noteq> es" using calculation assms(2) by (metis nth_mem)
  ultimately obtain e where "es' = es @ [e]" "same_observation (ledger_demo_args c) e"
    using es'(2) by (auto simp: append_outcome_def split: if_splits)
  then show ?thesis using es'(1) by blast
qed

lemma ledger_demo_holds:
  "\<exists>e. ledger_good ledger_demo_env ledger_demo_one [e] \<and> same_observation (ledger_demo_args CHR ''m'') e"
  "\<exists>e f. ledger_good ledger_demo_env ledger_demo_two [e, f]"
proof -
  have "ledger_good ledger_demo_env ledger_demo_empty []"
    by (simp add: ledger_demo_empty_def ledger_good_def ledger_holds_def snapshots_ok_def)
  from ledger_demo_step [OF this] obtain e where
    e: "ledger_good ledger_demo_env ledger_demo_one [e]" "same_observation (ledger_demo_args CHR ''m'') e"
    by (auto simp: ledger_demo_one_def)
  then show "\<exists>e. ledger_good ledger_demo_env ledger_demo_one [e] \<and> same_observation (ledger_demo_args CHR ''m'') e" by blast
  have "\<not> same_observation (ledger_demo_args CHR ''n'') e"
    using e(2) by (auto simp: same_observation_def ledger_demo_args_def)
  with ledger_demo_step [OF e(1), of "CHR ''n''"] show "\<exists>e f. ledger_good ledger_demo_env ledger_demo_two [e, f]"
    by (auto simp: ledger_demo_two_def)
qed

subsection \<open>Properties\<close>





text \<open>
  The hash of the last entry fixes the ledger: two ledgers that verify and whose last entries
  hash to the same value hold the same entries, byte for byte in canonical form, as long as
  SHA-256 does not collide on them. So an entry that was changed, cut out or put in, with every
  later link written anew, changes the tail.
\<close>

theorem tail_fixes_ledger:
  assumes "verify_chain E st = Inr v" and "lr_valid v" and "load_ledger E st = Inr es" and "es \<noteq> []"
    and "verify_chain E st' = Inr v'" and "lr_valid v'" and "load_ledger E st' = Inr fs" and "fs \<noteq> []"
    and "hash_entry E (last es) = Inr x" and "hash_entry E (last fs) = Inr x"
    and "normalises (lv_nfc E)" and "\<forall>e \<in> set es \<union> set fs. float_free (PDict e)"
    and "inj_on (lv_sha E) (bytes_in E (set es \<union> set fs))"
  shows "map (entry_bytes E) es = map (entry_bytes E) fs"
proof -
  obtain t u where t: "entry_bytes E (last es) = Inr t" "entry_bytes E (last fs) = Inr u" "lv_sha E t = lv_sha E u"
    using assms(9,10) by (auto simp: hash_entry_Inr)
  moreover have "t \<in> bytes_in E (set es \<union> set fs)" "u \<in> bytes_in E (set es \<union> set fs)"
    using t assms(4,8) by (auto intro: bytes_inI [of "last es"] bytes_inI [of "last fs"])
  ultimately have "t = u" using assms(13) by (auto dest: inj_onD)
  then show ?thesis
    using t valid_chain [OF assms(1-3)] valid_chain [OF assms(5-7)] assms by (intro shared_chain [of E es fs t]) simp_all
qed

theorem tail_fixes_ledger_witness:
  "\<exists>es. load_ledger ledger_demo_env ledger_demo_one = Inr es \<and> es \<noteq> [] \<and>
    load_ledger ledger_demo_env (ledger_demo_one\<lparr>ledger_snapshots := []\<rparr>) = Inr es \<and>
    map (entry_bytes ledger_demo_env) es = map (entry_bytes ledger_demo_env) es"
proof -
  obtain e where e: "ledger_good ledger_demo_env ledger_demo_one [e]" using ledger_demo_holds(1) by blast
  then obtain x where x: "hash_entry ledger_demo_env e = Inr x" by (auto simp: ledger_good_def is_ok_iff)
  have "inj_on (lv_sha ledger_demo_env) (bytes_in ledger_demo_env (set [e] \<union> set [e]))"
    by (auto simp: inj_on_def bytes_in_def)
  moreover have "load_ledger ledger_demo_env (ledger_demo_one\<lparr>ledger_snapshots := []\<rparr>) = Inr [e]"
    using good_verdict [OF e] by (simp add: load_ledger_def)
  moreover from this have "\<exists>v. verify_chain ledger_demo_env (ledger_demo_one\<lparr>ledger_snapshots := []\<rparr>) = Inr v \<and> lr_valid v"
    using e by (simp add: verify_chain_def ledger_good_def)
  ultimately show ?thesis
    using tail_fixes_ledger [of ledger_demo_env ledger_demo_one _ "[e]" "ledger_demo_one\<lparr>ledger_snapshots := []\<rparr>" _ "[e]" x]
      good_verdict [OF e] e x
    by (auto simp: ledger_good_def normalises_id)
qed



text \<open>
  The proof that \<open>proof_of\<close> makes of an entry of a verified ledger verifies, with any loader
  that finds the ledger's entries by their hash, and its tail hash is that of the last entry.
\<close>

theorem proof_of_verifies:
  assumes "verify_chain E st = Inr v" and "lr_valid v" and "load_ledger E st = Inr es"
    and "proof_of E (int i) st = Inr p"
    and "\<forall>e \<in> set es. \<forall>x. hash_entry E e = Inr x \<longrightarrow> loader x = Some (PDict e)"
  shows "verify_proof E p (Some loader) = Inr True \<and> i < length es \<and> mp_entry p = es ! i \<and>
    hash_entry E (last es) = Inr (mp_tail p)"
proof -
  obtain x xs where i: "i < length es" and x: "hash_entry E (es ! i) = Inr x"
    and xs: "sequence (map (hash_entry E) (drop (Suc i) es)) = Inr xs"
    and p: "p = \<lparr>mp_index = int i, mp_entry = es ! i, mp_hash = x, mp_forward = xs,
      mp_tail = (if xs = [] then x else last xs)\<rparr>"
    using assms(3,4) by (auto simp: proof_of_def Let_def rbind_Inr_iff split: if_splits)
  have hashes: "map (hash_entry E) (drop (Suc i) es) = map Inr xs" using xs by (simp add: sequence_Inr_iff)
  have len: "length xs = length (drop (Suc i) es)" using arg_cong [OF hashes, of length] by simp
  have at: "hash_entry E (drop (Suc i) es ! j) = Inr (xs ! j)" if "j < length xs" for j
    using arg_cong [OF hashes, of "\<lambda>l. l ! j"] that len by simp
  have all: "list_all2 (\<lambda>x d. loader x = Some (PDict d) \<and> hash_entry E d = Inr x) xs (drop (Suc i) es)"
    unfolding list_all2_conv_all_nth using len at assms(5) by (auto intro!: nth_mem dest: in_set_dropD) 
  have split: "es = take i es @ es ! i # drop (Suc i) es" using i by (rule id_take_nth_drop)
  have "hash_linked E (ps @ fs) \<Longrightarrow> hash_linked E fs" for ps fs
    by (induction ps) (auto elim: hash_linked.elims)
  with verified_linked [OF valid_chain [OF assms(1-3)]] split have "hash_linked E (es ! i # drop (Suc i) es)" by metis
  from walk_forward_linked [OF this x all] have "walk_forward E loader x xs = Inr True" .
  moreover have "hash_entry E (last es) = Inr (if xs = [] then x else last xs)"
  proof (cases "xs = []")
    case True
    then have "last es = es ! i" using len i split by (metis last_snoc length_0_conv)
    with True x show ?thesis by simp
  next
    case False
    then have "last es = last (drop (Suc i) es)" using len i by (cases "Suc i < length es") auto
    with False list_all2_last [OF all False] show ?thesis by simp
  qed
  ultimately show ?thesis using i x by (simp add: p verify_proof_def tail_agrees_def)
qed

theorem proof_of_verifies_witness:
  "\<exists>e p. load_ledger ledger_demo_env ledger_demo_one = Inr [e] \<and> proof_of ledger_demo_env 0 ledger_demo_one = Inr p \<and>
    verify_proof ledger_demo_env p (Some (\<lambda>_. Some (PDict e))) = Inr True"
proof -
  obtain e where e: "ledger_good ledger_demo_env ledger_demo_one [e]" using ledger_demo_holds(1) by blast
  then obtain x where x: "hash_entry ledger_demo_env e = Inr x" by (auto simp: ledger_good_def is_ok_iff)
  note load = good_verdict [OF e]
  have p: "proof_of ledger_demo_env (int 0) ledger_demo_one =
      Inr \<lparr>mp_index = 0, mp_entry = e, mp_hash = x, mp_forward = [], mp_tail = x\<rparr>"
    using load x by (simp add: proof_of_def Let_def)
  from proof_of_verifies [OF _ _ _ p, of _ "[e]" "\<lambda>_. Some (PDict e)"] load p show ?thesis by auto
qed

text \<open>
  An observation is not lost in silence: when the ledger is bound and the knot has a manifest, an
  environment signature and a run, then unless \<open>manifest.ledger.refused\<close> is emitted, or the
  caller is told that the assumption log cannot be read, the run's observation of this manifest
  is in the ledger, which is one that \<open>append\<close> wrote; after a refusal the entries are as before.
\<close>

theorem observation_kept:
  assumes "written_ledger E st" and "ledger_env_ok E" and "load_ledger E st = Inr es"
    and "observable k" and "lv_nfc E (rk_run_id k) = rk_run_id k"
    and "\<forall>s. ob_summary ob = Some s \<longrightarrow> float_free (PDict s)"
    and "record_attestation E try_lock now ob k (Some st) = (out, ledger, gave_up)"
  shows "\<exists>st' es'. ledger = Some st' \<and> written_ledger E st' \<and> load_ledger E st' = Inr es' \<and>
    (if gave_up \<or> \<not> is_ok out then es' = es
     else \<exists>e \<in> set es'. observed_pair e = (PStr (rk_run_id k), PStr (hex (rk_manifest_digest k))))"
proof (cases "observed_seqs (lv_float E) ob")
  case (Inl x)
  with assms show ?thesis by (auto simp: record_attestation_def)
next
  case (Inr s)
  let ?a = "observed_args k ob s"
  have stable: "stable_args E ?a"
    using assms(2,5,6) by (simp add: stable_args_def observed_args_def ledger_env_ok_def)
  obtain r st' where app: "ledger_append E try_lock now ?a st = (r, st')" by (cases "ledger_append E try_lock now ?a st")
  have "written_ledger E st'" using written_ledger.call [OF assms(1) stable, of try_lock now] app by simp
  moreover obtain es' where es': "load_ledger E st' = Inr es'" "append_outcome E ?a es r es'"
    using append_recorded [OF assms(1,2) stable assms(3), of try_lock now] app by auto
  ultimately show ?thesis
  proof (cases r)
    case (Inl x)
    then have "es' = es" using es'(2) by (simp add: append_outcome_def)
    with \<open>written_ledger E st'\<close> es'(1) assms(4,7) Inr Inl app show ?thesis by (auto simp: record_attestation_def)
  next
    case (Inr q)
    then have "es' ! ar_index q \<in> set es'" "same_observation ?a (es' ! ar_index q)"
      using es'(2) by (simp_all add: append_outcome_def)
    then have "\<exists>e \<in> set es'. observed_pair e = (PStr (rk_run_id k), PStr (hex (rk_manifest_digest k)))"
      by (auto simp: same_observation_iff observed_args_def)
    with \<open>written_ledger E st'\<close> es'(1) assms(4,7) \<open>observed_seqs (lv_float E) ob = Inr s\<close> Inr app
    show ?thesis by (auto simp: record_attestation_def)
  qed
qed


definition ledger_demo_knot :: rootknot where
  "ledger_demo_knot = knot_demo_v1\<lparr>rk_manifest_digest := replicate 32 CHR ''m'', rk_run_id := ''r''\<rparr>"


subsection \<open>What the documentation does not say\<close>

text \<open>
  The digest that the schema check documents as 64 lowercase hexadecimal digits may be anything of
  64 characters that \<open>int\<close> reads in base 16.
\<close>

theorem loose_digest_accepted:
  "reads_as_digest ledger_demo_env (''+0X_'' @ replicate 58 (CHR ''F'') @ ''  '')"
  by code_simp

text \<open>A proof's index is not part of what \<open>verify_proof\<close> checks.\<close>

theorem proof_index_unchecked: "verify_proof E (p\<lparr>mp_index := i\<rparr>) loader = verify_proof E p loader"
  by (cases loader) (simp_all add: verify_proof_def tail_agrees_def cong: if_cong)

lemma json_loads_open_open: "json_loads fl (CHR ''{'' # CHR ''{'' # r) = None"
proof -
  have s: "skip_ws (CHR ''{'' # t) = CHR ''{'' # t" for t by (rule skip_ws_nonspace) (simp_all add: is_space_def)
  have "parse_members fl (Suc f) (CHR ''{'' # r) = None" for f by (simp add: parse_unfold quote_def)
  then have "parse_value fl (Suc (Suc f)) (CHR ''{'' # CHR ''{'' # r) = None" for f
    by (simp add: parse_value.simps(2) s quote_def)
  then show ?thesis by (simp add: json_loads_def s)
qed

lemma json_loads_open: "json_loads fl ''{'' = None"
  by (simp add: json_loads_def parse_value.simps(2) quote_def is_space_def numeral_2_eq_2)

lemma load_content:
  "utf8_valid c \<Longrightarrow> c \<noteq> [] \<Longrightarrow> load_ledger E \<lparr>ledger_file = Content c, ledger_snapshots = s\<rparr> =
    read_all (ledger_line (lv_float E)) (split_lines c)"
  by (simp add: load_ledger_def ledger_text_def)

text \<open>
  A writer killed after the first byte of the first line leaves a ledger that reads as empty. The
  next append succeeds and returns index 0, but its line continues the torn one, so the ledger
  still reads as empty; the one after that also returns index 0, and from then on the ledger
  cannot be read.
\<close>

theorem torn_ledger_swallows:
  assumes "ledger_env_ok E" and "ascii_args now a" and "ascii_args now b" and "appendable E a" and "appendable E b"
    and "la_manifest a = None" and "la_manifest b = None" and "lock_exclusive try_lock ledger_lock_retries"
  defines "torn \<equiv> \<lparr>ledger_file = Content ''{'', ledger_snapshots = []\<rparr>"
  shows "\<exists>r st r' st'. load_ledger E torn = Inr [] \<and>
    ledger_append E try_lock now a torn = (Inr r, st) \<and> ar_index r = 0 \<and> \<not> ar_duplicate r \<and> load_ledger E st = Inr [] \<and>
    ledger_append E try_lock now b st = (Inr r', st') \<and> ar_index r' = 0 \<and> \<not> ar_duplicate r' \<and>
    load_ledger E st' = Inl (LedgerCorruptError ''malformed line'')"
proof -
  have n: "normalises (lv_nfc E)" using assms(1) by (simp add: ledger_env_ok_def)
  have line: "\<exists>t. append_line E now x [] = Inr (\<lparr>ar_index = 0, ar_hash = hex (lv_sha E (CHR ''{'' # t)), ar_duplicate = False\<rparr>,
      (CHR ''{'' # t) @ [newline]) \<and> utf8_valid (CHR ''{'' # t) \<and> newline \<notin> set (CHR ''{'' # t)" if "ascii_args now x" for x
  proof -
    let ?e = "entry_members now x empty_tool_trace GENESIS 0"
    have "isascii GENESIS" by (simp add: GENESIS_def isascii_def)
    note ascii = ascii_entry [OF that this, of 0]
    from ascii_dumps [OF ascii n] obtain u where u: "dumps_jcs (lv_nfc E) (PDict ?e) = Inr u" by (auto simp: is_ok_iff)
    then have "encode_dict (lv_nfc E) (map (\<lambda>(k, v). (k, walk (lv_nfc E) v)) ?e) = Inr u" by (simp add: dumps_jcs_ok)
    from encode_dict_ok(1) [OF this] obtain t where t: "u = CHR ''{'' # t" by simp
    note dumped = u [unfolded t]
    have valid: "utf8_valid (CHR ''{'' # t)" using dumped unfolding dumps_jcs_ok by blast
    have "build_entry (lv_host E) now x GENESIS 0 = Inr ?e"
      using that by (simp add: build_entry_def ascii_args_def empty_trace_kept)
    moreover have "newline \<notin> set u"
      using dumps_no_newline [OF u] entry_float_free(1) [OF calculation ascii_stable [OF n that]] by simp
    ultimately show ?thesis
      using valid by (intro exI [of _ t]) (simp add: append_line_def last_entry_def link_of_def entry_bytes_def dumped t)
  qed
  from line [OF assms(2)] line [OF assms(3)] obtain t u where
    t: "append_line E now a [] = Inr (\<lparr>ar_index = 0, ar_hash = hex (lv_sha E (CHR ''{'' # t)), ar_duplicate = False\<rparr>,
      (CHR ''{'' # t) @ [newline])" "utf8_valid (CHR ''{'' # t)" "newline \<notin> set (CHR ''{'' # t)" and
    u: "append_line E now b [] = Inr (\<lparr>ar_index = 0, ar_hash = hex (lv_sha E (CHR ''{'' # u)), ar_duplicate = False\<rparr>,
      (CHR ''{'' # u) @ [newline])" "utf8_valid (CHR ''{'' # u)" "newline \<notin> set (CHR ''{'' # u)" by blast
  let ?c = "''{'' @ (CHR ''{'' # t) @ [newline]"
  let ?d = "?c @ (CHR ''{'' # u) @ [newline]"
  have brace: "utf8_valid ''{''" by simp
  have utf8: "utf8_valid ?c" "utf8_valid ?d"
    by (simp_all only: utf8_valid_append brace t(2) u(2) utf8_valid_newline)
  have c: "split_lines ?c = [''{'' @ CHR ''{'' # t]" "framed ?c"
    using split_lines_snoc(1) [of "[]" "''{'' @ CHR ''{'' # t"] framed_snoc [of "''{'' @ CHR ''{'' # t" "[]"] t(3)
    by (simp_all add: newline_def)
  have d: "split_lines ?d = [''{'' @ CHR ''{'' # t, CHR ''{'' # u]"
    using split_lines_snoc(1) [OF c(2) u(3)] c(1) by simp
  have read: "load_ledger E torn = Inr []" "load_ledger E (torn\<lparr>ledger_file := Content ?c\<rparr>) = Inr []"
      "load_ledger E (torn\<lparr>ledger_file := Content ?d\<rparr>) = Inl (LedgerCorruptError ''malformed line'')"
  proof -
    have one: "split_lines ''{'' = [''{'']" by code_simp
    have "read_all (ledger_line (lv_float E)) (split_lines ''{'') = Inr []"
      unfolding one by (simp add: ledger_line_def json_loads_open)
    then show "load_ledger E torn = Inr []"
      using load_content [OF brace, of E "[]"] by (simp add: torn_def del: utf8_valid.simps)
    have "read_all (ledger_line (lv_float E)) (split_lines ?c) = Inr []"
      unfolding c(1) by (simp add: ledger_line_def json_loads_open_open)
    then show "load_ledger E (torn\<lparr>ledger_file := Content ?c\<rparr>) = Inr []"
      using load_content [OF utf8(1), of E "[]"] by (simp add: torn_def del: utf8_valid.simps)
    have "read_all (ledger_line (lv_float E)) (split_lines ?d) = Inl (LedgerCorruptError ''malformed line'')"
      unfolding d by (simp add: ledger_line_def json_loads_open_open)
    then show "load_ledger E (torn\<lparr>ledger_file := Content ?d\<rparr>) = Inl (LedgerCorruptError ''malformed line'')"
      using load_content [OF utf8(2), of E "[]"] by (simp add: torn_def del: utf8_valid.simps)
  qed
  have "ledger_append E try_lock now a torn =
      (Inr \<lparr>ar_index = 0, ar_hash = hex (lv_sha E (CHR ''{'' # t)), ar_duplicate = False\<rparr>,
       torn\<lparr>ledger_file := Content ?c\<rparr>)"
    using assms(4,6,8) read(1) t(1) by (simp add: ledger_append_def appendable_def append_locked_def torn_def)
  moreover have "ledger_append E try_lock now b (torn\<lparr>ledger_file := Content ?c\<rparr>) =
      (Inr \<lparr>ar_index = 0, ar_hash = hex (lv_sha E (CHR ''{'' # u)), ar_duplicate = False\<rparr>,
       torn\<lparr>ledger_file := Content ?d\<rparr>)"
    using assms(5,7,8) read(2) u(1) by (simp add: ledger_append_def appendable_def append_locked_def torn_def)
  ultimately show ?thesis using read by fastforce
qed

text \<open>
  A naive excision is noticed: a ledger whose entries from some place on were taken from a
  later place of a written one, whatever their links say now, does not verify.
\<close>

theorem excision_noticed:
  assumes "written_ledger E st" and "ledger_env_ok E" and "load_ledger E st = Inr es"
    and "load_ledger E st' = Inr (fs @ g # gs)" and "length fs < j" and "j < length es"
    and "get_value g ''entry_index'' = get_value (es ! j) ''entry_index''"
  shows "verify_exit_code E st' \<noteq> 0"
proof
  assume "verify_exit_code E st' = 0"
  then obtain v where "verify_chain E st' = Inr v" "lr_valid v"
    by (auto simp: verify_exit_code_def split: sum.splits if_splits)
  from valid_chain [OF this assms(4)] have "verify_entries E 0 None ((fs @ [g]) @ gs) = Inr None" by simp
  then have "verify_entries E 0 None (fs @ [g]) = Inr None"
    by (induction gs rule: rev_induct) (simp_all add: verify_snoc flip: append_assoc)
  then have "\<not> misplaced (length fs) g" by (simp add: verify_snoc good_entry_def)
  moreover have "ledger_good E st es" using written_good [OF assms(1,2)] good_verdict assms(3) by force
  ultimately show False using assms(5-7) by (simp add: misplaced_def ledger_good_def)
qed

end
