(* ===== verification/SandboxEnv.thy ===== *)
theory SandboxEnv
  imports JsonTail
begin

section \<open>The environment of a sandboxed process\<close>

text \<open>
  The model of \<open>src/ract/security/sandbox_env.py\<close>: the allowlist of environment variables, the names
  that never pass, \<open>build_sandbox_env\<close> with its audit counts, the repository's allowlist file and
  when it is honoured, and the removal of RACT's own variables; and of its callers, the
  environment of a command (\<open>command_env\<close> in \<open>tools/command.py\<close>, with the second scrub of
  \<open>SandboxedRunner.run\<close> in \<open>security/command_sandbox.py\<close>), of a hook (\<open>hook_system.py\<close>) and of a
  spawned subagent (\<open>_inject_ract_run_id_env\<close> in \<open>executor/loop.py\<close>).

  An environment is a dictionary. The platform, and the Unicode table behind \<open>str.upper\<close>, are the
  record \<open>platform\<close>. The log lines are left out.
\<close>

subsection \<open>The tables\<close>

definition DEFAULT_ALLOWLIST :: "string list" where
  "DEFAULT_ALLOWLIST =
    [''PATH'', ''HOME'', ''USER'', ''LOGNAME'', ''SHELL'', ''PWD'', ''OLDPWD'', ''USERPROFILE'',
     ''USERNAME'', ''USERDOMAIN'', ''SYSTEMROOT'', ''SYSTEMDRIVE'', ''COMSPEC'', ''PATHEXT'', ''WINDIR'',
     ''APPDATA'', ''LOCALAPPDATA'', ''PROGRAMFILES'', ''PROGRAMFILES(X86)'', ''PROGRAMDATA'', ''PUBLIC'',
     ''ALLUSERSPROFILE'', ''TEMP'', ''TMP'', ''TMPDIR'', ''LANG'', ''LC_ALL'', ''LC_CTYPE'', ''LC_MESSAGES'',
     ''LC_NUMERIC'', ''LC_TIME'', ''LC_COLLATE'', ''LC_MONETARY'', ''TZ'', ''TERM'', ''TERMINFO'',
     ''COLORTERM'', ''PYTHONIOENCODING'', ''PYTHONUTF8'']"

definition NEVER_PASSTHROUGH :: "string list" where
  "NEVER_PASSTHROUGH =
    [''AWS_ACCESS_KEY_ID'', ''AWS_SECRET_ACCESS_KEY'', ''AWS_SESSION_TOKEN'', ''AWS_SECURITY_TOKEN'',
     ''GITHUB_TOKEN'', ''GH_TOKEN'', ''OPENAI_API_KEY'', ''ANTHROPIC_API_KEY'', ''ANTHROPIC_AUTH_TOKEN'',
     ''GOOGLE_API_KEY'', ''OPENROUTER_API_KEY'', ''DEEPSEEK_API_KEY'', ''NPM_TOKEN'', ''PYPI_TOKEN'',
     ''TWINE_PASSWORD'', ''DOCKER_PASSWORD'', ''SLACK_TOKEN'', ''LD_PRELOAD'', ''LD_LIBRARY_PATH'',
     ''LD_AUDIT'', ''GLIBC_TUNABLES'', ''LOCPATH'', ''NLSPATH'', ''DYLD_INSERT_LIBRARIES'',
     ''DYLD_LIBRARY_PATH'', ''DYLD_FRAMEWORK_PATH'', ''DYLD_FALLBACK_LIBRARY_PATH'',
     ''DYLD_FALLBACK_FRAMEWORK_PATH'', ''DYLD_ROOT_PATH'', ''DYLD_PRINT_TO_FILE'',
     ''DYLD_FORCE_FLAT_NAMESPACE'', ''MallocStackLogging'', ''MallocLogFile'', ''MallocScribble'',
     ''MallocPreScribble'', ''MallocGuardEdges'', ''PYTHONPATH'', ''PYTHONHOME'', ''PYTHONSTARTUP'',
     ''PYTHONBREAKPOINT'', ''PYTHONINSPECT'', ''PYTHONUSERBASE'', ''PYTHONDONTWRITEBYTECODE'',
     ''NODE_OPTIONS'', ''NODE_PATH'', ''NODE_EXTRA_CA_CERTS'', ''RUBYOPT'', ''RUBYLIB'', ''RUBYPATH'',
     ''PERL5OPT'', ''PERL5LIB'', ''PERLIO'', ''PERL5DB'', ''JAVA_TOOL_OPTIONS'', ''JDK_JAVA_OPTIONS'',
     ''_JAVA_OPTIONS'', ''CLASSPATH'', ''JAVA_OPTS'', ''BASH_ENV'', ''ENV'', ''ZDOTDIR'', ''PROMPT_COMMAND'',
     ''CDPATH'', ''IFS'', ''GIT_SSH_COMMAND'', ''GIT_EXEC_PATH'', ''GIT_ASKPASS'', ''SSH_ASKPASS'',
     ''GIT_CONFIG_GLOBAL'', ''GIT_CONFIG_SYSTEM'', ''GIT_CONFIG_COUNT'', ''GIT_CONFIG_NOSYSTEM'',
     ''GIT_TRACE'', ''GIT_TRACE_PACKET'', ''GIT_TRACE_SETUP'', ''GIT_SSL_CAINFO'',
     ''GIT_HTTP_LOW_SPEED_LIMIT'', ''GIT_HTTP_LOW_SPEED_TIME'', ''GIT_PROXY_COMMAND'', ''EDITOR'',
     ''VISUAL'', ''PAGER'', ''SYSTEMD_EDITOR'', ''SYSTEMD_PAGER'', ''SSL_CERT_FILE'', ''SSL_CERT_DIR'',
     ''REQUESTS_CA_BUNDLE'', ''CURL_CA_BUNDLE'', ''HTTP_PROXY'', ''HTTPS_PROXY'', ''ALL_PROXY'',
     ''NO_PROXY'', ''http_proxy'', ''https_proxy'', ''all_proxy'', ''no_proxy'', ''PSMODULEPATH'',
     ''_NT_SYMBOL_PATH'', ''_NT_SYMCACHE_PATH'', ''_NT_ALT_SYMBOL_PATH'', ''CARGO_HOME'', ''GOPATH'',
     ''GOMODCACHE'', ''GOROOT'', ''PIP_CONFIG_FILE'', ''PIP_INDEX_URL'', ''PIP_EXTRA_INDEX_URL'',
     ''PIP_TRUSTED_HOST'', ''NPM_CONFIG_CAFILE'', ''NPM_CONFIG_CA'', ''NPM_CONFIG_STRICT_SSL'',
     ''NPM_CONFIG_IGNORE_SCRIPTS'', ''NPM_CONFIG_USERCONFIG'', ''NPM_CONFIG_GLOBALCONFIG'',
     ''NPM_CONFIG_SCRIPT_SHELL'', ''PIP_TARGET'', ''PIP_INSTALL_OPTION'', ''PIP_GLOBAL_OPTION'',
     ''RUSTFLAGS'', ''MAKEFLAGS'', ''GOFLAGS'', ''XDG_CONFIG_HOME'', ''XDG_DATA_HOME'', ''GCONV_PATH'',
     ''HOSTALIASES'', ''RES_OPTIONS'', ''LOCALDOMAIN'', ''MallocStackLoggingNoCompact'', ''MallocNanoZone'',
     ''MallocErrorAbort'', ''MallocCorruptionAbort'', ''MallocCheckHeapStart'', ''MallocCheckHeapEach'',
     ''MallocCheckHeapAbort'', ''MallocDoNotProtectPrelude'', ''MallocDoNotProtectPostlude'',
     ''OPENSSL_CONF'', ''OPENSSL_MODULES'', ''OPENSSL_ENGINES'', ''GNUTLS_SYSTEM_PRIORITY_FILE'',
     ''KRB5_CONFIG'', ''KRB5CCNAME'', ''COR_ENABLE_PROFILING'', ''COR_PROFILER'', ''COR_PROFILER_PATH'',
     ''COR_PROFILER_PATH_32'', ''COR_PROFILER_PATH_64'', ''CORECLR_ENABLE_PROFILING'', ''CORECLR_PROFILER'',
     ''CORECLR_PROFILER_PATH'', ''CORECLR_PROFILER_PATH_32'', ''CORECLR_PROFILER_PATH_64'', ''DOTNET_ROOT'',
     ''DOTNET_ROOT(X86)'', ''DOTNET_ROOT_X86'', ''DOTNET_MULTILEVEL_LOOKUP'', ''MSBUILD_EXE_PATH'',
     ''MAVEN_OPTS'', ''GRADLE_OPTS'', ''SBT_OPTS'', ''LEIN_JVM_OPTS'', ''ANT_OPTS'', ''RUSTUP_HOME'',
     ''PYENV_ROOT'', ''PYENV_VERSION'', ''RBENV_ROOT'', ''RBENV_VERSION'', ''NVM_DIR'', ''VOLTA_HOME'',
     ''ASDF_DATA_DIR'', ''LUA_PATH'', ''LUA_CPATH'', ''LUA_INIT'', ''LUA_PATH_5_4'', ''LUA_PATH_5_3'',
     ''LUA_CPATH_5_4'', ''LUA_CPATH_5_3'', ''LUA_INIT_5_4'', ''LUA_INIT_5_3'', ''PHPRC'',
     ''PHP_INI_SCAN_DIR'', ''ERL_FLAGS'', ''ERL_AFLAGS'', ''ERL_ZFLAGS'', ''DOCKER_HOST'',
     ''DOCKER_CERT_PATH'', ''DOCKER_CONTEXT'', ''DOCKER_CONFIG'', ''DOCKER_TLS_VERIFY'', ''CONTAINER_HOST'',
     ''CONTAINER_CONNECTION'', ''BUILDKIT_HOST'', ''KUBECONFIG'', ''SYSTEMD_UNIT_PATH'', ''WGETRC'',
     ''CURL_HOME'', ''GOPROXY'', ''GOSUMDB'', ''GOPRIVATE'', ''GONOSUMCHECK'', ''GONOSUMDB'',
     ''COMPOSER_HOME'']"

definition NEVER_PASSTHROUGH_PREFIXES :: "string list" where
  "NEVER_PASSTHROUGH_PREFIXES =
    [''AWS_'', ''OPENAI_'', ''ANTHROPIC_'', ''GOOGLE_'', ''OPENROUTER_'', ''DEEPSEEK_'', ''PYPI_'',
     ''TWINE_'', ''SLACK_'', ''AZURE_'', ''GCP_'', ''STRIPE_'', ''LD_'', ''DYLD_'', ''_JAVA_'', ''MALLOC_'',
     ''MALLOC'', ''GIT_CONFIG_'', ''BASH_'', ''COR_'', ''CORECLR_'', ''COMPLUS_'']"

definition credential_shape_suffixes :: "string list" where
  "credential_shape_suffixes =
    [''_TOKEN'', ''_KEY'', ''_SECRET'', ''_PASSWORD'', ''_PASSWD'', ''_CREDENTIALS'', ''_CREDENTIAL'',
     ''_API'', ''_AUTH'', ''_ACCESS_KEY_ID'', ''_ACCESS_KEY'', ''_ACCESS_TOKEN'', ''_PRIVATE_KEY'',
     ''_BEARER'', ''_SESSION_TOKEN'']"

definition refused_family_rules :: "(string \<times> string list \<times> string list) list" where
  "refused_family_rules =
    [(''loader'',
      [''GLIBC_TUNABLES'', ''LOCPATH'', ''NLSPATH'', ''GCONV_PATH'', ''HOSTALIASES'', ''RES_OPTIONS'',
       ''LOCALDOMAIN''],
      [''LD_'', ''DYLD_'', ''MALLOC_'', ''MALLOC'']),
     (''interpreter'',
      [''PYTHONPATH'', ''PYTHONHOME'', ''PYTHONSTARTUP'', ''PYTHONBREAKPOINT'', ''PYTHONINSPECT'',
       ''PYTHONUSERBASE'', ''PYTHONDONTWRITEBYTECODE'', ''NODE_OPTIONS'', ''NODE_PATH'', ''RUBYOPT'',
       ''RUBYLIB'', ''RUBYPATH'', ''PERL5OPT'', ''PERL5LIB'', ''PERLIO'', ''PERL5DB'', ''JAVA_TOOL_OPTIONS'',
       ''JDK_JAVA_OPTIONS'', ''CLASSPATH'', ''JAVA_OPTS'', ''BASH_ENV'', ''ENV'', ''ZDOTDIR'',
       ''PROMPT_COMMAND'', ''CDPATH'', ''IFS'', ''PHPRC'', ''PHP_INI_SCAN_DIR'', ''ERL_FLAGS'',
       ''ERL_AFLAGS'', ''ERL_ZFLAGS'', ''LUA_PATH'', ''LUA_CPATH'', ''LUA_INIT'', ''LUA_PATH_5_4'',
       ''LUA_PATH_5_3'', ''LUA_CPATH_5_4'', ''LUA_CPATH_5_3'', ''LUA_INIT_5_4'', ''LUA_INIT_5_3'',
       ''OPENSSL_CONF'', ''OPENSSL_MODULES'', ''OPENSSL_ENGINES'', ''GNUTLS_SYSTEM_PRIORITY_FILE'',
       ''KRB5_CONFIG'', ''KRB5CCNAME'', ''MAVEN_OPTS'', ''GRADLE_OPTS'', ''SBT_OPTS'', ''LEIN_JVM_OPTS'',
       ''ANT_OPTS''],
      [''_JAVA_'', ''BASH_'', ''COR_'', ''CORECLR_'', ''COMPLUS_'']),
     (''trust_store'',
      [''SSL_CERT_FILE'', ''SSL_CERT_DIR'', ''REQUESTS_CA_BUNDLE'', ''CURL_CA_BUNDLE'',
       ''NODE_EXTRA_CA_CERTS'', ''GIT_SSL_CAINFO''],
      []),
     (''egress'',
      [''HTTP_PROXY'', ''HTTPS_PROXY'', ''ALL_PROXY'', ''NO_PROXY''],
      []),
     (''git_tool'',
      [''GIT_SSH_COMMAND'', ''GIT_EXEC_PATH'', ''GIT_ASKPASS'', ''SSH_ASKPASS'', ''GIT_CONFIG_GLOBAL'',
       ''GIT_CONFIG_SYSTEM'', ''GIT_TRACE'', ''GIT_TRACE_PACKET'', ''GIT_TRACE_SETUP'',
       ''GIT_HTTP_LOW_SPEED_LIMIT'', ''GIT_HTTP_LOW_SPEED_TIME'', ''GIT_PROXY_COMMAND'',
       ''GIT_CONFIG_COUNT'', ''GIT_CONFIG_NOSYSTEM''],
      [''GIT_CONFIG_'']),
     (''editor'',
      [''EDITOR'', ''VISUAL'', ''PAGER'', ''SYSTEMD_EDITOR'', ''SYSTEMD_PAGER''],
      []),
     (''windows_module'',
      [''PSMODULEPATH'', ''DOTNET_ROOT'', ''DOTNET_ROOT(X86)'', ''DOTNET_ROOT_X86'',
       ''DOTNET_MULTILEVEL_LOOKUP'', ''MSBUILD_EXE_PATH''],
      [''_NT_'']),
     (''build_cache'',
      [''CARGO_HOME'', ''GOPATH'', ''GOMODCACHE'', ''GOROOT'', ''RUSTFLAGS'', ''MAKEFLAGS'', ''GOFLAGS'',
       ''XDG_CONFIG_HOME'', ''XDG_DATA_HOME'', ''PIP_TARGET'', ''PIP_INSTALL_OPTION'', ''PIP_GLOBAL_OPTION'',
       ''NPM_CONFIG_CAFILE'', ''NPM_CONFIG_CA'', ''NPM_CONFIG_STRICT_SSL'', ''NPM_CONFIG_IGNORE_SCRIPTS'',
       ''NPM_CONFIG_USERCONFIG'', ''NPM_CONFIG_GLOBALCONFIG'', ''NPM_CONFIG_SCRIPT_SHELL'', ''RUSTUP_HOME'',
       ''PYENV_ROOT'', ''PYENV_VERSION'', ''RBENV_ROOT'', ''RBENV_VERSION'', ''NVM_DIR'', ''VOLTA_HOME'',
       ''ASDF_DATA_DIR'', ''COMPOSER_HOME'', ''GOPROXY'', ''GOSUMDB'', ''GOPRIVATE'', ''GONOSUMCHECK'',
       ''GONOSUMDB'', ''WGETRC'', ''CURL_HOME'', ''DOCKER_HOST'', ''DOCKER_CERT_PATH'', ''DOCKER_CONTEXT'',
       ''DOCKER_CONFIG'', ''DOCKER_TLS_VERIFY'', ''CONTAINER_HOST'', ''CONTAINER_CONNECTION'',
       ''BUILDKIT_HOST'', ''KUBECONFIG'', ''SYSTEMD_UNIT_PATH'', ''PIP_CONFIG_FILE'', ''PIP_INDEX_URL'',
       ''PIP_EXTRA_INDEX_URL'', ''PIP_TRUSTED_HOST''],
      []),
     (''credential'',
      [''GITHUB_TOKEN'', ''GH_TOKEN'', ''NPM_TOKEN'', ''DOCKER_PASSWORD''],
      [''AWS_'', ''OPENAI_'', ''ANTHROPIC_'', ''GOOGLE_'', ''OPENROUTER_'', ''DEEPSEEK_'', ''PYPI_'',
       ''TWINE_'', ''SLACK_'', ''AZURE_'', ''GCP_'', ''STRIPE_''])]"

definition FAMILY_KEYS :: "string list" where
  "FAMILY_KEYS =
    [''loader'', ''interpreter'', ''trust_store'', ''egress'', ''git_tool'', ''editor'', ''windows_module'',
     ''build_cache'', ''credential'', ''glob_shape'', ''other'']"

subsection \<open>Names\<close>

record platform =
  on_windows :: bool
  upper_text :: "string \<Rightarrow> string"

definition platform_case_key :: "platform \<Rightarrow> string \<Rightarrow> string" where
  "platform_case_key B name = (if on_windows B then upper_text B name else name)"

definition glob_shaped :: "string \<Rightarrow> bool" where
  "glob_shaped name \<longleftrightarrow> list_ex (\<lambda>c. c \<in> {CHR ''*'', CHR ''?'', CHR ''[''}) name"

definition is_never_passthrough :: "platform \<Rightarrow> string list \<Rightarrow> string \<Rightarrow> bool" where
  "is_never_passthrough B extra name \<longleftrightarrow>
    (let up = upper_text B name in
     glob_shaped name \<or> up \<in> set NEVER_PASSTHROUGH \<or>
     list_ex (\<lambda>p. startswith up p) NEVER_PASSTHROUGH_PREFIXES \<or>
     list_ex (\<lambda>x. up = upper_text B x) extra)"

definition credential_shaped_unblocked :: "platform \<Rightarrow> string list \<Rightarrow> string \<Rightarrow> bool" where
  "credential_shaped_unblocked B extra name \<longleftrightarrow>
    \<not> is_never_passthrough B extra name \<and>
    list_ex (\<lambda>s. endswith (upper_text B name) s) credential_shape_suffixes"

definition classify_refused_family :: "platform \<Rightarrow> string \<Rightarrow> string" where
  "classify_refused_family B name =
    (if glob_shaped name then ''glob_shape''
     else
       let up = upper_text B name in
       case find (\<lambda>(f, exacts, prefixes). up \<in> set exacts \<or> list_ex (\<lambda>p. startswith up p) prefixes) refused_family_rules of
         None \<Rightarrow> ''other''
       | Some (f, _) \<Rightarrow> f)"

subsection \<open>The allowlist file\<close>

datatype env_error = AllowlistFileMalformed | EnvUndecodable | EnvOsError os_error

definition bom :: string where
  "bom = [CHR 0xEF, CHR 0xBB, CHR 0xBF]"

text \<open>What follows a line boundary of \<open>str.splitlines\<close> at the start of a text.\<close>

definition after_break :: "string \<Rightarrow> string option" where
  "after_break s =
    (if startswith s [CHR 0x0D, CHR 0x0A] \<or> startswith s [CHR 0xC2, CHR 0x85] then Some (drop 2 s)
     else if startswith s [CHR 0xE2, CHR 0x80, CHR 0xA8] \<or> startswith s [CHR 0xE2, CHR 0x80, CHR 0xA9]
     then Some (drop 3 s)
     else case s of
       [] \<Rightarrow> None
     | c # t \<Rightarrow>
         if c \<in> {CHR 0x0A, CHR 0x0B, CHR 0x0C, CHR 0x0D, CHR 0x1C, CHR 0x1D, CHR 0x1E} then Some t else None)"

lemma drop_startswith: "startswith s (c # p) \<Longrightarrow> length (drop (Suc n) s) < length s"
  by (cases s) (auto simp: startswith_def)

lemma after_break_shorter: "after_break s = Some t \<Longrightarrow> length t < length s"
  using drop_startswith [of s _ _ 1] drop_startswith [of s _ _ 2]
  by (auto simp: after_break_def numeral_2_eq_2 numeral_3_eq_3 split: if_splits list.splits)

function splitlines_from :: "string \<Rightarrow> string \<Rightarrow> string list" where
  "splitlines_from acc s =
    (case s of
       [] \<Rightarrow> if acc = [] then [] else [rev acc]
     | c # t \<Rightarrow>
         (case after_break s of
            Some r \<Rightarrow> rev acc # splitlines_from [] r
          | None \<Rightarrow> splitlines_from (c # acc) t))"
  by pat_completeness auto
termination
  by (relation "measure (\<lambda>(acc, s). length s)") (auto dest: after_break_shorter)

declare splitlines_from.simps [simp del]

definition splitlines :: "string \<Rightarrow> string list" where
  "splitlines s = splitlines_from [] s"

text \<open>\<open>lstrip("\ufeff")\<close>.\<close>

function strip_bom :: "string \<Rightarrow> string" where
  "strip_bom s = (if startswith s bom then strip_bom (drop 3 s) else s)"
  by pat_completeness auto
termination
  by (relation "measure length") (auto simp: bom_def numeral_3_eq_3 dest: drop_startswith [of _ _ _ 2])

declare strip_bom.simps [simp del]

text \<open>One line: nothing (a comment or a blank line), a name, or an error.\<close>

definition allowlist_line :: "(string \<Rightarrow> pyfloat) \<Rightarrow> string \<Rightarrow> env_error + string option" where
  "allowlist_line fl raw =
    (let stripped = py_strip (strip_bom raw) in
     if stripped = [] \<or> startswith stripped ''#'' then Inr None
     else
       let parsed = (case json_loads fl stripped of
                       Some v \<Rightarrow> Some v
                     | None \<Rightarrow> if endswith stripped '','' then json_loads fl (butlast stripped) else None)
       in case parsed of
         Some (PStr name) \<Rightarrow> Inr (Some name)
       | _ \<Rightarrow> Inl AllowlistFileMalformed)"

definition allowlist_text :: "(string \<Rightarrow> pyfloat) \<Rightarrow> string \<Rightarrow> env_error + string list" where
  "allowlist_text fl raw =
    (if \<not> utf8_valid raw then Inl EnvUndecodable
     else rbind (sequence (map (allowlist_line fl) (splitlines (if startswith raw bom then drop 3 raw else raw))))
       (\<lambda>ns. Inr (List.map_filter (\<lambda>n. n) ns)))"

definition load_allowlist_file :: "(string \<Rightarrow> pyfloat) \<Rightarrow> disk_file \<Rightarrow> env_error + string list" where
  "load_allowlist_file fl f =
    (case f of
       Absent \<Rightarrow> Inr []
     | Directory \<Rightarrow> Inl AllowlistFileMalformed
     | Unreadable _ \<Rightarrow> Inl (EnvOsError PermissionDenied)
     | Content raw \<Rightarrow> allowlist_text fl raw)"

subsection \<open>Building the environment\<close>

type_synonym environ = "(string, string) dict"

text \<open>
  The two dictionaries \<open>union\<close> and \<open>union_original\<close> as one: a key's first source and first
  spelling.
\<close>

type_synonym union = "(string, string \<times> string) dict"

definition declare_name :: "platform \<Rightarrow> string \<Rightarrow> union \<Rightarrow> string \<Rightarrow> union" where
  "declare_name B source u name =
    (let k = platform_case_key B name in
     if map_of u k = None then AList.update k (source, name) u else u)"

definition allowlist_union :: "platform \<Rightarrow> string list \<Rightarrow> string list \<Rightarrow> bool \<Rightarrow> union" where
  "allowlist_union B passthrough names include_default =
    foldl (declare_name B ''default'')
      (foldl (declare_name B ''file'') (foldl (declare_name B ''manifest'') [] passthrough) names)
      (if include_default then DEFAULT_ALLOWLIST else [])"

record env_scan =
  sc_env :: environ
  sc_denied :: nat
  sc_denied_keys :: "string list"
  sc_shaped :: nat
  sc_families :: "(string, nat) dict"

definition zeroed_family_counts :: "(string, nat) dict" where
  "zeroed_family_counts = map (\<lambda>f. (f, 0)) FAMILY_KEYS"

text \<open>The variable of the process that a declared name stands for.\<close>

definition process_variable :: "platform \<Rightarrow> environ \<Rightarrow> string \<Rightarrow> string \<Rightarrow> (string \<times> string) option" where
  "process_variable B penv key name =
    (if on_windows B then find (\<lambda>(n, v). platform_case_key B n = key) penv
     else map_option (\<lambda>v. (name, v)) (map_of penv name))"

definition scan_step :: "platform \<Rightarrow> environ \<Rightarrow> string list \<Rightarrow> env_scan \<Rightarrow> string \<times> string \<times> string \<Rightarrow> env_scan" where
  "scan_step B penv extra sc entry =
    (case entry of (key, source, name) \<Rightarrow>
      if is_never_passthrough B extra name then
        let f = classify_refused_family B name in
        sc\<lparr>sc_denied := sc_denied sc + 1, sc_denied_keys := sc_denied_keys sc @ [key],
           sc_families := AList.update f
             ((case map_of (sc_families sc) f of None \<Rightarrow> 0 | Some n \<Rightarrow> n) + 1) (sc_families sc)\<rparr>
      else
        let sc' = (if credential_shaped_unblocked B extra name then sc\<lparr>sc_shaped := sc_shaped sc + 1\<rparr> else sc) in
        case process_variable B penv key name of
          None \<Rightarrow> sc'
        | Some (n, v) \<Rightarrow> sc'\<lparr>sc_env := AList.update n v (sc_env sc')\<rparr>)"

definition scan_union :: "platform \<Rightarrow> environ \<Rightarrow> string list \<Rightarrow> union \<Rightarrow> env_scan" where
  "scan_union B penv extra u =
    foldl (scan_step B penv extra)
      \<lparr>sc_env = [], sc_denied = 0, sc_denied_keys = [], sc_shaped = 0, sc_families = zeroed_family_counts\<rparr> u"

definition count_source :: "string \<Rightarrow> union \<Rightarrow> nat" where
  "count_source s u = length (filter (\<lambda>(k, source, n). source = s) u)"

definition primary_source :: "union \<Rightarrow> string" where
  "primary_source u =
    (let m = count_source ''manifest'' u; f = count_source ''file'' u; d = count_source ''default'' u in
     if u = [] then ''default'' else if f \<le> m \<and> d \<le> m then ''manifest'' else if d \<le> f then ''file'' else ''default'')"

record sandbox_env_result =
  se_env :: environ
  se_scrubbed :: nat
  se_denied :: nat
  se_shaped :: nat
  se_source :: string
  se_families :: "(string, nat) dict"

definition env_from_union :: "platform \<Rightarrow> environ \<Rightarrow> string list \<Rightarrow> union \<Rightarrow> sandbox_env_result" where
  "env_from_union B penv extra u =
    (let sc = scan_union B penv extra u in
     \<lparr>se_env = sc_env sc,
      se_scrubbed = length (filter (\<lambda>(n, v).
        map_of u (platform_case_key B n) = None \<or> platform_case_key B n \<in> set (sc_denied_keys sc)) penv),
      se_denied = sc_denied sc, se_shaped = sc_shaped sc, se_source = primary_source u, se_families = sc_families sc\<rparr>)"

definition file_entries :: "(string \<Rightarrow> pyfloat) \<Rightarrow> disk_file option \<Rightarrow> env_error + string list" where
  "file_entries fl allowlist = (case allowlist of None \<Rightarrow> Inr [] | Some f \<Rightarrow> load_allowlist_file fl f)"

definition build_sandbox_env ::
    "platform \<Rightarrow> (string \<Rightarrow> pyfloat) \<Rightarrow> environ \<Rightarrow> string list \<Rightarrow> disk_file option \<Rightarrow> bool \<Rightarrow> string list \<Rightarrow>
     env_error + sandbox_env_result" where
  "build_sandbox_env B fl penv passthrough allowlist include_default extra =
    rbind (file_entries fl allowlist) (\<lambda>names.
      Inr (env_from_union B penv extra (allowlist_union B passthrough names include_default)))"

subsection \<open>The repository's allowlist\<close>

text \<open>What stands at the path: whether it is a symbolic link, and what the path leads to.\<close>

record repo_file =
  rf_symlink :: bool
  rf_target :: disk_file

definition is_regular :: "repo_file \<Rightarrow> bool" where
  "is_regular f \<longleftrightarrow> (case rf_target f of Content _ \<Rightarrow> True | Unreadable _ \<Rightarrow> True | _ \<Rightarrow> False)"

text \<open>A match of \<open>_NOT_A_NAME\<close> begins here.\<close>

definition bad_name_start :: "string \<Rightarrow> bool" where
  "bad_name_start s \<longleftrightarrow>
    list_ex (startswith s) white \<or>
    (case s of
       [] \<Rightarrow> False
     | c # t \<Rightarrow> c = CHR ''='' \<or> code c < 32 \<or> code c = 127 \<or>
         (c = CHR 0xC2 \<and> (case t of [] \<Rightarrow> False | d # _ \<Rightarrow> 128 \<le> code d \<and> code d \<le> 159)))"

fun tails :: "'a list \<Rightarrow> 'a list list" where
  "tails [] = []"
| "tails (c # s) = (c # s) # tails s"

definition not_a_name :: "string \<Rightarrow> bool" where
  "not_a_name s \<longleftrightarrow> s = [] \<or> list_ex bad_name_start (tails s)"

datatype allowlist_problem = SymbolicLink | CannotBeRead env_error | BadName string

definition usable_allowlist :: "(string \<Rightarrow> pyfloat) \<Rightarrow> repo_file \<Rightarrow> allowlist_problem option" where
  "usable_allowlist fl f =
    (if rf_symlink f then Some SymbolicLink
     else case load_allowlist_file fl (rf_target f) of
       Inl e \<Rightarrow> Some (CannotBeRead e)
     | Inr names \<Rightarrow> map_option BadName (find not_a_name names))"

text \<open>
  The bytes a run honours, bound on entry; \<open>allowed\<close> is \<open>trust.allowed_now\<close>.
\<close>

definition trusted_allowlist :: "(string \<Rightarrow> pyfloat) \<Rightarrow> bool \<Rightarrow> repo_file \<Rightarrow> string option" where
  "trusted_allowlist fl allowed f =
    (if is_regular f \<and> usable_allowlist fl f = None \<and> allowed
     then (case rf_target f of Content c \<Rightarrow> Some c | _ \<Rightarrow> None) else None)"

text \<open>The notes already printed, and the file that may widen the environment.\<close>

definition repository_allowlist_file ::
    "(string \<Rightarrow> pyfloat) \<Rightarrow> string option \<Rightarrow> repo_file \<Rightarrow> string list \<Rightarrow> disk_file option \<times> string list" where
  "repository_allowlist_file fl trusted f noted =
    (if \<not> is_regular f \<and> \<not> rf_symlink f then (None, noted)
     else case usable_allowlist fl f of
       Some p \<Rightarrow> (None, if ''unusable'' \<in> set noted then noted else noted @ [''unusable''])
     | None \<Rightarrow>
         (case rf_target f of
            Content current \<Rightarrow>
              if trusted = Some current then (Some (rf_target f), noted)
              else (None, if ''noted'' \<in> set noted then noted else noted @ [''noted''])
          | _ \<Rightarrow> (None, noted)))"

subsection \<open>RACT's own variables\<close>

definition RACT_RUN_ID :: string where
  "RACT_RUN_ID = ''RACT_RUN_ID''"

definition ract_internal_prefix :: string where
  "ract_internal_prefix = ''RACT_''"

definition strip_ract_internal_keys :: "platform \<Rightarrow> environ \<Rightarrow> environ \<times> string list" where
  "strip_ract_internal_keys B e =
    (let internal = (\<lambda>(n, v). startswith (platform_case_key B n) (upper_text B ract_internal_prefix)) in
     (filter (\<lambda>x. \<not> internal x) e, map fst (filter internal e)))"

text \<open>
  The environment of a spawned subagent; \<open>None\<close> is the process environment. An empty run id is
  not injected.
\<close>

definition inject_run_id :: "platform \<Rightarrow> environ \<Rightarrow> environ option \<Rightarrow> string option \<Rightarrow> environ \<times> string list" where
  "inject_run_id B penv e ambient =
    (case strip_ract_internal_keys B (case e of None \<Rightarrow> penv | Some d \<Rightarrow> d) of
       (cleaned, stripped) \<Rightarrow>
         (case ambient of
            Some r \<Rightarrow> if r = [] then (cleaned, stripped) else (AList.update RACT_RUN_ID r cleaned, stripped)
          | None \<Rightarrow> (cleaned, stripped)))"

definition hook_env :: "platform \<Rightarrow> (string \<Rightarrow> pyfloat) \<Rightarrow> environ \<Rightarrow> environ \<Rightarrow> env_error + environ" where
  "hook_env B fl penv ctxt =
    rbind (build_sandbox_env B fl penv [] None True []) (\<lambda>r.
      Inr (foldl (\<lambda>e (k, v). AList.update (ract_internal_prefix @ upper_text B k) v e)
        (fst (strip_ract_internal_keys B (se_env r))) ctxt))"

subsection \<open>The environment of a command\<close>

definition home_names :: "string list" where
  "home_names = [''HOME'', ''USERPROFILE'', ''APPDATA'', ''LOCALAPPDATA'', ''XDG_CONFIG_HOME'', ''XDG_CACHE_HOME'',
    ''XDG_DATA_HOME'', ''XDG_STATE_HOME'']"

definition xdg_named :: "platform \<Rightarrow> string \<Rightarrow> bool" where
  "xdg_named B n \<longleftrightarrow> startswith (upper_text B n) ''XDG_''"

definition set_homes :: "platform \<Rightarrow> string \<Rightarrow> environ \<Rightarrow> environ" where
  "set_homes B home e =
    map (\<lambda>(n, v). (n, if xdg_named B n then home else v)) (foldl (\<lambda>e n. AList.update n home e) e home_names)"

text \<open>\<open>d1 | d2\<close>.\<close>

definition dict_or :: "environ \<Rightarrow> environ \<Rightarrow> environ" where
  "dict_or d1 d2 = foldl (\<lambda>e (k, v). AList.update k v e) d1 d2"

text \<open>\<open>command_env\<close>, without the digest; \<open>step_home\<close> is \<open>None\<close> where the real home is kept.\<close>

definition command_env :: "platform \<Rightarrow> (string \<Rightarrow> pyfloat) \<Rightarrow> environ \<Rightarrow> string list \<Rightarrow> string option \<Rightarrow> env_error + environ" where
  "command_env B fl penv env_extra step_home =
    rbind (build_sandbox_env B fl penv env_extra None True []) (\<lambda>built.
      let run_id = (case map_of penv RACT_RUN_ID of None \<Rightarrow> [] | Some v \<Rightarrow> [(RACT_RUN_ID, v)]);
          kept = filter (\<lambda>(k, v). k \<notin> set NEVER_PASSTHROUGH \<and>
            (\<not> startswith (upper_text B k) ract_internal_prefix \<or> k = RACT_RUN_ID)) (se_env built);
          e = dict_or run_id kept
      in Inr (case step_home of None \<Rightarrow> e | Some h \<Rightarrow> set_homes B h e))"

text \<open>The second scrub of \<open>SandboxedRunner.run\<close>, and what it sets for the inside.\<close>

definition runner_env :: "platform \<Rightarrow> (string \<Rightarrow> pyfloat) \<Rightarrow> environ \<Rightarrow> env_error + environ" where
  "runner_env B fl e =
    rbind (build_sandbox_env B fl e (map fst e) None True []) (\<lambda>r.
      Inr (map (\<lambda>(n, v). (n, if xdg_named B n then ''/tmp'' else v))
        (AList.update ''TMPDIR'' ''/tmp'' (AList.update ''HOME'' ''/tmp'' (se_env r)))))"

subsection \<open>Which variables pass\<close>

lemma map_of_declare:
  "map_of (declare_name B src u n) k =
    (if k = platform_case_key B n \<and> map_of u k = None then Some (src, n) else map_of u k)"
  by (auto simp: declare_name_def Let_def update_conv')

lemma distinct_declare: "distinct (map fst u) \<Longrightarrow> distinct (map fst (declare_name B src u n))"
  by (simp add: declare_name_def Let_def distinct_update)

lemma declare_all_distinct: "distinct (map fst u) \<Longrightarrow> distinct (map fst (foldl (declare_name B src) u ns))"
  by (induction ns arbitrary: u) (simp_all add: distinct_declare)

lemma declare_all_keys:
  "map_of (foldl (declare_name B src) u ns) k = None \<longleftrightarrow> map_of u k = None \<and> k \<notin> platform_case_key B ` set ns"
  by (induction ns arbitrary: u) (auto simp: map_of_declare)

lemma declare_all_names:
  "map_of (foldl (declare_name B src) u ns) k = Some (s, n) \<Longrightarrow>
    map_of u k = Some (s, n) \<or> (n \<in> set ns \<and> k = platform_case_key B n)"
proof (induction ns arbitrary: u)
  case (Cons m ns)
  from Cons.IH [of "declare_name B src u m"] Cons.prems show ?case by (auto simp: map_of_declare split: if_splits)
qed simp

text \<open>The names declared on any of the three lists.\<close>

definition declared_names :: "string list \<Rightarrow> string list \<Rightarrow> bool \<Rightarrow> string set" where
  "declared_names passthrough names include_default =
    set passthrough \<union> set names \<union> (if include_default then set DEFAULT_ALLOWLIST else {})"

lemma allowlist_union_keys:
  "distinct (map fst (allowlist_union B ps ns d))"
  "map_of (allowlist_union B ps ns d) k = None \<longleftrightarrow> k \<notin> platform_case_key B ` declared_names ps ns d"
  "map_of (allowlist_union B ps ns d) k = Some (s, n) \<Longrightarrow> n \<in> declared_names ps ns d \<and> k = platform_case_key B n"
proof -
  show "distinct (map fst (allowlist_union B ps ns d))"
    unfolding allowlist_union_def by (intro declare_all_distinct) simp
  show "map_of (allowlist_union B ps ns d) k = None \<longleftrightarrow> k \<notin> platform_case_key B ` declared_names ps ns d"
    by (auto simp: allowlist_union_def declare_all_keys declared_names_def)
  assume "map_of (allowlist_union B ps ns d) k = Some (s, n)"
  then show "n \<in> declared_names ps ns d \<and> k = platform_case_key B n"
    unfolding allowlist_union_def declared_names_def by (auto dest!: declare_all_names split: if_splits)
qed

text \<open>The scan, component by component.\<close>

abbreviation denies :: "platform \<Rightarrow> string list \<Rightarrow> string \<times> string \<times> string \<Rightarrow> bool" where
  "denies B extra \<equiv> \<lambda>(k, s, n). is_never_passthrough B extra n"

lemma scan_counts:
  "sc_denied (foldl (scan_step B penv extra) sc u) = sc_denied sc + length (filter (denies B extra) u)"
  "sc_denied_keys (foldl (scan_step B penv extra) sc u) = sc_denied_keys sc @ map fst (filter (denies B extra) u)"
  by (induction u arbitrary: sc) (auto simp: scan_step_def Let_def split: option.splits)

lemma rule_families: "\<forall>(f, rest) \<in> set refused_family_rules. f \<in> set FAMILY_KEYS"
  by (simp add: refused_family_rules_def FAMILY_KEYS_def)

lemma family_known: "classify_refused_family B n \<in> set FAMILY_KEYS"
proof -
  have "''glob_shape'' \<in> set FAMILY_KEYS" "''other'' \<in> set FAMILY_KEYS" by (simp_all add: FAMILY_KEYS_def)
  with rule_families show ?thesis
    by (auto simp: classify_refused_family_def Let_def find_Some_iff split: option.splits dest!: nth_mem)
qed

lemma update_known: "k \<in> set (map fst d) \<Longrightarrow> map fst (AList.update k v d) = map fst d"
  by (induction d) auto

lemma sum_update:
  "map_of d k = Some m \<Longrightarrow> distinct (map fst d) \<Longrightarrow>
    sum_list (map snd (AList.update k (m + 1 :: nat) d)) = sum_list (map snd d) + 1"
  by (induction d) (auto split: if_splits)

lemma scan_families:
  "map fst (sc_families sc) = FAMILY_KEYS \<Longrightarrow>
    map fst (sc_families (foldl (scan_step B penv extra) sc u)) = FAMILY_KEYS \<and>
    sum_list (map snd (sc_families (foldl (scan_step B penv extra) sc u))) =
      sum_list (map snd (sc_families sc)) + length (filter (denies B extra) u)"
proof (induction u arbitrary: sc)
  case (Cons e u)
  obtain k s n where e: "e = (k, s, n)" by (cases e)
  have dist: "distinct (map fst (sc_families sc))" using Cons.prems by (simp add: FAMILY_KEYS_def)
  obtain m where m: "map_of (sc_families sc) (classify_refused_family B n) = Some m"
    using family_known [of B n] Cons.prems by (metis map_of_eq_None_iff not_None_eq set_map)
  have step: "map fst (sc_families (scan_step B penv extra sc e)) = FAMILY_KEYS \<and>
    sum_list (map snd (sc_families (scan_step B penv extra sc e))) =
      sum_list (map snd (sc_families sc)) + (if denies B extra e then 1 else 0)"
    using Cons.prems family_known [of B n] sum_update [OF m dist] update_known [of "classify_refused_family B n" "sc_families sc"]
    by (simp add: e scan_step_def Let_def m split: option.split)
  from Cons.IH [of "scan_step B penv extra sc e"] step show ?case by simp
qed simp

text \<open>On POSIX every name stands for itself.\<close>

lemma posix_key: "\<not> on_windows B \<Longrightarrow> platform_case_key B n = n"
  by (simp add: platform_case_key_def)

lemma posix_union:
  assumes "\<not> on_windows B" and "(k, s, n) \<in> set (allowlist_union B ps ns d)"
  shows "k = n" and "n \<in> declared_names ps ns d"
proof -
  from allowlist_union_keys(1) assms(2) have "map_of (allowlist_union B ps ns d) k = Some (s, n)" by (rule map_of_is_SomeI)
  with allowlist_union_keys(3) [OF this] show "k = n" "n \<in> declared_names ps ns d"
    by (simp_all add: posix_key [OF assms(1)])
qed

lemma posix_union_names:
  assumes "\<not> on_windows B"
  shows "fst ` set (allowlist_union B ps ns d) = declared_names ps ns d"
    and "(\<lambda>(k, s, n). n) ` set (allowlist_union B ps ns d) = declared_names ps ns d"
proof -
  have "k \<in> fst ` set (allowlist_union B ps ns d) \<longleftrightarrow> k \<in> declared_names ps ns d" for k
    using allowlist_union_keys(2) [of B ps ns d k] unfolding map_of_eq_None_iff by (simp add: posix_key [OF assms])
  then show one: "fst ` set (allowlist_union B ps ns d) = declared_names ps ns d" by blast
  have "(\<lambda>(k, s, n). n) ` set (allowlist_union B ps ns d) = fst ` set (allowlist_union B ps ns d)"
    by (rule image_cong) (auto dest: posix_union(1) [OF assms])
  with one show "(\<lambda>(k, s, n). n) ` set (allowlist_union B ps ns d) = declared_names ps ns d" by simp
qed

lemma scan_env_posix:
  assumes "\<not> on_windows B"
  shows "map_of (sc_env (foldl (scan_step B penv extra) sc u)) x =
    (if x \<in> (\<lambda>(k, s, n). n) ` set u \<and> \<not> is_never_passthrough B extra x \<and> map_of penv x \<noteq> None
     then map_of penv x else map_of (sc_env sc) x)"
proof (induction u arbitrary: sc)
  case (Cons e u)
  obtain k s n where e: "e = (k, s, n)" by (cases e)
  have step: "map_of (sc_env (scan_step B penv extra sc e)) x =
    (if x = n \<and> \<not> is_never_passthrough B extra x \<and> map_of penv x \<noteq> None then map_of penv x else map_of (sc_env sc) x)"
    using assms by (auto simp: e scan_step_def Let_def process_variable_def update_conv' split: option.split)
  show ?case unfolding foldl.simps Cons.IH step by (auto simp: e)
qed simp

lemma scan_env_distinct:
  "distinct (map fst (sc_env sc)) \<Longrightarrow> distinct (map fst (sc_env (foldl (scan_step B penv extra) sc u)))"
  by (induction u arbitrary: sc) (auto simp: scan_step_def Let_def distinct_update split: option.splits)

lemma set_updateD: "(x, v) \<in> set (AList.update k w d) \<Longrightarrow> (x, v) = (k, w) \<or> (x, v) \<in> set d"
  by (induction d) (auto split: if_splits)

lemma scan_env_sound:
  "(x, v) \<in> set (sc_env (foldl (scan_step B penv extra) sc u)) \<Longrightarrow>
    (x, v) \<in> set (sc_env sc) \<or>
    (\<exists>(k, s, n) \<in> set u. \<not> is_never_passthrough B extra n \<and> process_variable B penv k n = Some (x, v))"
proof (induction u arbitrary: sc)
  case (Cons e u)
  obtain k s n where e: "e = (k, s, n)" by (cases e)
  have "(x, v) \<in> set (sc_env (scan_step B penv extra sc e)) \<Longrightarrow>
      (x, v) \<in> set (sc_env sc) \<or> \<not> is_never_passthrough B extra n \<and> process_variable B penv k n = Some (x, v)"
    by (auto simp: e scan_step_def Let_def split: if_splits option.splits dest!: set_updateD)
  with Cons.IH [of "scan_step B penv extra sc e"] Cons.prems show ?case by (auto simp: e)
qed simp

text \<open>What passes on POSIX, and the numbers that go into the audit event.\<close>

definition passes :: "platform \<Rightarrow> string list \<Rightarrow> string set \<Rightarrow> string \<Rightarrow> bool" where
  "passes B extra declared n \<longleftrightarrow> n \<in> declared \<and> \<not> is_never_passthrough B extra n"

lemma env_from_union_posix:
  fixes ps ns :: "string list" and d :: bool and n :: string
  assumes "\<not> on_windows B"
  defines "u \<equiv> allowlist_union B ps ns d" and "D \<equiv> declared_names ps ns d"
  shows "map_of (se_env (env_from_union B penv extra u)) n = (if passes B extra D n then map_of penv n else None)"
    and "se_scrubbed (env_from_union B penv extra u) = length (filter (\<lambda>(n, v). \<not> passes B extra D n) penv)"
    and "se_denied (env_from_union B penv extra u) = card {n \<in> D. is_never_passthrough B extra n}"
proof -
  show "map_of (se_env (env_from_union B penv extra u)) n = (if passes B extra D n then map_of penv n else None)"
    using posix_union_names(2) [OF assms(1), of ps ns d]
    by (auto simp: env_from_union_def Let_def scan_union_def scan_env_posix [OF assms(1)] passes_def u_def D_def)
  have denied: "fst ` set (filter (denies B extra) u) = {n \<in> D. is_never_passthrough B extra n}"
  proof -
    have "k \<in> fst ` set (filter (denies B extra) u) \<longleftrightarrow> k \<in> fst ` set u \<and> is_never_passthrough B extra k" for k
      using posix_union(1) [OF assms(1), of _ _ _ ps ns d] by (force simp: u_def)
    then show ?thesis using posix_union_names(1) [OF assms(1), of ps ns d] by (auto simp: u_def D_def)
  qed
  have "map_of u n = None \<longleftrightarrow> n \<notin> D" for n
    using allowlist_union_keys(2) [of B ps ns d n] by (simp add: u_def D_def posix_key [OF assms(1)])
  then show "se_scrubbed (env_from_union B penv extra u) = length (filter (\<lambda>(n, v). \<not> passes B extra D n) penv)"
    using denied
    by (auto simp: env_from_union_def Let_def scan_union_def scan_counts posix_key [OF assms(1)] passes_def
        intro!: arg_cong [where f = length] filter_cong)
  have "distinct (map fst (filter (denies B extra) u))"
    using allowlist_union_keys(1) [of B ps ns d] by (simp add: u_def distinct_map_filter)
  from distinct_card [OF this] show "se_denied (env_from_union B penv extra u) = card {n \<in> D. is_never_passthrough B extra n}"
    by (simp add: env_from_union_def Let_def scan_union_def scan_counts flip: denied)
qed

lemma env_from_union_distinct: "distinct (map fst (se_env (env_from_union B penv extra u)))"
  by (simp add: env_from_union_def Let_def scan_union_def scan_env_distinct)

lemma env_from_union_families:
  "map fst (se_families (env_from_union B penv extra u)) = FAMILY_KEYS"
  "sum_list (map snd (se_families (env_from_union B penv extra u))) = se_denied (env_from_union B penv extra u)"
proof -
  have z: "map fst zeroed_family_counts = FAMILY_KEYS" "sum_list (map snd zeroed_family_counts) = 0"
    by (simp_all add: zeroed_family_counts_def comp_def sum_list_triv)
  let ?sc = "\<lparr>sc_env = [], sc_denied = 0, sc_denied_keys = [], sc_shaped = 0, sc_families = zeroed_family_counts\<rparr>"
  show "map fst (se_families (env_from_union B penv extra u)) = FAMILY_KEYS"
    "sum_list (map snd (se_families (env_from_union B penv extra u))) = se_denied (env_from_union B penv extra u)"
    using scan_families [of ?sc B penv extra u] z
    by (simp_all add: env_from_union_def Let_def scan_union_def scan_counts)
qed

text \<open>Keys that a distinct dictionary keeps and loses add up.\<close>

lemma kept_and_dropped:
  assumes "distinct (map fst d)" and "distinct (map fst e)"
    and "\<And>n. map_of e n = (if P n then map_of d n else None)"
  shows "length e + length (filter (\<lambda>(n, v). \<not> P n) d) = length d"
proof -
  let ?k = "filter (\<lambda>(n, v). P n) d"
  have "x \<in> fst ` set e \<longleftrightarrow> x \<in> fst ` set ?k" for x
  proof -
    have "x \<in> fst ` set e \<longleftrightarrow> map_of e x \<noteq> None" by (simp add: map_of_eq_None_iff)
    also have "\<dots> \<longleftrightarrow> P x \<and> map_of d x \<noteq> None" by (simp add: assms(3))
    also have "\<dots> \<longleftrightarrow> P x \<and> x \<in> fst ` set d" by (simp add: map_of_eq_None_iff)
    also have "\<dots> \<longleftrightarrow> x \<in> fst ` set ?k" by force
    finally show ?thesis .
  qed
  then have "set (map fst e) = set (map fst ?k)" by auto
  moreover have "distinct (map fst ?k)" using assms(1) by (rule distinct_map_filter)
  ultimately have "length e = length ?k" using assms(2) by (metis distinct_card length_map)
  moreover have "length ?k + length (filter (\<lambda>x. \<not> (case x of (n, v) \<Rightarrow> P n)) d) = length d"
    by (rule sum_length_filter_compl)
  moreover have "filter (\<lambda>x. \<not> (case x of (n, v) \<Rightarrow> P n)) d = filter (\<lambda>(n, v). \<not> P n) d" by (rule filter_cong) auto
  ultimately show ?thesis by simp
qed

subsection \<open>Properties of the builder\<close>

text \<open>
  C25. The environment of a sandboxed process is exact on POSIX: a variable is in it when the process
  has it, one of the three lists declares it and it is not among the names that never pass, and
  then with the value it has. What is in it and what was scrubbed add up to the process's
  environment, the number of refusals is that of the declared names that never pass, and the
  families the refusals are counted under are the fixed ones and sum to it.
\<close>

theorem posix_env_exact:
  assumes "build_sandbox_env B fl penv ps allowlist d extra = Inr r" and "\<not> on_windows B"
    and "distinct (map fst penv)"
  shows "\<exists>names. file_entries fl allowlist = Inr names \<and>
    (\<forall>n. map_of (se_env r) n =
      (if n \<in> declared_names ps names d \<and> \<not> is_never_passthrough B extra n then map_of penv n else None)) \<and>
    length (se_env r) + se_scrubbed r = length penv \<and>
    se_denied r = card {n \<in> declared_names ps names d. is_never_passthrough B extra n} \<and>
    map fst (se_families r) = FAMILY_KEYS \<and> sum_list (map snd (se_families r)) = se_denied r"
proof -
  obtain names where names: "file_entries fl allowlist = Inr names"
    and r: "r = env_from_union B penv extra (allowlist_union B ps names d)"
    using assms(1) by (auto simp: build_sandbox_env_def rbind_Inr_iff)
  note posix = env_from_union_posix [OF assms(2), of penv extra ps names d]
  have "length (se_env r) + se_scrubbed r = length penv"
    unfolding r posix(2)
    by (rule kept_and_dropped [OF assms(3) env_from_union_distinct]) (rule posix(1))
  with names show ?thesis by (auto simp: r posix(1,3) passes_def env_from_union_families)
qed

text \<open>What the tables deny, whatever the caller's own list.\<close>

definition table_denied :: "platform \<Rightarrow> string \<Rightarrow> bool" where
  "table_denied B n \<longleftrightarrow> upper_text B n \<in> set NEVER_PASSTHROUGH \<or>
    list_ex (\<lambda>p. startswith (upper_text B n) p) NEVER_PASSTHROUGH_PREFIXES"

lemma table_denied_never: "table_denied B n \<Longrightarrow> is_never_passthrough B extra n"
  by (auto simp: table_denied_def is_never_passthrough_def)

lemma table_denied_key: "platform_case_key B m = platform_case_key B n \<Longrightarrow> table_denied B m = table_denied B n"
  by (auto simp: platform_case_key_def table_denied_def split: if_splits)

text \<open>
  On either platform nothing that the tables deny reaches a sandboxed process, whichever list
  declares it and in whichever spelling, and nothing is made up: every variable is one of the
  process, under a name that is declared up to the platform's case.
\<close>

theorem denied_names_never_pass:
  assumes "build_sandbox_env B fl penv ps allowlist d extra = Inr r" and "(n, v) \<in> set (se_env r)"
  shows "(n, v) \<in> set penv \<and> \<not> table_denied B n \<and>
    (\<exists>names m. file_entries fl allowlist = Inr names \<and> m \<in> declared_names ps names d \<and>
      \<not> is_never_passthrough B extra m \<and> platform_case_key B m = platform_case_key B n)"
proof -
  obtain names where names: "file_entries fl allowlist = Inr names"
    and r: "r = env_from_union B penv extra (allowlist_union B ps names d)"
    using assms(1) by (auto simp: build_sandbox_env_def rbind_Inr_iff)
  from assms(2) obtain k s m where m: "(k, s, m) \<in> set (allowlist_union B ps names d)"
      "\<not> is_never_passthrough B extra m" "process_variable B penv k m = Some (n, v)"
    by (auto simp: r env_from_union_def Let_def scan_union_def dest!: scan_env_sound)
  from allowlist_union_keys(1) m(1) have "map_of (allowlist_union B ps names d) k = Some (s, m)" by (rule map_of_is_SomeI)
  from allowlist_union_keys(3) [OF this] have decl: "m \<in> declared_names ps names d" "k = platform_case_key B m" by simp_all
  have found: "(n, v) \<in> set penv" "platform_case_key B m = platform_case_key B n"
    using m(3) decl(2) by (auto simp: process_variable_def find_Some_iff platform_case_key_def split: if_splits dest: map_of_SomeD) (metis nth_mem)
  with table_denied_key [OF found(2)] table_denied_never [of B m extra] m(2) decl(1) names show ?thesis by blast
qed

subsection \<open>The environment of a command\<close>

lemma map_of_dict_or:
  "distinct (map fst d2) \<Longrightarrow> map_of (dict_or d1 d2) n = (case map_of d2 n of None \<Rightarrow> map_of d1 n | Some v \<Rightarrow> Some v)"
proof (induction d2 arbitrary: d1)
  case (Cons x d2)
  obtain k v where x: "x = (k, v)" by (cases x)
  have "map_of d2 k = None" using Cons.prems by (simp add: x map_of_eq_None_iff)
  with Cons.IH [of "AList.update k v d1"] Cons.prems show ?case
    by (auto simp: x dict_or_def update_conv' split: option.split)
qed (simp add: dict_or_def)

lemma map_of_homes: "map_of (foldl (\<lambda>e n. AList.update n h e) e ns) n = (if n \<in> set ns then Some h else map_of e n)"
  by (induction ns arbitrary: e) (auto simp: update_conv')

lemma map_of_values: "map_of (map (\<lambda>(n, v). (n, if P n then h else v)) e) n = map_option (\<lambda>v. if P n then h else v) (map_of e n)"
  by (induction e) auto

lemma map_of_filter_keys: "map_of (filter (\<lambda>(k, v). P k) d) n = (if P n then map_of d n else None)"
  by (induction d) auto

lemma set_homes_at:
  "map_of (set_homes B h e) n =
    (if n \<in> set home_names \<or> (xdg_named B n \<and> map_of e n \<noteq> None) then Some h else map_of e n)"
  by (cases "map_of e n") (auto simp: set_homes_def map_of_values map_of_homes)

text \<open>What a command may see of the process: the declared names that are neither forbidden nor RACT's.\<close>

definition command_sees :: "platform \<Rightarrow> string list \<Rightarrow> string \<Rightarrow> bool" where
  "command_sees B env_extra n \<longleftrightarrow> n = RACT_RUN_ID \<or>
    (n \<in> set env_extra \<union> set DEFAULT_ALLOWLIST \<and> \<not> is_never_passthrough B [] n \<and> n \<notin> set NEVER_PASSTHROUGH \<and>
     \<not> startswith (upper_text B n) ract_internal_prefix)"

lemma command_env_at:
  assumes "command_env B fl penv env_extra step_home = Inr e" and "\<not> on_windows B"
  shows "map_of e n =
    (let seen = (if command_sees B env_extra n then map_of penv n else None) in
     case step_home of
       None \<Rightarrow> seen
     | Some h \<Rightarrow> if n \<in> set home_names \<or> (xdg_named B n \<and> seen \<noteq> None) then Some h else seen)"
proof -
  let ?u = "allowlist_union B env_extra [] True"
  let ?built = "se_env (env_from_union B penv [] ?u)"
  let ?run = "case map_of penv RACT_RUN_ID of None \<Rightarrow> [] | Some v \<Rightarrow> [(RACT_RUN_ID, v)]"
  let ?keep = "\<lambda>k. k \<notin> set NEVER_PASSTHROUGH \<and> (\<not> startswith (upper_text B k) ract_internal_prefix \<or> k = RACT_RUN_ID)"
  let ?e = "dict_or ?run (filter (\<lambda>(k, v). ?keep k) ?built)"
  have e: "e = (case step_home of None \<Rightarrow> ?e | Some h \<Rightarrow> set_homes B h ?e)"
    using assms(1) by (auto simp: command_env_def build_sandbox_env_def file_entries_def Let_def cong: option.case_cong)
  have "distinct (map fst (filter (\<lambda>(k, v). ?keep k) ?built))"
    by (rule distinct_map_filter [OF env_from_union_distinct])
  then have "map_of ?e n = (if command_sees B env_extra n then map_of penv n else None)"
    using env_from_union_posix(1) [OF assms(2), of penv "[]" env_extra "[]" True n]
    by (auto simp: map_of_dict_or map_of_filter_keys passes_def declared_names_def command_sees_def
        split: option.splits if_splits)
  then show ?thesis by (cases step_home) (auto simp: e Let_def set_homes_at)
qed

text \<open>What the inside of the sandbox gets of it.\<close>

lemma declared_iff: "n \<in> declared_names ps ns d \<longleftrightarrow> n \<in> set ps \<or> n \<in> set ns \<or> d \<and> n \<in> set DEFAULT_ALLOWLIST"
  by (auto simp: declared_names_def)

lemma runner_env_at:
  assumes "runner_env B fl e = Inr inside" and "\<not> on_windows B"
  shows "map_of inside n =
    (if n \<in> {''HOME'', ''TMPDIR''} then Some ''/tmp''
     else if is_never_passthrough B [] n then None
     else map_option (\<lambda>v. if xdg_named B n then ''/tmp'' else v) (map_of e n))"
proof -
  let ?r = "env_from_union B e [] (allowlist_union B (map fst e) [] True)"
  have inside: "inside = map (\<lambda>(n, v). (n, if xdg_named B n then ''/tmp'' else v))
      (AList.update ''TMPDIR'' ''/tmp'' (AList.update ''HOME'' ''/tmp'' (se_env ?r)))"
    using assms(1) by (auto simp: runner_env_def build_sandbox_env_def file_entries_def)
  have "map_of (se_env ?r) n = (if is_never_passthrough B [] n then None else map_of e n)"
  proof (cases "map_of e n")
    case None
    then show ?thesis using env_from_union_posix(1) [OF assms(2), of e "[]" "map fst e" "[]" True n] by simp
  next
    case (Some v)
    then have "n \<in> declared_names (map fst e) [] True" by (force simp: declared_iff dest: map_of_SomeD)
    then show ?thesis
      using env_from_union_posix(1) [OF assms(2), of e "[]" "map fst e" "[]" True n] by (simp add: passes_def)
  qed
  then show ?thesis by (auto simp: inside map_of_values update_conv')
qed

text \<open>
  C24. What a sandboxed command sees of the process, end to end on POSIX: every variable inside is one
  of the process, with its value, under a name that the default list or the rule declares and
  that neither the tables forbid nor RACT reserves, or the id of the run; or it is a home, set to
  the step's own directory or to the sandbox's.
\<close>

theorem sandboxed_command_env:
  assumes "command_env B fl penv env_extra step_home = Inr e" and "runner_env B fl e = Inr inside" and "\<not> on_windows B"
    and "map_of inside n = Some v"
  shows "(map_of penv n = Some v \<and> command_sees B env_extra n \<and> \<not> table_denied B n) \<or>
    (n \<in> {''HOME'', ''TMPDIR''} \<union> set home_names \<or> xdg_named B n) \<and> (v = ''/tmp'' \<or> step_home = Some v)"
proof (cases "n \<in> {''HOME'', ''TMPDIR''}")
  case True
  with runner_env_at [OF assms(2,3), of n] assms(4) show ?thesis by auto
next
  case False
  then have never: "\<not> is_never_passthrough B [] n"
    and v: "map_option (\<lambda>v. if xdg_named B n then ''/tmp'' else v) (map_of e n) = Some v"
    using runner_env_at [OF assms(2,3), of n] assms(4) by (auto split: if_splits)
  have "\<not> table_denied B n" using never table_denied_never by blast
  with v command_env_at [OF assms(1,3), of n] show ?thesis
    by (auto simp: Let_def split: option.splits if_splits)
qed

subsection \<open>The repository's allowlist widens only as trusted\<close>

text \<open>
  A repository's allowlist file is used in a run only if the repository was trusted when the run
  began, the file then was usable and is usable now, no symbolic link and with names only that a
  variable can have, and its bytes are those of that moment.
\<close>

theorem widening_was_trusted:
  assumes "repository_allowlist_file fl (trusted_allowlist fl allowed at_entry) now noted = (Some f, noted')"
  shows "allowed \<and> noted' = noted \<and> (\<exists>c names. f = Content c \<and> rf_target at_entry = f \<and> rf_target now = f \<and>
    \<not> rf_symlink at_entry \<and> \<not> rf_symlink now \<and> allowlist_text fl c = Inr names \<and> (\<forall>x \<in> set names. \<not> not_a_name x))"
proof -
  have usable: "\<not> rf_symlink x \<and> (\<exists>names. load_allowlist_file fl (rf_target x) = Inr names \<and> (\<forall>y \<in> set names. \<not> not_a_name y))"
    if "usable_allowlist fl x = None" for x
    using that by (auto simp: usable_allowlist_def find_None_iff split: if_splits sum.splits)
  have now: "usable_allowlist fl now = None" "rf_target now = f" "noted' = noted"
    using assms by (auto simp: repository_allowlist_file_def split: if_splits option.splits disk_file.splits)
  moreover obtain c where c: "f = Content c" "trusted_allowlist fl allowed at_entry = Some c"
    using assms now(2) by (cases f) (auto simp: repository_allowlist_file_def split: if_splits option.splits)
  moreover have "allowed" "usable_allowlist fl at_entry = None" "rf_target at_entry = Content c"
    using c(2) by (auto simp: trusted_allowlist_def split: if_splits disk_file.splits)
  ultimately show ?thesis
    using usable [OF now(1)] usable [of at_entry] by (auto simp: load_allowlist_file_def)
qed

subsection \<open>RACT's own variables are RACT's\<close>

definition ract_named :: "platform \<Rightarrow> string \<Rightarrow> bool" where
  "ract_named B n \<longleftrightarrow> startswith (platform_case_key B n) (upper_text B ract_internal_prefix)"

lemma stripped_keys:
  "fst (strip_ract_internal_keys B e) = filter (\<lambda>(n, v). \<not> ract_named B n) e"
  "snd (strip_ract_internal_keys B e) = map fst (filter (\<lambda>(n, v). ract_named B n) e)"
  by (auto simp: strip_ract_internal_keys_def Let_def ract_named_def intro!: filter_cong)

text \<open>
  A spawned process gets what it was given (or the environment of this process), without any
  variable in RACT's namespace but the id of the run, which is that of the run that is bound, never
  an inherited one.
\<close>

theorem spawned_env_exact:
  "map_of (fst (inject_run_id B penv given ambient)) n =
    (if n = RACT_RUN_ID \<and> ambient \<noteq> None \<and> ambient \<noteq> Some [] then ambient
     else if ract_named B n then None
     else map_of (case given of None \<Rightarrow> penv | Some d \<Rightarrow> d) n)"
  by (auto simp: inject_run_id_def stripped_keys(1) map_of_filter_keys update_conv' split: prod.split option.split
      dest!: arg_cong [of "strip_ract_internal_keys B _" _ fst])

text \<open>A hook's variables in RACT's namespace are those of its context.\<close>

lemma hook_env_names:
  assumes "hook_env B fl penv ctxt = Inr e" and "(n, v) \<in> set e" and "ract_named B n"
  shows "\<exists>k. (k, v) \<in> set ctxt \<and> n = ract_internal_prefix @ upper_text B k"
proof -
  obtain r :: sandbox_env_result where e: "foldl (\<lambda>e (k, v). AList.update (ract_internal_prefix @ upper_text B k) v e)
      (filter (\<lambda>(n, v). \<not> ract_named B n) (se_env r)) ctxt = e"
    using assms(1) by (simp add: hook_env_def rbind_Inr_iff stripped_keys(1)) blast
  have "(n, v) \<in> set (foldl (\<lambda>e (k, v). AList.update (ract_internal_prefix @ upper_text B k) v e) d ctxt) \<Longrightarrow>
      (n, v) \<in> set d \<or> (\<exists>k. (k, v) \<in> set ctxt \<and> n = ract_internal_prefix @ upper_text B k)" for d
    by (induction ctxt arbitrary: d) (auto dest!: set_updateD)
  from this [of "filter (\<lambda>(n, v). \<not> ract_named B n) (se_env r)"] assms(2,3) show ?thesis unfolding e by auto
qed

subsection \<open>Witnesses\<close>

definition ascii_upper :: "string \<Rightarrow> string" where
  "ascii_upper s = map (\<lambda>c. if 97 \<le> code c \<and> code c \<le> 122 then char_of (code c - 32) else c) s"

definition env_demo_posix :: platform where
  "env_demo_posix = \<lparr>on_windows = False, upper_text = ascii_upper\<rparr>"

definition env_demo :: environ where
  "env_demo = [(''PATH'', ''/bin''), (''github_token'', ''t''), (''HOME'', ''/root''), (''SEED'', ''7''), (''RACT_RUN_ID'', ''r'')]"

theorem posix_env_exact_witness:
  "\<exists>r. build_sandbox_env env_demo_posix (\<lambda>_. FNan) env_demo [''github_token'', ''SEED''] None True [] = Inr r \<and>
    map_of (se_env r) ''github_token'' = None \<and> map_of (se_env r) ''SEED'' = Some ''7'' \<and> length (se_env r) + se_scrubbed r = 5"
proof -
  obtain r where r: "build_sandbox_env env_demo_posix (\<lambda>_. FNan) env_demo [''github_token'', ''SEED''] None True [] = Inr r"
    by (simp add: build_sandbox_env_def file_entries_def)
  have "\<not> on_windows env_demo_posix" "distinct (map fst env_demo)" by code_simp+
  note exact = posix_env_exact [OF r this]
  have "is_never_passthrough env_demo_posix [] ''github_token''" "\<not> is_never_passthrough env_demo_posix [] ''SEED''"
    "map_of env_demo ''SEED'' = Some ''7''" "length env_demo = 5" by code_simp+
  with exact r show ?thesis by (auto simp: declared_iff)
qed

theorem denied_names_never_pass_witness:
  "\<not> table_denied env_demo_posix ''SEED'' \<and>
    (''SEED'', ''7'') \<in> set (case build_sandbox_env env_demo_posix (\<lambda>_. FNan) env_demo [''SEED''] None False [] of
      Inl _ \<Rightarrow> [] | Inr r \<Rightarrow> se_env r)"
proof -
  have ran: "build_sandbox_env env_demo_posix (\<lambda>_. FNan) env_demo [''SEED''] None False [] =
      Inr (env_from_union env_demo_posix env_demo [] (allowlist_union env_demo_posix [''SEED''] [] False))"
    by (simp add: build_sandbox_env_def file_entries_def)
  have "(''SEED'', ''7'') \<in> set (se_env (env_from_union env_demo_posix env_demo [] (allowlist_union env_demo_posix [''SEED''] [] False)))"
    by code_simp
  with denied_names_never_pass [OF ran this] show ?thesis by (simp add: ran)
qed

theorem sandboxed_command_env_witness:
  "\<exists>e inside. command_env env_demo_posix (\<lambda>_. FNan) env_demo [''SEED'', ''github_token''] (Some ''/h'') = Inr e \<and>
    runner_env env_demo_posix (\<lambda>_. FNan) e = Inr inside \<and> map_of inside ''SEED'' = Some ''7'' \<and>
    map_of inside ''github_token'' = None"
proof -
  obtain e where e: "command_env env_demo_posix (\<lambda>_. FNan) env_demo [''SEED'', ''github_token''] (Some ''/h'') = Inr e"
    by (simp add: command_env_def build_sandbox_env_def file_entries_def Let_def)
  obtain inside where i: "runner_env env_demo_posix (\<lambda>_. FNan) e = Inr inside"
    by (simp add: runner_env_def build_sandbox_env_def file_entries_def Let_def)
  have P: "\<not> on_windows env_demo_posix" by (simp add: env_demo_posix_def)
  have *: "command_sees env_demo_posix [''SEED'', ''github_token''] ''SEED''"
    "\<not> is_never_passthrough env_demo_posix [] ''SEED''" "map_of env_demo ''SEED'' = Some ''7''"
    "''SEED'' \<notin> set home_names" "\<not> xdg_named env_demo_posix ''SEED''"
    "\<not> command_sees env_demo_posix [''SEED'', ''github_token''] ''github_token''" "''github_token'' \<notin> set home_names"
    "\<not> xdg_named env_demo_posix ''github_token''" by code_simp+
  have "map_of inside ''SEED'' = Some ''7''"
    using runner_env_at [OF i P, of "''SEED''"] command_env_at [OF e P, of "''SEED''"] * by simp
  moreover have "map_of inside ''github_token'' = None"
    using sandboxed_command_env [OF e i P, of "''github_token''"] * by (cases "map_of inside ''github_token''") auto
  ultimately show ?thesis using e i by blast
qed

theorem widening_was_trusted_witness:
  "fst (repository_allowlist_file (\<lambda>_. FNan) (trusted_allowlist (\<lambda>_. FNan) True
      \<lparr>rf_symlink = False, rf_target = Content [quote, CHR ''A'', quote]\<rparr>)
      \<lparr>rf_symlink = False, rf_target = Content [quote, CHR ''A'', quote]\<rparr> []) = Some (Content [quote, CHR ''A'', quote]) \<and>
    (\<exists>names. allowlist_text (\<lambda>_. FNan) [quote, CHR ''A'', quote] = Inr names)"
proof -
  let ?f = "\<lparr>rf_symlink = False, rf_target = Content [quote, CHR ''A'', quote]\<rparr>"
  have "repository_allowlist_file (\<lambda>_. FNan) (trusted_allowlist (\<lambda>_. FNan) True ?f) ?f [] =
      (Some (Content [quote, CHR ''A'', quote]), [])" by code_simp
  with widening_was_trusted [OF this] show ?thesis by auto
qed

end
