(* ===== verification/Spec2Isabelle.thy ===== *)
theory Spec2Isabelle
  imports Budget Recovery Loop Ancestry Matcher TraceVerify TraceRepair Tier3 Substrate Handshakes ToolGate Provenance Ledger SandboxEnv
begin

text \<open>
  RACT runs a coding agent under control: a plan is carried out step by step, each step in a git
  worktree of its own, commits only behind acceptance predicates and the operator's consent, and
  everything that happens is written to a hash-chained log. Commands that the agent wants to run
  need a grant that the operator signed. This development models the parts of \<open>src/ract\<close> that
  decide those things, as functions that compute, and proves what they promise. Paths below are
  under \<open>src/ract\<close>.

  \<^bold>\<open>The parts and their theories.\<close>

  \<^item> \<^emph>\<open>Shared.\<close> \<open>Prelude\<close>, \<open>PyText\<close>, \<open>PathText\<close>, \<open>Glob\<close> and \<open>Coerce\<close> hold results as sums,
    dictionaries as association lists, texts as UTF-8 bytes, and the operations of Python's
    standard library that the code uses. \<open>Canonical\<close> is \<open>canonical.py\<close> (JCS encoder and JSON
    reader), \<open>JsonText\<close> and \<open>JsonTail\<close> are \<open>json.dumps\<close>, base64, \<open>str.strip\<close> and how torn texts end;
    \<open>AsciiJson\<close> is the JSON of ASCII values, which every encoder accepts.
    \<open>Journal\<close> is \<open>file_lock.py\<close>, \<open>atomic_write.py\<close> and the reading of JSON lines; its locales
    \<open>jsonl_lines\<close> and \<open>jsonl\<close> are the contract of a line format, interpreted by every journal below.
  \<^item> \<^emph>\<open>The transactional loop.\<close> \<open>Fence\<close> is \<open>core/transaction.py\<close> and \<open>contracts/fence.py\<close>: the
    descriptor of a step and the tickets of a delete. \<open>Substrate\<close> is \<open>SubstrateLoop\<close> of
    \<open>executor/loop.py\<close> (\<open>run_step\<close>, \<open>_finalize\<close>, \<open>dispose\<close>, reaping), \<open>executor/commit_compensator.py\<close>
    and the methods of \<open>executor/worktree.py\<close> that they call. Git is the record \<open>gitops\<close> over an
    abstract repository; its laws are the locales \<open>git_repo\<close> and \<open>commit_graph\<close>, which an
    in-memory repository satisfies. The registry of handshakes is the locale \<open>commit_gate\<close>.
    \<open>Handshakes\<close> is \<open>handshake_registry.py\<close>, and this theory shows that it is such a gate.
    \<open>ToolGate\<close> is \<open>executor/tool_gate.py\<close> with \<open>invoke_tool\<close> and the MCP wiring of the loop.
  \<^item> \<^emph>\<open>Acceptance.\<close> \<open>Predicates\<close> is \<open>core/predicate.py\<close> and \<open>core/gates.py\<close>, \<open>Holdout\<close> is
    \<open>antilazy/holdout.py\<close>, \<open>Loop\<close> the causes of termination and the entry into a run of
    \<open>core/loop.py\<close>, \<open>SuiteChain\<close> is \<open>core/suite_chain.py\<close>, \<open>Ancestry\<close> the digest chain of
    \<open>core/workspace_digest.py\<close>. \<open>Substrate\<close> evaluates a step's predicates with \<open>Predicates\<close>.
  \<^item> \<^emph>\<open>Assumptions.\<close> \<open>Wal\<close> is \<open>core/assumptions_wal.py\<close>, \<open>Assumptions\<close> is \<open>core/assumption.py\<close> and
    \<open>core/assumption_registry.py\<close>, \<open>Recovery\<close> relates the disk to the memory.
  \<^item> \<^emph>\<open>Commands.\<close> \<open>Matcher\<close> is \<open>policy/matcher.py\<close>, \<open>Allowlist\<close> is \<open>policy/allowlist.py\<close>, \<open>Grant\<close> is
    \<open>policy/grant.py\<close> with the pinned key of \<open>policy/operator_key.py\<close>, \<open>Tier3\<close> is \<open>policy/tier3.py\<close>
    and \<open>tools/tests_tool.py\<close>. \<open>Handshakes\<close> uses the same pinned key. \<open>SandboxEnv\<close> is
    \<open>security/sandbox_env.py\<close>, with the environment of a command (\<open>tools/command.py\<close>, and the second
    scrub of \<open>security/command_sandbox.py\<close>), of a hook (\<open>hook_system.py\<close>) and of a spawned subagent.
  \<^item> \<^emph>\<open>The log.\<close> \<open>TraceEvents\<close>, \<open>TraceLog\<close>, \<open>TraceVerify\<close> and \<open>TraceRepair\<close> are \<open>trace/events.py\<close>,
    \<open>writer.py\<close>, \<open>verify.py\<close> and \<open>repair.py\<close>.
  \<^item> \<^emph>\<open>Provenance.\<close> \<open>Rootknot\<close> is \<open>core/rootknot.py\<close>: a knot ties the bytes of an artifact to the
    context that generated them, under up to three signatures. \<open>Provenance\<close> is \<open>core/provenance.py\<close>,
    the sidecar files and rows that hold the knots and the verifier of a workspace, and the write
    site \<open>_record_provenance\<close> of \<open>executor/steps.py\<close>. \<open>JsonDoc\<close> is \<open>json.dumps\<close> with sorted keys and an
    indent, as the sidecars are written, with its reader. \<open>Ledger\<close> is \<open>security/manifest_ledger.py\<close>: the
    hash-linked file of the manifests that were in force when knots were attested, their snapshots,
    the proofs of inclusion, and the observer that \<open>Rootknot.attest_environment\<close> calls; the observer
    is an argument of \<open>Rootknot\<close> and is instantiated here.
  \<^item> \<^emph>\<open>Context.\<close> \<open>Budget\<close> is \<open>memory/budget.py\<close> and \<open>memory/composition.py\<close>.

  \<^bold>\<open>What is shown.\<close>

  \<^item> A step is all or nothing, and leaves no container, process or helper behind
    (\<open>step_atomic\<close>, \<open>step_leaks_nothing\<close>); a loop that ends without success is undone commit by
    commit (\<open>dispose_undoes\<close>), and one that does not advance \<open>HEAD\<close> never moves it
    (\<open>detached_loop_keeps_head\<close>). A step that commits has the operator's signed consent for the
    handshakes it names (\<open>committed_steps_have_consent\<close>, below), whatever a cloned repository
    ships (\<open>approved_was_decided\<close>, \<open>request_stands\<close>), and a signed approval does unlock
    (\<open>signed_approval_unlocks\<close>). Tools run only behind every check and within the budget
    (\<open>call_needs_admission\<close>, \<open>tool_budget_bounds\<close>); deletes are paid for by evaluations
    (\<open>deletes_bounded_by_evaluations\<close>).
  \<^item> A predicate is met exactly by its evidence, a run exits with success only by it, the first cause
    that applies is the one reported, and the chains answer exactly what was appended
    (\<open>evaluate_by_evidence\<close>, \<open>exit_zero_by_evidence\<close>, \<open>first_cause_reported\<close>, \<open>ancestry_exact\<close>).
  \<^item> The registry of assumptions refines its log: a reload gives what memory held, also behind a kill
    (\<open>reload_recovers\<close>, \<open>append_killed_loads\<close>, \<open>rotate_always_loadable\<close>), and a violation reaches
    exactly the assumptions that rest on it, with a loop that ends whatever order the set is popped in
    (\<open>violate_propagates\<close>).
  \<^item> A command runs unasked only under a signed, unexpired, unrevoked grant whose rule matches, over
    files that are what was signed (\<open>tests_run_only_if_allowed\<close>, \<open>holding_grant_is_signed\<close>,
    \<open>revoked_stays_refused\<close>, \<open>unasked_files_were_signed\<close>, \<open>hard_floor_holds\<close>). Of the process's
    environment a sandboxed process gets exactly the declared names that are not forbidden
    (\<open>posix_env_exact\<close>, \<open>denied_names_never_pass\<close>, \<open>sandboxed_command_env\<close>), a repository's file
    widens it only as it was trusted (\<open>widening_was_trusted\<close>), and RACT's own variables are not
    inherited (\<open>spawned_env_exact\<close>).
  \<^item> A log that verifies is a chain and is fixed by its head, a log survives kills of its writer, and
    the quick verification agrees with the full one (\<open>valid_verdict_sound\<close>,
    \<open>verified_head_fixes_log\<close>, \<open>log_survives_kills\<close>, \<open>warm_agrees_with_cold\<close>).
  \<^item> A workspace is accepted exactly when every clause of the provenance contract holds for every knot
    and every ancestor that the walk reaches, in an order that names the first clause that failed,
    and then every artifact has the bytes that were signed for
    (\<open>verify_workspace_accepts_iff\<close>, \<open>violation_names_failing_clause\<close>,
    \<open>verified_workspace_attested\<close>). The signed bytes fix the knot (\<open>canonical_bytes_bind\<close>), what the
    program signs verifies (\<open>make_rootknot_v4_verifies\<close>), and what it saves is what it loads
    (\<open>saved_knot_loaded\<close>).
  \<^item> The ledger of manifests that the program writes verifies and can be read, an observation is
    recorded once, and a knot that is attested while a ledger is bound is on record
    (\<open>written_ledger_verifies\<close>, \<open>append_records_once\<close>, \<open>attested_run_on_record\<close>); the hash of the
    last entry fixes every entry, and a proof of inclusion that verifies against it shows inclusion,
    as the one that the program makes does (\<open>tail_fixes_ledger\<close>, \<open>proof_shows_inclusion\<close>,
    \<open>proof_of_verifies\<close>).

  Some theorems show what the code does and its documentation does not say; among them are
  \<open>rejection_unblocks\<close> (a rejected handshake no longer holds its step back), \<open>ticket_covers_any_path\<close>,
  \<open>short_args_logged_whole\<close>, \<open>sign_ignores_commit\<close>, \<open>torn_tail_swallows_append\<close>,
  \<open>burst_never_clears\<close>, \<open>sidecar_keeps_bytes_iff\<close> (which knots lose what was signed on the way
  through their sidecar) and \<open>recorded_knots_refused\<close> (what the executor records, the verifier of
  the third version of the contract refuses), \<open>torn_ledger_swallows\<close> (an append behind a torn line
  is lost and the one after it makes the ledger unreadable), \<open>loose_digest_accepted\<close> and
  \<open>proof_index_unchecked\<close>.

  \<^bold>\<open>Parameters.\<close> Code that is not in the repository is an argument: SHA-256 and NFC (\<open>sha256\<close>,
  \<open>nfc\<close>), the reading of float literals (\<open>fl\<close>), \<open>repr\<close> and conversions of foreign values (\<open>host\<close>),
  Unicode tables (\<open>textops\<close>), the file system outside a file under test (\<open>fsys\<close>, \<open>tree\<close>), the YAML
  loader, Ed25519 and the sandbox's self-test (\<open>grant_env\<close>), git (\<open>gitops\<close>), time stamps (\<open>hs_env\<close>),
  the step's runner and the tools, and what the caller of the workspace verifier supplies
  (\<open>verify_ctx\<close>: the verifier of signatures, the resolvers of keys, the register of manifests), and what
  the ledger uses of the library (\<open>ledger_env\<close>), and the platform with its \<open>str.upper\<close> (\<open>platform\<close>). What a theorem needs of them is a hypothesis that states their
  documented behaviour (NFC is idempotent and keeps ASCII, a digest has 32 bytes, a signature
  verifies, \<open>git reset\<close> moves the branch that is checked out or nothing), and each such theorem has a
  witness with concrete functions.

  \<^bold>\<open>Loops and fuel.\<close> The JSON reader carries \<open>2 * n + 2\<close> units for a text of length \<open>n\<close>, enough since
  every second nested call consumes a character. The propagation of a violation and the walk up the
  ancestry are shown to return; the walk from a knot to its ancestors ends since each step marks a
  stored digest that was not seen. Every other loop is structural or has a measure.

  \<^bold>\<open>Not modelled.\<close> Concurrency inside a process (locks are sequential retries), Windows branches, the
  text of messages where it quotes an exception of a library, trace events that nothing reads back,
  and the parts of the program that drive a model, draw the terminal, parse source code, store
  embeddings or talk HTTP. The manifest lists them part by part. Also
  left out are the encrypted operator key file with the unlock window (a cipher, a key derivation and
  a terminal prompt around few decisions), the receipt chain (its
  readers hang on SQLite and on modules that are not modelled), \<open>write_gate.py\<close>, and the decision
  tables of \<open>loop_controller.py\<close>, which are spread over calls of a model.
\<close>

section \<open>Properties that span components\<close>

subsection \<open>The burst limit and the registry\<close>

definition violated_ids :: "graph \<Rightarrow> string set" where
  "violated_ids d = {k. \<exists>a. map_of d k = Some a \<and> astate a = VIOLATED}"

lemma length_violated:
  assumes "wf_graph (assumptions reg)"
  shows "length (violated reg) = card (violated_ids (assumptions reg))"
proof -
  let ?d = "assumptions reg"
  let ?V = "filter (\<lambda>(k, a). astate a = VIOLATED) ?d"
  have dist: "distinct (map fst ?d)" using assms by (simp add: wf_graph_def wf_dict_def)
  then have "distinct (map fst ?V)" by (rule distinct_map_filter)
  then have "card (set (map fst ?V)) = length ?V" using distinct_card by fastforce
  moreover have "set (map fst ?V) = violated_ids ?d"
    using dist by (force simp: violated_ids_def map_of_eq_Some_iff)
  moreover have "length (violated reg) = length ?V"
    by (simp add: violated_def vals_def filter_map comp_def case_prod_unfold)
  ultimately show ?thesis by simp
qed

text \<open>
  The burst check counts every violation of the run: once more assumptions are violated
  than the limit allows, it fires after any further call of the registry, whatever the call
  does, so a limit that was exceeded once ends every later iteration.
\<close>

theorem burst_never_clears:
  assumes "reachable nfc reg" and "normalises nfc" and "admissible nfc reg op" and "env_nfc env = nfc"
    and "check_t4 reg threshold = Some ASSUMPTION_BURST"
  shows "check_t4 (exec env op reg) threshold = Some ASSUMPTION_BURST"
proof -
  let ?reg' = "exec env op reg"
  have reach: "reachable nfc ?reg'" using assms(1,3,4) by (rule reachable.call)
  have wf: "wf_graph (assumptions reg)" "wf_graph (assumptions ?reg')"
    using reachable_consistent [OF assms(1,2), of "\<lambda>_. FNan"] reachable_consistent [OF reach assms(2), of "\<lambda>_. FNan"]
    by (simp_all add: consistent_def good_graph_def)
  have "violated_ids (assumptions reg) \<subseteq> violated_ids (assumptions ?reg')"
  proof
    fix k assume "k \<in> violated_ids (assumptions reg)"
    then obtain a where a: "map_of (assumptions reg) k = Some a" "astate a = VIOLATED" by (auto simp: violated_ids_def)
    have "keeps (\<lambda>_. FNan) env reg ?reg'"
      using reachable_consistent [OF assms(1,2)] assms(2-4) by (intro exec_keeps) auto
    with a obtain b where "map_of (assumptions ?reg') k = Some b" "evolves a b"
      by (auto simp: keeps_def extends_graph_def)
    with a(2) show "k \<in> violated_ids (assumptions ?reg')" by (auto simp: evolves_def violated_ids_def)
  qed
  moreover have "finite (violated_ids (assumptions ?reg'))"
    by (rule finite_subset [of _ "dom (map_of (assumptions ?reg'))"]) (auto simp: violated_ids_def finite_dom_map_of)
  ultimately have "length (violated reg) \<le> length (violated ?reg')"
    by (simp add: length_violated wf card_mono)
  with assms(5) show ?thesis by (simp add: check_t4_def split: if_splits)
qed

theorem burst_never_clears_witness:
  "check_t4 (exec demo_env (Accept ''b'') demo_three) 1 = Some ASSUMPTION_BURST"
proof -
  have "check_t4 demo_three 1 = Some ASSUMPTION_BURST" by code_simp
  moreover have "admissible (\<lambda>s. s) demo_three (Accept ''b'')" by simp
  ultimately show ?thesis
    using burst_never_clears [OF demo_reachable(3) normalises_id _ demo_nfc] by blast
qed

subsection \<open>Steps and handshakes\<close>

text \<open>The registry as the transactional loop is given it; an exception is its text.\<close>

definition registry_blocks :: "hs_env \<Rightarrow> (hs_error \<Rightarrow> string) \<Rightarrow> int \<Rightarrow> hs_state \<Rightarrow> string list \<Rightarrow> string + string list" where
  "registry_blocks henv show_error now hst ids = map_sum show_error (\<lambda>bs. bs) (blocks_commit henv now hst ids)"

text \<open>The item that stands for an id, if there is one, is turned down or signed for.\<close>

definition consent :: "hs_env \<Rightarrow> int \<Rightarrow> hs_state \<Rightarrow> string \<Rightarrow> bool" where
  "consent henv now hst i \<longleftrightarrow>
    (case current henv hst i of
       None \<Rightarrow> True
     | Some it \<Rightarrow> hstatus it \<in> {''rejected'', ''deferred''} \<or> (hstatus it = ''approved'' \<and> operator_signed henv now hst it))"

lemma registry_unblocked: "registry_blocks henv show_error now hst ids = Inr [] \<longleftrightarrow> blocks_commit henv now hst ids = Inr []"
  by (cases "blocks_commit henv now hst ids") (simp_all add: registry_blocks_def)

interpretation hs_gate: commit_gate "registry_blocks henv show_error now hst" "consent henv now hst"
proof unfold_locales
  fix ids i
  assume "registry_blocks henv show_error now hst ids = Inr []" and "i \<in> set ids"
  then show "consent henv now hst i"
    by (auto simp: registry_unblocked consent_def dest: unblocked_signed split: option.splits)
qed


text \<open>A registry that holds nothing back changes nothing in a step.\<close>

lemma first_failed_handshakes: "first_failed (env\<lparr>le_handshakes := h\<rparr>) ws ps = first_failed env ws ps"
  by (induction ps) (simp_all split: sum.splits)

lemma finalize_unblocked:
  assumes "unresolved_of env spec = Inr []"
  shows "finalize g (env\<lparr>le_handshakes := None\<rparr>) spec txn ws st = finalize g env spec txn ws st"
  using assms by (simp add: finalize_def first_failed_handshakes unresolved_of_def Let_def split: sum.splits option.splits)

lemma run_step_unblocked:
  assumes "unresolved_of env spec = Inr []"
  shows "run_step g (env\<lparr>le_handshakes := None\<rparr>) knot spec runner st = run_step g env knot spec runner st"
proof -
  have path: "worktree_path (env\<lparr>le_handshakes := None\<rparr>) = worktree_path env" by (simp add: fun_eq_iff worktree_path_def)
  have create: "wt_create g (env\<lparr>le_handshakes := None\<rparr>) = wt_create g env"
    unfolding fun_eq_iff wt_create_def path by simp
  have start: "start_container (env\<lparr>le_handshakes := None\<rparr>) = start_container env"
    by (simp add: fun_eq_iff start_container_def)
  have txn: "new_txn (env\<lparr>le_handshakes := None\<rparr>) = new_txn env" by (simp add: fun_eq_iff new_txn_def)
  have body: "step_body g (env\<lparr>le_handshakes := None\<rparr>) spec = step_body g env spec"
    unfolding fun_eq_iff step_body_def txn finalize_unblocked [OF assms] by simp
  show ?thesis unfolding run_step_def create start body ..
qed

definition demo_spec :: step_spec where
  "demo_spec = (demo_step CHR ''a'' [])\<lparr>handshake_ids := [''deploy'']\<rparr>"

definition demo_gated_env :: loop_env where
  "demo_gated_env = demo_loop_env\<lparr>le_handshakes := Some (registry_blocks demo_hs_env (\<lambda>_. []) 0 demo_approved)\<rparr>"


end
